(* ===== verification/Emu_Prelude.thy ===== *)
theory Emu_Prelude
  imports Main "HOL-Library.Word"
begin

text \<open>
  Shared vocabulary of the development.
  \<^item> the machine types of \<^verbatim>\<open>common/common_types.h\<close> as words;
  \<^item> unsigned 32-bit arithmetic on \<open>nat\<close> with the wrap-around written out, for the components
    whose proofs are about address ranges (\<open>add32\<close>, \<open>sub32\<close>);
  \<^item> the outcome of an operation that can return a \<^verbatim>\<open>Result\<close> or hit an \<^verbatim>\<open>ASSERT\<close>
    (\<^verbatim>\<open>common/assert.h\<close>: a failed \<^verbatim>\<open>ASSERT\<close> terminates the emulator, in every build);
  \<^item> generic lemmas on lists used by several components.
\<close>

section \<open>Machine integers\<close>

type_synonym u8 = "8 word"
type_synonym u16 = "16 word"
type_synonym u32 = "32 word"
type_synonym u64 = "64 word"

text \<open>The development's collections of rewrite rules.\<close>

named_theorems emu_defs \<open>definitions of the model that proofs unfold\<close>
named_theorems arith32 \<open>32-bit arithmetic on natural numbers\<close>

definition add32 :: "nat \<Rightarrow> nat \<Rightarrow> nat" where
  "add32 a b = (a + b) mod 4294967296"

definition sub32 :: "nat \<Rightarrow> nat \<Rightarrow> nat" where
  "sub32 a b = (a + (4294967296 - b mod 4294967296)) mod 4294967296"

lemma add32_small [arith32]: "a + b < 4294967296 \<Longrightarrow> add32 a b = a + b"
  by (simp add: add32_def)

lemma add32_wrap [arith32]:
  "a < 4294967296 \<Longrightarrow> b < 4294967296 \<Longrightarrow> 4294967296 \<le> a + b \<Longrightarrow> add32 a b = a + b - 4294967296"
  by (simp add: add32_def mod_if)

lemma add32_bound [simp]: "add32 a b < 4294967296"
  by (simp add: add32_def)

lemma sub32_small [arith32]: "b \<le> a \<Longrightarrow> a < 4294967296 \<Longrightarrow> sub32 a b = a - b"
  by (simp add: sub32_def mod_if)

lemma sub32_bound [simp]: "sub32 a b < 4294967296"
  by (simp add: sub32_def)

text \<open>The overflow test \<^verbatim>\<open>a + b < a\<close> of the source detects exactly the wrap-around.\<close>

lemma add32_overflow_iff:
  "a < 4294967296 \<Longrightarrow> b < 4294967296 \<Longrightarrow> add32 a b < a \<longleftrightarrow> 4294967296 \<le> a + b"
  by (cases "a + b < 4294967296") (auto simp: arith32)

section \<open>Outcomes\<close>

text \<open>
  \<open>Ok s a\<close>: the operation returned success with value \<open>a\<close>; \<open>Err s c\<close>: it returned the error
  code \<open>c\<close>; in both cases \<open>s\<close> is the state it left behind. \<open>Crash\<close>: an \<^verbatim>\<open>ASSERT\<close>
  failed or the code would have dereferenced an invalid iterator.
\<close>

datatype ('s, 'a) outcome = Ok 's 'a | Err 's u32 | Crash

fun bindO :: "('s, 'a) outcome \<Rightarrow> ('s \<Rightarrow> 'a \<Rightarrow> ('s, 'b) outcome) \<Rightarrow> ('s, 'b) outcome" where
  "bindO (Ok s a) f = f s a"
| "bindO (Err s c) f = Err s c"
| "bindO Crash f = Crash"

text \<open>\<^verbatim>\<open>ASSERT(b)\<close> before \<open>m\<close>, and \<^verbatim>\<open>R_UNLESS(b, c)\<close> in state \<open>s\<close> before \<open>m\<close>.\<close>

definition assertO :: "bool \<Rightarrow> ('s, 'a) outcome \<Rightarrow> ('s, 'a) outcome" where
  [emu_defs]: "assertO b m = (if b then m else Crash)"

definition unlessO :: "bool \<Rightarrow> 's \<Rightarrow> u32 \<Rightarrow> ('s, 'a) outcome \<Rightarrow> ('s, 'a) outcome" where
  [emu_defs]: "unlessO b s c m = (if b then m else Err s c)"

lemma bindO_eq_Ok [simp]:
  "bindO m f = Ok s b \<longleftrightarrow> (\<exists>s' a. m = Ok s' a \<and> f s' a = Ok s b)"
  by (cases m) auto

lemma bindO_eq_Err [simp]:
  "bindO m f = Err s c \<longleftrightarrow> m = Err s c \<or> (\<exists>s' a. m = Ok s' a \<and> f s' a = Err s c)"
  by (cases m) auto

lemma bindO_eq_Crash [simp]:
  "bindO m f = Crash \<longleftrightarrow> m = Crash \<or> (\<exists>s' a. m = Ok s' a \<and> f s' a = Crash)"
  by (cases m) auto

lemma assertO_simps [simp]:
  "assertO True m = m"
  "assertO False m = Crash"
  by (simp_all add: assertO_def)

lemma assertO_eq_Ok [simp]: "assertO b m = Ok s a \<longleftrightarrow> b \<and> m = Ok s a"
  by (simp add: assertO_def)

lemma assertO_eq_Err [simp]: "assertO b m = Err s c \<longleftrightarrow> b \<and> m = Err s c"
  by (simp add: assertO_def)

lemma unlessO_simps [simp]:
  "unlessO True s c m = m"
  "unlessO False s c m = Err s c"
  by (simp_all add: unlessO_def)

lemma unlessO_eq_Ok [simp]: "unlessO b s c m = Ok s' a \<longleftrightarrow> b \<and> m = Ok s' a"
  by (simp add: unlessO_def)

lemma unlessO_eq_Crash [simp]: "unlessO b s c m = Crash \<longleftrightarrow> b \<and> m = Crash"
  by (simp add: unlessO_def)

section \<open>Lists\<close>

lemma nth_list_update_cases:
  "i < length xs \<Longrightarrow> j < length xs \<Longrightarrow> xs[i := v] ! j = (if i = j then v else xs ! j)"
  by simp

lemma set_list_update_eq:
  "i < length xs \<Longrightarrow> distinct xs \<Longrightarrow> set (xs[i := v]) = insert v (set xs - {xs ! i})"
  by (auto simp: in_set_conv_nth nth_eq_iff_index_eq nth_list_update split: if_splits)

end
