(* ===== verification/Bit_Field.thy ===== *)
theory Bit_Field
  imports Emu_Prelude
begin

text \<open>
  The \<^verbatim>\<open>BitField\<close> template of \<^verbatim>\<open>src/common/bit_field.h\<close>: a field of \<open>bits\<close> bits at
  \<open>position\<close> inside a storage word. \<open>8 * sizeof(T)\<close> is the width \<open>LENGTH('a)\<close> of the storage.
  The \<^verbatim>\<open>static_assert\<close>s of the template are the assumptions of the locale \<open>bit_field\<close>; its
  lemmas are the laws every instance of the template satisfies. \<open>bit_field_pair\<close> adds a second,
  disjoint field of the same union.
\<close>

unbundle bit_operations_syntax

definition bf_mask :: "nat \<Rightarrow> nat \<Rightarrow> 'a::len word" where
  "bf_mask position bits = push_bit position (drop_bit (LENGTH('a) - bits) (NOT 0))"

definition FormatValue :: "nat \<Rightarrow> nat \<Rightarrow> 'a::len word \<Rightarrow> 'a word" where
  "FormatValue position bits value = push_bit position value AND bf_mask position bits"

definition ExtractValue :: "nat \<Rightarrow> nat \<Rightarrow> 'a::len word \<Rightarrow> 'a word" where
  "ExtractValue position bits storage = drop_bit position (storage AND bf_mask position bits)"

text \<open>The branch of \<^verbatim>\<open>ExtractValue\<close> for a signed underlying type.\<close>

definition ExtractValueSigned :: "nat \<Rightarrow> nat \<Rightarrow> 'a::len word \<Rightarrow> 'a word" where
  "ExtractValueSigned position bits storage =
     (let shift = LENGTH('a) - bits
      in signed_drop_bit shift (push_bit (shift - position) storage))"

definition Assign :: "nat \<Rightarrow> nat \<Rightarrow> 'a::len word \<Rightarrow> 'a word \<Rightarrow> 'a word" where
  "Assign position bits storage value =
     (storage AND NOT (bf_mask position bits)) OR FormatValue position bits value"

lemma bit_bf_mask_iff [bit_simps]:
  "bits \<le> LENGTH('a) \<Longrightarrow>
   bit (bf_mask position bits :: 'a::len word) n \<longleftrightarrow>
   n < LENGTH('a) \<and> position \<le> n \<and> n < position + bits"
  by (auto simp: bf_mask_def bit_simps)

locale bit_field =
  fixes position bits :: nat and storage_ty :: "'a::len itself"
  assumes in_range: "bits + position \<le> LENGTH('a)"
    and bits_pos: "0 < bits"
begin

lemma bits_le [simp]: "bits \<le> LENGTH('a)"
  using in_range by simp

lemma bit_Format:
  "bit (FormatValue position bits v :: 'a word) n \<longleftrightarrow>
   position \<le> n \<and> n < position + bits \<and> bit v (n - position)"
  using in_range by (auto simp: FormatValue_def bit_simps)

lemma bit_Extract:
  "bit (ExtractValue position bits s :: 'a word) n \<longleftrightarrow> n < bits \<and> bit s (n + position)"
  using in_range by (auto simp: ExtractValue_def bit_simps ac_simps)

lemma bit_Assign:
  "bit (Assign position bits s v :: 'a word) n \<longleftrightarrow>
   (if position \<le> n \<and> n < position + bits then bit v (n - position) else bit s n)"
  using in_range
  by (auto simp: Assign_def bit_simps bit_Format) (auto dest: bit_imp_le_length)

lemma Extract_Format: "ExtractValue position bits (FormatValue position bits v) = (take_bit bits v :: 'a word)"
  using in_range by (intro bit_word_eqI) (auto simp: bit_Extract bit_Format bit_simps)

lemma Extract_Assign: "ExtractValue position bits (Assign position bits s v) = (take_bit bits v :: 'a word)"
  using in_range by (intro bit_word_eqI) (auto simp: bit_Extract bit_Assign bit_simps)

lemma Assign_Extract: "Assign position bits s (ExtractValue position bits s) = (s :: 'a word)"
  using in_range by (intro bit_word_eqI) (auto simp: bit_Extract bit_Assign)

lemma Assign_Assign: "Assign position bits (Assign position bits s u) v = (Assign position bits s v :: 'a word)"
  by (intro bit_word_eqI) (auto simp: bit_Assign)

end

locale bit_field_pair = f: bit_field position bits storage_ty + g: bit_field position' bits' storage_ty
  for position bits position' bits' :: nat and storage_ty :: "'a::len itself" +
  assumes disjoint: "position + bits \<le> position' \<or> position' + bits' \<le> position"
begin

lemma Extract_Assign_other:
  "ExtractValue position bits (Assign position' bits' s v) = (ExtractValue position bits s :: 'a word)"
  using disjoint by (intro bit_word_eqI) (auto simp: f.bit_Extract g.bit_Assign)

lemma Assign_commute:
  "Assign position bits (Assign position' bits' s v) w =
   (Assign position' bits' (Assign position bits s w) v :: 'a word)"
  using disjoint by (intro bit_word_eqI) (auto simp: f.bit_Assign g.bit_Assign)

lemma Extract_or_Format_other:
  "ExtractValue position bits (s OR FormatValue position' bits' v) = (ExtractValue position bits s :: 'a word)"
  using disjoint by (intro bit_word_eqI) (auto simp: f.bit_Extract g.bit_Format bit_simps)

end

end
