(* ===== verification/Result_Code.thy ===== *)
theory Result_Code
  imports Bit_Field
begin

text \<open>
  CTR-OS result codes: \<^verbatim>\<open>src/core/hle/result.h\<close> and the kernel's constants of
  \<^verbatim>\<open>src/core/hle/kernel/errors.h\<close>. A \<^verbatim>\<open>Result\<close> is its raw 32-bit word; its four fields and
  the error bit are bit fields of that word. The lemmas show that building a result and reading its
  fields back are inverse, and that the test \<^verbatim>\<open>IsError\<close> agrees with the level.
\<close>

section \<open>Enumerations\<close>

text \<open>
  \<^verbatim>\<open>ErrorModule\<close> is used as its underlying \<^verbatim>\<open>u32\<close>; the kernel's constants name three of its
  values.
\<close>

definition EM_Kernel :: u32 where "EM_Kernel = 1"
definition EM_OS :: u32 where "EM_OS = 6"
definition EM_FND :: u32 where "EM_FND = 36"

datatype ErrorSummary = ES_Success | ES_NothingHappened | ES_WouldBlock | ES_OutOfResource
  | ES_NotFound | ES_InvalidState | ES_NotSupported | ES_InvalidArgument | ES_WrongArgument
  | ES_Canceled | ES_StatusChanged | ES_Internal | ES_InvalidResult

fun summary_val :: "ErrorSummary \<Rightarrow> u32" where
  "summary_val ES_Success = 0"
| "summary_val ES_NothingHappened = 1"
| "summary_val ES_WouldBlock = 2"
| "summary_val ES_OutOfResource = 3"
| "summary_val ES_NotFound = 4"
| "summary_val ES_InvalidState = 5"
| "summary_val ES_NotSupported = 6"
| "summary_val ES_InvalidArgument = 7"
| "summary_val ES_WrongArgument = 8"
| "summary_val ES_Canceled = 9"
| "summary_val ES_StatusChanged = 10"
| "summary_val ES_Internal = 11"
| "summary_val ES_InvalidResult = 63"

datatype ErrorLevel = EL_Success | EL_Info | EL_Status | EL_Temporary | EL_Permanent | EL_Usage
  | EL_Reinitialize | EL_Reset | EL_Fatal

fun level_val :: "ErrorLevel \<Rightarrow> u32" where
  "level_val EL_Success = 0"
| "level_val EL_Info = 1"
| "level_val EL_Status = 25"
| "level_val EL_Temporary = 26"
| "level_val EL_Permanent = 27"
| "level_val EL_Usage = 28"
| "level_val EL_Reinitialize = 29"
| "level_val EL_Reset = 30"
| "level_val EL_Fatal = 31"

text \<open>The well-known descriptions (1000 and above).\<close>

datatype ErrorDescription = ED_Success | ED_InvalidSection | ED_TooLarge | ED_NotAuthorized
  | ED_AlreadyDone | ED_InvalidSize | ED_InvalidEnumValue | ED_InvalidCombination | ED_NoData
  | ED_Busy | ED_MisalignedAddress | ED_MisalignedSize | ED_OutOfMemory | ED_NotImplemented
  | ED_InvalidAddress | ED_InvalidPointer | ED_InvalidHandle | ED_NotInitialized
  | ED_AlreadyInitialized | ED_NotFound | ED_CancelRequested | ED_AlreadyExists | ED_OutOfRange
  | ED_Timeout | ED_InvalidResultValue

fun description_val :: "ErrorDescription \<Rightarrow> u32" where
  "description_val ED_Success = 0"
| "description_val ED_InvalidSection = 1000"
| "description_val ED_TooLarge = 1001"
| "description_val ED_NotAuthorized = 1002"
| "description_val ED_AlreadyDone = 1003"
| "description_val ED_InvalidSize = 1004"
| "description_val ED_InvalidEnumValue = 1005"
| "description_val ED_InvalidCombination = 1006"
| "description_val ED_NoData = 1007"
| "description_val ED_Busy = 1008"
| "description_val ED_MisalignedAddress = 1009"
| "description_val ED_MisalignedSize = 1010"
| "description_val ED_OutOfMemory = 1011"
| "description_val ED_NotImplemented = 1012"
| "description_val ED_InvalidAddress = 1013"
| "description_val ED_InvalidPointer = 1014"
| "description_val ED_InvalidHandle = 1015"
| "description_val ED_NotInitialized = 1016"
| "description_val ED_AlreadyInitialized = 1017"
| "description_val ED_NotFound = 1018"
| "description_val ED_CancelRequested = 1019"
| "description_val ED_AlreadyExists = 1020"
| "description_val ED_OutOfRange = 1021"
| "description_val ED_Timeout = 1022"
| "description_val ED_InvalidResultValue = 1023"

section \<open>The Result union\<close>

definition MakeResultRaw :: "u32 \<Rightarrow> u32 \<Rightarrow> ErrorSummary \<Rightarrow> ErrorLevel \<Rightarrow> u32" where
  "MakeResultRaw d m s l =
     FormatValue 0 10 d OR FormatValue 10 8 m
     OR FormatValue 21 6 (summary_val s) OR FormatValue 27 5 (level_val l)"

definition MakeResult :: "ErrorDescription \<Rightarrow> u32 \<Rightarrow> ErrorSummary \<Rightarrow> ErrorLevel \<Rightarrow> u32" where
  "MakeResult d m s l = MakeResultRaw (description_val d) m s l"

definition res_description :: "u32 \<Rightarrow> u32" where "res_description raw = ExtractValue 0 10 raw"
definition res_module :: "u32 \<Rightarrow> u32" where "res_module raw = ExtractValue 10 8 raw"
definition res_summary :: "u32 \<Rightarrow> u32" where "res_summary raw = ExtractValue 21 6 raw"
definition res_level :: "u32 \<Rightarrow> u32" where "res_level raw = ExtractValue 27 5 raw"

definition IsSuccess :: "u32 \<Rightarrow> bool" where "IsSuccess raw \<longleftrightarrow> ExtractValue 31 1 raw = 0"
definition IsError :: "u32 \<Rightarrow> bool" where "IsError raw \<longleftrightarrow> ExtractValue 31 1 raw = 1"

definition ResultSuccess :: u32 where "ResultSuccess = 0"
definition ResultUnknown :: u32 where "ResultUnknown = NOT 0"

section \<open>The kernel's constants\<close>

definition OutOfHandles :: u32 where "OutOfHandles = 19"
definition WrongLockingThread :: u32 where "WrongLockingThread = 31"
definition CommandTooLarge :: u32 where "CommandTooLarge = 54"

definition ResultOutOfHandles :: u32 where
  "ResultOutOfHandles = MakeResultRaw OutOfHandles EM_Kernel ES_OutOfResource EL_Permanent"
definition ResultSessionClosed :: u32 where
  "ResultSessionClosed = MakeResultRaw 26 EM_OS ES_Canceled EL_Status"
definition ResultPortNameTooLong :: u32 where
  "ResultPortNameTooLong = MakeResultRaw 30 EM_OS ES_InvalidArgument EL_Usage"
definition ResultWrongPermission :: u32 where
  "ResultWrongPermission = MakeResultRaw 46 EM_OS ES_WrongArgument EL_Permanent"
definition ResultInvalidBufferDescriptor :: u32 where
  "ResultInvalidBufferDescriptor = MakeResultRaw 48 EM_OS ES_WrongArgument EL_Permanent"
definition ResultMaxConnectionsReached :: u32 where
  "ResultMaxConnectionsReached = MakeResultRaw 52 EM_OS ES_WouldBlock EL_Temporary"
definition ResultNotAuthorized :: u32 where
  "ResultNotAuthorized = MakeResult ED_NotAuthorized EM_OS ES_WrongArgument EL_Permanent"
definition ResultInvalidEnumValue :: u32 where
  "ResultInvalidEnumValue = MakeResult ED_InvalidEnumValue EM_Kernel ES_InvalidArgument EL_Permanent"
definition ResultInvalidEnumValueFnd :: u32 where
  "ResultInvalidEnumValueFnd = MakeResult ED_InvalidEnumValue EM_FND ES_InvalidArgument EL_Permanent"
definition ResultInvalidCombination :: u32 where
  "ResultInvalidCombination = MakeResult ED_InvalidCombination EM_OS ES_InvalidArgument EL_Usage"
definition ResultInvalidCombinationKernel :: u32 where
  "ResultInvalidCombinationKernel = MakeResult ED_InvalidCombination EM_Kernel ES_WrongArgument EL_Permanent"
definition ResultMisalignedAddress :: u32 where
  "ResultMisalignedAddress = MakeResult ED_MisalignedAddress EM_OS ES_InvalidArgument EL_Usage"
definition ResultMisalignedSize :: u32 where
  "ResultMisalignedSize = MakeResult ED_MisalignedSize EM_OS ES_InvalidArgument EL_Usage"
definition ResultOutOfMemory :: u32 where
  "ResultOutOfMemory = MakeResult ED_OutOfMemory EM_Kernel ES_OutOfResource EL_Permanent"
definition ResultOutOfHeapMemory :: u32 where
  "ResultOutOfHeapMemory = MakeResult ED_OutOfMemory EM_OS ES_OutOfResource EL_Status"
definition ResultNotImplemented :: u32 where
  "ResultNotImplemented = MakeResult ED_NotImplemented EM_OS ES_InvalidArgument EL_Usage"
definition ResultInvalidAddress :: u32 where
  "ResultInvalidAddress = MakeResult ED_InvalidAddress EM_OS ES_InvalidArgument EL_Usage"
definition ResultInvalidAddressState :: u32 where
  "ResultInvalidAddressState = MakeResult ED_InvalidAddress EM_OS ES_InvalidState EL_Usage"
definition ResultInvalidPointer :: u32 where
  "ResultInvalidPointer = MakeResult ED_InvalidPointer EM_Kernel ES_InvalidArgument EL_Permanent"
definition ResultInvalidHandle :: u32 where
  "ResultInvalidHandle = MakeResult ED_InvalidHandle EM_Kernel ES_InvalidArgument EL_Permanent"
definition ResultInvalidHandleOs :: u32 where
  "ResultInvalidHandleOs = MakeResult ED_InvalidHandle EM_OS ES_WrongArgument EL_Permanent"
definition ResultNotFound :: u32 where
  "ResultNotFound = MakeResult ED_NotFound EM_Kernel ES_NotFound EL_Permanent"
definition ResultOutOfRange :: u32 where
  "ResultOutOfRange = MakeResult ED_OutOfRange EM_OS ES_InvalidArgument EL_Usage"
definition ResultOutOfRangeKernel :: u32 where
  "ResultOutOfRangeKernel = MakeResult ED_OutOfRange EM_Kernel ES_InvalidArgument EL_Permanent"
definition ResultTimeout :: u32 where
  "ResultTimeout = MakeResult ED_Timeout EM_OS ES_StatusChanged EL_Info"
definition ResultNoPendingSessions :: u32 where
  "ResultNoPendingSessions = MakeResultRaw 35 EM_OS ES_WouldBlock EL_Permanent"

section \<open>Laws\<close>

interpretation descr_f: bit_field 0 10 "TYPE(32)" by unfold_locales simp_all
interpretation module_f: bit_field 10 8 "TYPE(32)" by unfold_locales simp_all
interpretation summary_f: bit_field 21 6 "TYPE(32)" by unfold_locales simp_all
interpretation level_f: bit_field 27 5 "TYPE(32)" by unfold_locales simp_all
interpretation error_f: bit_field 31 1 "TYPE(32)" by unfold_locales simp_all

lemmas result_bits = descr_f.bit_Format module_f.bit_Format summary_f.bit_Format level_f.bit_Format
  descr_f.bit_Extract module_f.bit_Extract summary_f.bit_Extract level_f.bit_Extract error_f.bit_Extract

lemma res_description_Make: "res_description (MakeResultRaw d m s l) = take_bit 10 d"
  by (rule bit_word_eqI) (auto simp: res_description_def MakeResultRaw_def result_bits bit_simps)

lemma res_module_Make: "res_module (MakeResultRaw d m s l) = take_bit 8 m"
  by (rule bit_word_eqI) (auto simp: res_module_def MakeResultRaw_def result_bits bit_simps)

lemma res_summary_Make: "res_summary (MakeResultRaw d m s l) = take_bit 6 (summary_val s)"
  by (rule bit_word_eqI) (auto simp: res_summary_def MakeResultRaw_def result_bits bit_simps)

lemma res_level_Make: "res_level (MakeResultRaw d m s l) = take_bit 5 (level_val l)"
  by (rule bit_word_eqI) (auto simp: res_level_def MakeResultRaw_def result_bits bit_simps)

lemma take_bit_summary_val [simp]: "take_bit 6 (summary_val s) = summary_val s"
  by (cases s) simp_all

lemma take_bit_level_val [simp]: "take_bit 5 (level_val l) = level_val l"
  by (cases l) simp_all

lemma take_bit_description_val [simp]: "take_bit 10 (description_val d) = description_val d"
  by (cases d) simp_all

lemma ExtractValue_31: "ExtractValue 31 1 (raw :: u32) = (if bit raw 31 then 1 else 0)"
  by (rule bit_word_eqI) (auto simp: error_f.bit_Extract bit_simps simp del: One_nat_def)

lemma IsError_iff: "IsError raw \<longleftrightarrow> bit raw 31"
  by (simp add: IsError_def ExtractValue_31 del: One_nat_def)

lemma IsSuccess_iff: "IsSuccess raw \<longleftrightarrow> \<not> bit raw 31"
  by (simp add: IsSuccess_def ExtractValue_31 del: One_nat_def)

lemma level_val_bit4: "bit (level_val l) 4 \<longleftrightarrow> l \<noteq> EL_Success \<and> l \<noteq> EL_Info"
  by (cases l) (simp_all add: bit_numeral_rec)

lemma IsError_Make: "IsError (MakeResultRaw d m s l) \<longleftrightarrow> l \<noteq> EL_Success \<and> l \<noteq> EL_Info"
  by (simp add: IsError_iff MakeResultRaw_def result_bits bit_simps level_val_bit4)

end
