(* ===== verification/Handle_Table.thy ===== *)
theory Handle_Table
  imports Result_Code
begin

text \<open>
  \<^verbatim>\<open>Kernel::HandleTable\<close> (\<^verbatim>\<open>src/core/hle/kernel/handle_table.h\<close> and
  \<^verbatim>\<open>handle_table.cpp\<close>): the per-process table from handles to kernel objects, with the free slots
  threaded through the \<^verbatim>\<open>generations\<close> array as a linked list. The objects are of an arbitrary type
  \<open>'o\<close>. The pseudo-handles are resolved with the current thread and process, which are arguments.

  The invariant \<open>ht_inv\<close> says that the list of free slots is complete, without repetition and ends at
  \<open>MAX_COUNT\<close>, and that generations stay in 1..0x7FFF. The locale \<open>object_table\<close> is the contract the
  rest of the kernel relies on; it is interpreted on the definitions of this theory.
\<close>

section \<open>Definitions\<close>

definition MAX_COUNT :: nat where "MAX_COUNT = 4096"

definition CurrentThread :: u32 where "CurrentThread = 0xFFFF8000"
definition CurrentProcess :: u32 where "CurrentProcess = 0xFFFF8001"

record 'o handle_table =
  objects :: "'o option list"
  generations :: "u16 list"
  next_generation :: u16
  next_free_slot :: u16

definition GetSlot :: "u32 \<Rightarrow> u16" where
  "GetSlot handle = ucast (drop_bit 15 handle)"

definition GetGeneration :: "u32 \<Rightarrow> u16" where
  "GetGeneration handle = ucast (handle AND 0x7FFF)"

definition Clear :: "'o handle_table \<Rightarrow> 'o handle_table" where
  "Clear t = t\<lparr>generations := map (\<lambda>i. of_nat (i + 1)) [0..<MAX_COUNT],
               objects := replicate MAX_COUNT None, next_free_slot := 0\<rparr>"

text \<open>The constructor: the arrays are filled by \<^verbatim>\<open>Clear\<close>.\<close>

definition HandleTable :: "'o handle_table" where
  "HandleTable = Clear \<lparr>objects = [], generations = [], next_generation = 1, next_free_slot = 0\<rparr>"

definition Create :: "'o handle_table \<Rightarrow> 'o \<Rightarrow> ('o handle_table, u32) outcome" where
  "Create t obj =
     (let slot = next_free_slot t in
      unlessO (unat slot < length (generations t)) t ResultOutOfHandles
        (let t1 = t\<lparr>next_free_slot := generations t ! unat slot\<rparr>;
             generation = next_generation t1;
             ng = next_generation t1 + 1;
             t2 = t1\<lparr>next_generation := (if unat ng \<ge> 2 ^ 15 then 1 else ng)\<rparr>;
             t3 = t2\<lparr>generations := (generations t2)[unat slot := generation],
                     objects := (objects t2)[unat slot := Some obj]\<rparr>
         in Ok t3 (ucast generation OR push_bit 15 (ucast slot))))"

definition IsValid :: "'o handle_table \<Rightarrow> u32 \<Rightarrow> bool" where
  "IsValid t handle =
     (let slot = GetSlot handle; generation = GetGeneration handle
      in unat slot < MAX_COUNT \<and> objects t ! unat slot \<noteq> None
         \<and> generations t ! unat slot = generation)"

text \<open>
  \<^verbatim>\<open>GetGeneric\<close>: \<open>cur_thread\<close> and \<open>cur_process\<close> are what
  \<^verbatim>\<open>kernel.GetCurrentThreadManager().GetCurrentThread()\<close> and \<^verbatim>\<open>kernel.GetCurrentProcess()\<close> return
  (\<open>None\<close> is the null pointer).
\<close>

definition GetGeneric :: "'o option \<Rightarrow> 'o option \<Rightarrow> 'o handle_table \<Rightarrow> u32 \<Rightarrow> 'o option" where
  "GetGeneric cur_thread cur_process t handle =
     (if handle = CurrentThread then cur_thread
      else if handle = CurrentProcess then cur_process
      else if \<not> IsValid t handle then None
      else objects t ! unat (GetSlot handle))"

definition Close :: "'o handle_table \<Rightarrow> u32 \<Rightarrow> ('o handle_table, unit) outcome" where
  "Close t handle =
     unlessO (IsValid t handle) t ResultInvalidHandle
       (let slot = GetSlot handle;
            t1 = t\<lparr>objects := (objects t)[unat slot := None]\<rparr>;
            t2 = t1\<lparr>generations := (generations t1)[unat slot := next_free_slot t1]\<rparr>
        in Ok (t2\<lparr>next_free_slot := slot\<rparr>) ())"

definition Duplicate ::
  "'o option \<Rightarrow> 'o option \<Rightarrow> 'o handle_table \<Rightarrow> u32 \<Rightarrow> ('o handle_table, u32) outcome" where
  "Duplicate cur_thread cur_process t handle =
     (case GetGeneric cur_thread cur_process t handle of
        None \<Rightarrow> Err t ResultInvalidHandle
      | Some object \<Rightarrow> Create t object)"

section \<open>The free list and the invariant\<close>

text \<open>\<open>free_chain g s fs\<close>: starting at slot \<open>s\<close>, the links in \<open>g\<close> visit \<open>fs\<close> and then leave the table.\<close>

fun free_chain :: "u16 list \<Rightarrow> u16 \<Rightarrow> u16 list \<Rightarrow> bool" where
  "free_chain g s [] \<longleftrightarrow> unat s = MAX_COUNT"
| "free_chain g s (x # xs) \<longleftrightarrow> s = x \<and> unat x < MAX_COUNT \<and> free_chain g (g ! unat x) xs"

definition gen_ok :: "u16 \<Rightarrow> bool" where
  "gen_ok g \<longleftrightarrow> 1 \<le> unat g \<and> unat g < 2 ^ 15"

definition ht_inv_with :: "'o handle_table \<Rightarrow> u16 list \<Rightarrow> bool" where
  "ht_inv_with t fs \<longleftrightarrow>
     length (objects t) = MAX_COUNT \<and> length (generations t) = MAX_COUNT \<and>
     free_chain (generations t) (next_free_slot t) fs \<and> distinct fs \<and>
     (\<forall>i < MAX_COUNT. objects t ! i = None \<longleftrightarrow> of_nat i \<in> set fs) \<and>
     (\<forall>i < MAX_COUNT. objects t ! i \<noteq> None \<longrightarrow> gen_ok (generations t ! i)) \<and>
     gen_ok (next_generation t)"

definition ht_inv :: "'o handle_table \<Rightarrow> bool" where
  "ht_inv t \<longleftrightarrow> (\<exists>fs. ht_inv_with t fs)"

lemma unat_of_nat_slot [simp]: "i \<le> MAX_COUNT \<Longrightarrow> unat (of_nat i :: u16) = i"
  by (simp add: MAX_COUNT_def unat_of_nat)

lemma of_nat_unat_slot [simp]: "of_nat (unat (s :: u16)) = s"
  by simp

lemma slot_eq [simp]: "unat (x :: u16) = unat y \<longleftrightarrow> x = y"
  by (simp add: word_unat_eq_iff)

lemma slot_of_nat: "of_nat i = (x :: u16) \<Longrightarrow> i < MAX_COUNT \<Longrightarrow> i = unat x"
  by auto

lemma slot_notin: "(x :: u16) \<notin> S \<Longrightarrow> unat x \<notin> unat ` S"
  by auto

lemma free_chain_bound: "free_chain g s fs \<Longrightarrow> x \<in> set fs \<Longrightarrow> unat x < MAX_COUNT"
  by (induction fs arbitrary: s) auto

lemma free_chain_update:
  "free_chain g s fs \<Longrightarrow> i \<notin> unat ` set fs \<Longrightarrow> free_chain (g[i := v]) s fs"
  by (induction fs arbitrary: s) auto

lemma free_chain_nil_iff: "free_chain g s fs \<Longrightarrow> fs = [] \<longleftrightarrow> MAX_COUNT \<le> unat s"
  by (cases fs) auto


section \<open>Handles as pairs of slot and generation\<close>

definition make_handle :: "u16 \<Rightarrow> u16 \<Rightarrow> u32" where
  "make_handle slot generation = ucast generation OR push_bit 15 (ucast slot)"

lemma gen_ok_bit15: "gen_ok g \<Longrightarrow> \<not> bit g 15"
proof
  assume g: "gen_ok g" and b: "bit g 15"
  have "bit (unat g) 15" using b by (simp add: bit_unsigned_iff)
  moreover have "unat g div 2 ^ 15 = 0" using g by (simp add: gen_ok_def)
  ultimately show False by (simp add: bit_iff_odd)
qed

lemma GetSlot_make [simp]:
  assumes "gen_ok g" shows "GetSlot (make_handle s g) = s"
proof (rule bit_word_eqI)
  fix n assume n: "n < LENGTH(16)"
  show "bit (GetSlot (make_handle s g)) n = bit s n"
  proof (cases n)
    case 0
    with gen_ok_bit15 [OF assms] show ?thesis
      by (simp add: GetSlot_def make_handle_def bit_simps)
  next
    case (Suc m)
    with n have "\<not> bit g (15 + n)" by (intro notI) (auto dest: bit_imp_le_length)
    with n show ?thesis by (simp add: GetSlot_def make_handle_def bit_simps)
  qed
qed

lemma GetGeneration_make [simp]:
  assumes "gen_ok g" shows "GetGeneration (make_handle s g) = g"
proof -
  have m: "(0x7FFF :: u32) = mask 15" by (simp add: mask_eq_exp_minus_1)
  show ?thesis
  proof (rule bit_word_eqI)
    fix n assume "n < LENGTH(16)"
    then consider "n = 15" | "n < 15" by fastforce
    then show "bit (GetGeneration (make_handle s g)) n = bit g n"
      by cases (use gen_ok_bit15 [OF assms] in
        \<open>auto simp: GetGeneration_def make_handle_def m bit_simps\<close>)
  qed
qed

lemma make_handle_inverse:
  assumes "\<not> bit h 31" shows "make_handle (GetSlot h) (GetGeneration h) = h"
proof -
  have m: "(0x7FFF :: u32) = mask 15" by (simp add: mask_eq_exp_minus_1)
  show ?thesis
  proof (rule bit_word_eqI)
    fix n assume "n < LENGTH(32)"
    then consider "n = 31" | "15 \<le> n \<and> n < 31" | "n < 15" by fastforce
    then show "bit (make_handle (GetSlot h) (GetGeneration h)) n = bit h n"
      by cases (use assms in \<open>auto simp: GetGeneration_def GetSlot_def make_handle_def m bit_simps\<close>)
  qed
qed

text \<open>Two handles name the same table entry when slot and generation agree.\<close>

definition same_entry :: "u32 \<Rightarrow> u32 \<Rightarrow> bool" where
  "same_entry h h' \<longleftrightarrow> GetSlot h = GetSlot h' \<and> GetGeneration h = GetGeneration h'"

definition lookup :: "'o handle_table \<Rightarrow> u32 \<Rightarrow> 'o option" where
  "lookup t h = (if IsValid t h then objects t ! unat (GetSlot h) else None)"

lemma IsValid_iff_lookup: "IsValid t h \<longleftrightarrow> lookup t h \<noteq> None"
  by (auto simp: lookup_def IsValid_def Let_def)

lemma GetGeneric_lookup:
  "h \<noteq> CurrentThread \<Longrightarrow> h \<noteq> CurrentProcess \<Longrightarrow> GetGeneric th pr t h = lookup t h"
  by (simp add: GetGeneric_def lookup_def)

lemma lookup_entry:
  "lookup t h = (if unat (GetSlot h) < MAX_COUNT \<and> generations t ! unat (GetSlot h) = GetGeneration h
                 then objects t ! unat (GetSlot h) else None)"
  by (auto simp: lookup_def IsValid_def Let_def)

lemma lookup_same_entry: "same_entry h h' \<Longrightarrow> lookup t h = lookup t h'"
  by (simp add: lookup_entry same_entry_def)

section \<open>The operations under the invariant\<close>

definition bump_generation :: "u16 \<Rightarrow> u16" where
  "bump_generation g = (if unat (g + 1) \<ge> 2 ^ 15 then 1 else g + 1)"

lemma bump_generation_ok [simp]: "gen_ok g \<Longrightarrow> gen_ok (bump_generation g)"
  by (auto simp: gen_ok_def bump_generation_def unat_word_ariths)

lemma ht_inv_with_len:
  "ht_inv_with t fs \<Longrightarrow> length (objects t) = MAX_COUNT"
  "ht_inv_with t fs \<Longrightarrow> length (generations t) = MAX_COUNT"
  by (simp_all add: ht_inv_with_def)

lemma ht_inv_with_gen:
  "ht_inv_with t fs \<Longrightarrow> i < MAX_COUNT \<Longrightarrow> objects t ! i \<noteq> None \<Longrightarrow> gen_ok (generations t ! i)"
  unfolding ht_inv_with_def by blast

lemma ht_inv_with_free:
  assumes "ht_inv_with t fs" "x \<in> set fs"
  shows "unat x < MAX_COUNT \<and> objects t ! unat x = None"
proof -
  from assms have "unat x < MAX_COUNT" by (auto simp: ht_inv_with_def dest: free_chain_bound)
  with assms show ?thesis by (simp add: ht_inv_with_def)
qed

lemma Create_full: "ht_inv_with t [] \<Longrightarrow> Create t v = Err t ResultOutOfHandles"
  by (simp add: Create_def ht_inv_with_def Let_def unlessO_def)

definition created :: "'o handle_table \<Rightarrow> 'o \<Rightarrow> 'o handle_table" where
  "created t v =
     (let s = unat (next_free_slot t) in
      t\<lparr>objects := (objects t)[s := Some v], generations := (generations t)[s := next_generation t],
        next_generation := bump_generation (next_generation t),
        next_free_slot := generations t ! s\<rparr>)"

lemma Create_free:
  "ht_inv_with t (x # fs) \<Longrightarrow>
   Create t v = Ok (created t v) (make_handle x (next_generation t))"
  by (simp add: Create_def ht_inv_with_def Let_def unlessO_def created_def bump_generation_def
      make_handle_def)

lemma created_inv:
  assumes inv: "ht_inv_with t (x # fs)" shows "ht_inv_with (created t v) fs"
proof -
  let ?t = "created t v"
  have x: "next_free_slot t = x" "unat x < MAX_COUNT" "x \<notin> set fs" "distinct fs"
    and chain: "free_chain (generations t) (generations t ! unat x) fs"
    using inv by (simp_all add: ht_inv_with_def)
  note len = ht_inv_with_len [OF inv]
  have "free_chain (generations ?t) (next_free_slot ?t) fs"
    using chain x by (simp add: created_def Let_def free_chain_update slot_notin)
  moreover have "objects ?t ! i = None \<longleftrightarrow> of_nat i \<in> set fs" if "i < MAX_COUNT" for i
  proof (cases "i = unat x")
    case True
    with x len show ?thesis by (simp add: created_def Let_def)
  next
    case False
    moreover from this that have "of_nat i \<noteq> x" by (auto dest: slot_of_nat)
    ultimately show ?thesis using x that inv by (simp add: created_def Let_def ht_inv_with_def)
  qed
  moreover have "gen_ok (generations ?t ! i)" if "i < MAX_COUNT" "objects ?t ! i \<noteq> None" for i
    using that x len inv
    by (cases "i = unat x") (simp_all add: created_def Let_def ht_inv_with_def)
  ultimately show ?thesis
    using len x inv by (simp add: ht_inv_with_def created_def Let_def)
qed

lemma created_lookup:
  assumes inv: "ht_inv_with t (x # fs)"
  shows "lookup (created t v) h =
    (if same_entry h (make_handle x (next_generation t)) then Some v else lookup t h)"
proof -
  have x: "next_free_slot t = x" "unat x < MAX_COUNT" "gen_ok (next_generation t)"
    using inv by (simp_all add: ht_inv_with_def)
  have free: "objects t ! unat x = None" using ht_inv_with_free [OF inv, of x] by simp
  show ?thesis
  proof (cases "GetSlot h = x")
    case True
    with x free ht_inv_with_len [OF inv] show ?thesis
      by (auto simp: lookup_entry created_def Let_def same_entry_def)
  next
    case False
    with x show ?thesis by (simp add: lookup_entry created_def Let_def same_entry_def)
  qed
qed

definition closed :: "'o handle_table \<Rightarrow> u16 \<Rightarrow> 'o handle_table" where
  "closed t s = t\<lparr>objects := (objects t)[unat s := None],
     generations := (generations t)[unat s := next_free_slot t], next_free_slot := s\<rparr>"

lemma Close_valid: "lookup t h \<noteq> None \<Longrightarrow> Close t h = Ok (closed t (GetSlot h)) ()"
  by (simp add: Close_def IsValid_iff_lookup closed_def Let_def)

lemma Close_invalid: "lookup t h = None \<Longrightarrow> Close t h = Err t ResultInvalidHandle"
  by (simp add: Close_def IsValid_iff_lookup)

lemma closed_inv:
  assumes inv: "ht_inv_with t fs" and live: "lookup t h \<noteq> None"
  shows "ht_inv_with (closed t (GetSlot h)) (GetSlot h # fs)"
proof -
  let ?s = "GetSlot h" and ?t = "closed t (GetSlot h)"
  note len = ht_inv_with_len [OF inv]
  from live have s: "unat ?s < MAX_COUNT" "objects t ! unat ?s \<noteq> None"
    by (auto simp: lookup_entry split: if_splits)
  have notin: "?s \<notin> set fs" using ht_inv_with_free [OF inv, of ?s] s(2) by auto
  have "free_chain (generations ?t) (next_free_slot ?t) (?s # fs)"
    using s inv len notin by (simp add: closed_def ht_inv_with_def free_chain_update slot_notin)
  moreover have "objects ?t ! i = None \<longleftrightarrow> of_nat i \<in> set (?s # fs)" if "i < MAX_COUNT" for i
  proof (cases "i = unat ?s")
    case True
    with s len show ?thesis by (simp add: closed_def)
  next
    case False
    moreover from this that have "of_nat i \<noteq> ?s" by (auto dest: slot_of_nat)
    ultimately show ?thesis using that inv by (simp add: closed_def ht_inv_with_def)
  qed
  moreover have "gen_ok (generations ?t ! i)" if "i < MAX_COUNT" "objects ?t ! i \<noteq> None" for i
  proof -
    from that s len have "i \<noteq> unat ?s" by (auto simp: closed_def)
    with that ht_inv_with_gen [OF inv] show ?thesis by (simp add: closed_def)
  qed
  moreover have "length (objects ?t) = MAX_COUNT" "length (generations ?t) = MAX_COUNT"
    "distinct (?s # fs)" "gen_ok (next_generation ?t)"
    using len notin inv by (simp_all add: ht_inv_with_def closed_def)
  ultimately show ?thesis unfolding ht_inv_with_def by blast
qed

lemma closed_lookup:
  assumes inv: "ht_inv_with t fs" and live: "lookup t h \<noteq> None"
  shows "lookup (closed t (GetSlot h)) h' = (if same_entry h' h then None else lookup t h')"
proof -
  from live have h: "generations t ! unat (GetSlot h) = GetGeneration h" "unat (GetSlot h) < MAX_COUNT"
    by (auto simp: lookup_entry split: if_splits)
  show ?thesis
  proof (cases "GetSlot h' = GetSlot h")
    case True
    with h ht_inv_with_len [OF inv] show ?thesis
      by (simp add: lookup_entry closed_def same_entry_def)
  next
    case False
    then show ?thesis by (simp add: lookup_entry closed_def same_entry_def)
  qed
qed

lemma initial_chain:
  "k \<le> MAX_COUNT \<Longrightarrow>
   free_chain (map (\<lambda>i. of_nat (i + 1)) [0..<MAX_COUNT]) (of_nat k) (map of_nat [k..<MAX_COUNT])"
proof (induction "MAX_COUNT - k" arbitrary: k)
  case (Suc n)
  then have k: "k < MAX_COUNT" by simp
  have "free_chain (map (\<lambda>i. of_nat (i + 1)) [0..<MAX_COUNT])
      (of_nat (k + 1)) (map of_nat [k + 1..<MAX_COUNT])"
    by (rule Suc.hyps(1)) (use Suc.hyps(2) in simp_all)
  moreover have "[k..<MAX_COUNT] = k # [k + 1..<MAX_COUNT]" using k by (simp add: upt_conv_Cons)
  ultimately show ?case using k by simp
qed simp

lemma inj_on_slot: "inj_on (of_nat :: nat \<Rightarrow> u16) {0..<MAX_COUNT}"
  by (rule inj_on_inverseI [where g = unat]) simp

lemma HandleTable_inv: "ht_inv_with HandleTable (map of_nat [0..<MAX_COUNT])"
proof -
  have "free_chain (generations (HandleTable :: 'a handle_table)) 0 (map of_nat [0..<MAX_COUNT])"
    using initial_chain [of 0] by (simp add: HandleTable_def Clear_def)
  then show ?thesis
    using inj_on_slot
    by (auto simp: ht_inv_with_def HandleTable_def Clear_def distinct_map gen_ok_def)
qed

lemma HandleTable_Create: "\<exists>t h. Create HandleTable v = Ok t h"
  by (simp add: Create_def HandleTable_def Clear_def Let_def MAX_COUNT_def)

lemma ht_inv_cases:
  assumes "ht_inv t"
  obtains (full) "ht_inv_with t []" | (free) x fs where "ht_inv_with t (x # fs)"
  using assms unfolding ht_inv_def by (metis neq_Nil_conv)

lemma created_next_generation [simp]:
  "next_generation (created t v) = bump_generation (next_generation t)"
  by (simp add: created_def Let_def)

lemma closed_next_generation [simp]: "next_generation (closed t s) = next_generation t"
  by (simp add: closed_def)

lemma lookup_fresh:
  assumes "ht_inv_with t (x # fs)"
  shows "lookup t (make_handle x (next_generation t)) = None"
  using assms ht_inv_with_free [OF assms, of x] by (simp add: lookup_entry ht_inv_with_def)

section \<open>The contract\<close>

text \<open>
  What the clients of the table (handle duplication, IPC handle translation) rely on:
  \<open>create\<close> returns a handle that named nothing and adds exactly that entry, or fails and changes
  nothing; \<open>close\<close> removes exactly the entry of a live handle and fails on any other.
\<close>

locale object_table =
  fixes inv :: "'t \<Rightarrow> bool"
    and find :: "'t \<Rightarrow> 'h \<Rightarrow> 'o option"
    and same :: "'h \<Rightarrow> 'h \<Rightarrow> bool"
    and create :: "'t \<Rightarrow> 'o \<Rightarrow> ('t, 'h) outcome"
    and close :: "'t \<Rightarrow> 'h \<Rightarrow> ('t, unit) outcome"
    and full_code :: u32 and bad_code :: u32
  assumes same_refl: "same h h"
    and create_ok: "inv t \<Longrightarrow> create t v = Ok t' h \<Longrightarrow>
      inv t' \<and> find t h = None \<and> (\<forall>h'. find t' h' = (if same h' h then Some v else find t h'))"
    and create_err: "inv t \<Longrightarrow> create t v = Err t' c \<Longrightarrow> t' = t \<and> c = full_code"
    and create_returns: "inv t \<Longrightarrow> create t v \<noteq> Crash"
    and close_live: "inv t \<Longrightarrow> find t h \<noteq> None \<Longrightarrow> \<exists>t'. close t h = Ok t' () \<and> inv t' \<and>
      (\<forall>h'. find t' h' = (if same h' h then None else find t h'))"
    and close_dead: "inv t \<Longrightarrow> find t h = None \<Longrightarrow> close t h = Err t bad_code"
begin

lemma create_finds: "inv t \<Longrightarrow> create t v = Ok t' h \<Longrightarrow> find t' h = Some v"
  using create_ok same_refl by simp

lemma create_keeps:
  "inv t \<Longrightarrow> create t v = Ok t' h \<Longrightarrow> find t h' = Some w \<Longrightarrow>
   (\<And>h1 h2. same h1 h2 \<Longrightarrow> find t h1 = find t h2) \<Longrightarrow> find t' h' = Some w"
  using create_ok by fastforce

lemma create_close:
  assumes "inv t" "create t v = Ok t' h" "\<And>h1 h2. same h1 h2 \<Longrightarrow> find t h1 = find t h2"
  shows "\<exists>t''. close t' h = Ok t'' () \<and> inv t'' \<and> find t'' = find t"
proof -
  from create_ok [OF assms(1,2)] have "inv t'" and none: "find t h = None"
    and eq: "\<And>h'. find t' h' = (if same h' h then Some v else find t h')" by auto
  from \<open>inv t'\<close> close_live [of t' h] obtain t'' where "close t' h = Ok t'' ()" "inv t''"
    and eq': "\<And>h'. find t'' h' = (if same h' h then None else find t' h')"
    using eq same_refl by auto
  moreover have "find t'' = find t"
    using assms(3) none by (auto simp: eq eq' fun_eq_iff)
  ultimately show ?thesis by blast
qed

lemma close_closes: "inv t \<Longrightarrow> close t h = Ok t' () \<Longrightarrow> find t' h = None"
  using close_live [of t h] close_dead [of t h] same_refl by fastforce

lemma close_twice: "inv t \<Longrightarrow> close t h = Ok t' () \<Longrightarrow> close t' h = Err t' bad_code"
  using close_live [of t h] close_dead same_refl by fastforce

end

lemma created_spec:
  assumes "ht_inv t" "Create t v = Ok t' h"
  shows "ht_inv t' \<and> lookup t h = None \<and>
    (\<forall>h'. lookup t' h' = (if same_entry h' h then Some v else lookup t h'))"
  using assms(1)
proof (cases rule: ht_inv_cases)
  case full
  with assms(2) show ?thesis by (simp add: Create_full)
next
  case (free x fs)
  with assms(2) have "t' = created t v" "h = make_handle x (next_generation t)"
    by (simp_all add: Create_free)
  with free show ?thesis
    using created_inv [OF free] by (auto simp: created_lookup lookup_fresh ht_inv_def)
qed

interpretation ht: object_table ht_inv lookup same_entry Create Close
  ResultOutOfHandles ResultInvalidHandle
proof
  fix t t' :: "'a handle_table" and v h h' c
  show "same_entry h h" by (simp add: same_entry_def)
  show "ht_inv t \<Longrightarrow> Create t v = Ok t' h \<Longrightarrow> ht_inv t' \<and> lookup t h = None \<and>
      (\<forall>h'. lookup t' h' = (if same_entry h' h then Some v else lookup t h'))"
    by (rule created_spec)
  show "ht_inv t \<Longrightarrow> Create t v = Err t' c \<Longrightarrow> t' = t \<and> c = ResultOutOfHandles"
    by (erule ht_inv_cases) (auto simp: Create_full Create_free)
  show "ht_inv t \<Longrightarrow> Create t v \<noteq> Crash"
    by (erule ht_inv_cases) (auto simp: Create_full Create_free)
  show "ht_inv t \<Longrightarrow> lookup t h \<noteq> None \<Longrightarrow> \<exists>t'. Close t h = Ok t' () \<and> ht_inv t' \<and>
      (\<forall>h'. lookup t' h' = (if same_entry h' h then None else lookup t h'))"
  proof -
    assume "ht_inv t" and live: "lookup t h \<noteq> None"
    then obtain fs where fs: "ht_inv_with t fs" by (auto simp: ht_inv_def)
    show ?thesis
      using Close_valid [OF live] closed_inv [OF fs live] closed_lookup [OF fs live]
      by (auto simp: ht_inv_def)
  qed
  show "ht_inv t \<Longrightarrow> lookup t h = None \<Longrightarrow> Close t h = Err t ResultInvalidHandle"
    by (rule Close_invalid)
qed

section \<open>Sequences of operations\<close>

text \<open>The calls the kernel makes on a table; the table after each is that of its outcome.\<close>

datatype 'o ht_op = OpCreate 'o | OpClose u32 | OpDuplicate "'o option" "'o option" u32

fun left_behind :: "'s \<Rightarrow> ('s, 'a) outcome \<Rightarrow> 's" where
  "left_behind s (Ok s' a) = s'"
| "left_behind s (Err s' c) = s'"
| "left_behind s Crash = s"

fun ht_step :: "'o handle_table \<Rightarrow> 'o ht_op \<Rightarrow> 'o handle_table" where
  "ht_step t (OpCreate v) = left_behind t (Create t v)"
| "ht_step t (OpClose h) = left_behind t (Close t h)"
| "ht_step t (OpDuplicate th pr h) = left_behind t (Duplicate th pr t h)"

definition ht_run :: "'o handle_table \<Rightarrow> 'o ht_op list \<Rightarrow> 'o handle_table" where
  "ht_run t ops = foldl ht_step t ops"

lemma ht_run_simps [simp]:
  "ht_run t [] = t"
  "ht_run t (op # ops) = ht_run (ht_step t op) ops"
  "ht_run t (xs @ ys) = ht_run (ht_run t xs) ys"
  by (simp_all add: ht_run_def)

fun may_create :: "'o ht_op \<Rightarrow> bool" where
  "may_create (OpClose h) = False"
| "may_create op = True"

text \<open>Every step is the identity, the creation of one entry or the closing of one entry.\<close>

lemma Create_step:
  assumes "ht_inv t"
  obtains "left_behind t (Create t v) = t"
  | x fs where "ht_inv_with t (x # fs)" "left_behind t (Create t v) = created t v"
  using assms by (cases rule: ht_inv_cases) (auto simp: Create_full Create_free)

lemma ht_step_cases:
  assumes "ht_inv t"
  obtains (same) "ht_step t op = t"
  | (create) x fs v where "may_create op" "ht_inv_with t (x # fs)" "ht_step t op = created t v"
  | (close) h fs where "ht_inv_with t fs" "lookup t h \<noteq> None" "ht_step t op = closed t (GetSlot h)"
proof (cases op)
  case (OpCreate v)
  with assms that show thesis by (cases rule: Create_step [where v = v]) auto
next
  case (OpClose h)
  then show thesis
    using assms that Close_valid [of t h] Close_invalid [of t h]
    by (cases "lookup t h = None") (auto simp: ht_inv_def)
next
  case (OpDuplicate th pr h)
  show thesis
  proof (cases "GetGeneric th pr t h")
    case None
    with OpDuplicate that show thesis by (simp add: Duplicate_def)
  next
    case (Some v)
    from assms show thesis
      by (cases rule: Create_step [where v = v])
        (use OpDuplicate Some that in \<open>auto simp: Duplicate_def\<close>)
  qed
qed

lemma created_ht_inv: "ht_inv_with t (x # fs) \<Longrightarrow> ht_inv (created t v)"
  unfolding ht_inv_def using created_inv [of t x fs v] by (rule exI)

lemma closed_ht_inv: "ht_inv_with t fs \<Longrightarrow> lookup t h \<noteq> None \<Longrightarrow> ht_inv (closed t (GetSlot h))"
  unfolding ht_inv_def using closed_inv [of t fs h] by (rule exI)

lemma ht_step_inv: "ht_inv t \<Longrightarrow> ht_inv (ht_step t op)"
  by (rule ht_step_cases [of t op]) (auto simp: created_ht_inv closed_ht_inv simp del: ht_step.simps)

lemma ht_run_inv: "ht_inv t \<Longrightarrow> ht_inv (ht_run t ops)"
  by (induction ops arbitrary: t) (auto simp: ht_step_inv)

text \<open>The generation counter as a position on its cycle of length 0x7FFF.\<close>

definition gen_pos :: "u16 \<Rightarrow> nat" where
  "gen_pos g = unat g - 1"

lemma gen_pos_bound: "gen_ok g \<Longrightarrow> gen_pos g < 32767"
  by (auto simp: gen_ok_def gen_pos_def)

lemma gen_pos_inj: "gen_ok g \<Longrightarrow> gen_ok g' \<Longrightarrow> gen_pos g = gen_pos g' \<longleftrightarrow> g = g'"
  by (auto simp: gen_ok_def gen_pos_def simp flip: slot_eq)

lemma gen_pos_bump: "gen_ok g \<Longrightarrow> gen_pos (bump_generation g) = (gen_pos g + 1) mod 32767"
  by (auto simp: gen_ok_def gen_pos_def bump_generation_def unat_word_ariths mod_if)

text \<open>
  \<open>ahead h t k\<close>: the counter of \<open>t\<close> is at most \<open>k\<close> positions, and at least one, past the
  generation of \<open>h\<close>. While this holds a dead handle cannot be handed out again.
\<close>

definition ahead :: "u32 \<Rightarrow> 'o handle_table \<Rightarrow> nat \<Rightarrow> bool" where
  "ahead h t k \<longleftrightarrow> (\<exists>j. 1 \<le> j \<and> j \<le> k \<and>
     gen_pos (next_generation t) = (gen_pos (GetGeneration h) + j) mod 32767)"

lemma ahead_created:
  assumes "ahead h t k" "gen_ok (next_generation t)"
  shows "ahead h (created t v) (k + 1)"
proof -
  from assms(1) obtain j where "1 \<le> j" "j \<le> k"
    "gen_pos (next_generation t) = (gen_pos (GetGeneration h) + j) mod 32767"
    by (auto simp: ahead_def)
  with assms(2) show ?thesis
    by (auto simp: ahead_def gen_pos_bump mod_Suc_eq intro!: exI [of _ "Suc j"])
qed

lemma ahead_not_reused:
  assumes "ahead h t k" "k < 32767" "gen_ok (GetGeneration h)"
  shows "GetGeneration h \<noteq> next_generation t"
proof
  assume "GetGeneration h = next_generation t"
  with assms(1) obtain j where j: "1 \<le> j" "j \<le> k"
    "gen_pos (GetGeneration h) = (gen_pos (GetGeneration h) + j) mod 32767"
    by (auto simp: ahead_def)
  with gen_pos_bound [OF assms(3)] assms(2) show False by (auto simp: mod_if split: if_splits)
qed

lemma ht_run_dead:
  assumes "ht_inv t" "lookup t h = None" "gen_ok (GetGeneration h)" "ahead h t k"
    "k + length (filter may_create ops) \<le> 32767"
  shows "lookup (ht_run t ops) h = None"
  using assms
proof (induction ops arbitrary: t k)
  case (Cons op ops)
  from Cons.prems(1) have inv: "ht_inv (ht_step t op)" by (rule ht_step_inv)
  from Cons.prems(1) show ?case
  proof (cases rule: ht_step_cases [where op = op])
    case same
    with Cons.prems Cons.IH [of t k] show ?thesis by (simp split: if_splits)
  next
    case (create x fs v)
    then have ok: "gen_ok (next_generation t)" by (simp add: ht_inv_with_def)
    have "lookup (created t v) h = None"
      using ahead_not_reused [OF Cons.prems(4) _ Cons.prems(3)] Cons.prems(2,5) ok create(1)
      by (simp add: created_lookup [OF create(2)] same_entry_def)
    with Cons.IH [of "created t v" "k + 1"] ahead_created [OF Cons.prems(4) ok] create inv Cons.prems
    show ?thesis by simp
  next
    case (close h' fs)
    then have "lookup (ht_step t op) h = None" "ahead h (ht_step t op) k"
      using Cons.prems(2,4) by (auto simp: closed_lookup ahead_def)
    with Cons.IH [of "ht_step t op" k] inv Cons.prems show ?thesis by (simp split: if_splits)
  qed
qed simp

lemma ht_run_ahead:
  assumes "ht_inv t" "ahead h t k"
  shows "ahead h (ht_run t ops) (k + length (filter may_create ops))"
  using assms
proof (induction ops arbitrary: t k)
  case (Cons op ops)
  have mono: "ahead h t k \<Longrightarrow> k \<le> m \<Longrightarrow> ahead h t m" for t :: "'a handle_table" and k m
    unfolding ahead_def using le_trans by blast
  from Cons.prems(1) show ?case
  proof (cases rule: ht_step_cases [where op = op])
    case same
    with Cons.IH [OF Cons.prems] show ?thesis by (auto intro: mono)
  next
    case (create x fs v)
    then have "ahead h (created t v) (k + 1)"
      using ahead_created [OF Cons.prems(2)] by (simp add: ht_inv_with_def)
    with create Cons.IH [of "ht_step t op" "k + 1"] ht_step_inv [OF Cons.prems(1), of op]
    show ?thesis by simp
  next
    case (close h' fs)
    then have "ahead h (ht_step t op) k" using Cons.prems(2) by (simp add: ahead_def)
    from Cons.IH [OF ht_step_inv [OF Cons.prems(1)] this] show ?thesis by (auto intro: mono)
  qed
qed simp

section \<open>Properties\<close>

text \<open>
  Property (C25): \<^verbatim>\<open>HandleTable::Create\<close> on a well-formed table never crashes. Either a slot is free and it
  returns a handle that named nothing before, leaving a well-formed table that differs from the old one
  exactly in that this handle now names the object; or all 4096 slots are taken, and it returns
  \<^verbatim>\<open>ResultOutOfHandles\<close> and changes nothing.
\<close>

theorem Create_spec:
  assumes "ht_inv t"
  shows "case Create t v of
      Ok t' h \<Rightarrow> (\<exists>i < MAX_COUNT. objects t ! i = None) \<and> ht_inv t' \<and> lookup t h = None \<and>
        (\<forall>h'. lookup t' h' = (if same_entry h' h then Some v else lookup t h'))
    | Err t' c \<Rightarrow> (\<forall>i < MAX_COUNT. objects t ! i \<noteq> None) \<and> t' = t \<and> c = ResultOutOfHandles
    | Crash \<Rightarrow> False"
  using assms
proof (cases rule: ht_inv_cases)
  case full
  then show ?thesis by (auto simp: Create_full ht_inv_with_def)
next
  case (free x fs)
  with created_spec [OF assms Create_free] ht_inv_with_free [OF free, of x]
  show ?thesis by (auto simp: Create_free)
qed

theorem Create_spec_witness:
  "case Create (HandleTable :: nat handle_table) 7 of
      Ok t' h \<Rightarrow> (\<exists>i < MAX_COUNT. objects HandleTable ! i = (None :: nat option)) \<and> ht_inv t' \<and>
        lookup HandleTable h = (None :: nat option) \<and>
        (\<forall>h'. lookup t' h' = (if same_entry h' h then Some 7 else lookup HandleTable h'))
    | Err t' c \<Rightarrow> (\<forall>i < MAX_COUNT. objects HandleTable ! i \<noteq> (None :: nat option)) \<and>
        t' = HandleTable \<and> c = ResultOutOfHandles
    | Crash \<Rightarrow> False"
proof -
  have "ht_inv (HandleTable :: nat handle_table)" using HandleTable_inv ht_inv_def by blast
  from Create_spec [OF this] show ?thesis .
qed

text \<open>
  Property (C26): Stale handles stay dead. Let a well-formed table issue the handle \<open>h\<close>. Whenever some later
  sequence of calls has closed it, no further sequence makes it name anything again, as long as fewer
  than 0x7FFF creations or duplications were attempted since \<open>h\<close> was issued: the generation counter
  has to go round before a slot and generation can come back together.
\<close>

theorem stale_handle_stays_invalid:
  assumes inv: "ht_inv t" and new: "Create t v = Ok t1 h"
    and dead: "\<not> IsValid (ht_run t1 ops) h"
    and few: "length (filter may_create (ops @ ops')) < 0x7FFF"
  shows "\<not> IsValid (ht_run t1 (ops @ ops')) h"
proof -
  from inv new obtain x fs where fs: "ht_inv_with t (x # fs)" and t1: "t1 = created t v"
    and h: "h = make_handle x (next_generation t)"
    by (cases rule: ht_inv_cases) (auto simp: Create_full Create_free)
  from fs have ok: "gen_ok (next_generation t)" by (simp add: ht_inv_with_def)
  have inv1: "ht_inv t1" using created_ht_inv [OF fs] t1 by simp
  have "ahead h t1 1" using ok by (auto simp: ahead_def t1 h gen_pos_bump)
  from ht_run_ahead [OF inv1 this]
  have "ahead h (ht_run t1 ops) (1 + length (filter may_create ops))" .
  from ht_run_dead [OF ht_run_inv [OF inv1] _ _ this] dead few ok
  show ?thesis by (simp add: IsValid_iff_lookup h)
qed

theorem stale_handle_stays_invalid_witness:
  "\<exists>t1 h. Create HandleTable (7 :: nat) = Ok t1 h \<and> \<not> IsValid (ht_run t1 [OpClose h]) h \<and>
     \<not> IsValid (ht_run t1 ([OpClose h] @ [OpCreate 8, OpCreate 9])) h"
proof -
  have inv: "ht_inv (HandleTable :: nat handle_table)" using HandleTable_inv ht_inv_def by blast
  obtain t1 h where c: "Create HandleTable (7 :: nat) = Ok t1 h"
    using HandleTable_Create [of "7 :: nat"] by auto
  from created_spec [OF inv c] have inv1: "ht_inv t1" and "lookup t1 h \<noteq> None"
    using ht.create_finds [OF inv c] by auto
  then obtain t2 where "Close t1 h = Ok t2 ()" "lookup t2 h = None"
    using ht.close_live [OF inv1] ht.close_closes [OF inv1] by blast
  then have d: "\<not> IsValid (ht_run t1 [OpClose h]) h" by (simp add: IsValid_iff_lookup)
  show ?thesis
    using c d stale_handle_stays_invalid [OF inv c d, of "[OpCreate 8, OpCreate 9]"] by auto
qed

text \<open>
  Property: \<^verbatim>\<open>HandleTable::Close\<close> on a well-formed table: a valid handle is removed, and only it, and the
  table stays well formed; any other handle gives \<^verbatim>\<open>ResultInvalidHandle\<close> with the table unchanged.
\<close>

theorem Close_spec:
  assumes "ht_inv t"
  shows "if IsValid t h
    then \<exists>t'. Close t h = Ok t' () \<and> ht_inv t' \<and>
      (\<forall>h'. lookup t' h' = (if same_entry h' h then None else lookup t h'))
    else Close t h = Err t ResultInvalidHandle"
  using ht.close_live [OF assms, of h] ht.close_dead [OF assms, of h] by (simp add: IsValid_iff_lookup)

theorem Close_spec_witness:
  "\<exists>t h. Create HandleTable (7 :: nat) = Ok t h \<and> IsValid t h \<and>
     (\<exists>t'. Close t h = Ok t' () \<and> ht_inv t' \<and>
       (\<forall>h'. lookup t' h' = (if same_entry h' h then None else lookup t h')))"
proof -
  have inv: "ht_inv (HandleTable :: nat handle_table)" using HandleTable_inv ht_inv_def by blast
  obtain t h where c: "Create HandleTable (7 :: nat) = Ok t h" using HandleTable_Create [of "7 :: nat"] by auto
  have v: "IsValid t h" using ht.create_finds [OF inv c] by (simp add: IsValid_iff_lookup)
  have "ht_inv t" using created_spec [OF inv c] by simp
  from Close_spec [OF this, of h] c v show ?thesis by auto
qed

text \<open>
  Property: Every table the kernel can reach from a fresh one by creating, duplicating and closing handles is
  well formed: the free list is complete, has no repetition and ends at slot 4096, and all generations
  are between 1 and 0x7FFF.
\<close>

theorem reachable_tables_ht_inv: "ht_inv (ht_run HandleTable ops)"
  using HandleTable_inv ht_run_inv ht_inv_def by blast

text \<open>
  Property: The lookup ignores the top bit of a handle, because the slot is truncated to 16 bits: on the
  range of real handles, each one has a second spelling that names the same object.
\<close>

theorem handle_top_bit_ignored: "IsValid t (h XOR 0x80000000) \<longleftrightarrow> IsValid t h"
proof -
  have b: "(0x80000000 :: u32) = push_bit 31 1" by simp
  have m: "(0x7FFF :: u32) = mask 15" by (simp add: mask_eq_exp_minus_1)
  have "GetSlot (h XOR 0x80000000) = GetSlot h"
    unfolding GetSlot_def b by (rule bit_word_eqI) (auto simp: bit_simps simp del: push_bit_of_1)
  moreover have "GetGeneration (h XOR 0x80000000) = GetGeneration h"
    unfolding GetGeneration_def b m by (rule bit_word_eqI) (auto simp: bit_simps simp del: push_bit_of_1)
  ultimately show ?thesis by (simp add: IsValid_def)
qed

end
