(* ===== verification/Thread_Queue_List.thy ===== *)
theory Thread_Queue_List
  imports Emu_Prelude "HOL-Library.Multiset"
begin

text \<open>
  \<^verbatim>\<open>Common::ThreadQueueList\<close> (\<^verbatim>\<open>src/common/thread_queue_list.h\<close>): the scheduler's ready queue, an
  array of deques, one per priority, of which the levels that were ever used are chained by
  \<^verbatim>\<open>next_nonempty\<close> pointers in ascending order. A \<open>link\<close> is such a pointer: null, the
  \<^verbatim>\<open>UnlinkedTag()\<close>, or the index of a level. The pointer walks take fuel; one more than the number of
  levels is enough on every well-formed structure, which the theorems show by proving a result.
  Dereferencing a null or tag pointer, and indexing outside the array, is \<open>Crash\<close>. The default value
  \<^verbatim>\<open>T()\<close> is \<open>None\<close>.

  \<open>tq_inv\<close> says the chain is ascending, reaches exactly the levels not tagged unlinked and that every
  nonempty level is on it. The locale \<open>ready_queue\<close> states what the scheduler relies on.
\<close>

section \<open>Definitions\<close>

datatype link = Unlinked | Null | At nat

record 'a queue =
  next_nonempty :: link
  q_data :: "'a list"

record 'a thread_queue_list =
  tq_first :: link
  queues :: "'a queue list"

definition EmptyQueue :: "'a queue" where
  "EmptyQueue = \<lparr>next_nonempty = Unlinked, q_data = []\<rparr>"

definition ThreadQueueList :: "nat \<Rightarrow> 'a thread_queue_list" where
  "ThreadQueueList n = \<lparr>tq_first = Null, queues = replicate n EmptyQueue\<rparr>"

definition set_data :: "'a thread_queue_list \<Rightarrow> nat \<Rightarrow> 'a list \<Rightarrow> 'a thread_queue_list" where
  "set_data t i xs = t\<lparr>queues := (queues t)[i := (queues t ! i)\<lparr>q_data := xs\<rparr>]\<rparr>"

definition set_next :: "'a thread_queue_list \<Rightarrow> nat \<Rightarrow> link \<Rightarrow> 'a thread_queue_list" where
  "set_next t i l = t\<lparr>queues := (queues t)[i := (queues t ! i)\<lparr>next_nonempty := l\<rparr>]\<rparr>"

text \<open>\<^verbatim>\<open>contains\<close> returns the first level that holds the element (\<open>None\<close> is the value \<^verbatim>\<open>-1\<close>).\<close>

fun contains_from :: "nat \<Rightarrow> 'a queue list \<Rightarrow> 'a \<Rightarrow> nat option" where
  "contains_from i [] uid = None"
| "contains_from i (q # qs) uid = (if uid \<in> set (q_data q) then Some i else contains_from (i + 1) qs uid)"

definition contains :: "'a thread_queue_list \<Rightarrow> 'a \<Rightarrow> nat option" where
  "contains t uid = contains_from 0 (queues t) uid"

fun get_first_loop :: "nat \<Rightarrow> 'a thread_queue_list \<Rightarrow> link \<Rightarrow> ('a thread_queue_list, 'a option) outcome" where
  "get_first_loop 0 t cur = Crash"
| "get_first_loop (Suc n) t Null = Ok t None"
| "get_first_loop (Suc n) t Unlinked = Crash"
| "get_first_loop (Suc n) t (At i) =
     assertO (i < length (queues t))
       (case q_data (queues t ! i) of
          x # xs \<Rightarrow> Ok t (Some x)
        | [] \<Rightarrow> get_first_loop n t (next_nonempty (queues t ! i)))"

definition get_first :: "'a thread_queue_list \<Rightarrow> ('a thread_queue_list, 'a option) outcome" where
  "get_first t = get_first_loop (length (queues t) + 1) t (tq_first t)"

fun pop_first_loop ::
  "nat \<Rightarrow> 'a thread_queue_list \<Rightarrow> link \<Rightarrow> ('a thread_queue_list, nat \<times> 'a option) outcome" where
  "pop_first_loop 0 t cur = Crash"
| "pop_first_loop (Suc n) t Null = Ok t (0, None)"
| "pop_first_loop (Suc n) t Unlinked = Crash"
| "pop_first_loop (Suc n) t (At i) =
     assertO (i < length (queues t))
       (case q_data (queues t ! i) of
          x # xs \<Rightarrow> Ok (set_data t i xs) (i, Some x)
        | [] \<Rightarrow> pop_first_loop n t (next_nonempty (queues t ! i)))"

definition pop_first :: "'a thread_queue_list \<Rightarrow> ('a thread_queue_list, nat \<times> 'a option) outcome" where
  "pop_first t = pop_first_loop (length (queues t) + 1) t (tq_first t)"

text \<open>
  \<^verbatim>\<open>while (cur < stop)\<close> compares pointers: null and the tag are below every element of the array, so
  the loop body dereferences them.
\<close>

fun pop_better_loop ::
  "nat \<Rightarrow> nat \<Rightarrow> 'a thread_queue_list \<Rightarrow> link \<Rightarrow> ('a thread_queue_list, nat \<times> 'a option) outcome" where
  "pop_better_loop 0 stop t cur = Crash"
| "pop_better_loop (Suc n) stop t Null = Crash"
| "pop_better_loop (Suc n) stop t Unlinked = Crash"
| "pop_better_loop (Suc n) stop t (At i) =
     (if i < stop
      then assertO (i < length (queues t))
        (case q_data (queues t ! i) of
           x # xs \<Rightarrow> Ok (set_data t i xs) (i, Some x)
         | [] \<Rightarrow> pop_better_loop n stop t (next_nonempty (queues t ! i)))
      else Ok t (0, None))"

definition pop_first_better ::
  "nat \<Rightarrow> 'a thread_queue_list \<Rightarrow> ('a thread_queue_list, nat \<times> 'a option) outcome" where
  "pop_first_better priority t =
     assertO (priority < length (queues t))
       (pop_better_loop (length (queues t) + 1) priority t (tq_first t))"

definition push_front :: "nat \<Rightarrow> 'a \<Rightarrow> 'a thread_queue_list \<Rightarrow> 'a thread_queue_list" where
  "push_front priority thread_id t =
     set_data t priority (thread_id # q_data (queues t ! priority))"

definition push_back :: "nat \<Rightarrow> 'a \<Rightarrow> 'a thread_queue_list \<Rightarrow> 'a thread_queue_list" where
  "push_back priority thread_id t =
     set_data t priority (q_data (queues t ! priority) @ [thread_id])"

definition remove :: "nat \<Rightarrow> 'a \<Rightarrow> 'a thread_queue_list \<Rightarrow> 'a thread_queue_list" where
  "remove priority thread_id t =
     set_data t priority (filter (\<lambda>x. x \<noteq> thread_id) (q_data (queues t ! priority)))"

definition rotate_queue :: "nat \<Rightarrow> 'a thread_queue_list \<Rightarrow> 'a thread_queue_list" where
  "rotate_queue priority t =
     (case q_data (queues t ! priority) of
        x # y # xs \<Rightarrow> set_data t priority (y # xs @ [x])
      | _ \<Rightarrow> t)"

definition clear_queues :: "'a thread_queue_list \<Rightarrow> 'a thread_queue_list" where
  "clear_queues t = t\<lparr>queues := map (\<lambda>q. EmptyQueue) (queues t), tq_first := Null\<rparr>"

definition empty_queue :: "nat \<Rightarrow> 'a thread_queue_list \<Rightarrow> bool" where
  "empty_queue priority t \<longleftrightarrow> q_data (queues t ! priority) = []"

text \<open>The loop of \<^verbatim>\<open>link\<close>: the nearest linked level below \<open>i\<close>.\<close>

fun prev_linked :: "'a queue list \<Rightarrow> nat \<Rightarrow> nat option" where
  "prev_linked qs 0 = None"
| "prev_linked qs (Suc i) = (if next_nonempty (qs ! i) \<noteq> Unlinked then Some i else prev_linked qs i)"

definition link_level :: "nat \<Rightarrow> 'a thread_queue_list \<Rightarrow> 'a thread_queue_list" where
  "link_level priority t =
     (case prev_linked (queues t) priority of
        Some i \<Rightarrow> set_next (set_next t priority (next_nonempty (queues t ! i))) i (At priority)
      | None \<Rightarrow> (set_next t priority (tq_first t))\<lparr>tq_first := At priority\<rparr>)"

definition prepare :: "nat \<Rightarrow> 'a thread_queue_list \<Rightarrow> 'a thread_queue_list" where
  "prepare priority t =
     (if next_nonempty (queues t ! priority) = Unlinked then link_level priority t else t)"

definition move :: "'a \<Rightarrow> nat \<Rightarrow> nat \<Rightarrow> 'a thread_queue_list \<Rightarrow> 'a thread_queue_list" where
  "move thread_id old_priority new_priority t =
     push_back new_priority thread_id (prepare new_priority (remove old_priority thread_id t))"

text \<open>Serialisation: pointers are saved as indices, \<open>-2\<close> for null and \<open>-1\<close> for the tag.\<close>

fun ToIndex :: "link \<Rightarrow> int" where
  "ToIndex Null = -2"
| "ToIndex Unlinked = -1"
| "ToIndex (At i) = int i"

definition ToPointer :: "int \<Rightarrow> link" where
  "ToPointer idx = (if idx = -1 then Unlinked else if idx < 0 then Null else At (nat idx))"

definition save_tq :: "'a thread_queue_list \<Rightarrow> int \<times> (int \<times> 'a list) list" where
  "save_tq t = (ToIndex (tq_first t), map (\<lambda>q. (ToIndex (next_nonempty q), q_data q)) (queues t))"

definition load_tq :: "int \<times> (int \<times> 'a list) list \<Rightarrow> 'a thread_queue_list" where
  "load_tq ar = \<lparr>tq_first = ToPointer (fst ar),
     queues = map (\<lambda>(idx, xs). \<lparr>next_nonempty = ToPointer idx, q_data = xs\<rparr>) (snd ar)\<rparr>"

section \<open>The invariant\<close>

text \<open>\<open>seg qs l xs l'\<close>: following the links from \<open>l\<close> visits the levels \<open>xs\<close> and arrives at \<open>l'\<close>.\<close>

fun seg :: "'a queue list \<Rightarrow> link \<Rightarrow> nat list \<Rightarrow> link \<Rightarrow> bool" where
  "seg qs l [] l' \<longleftrightarrow> l = l'"
| "seg qs l (x # xs) l' \<longleftrightarrow> l = At x \<and> x < length qs \<and> seg qs (next_nonempty (qs ! x)) xs l'"

definition tq_inv_with :: "'a thread_queue_list \<Rightarrow> nat list \<Rightarrow> bool" where
  "tq_inv_with t ls \<longleftrightarrow>
     seg (queues t) (tq_first t) ls Null \<and> sorted_wrt (<) ls \<and>
     (\<forall>i < length (queues t). next_nonempty (queues t ! i) = Unlinked \<longleftrightarrow> i \<notin> set ls) \<and>
     (\<forall>i < length (queues t). q_data (queues t ! i) \<noteq> [] \<longrightarrow> i \<in> set ls)"

definition tq_inv :: "'a thread_queue_list \<Rightarrow> bool" where
  "tq_inv t \<longleftrightarrow> (\<exists>ls. tq_inv_with t ls)"

text \<open>What a client sees: the number of levels, the contents of each, and which are prepared.\<close>

definition level :: "'a thread_queue_list \<Rightarrow> nat \<Rightarrow> 'a list" where
  "level t p = (if p < length (queues t) then q_data (queues t ! p) else [])"

definition prepared :: "'a thread_queue_list \<Rightarrow> nat \<Rightarrow> bool" where
  "prepared t p \<longleftrightarrow> p < length (queues t) \<and> next_nonempty (queues t ! p) \<noteq> Unlinked"

lemma seg_append:
  "seg qs l (xs @ ys) l'' \<longleftrightarrow> (\<exists>l'. seg qs l xs l' \<and> seg qs l' ys l'')"
  by (induction xs arbitrary: l) auto

lemma seg_cong:
  "seg qs l xs l' \<Longrightarrow> length qs' = length qs \<Longrightarrow>
   (\<And>i. i \<in> set xs \<Longrightarrow> next_nonempty (qs' ! i) = next_nonempty (qs ! i)) \<Longrightarrow> seg qs' l xs l'"
  by (induction xs arbitrary: l) auto

lemma seg_bound: "seg qs l xs l' \<Longrightarrow> i \<in> set xs \<Longrightarrow> i < length qs"
  by (induction xs arbitrary: l) auto

lemma seg_length: "seg qs l xs l' \<Longrightarrow> sorted_wrt (<) xs \<Longrightarrow> length xs \<le> length qs"
proof -
  assume s: "seg qs l xs l'" and "sorted_wrt (<) xs"
  then have "distinct xs" by (induction xs arbitrary: l) auto
  then have "length xs = card (set xs)" by (simp add: distinct_card)
  also have "\<dots> \<le> card {0..<length qs}" using seg_bound [OF s] by (intro card_mono) auto
  finally show ?thesis by simp
qed

lemma queues_set_data [simp]: "length (queues (set_data t i xs)) = length (queues t)"
  by (simp add: set_data_def)

lemma queues_set_next [simp]: "length (queues (set_next t i l)) = length (queues t)"
  by (simp add: set_next_def)

lemma level_set_data [simp]:
  "i < length (queues t) \<Longrightarrow> level (set_data t i xs) = (level t)(i := xs)"
  by (auto simp: level_def set_data_def fun_eq_iff)

lemma next_set_data [simp]:
  "i < length (queues t) \<Longrightarrow> next_nonempty (queues (set_data t j xs) ! i) = next_nonempty (queues t ! i)"
  by (cases "i = j") (simp_all add: set_data_def)

lemma first_set_data [simp]: "tq_first (set_data t i xs) = tq_first t"
  by (simp add: set_data_def)

lemma prepared_set_data [simp]: "prepared (set_data t i xs) = prepared t"
  by (auto simp: prepared_def fun_eq_iff)

lemma tq_inv_with_prepared:
  "tq_inv_with t ls \<Longrightarrow> prepared t p \<longleftrightarrow> p \<in> set ls"
  by (auto simp: tq_inv_with_def prepared_def dest: seg_bound)

lemma tq_inv_with_level: "tq_inv_with t ls \<Longrightarrow> level t p \<noteq> [] \<Longrightarrow> p \<in> set ls"
  by (auto simp: tq_inv_with_def level_def split: if_splits)

lemma set_data_inv:
  assumes inv: "tq_inv_with t ls" and ok: "xs \<noteq> [] \<Longrightarrow> i \<in> set ls"
  shows "tq_inv_with (set_data t i xs) ls"
proof -
  let ?t = "set_data t i xs"
  from inv have s: "seg (queues t) (tq_first t) ls Null" by (simp add: tq_inv_with_def)
  have "seg (queues ?t) (tq_first ?t) ls Null"
    using seg_cong [OF s, of "queues ?t"] seg_bound [OF s] by simp
  moreover have "j \<in> set ls" if "j < length (queues t)" "q_data (queues ?t ! j) \<noteq> []" for j
    using that ok inv by (cases "j = i") (auto simp: set_data_def tq_inv_with_def)
  ultimately show ?thesis using inv by (simp add: tq_inv_with_def)
qed

lemma set_data_tq_inv:
  "tq_inv t \<Longrightarrow> (xs \<noteq> [] \<Longrightarrow> prepared t i) \<Longrightarrow> tq_inv (set_data t i xs)"
  unfolding tq_inv_def using set_data_inv tq_inv_with_prepared by blast

section \<open>Linking a level\<close>

lemma prev_linked_None: "prev_linked qs p = None \<longleftrightarrow> (\<forall>i < p. next_nonempty (qs ! i) = Unlinked)"
  by (induction p) (auto simp: less_Suc_eq)

lemma prev_linked_Some:
  "prev_linked qs p = Some i \<Longrightarrow> i < p \<and> next_nonempty (qs ! i) \<noteq> Unlinked \<and>
     (\<forall>j. i < j \<and> j < p \<longrightarrow> next_nonempty (qs ! j) = Unlinked)"
  by (induction p) (auto simp: less_Suc_eq split: if_splits)

lemma level_set_next [simp]: "level (set_next t i l) = level t"
  by (cases "i < length (queues t)") (auto simp: level_def set_next_def fun_eq_iff nth_list_update)

lemma next_set_next:
  "i < length (queues t) \<Longrightarrow> j < length (queues t) \<Longrightarrow>
   next_nonempty (queues (set_next t i l) ! j) = (if j = i then l else next_nonempty (queues t ! j))"
  by (simp add: set_next_def nth_list_update)

lemma data_set_next [simp]:
  "j < length (queues t) \<Longrightarrow> q_data (queues (set_next t i l) ! j) = q_data (queues t ! j)"
  by (cases "i < length (queues t)") (auto simp: set_next_def nth_list_update)

lemma first_set_next [simp]: "tq_first (set_next t i l) = tq_first t"
  by (simp add: set_next_def)

text \<open>No level below \<open>p\<close> is linked: \<open>p\<close> becomes the head of the chain.\<close>

lemma link_head_inv:
  assumes inv: "tq_inv_with t ls" and p: "p < length (queues t)" "p \<notin> set ls"
    and none: "prev_linked (queues t) p = None"
  shows "tq_inv_with (link_level p t) (p # ls)"
proof -
  let ?t = "set_next t p (tq_first t)"
  from inv have s: "seg (queues t) (tq_first t) ls Null" by (simp add: tq_inv_with_def)
  have above: "p < i" if "i \<in> set ls" for i
    using none that p(2) inv seg_bound [OF s] unfolding prev_linked_None tq_inv_with_def
    by (metis linorder_neqE_nat)
  have first: "tq_first t \<noteq> Unlinked" using s by (cases ls) auto
  have "seg (queues ?t) (tq_first t) ls Null"
    using s by (rule seg_cong) (use seg_bound [OF s] p in \<open>auto simp: next_set_next\<close>)
  with inv above p none first show ?thesis
    by (auto simp: tq_inv_with_def link_level_def next_set_next)
qed

text \<open>Otherwise \<open>p\<close> is inserted behind the nearest linked level \<open>i\<close> below it.\<close>

lemma link_after_inv:
  assumes inv: "tq_inv_with t (xs @ i # ys)" and p: "p < length (queues t)" "p \<notin> set (xs @ i # ys)"
    and prev: "prev_linked (queues t) p = Some i"
  shows "tq_inv_with (link_level p t) (xs @ i # p # ys)"
proof -
  let ?t = "set_next (set_next t p (next_nonempty (queues t ! i))) i (At p)"
  from inv have s: "seg (queues t) (tq_first t) (xs @ i # ys) Null"
    and sorted: "sorted_wrt (<) (xs @ i # ys)" by (simp_all add: tq_inv_with_def)
  from s have i: "i < length (queues t)" by (auto simp: seg_append)
  have ip: "i < p" "next_nonempty (queues t ! i) \<noteq> Unlinked" using prev_linked_Some [OF prev] by auto
  have above: "p < j" if "j \<in> set ys" for j
  proof (rule ccontr)
    assume "\<not> p < j"
    with that p(2) have "j < p" by (auto simp: linorder_not_less le_less)
    moreover have "i < j" using sorted that by (simp add: sorted_wrt_append)
    ultimately have "next_nonempty (queues t ! j) = Unlinked" using prev_linked_Some [OF prev] by blast
    with that inv seg_bound [OF s, of j] show False by (simp add: tq_inv_with_def)
  qed
  have notin: "i \<notin> set ys" "p \<notin> set ys" "p \<notin> set xs" "i \<notin> set xs"
    using p(2) sorted by (auto simp: sorted_wrt_append)
  have below: "j < i" if "j \<in> set xs" for j using sorted that by (simp add: sorted_wrt_append)
  have nx: "next_nonempty (queues ?t ! j) =
      (if j = i then At p else if j = p then next_nonempty (queues t ! i) else next_nonempty (queues t ! j))"
    if "j < length (queues t)" for j using that i p by (simp add: next_set_next)
  from s have "seg (queues t) (tq_first t) xs (At i)" "seg (queues t) (next_nonempty (queues t ! i)) ys Null"
    by (auto simp: seg_append)
  then have "seg (queues ?t) (tq_first t) xs (At i)" "seg (queues ?t) (next_nonempty (queues t ! i)) ys Null"
    using notin seg_bound [OF s]
    by (fastforce elim!: seg_cong [where qs' = "queues ?t"] simp: nx)+
  then have seg: "seg (queues ?t) (tq_first t) (xs @ i # p # ys) Null"
    using i p ip by (auto simp: seg_append nx)
  have sorted': "sorted_wrt (<) (xs @ i # p # ys)"
    using sorted above below ip(1) by (fastforce simp: sorted_wrt_append)
  have "link_level p t = ?t" using prev by (simp add: link_level_def)
  with seg sorted' inv ip(2) show ?thesis by (auto simp: tq_inv_with_def nx)
qed

lemma link_level_inv:
  assumes inv: "tq_inv_with t ls" and p: "p < length (queues t)" "p \<notin> set ls"
  shows "tq_inv_with (link_level p t) (sort (p # ls))"
proof (cases "prev_linked (queues t) p")
  case None
  note link_head_inv [OF inv p None]
  moreover from this have "sorted (p # ls)"
    by (auto simp: tq_inv_with_def intro: strict_sorted_imp_sorted)
  ultimately show ?thesis by (simp add: sorted_sort_id del: sort_key_simps)
next
  case (Some i)
  from prev_linked_Some [OF this] p inv have "i \<in> set ls" by (auto simp: tq_inv_with_def)
  then obtain xs ys where ls: "ls = xs @ i # ys" by (auto simp: in_set_conv_decomp)
  with link_after_inv inv p Some have i: "tq_inv_with (link_level p t) (xs @ i # p # ys)" by blast
  then have "sorted (xs @ i # p # ys)" "mset (xs @ i # p # ys) = mset (p # ls)"
    by (auto simp: tq_inv_with_def ls intro: strict_sorted_imp_sorted)
  then have "sort (p # ls) = xs @ i # p # ys" by (metis properties_for_sort)
  with i show ?thesis by simp
qed

lemma prepare_inv:
  assumes "tq_inv_with t ls" "p < length (queues t)"
  shows "tq_inv_with (prepare p t) (if p \<in> set ls then ls else sort (p # ls))"
proof (cases "p \<in> set ls")
  case True
  with assms have "prepare p t = t" by (simp add: prepare_def tq_inv_with_def)
  with assms True show ?thesis by simp
next
  case False
  with assms have "prepare p t = link_level p t" by (simp add: prepare_def tq_inv_with_def)
  with link_level_inv [OF assms False] False show ?thesis by simp
qed

lemma prepare_level [simp]: "level (prepare p t) = level t"
  by (auto simp: prepare_def link_level_def level_def split: option.splits)

lemma prepare_length [simp]: "length (queues (prepare p t)) = length (queues t)"
  by (auto simp: prepare_def link_level_def split: option.splits)

lemma prepare_spec:
  assumes "tq_inv t" "p < length (queues t)"
  shows "tq_inv (prepare p t) \<and> prepared (prepare p t) = (prepared t)(p := True)"
proof -
  obtain ls where ls: "tq_inv_with t ls" using assms(1) by (auto simp: tq_inv_def)
  note inv = prepare_inv [OF ls assms(2)]
  show ?thesis
    using inv tq_inv_with_prepared [OF inv] tq_inv_with_prepared [OF ls]
    by (auto simp: tq_inv_def fun_eq_iff set_insort_key)
qed

section \<open>Walking the chain\<close>

lemma pop_first_loop_chain:
  "seg (queues t) l ls Null \<Longrightarrow> length ls < n \<Longrightarrow>
   pop_first_loop n t l =
     (case find (\<lambda>i. level t i \<noteq> []) ls of
        Some p \<Rightarrow> Ok (set_data t p (tl (level t p))) (p, Some (hd (level t p)))
      | None \<Rightarrow> Ok t (0, None))"
proof (induction ls arbitrary: l n)
  case Nil
  then show ?case by (cases n) auto
next
  case (Cons x ls)
  then obtain m where "n = Suc m" by (cases n) auto
  with Cons show ?case by (auto simp: level_def split: list.splits)
qed

lemma get_first_loop_chain:
  "seg (queues t) l ls Null \<Longrightarrow> length ls < n \<Longrightarrow>
   get_first_loop n t l = Ok t (map_option (\<lambda>p. hd (level t p)) (find (\<lambda>i. level t i \<noteq> []) ls))"
proof (induction ls arbitrary: l n)
  case Nil
  then show ?case by (cases n) auto
next
  case (Cons x ls)
  then obtain m where "n = Suc m" by (cases n) auto
  with Cons show ?case by (auto simp: level_def split: list.splits)
qed

lemma pop_better_loop_chain:
  "seg (queues t) l ls Null \<Longrightarrow> length ls < n \<Longrightarrow> \<exists>i \<in> set ls. stop \<le> i \<Longrightarrow> sorted_wrt (<) ls \<Longrightarrow>
   pop_better_loop n stop t l =
     (case find (\<lambda>i. level t i \<noteq> []) (filter (\<lambda>i. i < stop) ls) of
        Some p \<Rightarrow> Ok (set_data t p (tl (level t p))) (p, Some (hd (level t p)))
      | None \<Rightarrow> Ok t (0, None))"
proof (induction ls arbitrary: l n)
  case (Cons x ls)
  then obtain m where m: "n = Suc m" by (cases n) auto
  show ?case
  proof (cases "x < stop")
    case True
    with Cons m show ?thesis by (auto simp: level_def split: list.splits)
  next
    case False
    then have "filter (\<lambda>i. i < stop) (x # ls) = []" using Cons.prems(4) by (auto simp: filter_empty_conv)
    with False Cons.prems(1) m show ?thesis by simp
  qed
qed simp

lemma pop_better_loop_falls_off:
  "seg (queues t) l ls Null \<Longrightarrow> \<forall>i \<in> set ls. i < stop \<and> level t i = [] \<Longrightarrow>
   pop_better_loop n stop t l = Crash"
proof (induction ls arbitrary: l n)
  case Nil
  then show ?case by (cases n) auto
next
  case (Cons x ls)
  then show ?case by (cases n) (auto simp: level_def)
qed

text \<open>The first nonempty level of an ascending list that contains all nonempty ones is the best level.\<close>

definition best_level :: "'a thread_queue_list \<Rightarrow> nat option" where
  "best_level t = find (\<lambda>i. level t i \<noteq> []) [0..<length (queues t)]"

lemma find_sorted_unique:
  fixes xs ys :: "nat list"
  assumes "sorted_wrt (<) xs" "sorted_wrt (<) ys" "\<And>i. P i \<Longrightarrow> i \<in> set xs \<longleftrightarrow> i \<in> set ys"
  shows "find P xs = find P ys"
proof -
  have "filter P xs = filter P ys"
    using assms by (intro strict_sorted_equal sorted_wrt_filter) auto
  moreover have "find P zs = (case filter P zs of [] \<Rightarrow> None | z # _ \<Rightarrow> Some z)" for zs :: "nat list"
    by (induction zs) auto
  ultimately show ?thesis by simp
qed

lemma best_level_chain:
  assumes "tq_inv_with t ls"
  shows "find (\<lambda>i. level t i \<noteq> []) ls = best_level t"
  unfolding best_level_def
proof (rule find_sorted_unique)
  show "sorted_wrt (<) ls" using assms by (simp add: tq_inv_with_def)
  show "i \<in> set ls \<longleftrightarrow> i \<in> set [0..<length (queues t)]" if "level t i \<noteq> []" for i
    using that tq_inv_with_level [OF assms that] by (auto simp: level_def split: if_splits)
qed simp

lemma best_level_Some:
  "best_level t = Some p \<longleftrightarrow> level t p \<noteq> [] \<and> (\<forall>i < p. level t i = [])"
proof -
  have "level t p \<noteq> [] \<Longrightarrow> p < length (queues t)" by (auto simp: level_def split: if_splits)
  then show ?thesis
    unfolding best_level_def find_Some_iff by (auto intro: exI [of _ p])
qed

lemma best_level_None: "best_level t = None \<longleftrightarrow> (\<forall>i. level t i = [])"
  by (auto simp: best_level_def find_None_iff level_def)

section \<open>The contract of the ready queue\<close>

locale ready_queue =
  fixes inv :: "'q \<Rightarrow> bool"
    and levels :: "'q \<Rightarrow> nat"
    and lvl :: "'q \<Rightarrow> nat \<Rightarrow> 'a list"
    and prep :: "'q \<Rightarrow> nat \<Rightarrow> bool"
    and pop :: "'q \<Rightarrow> ('q, nat \<times> 'a option) outcome"
    and pop_better :: "nat \<Rightarrow> 'q \<Rightarrow> ('q, nat \<times> 'a option) outcome"
    and store :: "'q \<Rightarrow> nat \<Rightarrow> 'a list \<Rightarrow> 'q"
    and ready_level :: "nat \<Rightarrow> 'q \<Rightarrow> 'q"
  assumes pop_empty: "inv q \<Longrightarrow> \<forall>i. lvl q i = [] \<Longrightarrow> pop q = Ok q (0, None)"
    and pop_best: "inv q \<Longrightarrow> lvl q p = x # xs \<Longrightarrow> \<forall>i < p. lvl q i = [] \<Longrightarrow>
      pop q = Ok (store q p xs) (p, Some x)"
    and pop_better_none: "inv q \<Longrightarrow> prep q n \<Longrightarrow> \<forall>i < n. lvl q i = [] \<Longrightarrow> pop_better n q = Ok q (0, None)"
    and pop_better_best: "inv q \<Longrightarrow> prep q n \<Longrightarrow> p < n \<Longrightarrow> lvl q p = x # xs \<Longrightarrow>
      \<forall>i < p. lvl q i = [] \<Longrightarrow> pop_better n q = Ok (store q p xs) (p, Some x)"
    and store_inv: "inv q \<Longrightarrow> (xs \<noteq> [] \<Longrightarrow> prep q p) \<Longrightarrow> inv (store q p xs)"
    and store_lvl: "p < levels q \<Longrightarrow> lvl (store q p xs) = (lvl q)(p := xs)"
    and store_prep: "prep (store q p xs) = prep q"
    and ready_inv: "inv q \<Longrightarrow> p < levels q \<Longrightarrow> inv (ready_level p q)"
    and ready_lvl: "lvl (ready_level p q) = lvl q"
    and ready_prep: "inv q \<Longrightarrow> p < levels q \<Longrightarrow> prep (ready_level p q) = (prep q)(p := True)"
    and lvl_prep: "inv q \<Longrightarrow> lvl q p \<noteq> [] \<Longrightarrow> prep q p"
    and prep_bound: "prep q p \<Longrightarrow> p < levels q"
begin

lemma best_exists:
  assumes "lvl q i \<noteq> []"
  obtains p x xs where "lvl q p = x # xs" "\<forall>j < p. lvl q j = []" "p \<le> i"
proof -
  let ?p = "LEAST j. lvl q j \<noteq> []"
  have "lvl q ?p \<noteq> []" "?p \<le> i" 
    using LeastI [of "\<lambda>j. lvl q j \<noteq> []", OF assms] Least_le [of "\<lambda>j. lvl q j \<noteq> []", OF assms] by auto
  moreover have "\<forall>j < ?p. lvl q j = []" using not_less_Least by blast
  ultimately show thesis using that by (metis neq_Nil_conv)
qed

text \<open>A pop always returns, and what it returns is the head of the best nonempty level.\<close>

lemma pop_spec:
  assumes "inv q"
  shows "\<exists>q' r. pop q = Ok q' r \<and> inv q' \<and> prep q' = prep q \<and>
    (case r of
       (p, None) \<Rightarrow> q' = q \<and> (\<forall>i. lvl q i = [])
     | (p, Some x) \<Rightarrow> lvl q p = x # lvl q' p \<and> (\<forall>i < p. lvl q i = []) \<and> (\<forall>i. i \<noteq> p \<longrightarrow> lvl q' i = lvl q i))"
proof (cases "\<forall>i. lvl q i = []")
  case True
  with assms show ?thesis by (simp add: pop_empty)
next
  case False
  then obtain i where "lvl q i \<noteq> []" by blast
  then obtain p x xs where best: "lvl q p = x # xs" "\<forall>j < p. lvl q j = []" by (rule best_exists)
  then have "prep q p" using lvl_prep assms by simp
  then show ?thesis
    using pop_best [OF assms best] best store_inv [OF assms, of xs p]
    by (simp add: store_lvl prep_bound store_prep)
qed

lemma pop_better_spec:
  assumes "inv q" "prep q n"
  shows "\<exists>q' r. pop_better n q = Ok q' r \<and> inv q' \<and> prep q' = prep q \<and>
    (case r of
       (p, None) \<Rightarrow> q' = q \<and> (\<forall>i < n. lvl q i = [])
     | (p, Some x) \<Rightarrow> p < n \<and> lvl q p = x # lvl q' p \<and> (\<forall>i < p. lvl q i = []) \<and>
         (\<forall>i. i \<noteq> p \<longrightarrow> lvl q' i = lvl q i))"
proof (cases "\<forall>i < n. lvl q i = []")
  case True
  with assms show ?thesis by (simp add: pop_better_none)
next
  case False
  then obtain i where i: "i < n" "lvl q i \<noteq> []" by blast
  from i(2) obtain p x xs where best: "lvl q p = x # xs" "\<forall>j < p. lvl q j = []" and "p \<le> i"
    by (rule best_exists)
  with i(1) have "p < n" by simp
  moreover from best have "prep q p" using lvl_prep assms by simp
  ultimately show ?thesis
    using pop_better_best [OF assms \<open>p < n\<close> best] best store_inv [OF assms(1), of xs p]
    by (simp add: store_lvl prep_bound store_prep)
qed

end

lemma pop_first_best:
  assumes "tq_inv t"
  shows "pop_first t = (case best_level t of
      Some p \<Rightarrow> Ok (set_data t p (tl (level t p))) (p, Some (hd (level t p)))
    | None \<Rightarrow> Ok t (0, None))"
proof -
  obtain ls where ls: "tq_inv_with t ls" using assms by (auto simp: tq_inv_def)
  then have s: "seg (queues t) (tq_first t) ls Null" "sorted_wrt (<) ls" by (auto simp: tq_inv_with_def)
  then have "length ls < length (queues t) + 1" using seg_length by fastforce
  then show ?thesis
    using pop_first_loop_chain [OF s(1)] by (simp add: pop_first_def best_level_chain [OF ls])
qed

lemma find_filter_below:
  "find P (filter (\<lambda>i. i < n) xs) = find (\<lambda>i. P i \<and> i < n) xs"
  by (induction xs) auto

lemma pop_first_better_chain:
  assumes "tq_inv t" "prepared t n"
  shows "pop_first_better n t = (case find (\<lambda>i. level t i \<noteq> []) [0..<n] of
      Some p \<Rightarrow> Ok (set_data t p (tl (level t p))) (p, Some (hd (level t p)))
    | None \<Rightarrow> Ok t (0, None))"
proof -
  obtain ls where ls: "tq_inv_with t ls" using assms by (auto simp: tq_inv_def)
  then have s: "seg (queues t) (tq_first t) ls Null" "sorted_wrt (<) ls" by (auto simp: tq_inv_with_def)
  then have "length ls < length (queues t) + 1" using seg_length by fastforce
  moreover have "n \<in> set ls" using assms(2) tq_inv_with_prepared [OF ls] by simp
  moreover have "find (\<lambda>i. level t i \<noteq> []) (filter (\<lambda>i. i < n) ls) = find (\<lambda>i. level t i \<noteq> []) [0..<n]"
    by (rule find_sorted_unique) (use s(2) tq_inv_with_level [OF ls] in \<open>auto intro: sorted_wrt_filter\<close>)
  ultimately show ?thesis
    using pop_better_loop_chain [OF s(1) _ _ s(2), of "length (queues t) + 1" n] assms(2)
    by (auto simp: pop_first_better_def prepared_def)
qed

lemma find_upt_best:
  "p < n \<Longrightarrow> level t p \<noteq> [] \<Longrightarrow> \<forall>i < p. level t i = [] \<Longrightarrow>
   find (\<lambda>i. level t i \<noteq> []) [0..<n] = Some p"
  unfolding find_Some_iff by (auto intro: exI [of _ p])

interpretation tq: ready_queue tq_inv "\<lambda>t. length (queues t)" level prepared pop_first pop_first_better
  set_data prepare
proof
  fix q :: "'a thread_queue_list" and p n x and xs :: "'a list"
  show "tq_inv q \<Longrightarrow> \<forall>i. level q i = [] \<Longrightarrow> pop_first q = Ok q (0, None)"
    using best_level_None [of q] by (simp add: pop_first_best)
  show "tq_inv q \<Longrightarrow> level q p = x # xs \<Longrightarrow> \<forall>i < p. level q i = [] \<Longrightarrow>
      pop_first q = Ok (set_data q p xs) (p, Some x)"
    using best_level_Some [of q p] by (simp add: pop_first_best)
  show "tq_inv q \<Longrightarrow> prepared q n \<Longrightarrow> \<forall>i < n. level q i = [] \<Longrightarrow> pop_first_better n q = Ok q (0, None)"
    using find_None_iff [of "\<lambda>i. level q i \<noteq> []" "[0..<n]"] by (simp add: pop_first_better_chain)
  show "tq_inv q \<Longrightarrow> prepared q n \<Longrightarrow> p < n \<Longrightarrow> level q p = x # xs \<Longrightarrow>
      \<forall>i < p. level q i = [] \<Longrightarrow> pop_first_better n q = Ok (set_data q p xs) (p, Some x)"
    by (simp add: pop_first_better_chain find_upt_best)
  show "tq_inv q \<Longrightarrow> (xs \<noteq> [] \<Longrightarrow> prepared q p) \<Longrightarrow> tq_inv (set_data q p xs)"
    by (rule set_data_tq_inv)
  show "tq_inv q \<Longrightarrow> p < length (queues q) \<Longrightarrow> tq_inv (prepare p q)"
    "tq_inv q \<Longrightarrow> p < length (queues q) \<Longrightarrow> prepared (prepare p q) = (prepared q)(p := True)"
    using prepare_spec by blast+
  show "tq_inv q \<Longrightarrow> level q p \<noteq> [] \<Longrightarrow> prepared q p"
    using tq_inv_with_level tq_inv_with_prepared by (metis tq_inv_def)
  show "prepared q p \<Longrightarrow> p < length (queues q)" by (simp add: prepared_def)
qed simp_all

section \<open>Properties\<close>

lemma tq_inv_fresh: "tq_inv (ThreadQueueList n)"
  by (auto simp: tq_inv_def tq_inv_with_def ThreadQueueList_def EmptyQueue_def intro!: exI [of _ "[]"])

lemma tq_length_fresh [simp]: "length (queues (ThreadQueueList n)) = n"
  by (simp add: ThreadQueueList_def)

lemma level_fresh [simp]: "level (ThreadQueueList n) p = []"
  by (simp add: level_def ThreadQueueList_def EmptyQueue_def)

text \<open>A queue with one element of priority 5 and one of priority 20, for the witnesses.\<close>

definition sample_queue :: "nat thread_queue_list" where
  "sample_queue = push_back 20 11 (prepare 20 (push_back 5 10 (prepare 5 (ThreadQueueList 64))))"

lemma push_back_inv:
  "tq_inv t \<Longrightarrow> prepared t p \<Longrightarrow> tq_inv (push_back p x t)"
  by (simp add: push_back_def tq.store_inv)

lemma push_back_prepared [simp]: "prepared (push_back p x t) = prepared t"
  by (simp add: push_back_def)

lemma push_back_length [simp]: "length (queues (push_back p x t)) = length (queues t)"
  by (simp add: push_back_def)

lemma sample_queue_inv: "tq_inv sample_queue" "prepared sample_queue 20"
  by (simp_all add: sample_queue_def push_back_inv prepare_spec tq_inv_fresh)

text \<open>
  Property: \<^verbatim>\<open>pop_first\<close> on a well-formed queue always returns. It takes the front thread of the highest
  priority (smallest) nonempty level and leaves everything else as it was; it returns the default value,
  and changes nothing, only when every level is empty.
\<close>

theorem pop_first_spec:
  assumes "tq_inv t"
  shows "\<exists>t' r. pop_first t = Ok t' r \<and> tq_inv t' \<and> prepared t' = prepared t \<and>
    (case r of
       (p, None) \<Rightarrow> t' = t \<and> (\<forall>i. level t i = [])
     | (p, Some x) \<Rightarrow> level t p = x # level t' p \<and> (\<forall>i < p. level t i = []) \<and>
         (\<forall>i. i \<noteq> p \<longrightarrow> level t' i = level t i))"
  using assms by (rule tq.pop_spec)

theorem pop_first_spec_witness:
  "\<exists>t' r. pop_first sample_queue = Ok t' r \<and> tq_inv t' \<and> prepared t' = prepared sample_queue \<and>
    (case r of
       (p, None) \<Rightarrow> t' = sample_queue \<and> (\<forall>i. level sample_queue i = [])
     | (p, Some x) \<Rightarrow> level sample_queue p = x # level t' p \<and> (\<forall>i < p. level sample_queue i = []) \<and>
         (\<forall>i. i \<noteq> p \<longrightarrow> level t' i = level sample_queue i))"
  by (rule pop_first_spec [OF sample_queue_inv(1)])

text \<open>
  Property: \<^verbatim>\<open>pop_first_better\<close> with a prepared priority \<open>n\<close> always returns, and takes a thread exactly when
  one of strictly better priority is ready: the front thread of the best such level.
\<close>

theorem pop_first_better_spec:
  assumes "tq_inv t" and "prepared t n"
  shows "\<exists>t' r. pop_first_better n t = Ok t' r \<and> tq_inv t' \<and> prepared t' = prepared t \<and>
    (case r of
       (p, None) \<Rightarrow> t' = t \<and> (\<forall>i < n. level t i = [])
     | (p, Some x) \<Rightarrow> p < n \<and> level t p = x # level t' p \<and> (\<forall>i < p. level t i = []) \<and>
         (\<forall>i. i \<noteq> p \<longrightarrow> level t' i = level t i))"
  using assms by (rule tq.pop_better_spec)

theorem pop_first_better_spec_witness:
  "\<exists>t' r. pop_first_better 20 sample_queue = Ok t' r \<and> tq_inv t' \<and> prepared t' = prepared sample_queue \<and>
    (case r of
       (p, None) \<Rightarrow> t' = sample_queue \<and> (\<forall>i < 20. level sample_queue i = [])
     | (p, Some x) \<Rightarrow> p < 20 \<and> level sample_queue p = x # level t' p \<and>
         (\<forall>i < p. level sample_queue i = []) \<and> (\<forall>i. i \<noteq> p \<longrightarrow> level t' i = level sample_queue i))"
  by (rule pop_first_better_spec [OF sample_queue_inv])

text \<open>
  Property: \<^verbatim>\<open>pop_first_better\<close> needs its priority to be prepared: when no linked level lies at or above it and
  no better thread is ready, the walk runs off the end of the chain and dereferences the null pointer.
\<close>

theorem pop_first_better_unprepared_crash:
  assumes "tq_inv t" and "\<forall>i. prepared t i \<longrightarrow> i < n \<and> level t i = []"
  shows "pop_first_better n t = Crash"
proof -
  obtain ls where ls: "tq_inv_with t ls" using assms(1) by (auto simp: tq_inv_def)
  then have "seg (queues t) (tq_first t) ls Null" by (simp add: tq_inv_with_def)
  then show ?thesis
    using assms(2) pop_better_loop_falls_off [of t "tq_first t" ls n] tq_inv_with_prepared [OF ls]
    by (auto simp: pop_first_better_def assertO_def)
qed

theorem pop_first_better_unprepared_crash_witness:
  "pop_first_better 48 (ThreadQueueList 64 :: nat thread_queue_list) = Crash"
  by (rule pop_first_better_unprepared_crash [OF tq_inv_fresh])
    (auto simp: prepared_def ThreadQueueList_def EmptyQueue_def)

text \<open>
  Property: \<^verbatim>\<open>move\<close> takes a thread out of its old level and puts it at the back of the new one, preparing that
  level; every other level, and the order of the other threads, is unchanged and the queue stays well formed.
\<close>

theorem move_spec:
  assumes "tq_inv t" and "old < length (queues t)" and "new < length (queues t)"
  shows "tq_inv (move x old new t) \<and> prepared (move x old new t) = (prepared t)(new := True) \<and>
    level (move x old new t) =
      (let l = (level t)(old := filter (\<lambda>y. y \<noteq> x) (level t old)) in l(new := l new @ [x]))"
proof -
  let ?r = "remove old x t"
  have "filter (\<lambda>y. y \<noteq> x) (level t old) \<noteq> [] \<Longrightarrow> prepared t old"
    using tq.lvl_prep [OF assms(1), of old] by (cases "level t old") simp_all
  then have r: "tq_inv ?r" "prepared ?r = prepared t" "length (queues ?r) = length (queues t)"
    "level ?r = (level t)(old := filter (\<lambda>y. y \<noteq> x) (level t old))"
    using assms by (auto simp: remove_def level_def tq.store_inv)
  have "q_data (queues (prepare new ?r) ! new) = level ?r new"
    using assms(3) r(3) fun_cong [OF prepare_level [of new ?r], of new]
    by (simp add: level_def del: prepare_level)
  then have "level (move x old new t) = (level ?r)(new := level ?r new @ [x])"
    using assms r(3) by (simp add: move_def push_back_def)
  moreover have "tq_inv (move x old new t)" "prepared (move x old new t) = (prepared t)(new := True)"
    using prepare_spec [OF r(1), of new] r assms(3) by (simp_all add: move_def push_back_inv)
  ultimately show ?thesis using r(4) by (simp add: Let_def)
qed

theorem move_spec_witness:
  "tq_inv (move 10 5 20 sample_queue) \<and>
   prepared (move 10 5 20 sample_queue) = (prepared sample_queue)(20 := True) \<and>
   level (move 10 5 20 sample_queue) =
     (let l = (level sample_queue)(5 := filter (\<lambda>y. y \<noteq> 10) (level sample_queue 5)) in l(20 := l 20 @ [10]))"
  by (rule move_spec [OF sample_queue_inv(1)]) (simp_all add: sample_queue_def)

text \<open>
  Property: Saving and loading a queue gives back the same queue, pointers included.
\<close>

theorem load_save_tq: "load_tq (save_tq t) = t"
proof -
  have p: "ToPointer (ToIndex l) = l" for l by (cases l) (simp_all add: ToPointer_def)
  have "(\<lambda>q. \<lparr>next_nonempty = next_nonempty q, q_data = q_data q\<rparr>) = (id :: 'a queue \<Rightarrow> 'a queue)"
    by (simp add: fun_eq_iff)
  then show ?thesis by (simp add: load_tq_def save_tq_def p comp_def)
qed

end
