(* ===== verification/Page_Table.thy ===== *)
theory Page_Table
  imports Emu_Prelude
begin

text \<open>
  Host memory references (\<^verbatim>\<open>src/common/memory_ref.h\<close>) and the page table operations of the memory
  system (\<^verbatim>\<open>MapPages\<close>, \<^verbatim>\<open>MapMemoryRegion\<close>, \<^verbatim>\<open>UnmapRegion\<close> in \<^verbatim>\<open>src/core/memory.cpp\<close>).
  A \<open>backing_mem\<close> is a host allocation, given by its address and size; addresses and sizes are natural
  numbers. Page tables are functions on page numbers. \<open>cached\<close> is the rasterizer's marker
  \<^verbatim>\<open>cache_marker.IsCached\<close> as a predicate on pages; flushing the rasterizer cache is outside the model.
\<close>

section \<open>Memory references\<close>

record backing_mem =
  bm_ptr :: nat
  bm_size :: nat

record memory_ref =
  mr_backing :: "backing_mem option"
  mr_offset :: nat

definition null_ref :: memory_ref where
  "null_ref = \<lparr>mr_backing = None, mr_offset = 0\<rparr>"

definition GetPtr :: "memory_ref \<Rightarrow> nat" where
  "GetPtr r = (case mr_backing r of None \<Rightarrow> 0 | Some b \<Rightarrow> bm_ptr b + mr_offset r)"

definition GetSize :: "memory_ref \<Rightarrow> nat" where
  "GetSize r = (case mr_backing r of None \<Rightarrow> 0 | Some b \<Rightarrow> bm_size b - mr_offset r)"

text \<open>\<^verbatim>\<open>operator+=\<close> and \<^verbatim>\<open>operator+\<close>: \<open>None\<close> is the failed \<^verbatim>\<open>ASSERT(offset_by < csize)\<close>.\<close>

definition ref_add :: "memory_ref \<Rightarrow> nat \<Rightarrow> memory_ref option" where
  "ref_add r offset_by =
     (if offset_by < GetSize r then Some (r\<lparr>mr_offset := mr_offset r + offset_by\<rparr>) else None)"

text \<open>\<open>ref_covers H r n\<close>: \<open>r\<close> points into an allocation of \<open>H\<close> with at least \<open>n\<close> bytes left.\<close>

definition ref_covers :: "backing_mem set \<Rightarrow> memory_ref \<Rightarrow> nat \<Rightarrow> bool" where
  "ref_covers H r n \<longleftrightarrow> (\<exists>b \<in> H. mr_backing r = Some b \<and> mr_offset r + n \<le> bm_size b)"

text \<open>
  The host's allocations: none at the null address, and no two of them overlap or touch (allocators keep
  a header or guard between blocks).
\<close>

definition host_layout :: "backing_mem set \<Rightarrow> bool" where
  "host_layout H \<longleftrightarrow> (\<forall>b \<in> H. 0 < bm_ptr b) \<and>
     (\<forall>b \<in> H. \<forall>b' \<in> H. b \<noteq> b' \<longrightarrow>
        bm_ptr b + bm_size b < bm_ptr b' \<or> bm_ptr b' + bm_size b' < bm_ptr b)"

lemma ref_add_covers:
  "ref_covers H r (m + n) \<Longrightarrow> 0 < n \<Longrightarrow> \<exists>r'. ref_add r m = Some r' \<and> ref_covers H r' n \<and> GetPtr r' = GetPtr r + m"
  by (auto simp: ref_covers_def ref_add_def GetSize_def GetPtr_def)

lemma ref_covers_mono: "ref_covers H r n \<Longrightarrow> m \<le> n \<Longrightarrow> ref_covers H r m"
  by (auto simp: ref_covers_def)

lemma ref_covers_nonnull: "host_layout H \<Longrightarrow> ref_covers H r n \<Longrightarrow> 0 < GetPtr r"
  by (auto simp: host_layout_def ref_covers_def GetPtr_def)

text \<open>Two references that are adjacent on the host are into the same allocation.\<close>

lemma ref_covers_join:
  assumes "host_layout H" "ref_covers H r m" "ref_covers H r' n" "0 < n" "GetPtr r + m = GetPtr r'"
  shows "ref_covers H r (m + n)"
proof -
  obtain b b' where b: "b \<in> H" "mr_backing r = Some b" "mr_offset r + m \<le> bm_size b"
    and b': "b' \<in> H" "mr_backing r' = Some b'" "mr_offset r' + n \<le> bm_size b'"
    using assms(2,3) by (auto simp: ref_covers_def)
  have eq: "bm_ptr b + mr_offset r + m = bm_ptr b' + mr_offset r'"
    using assms(5) b b' by (simp add: GetPtr_def)
  have "b = b'"
  proof (rule ccontr)
    assume "b \<noteq> b'"
    with assms(1) b(1) b'(1)
    have "bm_ptr b + bm_size b < bm_ptr b' \<or> bm_ptr b' + bm_size b' < bm_ptr b"
      by (auto simp: host_layout_def)
    with eq b(3) b'(3) assms(4) show False by auto
  qed
  with b b' eq show ?thesis by (auto simp: ref_covers_def)
qed

section \<open>Page tables\<close>

definition CITRA_PAGE_BITS :: nat where "CITRA_PAGE_BITS = 12"
definition CITRA_PAGE_SIZE :: nat where "CITRA_PAGE_SIZE = 0x1000"
definition PAGE_TABLE_NUM_ENTRIES :: nat where "PAGE_TABLE_NUM_ENTRIES = 0x100000"

datatype page_type = UnmappedPage | MemoryPage | RasterizerCachedMemory | MemoryWatchpoint
  | RasterizerCachedMemoryWatchpoint

record watchpoint_info =
  watchpoint_count :: nat
  wp_memory :: memory_ref

record page_table =
  attributes :: "nat \<Rightarrow> page_type"
  pointers :: "nat \<Rightarrow> memory_ref"
  watchpoint_pages_map :: "nat \<rightharpoonup> watchpoint_info"

definition NewPageTable :: page_table where
  "NewPageTable = \<lparr>attributes = (\<lambda>p. UnmappedPage), pointers = (\<lambda>p. null_ref),
     watchpoint_pages_map = Map.empty\<rparr>"

definition ClearPageTable :: "page_table \<Rightarrow> page_table" where
  "ClearPageTable pt = pt\<lparr>pointers := (\<lambda>p. null_ref), attributes := (\<lambda>p. UnmappedPage)\<rparr>"

text \<open>One iteration of the loop of \<^verbatim>\<open>MapPages\<close>.\<close>

definition map_page :: "(nat \<Rightarrow> bool) \<Rightarrow> page_table \<Rightarrow> nat \<Rightarrow> memory_ref \<Rightarrow> page_type \<Rightarrow> page_table" where
  "map_page cached pt base mem ty =
     (let pt1 = pt\<lparr>attributes := (attributes pt)(base := ty), pointers := (pointers pt)(base := mem)\<rparr>
      in if ty = MemoryPage \<and> cached base
         then pt1\<lparr>attributes := (attributes pt1)(base := RasterizerCachedMemory),
                  pointers := (pointers pt1)(base := null_ref)\<rparr>
         else pt1)"

text \<open>
  \<open>MapPages\<close> over \<open>n\<close> pages: \<open>end = base + size\<close> does not wrap for the page numbers below 2^20 that
  can occur, and the loop ends when \<open>n\<close> reaches 0.
\<close>

fun MapPages ::
  "(nat \<Rightarrow> bool) \<Rightarrow> page_table \<Rightarrow> nat \<Rightarrow> nat \<Rightarrow> memory_ref \<Rightarrow> page_type \<Rightarrow> page_table option" where
  "MapPages cached pt base 0 mem ty = Some pt"
| "MapPages cached pt base (Suc n) mem ty =
     (if base < PAGE_TABLE_NUM_ENTRIES
      then (let pt1 = map_page cached pt base mem ty in
            if GetPtr mem \<noteq> 0 \<and> GetSize mem > CITRA_PAGE_SIZE
            then (case ref_add mem CITRA_PAGE_SIZE of
                    Some mem' \<Rightarrow> MapPages cached pt1 (base + 1) n mem' ty
                  | None \<Rightarrow> None)
            else MapPages cached pt1 (base + 1) n mem ty)
      else None)"

definition MapMemoryRegion ::
  "(nat \<Rightarrow> bool) \<Rightarrow> page_table \<Rightarrow> nat \<Rightarrow> nat \<Rightarrow> memory_ref \<Rightarrow> page_table option" where
  "MapMemoryRegion cached pt base sz target =
     (if sz mod CITRA_PAGE_SIZE = 0 \<and> base mod CITRA_PAGE_SIZE = 0
      then MapPages cached pt (base div CITRA_PAGE_SIZE) (sz div CITRA_PAGE_SIZE) target MemoryPage
      else None)"

definition UnmapRegion :: "(nat \<Rightarrow> bool) \<Rightarrow> page_table \<Rightarrow> nat \<Rightarrow> nat \<Rightarrow> page_table option" where
  "UnmapRegion cached pt base sz =
     (if sz mod CITRA_PAGE_SIZE = 0 \<and> base mod CITRA_PAGE_SIZE = 0
      then MapPages cached pt (base div CITRA_PAGE_SIZE) (sz div CITRA_PAGE_SIZE) null_ref UnmappedPage
      else None)"

section \<open>What a mapping leaves in the table\<close>

text \<open>The kind of entry a page should have: unmapped, or backed by the host address \<open>ptr\<close>.\<close>

definition page_unmapped :: "page_table \<Rightarrow> nat \<Rightarrow> bool" where
  "page_unmapped pt p \<longleftrightarrow> attributes pt p = UnmappedPage \<and> pointers pt p = null_ref"

definition page_backed :: "(nat \<Rightarrow> bool) \<Rightarrow> page_table \<Rightarrow> nat \<Rightarrow> nat \<Rightarrow> bool" where
  "page_backed cached pt p ptr \<longleftrightarrow>
     (if cached p then attributes pt p = RasterizerCachedMemory \<and> pointers pt p = null_ref
      else attributes pt p = MemoryPage \<and> GetPtr (pointers pt p) = ptr)"

definition same_page :: "page_table \<Rightarrow> page_table \<Rightarrow> nat \<Rightarrow> bool" where
  "same_page pt pt' p \<longleftrightarrow> attributes pt' p = attributes pt p \<and> pointers pt' p = pointers pt p"

lemma map_page_other: "p \<noteq> base \<Longrightarrow> same_page pt (map_page cached pt base mem ty) p"
  by (simp add: map_page_def same_page_def Let_def)

lemma map_page_backed: "page_backed cached (map_page cached pt base mem MemoryPage) base (GetPtr mem)"
  by (simp add: map_page_def page_backed_def Let_def)

lemma map_page_unmapped: "page_unmapped (map_page cached pt base null_ref UnmappedPage) base"
  by (simp add: map_page_def page_unmapped_def Let_def)

lemma same_page_trans: "same_page a b p \<Longrightarrow> same_page b c p \<Longrightarrow> same_page a c p"
  by (simp add: same_page_def)

lemma same_page_refl [simp]: "same_page pt pt p"
  by (simp add: same_page_def)

lemma page_backed_same: "same_page a b p \<Longrightarrow> page_backed cached b p ptr \<longleftrightarrow> page_backed cached a p ptr"
  by (simp add: same_page_def page_backed_def)

lemma page_unmapped_same: "same_page a b p \<Longrightarrow> page_unmapped b p \<longleftrightarrow> page_unmapped a p"
  by (simp add: same_page_def page_unmapped_def)

lemma same_page_map_page:
  "p \<noteq> base \<Longrightarrow> same_page (map_page cached pt base mem ty) pt' p \<longleftrightarrow> same_page pt pt' p"
  by (simp add: map_page_def same_page_def Let_def)

lemma GetPtr_null [simp]: "GetPtr null_ref = 0"
  by (simp add: GetPtr_def null_ref_def)

lemma MapPages_unmap:
  "base + n \<le> PAGE_TABLE_NUM_ENTRIES \<Longrightarrow>
   \<exists>pt'. MapPages cached pt base n null_ref UnmappedPage = Some pt' \<and>
     (\<forall>p. if base \<le> p \<and> p < base + n then page_unmapped pt' p else same_page pt pt' p)"
proof (induction n arbitrary: base pt)
  case (Suc n)
  let ?pt = "map_page cached pt base null_ref UnmappedPage"
  from Suc.prems Suc.IH [of "base + 1" ?pt] obtain pt' where
    pt': "MapPages cached ?pt (base + 1) n null_ref UnmappedPage = Some pt'"
    and spec: "\<And>p. if base + 1 \<le> p \<and> p < base + 1 + n then page_unmapped pt' p else same_page ?pt pt' p"
    by auto
  have "if base \<le> p \<and> p < base + Suc n then page_unmapped pt' p else same_page pt pt' p" for p
    using spec [of p]
    by (cases "p = base")
      (auto simp: page_unmapped_same map_page_unmapped same_page_map_page split: if_splits)
  with pt' Suc.prems show ?case by simp
qed auto

lemma MapPages_backed:
  assumes "host_layout H"
  shows "base + n \<le> PAGE_TABLE_NUM_ENTRIES \<Longrightarrow> ref_covers H mem (n * CITRA_PAGE_SIZE) \<Longrightarrow>
   \<exists>pt'. MapPages cached pt base n mem MemoryPage = Some pt' \<and>
     (\<forall>p. if base \<le> p \<and> p < base + n
          then page_backed cached pt' p (GetPtr mem + (p - base) * CITRA_PAGE_SIZE)
          else same_page pt pt' p)"
proof (induction n arbitrary: base pt mem)
  case (Suc n)
  let ?pt = "map_page cached pt base mem MemoryPage"
  have nn: "GetPtr mem \<noteq> 0" using ref_covers_nonnull [OF assms Suc.prems(2)] by simp
  define mem' where "mem' = (if GetSize mem > CITRA_PAGE_SIZE
    then mem\<lparr>mr_offset := mr_offset mem + CITRA_PAGE_SIZE\<rparr> else mem)"
  have step: "MapPages cached pt base (Suc n) mem MemoryPage = MapPages cached ?pt (base + 1) n mem' MemoryPage"
    using Suc.prems(1) nn by (simp add: mem'_def ref_add_def)
  have cov: "ref_covers H mem' (n * CITRA_PAGE_SIZE)"
    using Suc.prems(2) by (auto simp: mem'_def ref_covers_def GetSize_def CITRA_PAGE_SIZE_def)
  have ptr: "GetPtr mem' = GetPtr mem + CITRA_PAGE_SIZE" if "0 < n"
    using that Suc.prems(2) by (auto simp: mem'_def ref_covers_def GetSize_def GetPtr_def CITRA_PAGE_SIZE_def)
  from Suc.prems Suc.IH [of "base + 1" mem' ?pt] cov obtain pt' where
    pt': "MapPages cached ?pt (base + 1) n mem' MemoryPage = Some pt'"
    and spec: "\<And>p. if base + 1 \<le> p \<and> p < base + 1 + n
      then page_backed cached pt' p (GetPtr mem' + (p - (base + 1)) * CITRA_PAGE_SIZE)
      else same_page ?pt pt' p"
    by auto
  have "if base \<le> p \<and> p < base + Suc n
      then page_backed cached pt' p (GetPtr mem + (p - base) * CITRA_PAGE_SIZE) else same_page pt pt' p" for p
  proof (cases "base + 1 \<le> p \<and> p < base + 1 + n")
    case True
    then have "GetPtr mem' + (p - (base + 1)) * CITRA_PAGE_SIZE = GetPtr mem + (p - base) * CITRA_PAGE_SIZE"
      using ptr by (simp add: diff_mult_distrib CITRA_PAGE_SIZE_def)
    with True spec [of p] show ?thesis by simp
  next
    case False
    with spec [of p] have same: "same_page ?pt pt' p" by (simp only: if_False)
    show ?thesis
    proof (cases "p = base")
      case True
      with same show ?thesis by (simp add: page_backed_same map_page_backed)
    next
      case neq: False
      with False same show ?thesis by (auto simp: same_page_map_page)
    qed
  qed
  with pt' step show ?case by simp
qed auto

end
