(* ===== verification/VM_Manager.thy ===== *)
theory VM_Manager
  imports Page_Table Result_Code
begin

text \<open>
  \<^verbatim>\<open>Kernel::VMManager\<close> (\<^verbatim>\<open>src/core/hle/kernel/vm_manager.h\<close> and \<^verbatim>\<open>vm_manager.cpp\<close>): the map of a
  process' virtual address space. The \<^verbatim>\<open>std::map\<close> from base addresses to areas is the list of areas in
  the order of their bases; an iterator is an index into it, the length of the list being \<^verbatim>\<open>end()\<close>.
  Addresses and sizes are natural numbers with the 32-bit wrap-around written out. The loops over a range
  take fuel: one more than the number of areas is enough, which the theorems show by proving a result.
  The plugin loader's notification in \<^verbatim>\<open>UpdatePageTableForVMA\<close> is not modelled.
\<close>

section \<open>Data\<close>

datatype vma_type = VMAFree | BackingMemory

datatype memory_state = StFree | StReserved | StIO | StStatic | StCode | StPrivate | StShared
  | StContinuous | StAliased | StAlias | StAliasCode | StLocked

text \<open>\<^verbatim>\<open>VMAPermission\<close> is an 8-bit set of flags.\<close>

definition PermNone :: u8 where "PermNone = 0"
definition PermRead :: u8 where "PermRead = 1"
definition PermWrite :: u8 where "PermWrite = 2"
definition PermExecute :: u8 where "PermExecute = 4"
definition PermReadWrite :: u8 where "PermReadWrite = 3"
definition PermReadExecute :: u8 where "PermReadExecute = 5"
definition PermReadWriteExecute :: u8 where "PermReadWriteExecute = 7"

record vma =
  vbase :: nat
  vsize :: nat
  vtype :: vma_type
  vperms :: u8
  vstate :: memory_state
  vbacking :: memory_ref

record vm_manager =
  vma_map :: "vma list"
  vm_page_table :: page_table
  is_locked :: bool

definition MAX_ADDRESS :: nat where "MAX_ADDRESS = 0x40000000"

section \<open>Operations\<close>

text \<open>\<^verbatim>\<open>VirtualMemoryArea::CanBeMergedWith\<close>; \<open>None\<close> is its failed \<^verbatim>\<open>ASSERT\<close>.\<close>

definition CanBeMergedWith :: "vma \<Rightarrow> vma \<Rightarrow> bool option" where
  "CanBeMergedWith v nxt =
     (if add32 (vbase v) (vsize v) \<noteq> vbase nxt then None
      else if vperms v \<noteq> vperms nxt \<or> vstate v \<noteq> vstate nxt \<or> vtype v \<noteq> vtype nxt then Some False
      else if vtype v = BackingMemory \<and> GetPtr (vbacking v) + vsize v \<noteq> GetPtr (vbacking nxt) then Some False
      else Some True)"

definition UpdatePageTableForVMA ::
  "(nat \<Rightarrow> bool) \<Rightarrow> vma \<Rightarrow> vm_manager \<Rightarrow> (vm_manager, unit) outcome" where
  "UpdatePageTableForVMA cached v vm =
     (case (case vtype v of
              VMAFree \<Rightarrow> UnmapRegion cached (vm_page_table vm) (vbase v) (vsize v)
            | BackingMemory \<Rightarrow> MapMemoryRegion cached (vm_page_table vm) (vbase v) (vsize v) (vbacking v)) of
        Some pt \<Rightarrow> Ok (vm\<lparr>vm_page_table := pt\<rparr>) ()
      | None \<Rightarrow> Crash)"

definition initial_vma :: vma where
  "initial_vma = \<lparr>vbase = 0, vsize = MAX_ADDRESS, vtype = VMAFree, vperms = PermNone, vstate = StFree,
     vbacking = null_ref\<rparr>"

definition Reset :: "(nat \<Rightarrow> bool) \<Rightarrow> vm_manager \<Rightarrow> (vm_manager, unit) outcome" where
  "Reset cached vm =
     assertO (\<not> is_locked vm)
       (UpdatePageTableForVMA cached initial_vma
          (vm\<lparr>vma_map := [initial_vma], vm_page_table := ClearPageTable (vm_page_table vm)\<rparr>))"

definition VMManager :: "(nat \<Rightarrow> bool) \<Rightarrow> (vm_manager, unit) outcome" where
  "VMManager cached = Reset cached \<lparr>vma_map = [], vm_page_table = NewPageTable, is_locked = False\<rparr>"

text \<open>\<^verbatim>\<open>std::map::upper_bound\<close> and \<^verbatim>\<open>lower_bound\<close>.\<close>

definition upper_bound :: "vma list \<Rightarrow> nat \<Rightarrow> nat" where
  "upper_bound vs a = length (takeWhile (\<lambda>v. vbase v \<le> a) vs)"

definition lower_bound :: "vma list \<Rightarrow> nat \<Rightarrow> nat" where
  "lower_bound vs a = length (takeWhile (\<lambda>v. vbase v < a) vs)"

definition FindVMA :: "vma list \<Rightarrow> nat \<Rightarrow> nat" where
  "FindVMA vs target = (if target \<ge> MAX_ADDRESS then length vs else upper_bound vs target - 1)"

definition SplitVMA :: "nat \<Rightarrow> nat \<Rightarrow> vm_manager \<Rightarrow> (vm_manager, nat) outcome" where
  "SplitVMA i offset_in_vma vm =
     assertO (i < length (vma_map vm))
       (let old_vma = vma_map vm ! i in
        assertO (offset_in_vma < vsize old_vma)
          (assertO (offset_in_vma > 0)
             (let old' = old_vma\<lparr>vsize := offset_in_vma\<rparr>;
                  new1 = old_vma\<lparr>vbase := add32 (vbase old_vma) offset_in_vma,
                                 vsize := vsize old_vma - offset_in_vma\<rparr>
              in case (case vtype old_vma of
                         VMAFree \<Rightarrow> Some new1
                       | BackingMemory \<Rightarrow>
                           map_option (\<lambda>r. new1\<lparr>vbacking := r\<rparr>) (ref_add (vbacking new1) offset_in_vma)) of
                   None \<Rightarrow> Crash
                 | Some new_vma \<Rightarrow>
                     assertO (CanBeMergedWith old' new_vma = Some True)
                       (Ok (vm\<lparr>vma_map := take i (vma_map vm) @ old' # new_vma # drop (i + 1) (vma_map vm)\<rparr>)
                           (i + 1)))))"

text \<open>The two halves of \<^verbatim>\<open>MergeAdjacent\<close>: merge area \<open>i\<close> with its right neighbour, then with its left one.\<close>

definition merge_next :: "nat \<Rightarrow> vm_manager \<Rightarrow> (vm_manager, unit) outcome" where
  "merge_next i vm =
     (let vs = vma_map vm in
      if i + 1 < length vs
      then (case CanBeMergedWith (vs ! i) (vs ! (i + 1)) of
              None \<Rightarrow> Crash
            | Some False \<Rightarrow> Ok vm ()
            | Some True \<Rightarrow>
                Ok (vm\<lparr>vma_map := take i vs @ (vs ! i)\<lparr>vsize := add32 (vsize (vs ! i)) (vsize (vs ! (i + 1)))\<rparr>
                                   # drop (i + 2) vs\<rparr>) ())
      else Ok vm ())"

definition merge_prev :: "nat \<Rightarrow> vm_manager \<Rightarrow> (vm_manager, nat) outcome" where
  "merge_prev i vm =
     (let vs = vma_map vm in
      if i \<noteq> 0
      then (case CanBeMergedWith (vs ! (i - 1)) (vs ! i) of
              None \<Rightarrow> Crash
            | Some False \<Rightarrow> Ok vm i
            | Some True \<Rightarrow>
                Ok (vm\<lparr>vma_map := take (i - 1) vs
                         @ (vs ! (i - 1))\<lparr>vsize := add32 (vsize (vs ! (i - 1))) (vsize (vs ! i))\<rparr>
                         # drop (i + 1) vs\<rparr>) (i - 1))
      else Ok vm i)"

definition MergeAdjacent :: "nat \<Rightarrow> vm_manager \<Rightarrow> (vm_manager, nat) outcome" where
  "MergeAdjacent i vm =
     assertO (i < length (vma_map vm)) (bindO (merge_next i vm) (\<lambda>vm1 _. merge_prev i vm1))"

definition CarveVMA :: "nat \<Rightarrow> nat \<Rightarrow> vm_manager \<Rightarrow> (vm_manager, nat) outcome" where
  "CarveVMA base sz vm =
     assertO (sz mod CITRA_PAGE_SIZE = 0)
       (assertO (base mod CITRA_PAGE_SIZE = 0)
          (let i = FindVMA (vma_map vm) base in
           unlessO (i \<noteq> length (vma_map vm)) vm ResultInvalidAddress
             (let v = vma_map vm ! i in
              unlessO (vtype v = VMAFree) vm ResultInvalidAddressState
                (let start_in_vma = sub32 base (vbase v);
                     end_in_vma = add32 start_in_vma sz
                 in unlessO (\<not> end_in_vma > vsize v) vm ResultInvalidAddressState
                      (bindO (if end_in_vma \<noteq> vsize v then SplitVMA i end_in_vma vm else Ok vm i)
                         (\<lambda>vm1 _. if start_in_vma \<noteq> 0 then SplitVMA i start_in_vma vm1 else Ok vm1 i))))))"

definition CarveVMARange :: "nat \<Rightarrow> nat \<Rightarrow> vm_manager \<Rightarrow> (vm_manager, nat) outcome" where
  "CarveVMARange target sz vm =
     assertO (sz mod CITRA_PAGE_SIZE = 0)
       (assertO (target mod CITRA_PAGE_SIZE = 0)
          (let target_end = add32 target sz in
           assertO (target_end \<ge> target)
             (assertO (target_end \<le> MAX_ADDRESS)
                (assertO (sz > 0)
                   (let begin_vma = FindVMA (vma_map vm) target;
                        i_end = lower_bound (vma_map vm) target_end
                    in unlessO (\<not> (\<exists>v \<in> set (take (i_end - begin_vma) (drop begin_vma (vma_map vm))). vtype v = VMAFree))
                         vm ResultInvalidAddressState
                         (bindO
                            (if target \<noteq> vbase (vma_map vm ! begin_vma)
                             then SplitVMA begin_vma (sub32 target (vbase (vma_map vm ! begin_vma))) vm
                             else Ok vm begin_vma)
                            (\<lambda>vm1 begin1.
                               let end_vma = FindVMA (vma_map vm1) target_end in
                               bindO
                                 (if end_vma \<noteq> length (vma_map vm1) \<and> target_end \<noteq> vbase (vma_map vm1 ! end_vma)
                                  then SplitVMA end_vma (sub32 target_end (vbase (vma_map vm1 ! end_vma))) vm1
                                  else Ok vm1 end_vma)
                                 (\<lambda>vm2 _. Ok vm2 begin1))))))))"

text \<open>Change the attributes of the area at an iterator, update its pages and merge it.\<close>

definition change_vma ::
  "(nat \<Rightarrow> bool) \<Rightarrow> (vma \<Rightarrow> vma) \<Rightarrow> nat \<Rightarrow> vm_manager \<Rightarrow> (vm_manager, nat) outcome" where
  "change_vma cached f i vm =
     assertO (i < length (vma_map vm))
       (let v = f (vma_map vm ! i) in
        bindO (UpdatePageTableForVMA cached v (vm\<lparr>vma_map := (vma_map vm)[i := v]\<rparr>))
          (\<lambda>vm1 _. MergeAdjacent i vm1))"

definition MapBackingMemory ::
  "(nat \<Rightarrow> bool) \<Rightarrow> nat \<Rightarrow> memory_ref \<Rightarrow> nat \<Rightarrow> memory_state \<Rightarrow> vm_manager \<Rightarrow> (vm_manager, nat) outcome" where
  "MapBackingMemory cached target mem sz state vm =
     assertO (\<not> is_locked vm)
       (assertO (GetPtr mem \<noteq> 0)
          (bindO (CarveVMA target sz vm)
             (\<lambda>vm1 i. assertO (vsize (vma_map vm1 ! i) = sz)
                (change_vma cached
                   (\<lambda>v. v\<lparr>vtype := BackingMemory, vperms := PermReadWrite, vstate := state, vbacking := mem\<rparr>)
                   i vm1))))"

definition fits_at :: "nat \<Rightarrow> nat \<Rightarrow> vma \<Rightarrow> bool" where
  "fits_at base sz v \<longleftrightarrow> vtype v = VMAFree \<and>
     (let vma_end = add32 (vbase v) (vsize v) in vma_end > base \<and> vma_end \<ge> add32 base sz)"

definition ResultOutOfMemoryVM :: u32 where
  "ResultOutOfMemoryVM = MakeResult ED_OutOfMemory EM_Kernel ES_OutOfResource EL_Permanent"

text \<open>
  The source reads \<^verbatim>\<open>vma_handle->second.base\<close> before it compares \<^verbatim>\<open>vma_handle\<close> with \<^verbatim>\<open>end()\<close>: when
  no area fits, that is a read through the end iterator.
\<close>

definition MapBackingMemoryToBase ::
  "(nat \<Rightarrow> bool) \<Rightarrow> nat \<Rightarrow> nat \<Rightarrow> memory_ref \<Rightarrow> nat \<Rightarrow> memory_state \<Rightarrow> vm_manager
     \<Rightarrow> (vm_manager, nat) outcome" where
  "MapBackingMemoryToBase cached base region_size mem sz state vm =
     assertO (\<not> is_locked vm)
       (case List.find (fits_at base sz) (vma_map vm) of
          None \<Rightarrow> Crash
        | Some v \<Rightarrow>
            let target = max base (vbase v) in
            unlessO (\<not> add32 target sz > add32 base region_size) vm ResultOutOfMemoryVM
              (bindO (MapBackingMemory cached target mem sz state vm) (\<lambda>vm1 _. Ok vm1 target)))"

text \<open>The loop \<^verbatim>\<open>while (vma != end && vma->second.base < target_end) vma = std::next(op(vma))\<close>.\<close>

fun range_loop ::
  "(nat \<Rightarrow> vm_manager \<Rightarrow> (vm_manager, nat) outcome) \<Rightarrow> nat \<Rightarrow> nat \<Rightarrow> nat \<Rightarrow> vm_manager
     \<Rightarrow> (vm_manager, unit) outcome" where
  "range_loop op 0 target_end i vm = Crash"
| "range_loop op (Suc n) target_end i vm =
     (if i < length (vma_map vm) \<and> vbase (vma_map vm ! i) < target_end
      then bindO (op i vm) (\<lambda>vm1 j. range_loop op n target_end (j + 1) vm1)
      else Ok vm ())"

definition loop_fuel :: "vm_manager \<Rightarrow> nat" where
  "loop_fuel vm = length (vma_map vm) + 1"

definition ChangeMemoryState ::
  "(nat \<Rightarrow> bool) \<Rightarrow> nat \<Rightarrow> nat \<Rightarrow> memory_state \<Rightarrow> u8 \<Rightarrow> memory_state \<Rightarrow> u8 \<Rightarrow> vm_manager
     \<Rightarrow> (vm_manager, unit) outcome" where
  "ChangeMemoryState cached target sz expected_state expected_perms new_state new_perms vm =
     (if is_locked vm then Ok vm ()
      else
        let target_end = add32 target sz;
            begin_vma = FindVMA (vma_map vm) target;
            i_end = lower_bound (vma_map vm) target_end
        in unlessO (begin_vma \<noteq> length (vma_map vm)) vm ResultInvalidAddress
             (unlessO (\<forall>v \<in> set (take (i_end - begin_vma) (drop begin_vma (vma_map vm))).
                         vstate v = expected_state \<and> vperms v AND expected_perms = expected_perms)
                vm ResultInvalidAddressState
                (bindO (CarveVMARange target sz vm)
                   (\<lambda>vm1 i. range_loop
                      (change_vma cached (\<lambda>v. v\<lparr>vperms := new_perms, vstate := new_state\<rparr>))
                      (loop_fuel vm1) target_end i vm1))))"

definition Unmap :: "(nat \<Rightarrow> bool) \<Rightarrow> nat \<Rightarrow> vm_manager \<Rightarrow> (vm_manager, nat) outcome" where
  "Unmap cached i vm =
     assertO (\<not> is_locked vm)
       (change_vma cached
          (\<lambda>v. v\<lparr>vtype := VMAFree, vperms := PermNone, vstate := StFree, vbacking := null_ref\<rparr>) i vm)"

definition UnmapRange :: "(nat \<Rightarrow> bool) \<Rightarrow> nat \<Rightarrow> nat \<Rightarrow> vm_manager \<Rightarrow> (vm_manager, unit) outcome" where
  "UnmapRange cached target sz vm =
     assertO (\<not> is_locked vm)
       (bindO (CarveVMARange target sz vm)
          (\<lambda>vm1 i. bindO (range_loop (Unmap cached) (loop_fuel vm1) (add32 target sz) i vm1)
             (\<lambda>vm2 _. assertO (FindVMA (vma_map vm2) target < length (vma_map vm2)
                               \<and> vsize (vma_map vm2 ! FindVMA (vma_map vm2) target) \<ge> sz)
                        (Ok vm2 ()))))"

definition Reprotect :: "(nat \<Rightarrow> bool) \<Rightarrow> u8 \<Rightarrow> nat \<Rightarrow> vm_manager \<Rightarrow> (vm_manager, nat) outcome" where
  "Reprotect cached new_perms i vm =
     assertO (\<not> is_locked vm) (change_vma cached (\<lambda>v. v\<lparr>vperms := new_perms\<rparr>) i vm)"

definition ReprotectRange ::
  "(nat \<Rightarrow> bool) \<Rightarrow> nat \<Rightarrow> nat \<Rightarrow> u8 \<Rightarrow> vm_manager \<Rightarrow> (vm_manager, unit) outcome" where
  "ReprotectRange cached target sz new_perms vm =
     assertO (\<not> is_locked vm)
       (bindO (CarveVMARange target sz vm)
          (\<lambda>vm1 i. range_loop (Reprotect cached new_perms) (loop_fuel vm1) (add32 target sz) i vm1))"

definition Unlock :: "vm_manager \<Rightarrow> vm_manager" where
  "Unlock vm = vm\<lparr>is_locked := False\<rparr>"

text \<open>Loading a saved state: the areas and the page table come from the archive, and the manager is locked.\<close>

definition load_vm :: "vma list \<times> page_table \<Rightarrow> vm_manager" where
  "load_vm ar = \<lparr>vma_map = fst ar, vm_page_table = snd ar, is_locked = True\<rparr>"

fun backing_blocks_loop ::
  "nat \<Rightarrow> vma list \<Rightarrow> nat \<Rightarrow> nat \<Rightarrow> (memory_ref \<times> nat) list \<Rightarrow> (unit, (memory_ref \<times> nat) list) outcome" where
  "backing_blocks_loop 0 vs range_end target acc = Crash"
| "backing_blocks_loop (Suc n) vs range_end target acc =
     (if target = range_end then Ok () acc
      else let i = FindVMA vs target in
        assertO (i < length vs)
          (let v = vs ! i in
           unlessO (vtype v = BackingMemory) () ResultInvalidAddressState
             (let interval_end = min range_end (add32 (vbase v) (vsize v));
                  interval_size = sub32 interval_end target
              in case ref_add (vbacking v) (sub32 target (vbase v)) of
                   None \<Rightarrow> Crash
                 | Some r \<Rightarrow> backing_blocks_loop n vs range_end (add32 target interval_size)
                              (acc @ [(r, interval_size)]))))"

definition GetBackingBlocksForRange ::
  "nat \<Rightarrow> nat \<Rightarrow> vm_manager \<Rightarrow> (unit, (memory_ref \<times> nat) list) outcome" where
  "GetBackingBlocksForRange address sz vm =
     backing_blocks_loop (loop_fuel vm) (vma_map vm) (add32 address sz) address []"

section \<open>Contiguity and the contents of an address space\<close>

text \<open>\<open>covers a vs e\<close>: the areas are nonempty and tile the addresses from \<open>a\<close> to \<open>e\<close> in order.\<close>

fun covers :: "nat \<Rightarrow> vma list \<Rightarrow> nat \<Rightarrow> bool" where
  "covers a [] e \<longleftrightarrow> a = e"
| "covers a (v # vs) e \<longleftrightarrow> vbase v = a \<and> 0 < vsize v \<and> covers (a + vsize v) vs e"

definition vend :: "vma \<Rightarrow> nat" where
  "vend v = vbase v + vsize v"

definition inside :: "nat \<Rightarrow> vma \<Rightarrow> bool" where
  "inside a v \<longleftrightarrow> vbase v \<le> a \<and> a < vend v"

text \<open>
  What an address means: its type, permissions, state and, when it is backed, its host address. This is
  the abstract address space, a function; the splitting into areas is not visible in it.
\<close>

type_synonym attrs = "vma_type \<times> u8 \<times> memory_state \<times> nat"

definition vattr :: "vma \<Rightarrow> nat \<Rightarrow> attrs" where
  "vattr v a = (vtype v, vperms v, vstate v,
     if vtype v = BackingMemory then GetPtr (vbacking v) + (a - vbase v) else 0)"

fun attr_map :: "vma list \<Rightarrow> nat \<Rightarrow> attrs option" where
  "attr_map [] a = None"
| "attr_map (v # vs) a = (if inside a v then Some (vattr v a) else attr_map vs a)"

lemma covers_append: "covers a (xs @ ys) e \<longleftrightarrow> (\<exists>m. covers a xs m \<and> covers m ys e)"
  by (induction xs arbitrary: a) auto

lemma covers_le: "covers a vs e \<Longrightarrow> a \<le> e"
  by (induction vs arbitrary: a) fastforce+

lemma covers_mem: "covers a vs e \<Longrightarrow> v \<in> set vs \<Longrightarrow> a \<le> vbase v \<and> 0 < vsize v \<and> vend v \<le> e"
proof (induction vs arbitrary: a)
  case (Cons w vs)
  then show ?case
    using covers_le [of "a + vsize w" vs e] by (auto simp: vend_def dest: Cons.IH)
qed simp

lemma covers_inside: "covers a vs e \<Longrightarrow> a \<le> x \<Longrightarrow> x < e \<Longrightarrow> \<exists>v \<in> set vs. inside x v"
proof (induction vs arbitrary: a)
  case (Cons w vs)
  then show ?case by (cases "x < a + vsize w") (auto simp: inside_def vend_def)
qed simp

lemma attr_map_append:
  "attr_map (xs @ ys) a = (case attr_map xs a of None \<Rightarrow> attr_map ys a | Some r \<Rightarrow> Some r)"
  by (induction xs) auto

lemma attr_map_None_iff: "attr_map vs a = None \<longleftrightarrow> (\<forall>v \<in> set vs. \<not> inside a v)"
  by (induction vs) auto

lemma attr_map_outside: "covers m vs e \<Longrightarrow> a < m \<or> e \<le> a \<Longrightarrow> attr_map vs a = None"
  unfolding attr_map_None_iff by (auto simp: inside_def dest!: covers_mem)

lemma covers_middle:
  assumes "covers b (xs @ v # ys) e"
  shows "covers b xs (vbase v)" "covers (vend v) ys e" "0 < vsize v" "vend v \<le> e"
  using assms covers_le by (auto simp: covers_append vend_def)

text \<open>The contents around an area.\<close>

lemma attr_map_middle:
  assumes "covers b (xs @ v # ys) e"
  shows "attr_map (xs @ v # ys) a =
    (if a < vbase v then attr_map xs a else if a < vend v then Some (vattr v a) else attr_map ys a)"
  using covers_middle [OF assms] attr_map_outside [of b xs "vbase v" a] attr_map_outside [of "vend v" ys e a]
  by (auto simp: attr_map_append inside_def vend_def split: option.splits)

lemma attr_map_in:
  "covers b vs e \<Longrightarrow> v \<in> set vs \<Longrightarrow> inside a v \<Longrightarrow> attr_map vs a = Some (vattr v a)"
  by (auto simp: in_set_conv_decomp attr_map_middle inside_def)

lemma inside_unique:
  assumes "covers b vs e" "v \<in> set vs" "w \<in> set vs" "inside a v" "inside a w"
  shows "v = w"
proof -
  obtain xs ys where vs: "vs = xs @ v # ys" using assms(2) by (auto simp: in_set_conv_decomp)
  with assms covers_middle [of b xs v ys e] show ?thesis
    by (auto simp: inside_def dest: covers_mem)
qed

section \<open>Finding areas\<close>

lemma takeWhile_middle:
  "(\<forall>x \<in> set xs. P x) \<Longrightarrow> (\<forall>y \<in> set ys. \<not> P y) \<Longrightarrow> takeWhile P (xs @ ys) = xs"
  by (cases ys) auto

lemma FindVMA_middle:
  assumes "covers 0 (xs @ v # ys) e" "inside a v" "a < MAX_ADDRESS"
  shows "FindVMA (xs @ v # ys) a = length xs"
proof -
  note mid = covers_middle [OF assms(1)]
  have "takeWhile (\<lambda>w. vbase w \<le> a) ((xs @ [v]) @ ys) = xs @ [v]"
    using assms(2) covers_mem [OF mid(1)] covers_mem [OF mid(2)]
    by (intro takeWhile_middle) (fastforce simp: inside_def vend_def)+
  then show ?thesis using assms(3) by (simp add: FindVMA_def upper_bound_def)
qed

lemma FindVMA_obtain:
  assumes "covers 0 vs MAX_ADDRESS" "a < MAX_ADDRESS"
  obtains xs v ys where "vs = xs @ v # ys" "inside a v" "FindVMA vs a = length xs"
proof -
  obtain v where v: "v \<in> set vs" "inside a v" using covers_inside [OF assms(1) _ assms(2)] by auto
  then obtain xs ys where "vs = xs @ v # ys" by (auto simp: in_set_conv_decomp)
  with v assms that FindVMA_middle show thesis by blast
qed

lemma lower_bound_split:
  "(\<forall>x \<in> set xs. vbase x < a) \<Longrightarrow> (\<forall>y \<in> set ys. a \<le> vbase y) \<Longrightarrow> lower_bound (xs @ ys) a = length xs"
  using takeWhile_middle [of xs "\<lambda>v. vbase v < a" ys]
  by (simp add: lower_bound_def linorder_not_less del: takeWhile_append)

section \<open>The invariant\<close>

text \<open>
  A well-formed area: page aligned; a free one has no permissions and no memory; a backed one refers to a
  host allocation that is long enough for it.
\<close>

definition vma_ok :: "backing_mem set \<Rightarrow> vma \<Rightarrow> bool" where
  "vma_ok H v \<longleftrightarrow> CITRA_PAGE_SIZE dvd vsize v \<and>
     (case vtype v of
        VMAFree \<Rightarrow> vperms v = PermNone \<and> vstate v = StFree \<and> vbacking v = null_ref
      | BackingMemory \<Rightarrow> ref_covers H (vbacking v) (vsize v))"

text \<open>The page table agrees with the contents, page by page.\<close>

definition page_ok :: "(nat \<Rightarrow> bool) \<Rightarrow> page_table \<Rightarrow> nat \<Rightarrow> attrs option \<Rightarrow> bool" where
  "page_ok cached pt p r \<longleftrightarrow>
     (case r of
        None \<Rightarrow> True
      | Some (t, _, _, ptr) \<Rightarrow>
          (case t of VMAFree \<Rightarrow> page_unmapped pt p | BackingMemory \<Rightarrow> page_backed cached pt p ptr))"

definition pt_ok :: "(nat \<Rightarrow> bool) \<Rightarrow> page_table \<Rightarrow> (nat \<Rightarrow> attrs option) \<Rightarrow> bool" where
  "pt_ok cached pt m \<longleftrightarrow> (\<forall>p. page_ok cached pt p (m (p * CITRA_PAGE_SIZE)))"

definition both_free :: "vma \<Rightarrow> vma \<Rightarrow> bool" where
  "both_free v w \<longleftrightarrow> vtype v = VMAFree \<and> vtype w = VMAFree"

definition mergeable :: "vma \<Rightarrow> vma \<Rightarrow> bool" where
  "mergeable v w \<longleftrightarrow> vperms v = vperms w \<and> vstate v = vstate w \<and> vtype v = vtype w \<and>
     (vtype v = BackingMemory \<longrightarrow> GetPtr (vbacking v) + vsize v = GetPtr (vbacking w))"

text \<open>\<open>tiles\<close> is what holds in the middle of an operation too; \<open>vm_inv\<close> holds between operations.\<close>

definition tiles :: "backing_mem set \<Rightarrow> (nat \<Rightarrow> bool) \<Rightarrow> vm_manager \<Rightarrow> bool" where
  "tiles H cached vm \<longleftrightarrow> covers 0 (vma_map vm) MAX_ADDRESS \<and> (\<forall>v \<in> set (vma_map vm). vma_ok H v) \<and>
     pt_ok cached (vm_page_table vm) (attr_map (vma_map vm))"

definition vm_inv :: "backing_mem set \<Rightarrow> (nat \<Rightarrow> bool) \<Rightarrow> vm_manager \<Rightarrow> bool" where
  "vm_inv H cached vm \<longleftrightarrow> tiles H cached vm \<and> successively (\<lambda>v w. \<not> both_free v w) (vma_map vm)"

text \<open>The documented requirement that no two neighbours could be merged.\<close>

definition fully_merged :: "vm_manager \<Rightarrow> bool" where
  "fully_merged vm \<longleftrightarrow> successively (\<lambda>v w. \<not> mergeable v w) (vma_map vm)"

abbreviation contents :: "vm_manager \<Rightarrow> nat \<Rightarrow> attrs option" where
  "contents vm \<equiv> attr_map (vma_map vm)"

definition type_at :: "vm_manager \<Rightarrow> nat \<Rightarrow> vma_type option" where
  "type_at vm a = map_option fst (contents vm a)"

lemma CanBeMergedWith_adjacent:
  "vend v = vbase w \<Longrightarrow> vbase w < 4294967296 \<Longrightarrow> CanBeMergedWith v w = Some (mergeable v w)"
  by (auto simp: CanBeMergedWith_def mergeable_def vend_def add32_small)

text \<open>Two adjacent areas as one.\<close>

definition join :: "vma \<Rightarrow> vma \<Rightarrow> vma" where
  "join v w = v\<lparr>vsize := vsize v + vsize w\<rparr>"

lemma join_simps [simp]:
  "vbase (join v w) = vbase v" "vsize (join v w) = vsize v + vsize w" "vtype (join v w) = vtype v"
  "vperms (join v w) = vperms v" "vstate (join v w) = vstate v" "vbacking (join v w) = vbacking v"
  by (simp_all add: join_def)

lemma vend_join: "vend v = vbase w \<Longrightarrow> vend (join v w) = vend w"
  by (simp add: vend_def)

lemma vattr_join:
  "vend v = vbase w \<Longrightarrow> mergeable v w \<Longrightarrow> vbase w \<le> a \<Longrightarrow> vattr (join v w) a = vattr w a"
  by (auto simp: vattr_def mergeable_def vend_def)

lemma vattr_join_left [simp]: "vattr (join v w) a = vattr v a"
  by (simp add: vattr_def)

lemma vma_ok_join:
  assumes "host_layout H" "vma_ok H v" "vma_ok H w" "0 < vsize w" "mergeable v w"
  shows "vma_ok H (join v w)"
  using assms ref_covers_join [OF assms(1), of "vbacking v" "vsize v" "vbacking w" "vsize w"]
  by (auto simp: vma_ok_def mergeable_def split: vma_type.splits)

lemma attr_map_join:
  assumes "vend v = vbase w" "mergeable v w" "0 < vsize v" "0 < vsize w"
  shows "attr_map (xs @ join v w # ys) = attr_map (xs @ v # w # ys)"
proof
  fix a
  have "inside a (join v w) \<longleftrightarrow> inside a v \<or> inside a w"
    using assms by (auto simp: inside_def vend_def)
  moreover have "inside a w \<Longrightarrow> vattr v a = vattr w a"
    using vattr_join [OF assms(1,2), of a] by (simp add: inside_def)
  ultimately show "attr_map (xs @ join v w # ys) a = attr_map (xs @ v # w # ys) a"
    by (auto simp: attr_map_append split: option.splits)
qed

lemma mergeable_join_left: "vend v = vbase w \<Longrightarrow> mergeable v w \<Longrightarrow> mergeable (join v w) x \<longleftrightarrow> mergeable w x"
  by (auto simp: mergeable_def)

lemma mergeable_join_right [simp]: "mergeable x (join v w) \<longleftrightarrow> mergeable x v"
  by (auto simp: mergeable_def)

lemma both_free_mergeable: "vma_ok H v \<Longrightarrow> vma_ok H w \<Longrightarrow> both_free v w \<Longrightarrow> mergeable v w"
  by (auto simp: both_free_def mergeable_def vma_ok_def)

section \<open>Merging\<close>

text \<open>\<^verbatim>\<open>MergeAdjacent\<close> on an area with its left and right context.\<close>

definition merge_r :: "vma \<Rightarrow> vma list \<Rightarrow> vma \<times> vma list" where
  "merge_r v ys = (case ys of [] \<Rightarrow> (v, []) | n # ys' \<Rightarrow> if mergeable v n then (join v n, ys') else (v, ys))"

definition merge_l :: "vma list \<Rightarrow> vma \<Rightarrow> vma list \<times> vma" where
  "merge_l xs v = (if xs \<noteq> [] \<and> mergeable (last xs) v then (butlast xs, join (last xs) v) else (xs, v))"

lemma merge_next_eq:
  assumes "vma_map vm = xs @ v # ys" "covers 0 (vma_map vm) MAX_ADDRESS"
  shows "merge_next (length xs) vm =
    (case merge_r v ys of (v', ys') \<Rightarrow> Ok (vm\<lparr>vma_map := xs @ v' # ys'\<rparr>) ())"
proof (cases ys)
  case Nil
  with assms show ?thesis by (simp add: merge_next_def merge_r_def)
next
  case (Cons n zs)
  have cov: "covers 0 ((xs @ [v]) @ n # zs) MAX_ADDRESS" using assms Cons by simp
  then have "vend v = vbase n" "vend n \<le> MAX_ADDRESS"
    using covers_middle [OF cov] by (auto simp: covers_append vend_def)
  then have "CanBeMergedWith v n = Some (mergeable v n)" "vsize v + vsize n < 4294967296"
    by (auto simp: CanBeMergedWith_adjacent MAX_ADDRESS_def vend_def)
  with assms(1) Cons show ?thesis
    by (auto simp: merge_next_def merge_r_def nth_append join_def add32_small Let_def)
qed

lemma merge_prev_eq:
  assumes "vma_map vm = xs @ v # ys" "covers 0 (vma_map vm) MAX_ADDRESS"
  shows "merge_prev (length xs) vm =
    (case merge_l xs v of (xs', v') \<Rightarrow> Ok (vm\<lparr>vma_map := xs' @ v' # ys\<rparr>) (length xs'))"
proof (cases xs rule: rev_cases)
  case Nil
  with assms show ?thesis by (simp add: merge_prev_def merge_l_def)
next
  case (snoc ws w)
  have cov: "covers 0 (ws @ w # v # ys) MAX_ADDRESS" using assms snoc by simp
  then have "vend w = vbase v" "vend v \<le> MAX_ADDRESS"
    using covers_le by (auto simp: covers_append vend_def)
  then have "CanBeMergedWith w v = Some (mergeable w v)" "vsize w + vsize v < 4294967296"
    by (auto simp: CanBeMergedWith_adjacent MAX_ADDRESS_def vend_def)
  with assms(1) snoc show ?thesis
    by (auto simp: merge_prev_def merge_l_def nth_append join_def add32_small Let_def)
qed

text \<open>
  Merging keeps the tiling, the contents and the well-formedness, and any relation between neighbours
  that mergeable neighbours cannot break.
\<close>

lemma merge_r_ok:
  assumes "host_layout H" "covers 0 (xs @ v # ys) e" "\<forall>w \<in> set (xs @ v # ys). vma_ok H w"
    and "merge_r v ys = (v', ys')"
  shows "covers 0 (xs @ v' # ys') e" "attr_map (xs @ v' # ys') = attr_map (xs @ v # ys)"
    "\<forall>w \<in> set (xs @ v' # ys'). vma_ok H w"
proof -
  have "covers 0 (xs @ v' # ys') e \<and> attr_map (xs @ v' # ys') = attr_map (xs @ v # ys) \<and>
    (\<forall>w \<in> set (xs @ v' # ys'). vma_ok H w)"
  proof (cases "\<exists>n zs. ys = n # zs \<and> mergeable v n")
    case True
    then obtain n zs where n: "ys = n # zs" "mergeable v n" by blast
    with assms(4) have v': "v' = join v n" "ys' = zs" by (auto simp: merge_r_def)
    from assms(2) n have adj: "vend v = vbase n" "0 < vsize v" "0 < vsize n"
      by (auto simp: covers_append vend_def)
    with assms n v' show ?thesis
      by (auto simp: covers_append attr_map_join vma_ok_join add.assoc)
  next
    case False
    with assms(4) have "v' = v" "ys' = ys" by (auto simp: merge_r_def split: list.splits if_splits)
    with assms show ?thesis by simp
  qed
  then show "covers 0 (xs @ v' # ys') e" "attr_map (xs @ v' # ys') = attr_map (xs @ v # ys)"
    "\<forall>w \<in> set (xs @ v' # ys'). vma_ok H w" by auto
qed

lemma merge_l_ok:
  assumes "host_layout H" "covers 0 (xs @ v # ys) e" "\<forall>w \<in> set (xs @ v # ys). vma_ok H w"
    and "merge_l xs v = (xs', v')"
  shows "covers 0 (xs' @ v' # ys) e" "attr_map (xs' @ v' # ys) = attr_map (xs @ v # ys)"
    "\<forall>w \<in> set (xs' @ v' # ys). vma_ok H w"
proof -
  have "covers 0 (xs' @ v' # ys) e \<and> attr_map (xs' @ v' # ys) = attr_map (xs @ v # ys) \<and>
    (\<forall>w \<in> set (xs' @ v' # ys). vma_ok H w)"
  proof (cases "\<exists>ws w. xs = ws @ [w] \<and> mergeable w v")
    case True
    then obtain ws w where w: "xs = ws @ [w]" "mergeable w v" by blast
    with assms(4) have v': "v' = join w v" "xs' = ws" by (auto simp: merge_l_def)
    from assms(2) w have adj: "vend w = vbase v" "0 < vsize w" "0 < vsize v"
      by (auto simp: covers_append vend_def)
    with assms w v' show ?thesis
      by (auto simp: covers_append attr_map_join vma_ok_join add.assoc)
  next
    case False
    with assms(4) have "v' = v" "xs' = xs"
      by (cases xs rule: rev_cases; auto simp: merge_l_def split: if_splits)+
    with assms show ?thesis by simp
  qed
  then show "covers 0 (xs' @ v' # ys) e" "attr_map (xs' @ v' # ys) = attr_map (xs @ v # ys)"
    "\<forall>w \<in> set (xs' @ v' # ys). vma_ok H w" by auto
qed

lemma merge_r_apart:
  assumes "\<And>n. n \<in> set ys \<Longrightarrow> Q v n \<Longrightarrow> mergeable v n"
    and "\<And>w x. vend v = vbase w \<Longrightarrow> mergeable v w \<Longrightarrow> Q (join v w) x \<longleftrightarrow> Q w x"
    and "covers b (v # ys) e" "successively (\<lambda>a b. \<not> Q a b) ys" "merge_r v ys = (v', ys')"
  shows "successively (\<lambda>a b. \<not> Q a b) (v' # ys')"
proof (cases ys)
  case Nil
  with assms(5) show ?thesis by (simp add: merge_r_def)
next
  case (Cons n zs)
  have adj: "vend v = vbase n" using assms(3) Cons by (simp add: vend_def)
  show ?thesis
  proof (cases "mergeable v n")
    case True
    with assms(4,5) Cons assms(2) [OF adj True] show ?thesis
      by (cases zs) (auto simp: merge_r_def)
  next
    case False
    with assms(1) [of n] assms(4,5) Cons show ?thesis by (auto simp: merge_r_def)
  qed
qed

lemma merge_l_apart:
  assumes "\<And>w. w \<in> set xs \<Longrightarrow> Q w v \<Longrightarrow> mergeable w v"
    and "\<And>w x. vend w = vbase v \<Longrightarrow> mergeable w v \<Longrightarrow> Q (join w v) x \<longleftrightarrow> Q v x"
    and "\<And>w x. Q x (join w v) \<longleftrightarrow> Q x w"
    and "covers b (xs @ v # ys) e" "successively (\<lambda>a b. \<not> Q a b) xs"
    and "successively (\<lambda>a b. \<not> Q a b) (v # ys)" "merge_l xs v = (xs', v')"
  shows "successively (\<lambda>a b. \<not> Q a b) (xs' @ v' # ys)"
proof (cases xs rule: rev_cases)
  case Nil
  with assms(6,7) show ?thesis by (simp add: merge_l_def)
next
  case (snoc ws w)
  have adj: "vend w = vbase v" using assms(4) snoc by (auto simp: covers_append vend_def)
  show ?thesis
  proof (cases "mergeable w v")
    case True
    then have "xs' = ws" "v' = join w v" using assms(7) snoc by (auto simp: merge_l_def)
    moreover have "successively (\<lambda>a b. \<not> Q a b) (join w v # ys)"
      using assms(6) assms(2) [OF adj True] by (cases ys) auto
    ultimately show ?thesis
      using assms(5) snoc assms(3) by (auto simp: successively_append_iff)
  next
    case False
    then have "xs' = xs" "v' = v" using assms(7) snoc by (auto simp: merge_l_def)
    with False assms(1) [of w] assms(5,6) snoc show ?thesis by (auto simp: successively_append_iff)
  qed
qed

text \<open>The two instances: no two free neighbours, and no two mergeable neighbours.\<close>

lemma merges_free_apart:
  assumes "covers 0 (xs @ v # ys) e" "\<forall>w \<in> set (xs @ v # ys). vma_ok H w" "host_layout H"
    and "successively (\<lambda>a b. \<not> both_free a b) xs" "successively (\<lambda>a b. \<not> both_free a b) ys"
    and r: "merge_r v ys = (v1, ys1)" and l: "merge_l xs v1 = (xs2, v2)"
  shows "successively (\<lambda>a b. \<not> both_free a b) (xs2 @ v2 # ys1)"
proof (rule merge_l_apart [OF _ _ _ _ assms(4) _ l])
  show "successively (\<lambda>a b. \<not> both_free a b) (v1 # ys1)"
  proof (rule merge_r_apart [OF _ _ _ assms(5) r])
    show "mergeable v n" if "n \<in> set ys" "both_free v n" for n
      using that assms(2) both_free_mergeable [of H v n] by simp
    show "covers (vbase v) (v # ys) e" using assms(1) by (auto simp: covers_append)
  qed (auto simp: both_free_def mergeable_def)
  show "covers 0 (xs @ v1 # ys1) e" by (rule merge_r_ok(1) [OF assms(3,1,2) r])
  show "mergeable w v1" if "w \<in> set xs" "both_free w v1" for w
    using that merge_r_ok(3) [OF assms(3,1,2) r] both_free_mergeable [of H w v1] by auto
qed (auto simp: both_free_def mergeable_def)

lemma merges_fully_merged:
  assumes "covers 0 (xs @ v # ys) e" "\<forall>w \<in> set (xs @ v # ys). vma_ok H w" "host_layout H"
    and "successively (\<lambda>a b. \<not> mergeable a b) xs" "successively (\<lambda>a b. \<not> mergeable a b) ys"
    and r: "merge_r v ys = (v1, ys1)" and l: "merge_l xs v1 = (xs2, v2)"
  shows "successively (\<lambda>a b. \<not> mergeable a b) (xs2 @ v2 # ys1)"
proof (rule merge_l_apart [OF _ _ _ _ assms(4) _ l])
  show "successively (\<lambda>a b. \<not> mergeable a b) (v1 # ys1)"
    by (rule merge_r_apart [OF _ _ _ assms(5) r])
      (use assms(1) mergeable_join_left in \<open>auto simp: covers_append\<close>)
  show "covers 0 (xs @ v1 # ys1) e" by (rule merge_r_ok(1) [OF assms(3,1,2) r])
qed (auto simp: mergeable_join_left)

section \<open>Updating the page table\<close>

lemma covers_aligned:
  assumes "covers a vs e" "\<forall>v \<in> set vs. vma_ok H v" "CITRA_PAGE_SIZE dvd a" "v \<in> set vs"
  shows "CITRA_PAGE_SIZE dvd vbase v"
  using assms
proof (induction vs arbitrary: a)
  case (Cons w vs)
  then show ?case by (cases "v = w") (auto simp: vma_ok_def)
qed simp

lemma page_number: "CITRA_PAGE_SIZE dvd a \<Longrightarrow> a \<le> p * CITRA_PAGE_SIZE \<longleftrightarrow> a div CITRA_PAGE_SIZE \<le> p"
  "CITRA_PAGE_SIZE dvd a \<Longrightarrow> p * CITRA_PAGE_SIZE < a \<longleftrightarrow> p < a div CITRA_PAGE_SIZE"
  by (auto simp: CITRA_PAGE_SIZE_def)

lemma UpdatePageTable_spec:
  assumes "host_layout H" "vma_ok H v" "CITRA_PAGE_SIZE dvd vbase v" "vend v \<le> MAX_ADDRESS"
  shows "\<exists>pt. UpdatePageTableForVMA cached v vm = Ok (vm\<lparr>vm_page_table := pt\<rparr>) () \<and>
    (\<forall>p. if inside (p * CITRA_PAGE_SIZE) v then page_ok cached pt p (Some (vattr v (p * CITRA_PAGE_SIZE)))
         else same_page (vm_page_table vm) pt p)"
proof -
  let ?b = "vbase v div CITRA_PAGE_SIZE" and ?n = "vsize v div CITRA_PAGE_SIZE"
  have sz: "CITRA_PAGE_SIZE dvd vsize v" using assms(2) by (simp add: vma_ok_def)
  then have end_dvd: "CITRA_PAGE_SIZE dvd vend v" using assms(3) by (simp add: vend_def)
  have vend: "vend v div CITRA_PAGE_SIZE = ?b + ?n"
    using assms(3) sz by (auto simp: vend_def CITRA_PAGE_SIZE_def)
  have ins: "inside (p * CITRA_PAGE_SIZE) v \<longleftrightarrow> ?b \<le> p \<and> p < ?b + ?n" for p
    using page_number [OF assms(3)] page_number [OF end_dvd] vend by (simp add: inside_def)
  have bound: "?b + ?n \<le> PAGE_TABLE_NUM_ENTRIES"
    using assms(4) vend by (auto simp: MAX_ADDRESS_def CITRA_PAGE_SIZE_def PAGE_TABLE_NUM_ENTRIES_def)
  show ?thesis
  proof (cases "vtype v")
    case VMAFree
    obtain pt where "MapPages cached (vm_page_table vm) ?b ?n null_ref UnmappedPage = Some pt"
      "\<forall>p. if ?b \<le> p \<and> p < ?b + ?n then page_unmapped pt p else same_page (vm_page_table vm) pt p"
      using MapPages_unmap [OF bound] by blast
    with VMAFree sz assms(3) show ?thesis
      by (auto simp: UpdatePageTableForVMA_def UnmapRegion_def ins page_ok_def vattr_def dvd_eq_mod_eq_0)
  next
    case BackingMemory
    then have "ref_covers H (vbacking v) (?n * CITRA_PAGE_SIZE)"
      using assms(2) sz by (simp add: vma_ok_def)
    then obtain pt where pt: "MapPages cached (vm_page_table vm) ?b ?n (vbacking v) MemoryPage = Some pt"
      "\<forall>p. if ?b \<le> p \<and> p < ?b + ?n
        then page_backed cached pt p (GetPtr (vbacking v) + (p - ?b) * CITRA_PAGE_SIZE)
        else same_page (vm_page_table vm) pt p"
      using MapPages_backed [OF assms(1) bound, of "vbacking v" cached "vm_page_table vm"] by auto
    have "(p - ?b) * CITRA_PAGE_SIZE = p * CITRA_PAGE_SIZE - vbase v" for p
      using assms(3) by (simp add: diff_mult_distrib)
    with BackingMemory sz assms(3) pt show ?thesis
      by (intro exI [of _ pt])
        (simp add: UpdatePageTableForVMA_def MapMemoryRegion_def ins page_ok_def vattr_def dvd_eq_mod_eq_0
          cong: if_cong)
  qed
qed

lemma page_ok_same: "same_page pt pt' p \<Longrightarrow> page_ok cached pt' p r \<longleftrightarrow> page_ok cached pt p r"
  by (auto simp: page_ok_def page_backed_same page_unmapped_same split: option.splits vma_type.splits)

section \<open>Changing one area\<close>

lemma replace_area:
  assumes "covers 0 (xs @ v # ys) e" "vbase w = vbase v" "vsize w = vsize v"
  shows "covers 0 (xs @ w # ys) e"
    "attr_map (xs @ w # ys) a = (if inside a v then Some (vattr w a) else attr_map (xs @ v # ys) a)"
proof -
  show c: "covers 0 (xs @ w # ys) e" using assms by (auto simp: covers_append)
  show "attr_map (xs @ w # ys) a = (if inside a v then Some (vattr w a) else attr_map (xs @ v # ys) a)"
    using assms(2,3) by (simp add: attr_map_middle [OF c] attr_map_middle [OF assms(1)] inside_def vend_def)
qed

lemma change_vma_spec:
  assumes hl: "host_layout H" and t: "tiles H cached vm" and vs: "vma_map vm = xs @ v # ys"
    and f: "vma_ok H (f v)" "vbase (f v) = vbase v" "vsize (f v) = vsize v"
    and free: "successively (\<lambda>a b. \<not> both_free a b) xs" "successively (\<lambda>a b. \<not> both_free a b) ys"
  obtains vm' xs' v1 v' ys' where
    "change_vma cached f (length xs) vm = Ok vm' (length xs')" "vma_map vm' = xs' @ v' # ys'"
    "merge_r (f v) ys = (v1, ys')" "merge_l xs v1 = (xs', v')"
    "vm_inv H cached vm'" "is_locked vm' = is_locked vm"
    "\<And>a. contents vm' a = (if inside a v then Some (vattr (f v) a) else contents vm a)"
proof -
  obtain v1 ys' where r: "merge_r (f v) ys = (v1, ys')" by fastforce
  obtain xs' v' where l: "merge_l xs v1 = (xs', v')" by fastforce
  have cov: "covers 0 (xs @ v # ys) MAX_ADDRESS" and ok: "\<forall>w \<in> set (xs @ v # ys). vma_ok H w"
    and pt: "pt_ok cached (vm_page_table vm) (attr_map (xs @ v # ys))"
    using t vs by (auto simp: tiles_def)
  note rep = replace_area [OF cov f(2,3)]
  have al: "CITRA_PAGE_SIZE dvd vbase v" using covers_aligned [OF cov ok] by simp
  have ok1: "\<forall>w \<in> set (xs @ f v # ys). vma_ok H w" using ok f(1) by auto
  have "vend (f v) \<le> MAX_ADDRESS" using covers_middle(4) [OF rep(1)] .
  with UpdatePageTable_spec [OF hl f(1), of cached "vm\<lparr>vma_map := xs @ f v # ys\<rparr>"] al f(2)
  obtain pt' where upd: "UpdatePageTableForVMA cached (f v) (vm\<lparr>vma_map := xs @ f v # ys\<rparr>)
      = Ok (vm\<lparr>vma_map := xs @ f v # ys, vm_page_table := pt'\<rparr>) ()"
    and pages: "\<And>p. if inside (p * CITRA_PAGE_SIZE) (f v)
      then page_ok cached pt' p (Some (vattr (f v) (p * CITRA_PAGE_SIZE)))
      else same_page (vm_page_table vm) pt' p"
    by (auto cong: if_cong)
  have "inside a (f v) \<longleftrightarrow> inside a v" for a using f by (simp add: inside_def vend_def)
  then have "page_ok cached pt' p (attr_map (xs @ f v # ys) (p * CITRA_PAGE_SIZE))" for p
    using pt pages [of p] page_ok_same [of "vm_page_table vm" pt' p] by (simp add: pt_ok_def rep(2))
  then have pt_ok: "pt_ok cached pt' (attr_map (xs @ f v # ys))" by (simp add: pt_ok_def)
  note R = merge_r_ok [OF hl rep(1) ok1 r]
  note L = merge_l_ok [OF hl R(1,3) l]
  define vm' where "vm' = vm\<lparr>vma_map := xs' @ v' # ys', vm_page_table := pt'\<rparr>"
  have "change_vma cached f (length xs) vm = Ok vm' (length xs')"
    using vs rep(1) R(1) r l
    by (simp add: change_vma_def upd MergeAdjacent_def vm'_def
        merge_next_eq [where xs = xs and v = "f v" and ys = ys]
        merge_prev_eq [where xs = xs and v = v1 and ys = ys'])
  moreover have "vm_inv H cached vm'"
    using L R pt_ok merges_free_apart [OF rep(1) ok1 hl free r l]
    by (simp add: vm_inv_def tiles_def vm'_def)
  moreover have "contents vm' a = (if inside a v then Some (vattr (f v) a) else contents vm a)" for a
    using L(2) R(2) rep(2) vs by (simp add: vm'_def)
  ultimately show thesis using that r l by (auto simp: vm'_def)
qed

section \<open>Splitting\<close>

lemma SplitVMA_spec:
  assumes t: "tiles H cached vm" and vs: "vma_map vm = xs @ v # ys"
    and o: "0 < off" "off < vsize v" "CITRA_PAGE_SIZE dvd off"
  obtains vm' l r where
    "SplitVMA (length xs) off vm = Ok vm' (length xs + 1)" "vma_map vm' = xs @ l # r # ys"
    "tiles H cached vm'" "is_locked vm' = is_locked vm" "contents vm' = contents vm"
    "vbase l = vbase v" "vsize l = off" "vbase r = vbase v + off" "vsize r = vsize v - off"
    "vtype l = vtype v" "vtype r = vtype v" "mergeable l r"
proof -
  have cov: "covers 0 (xs @ v # ys) MAX_ADDRESS" and ok: "\<forall>w \<in> set (xs @ v # ys). vma_ok H w"
    and pt: "pt_ok cached (vm_page_table vm) (contents vm)"
    using t vs by (auto simp: tiles_def)
  define l where "l = v\<lparr>vsize := off\<rparr>"
  define new1 where "new1 = v\<lparr>vbase := vbase v + off, vsize := vsize v - off\<rparr>"
  have "vend v \<le> MAX_ADDRESS" using covers_middle(4) [OF cov] .
  then have small: "vbase v + off < 4294967296" "add32 (vbase v) off = vbase v + off"
    using o by (auto simp: vend_def MAX_ADDRESS_def add32_small)
  have dvd: "CITRA_PAGE_SIZE dvd vsize v - off" using ok o by (auto simp: vma_ok_def)
  have "\<exists>r. (case vtype v of VMAFree \<Rightarrow> Some new1
      | BackingMemory \<Rightarrow> map_option (\<lambda>r. new1\<lparr>vbacking := r\<rparr>) (ref_add (vbacking new1) off)) = Some r \<and>
    vma_ok H l \<and> vma_ok H r \<and> mergeable l r \<and> vbase r = vbase v + off \<and> vsize r = vsize v - off \<and> vtype r = vtype v"
  proof (cases "vtype v")
    case VMAFree
    with ok o dvd show ?thesis by (auto simp: vma_ok_def mergeable_def l_def new1_def)
  next
    case BackingMemory
    with ok have "ref_covers H (vbacking v) (off + (vsize v - off))" using o by (auto simp: vma_ok_def)
    from ref_add_covers [OF this] o obtain r' where
      "ref_add (vbacking v) off = Some r'" "ref_covers H r' (vsize v - off)" "GetPtr r' = GetPtr (vbacking v) + off"
      by auto
    moreover have "ref_covers H (vbacking v) off"
      using BackingMemory ok o by (auto simp: vma_ok_def intro: ref_covers_mono)
    ultimately show ?thesis
      using BackingMemory o dvd by (auto simp: vma_ok_def mergeable_def l_def new1_def)
  qed
  then obtain r where r: "(case vtype v of VMAFree \<Rightarrow> Some new1
      | BackingMemory \<Rightarrow> map_option (\<lambda>r. new1\<lparr>vbacking := r\<rparr>) (ref_add (vbacking new1) off)) = Some r"
    "vma_ok H l" "vma_ok H r" "mergeable l r" "vbase r = vbase v + off" "vsize r = vsize v - off"
    "vtype r = vtype v" by blast
  have lv: "vbase l = vbase v" "vsize l = off" "vtype l = vtype v" by (simp_all add: l_def)
  then have adj: "vend l = vbase r" using r(5) by (simp add: vend_def)
  have v: "v = join l r" using o r(6) by (simp add: join_def l_def)
  define vm' where "vm' = vm\<lparr>vma_map := xs @ l # r # ys\<rparr>"
  have same: "contents vm' = contents vm"
    using attr_map_join [OF adj r(4), of xs ys] o r(6) lv by (simp add: vm'_def vs flip: v)
  have "SplitVMA (length xs) off vm = Ok vm' (length xs + 1)"
    using o small r(1) CanBeMergedWith_adjacent [OF adj] r(4,5) vs
    by (simp add: SplitVMA_def vm'_def flip: l_def new1_def)
  moreover have "tiles H cached vm'"
    using cov ok pt r(2,3,5,6) lv o same by (auto simp: tiles_def vm'_def covers_append vs)
  ultimately show thesis using that same r lv by (simp add: vm'_def)
qed

section \<open>Mapping\<close>

lemma successively_pieces:
  "successively P (xs @ v # ys) \<Longrightarrow> successively P xs \<and> successively P ys \<and>
     (ys \<noteq> [] \<longrightarrow> P v (hd ys)) \<and> (xs \<noteq> [] \<longrightarrow> P (last xs) v)"
  by (auto simp: successively_append_iff successively_Cons)

lemma vm_inv_tiles: "vm_inv H cached vm \<Longrightarrow> tiles H cached vm"
  by (simp add: vm_inv_def)

lemma tiles_covers: "tiles H cached vm \<Longrightarrow> covers 0 (vma_map vm) MAX_ADDRESS"
  by (simp add: tiles_def)

lemma tiles_ok: "tiles H cached vm \<Longrightarrow> v \<in> set (vma_map vm) \<Longrightarrow> vma_ok H v"
  by (simp add: tiles_def)

lemma tiles_aligned: "tiles H cached vm \<Longrightarrow> v \<in> set (vma_map vm) \<Longrightarrow> CITRA_PAGE_SIZE dvd vbase v"
  unfolding tiles_def using covers_aligned by (metis dvd_0_right)

text \<open>
  Splitting off the end and then the start of a free area: the carved area has the requested range, the
  contents do not change, and only the carved area may have free neighbours.
\<close>

lemma CarveVMA_spec:
  assumes inv: "vm_inv H cached vm" and vs: "vma_map vm = xs @ v # ys" and free: "vtype v = VMAFree"
    and rng: "vbase v \<le> base" "base + sz \<le> vend v" "0 < sz"
    and al: "CITRA_PAGE_SIZE dvd base" "CITRA_PAGE_SIZE dvd sz"
  obtains vm' xs' w ys' where
    "CarveVMA base sz vm = Ok vm' (length xs')" "vma_map vm' = xs' @ w # ys'" "tiles H cached vm'"
    "contents vm' = contents vm" "is_locked vm' = is_locked vm" "vbase w = base" "vsize w = sz"
    "successively (\<lambda>a b. \<not> both_free a b) xs'" "successively (\<lambda>a b. \<not> both_free a b) ys'"
proof -
  note t = vm_inv_tiles [OF inv]
  have cov: "covers 0 (xs @ v # ys) MAX_ADDRESS" using tiles_covers [OF t] vs by simp
  have vmax: "vend v \<le> MAX_ADDRESS" using covers_middle(4) [OF cov] .
  have nf: "successively (\<lambda>a b. \<not> both_free a b) (xs @ v # ys)" using inv vs by (simp add: vm_inv_def)
  note nf = successively_pieces [OF nf]
  have find: "FindVMA (vma_map vm) base = length xs"
    using FindVMA_middle [OF cov, of base] vs rng vmax by (auto simp: inside_def)
  have al_v: "CITRA_PAGE_SIZE dvd vbase v" "CITRA_PAGE_SIZE dvd vsize v"
    using tiles_aligned [OF t, of v] tiles_ok [OF t, of v] vs by (auto simp: vma_ok_def)
  let ?st = "base - vbase v"
  have st: "sub32 base (vbase v) = ?st" "add32 ?st sz = ?st + sz"
    using rng vmax by (auto simp: sub32_small add32_small vend_def MAX_ADDRESS_def)
  have dvd: "CITRA_PAGE_SIZE dvd ?st" "CITRA_PAGE_SIZE dvd ?st + sz" using al al_v by auto
  obtain vm1 w1 ys1 where s1: "(if ?st + sz \<noteq> vsize v then SplitVMA (length xs) (?st + sz) vm else Ok vm (length xs))
      = Ok vm1 (if ?st + sz \<noteq> vsize v then length xs + 1 else length xs)"
    "vma_map vm1 = xs @ w1 # ys1" "tiles H cached vm1" "contents vm1 = contents vm" "is_locked vm1 = is_locked vm"
    "vbase w1 = vbase v" "vsize w1 = ?st + sz" "vtype w1 = VMAFree" "successively (\<lambda>a b. \<not> both_free a b) ys1"
  proof (cases "?st + sz = vsize v")
    case True
    show thesis by (rule that [of vm v ys]) (use True vs t free nf in simp_all)
  next
    case False
    then have "0 < ?st + sz" "?st + sz < vsize v" using rng by (auto simp: vend_def)
    then obtain vm' l r where
      "SplitVMA (length xs) (?st + sz) vm = Ok vm' (length xs + 1)" "vma_map vm' = xs @ l # r # ys"
      "tiles H cached vm'" "is_locked vm' = is_locked vm" "contents vm' = contents vm"
      "vbase l = vbase v" "vsize l = ?st + sz" "vbase r = vbase v + (?st + sz)" "vsize r = vsize v - (?st + sz)"
      "vtype l = vtype v" "vtype r = vtype v" "mergeable l r"
      by (rule SplitVMA_spec [OF t vs _ _ dvd(2)])
    then show thesis
      by (intro that [of vm' l "r # ys"]) (use False free nf in \<open>auto simp: both_free_def successively_Cons\<close>)
  qed
  show thesis
  proof (cases "?st = 0")
    case True
    then have "CarveVMA base sz vm = Ok vm1 (length xs)"
      using find vs free st s1(1) rng al by (auto simp: CarveVMA_def Let_def vend_def dvd_eq_mod_eq_0)
    then show thesis by (rule that [of vm1 xs w1 ys1]) (use s1 True rng nf in auto)
  next
    case False
    then have "0 < ?st" "?st < vsize w1" using s1(7) rng by auto
    then obtain vm' l r where s2:
      "SplitVMA (length xs) ?st vm1 = Ok vm' (length xs + 1)" "vma_map vm' = xs @ l # r # ys1"
      "tiles H cached vm'" "is_locked vm' = is_locked vm1" "contents vm' = contents vm1"
      "vbase l = vbase w1" "vsize l = ?st" "vbase r = vbase w1 + ?st" "vsize r = vsize w1 - ?st"
      "vtype l = vtype w1" "vtype r = vtype w1" "mergeable l r"
      by (rule SplitVMA_spec [OF s1(3,2) _ _ dvd(1)])
    have "CarveVMA base sz vm = Ok vm' (length xs + 1)"
      using find vs free st s1(1) s2(1) rng al False
      by (auto simp: CarveVMA_def Let_def vend_def dvd_eq_mod_eq_0)
    moreover have "successively (\<lambda>a b. \<not> both_free a b) (xs @ [l])"
      using nf s1(8) s2(10) free by (auto simp: successively_append_iff both_free_def)
    ultimately show thesis
      by (intro that [of vm' "xs @ [l]" r ys1]) (use s2 s1 rng in auto)
  qed
qed

text \<open>A run of free addresses lies in one area, because free neighbours are always merged.\<close>

definition free_range :: "vm_manager \<Rightarrow> nat \<Rightarrow> nat \<Rightarrow> bool" where
  "free_range vm target sz \<longleftrightarrow> (\<forall>a. target \<le> a \<and> a < target + sz \<longrightarrow> type_at vm a = Some VMAFree)"

lemma type_at_in:
  "tiles H cached vm \<Longrightarrow> v \<in> set (vma_map vm) \<Longrightarrow> inside a v \<Longrightarrow> type_at vm a = Some (vtype v)"
  using attr_map_in [OF tiles_covers] by (auto simp: type_at_def vattr_def)

lemma free_range_one_area:
  assumes inv: "vm_inv H cached vm" and vs: "vma_map vm = xs @ v # ys" and v: "inside target v"
    and free: "free_range vm target sz" and sz: "0 < sz"
  shows "vtype v = VMAFree \<and> target + sz \<le> vend v"
proof -
  note t = vm_inv_tiles [OF inv]
  note cov = tiles_covers [OF t]
  have vf: "vtype v = VMAFree"
    using type_at_in [OF t _ v] free sz vs by (auto simp: free_range_def)
  moreover have "target + sz \<le> vend v"
  proof (rule ccontr)
    assume "\<not> target + sz \<le> vend v"
    then have "target \<le> vend v" "vend v < target + sz" using v by (auto simp: inside_def)
    then have f: "type_at vm (vend v) = Some VMAFree" using free by (simp add: free_range_def)
    have cov': "covers (vend v) ys MAX_ADDRESS" using covers_middle(2) cov vs by auto
    show False
    proof (cases ys)
      case Nil
      with cov' have "vend v = MAX_ADDRESS" by simp
      with f attr_map_outside [OF cov] show False by (simp add: type_at_def)
    next
      case (Cons w zs)
      with cov' have "inside (vend v) w" by (auto simp: inside_def vend_def)
      with type_at_in [OF t, of w "vend v"] f vs Cons have "vtype w = VMAFree" by simp
      with vf inv vs Cons show False by (simp add: vm_inv_def successively_append_iff both_free_def)
    qed
  qed
  ultimately show ?thesis ..
qed

lemma CarveVMA_errors:
  assumes inv: "vm_inv H cached vm" and al: "CITRA_PAGE_SIZE dvd base" "CITRA_PAGE_SIZE dvd sz"
    and sz: "0 < sz" "base + sz < 4294967296"
  shows "MAX_ADDRESS \<le> base \<Longrightarrow> CarveVMA base sz vm = Err vm ResultInvalidAddress"
    "base < MAX_ADDRESS \<Longrightarrow> \<not> free_range vm base sz \<Longrightarrow> CarveVMA base sz vm = Err vm ResultInvalidAddressState"
proof -
  show "CarveVMA base sz vm = Err vm ResultInvalidAddress" if "MAX_ADDRESS \<le> base"
    using that al by (simp add: CarveVMA_def FindVMA_def dvd_eq_mod_eq_0)
  assume base: "base < MAX_ADDRESS" and nfree: "\<not> free_range vm base sz"
  note t = vm_inv_tiles [OF inv]
  obtain xs v ys where v: "vma_map vm = xs @ v # ys" "inside base v" "FindVMA (vma_map vm) base = length xs"
    using FindVMA_obtain [OF tiles_covers [OF t] base] by blast
  have "vtype v = VMAFree \<Longrightarrow> \<not> base + sz \<le> vend v"
    using nfree type_at_in [OF t, of v] v(1,2) by (auto simp: free_range_def inside_def)
  moreover have "vend v \<le> MAX_ADDRESS" using covers_middle(4) [of 0 xs v ys] tiles_covers [OF t] v(1) by simp
  then have "sub32 base (vbase v) = base - vbase v" "add32 (base - vbase v) sz = base - vbase v + sz"
    using v(2) sz base by (auto simp: inside_def sub32_small add32_small vend_def MAX_ADDRESS_def)
  ultimately show "CarveVMA base sz vm = Err vm ResultInvalidAddressState"
    using v al by (auto simp: CarveVMA_def dvd_eq_mod_eq_0 unlessO_def Let_def inside_def vend_def)
qed

lemma covers_middle_last:
  assumes "covers a vs e" "vs = xs @ w # ys" "xs \<noteq> []"
  shows "vend (last xs) = vbase w"
  using assms by (cases xs rule: rev_cases) (auto simp: covers_append vend_def)

lemma MapBackingMemory_area:
  assumes hl: "host_layout H" and inv: "vm_inv H cached vm" and unl: "\<not> is_locked vm"
    and al: "CITRA_PAGE_SIZE dvd target" "CITRA_PAGE_SIZE dvd sz" and sz: "0 < sz"
    and mem: "ref_covers H mem sz" and free: "free_range vm target sz"
  obtains vm' i where "MapBackingMemory cached target mem sz state vm = Ok vm' i" "vm_inv H cached vm'"
    "\<not> is_locked vm'"
    "contents vm' = (\<lambda>a. if target \<le> a \<and> a < target + sz
       then Some (BackingMemory, PermReadWrite, state, GetPtr mem + (a - target)) else contents vm a)"
    "i < length (vma_map vm')" "vbase (vma_map vm' ! i) \<le> target" "target + sz \<le> vend (vma_map vm' ! i)"
    "vtype (vma_map vm' ! i) = BackingMemory" "vperms (vma_map vm' ! i) = PermReadWrite" "vstate (vma_map vm' ! i) = state"
    "contents vm (target + sz) = Some (BackingMemory, PermReadWrite, state, GetPtr mem + sz) \<longrightarrow> target + sz < vend (vma_map vm' ! i)"
proof -
  note t = vm_inv_tiles [OF inv]
  let ?f = "\<lambda>v. v\<lparr>vtype := BackingMemory, vperms := PermReadWrite, vstate := state, vbacking := mem\<rparr>"
  have "type_at vm target \<noteq> None" using free sz by (auto simp: free_range_def)
  then have "target < MAX_ADDRESS"
    using attr_map_outside [OF tiles_covers [OF t], of target] by (fastforce simp: type_at_def)
  with FindVMA_obtain [OF tiles_covers [OF t]] obtain xs v ys
    where v: "vma_map vm = xs @ v # ys" "inside target v" by blast
  from free_range_one_area [OF inv v free sz] have "vtype v = VMAFree" "vbase v \<le> target" "target + sz \<le> vend v"
    using v(2) by (auto simp: inside_def)
  then obtain vm1 xs1 w ys1 where c: "CarveVMA target sz vm = Ok vm1 (length xs1)" "vma_map vm1 = xs1 @ w # ys1"
    "tiles H cached vm1" "contents vm1 = contents vm" "is_locked vm1 = is_locked vm" "vbase w = target" "vsize w = sz"
    "successively (\<lambda>a b. \<not> both_free a b) xs1" "successively (\<lambda>a b. \<not> both_free a b) ys1"
    by (rule CarveVMA_spec [OF inv v(1) _ _ _ sz al])
  have "vma_ok H (?f w)" using al mem c(7) by (simp add: vma_ok_def)
  then obtain vm' xs' v1 v' ys' where ch:
    "change_vma cached ?f (length xs1) vm1 = Ok vm' (length xs')" "vma_map vm' = xs' @ v' # ys'"
    "merge_r (?f w) ys1 = (v1, ys')" "merge_l xs1 v1 = (xs', v')" "vm_inv H cached vm'"
    "is_locked vm' = is_locked vm1"
    and con: "\<And>a. contents vm' a = (if inside a w then Some (vattr (?f w) a) else contents vm1 a)"
    by (rule change_vma_spec [OF hl c(3,2) _ _ _ c(8,9)]) simp_all
  have m1: "vbase v1 = target" "target + sz \<le> vend v1" "vtype v1 = BackingMemory" "vperms v1 = PermReadWrite" "vstate v1 = state"
    using ch(3) c(6,7) by (auto simp: merge_r_def mergeable_def vend_def split: list.splits if_splits)
  have above: "target + sz < vend v1" if con: "contents vm (target + sz) = Some (BackingMemory, PermReadWrite, state, GetPtr mem + sz)"
  proof (cases ys1)
    case Nil
    then have "vend w = MAX_ADDRESS" using tiles_covers [OF c(3)] c(2) by (simp add: covers_append vend_def)
    then show ?thesis using attr_map_outside [OF tiles_covers [OF t], of "target + sz"] c(6,7) con by (simp add: vend_def)
  next
    case (Cons n zs)
    have n: "vbase n = target + sz" "0 < vsize n" using tiles_covers [OF c(3)] c(2,6,7) Cons by (auto simp: covers_append)
    then have "contents vm1 (target + sz) = Some (vattr n (target + sz))"
      using attr_map_in [OF tiles_covers [OF c(3)], of n "target + sz"] c(2) Cons by (simp add: inside_def vend_def)
    then have "mergeable (?f w) n" using con c(4,7) n(1) by (auto simp: mergeable_def vattr_def split: if_splits)
    then show ?thesis using ch(3) Cons n c(6,7) by (auto simp: merge_r_def vend_def)
  qed
  have near: "vend (last xs1) = vbase w" if "xs1 \<noteq> []"
    using covers_middle_last [OF tiles_covers [OF c(3)] c(2) that] .
  have m2: "vbase v' \<le> target" "target + sz \<le> vend v'" "vtype v' = BackingMemory" "vperms v' = PermReadWrite" "vstate v' = state" "vend v' = vend v1"
    using ch(4) m1 near c(6) by (auto simp: merge_l_def mergeable_def vend_def split: if_splits)
  have "GetPtr mem \<noteq> 0" using ref_covers_nonnull [OF hl mem] by simp
  moreover have "contents vm' = (\<lambda>a. if target \<le> a \<and> a < target + sz
      then Some (BackingMemory, PermReadWrite, state, GetPtr mem + (a - target)) else contents vm a)"
    using con c(4,6,7) by (auto simp: fun_eq_iff inside_def vend_def vattr_def)
  ultimately show thesis
    using that [of vm' "length xs'"] ch m2 above c(1,2,5,7) unl by (simp add: MapBackingMemory_def nth_append)
qed

lemma MapBackingMemory_free:
  assumes "host_layout H" "vm_inv H cached vm" "\<not> is_locked vm" "CITRA_PAGE_SIZE dvd target" "CITRA_PAGE_SIZE dvd sz" "0 < sz"
    "ref_covers H mem sz" "free_range vm target sz"
  obtains vm' i where "MapBackingMemory cached target mem sz state vm = Ok vm' i" "vm_inv H cached vm'"
    "\<not> is_locked vm'"
    "contents vm' = (\<lambda>a. if target \<le> a \<and> a < target + sz
       then Some (BackingMemory, PermReadWrite, state, GetPtr mem + (a - target)) else contents vm a)"
  by (rule MapBackingMemory_area [OF assms]) (rule that)

section \<open>Ranges\<close>

lemma covers_sorted:
  "covers a vs e \<Longrightarrow> sorted_wrt (\<lambda>v w. vbase v < vbase w) vs"
proof (induction vs arbitrary: a)
  case (Cons v vs)
  then show ?case by (fastforce dest: covers_mem)
qed simp

lemma sorted_takeWhile_filter:
  "sorted_wrt (\<lambda>v w. vbase v < vbase w) vs \<Longrightarrow>
   takeWhile (\<lambda>w. vbase w < e) vs = filter (\<lambda>w. vbase w < e) vs"
  by (induction vs) (auto simp: filter_empty_conv intro!: filter_False [symmetric])

text \<open>The areas \<^verbatim>\<open>std::any_of\<close> and the checking loop of \<^verbatim>\<open>ChangeMemoryState\<close> look at.\<close>

definition range_areas :: "vma list \<Rightarrow> nat \<Rightarrow> nat \<Rightarrow> vma list" where
  "range_areas vs target target_end =
     take (lower_bound vs target_end - FindVMA vs target) (drop (FindVMA vs target) vs)"

lemma range_areas_set:
  assumes cov: "covers 0 vs MAX_ADDRESS" and rng: "target < target_end" "target_end \<le> MAX_ADDRESS"
  shows "w \<in> set (range_areas vs target target_end) \<longleftrightarrow>
    w \<in> set vs \<and> (\<exists>a. inside a w \<and> target \<le> a \<and> a < target_end)"
proof -
  have "target < MAX_ADDRESS" using rng by simp
  with FindVMA_obtain [OF cov] obtain xs v ys
    where v: "vs = xs @ v # ys" "inside target v" "FindVMA vs target = length xs" by blast
  note mid = covers_middle [of 0 xs v ys MAX_ADDRESS]
  have xs: "\<forall>x \<in> set xs. vend x \<le> vbase v" using cov v(1) mid covers_mem by blast
  then have "\<forall>x \<in> set xs. vbase x < target_end" using v(2) rng by (fastforce simp: inside_def vend_def)
  then have lb: "lower_bound vs target_end = length xs + length (takeWhile (\<lambda>w. vbase w < target_end) (v # ys))"
    by (simp add: lower_bound_def v(1))
  have "range_areas vs target target_end = takeWhile (\<lambda>w. vbase w < target_end) (v # ys)"
    unfolding range_areas_def v(3) lb unfolding v(1) by (simp add: takeWhile_eq_take [symmetric])
  also have "\<dots> = filter (\<lambda>w. vbase w < target_end) (v # ys)"
    using covers_sorted [of 0 vs MAX_ADDRESS] cov v(1) by (intro sorted_takeWhile_filter) (simp add: sorted_wrt_append)
  finally have eq: "w \<in> set (range_areas vs target target_end) \<longleftrightarrow> w \<in> set (v # ys) \<and> vbase w < target_end" by auto
  have pos: "w \<in> set vs \<Longrightarrow> 0 < vsize w" using covers_mem [OF cov] by blast
  have later: "w \<in> set ys \<Longrightarrow> target < vbase w" 
    using covers_mem [OF mid(2), of w] cov v(1,2) by (auto simp: inside_def)
  show ?thesis
  proof
    assume w: "w \<in> set (range_areas vs target target_end)"
    then have "inside (max target (vbase w)) w"
      using eq pos later v(1,2) by (auto simp: inside_def vend_def max_def)
    with w eq rng v(1) show "w \<in> set vs \<and> (\<exists>a. inside a w \<and> target \<le> a \<and> a < target_end)"
      by (auto intro!: exI [of _ "max target (vbase w)"])
  next
    assume "w \<in> set vs \<and> (\<exists>a. inside a w \<and> target \<le> a \<and> a < target_end)"
    then show "w \<in> set (range_areas vs target target_end)"
      using eq xs v(1,2) by (fastforce simp: inside_def)
  qed
qed

lemma range_any_free:
  assumes t: "tiles H cached vm" and rng: "target < target_end" "target_end \<le> MAX_ADDRESS"
  shows "(\<exists>v \<in> set (range_areas (vma_map vm) target target_end). vtype v = VMAFree) \<longleftrightarrow>
    (\<exists>a. target \<le> a \<and> a < target_end \<and> type_at vm a = Some VMAFree)" (is "?l \<longleftrightarrow> ?r")
proof
  assume ?l
  then show ?r using range_areas_set [OF tiles_covers [OF t] rng] type_at_in [OF t] by metis
next
  assume ?r
  then obtain a where a: "target \<le> a" "a < target_end" "type_at vm a = Some VMAFree" by blast
  then obtain v where "v \<in> set (vma_map vm)" "inside a v"
    using covers_inside [OF tiles_covers [OF t], of a] rng(2) by auto
  with a show ?l
    using range_areas_set [OF tiles_covers [OF t] rng, of v] type_at_in [OF t, of v a] by auto
qed

text \<open>Splitting a backed area keeps the whole invariant.\<close>

lemma split_backed_inv:
  assumes inv: "vm_inv H cached vm" and vs: "vma_map vm = xs @ v # ys" and bkd: "vtype v \<noteq> VMAFree"
    and o: "0 < off" "off < vsize v" "CITRA_PAGE_SIZE dvd off"
  obtains vm' l r where
    "SplitVMA (length xs) off vm = Ok vm' (length xs + 1)" "vma_map vm' = xs @ l # r # ys"
    "vm_inv H cached vm'" "is_locked vm' = is_locked vm" "contents vm' = contents vm"
    "vbase l = vbase v" "vsize l = off" "vbase r = vbase v + off" "vsize r = vsize v - off"
proof -
  obtain vm' l r where s: "SplitVMA (length xs) off vm = Ok vm' (length xs + 1)" "vma_map vm' = xs @ l # r # ys"
    "tiles H cached vm'" "is_locked vm' = is_locked vm" "contents vm' = contents vm"
    "vbase l = vbase v" "vsize l = off" "vbase r = vbase v + off" "vsize r = vsize v - off"
    "vtype l = vtype v" "vtype r = vtype v" "mergeable l r"
    by (rule SplitVMA_spec [OF vm_inv_tiles [OF inv] vs o])
  have "successively (\<lambda>a b. \<not> both_free a b) (xs @ v # ys)" using inv vs by (simp add: vm_inv_def)
  from successively_pieces [OF this] s(2,10,11) bkd
  have "successively (\<lambda>a b. \<not> both_free a b) (vma_map vm')"
    by (auto simp: successively_append_iff successively_Cons both_free_def)
  with s show thesis by (intro that [of vm' l r]) (auto simp: vm_inv_def)
qed

text \<open>First step of \<^verbatim>\<open>CarveVMARange\<close>: make \<open>target\<close> the base of an area.\<close>

lemma carve_start:
  assumes inv: "vm_inv H cached vm" and tgt: "target < MAX_ADDRESS" "CITRA_PAGE_SIZE dvd target"
    and bkd: "type_at vm target \<noteq> Some VMAFree"
  defines "i \<equiv> FindVMA (vma_map vm) target"
  obtains vm' xs ys where
    "(if target \<noteq> vbase (vma_map vm ! i) then SplitVMA i (sub32 target (vbase (vma_map vm ! i))) vm else Ok vm i)
       = Ok vm' (length xs)"
    "vma_map vm' = xs @ ys" "covers 0 xs target" "covers target ys MAX_ADDRESS" "vm_inv H cached vm'"
    "contents vm' = contents vm" "is_locked vm' = is_locked vm"
proof -
  note t = vm_inv_tiles [OF inv]
  note cov = tiles_covers [OF t]
  obtain xs v ys where v: "vma_map vm = xs @ v # ys" "inside target v" "i = length xs"
    using FindVMA_obtain [OF cov tgt(1)] i_def by metis
  note mid = covers_middle [of 0 xs v ys MAX_ADDRESS]
  have at_i: "vma_map vm ! i = v" using v by simp
  have vb: "vtype v \<noteq> VMAFree" using type_at_in [OF t _ v(2)] bkd v(1) by auto
  show thesis
  proof (cases "target = vbase v")
    case True
    show thesis
      by (rule that [of vm xs "v # ys"]) (use True v cov mid(1) inv at_i in \<open>auto simp: covers_append\<close>)
  next
    case False
    let ?off = "target - vbase v"
    have off: "0 < ?off" "?off < vsize v" "CITRA_PAGE_SIZE dvd ?off" "sub32 target (vbase v) = ?off"
      using False v(1,2) tgt tiles_aligned [OF t, of v]
      by (auto simp: inside_def vend_def sub32_small MAX_ADDRESS_def)
    obtain vm' l r where s: "SplitVMA (length xs) ?off vm = Ok vm' (length xs + 1)" "vma_map vm' = xs @ l # r # ys"
      "vm_inv H cached vm'" "is_locked vm' = is_locked vm" "contents vm' = contents vm"
      "vbase l = vbase v" "vsize l = ?off" "vbase r = vbase v + ?off" "vsize r = vsize v - ?off"
      by (rule split_backed_inv [OF inv v(1) vb off(1-3)])
    have c: "covers 0 (xs @ l # r # ys) MAX_ADDRESS" using tiles_covers [OF vm_inv_tiles [OF s(3)]] s(2) by simp
    have le: "vbase v \<le> target" using v(2) by (simp add: inside_def)
    have c1: "covers 0 (xs @ [l]) target" using c s(6,7) le by (auto simp: covers_append)
    have "covers (vend l) (r # ys) MAX_ADDRESS" by (rule covers_middle(2) [OF c])
    moreover have "vend l = target" using s(6,7) le by (simp add: vend_def)
    ultimately have c2: "covers target (r # ys) MAX_ADDRESS" by simp
    show thesis
      by (rule that [of vm' "xs @ [l]" "r # ys"]) (use s c1 c2 False v(3) at_i off(4) in auto)
  qed
qed

text \<open>Second step: make \<open>target_end\<close> the end of an area.\<close>

lemma carve_end:
  assumes inv: "vm_inv H cached vm" and e: "CITRA_PAGE_SIZE dvd e" "e \<le> MAX_ADDRESS" "target < e"
    and vs: "vma_map vm = xs @ ys" "covers 0 xs target" "covers target ys MAX_ADDRESS"
    and bkd: "\<forall>a. target \<le> a \<and> a < e \<longrightarrow> type_at vm a \<noteq> Some VMAFree"
  defines "i \<equiv> FindVMA (vma_map vm) e"
  obtains vm' zs ws k where
    "(if i \<noteq> length (vma_map vm) \<and> e \<noteq> vbase (vma_map vm ! i)
      then SplitVMA i (sub32 e (vbase (vma_map vm ! i))) vm else Ok vm i) = Ok vm' k"
    "vma_map vm' = xs @ zs @ ws" "covers target zs e" "covers e ws MAX_ADDRESS" "vm_inv H cached vm'"
    "contents vm' = contents vm" "is_locked vm' = is_locked vm"
proof (cases "e = MAX_ADDRESS")
  case True
  then have "i = length (vma_map vm)" by (simp add: i_def FindVMA_def)
  then show thesis by (intro that [of vm _ ys "[]"]) (use True vs inv in auto)
next
  case False
  then have em: "e < MAX_ADDRESS" using e by simp
  note t = vm_inv_tiles [OF inv]
  have "target \<le> e" using e by simp
  then obtain u where u: "u \<in> set ys" "inside e u" using covers_inside [OF vs(3) _ em] by blast
  then obtain zs ds where ys: "ys = zs @ u # ds" by (auto simp: in_set_conv_decomp)
  have cov: "covers 0 ((xs @ zs) @ u # ds) MAX_ADDRESS" using tiles_covers [OF t] vs(1) ys by simp
  have i: "i = length (xs @ zs)" using FindVMA_middle [OF cov u(2) em] vs(1) ys by (simp add: i_def)
  have at_i: "vma_map vm ! i = u" using vs(1) ys i by (simp add: nth_append)
  have lt: "i < length (vma_map vm)" using vs(1) ys i by simp
  have czs: "covers target zs (vbase u)" "covers (vbase u) (u # ds) MAX_ADDRESS"
    using vs(3) ys by (auto simp: covers_append)
  show thesis
  proof (cases "e = vbase u")
    case True
    show thesis
      by (rule that [of vm i zs "u # ds"]) (use True vs ys czs inv at_i in auto)
  next
    case neq: False
    let ?off = "e - vbase u"
    have ub: "vbase u < e" using u(2) neq by (simp add: inside_def)
    have "target \<le> vbase u" using covers_le [OF czs(1)] .
    then have "type_at vm (vbase u) \<noteq> Some VMAFree" using bkd ub by blast
    moreover have "inside (vbase u) u" using czs(2) by (auto simp: inside_def vend_def)
    ultimately have ut: "vtype u \<noteq> VMAFree" using type_at_in [OF t, of u "vbase u"] vs(1) ys by auto
    have off: "0 < ?off" "?off < vsize u" "CITRA_PAGE_SIZE dvd ?off" "sub32 e (vbase u) = ?off"
      using ub u(2) e(1) tiles_aligned [OF t, of u] vs(1) ys em
      by (auto simp: inside_def vend_def sub32_small MAX_ADDRESS_def)
    have vm_eq: "vma_map vm = (xs @ zs) @ u # ds" using vs(1) ys by simp
    obtain vm' l r where s: "SplitVMA (length (xs @ zs)) ?off vm = Ok vm' (length (xs @ zs) + 1)"
      "vma_map vm' = (xs @ zs) @ l # r # ds"
      "vm_inv H cached vm'" "is_locked vm' = is_locked vm" "contents vm' = contents vm"
      "vbase l = vbase u" "vsize l = ?off" "vbase r = vbase u + ?off" "vsize r = vsize u - ?off"
      by (rule split_backed_inv [OF inv vm_eq ut off(1-3)])
    have c: "covers 0 ((xs @ zs) @ l # r # ds) MAX_ADDRESS"
      using tiles_covers [OF vm_inv_tiles [OF s(3)]] s(2) by simp
    have c1: "covers target (zs @ [l]) e" using czs(1) s(6,7) ub by (auto simp: covers_append)
    have c2: "covers e (r # ds) MAX_ADDRESS" using c s(6,7,8) ub by (auto simp: covers_append)
    show thesis
      by (rule that [of vm' "length (xs @ zs) + 1" "zs @ [l]" "r # ds"])
        (use s c1 c2 lt neq i at_i off(4) in auto)
  qed
qed

definition no_free_in :: "vm_manager \<Rightarrow> nat \<Rightarrow> nat \<Rightarrow> bool" where
  "no_free_in vm target sz \<longleftrightarrow> (\<forall>a. target \<le> a \<and> a < target + sz \<longrightarrow> type_at vm a \<noteq> Some VMAFree)"

lemma CarveVMARange_guards:
  assumes "CITRA_PAGE_SIZE dvd target" "CITRA_PAGE_SIZE dvd sz" "0 < sz" "target + sz \<le> MAX_ADDRESS"
  shows "CarveVMARange target sz vm =
    unlessO (\<not> (\<exists>v \<in> set (range_areas (vma_map vm) target (target + sz)). vtype v = VMAFree))
      vm ResultInvalidAddressState
      (bindO
         (let i = FindVMA (vma_map vm) target in
          if target \<noteq> vbase (vma_map vm ! i) then SplitVMA i (sub32 target (vbase (vma_map vm ! i))) vm else Ok vm i)
         (\<lambda>vm1 j. bindO
            (let i = FindVMA (vma_map vm1) (target + sz) in
             if i \<noteq> length (vma_map vm1) \<and> target + sz \<noteq> vbase (vma_map vm1 ! i)
             then SplitVMA i (sub32 (target + sz) (vbase (vma_map vm1 ! i))) vm1 else Ok vm1 i)
            (\<lambda>vm2 _. Ok vm2 j)))"
proof -
  have "add32 target sz = target + sz" using assms(4) by (simp add: add32_small MAX_ADDRESS_def)
  then show ?thesis
    using assms by (simp add: CarveVMARange_def dvd_eq_mod_eq_0 range_areas_def Let_def)
qed

lemma CarveVMARange_free:
  assumes inv: "vm_inv H cached vm" and al: "CITRA_PAGE_SIZE dvd target" "CITRA_PAGE_SIZE dvd sz"
    and rng: "0 < sz" "target + sz \<le> MAX_ADDRESS" and free: "\<not> no_free_in vm target sz"
  shows "CarveVMARange target sz vm = Err vm ResultInvalidAddressState"
  using range_any_free [OF vm_inv_tiles [OF inv], of target "target + sz"] rng free
  by (auto simp: CarveVMARange_guards [OF al rng] no_free_in_def unlessO_def)

lemma CarveVMARange_spec:
  assumes inv: "vm_inv H cached vm" and al: "CITRA_PAGE_SIZE dvd target" "CITRA_PAGE_SIZE dvd sz"
    and rng: "0 < sz" "target + sz \<le> MAX_ADDRESS" and nf: "no_free_in vm target sz"
  obtains vm' xs zs ws where
    "CarveVMARange target sz vm = Ok vm' (length xs)" "vma_map vm' = xs @ zs @ ws"
    "covers 0 xs target" "covers target zs (target + sz)" "covers (target + sz) ws MAX_ADDRESS"
    "vm_inv H cached vm'" "contents vm' = contents vm" "is_locked vm' = is_locked vm"
    "\<forall>z \<in> set zs. vtype z = BackingMemory"
proof -
  let ?e = "target + sz" and ?i = "FindVMA (vma_map vm) target"
  have nofree: "\<not> (\<exists>v \<in> set (range_areas (vma_map vm) target ?e). vtype v = VMAFree)"
    using range_any_free [OF vm_inv_tiles [OF inv], of target ?e] rng nf by (auto simp: no_free_in_def)
  have "target < MAX_ADDRESS" "type_at vm target \<noteq> Some VMAFree" using rng nf by (auto simp: no_free_in_def)
  then obtain vm1 xs ys where s1: "(if target \<noteq> vbase (vma_map vm ! ?i)
      then SplitVMA ?i (sub32 target (vbase (vma_map vm ! ?i))) vm else Ok vm ?i) = Ok vm1 (length xs)"
    "vma_map vm1 = xs @ ys" "covers 0 xs target" "covers target ys MAX_ADDRESS" "vm_inv H cached vm1"
    "contents vm1 = contents vm" "is_locked vm1 = is_locked vm"
    by (rule carve_start [OF inv _ al(1)])
  let ?j = "FindVMA (vma_map vm1) ?e"
  have e: "CITRA_PAGE_SIZE dvd ?e" "target < ?e" using al rng by auto
  have bk: "\<forall>a. target \<le> a \<and> a < ?e \<longrightarrow> type_at vm1 a \<noteq> Some VMAFree"
    using nf s1(6) by (simp add: no_free_in_def type_at_def)
  obtain vm2 zs ws k where s2: "(if ?j \<noteq> length (vma_map vm1) \<and> ?e \<noteq> vbase (vma_map vm1 ! ?j)
      then SplitVMA ?j (sub32 ?e (vbase (vma_map vm1 ! ?j))) vm1 else Ok vm1 ?j) = Ok vm2 k"
    "vma_map vm2 = xs @ zs @ ws" "covers target zs ?e" "covers ?e ws MAX_ADDRESS" "vm_inv H cached vm2"
    "contents vm2 = contents vm1" "is_locked vm2 = is_locked vm1"
    by (rule carve_end [OF s1(5) e(1) rng(2) e(2) s1(2,3,4) bk])
  have "CarveVMARange target sz vm = Ok vm2 (length xs)"
    using nofree s1(1) s2(1) by (simp add: CarveVMARange_guards [OF al rng] Let_def)
  moreover have "vtype z = BackingMemory" if z: "z \<in> set zs" for z
  proof -
    from covers_mem [OF s2(3) z] have in_z: "inside (vbase z) z" "target \<le> vbase z" "vbase z < ?e"
      by (auto simp: inside_def vend_def)
    then have "type_at vm2 (vbase z) = Some (vtype z)"
      using type_at_in [OF vm_inv_tiles [OF s2(5)]] z s2(2) by simp
    moreover have "type_at vm2 (vbase z) \<noteq> Some VMAFree"
      using bk in_z s2(6) by (simp add: type_at_def)
    ultimately show ?thesis by (cases "vtype z") auto
  qed
  ultimately show thesis by (intro that [of vm2 xs zs ws]) (use s1 s2 in auto)
qed

section \<open>The loop over a range\<close>

text \<open>
  A uniform change of attributes: \<open>f\<close> keeps the extent of an area, and acts on the contents as \<open>F\<close>.
  When a changed area swallows its right neighbour, that neighbour must have had the new attributes already.
\<close>

definition uniform_change :: "backing_mem set \<Rightarrow> (vma \<Rightarrow> vma) \<Rightarrow> (attrs \<Rightarrow> attrs) \<Rightarrow> bool" where
  "uniform_change H f F \<longleftrightarrow>
     (\<forall>v a. vbase (f v) = vbase v \<and> vsize (f v) = vsize v \<and> vattr (f v) a = F (vattr v a)) \<and>
     (\<forall>v. vma_ok H v \<longrightarrow> vtype v = BackingMemory \<longrightarrow> vma_ok H (f v)) \<and>
     (\<forall>v n a. vma_ok H n \<longrightarrow> mergeable (f v) n \<longrightarrow> F (vattr n a) = vattr n a)"

lemma range_loop_stop:
  assumes "vma_map vm = xs @ ws" "\<forall>w \<in> set ws. e \<le> vbase w" "0 < n"
  shows "range_loop op n e (length xs) vm = Ok vm ()"
proof -
  obtain m where "n = Suc m" using assms(3) by (cases n) auto
  with assms(1,2) show ?thesis by (cases ws) (auto simp: nth_append)
qed

lemma attr_map_zs:
  assumes "tiles H cached vm" "vma_map vm = xs @ zs @ ws" "z \<in> set zs" "inside a z"
  shows "contents vm a = Some (vattr z a)"
  using attr_map_in [OF tiles_covers [OF assms(1)], of z a] assms by simp

lemma range_loop_spec:
  assumes hl: "host_layout H" and u: "uniform_change H f F"
    and op: "\<And>i vm. is_locked vm = lk \<Longrightarrow> op i vm = change_vma cached f i vm"
  shows "vm_inv H cached vm \<Longrightarrow> is_locked vm = lk \<Longrightarrow> vma_map vm = xs @ zs @ ws \<Longrightarrow>
    \<forall>z \<in> set zs. vtype z = BackingMemory \<and> vbase z < e \<Longrightarrow> \<forall>w \<in> set ws. e \<le> vbase w \<Longrightarrow> length zs < n \<Longrightarrow>
    \<exists>vm'. range_loop op n e (length xs) vm = Ok vm' () \<and> vm_inv H cached vm' \<and> is_locked vm' = lk \<and>
      (\<forall>a. contents vm' a = (if \<exists>z \<in> set zs. inside a z then map_option F (contents vm a) else contents vm a))"
proof (induction zs arbitrary: vm xs ws n rule: length_induct)
  case (1 zs)
  note inv = 1(2) and lk = 1(3) and vs = 1(4) and zs = 1(5) and ws = 1(6) and n = 1(7)
  show ?case
  proof (cases zs)
    case Nil
    then show ?thesis using range_loop_stop [of vm xs ws e n op] inv lk vs ws n by auto
  next
    case (Cons v zs1)
    obtain m where m: "n = Suc m" using n by (cases n) auto
    note t = vm_inv_tiles [OF inv]
    have vs': "vma_map vm = xs @ v # (zs1 @ ws)" using vs Cons by simp
    have "vma_ok H v" "vtype v = BackingMemory" using tiles_ok [OF t] vs' zs Cons by auto
    then have fv: "vma_ok H (f v)" "vbase (f v) = vbase v" "vsize (f v) = vsize v"
      using u by (auto simp: uniform_change_def)
    have "successively (\<lambda>a b. \<not> both_free a b) (xs @ v # (zs1 @ ws))" using inv vs' by (simp add: vm_inv_def)
    note pieces = successively_pieces [OF this]
    obtain vm1 xs1 v1 v2 ys1 where c: "change_vma cached f (length xs) vm = Ok vm1 (length xs1)"
      "vma_map vm1 = xs1 @ v2 # ys1" "merge_r (f v) (zs1 @ ws) = (v1, ys1)" "merge_l xs v1 = (xs1, v2)"
      "vm_inv H cached vm1" "is_locked vm1 = is_locked vm"
      and con: "\<And>a. contents vm1 a = (if inside a v then Some (vattr (f v) a) else contents vm a)"
      by (rule change_vma_spec [where f = f, OF hl t vs' fv]) (use pieces in auto)
    have F_v: "contents vm1 a = map_option F (contents vm a)" if "inside a v" for a
      using con [of a] attr_map_in [OF tiles_covers [OF t], of v a] that vs' u by (simp add: uniform_change_def)
    have step: "range_loop op n e (length xs) vm = range_loop op m e (length (xs1 @ [v2])) vm1"
      using zs vs' Cons c(1) op [OF lk] m by simp
    have vs1: "vma_map vm1 = (xs1 @ [v2]) @ ys1" using c(2) by simp
    show ?thesis
    proof (cases "\<exists>q zs2. zs1 = q # zs2 \<and> mergeable (f v) q")
      case True
      then obtain q zs2 where q: "zs1 = q # zs2" "mergeable (f v) q" by blast
      with c(3) have ys1: "ys1 = zs2 @ ws" by (simp add: merge_r_def)
      have "\<exists>vm'. range_loop op m e (length (xs1 @ [v2])) vm1 = Ok vm' () \<and> vm_inv H cached vm' \<and> is_locked vm' = lk \<and>
        (\<forall>a. contents vm' a = (if \<exists>z \<in> set zs2. inside a z then map_option F (contents vm1 a) else contents vm1 a))"
        using 1(1) [rule_format, of zs2 vm1 "xs1 @ [v2]" ws m] c(5,6) lk vs1 ys1 zs ws n m Cons q(1) by simp
      then obtain vm' where vm': "range_loop op n e (length xs) vm = Ok vm' ()" "vm_inv H cached vm'" "is_locked vm' = lk"
        and con': "\<And>a. contents vm' a = (if \<exists>z \<in> set zs2. inside a z then map_option F (contents vm1 a) else contents vm1 a)"
        using step by auto
      have F_q: "map_option F (contents vm a) = contents vm a" if "inside a q" for a
        using attr_map_zs [OF t vs, of q a] that tiles_ok [OF t, of q] vs Cons q u by (simp add: uniform_change_def)
      have disj: "\<not> inside a v" if "z \<in> set zs1" "inside a z" for a z
        using inside_unique [OF tiles_covers [OF t], of v z a] that vs' covers_middle [of 0 xs v "zs1 @ ws"]
          tiles_covers [OF t] covers_mem [of "vend v" "zs1 @ ws" MAX_ADDRESS z] by (auto simp: inside_def)
      have "contents vm' a = (if \<exists>z \<in> set zs. inside a z then map_option F (contents vm a) else contents vm a)" for a
        using con' [of a] F_v [of a] F_q [of a] con [of a] disj [of _ a] Cons q(1) by (cases "inside a v") auto
      with vm' show ?thesis by blast
    next
      case False
      then obtain ws1 where ys1: "ys1 = zs1 @ ws1" "set ws1 \<subseteq> set ws"
        using c(3) by (cases zs1; cases ws; auto simp: merge_r_def split: if_splits)
      have "\<exists>vm'. range_loop op m e (length (xs1 @ [v2])) vm1 = Ok vm' () \<and> vm_inv H cached vm' \<and> is_locked vm' = lk \<and>
        (\<forall>a. contents vm' a = (if \<exists>z \<in> set zs1. inside a z then map_option F (contents vm1 a) else contents vm1 a))"
        by (rule 1(1) [rule_format, of zs1 vm1 "xs1 @ [v2]" ws1 m])
          (use c(5,6) lk vs1 ys1 zs ws n m Cons in auto)
      then obtain vm' where vm': "range_loop op n e (length xs) vm = Ok vm' ()" "vm_inv H cached vm'" "is_locked vm' = lk"
        and con': "\<And>a. contents vm' a = (if \<exists>z \<in> set zs1. inside a z then map_option F (contents vm1 a) else contents vm1 a)"
        using step by auto
      have disj: "\<not> inside a v" if "z \<in> set zs1" "inside a z" for a z
        using that vs' covers_middle [of 0 xs v "zs1 @ ws"]
          tiles_covers [OF t] covers_mem [of "vend v" "zs1 @ ws" MAX_ADDRESS z] by (auto simp: inside_def)
      have "contents vm' a = (if \<exists>z \<in> set zs. inside a z then map_option F (contents vm a) else contents vm a)" for a
        using con' [of a] F_v [of a] con [of a] disj [of _ a] Cons by (cases "inside a v") auto
      with vm' show ?thesis by blast
    qed
  qed
qed

lemma covers_range:
  assumes "covers target zs e" shows "(\<exists>z \<in> set zs. inside a z) \<longleftrightarrow> target \<le> a \<and> a < e"
  using covers_inside [OF assms, of a] covers_mem [OF assms] by (fastforce simp: inside_def)

text \<open>Carving a range and changing every area in it changes the contents exactly there.\<close>

lemma carve_and_loop:
  assumes hl: "host_layout H" and inv: "vm_inv H cached vm" and u: "uniform_change H f F"
    and al: "CITRA_PAGE_SIZE dvd target" "CITRA_PAGE_SIZE dvd sz"
    and rng: "0 < sz" "target + sz \<le> MAX_ADDRESS" and nf: "no_free_in vm target sz"
    and op: "\<And>i vm'. is_locked vm' = is_locked vm \<Longrightarrow> op i vm' = change_vma cached f i vm'"
  obtains vm1 i vm' where "CarveVMARange target sz vm = Ok vm1 i"
    "range_loop op (loop_fuel vm1) (add32 target sz) i vm1 = Ok vm' ()"
    "vm_inv H cached vm'" "is_locked vm' = is_locked vm"
    "contents vm' = (\<lambda>a. if target \<le> a \<and> a < target + sz then map_option F (contents vm a) else contents vm a)"
proof -
  obtain vm1 xs zs ws where c: "CarveVMARange target sz vm = Ok vm1 (length xs)" "vma_map vm1 = xs @ zs @ ws"
    "covers 0 xs target" "covers target zs (target + sz)" "covers (target + sz) ws MAX_ADDRESS"
    "vm_inv H cached vm1" "contents vm1 = contents vm" "is_locked vm1 = is_locked vm"
    "\<forall>z \<in> set zs. vtype z = BackingMemory"
    by (rule CarveVMARange_spec [OF inv al rng nf])
  have zs: "\<forall>z \<in> set zs. vtype z = BackingMemory \<and> vbase z < target + sz"
    using c(9) covers_mem [OF c(4)] by (fastforce simp: vend_def)
  have ws: "\<forall>w \<in> set ws. target + sz \<le> vbase w" using covers_mem [OF c(5)] by blast
  have n: "length zs < loop_fuel vm1" using c(2) by (simp add: loop_fuel_def)
  have "\<exists>vm'. range_loop op (loop_fuel vm1) (target + sz) (length xs) vm1 = Ok vm' () \<and> vm_inv H cached vm' \<and>
    is_locked vm' = is_locked vm \<and>
    (\<forall>a. contents vm' a = (if \<exists>z \<in> set zs. inside a z then map_option F (contents vm1 a) else contents vm1 a))"
    by (rule range_loop_spec [OF hl u op c(6,8,2) zs ws n])
  then obtain vm' where vm': "range_loop op (loop_fuel vm1) (target + sz) (length xs) vm1 = Ok vm' ()"
    "vm_inv H cached vm'" "is_locked vm' = is_locked vm"
    "\<And>a. contents vm' a = (if \<exists>z \<in> set zs. inside a z then map_option F (contents vm1 a) else contents vm1 a)"
    by blast
  have "add32 target sz = target + sz" using rng by (simp add: add32_small MAX_ADDRESS_def)
  moreover have "contents vm' = (\<lambda>a. if target \<le> a \<and> a < target + sz then map_option F (contents vm a) else contents vm a)"
    using vm'(4) c(7) covers_range [OF c(4)] by (auto simp: fun_eq_iff)
  ultimately show thesis by (intro that [of vm1 "length xs" vm']) (use c(1) vm'(1-3) in auto)
qed

lemma uniform_unmap:
  "uniform_change H (\<lambda>v. v\<lparr>vtype := VMAFree, vperms := PermNone, vstate := StFree, vbacking := null_ref\<rparr>)
     (\<lambda>_. (VMAFree, PermNone, StFree, 0))"
  by (auto simp: uniform_change_def vattr_def vma_ok_def mergeable_def)

lemma uniform_reprotect:
  "uniform_change H (\<lambda>v. v\<lparr>vperms := p\<rparr>) (\<lambda>(t, _, s, h). (t, p, s, h))"
  by (auto simp: uniform_change_def vattr_def vma_ok_def mergeable_def)

lemma uniform_change_state:
  "uniform_change H (\<lambda>v. v\<lparr>vperms := p, vstate := s\<rparr>) (\<lambda>(t, _, _, h). (t, p, s, h))"
  by (auto simp: uniform_change_def vattr_def vma_ok_def mergeable_def)

lemma range_contents:
  assumes t: "tiles H cached vm" and rng: "0 < sz" "target + sz \<le> MAX_ADDRESS"
  shows "(\<forall>v \<in> set (range_areas (vma_map vm) target (target + sz)). P (vperms v) (vstate v)) \<longleftrightarrow>
    (\<forall>a. target \<le> a \<and> a < target + sz \<longrightarrow> (\<exists>ty p s h. contents vm a = Some (ty, p, s, h) \<and> P p s))"
    (is "?l \<longleftrightarrow> ?r")
proof -
  note cov = tiles_covers [OF t]
  note set = range_areas_set [OF cov, of target "target + sz"]
  show ?thesis
  proof
    assume ?l
    show ?r
    proof (intro allI impI)
      fix a assume a: "target \<le> a \<and> a < target + sz"
      then obtain v where v: "v \<in> set (vma_map vm)" "inside a v" using covers_inside [OF cov, of a] rng by auto
      with a set [of v] rng \<open>?l\<close> have "P (vperms v) (vstate v)" by auto
      with attr_map_in [OF cov v] show "\<exists>ty p s h. contents vm a = Some (ty, p, s, h) \<and> P p s"
        by (simp add: vattr_def)
    qed
  next
    assume r: ?r
    show ?l
    proof
      fix v assume "v \<in> set (range_areas (vma_map vm) target (target + sz))"
      then obtain a where a: "v \<in> set (vma_map vm)" "inside a v" "target \<le> a" "a < target + sz"
        using set [of v] rng by auto
      with r attr_map_in [OF cov a(1,2)] show "P (vperms v) (vstate v)" by (auto simp: vattr_def)
    qed
  qed
qed

section \<open>Backing blocks\<close>

definition host_ptr :: "vm_manager \<Rightarrow> nat \<Rightarrow> nat" where
  "host_ptr vm a = (case contents vm a of Some (_, _, _, h) \<Rightarrow> h | None \<Rightarrow> 0)"

text \<open>The host addresses a list of blocks stands for.\<close>

definition expand :: "(memory_ref \<times> nat) list \<Rightarrow> nat list" where
  "expand bs = concat (map (\<lambda>(r, n). map (\<lambda>k. GetPtr r + k) [0..<n]) bs)"

lemma blocks_step:
  assumes t: "tiles H cached vm" and vs: "vma_map vm = xs @ v # ys" and a: "inside a v" "a < e" "e \<le> MAX_ADDRESS"
  shows "vtype v = VMAFree \<Longrightarrow>
      backing_blocks_loop (Suc m) (vma_map vm) e a acc = Err () ResultInvalidAddressState"
    "vtype v = BackingMemory \<Longrightarrow> \<exists>r. GetPtr r = GetPtr (vbacking v) + (a - vbase v) \<and> ref_covers H r (vend v - a) \<and>
      backing_blocks_loop (Suc m) (vma_map vm) e a acc =
        backing_blocks_loop m (vma_map vm) e (min e (vend v)) (acc @ [(r, min e (vend v) - a)])"
proof -
  have cov: "covers 0 (xs @ v # ys) MAX_ADDRESS" using tiles_covers [OF t] vs by simp
  have i: "FindVMA (vma_map vm) a = length xs" using FindVMA_middle [OF cov a(1)] a(2,3) vs by simp
  show "backing_blocks_loop (Suc m) (vma_map vm) e a acc = Err () ResultInvalidAddressState"
    if "vtype v = VMAFree" using that i vs a(2) by (simp add: unlessO_def)
  assume bk: "vtype v = BackingMemory"
  have ve: "vend v \<le> MAX_ADDRESS" using covers_middle(4) [OF cov] .
  have off: "vsize v = (a - vbase v) + (vend v - a)" "0 < vend v - a" using a(1) by (auto simp: inside_def vend_def)
  have "ref_covers H (vbacking v) (vsize v)" using tiles_ok [OF t, of v] vs bk by (simp add: vma_ok_def)
  then obtain r where r: "ref_add (vbacking v) (a - vbase v) = Some r" "GetPtr r = GetPtr (vbacking v) + (a - vbase v)"
    "ref_covers H r (vend v - a)" using ref_add_covers [OF _ off(2), of H "vbacking v" "a - vbase v"] off(1) by auto
  let ?m = "min e (vend v)"
  have words: "add32 (vbase v) (vsize v) = vend v" "sub32 ?m a = ?m - a" "sub32 a (vbase v) = a - vbase v"
    "add32 a (?m - a) = ?m"
    using ve a by (auto simp: inside_def vend_def add32_small sub32_small MAX_ADDRESS_def)
  have "backing_blocks_loop (Suc m) (vma_map vm) e a acc =
      backing_blocks_loop m (vma_map vm) e ?m (acc @ [(r, ?m - a)])"
    using i vs a(2) bk r(1) words by (simp add: Let_def)
  with r(2,3) show "\<exists>r. GetPtr r = GetPtr (vbacking v) + (a - vbase v) \<and> ref_covers H r (vend v - a) \<and>
      backing_blocks_loop (Suc m) (vma_map vm) e a acc =
        backing_blocks_loop m (vma_map vm) e ?m (acc @ [(r, ?m - a)])" by blast
qed

text \<open>The blocks of a range of whole pages are nonempty, whole pages of an allocation.\<close>

definition good_block :: "backing_mem set \<Rightarrow> memory_ref \<times> nat \<Rightarrow> bool" where
  "good_block H b \<longleftrightarrow> 0 < snd b \<and> CITRA_PAGE_SIZE dvd snd b \<and> ref_covers H (fst b) (snd b)"

lemma backing_blocks_good:
  assumes t: "tiles H cached vm" and e: "e \<le> MAX_ADDRESS" "CITRA_PAGE_SIZE dvd e"
  shows "backing_blocks_loop n (vma_map vm) e a acc = Ok () bs \<Longrightarrow> a \<le> e \<Longrightarrow> CITRA_PAGE_SIZE dvd a \<Longrightarrow>
    \<forall>b \<in> set acc. good_block H b \<Longrightarrow> \<forall>b \<in> set bs. good_block H b"
proof (induction n arbitrary: a acc)
  case (Suc n)
  show ?case
  proof (cases "a = e")
    case False
    then have a: "a < e" "a < MAX_ADDRESS" using Suc.prems(2) e by simp_all
    obtain xs v ys where v: "vma_map vm = xs @ v # ys" "inside a v"
      using FindVMA_obtain [OF tiles_covers [OF t] a(2)] by blast
    have "vtype v = BackingMemory"
      using blocks_step(1) [OF t v a(1) e(1), of n acc] Suc.prems(1) by (cases "vtype v") auto
    from blocks_step(2) [OF t v a(1) e(1) this, of n acc] obtain r where r: "ref_covers H r (vend v - a)"
      "backing_blocks_loop n (vma_map vm) e (min e (vend v)) (acc @ [(r, min e (vend v) - a)]) = Ok () bs"
      unfolding Suc.prems(1) by metis
    have "CITRA_PAGE_SIZE dvd vbase v" "CITRA_PAGE_SIZE dvd vsize v"
      using tiles_aligned [OF t] tiles_ok [OF t] v(1) by (auto simp: vma_ok_def)
    then have al: "CITRA_PAGE_SIZE dvd vend v" by (simp add: vend_def)
    have "good_block H (r, min e (vend v) - a)"
      using r(1) a(1) v(2) al e(2) Suc.prems(3) ref_covers_mono [OF r(1)]
      by (auto simp: good_block_def inside_def min_def dvd_diff_nat)
    then have "\<forall>b \<in> set (acc @ [(r, min e (vend v) - a)]). good_block H b" using Suc.prems(4) by simp
    moreover have "min e (vend v) \<le> e" "CITRA_PAGE_SIZE dvd min e (vend v)" using al e(2) by (simp_all add: min_def)
    ultimately show ?thesis using Suc.IH [OF r(2)] by blast
  qed (use Suc.prems in simp)
qed simp

lemma expand_Cons: "expand ((r, n) # bs) = map (\<lambda>k. GetPtr r + k) [0..<n] @ expand bs"
  by (simp add: expand_def)

lemma host_ptr_block:
  assumes t: "tiles H cached vm" and v: "v \<in> set (vma_map vm)" "vtype v = BackingMemory"
    and r: "GetPtr r = GetPtr (vbacking v) + (a - vbase v)" and a: "vbase v \<le> a" "m \<le> vend v"
  shows "map (\<lambda>k. GetPtr r + k) [0..<m - a] = map (host_ptr vm) [a..<m]"
proof (rule nth_equalityI)
  fix k assume k: "k < length (map (\<lambda>k. GetPtr r + k) [0..<m - a])"
  then have "inside (a + k) v" using a by (auto simp: inside_def)
  then have "contents vm (a + k) = Some (vattr v (a + k))" using attr_map_in [OF tiles_covers [OF t] v(1)] by simp
  then show "map (\<lambda>k. GetPtr r + k) [0..<m - a] ! k = map (host_ptr vm) [a..<m] ! k"
    using k r a v(2) by (simp add: host_ptr_def vattr_def)
qed simp

lemma backing_blocks_loop_spec:
  assumes t: "tiles H cached vm" and e: "e \<le> MAX_ADDRESS"
  shows "vma_map vm = xs @ v # ys \<Longrightarrow> inside a v \<Longrightarrow> a < e \<Longrightarrow> length ys + 2 \<le> n \<Longrightarrow>
    (if \<forall>x. a \<le> x \<and> x < e \<longrightarrow> type_at vm x = Some BackingMemory
     then \<exists>bs. backing_blocks_loop n (vma_map vm) e a acc = Ok () (acc @ bs) \<and> expand bs = map (host_ptr vm) [a..<e]
     else backing_blocks_loop n (vma_map vm) e a acc = Err () ResultInvalidAddressState)"
proof (induction ys arbitrary: xs v a n acc rule: length_induct)
  case (1 ys)
  note vs = 1(2) and a = 1(3,4)
  obtain m where m: "n = Suc (Suc m)" using 1(5) by (metis add_2_eq_Suc' le_Suc_ex plus_nat.simps(2))
  have v: "v \<in> set (vma_map vm)" using vs by simp
  note ty = type_at_in [OF t v]
  show ?case
  proof (cases "vtype v")
    case VMAFree
    with ty [OF a(1)] a blocks_step(1) [OF t vs a e] m show ?thesis by auto
  next
    case bk: BackingMemory
    from blocks_step(2) [OF t vs a e bk] obtain r where r: "GetPtr r = GetPtr (vbacking v) + (a - vbase v)"
      and step: "backing_blocks_loop n (vma_map vm) e a acc =
        backing_blocks_loop (Suc m) (vma_map vm) e (min e (vend v)) (acc @ [(r, min e (vend v) - a)])"
      using m by blast
    have blk: "x \<le> vend v \<Longrightarrow> map (\<lambda>k. GetPtr r + k) [0..<x - a] = map (host_ptr vm) [a..<x]" for x
      using host_ptr_block [OF t v bk r] a(1) by (simp add: inside_def)
    show ?thesis
    proof (cases "e \<le> vend v")
      case True
      then have "\<forall>x. a \<le> x \<and> x < e \<longrightarrow> type_at vm x = Some BackingMemory"
        using ty a(1) bk by (auto simp: inside_def)
      moreover have "backing_blocks_loop n (vma_map vm) e a acc = Ok () (acc @ [(r, e - a)])"
        using step True by simp
      moreover have "expand [(r, e - a)] = map (host_ptr vm) [a..<e]" using blk [OF True] by (simp add: expand_def)
      ultimately show ?thesis by auto
    next
      case False
      then have ve: "vend v < e" by simp
      have "covers (vend v) ys MAX_ADDRESS" using covers_middle(2) tiles_covers [OF t] vs by auto
      then obtain w zs where w: "ys = w # zs" "inside (vend v) w"
        using ve e by (cases ys) (auto simp: inside_def vend_def)
      have vs': "vma_map vm = (xs @ [v]) @ w # zs" using vs w by simp
      have av: "a \<le> vend v" using a(1) by (simp add: inside_def)
      have "a \<le> x \<Longrightarrow> x < vend v \<Longrightarrow> type_at vm x = Some BackingMemory" for x
        using ty [of x] bk a(1) by (simp add: inside_def)
      then have split: "(\<forall>x. a \<le> x \<and> x < e \<longrightarrow> type_at vm x = Some BackingMemory) \<longleftrightarrow>
          (\<forall>x. vend v \<le> x \<and> x < e \<longrightarrow> type_at vm x = Some BackingMemory)"
        using av by (metis le_trans linorder_not_less)
      have "[a..<e] = [a..<vend v] @ [vend v..<e]" using av ve by (metis less_imp_le upt_add_eq_append le_Suc_ex)
      then have exp: "expand ((r, vend v - a) # bs) = map (host_ptr vm) [a..<e]"
        if "expand bs = map (host_ptr vm) [vend v..<e]" for bs
        using that blk [of "vend v"] by (simp add: expand_Cons)
      from 1(1) [rule_format, OF _ vs' w(2) ve, of "Suc m" "acc @ [(r, vend v - a)]"] 1(5) w(1) m
      have ih: "if \<forall>x. vend v \<le> x \<and> x < e \<longrightarrow> type_at vm x = Some BackingMemory
        then \<exists>bs. backing_blocks_loop (Suc m) (vma_map vm) e (vend v) (acc @ [(r, vend v - a)])
            = Ok () ((acc @ [(r, vend v - a)]) @ bs) \<and> expand bs = map (host_ptr vm) [vend v..<e]
        else backing_blocks_loop (Suc m) (vma_map vm) e (vend v) (acc @ [(r, vend v - a)])
            = Err () ResultInvalidAddressState" by simp
      have step': "backing_blocks_loop n (vma_map vm) e a acc =
          backing_blocks_loop (Suc m) (vma_map vm) e (vend v) (acc @ [(r, vend v - a)])"
        using step ve by simp
      show ?thesis
      proof (cases "\<forall>x. vend v \<le> x \<and> x < e \<longrightarrow> type_at vm x = Some BackingMemory")
        case True
        with ih obtain bs where bs: "backing_blocks_loop n (vma_map vm) e a acc
            = Ok () (acc @ (r, vend v - a) # bs)" "expand bs = map (host_ptr vm) [vend v..<e]"
          unfolding step' by auto
        from bs(1) exp [OF bs(2)] show ?thesis unfolding split if_P [OF True] by blast
      next
        case False
        from ih show ?thesis unfolding split if_not_P [OF False] step' .
      qed
    qed
  qed
qed

section \<open>Properties\<close>

definition fresh_vm :: vm_manager where
  "fresh_vm = \<lparr>vma_map = [initial_vma], vm_page_table = NewPageTable, is_locked = False\<rparr>"

lemma map_page_clear: "map_page cached NewPageTable p null_ref UnmappedPage = NewPageTable"
  by (simp add: map_page_def NewPageTable_def fun_eq_iff)

lemma ClearPageTable_new: "ClearPageTable NewPageTable = NewPageTable"
  by (simp add: ClearPageTable_def NewPageTable_def)

lemma MapPages_clear:
  "base + n \<le> PAGE_TABLE_NUM_ENTRIES \<Longrightarrow>
   MapPages cached NewPageTable base n null_ref UnmappedPage = Some NewPageTable"
  by (induction n arbitrary: base) (simp_all add: map_page_clear)

text \<open>
  Property: A new address space is well formed for every host memory: one free area covers all addresses below
  0x40000000 and every page is unmapped.
\<close>

theorem VMManager_inv:
  "\<exists>vm. VMManager cached = Ok vm () \<and> vm_inv H cached vm \<and> \<not> is_locked vm \<and> fully_merged vm \<and>
     contents vm = (\<lambda>a. if a < 0x40000000 then Some (VMAFree, PermNone, StFree, 0) else None)"
proof -
  have "UnmapRegion cached NewPageTable 0 MAX_ADDRESS = Some NewPageTable"
    using MapPages_clear [of 0 "MAX_ADDRESS div CITRA_PAGE_SIZE"]
    by (simp add: UnmapRegion_def MAX_ADDRESS_def CITRA_PAGE_SIZE_def PAGE_TABLE_NUM_ENTRIES_def)
  then have "VMManager cached = Ok fresh_vm ()"
    by (simp add: VMManager_def Reset_def UpdatePageTableForVMA_def initial_vma_def fresh_vm_def ClearPageTable_new)
  moreover have "vm_inv H cached fresh_vm" "contents fresh_vm =
      (\<lambda>a. if a < 0x40000000 then Some (VMAFree, PermNone, StFree, 0) else None)"
    by (auto simp: vm_inv_def tiles_def fresh_vm_def initial_vma_def vma_ok_def MAX_ADDRESS_def CITRA_PAGE_SIZE_def
        pt_ok_def page_ok_def vattr_def page_unmapped_def NewPageTable_def inside_def vend_def fun_eq_iff)
  ultimately show ?thesis by (auto simp: fresh_vm_def fully_merged_def)
qed

lemma fresh_vm_facts:
  "vm_inv H cached fresh_vm" "\<not> is_locked fresh_vm" "target + sz \<le> MAX_ADDRESS \<Longrightarrow> free_range fresh_vm target sz"
  by (auto simp: vm_inv_def tiles_def fresh_vm_def initial_vma_def vma_ok_def MAX_ADDRESS_def CITRA_PAGE_SIZE_def
      pt_ok_def page_ok_def vattr_def page_unmapped_def NewPageTable_def inside_def vend_def fun_eq_iff
      free_range_def type_at_def)

text \<open>A host with one allocation, the emulated FCRAM, and an address space with 0x3000 bytes of it mapped.\<close>

definition sample_fcram :: backing_mem where
  "sample_fcram = \<lparr>bm_ptr = 0x10000, bm_size = 0x8000000\<rparr>"

definition sample_ref :: memory_ref where
  "sample_ref = \<lparr>mr_backing = Some sample_fcram, mr_offset = 0x4000\<rparr>"

abbreviation no_cache :: "nat \<Rightarrow> bool" where
  "no_cache \<equiv> (\<lambda>p. False)"

lemma sample_layout: "host_layout {sample_fcram}" "ref_covers {sample_fcram} sample_ref 0x3000"
  by (simp_all add: host_layout_def sample_fcram_def ref_covers_def sample_ref_def)

lemma sample_vm:
  obtains vm where "vm_inv {sample_fcram} no_cache vm" "\<not> is_locked vm" "no_free_in vm 0x100000 0x3000"
    "\<forall>a. 0x100000 \<le> a \<and> a < 0x103000 \<longrightarrow>
      contents vm a = Some (BackingMemory, PermReadWrite, StPrivate, GetPtr sample_ref + (a - 0x100000))"
proof -
  obtain vm i where "MapBackingMemory no_cache 0x100000 sample_ref 0x3000 StPrivate fresh_vm = Ok vm i"
    "vm_inv {sample_fcram} no_cache vm" "\<not> is_locked vm"
    "contents vm = (\<lambda>a. if 0x100000 \<le> a \<and> a < 0x100000 + 0x3000
       then Some (BackingMemory, PermReadWrite, StPrivate, GetPtr sample_ref + (a - 0x100000)) else contents fresh_vm a)"
    by (rule MapBackingMemory_free [where target = "0x100000" and sz = "0x3000" and mem = sample_ref and
          state = StPrivate, OF sample_layout(1) fresh_vm_facts(1,2)])
      (simp_all add: sample_layout fresh_vm_facts CITRA_PAGE_SIZE_def MAX_ADDRESS_def)
  then show thesis by (intro that [of vm]) (auto simp: no_free_in_def type_at_def)
qed

lemma MapBackingMemory_errors:
  assumes "host_layout H" "vm_inv H cached vm" "\<not> is_locked vm" "CITRA_PAGE_SIZE dvd target"
    "CITRA_PAGE_SIZE dvd sz" "0 < sz" "target + sz < 4294967296" "ref_covers H mem sz"
  shows "MAX_ADDRESS \<le> target \<Longrightarrow> MapBackingMemory cached target mem sz state vm = Err vm ResultInvalidAddress"
    "target < MAX_ADDRESS \<Longrightarrow> \<not> free_range vm target sz \<Longrightarrow>
      MapBackingMemory cached target mem sz state vm = Err vm ResultInvalidAddressState"
  using CarveVMA_errors [OF assms(2,4,5,6,7)] assms(3) ref_covers_nonnull [OF assms(1,8)]
  by (simp_all add: MapBackingMemory_def)

text \<open>
  Property (C1): \<^verbatim>\<open>MapBackingMemory\<close>, on every aligned nonempty request against a well-formed address space: an
  address beyond the managed space gives \<^verbatim>\<open>ResultInvalidAddress\<close>; a range that is not entirely free gives
  \<^verbatim>\<open>ResultInvalidAddressState\<close>; both change nothing. Otherwise it succeeds, and the address space afterwards
  is well formed, page table included, and differs from the old one exactly on the range, which now has
  read-write permissions, the requested state and the host addresses of the memory.
\<close>

theorem MapBackingMemory_spec:
  assumes "host_layout H" and "vm_inv H cached vm" and "\<not> is_locked vm"
    and "CITRA_PAGE_SIZE dvd target" and "CITRA_PAGE_SIZE dvd sz" and "0 < sz" and "target + sz < 4294967296"
    and "ref_covers H mem sz"
  shows "if target \<ge> MAX_ADDRESS then MapBackingMemory cached target mem sz state vm = Err vm ResultInvalidAddress
    else if \<not> free_range vm target sz
    then MapBackingMemory cached target mem sz state vm = Err vm ResultInvalidAddressState
    else \<exists>vm' i. MapBackingMemory cached target mem sz state vm = Ok vm' i \<and> vm_inv H cached vm' \<and>
      contents vm' = (\<lambda>a. if target \<le> a \<and> a < target + sz
        then Some (BackingMemory, PermReadWrite, state, GetPtr mem + (a - target)) else contents vm a)"
proof -
  note err = MapBackingMemory_errors [OF assms]
  show ?thesis
  proof (cases "target \<ge> MAX_ADDRESS \<or> \<not> free_range vm target sz")
    case True
    with err show ?thesis by (auto simp: linorder_not_le)
  next
    case False
    then have free: "free_range vm target sz" by simp
    obtain vm' i where "MapBackingMemory cached target mem sz state vm = Ok vm' i" "vm_inv H cached vm'"
      "\<not> is_locked vm'" "contents vm' = (\<lambda>a. if target \<le> a \<and> a < target + sz
        then Some (BackingMemory, PermReadWrite, state, GetPtr mem + (a - target)) else contents vm a)"
      by (rule MapBackingMemory_free [OF assms(1-6,8) free])
    with False show ?thesis by auto
  qed
qed

theorem MapBackingMemory_spec_witness:
  "if (0x100000 :: nat) \<ge> MAX_ADDRESS
    then MapBackingMemory no_cache 0x100000 sample_ref 0x3000 StPrivate fresh_vm = Err fresh_vm ResultInvalidAddress
    else if \<not> free_range fresh_vm 0x100000 0x3000
    then MapBackingMemory no_cache 0x100000 sample_ref 0x3000 StPrivate fresh_vm = Err fresh_vm ResultInvalidAddressState
    else \<exists>vm' i. MapBackingMemory no_cache 0x100000 sample_ref 0x3000 StPrivate fresh_vm = Ok vm' i \<and>
      vm_inv {sample_fcram} no_cache vm' \<and>
      contents vm' = (\<lambda>a. if 0x100000 \<le> a \<and> a < 0x100000 + 0x3000
        then Some (BackingMemory, PermReadWrite, StPrivate, GetPtr sample_ref + (a - 0x100000)) else contents fresh_vm a)"
  by (rule MapBackingMemory_spec [OF sample_layout(1) fresh_vm_facts(1,2)])
    (simp_all add: sample_layout CITRA_PAGE_SIZE_def)

lemma UnmapRange_effect:
  assumes hl: "host_layout H" and inv: "vm_inv H cached vm" and unl: "\<not> is_locked vm"
    and al: "CITRA_PAGE_SIZE dvd target" "CITRA_PAGE_SIZE dvd sz" and rng: "0 < sz" "target + sz \<le> MAX_ADDRESS"
  shows "if no_free_in vm target sz
    then \<exists>vm'. UnmapRange cached target sz vm = Ok vm' () \<and> vm_inv H cached vm' \<and> \<not> is_locked vm' \<and>
      contents vm' = (\<lambda>a. if target \<le> a \<and> a < target + sz then Some (VMAFree, PermNone, StFree, 0) else contents vm a)
    else UnmapRange cached target sz vm = Err vm ResultInvalidAddressState"
proof (cases "no_free_in vm target sz")
  case False
  with CarveVMARange_free [OF inv al rng] unl show ?thesis by (simp add: UnmapRange_def)
next
  case True
  have op: "Unmap cached i vm' = change_vma cached (\<lambda>v. v\<lparr>vtype := VMAFree, vperms := PermNone,
      vstate := StFree, vbacking := null_ref\<rparr>) i vm'" if "is_locked vm' = is_locked vm" for i vm'
    using that unl by (simp add: Unmap_def)
  obtain vm1 i vm' where c: "CarveVMARange target sz vm = Ok vm1 i"
    "range_loop (Unmap cached) (loop_fuel vm1) (add32 target sz) i vm1 = Ok vm' ()"
    "vm_inv H cached vm'" "is_locked vm' = is_locked vm"
    "contents vm' = (\<lambda>a. if target \<le> a \<and> a < target + sz
       then map_option (\<lambda>_. (VMAFree, PermNone, StFree, 0)) (contents vm a) else contents vm a)"
    by (rule carve_and_loop [OF hl inv uniform_unmap al rng True op])
  have dom: "contents vm a \<noteq> None" if "a < MAX_ADDRESS" for a
    using covers_inside [OF tiles_covers [OF vm_inv_tiles [OF inv]], of a] that by (auto simp: attr_map_None_iff)
  have con: "contents vm' = (\<lambda>a. if target \<le> a \<and> a < target + sz
      then Some (VMAFree, PermNone, StFree, 0) else contents vm a)"
    using dom rng(2) by (auto simp: c(5) fun_eq_iff)
  then have "free_range vm' target sz" by (simp add: free_range_def type_at_def)
  moreover obtain xs v ys where v: "vma_map vm' = xs @ v # ys" "inside target v" "FindVMA (vma_map vm') target = length xs"
    using FindVMA_obtain [OF tiles_covers [OF vm_inv_tiles [OF c(3)]], of target] rng by auto
  ultimately have "target + sz \<le> vend v" using free_range_one_area [OF c(3) v(1,2) _ rng(1)] by blast
  then have "sz \<le> vsize v" using v(2) by (auto simp: inside_def vend_def)
  then have "UnmapRange cached target sz vm = Ok vm' ()" using unl c(1,2) v(1,3) by (simp add: UnmapRange_def)
  with True con c(3,4) unl show ?thesis by simp
qed

text \<open>
  Property (C2): \<^verbatim>\<open>UnmapRange\<close> on an aligned nonempty range inside the managed space: when the range contains free
  addresses it returns \<^verbatim>\<open>ResultInvalidAddressState\<close> and changes nothing; otherwise it succeeds without
  hitting any of its assertions, and exactly the range becomes free.
\<close>

theorem UnmapRange_spec:
  assumes hl: "host_layout H" and inv: "vm_inv H cached vm" and unl: "\<not> is_locked vm"
    and al: "CITRA_PAGE_SIZE dvd target" "CITRA_PAGE_SIZE dvd sz" and rng: "0 < sz" "target + sz \<le> MAX_ADDRESS"
  shows "if no_free_in vm target sz
    then \<exists>vm'. UnmapRange cached target sz vm = Ok vm' () \<and> vm_inv H cached vm' \<and> \<not> is_locked vm' \<and>
      contents vm' = (\<lambda>a. if target \<le> a \<and> a < target + sz then Some (VMAFree, PermNone, StFree, 0) else contents vm a)
    else UnmapRange cached target sz vm = Err vm ResultInvalidAddressState"
  by (rule UnmapRange_effect [OF assms])

theorem UnmapRange_spec_witness:
  "\<exists>vm vm'. no_free_in vm 0x101000 0x1000 \<and> UnmapRange no_cache 0x101000 0x1000 vm = Ok vm' () \<and>
     contents vm' = (\<lambda>a. if 0x101000 \<le> a \<and> a < 0x101000 + 0x1000
       then Some (VMAFree, PermNone, StFree, 0) else contents vm a)"
proof -
  obtain vm where vm: "vm_inv {sample_fcram} no_cache vm" "\<not> is_locked vm" "no_free_in vm 0x100000 0x3000"
    by (rule sample_vm)
  then have n: "no_free_in vm 0x101000 0x1000" by (simp add: no_free_in_def)
  with UnmapRange_spec [where target = "0x101000" and sz = "0x1000", OF sample_layout(1) vm(1,2)] show ?thesis
    by (auto simp: CITRA_PAGE_SIZE_def MAX_ADDRESS_def)
qed

text \<open>
  Property: \<^verbatim>\<open>ReprotectRange\<close> on an aligned nonempty range: when the range contains free addresses it
  returns \<^verbatim>\<open>ResultInvalidAddressState\<close> and changes nothing; otherwise it succeeds and exactly the
  permissions of the range change.
\<close>

theorem ReprotectRange_spec:
  assumes hl: "host_layout H" and inv: "vm_inv H cached vm" and unl: "\<not> is_locked vm"
    and al: "CITRA_PAGE_SIZE dvd target" "CITRA_PAGE_SIZE dvd sz" and rng: "0 < sz" "target + sz \<le> MAX_ADDRESS"
  shows "if no_free_in vm target sz
    then \<exists>vm'. ReprotectRange cached target sz new_perms vm = Ok vm' () \<and> vm_inv H cached vm' \<and>
      contents vm' = (\<lambda>a. if target \<le> a \<and> a < target + sz
        then map_option (\<lambda>(t, _, s, h). (t, new_perms, s, h)) (contents vm a) else contents vm a)
    else ReprotectRange cached target sz new_perms vm = Err vm ResultInvalidAddressState"
proof (cases "no_free_in vm target sz")
  case False
  with CarveVMARange_free [OF inv al rng] unl show ?thesis by (simp add: ReprotectRange_def)
next
  case True
  have op: "Reprotect cached new_perms i vm' = change_vma cached (\<lambda>v. v\<lparr>vperms := new_perms\<rparr>) i vm'"
    if "is_locked vm' = is_locked vm" for i vm' using that unl by (simp add: Reprotect_def)
  obtain vm1 i vm' where c: "CarveVMARange target sz vm = Ok vm1 i"
    "range_loop (Reprotect cached new_perms) (loop_fuel vm1) (add32 target sz) i vm1 = Ok vm' ()"
    "vm_inv H cached vm'" "is_locked vm' = is_locked vm"
    "contents vm' = (\<lambda>a. if target \<le> a \<and> a < target + sz
       then map_option (\<lambda>(t, _, s, h). (t, new_perms, s, h)) (contents vm a) else contents vm a)"
    by (rule carve_and_loop [OF hl inv uniform_reprotect al rng True op])
  then have "ReprotectRange cached target sz new_perms vm = Ok vm' ()" using unl by (simp add: ReprotectRange_def)
  with True c(3,5) show ?thesis by auto
qed

theorem ReprotectRange_spec_witness:
  "\<exists>vm vm'. no_free_in vm 0x101000 0x1000 \<and> ReprotectRange no_cache 0x101000 0x1000 PermRead vm = Ok vm' () \<and>
     contents vm' = (\<lambda>a. if 0x101000 \<le> a \<and> a < 0x101000 + 0x1000
       then map_option (\<lambda>(t, _, s, h). (t, PermRead, s, h)) (contents vm a) else contents vm a)"
proof -
  obtain vm where vm: "vm_inv {sample_fcram} no_cache vm" "\<not> is_locked vm" "no_free_in vm 0x100000 0x3000"
    by (rule sample_vm)
  then have n: "no_free_in vm 0x101000 0x1000" by (simp add: no_free_in_def)
  with ReprotectRange_spec [where target = "0x101000" and sz = "0x1000" and new_perms = PermRead, OF sample_layout(1) vm(1,2)] show ?thesis
    by (auto simp: CITRA_PAGE_SIZE_def MAX_ADDRESS_def)
qed

lemma ChangeMemoryState_effect:
  assumes hl: "host_layout H" and inv: "vm_inv H cached vm" and unl: "\<not> is_locked vm"
    and al: "CITRA_PAGE_SIZE dvd target" "CITRA_PAGE_SIZE dvd sz" and rng: "0 < sz" "target + sz \<le> MAX_ADDRESS"
  shows "if no_free_in vm target sz \<and> (\<forall>a. target \<le> a \<and> a < target + sz \<longrightarrow>
        (\<exists>t p s h. contents vm a = Some (t, p, s, h) \<and> s = es \<and> p AND ep = ep))
    then \<exists>vm'. ChangeMemoryState cached target sz es ep ns np vm = Ok vm' () \<and> vm_inv H cached vm' \<and> \<not> is_locked vm' \<and>
      contents vm' = (\<lambda>a. if target \<le> a \<and> a < target + sz
        then map_option (\<lambda>(t, _, _, h). (t, np, ns, h)) (contents vm a) else contents vm a)
    else ChangeMemoryState cached target sz es ep ns np vm = Err vm ResultInvalidAddressState"
proof -
  have e: "add32 target sz = target + sz" using rng by (simp add: add32_small MAX_ADDRESS_def)
  have "FindVMA (vma_map vm) target \<noteq> length (vma_map vm)"
    using FindVMA_obtain [OF tiles_covers [OF vm_inv_tiles [OF inv]], of target] rng by fastforce
  then have def: "ChangeMemoryState cached target sz es ep ns np vm =
      unlessO (\<forall>v \<in> set (range_areas (vma_map vm) target (target + sz)). vstate v = es \<and> vperms v AND ep = ep)
        vm ResultInvalidAddressState
        (bindO (CarveVMARange target sz vm)
           (\<lambda>vm1 i. range_loop (change_vma cached (\<lambda>v. v\<lparr>vperms := np, vstate := ns\<rparr>))
                       (loop_fuel vm1) (add32 target sz) i vm1))"
    using unl by (simp add: ChangeMemoryState_def e range_areas_def Let_def)
  have chk: "(\<forall>v \<in> set (range_areas (vma_map vm) target (target + sz)). vstate v = es \<and> vperms v AND ep = ep) \<longleftrightarrow>
      (\<forall>a. target \<le> a \<and> a < target + sz \<longrightarrow>
        (\<exists>t p s h. contents vm a = Some (t, p, s, h) \<and> s = es \<and> p AND ep = ep))"
    by (rule range_contents [OF vm_inv_tiles [OF inv] rng, of "\<lambda>p s. s = es \<and> p AND ep = ep"])
  show ?thesis
  proof (cases "no_free_in vm target sz")
    case False
    with CarveVMARange_free [OF inv al rng] show ?thesis by (auto simp: def unlessO_def)
  next
    case True
    obtain vm1 i vm' where c: "CarveVMARange target sz vm = Ok vm1 i"
      "range_loop (change_vma cached (\<lambda>v. v\<lparr>vperms := np, vstate := ns\<rparr>)) (loop_fuel vm1) (add32 target sz) i vm1 = Ok vm' ()"
      "vm_inv H cached vm'" "is_locked vm' = is_locked vm"
      "contents vm' = (\<lambda>a. if target \<le> a \<and> a < target + sz
         then map_option (\<lambda>(t, _, _, h). (t, np, ns, h)) (contents vm a) else contents vm a)"
      by (rule carve_and_loop [OF hl inv uniform_change_state al rng True]) simp
    then show ?thesis using True unl unfolding def chk by (auto simp: unlessO_def)
  qed
qed

text \<open>
  Property (C18): \<^verbatim>\<open>ChangeMemoryState\<close> on an aligned nonempty range of an unlocked address space succeeds exactly
  when the whole range is backed and every address has the expected state and at least the expected
  permissions; it then sets the new state and permissions on exactly that range. In every other case it
  returns \<^verbatim>\<open>ResultInvalidAddressState\<close> and changes nothing.
\<close>

theorem ChangeMemoryState_spec:
  assumes hl: "host_layout H" and inv: "vm_inv H cached vm" and unl: "\<not> is_locked vm"
    and al: "CITRA_PAGE_SIZE dvd target" "CITRA_PAGE_SIZE dvd sz" and rng: "0 < sz" "target + sz \<le> MAX_ADDRESS"
  shows "if no_free_in vm target sz \<and> (\<forall>a. target \<le> a \<and> a < target + sz \<longrightarrow>
        (\<exists>t p s h. contents vm a = Some (t, p, s, h) \<and> s = es \<and> p AND ep = ep))
    then \<exists>vm'. ChangeMemoryState cached target sz es ep ns np vm = Ok vm' () \<and> vm_inv H cached vm' \<and> \<not> is_locked vm' \<and>
      contents vm' = (\<lambda>a. if target \<le> a \<and> a < target + sz
        then map_option (\<lambda>(t, _, _, h). (t, np, ns, h)) (contents vm a) else contents vm a)
    else ChangeMemoryState cached target sz es ep ns np vm = Err vm ResultInvalidAddressState"
  by (rule ChangeMemoryState_effect [OF assms])

theorem ChangeMemoryState_spec_witness:
  "\<exists>vm vm'. ChangeMemoryState no_cache 0x101000 0x1000 StPrivate PermRead StLocked PermNone vm = Ok vm' () \<and>
     contents vm' = (\<lambda>a. if 0x101000 \<le> a \<and> a < 0x101000 + 0x1000
       then map_option (\<lambda>(t, _, _, h). (t, PermNone, StLocked, h)) (contents vm a) else contents vm a)"
proof -
  obtain vm where vm: "vm_inv {sample_fcram} no_cache vm" "\<not> is_locked vm" "no_free_in vm 0x100000 0x3000"
    "\<forall>a. 0x100000 \<le> a \<and> a < 0x103000 \<longrightarrow>
      contents vm a = Some (BackingMemory, PermReadWrite, StPrivate, GetPtr sample_ref + (a - 0x100000))"
    by (rule sample_vm)
  have "no_free_in vm 0x101000 0x1000" using vm(3) by (simp add: no_free_in_def)
  moreover have "PermReadWrite AND PermRead = PermRead" by (simp add: PermReadWrite_def PermRead_def)
  ultimately show ?thesis
    using ChangeMemoryState_spec [where target = "0x101000" and sz = "0x1000" and es = StPrivate and ep = PermRead
        and ns = StLocked and np = PermNone, OF sample_layout(1) vm(1,2)] vm(4)
    by (auto simp: CITRA_PAGE_SIZE_def MAX_ADDRESS_def)
qed

lemma GetBackingBlocksForRange_effect:
  assumes inv: "vm_inv H cached vm" and rng: "0 < sz" "address + sz \<le> MAX_ADDRESS"
  shows "if no_free_in vm address sz
    then \<exists>bs. GetBackingBlocksForRange address sz vm = Ok () bs \<and> expand bs = map (host_ptr vm) [address..<address + sz]
    else GetBackingBlocksForRange address sz vm = Err () ResultInvalidAddressState"
proof -
  note t = vm_inv_tiles [OF inv]
  have "address < MAX_ADDRESS" using rng by simp
  with FindVMA_obtain [OF tiles_covers [OF t]] obtain xs v ys
    where v: "vma_map vm = xs @ v # ys" "inside address v" by blast
  have nf: "no_free_in vm address sz \<longleftrightarrow>
      (\<forall>x. address \<le> x \<and> x < address + sz \<longrightarrow> type_at vm x = Some BackingMemory)"
  proof -
    have "type_at vm x = Some VMAFree \<or> type_at vm x = Some BackingMemory" if "x < address + sz" for x
      using covers_inside [OF tiles_covers [OF t], of x] type_at_in [OF t] that rng(2) vma_type.exhaust
      by (metis le0 less_le_trans)
    then show ?thesis by (fastforce simp: no_free_in_def)
  qed
  have e: "add32 address sz = address + sz" using rng by (simp add: add32_small MAX_ADDRESS_def)
  have "length ys + 2 \<le> loop_fuel vm" using v(1) by (simp add: loop_fuel_def)
  from backing_blocks_loop_spec [OF t rng(2) v _ this, of "[]"] rng(1) show ?thesis
    unfolding GetBackingBlocksForRange_def e nf by (simp cong: if_cong)
qed

text \<open>
  Property: \<^verbatim>\<open>GetBackingBlocksForRange\<close> on a nonempty range inside the managed space always returns. When every
  address of the range is backed, the blocks it returns, laid end to end, are exactly the host addresses of
  the range in order; otherwise it returns \<^verbatim>\<open>ResultInvalidAddressState\<close>.
\<close>

theorem GetBackingBlocksForRange_spec:
  assumes inv: "vm_inv H cached vm" and rng: "0 < sz" "address + sz \<le> MAX_ADDRESS"
  shows "if no_free_in vm address sz
    then \<exists>bs. GetBackingBlocksForRange address sz vm = Ok () bs \<and> expand bs = map (host_ptr vm) [address..<address + sz]
    else GetBackingBlocksForRange address sz vm = Err () ResultInvalidAddressState"
  by (rule GetBackingBlocksForRange_effect [OF assms])

theorem GetBackingBlocksForRange_spec_witness:
  "\<exists>vm bs. GetBackingBlocksForRange 0x100800 0x1000 vm = Ok () bs \<and>
     expand bs = map (host_ptr vm) [0x100800..<0x100800 + 0x1000]"
proof -
  obtain vm where vm: "vm_inv {sample_fcram} no_cache vm" "\<not> is_locked vm" "no_free_in vm 0x100000 0x3000"
    by (rule sample_vm)
  then have n: "no_free_in vm 0x100800 0x1000" by (simp add: no_free_in_def)
  have "(0::nat) < 0x1000" "0x100800 + 0x1000 \<le> MAX_ADDRESS" by (simp_all add: MAX_ADDRESS_def)
  from GetBackingBlocksForRange_spec [OF vm(1) this] show ?thesis unfolding if_P [OF n] by (rule exI)
qed

text \<open>Concrete areas for the two examples below.\<close>

definition sample_area :: "nat \<Rightarrow> nat \<Rightarrow> u8 \<Rightarrow> vma" where
  "sample_area b n p = \<lparr>vbase = b, vsize = n, vtype = BackingMemory, vperms = p, vstate = StPrivate,
     vbacking = \<lparr>mr_backing = Some sample_fcram, mr_offset = b\<rparr>\<rparr>"

definition free_area :: "nat \<Rightarrow> nat \<Rightarrow> vma" where
  "free_area b n = \<lparr>vbase = b, vsize = n, vtype = VMAFree, vperms = PermNone, vstate = StFree,
     vbacking = null_ref\<rparr>"

definition sample_map :: "vma list" where
  "sample_map = [free_area 0 0x100000, sample_area 0x100000 0x1000 PermRead,
     sample_area 0x101000 0x2000 PermReadWrite, free_area 0x103000 0x3FEFD000]"

definition holed_map :: "vma list" where
  "holed_map = [free_area 0 0x100000, sample_area 0x100000 0x1000 PermReadWrite, free_area 0x101000 0x1000,
     sample_area 0x102000 0x1000 PermReadWrite, free_area 0x103000 0x3FEFD000]"

lemmas vm_eval = MAX_ADDRESS_def CITRA_PAGE_SIZE_def PAGE_TABLE_NUM_ENTRIES_def add32_def sub32_def FindVMA_def
  upper_bound_def lower_bound_def Let_def GetSize_def GetPtr_def ref_add_def SplitVMA_def CanBeMergedWith_def
  loop_fuel_def change_vma_def UpdatePageTableForVMA_def MapMemoryRegion_def MergeAdjacent_def merge_next_def
  merge_prev_def

lemmas sample_defs = sample_area_def free_area_def sample_fcram_def PermReadWrite_def PermRead_def PermNone_def

text \<open>
  Property: \<^verbatim>\<open>ReprotectRange\<close> does not keep the documented rule that mergeable regions are always merged. On
  an address space that satisfies it, reprotecting a range whose second half already has the new permissions
  leaves two neighbouring areas with equal attributes and contiguous memory: the first area swallows the
  second half, and the piece split off behind the range is never looked at again.
\<close>

theorem ReprotectRange_leaves_mergeable:
  "\<exists>pt'. successively (\<lambda>v w. \<not> mergeable v w) sample_map \<and> covers 0 sample_map MAX_ADDRESS \<and>
     ReprotectRange no_cache 0x100000 0x2000 PermReadWrite
       \<lparr>vma_map = sample_map, vm_page_table = pt, is_locked = False\<rparr> =
     Ok \<lparr>vma_map = [free_area 0 0x100000, sample_area 0x100000 0x2000 PermReadWrite,
            sample_area 0x102000 0x1000 PermReadWrite, free_area 0x103000 0x3FEFD000],
          vm_page_table = pt', is_locked = False\<rparr> () \<and>
     mergeable (sample_area 0x100000 0x2000 PermReadWrite) (sample_area 0x102000 0x1000 PermReadWrite)"
  by (simp add: sample_map_def sample_defs mergeable_def ReprotectRange_def CarveVMARange_def Reprotect_def vm_eval)

text \<open>
  Property: \<^verbatim>\<open>MapBackingMemoryToBase\<close> does not find every free address: it settles for the first free area that
  ends late enough, even when that area is too small, and then fails with \<^verbatim>\<open>ResultInvalidAddressState\<close>
  although a later area inside the region could take the request.
\<close>

theorem MapBackingMemoryToBase_small_hole:
  "let vm = \<lparr>vma_map = holed_map, vm_page_table = pt, is_locked = False\<rparr> in
   MapBackingMemoryToBase no_cache 0x100000 0x100000 sample_ref 0x2000 StShared vm = Err vm ResultInvalidAddressState \<and>
   free_range vm 0x103000 0x2000"
proof -
  let ?vm = "\<lparr>vma_map = holed_map, vm_page_table = pt, is_locked = False\<rparr>"
  have find: "FindVMA holed_map 0x101000 = 2"
    by (simp add: holed_map_def free_area_def sample_area_def FindVMA_def upper_bound_def MAX_ADDRESS_def)
  have area: "holed_map ! 2 = free_area 0x101000 0x1000" "length holed_map = 5" by (simp_all add: holed_map_def)
  have "CarveVMA 0x101000 0x2000 ?vm = Err ?vm ResultInvalidAddressState"
    by (simp add: CarveVMA_def find area CITRA_PAGE_SIZE_def) (simp add: free_area_def add32_def sub32_def)
  then have "MapBackingMemory no_cache 0x101000 sample_ref 0x2000 StShared ?vm = Err ?vm ResultInvalidAddressState"
    by (simp add: MapBackingMemory_def sample_ref_def GetPtr_def sample_fcram_def)
  moreover have "List.find (fits_at 0x100000 0x2000) holed_map = Some (free_area 0x101000 0x1000)"
    by (simp add: holed_map_def fits_at_def free_area_def sample_area_def add32_def)
  ultimately have "MapBackingMemoryToBase no_cache 0x100000 0x100000 sample_ref 0x2000 StShared ?vm
      = Err ?vm ResultInvalidAddressState"
    by (simp add: MapBackingMemoryToBase_def) (simp add: free_area_def add32_def)
  moreover have "free_range ?vm 0x103000 0x2000"
  proof -
    have c: "covers 0 holed_map MAX_ADDRESS"
      by (simp add: holed_map_def sample_area_def free_area_def MAX_ADDRESS_def)
    have m: "free_area 0x103000 0x3FEFD000 \<in> set holed_map" by (simp add: holed_map_def)
    show ?thesis
      using attr_map_in [OF c m] by (auto simp: free_range_def type_at_def inside_def vend_def free_area_def vattr_def)
  qed
  ultimately show ?thesis by (simp add: Let_def)
qed

text \<open>
  Property: When \<^verbatim>\<open>MapBackingMemoryToBase\<close> succeeds, the address it returns lies in the region that was asked
  for, and the memory is mapped there and nowhere else.
\<close>

theorem MapBackingMemoryToBase_ok:
  assumes "host_layout H" and "vm_inv H cached vm" and "ref_covers H mem sz"
    and "CITRA_PAGE_SIZE dvd base" and "CITRA_PAGE_SIZE dvd sz" and "0 < sz"
    and "sz < 0x80000000" and "base + region_size < 4294967296"
    and "MapBackingMemoryToBase cached base region_size mem sz state vm = Ok vm' target"
  shows "base \<le> target \<and> target + sz \<le> base + region_size \<and> free_range vm target sz \<and> vm_inv H cached vm' \<and>
    contents vm' = (\<lambda>a. if target \<le> a \<and> a < target + sz
      then Some (BackingMemory, PermReadWrite, state, GetPtr mem + (a - target)) else contents vm a)"
proof -
  note t = vm_inv_tiles [OF assms(2)]
  from assms(9) obtain v i where v: "List.find (fits_at base sz) (vma_map vm) = Some v" "target = max base (vbase v)"
    and unl: "\<not> is_locked vm" and fit: "\<not> add32 target sz > add32 base region_size"
    and map: "MapBackingMemory cached target mem sz state vm = Ok vm' i"
    by (auto simp: MapBackingMemoryToBase_def Let_def split: option.splits)
  from v(1) have mem: "v \<in> set (vma_map vm)" and fits: "fits_at base sz v" by (auto simp: find_Some_iff)
  have vm: "vend v \<le> MAX_ADDRESS" "vbase v < MAX_ADDRESS"
    using covers_mem [OF tiles_covers [OF t] mem] by (auto simp: vend_def)
  then have "add32 (vbase v) (vsize v) = vend v" by (auto simp: vend_def add32_small MAX_ADDRESS_def)
  with fits vm(1) have "base < MAX_ADDRESS" by (simp add: fits_at_def Let_def)
  then have tgt: "target < MAX_ADDRESS" using v(2) vm(2) by simp
  have sums: "target + sz < 4294967296" using tgt assms(7) by (simp add: MAX_ADDRESS_def)
  have al: "CITRA_PAGE_SIZE dvd target" using v(2) assms(4) tiles_aligned [OF t mem] by (simp add: max_def)
  have free: "free_range vm target sz"
    using MapBackingMemory_errors(2) [OF assms(1,2) unl al assms(5,6) sums assms(3) tgt, of state] map by fastforce
  obtain vm2 j where "MapBackingMemory cached target mem sz state vm = Ok vm2 j" "vm_inv H cached vm2"
    "\<not> is_locked vm2" "contents vm2 = (\<lambda>a. if target \<le> a \<and> a < target + sz
      then Some (BackingMemory, PermReadWrite, state, GetPtr mem + (a - target)) else contents vm a)"
    by (rule MapBackingMemory_free [OF assms(1,2) unl al assms(5,6,3) free])
  with map have "vm_inv H cached vm'" "contents vm' = (\<lambda>a. if target \<le> a \<and> a < target + sz
      then Some (BackingMemory, PermReadWrite, state, GetPtr mem + (a - target)) else contents vm a)"
    by auto
  moreover have "target + sz \<le> base + region_size" using fit sums assms(8) by (simp add: add32_small)
  ultimately show ?thesis using v(2) free by simp
qed

theorem MapBackingMemoryToBase_ok_witness:
  "\<exists>vm' target. MapBackingMemoryToBase no_cache 0x100000 0x100000 sample_ref 0x3000 StShared fresh_vm = Ok vm' target \<and>
     0x100000 \<le> target \<and> target + 0x3000 \<le> 0x100000 + 0x100000"
proof -
  obtain vm' i where m: "MapBackingMemory no_cache 0x100000 sample_ref 0x3000 StShared fresh_vm = Ok vm' i"
    by (rule MapBackingMemory_free [where target = "0x100000" and sz = "0x3000" and mem = sample_ref and
          state = StShared, OF sample_layout(1) fresh_vm_facts(1,2)])
      (simp_all add: sample_layout fresh_vm_facts CITRA_PAGE_SIZE_def MAX_ADDRESS_def)
  have b: "MapBackingMemoryToBase no_cache 0x100000 0x100000 sample_ref 0x3000 StShared fresh_vm = Ok vm' 0x100000"
    using m by (simp add: MapBackingMemoryToBase_def fresh_vm_def initial_vma_def fits_at_def add32_def MAX_ADDRESS_def)
  with MapBackingMemoryToBase_ok [OF sample_layout(1) fresh_vm_facts(1) sample_layout(2) _ _ _ _ _ b]
  show ?thesis by (auto simp: CITRA_PAGE_SIZE_def)
qed

end
