(* ===== verification/Memory_System.thy ===== *)
theory Memory_System
  imports VM_Manager "HOL-Library.Monad_Syntax"
begin

text \<open>
  \<^verbatim>\<open>Memory::MemorySystem\<close> (\<^verbatim>\<open>src/core/memory.h\<close> and \<^verbatim>\<open>memory.cpp\<close>): guest memory accesses through a page
  table, block copies, physical addresses, the rasterizer cache marks and debugger watchpoints.

  The host's memory is a function from host addresses to bytes. The rasterizer is not part of the model:
  \<open>gpu mode start size\<close> is what flushing or invalidating a physical range does to host memory, an
  argument of every access that can trigger it, and \<open>gpu_reg\<close> reads a GPU register. Logging, the
  debugger's breakpoints and the error status set on unmapped accesses are left out. A value of \<open>n\<close> bytes is
  the little-endian list of its bytes.

  The byte-level reference is \<open>byte_ptr\<close>: the host address behind a virtual address. The block operations,
  which work page by page, are shown to agree with it byte by byte.
\<close>

section \<open>Definitions\<close>

definition IO_AREA_PADDR :: nat where "IO_AREA_PADDR = 0x10100000"
definition VRAM_PADDR :: nat where "VRAM_PADDR = 0x18000000"
definition VRAM_SIZE :: nat where "VRAM_SIZE = 0x00600000"
definition N3DS_EXTRA_RAM_PADDR :: nat where "N3DS_EXTRA_RAM_PADDR = 0x1F000000"
definition N3DS_EXTRA_RAM_SIZE :: nat where "N3DS_EXTRA_RAM_SIZE = 0x00400000"
definition DSP_RAM_PADDR :: nat where "DSP_RAM_PADDR = 0x1FF00000"
definition DSP_RAM_SIZE :: nat where "DSP_RAM_SIZE = 0x00080000"
definition FCRAM_PADDR :: nat where "FCRAM_PADDR = 0x20000000"
definition FCRAM_SIZE :: nat where "FCRAM_SIZE = 0x08000000"
definition FCRAM_N3DS_SIZE :: nat where "FCRAM_N3DS_SIZE = 0x10000000"
definition LINEAR_HEAP_VADDR :: nat where "LINEAR_HEAP_VADDR = 0x14000000"
definition LINEAR_HEAP_SIZE :: nat where "LINEAR_HEAP_SIZE = 0x08000000"
definition VRAM_VADDR :: nat where "VRAM_VADDR = 0x1F000000"
definition NEW_LINEAR_HEAP_VADDR :: nat where "NEW_LINEAR_HEAP_VADDR = 0x30000000"
definition NEW_LINEAR_HEAP_SIZE :: nat where "NEW_LINEAR_HEAP_SIZE = 0x10000000"
definition PLUGIN_3GX_FB_VADDR :: nat where "PLUGIN_3GX_FB_VADDR = 0x06000000"
definition PLUGIN_3GX_FB_SIZE :: nat where "PLUGIN_3GX_FB_SIZE = 0x000A9000"

lemmas region_defs = IO_AREA_PADDR_def VRAM_PADDR_def VRAM_SIZE_def N3DS_EXTRA_RAM_PADDR_def
  N3DS_EXTRA_RAM_SIZE_def DSP_RAM_PADDR_def DSP_RAM_SIZE_def FCRAM_PADDR_def FCRAM_SIZE_def FCRAM_N3DS_SIZE_def
  LINEAR_HEAP_VADDR_def LINEAR_HEAP_SIZE_def VRAM_VADDR_def NEW_LINEAR_HEAP_VADDR_def NEW_LINEAR_HEAP_SIZE_def
  PLUGIN_3GX_FB_VADDR_def PLUGIN_3GX_FB_SIZE_def

record mem_sys =
  host :: "nat \<Rightarrow> u8"
  fcram_mem :: backing_mem
  vram_mem :: backing_mem
  n3ds_extra_ram_mem :: backing_mem
  dsp_mem :: backing_mem
  plugin_fb_address :: nat
  cache_marks :: "nat \<Rightarrow> bool"

datatype flush_mode = Flush | Invalidate | FlushAndInvalidate

type_synonym gpu = "flush_mode \<Rightarrow> nat \<Rightarrow> nat \<Rightarrow> (nat \<Rightarrow> u8) \<Rightarrow> nat \<Rightarrow> u8"

text \<open>\<^verbatim>\<open>RasterizerCacheMarker\<close>: \<open>At\<close> is null outside the four regions it tracks.\<close>

definition in_region :: "nat \<Rightarrow> nat \<Rightarrow> nat \<Rightarrow> bool" where
  "in_region base sz a \<longleftrightarrow> base \<le> a \<and> a < base + sz"

definition marker_tracks :: "nat \<Rightarrow> bool" where
  "marker_tracks a \<longleftrightarrow> in_region VRAM_VADDR VRAM_SIZE a \<or> in_region LINEAR_HEAP_VADDR LINEAR_HEAP_SIZE a \<or>
     in_region NEW_LINEAR_HEAP_VADDR NEW_LINEAR_HEAP_SIZE a \<or> in_region PLUGIN_3GX_FB_VADDR PLUGIN_3GX_FB_SIZE a"

definition MarkCached :: "nat \<Rightarrow> bool \<Rightarrow> mem_sys \<Rightarrow> mem_sys" where
  "MarkCached a cached ms =
     (if marker_tracks a then ms\<lparr>cache_marks := (cache_marks ms)(a div CITRA_PAGE_SIZE := cached)\<rparr> else ms)"

definition IsCached :: "mem_sys \<Rightarrow> nat \<Rightarrow> bool" where
  "IsCached ms a \<longleftrightarrow> marker_tracks a \<and> cache_marks ms (a div CITRA_PAGE_SIZE)"

text \<open>The marker as the predicate on page numbers that the mapping operations take.\<close>

definition cached_pages :: "mem_sys \<Rightarrow> nat \<Rightarrow> bool" where
  "cached_pages ms p \<longleftrightarrow> IsCached ms (p * CITRA_PAGE_SIZE)"

definition GetPointerForRasterizerCache :: "mem_sys \<Rightarrow> nat \<Rightarrow> memory_ref option" where
  "GetPointerForRasterizerCache ms a =
     (if in_region LINEAR_HEAP_VADDR LINEAR_HEAP_SIZE a
      then Some \<lparr>mr_backing = Some (fcram_mem ms), mr_offset = a - LINEAR_HEAP_VADDR\<rparr>
      else if in_region NEW_LINEAR_HEAP_VADDR NEW_LINEAR_HEAP_SIZE a
      then Some \<lparr>mr_backing = Some (fcram_mem ms), mr_offset = a - NEW_LINEAR_HEAP_VADDR\<rparr>
      else if in_region VRAM_VADDR VRAM_SIZE a
      then Some \<lparr>mr_backing = Some (vram_mem ms), mr_offset = a - VRAM_VADDR\<rparr>
      else if in_region PLUGIN_3GX_FB_VADDR PLUGIN_3GX_FB_SIZE a \<and> plugin_fb_address ms \<noteq> 0
      then Some \<lparr>mr_backing = Some (fcram_mem ms),
                 mr_offset = a - PLUGIN_3GX_FB_VADDR + plugin_fb_address ms - FCRAM_PADDR\<rparr>
      else None)"

text \<open>The lambda \<^verbatim>\<open>CheckRegion\<close> and its four calls.\<close>

definition check_region :: "gpu \<Rightarrow> flush_mode \<Rightarrow> nat \<Rightarrow> nat \<Rightarrow> nat \<Rightarrow> nat \<Rightarrow> nat \<Rightarrow> mem_sys \<Rightarrow> mem_sys" where
  "check_region gpu mode start fin region_start region_end paddr_region_start ms =
     (if start \<ge> region_end \<or> fin \<le> region_start then ms
      else let overlap_start = max start region_start; overlap_end = min fin region_end
           in ms\<lparr>host := gpu mode (paddr_region_start + (overlap_start - region_start))
                           (overlap_end - overlap_start) (host ms)\<rparr>)"

definition RasterizerFlushVirtualRegion :: "gpu \<Rightarrow> nat \<Rightarrow> nat \<Rightarrow> flush_mode \<Rightarrow> mem_sys \<Rightarrow> mem_sys" where
  "RasterizerFlushVirtualRegion gpu start sz mode ms =
     (let fin = add32 start sz;
          ms1 = check_region gpu mode start fin LINEAR_HEAP_VADDR (LINEAR_HEAP_VADDR + LINEAR_HEAP_SIZE) FCRAM_PADDR ms;
          ms2 = check_region gpu mode start fin NEW_LINEAR_HEAP_VADDR
                  (NEW_LINEAR_HEAP_VADDR + NEW_LINEAR_HEAP_SIZE) FCRAM_PADDR ms1;
          ms3 = check_region gpu mode start fin VRAM_VADDR (VRAM_VADDR + VRAM_SIZE) VRAM_PADDR ms2
      in if plugin_fb_address ms3 \<noteq> 0
         then check_region gpu mode start fin PLUGIN_3GX_FB_VADDR (PLUGIN_3GX_FB_VADDR + PLUGIN_3GX_FB_SIZE)
                (plugin_fb_address ms3) ms3
         else ms3)"

text \<open>\<^verbatim>\<open>memcpy\<close> from and to host memory.\<close>

definition host_read :: "mem_sys \<Rightarrow> nat \<Rightarrow> nat \<Rightarrow> u8 list" where
  "host_read ms p n = map (\<lambda>k. host ms (p + k)) [0..<n]"

fun put_bytes :: "(nat \<Rightarrow> u8) \<Rightarrow> nat \<Rightarrow> u8 list \<Rightarrow> nat \<Rightarrow> u8" where
  "put_bytes h p [] = h"
| "put_bytes h p (b # bs) = put_bytes (h(p := b)) (p + 1) bs"

definition host_write :: "nat \<Rightarrow> u8 list \<Rightarrow> mem_sys \<Rightarrow> mem_sys" where
  "host_write p bs ms = ms\<lparr>host := put_bytes (host ms) p bs\<rparr>"

text \<open>
  The \<^verbatim>\<open>switch\<close> on the type of a page, shared by the block operations: where the bytes are, and whether
  the rasterizer has to be told first. A page number beyond the table, a watchpoint page without an entry and
  a cached page outside the cacheable regions are the assertion failures of the source.
\<close>

datatype page_access = AccUnmapped | AccDirect nat | AccCached nat | AccCrash

definition page_access :: "mem_sys \<Rightarrow> page_table \<Rightarrow> nat \<Rightarrow> nat \<Rightarrow> page_access" where
  "page_access ms pt idx off =
     (if PAGE_TABLE_NUM_ENTRIES \<le> idx then AccCrash
      else case attributes pt idx of
        UnmappedPage \<Rightarrow> AccUnmapped
      | MemoryPage \<Rightarrow> AccDirect (GetPtr (pointers pt idx) + off)
      | MemoryWatchpoint \<Rightarrow>
          (case watchpoint_pages_map pt idx of
             None \<Rightarrow> AccCrash
           | Some info \<Rightarrow> AccDirect (GetPtr (wp_memory info) + off))
      | _ \<Rightarrow> (case GetPointerForRasterizerCache ms (idx * CITRA_PAGE_SIZE + off) of
                None \<Rightarrow> AccCrash
              | Some r \<Rightarrow> AccCached (GetPtr r)))"

text \<open>
  The loop that every block operation runs: a range as pieces \<open>(page, offset, length)\<close> that stay within a
  page. The offset is below the page size; the second guard only makes the definition total.
\<close>

function block_chunks :: "nat \<Rightarrow> nat \<Rightarrow> nat \<Rightarrow> (nat \<times> nat \<times> nat) list" where
  "block_chunks idx off remaining =
     (if remaining = 0 \<or> CITRA_PAGE_SIZE \<le> off then []
      else let amount = min (CITRA_PAGE_SIZE - off) remaining
           in (idx, off, amount) # block_chunks (idx + 1) 0 (remaining - amount))"
  by pat_completeness auto
termination by (relation "measure (\<lambda>(idx, off, remaining). remaining)") auto

declare block_chunks.simps [simp del]

definition chunks_of :: "nat \<Rightarrow> nat \<Rightarrow> (nat \<times> nat \<times> nat) list" where
  "chunks_of a n = block_chunks (a div CITRA_PAGE_SIZE) (a mod CITRA_PAGE_SIZE) n"

fun read_chunk :: "gpu \<Rightarrow> page_table \<Rightarrow> nat \<times> nat \<times> nat \<Rightarrow> mem_sys \<Rightarrow> (mem_sys, u8 list) outcome" where
  "read_chunk gpu pt (idx, off, amount) ms =
     (case page_access ms pt idx off of
        AccUnmapped \<Rightarrow> Ok ms (replicate amount 0)
      | AccDirect p \<Rightarrow> Ok ms (host_read ms p amount)
      | AccCached p \<Rightarrow>
          (let ms1 = RasterizerFlushVirtualRegion gpu (idx * CITRA_PAGE_SIZE + off) amount Flush ms
           in Ok ms1 (host_read ms1 p amount))
      | AccCrash \<Rightarrow> Crash)"

fun read_chunks :: "gpu \<Rightarrow> page_table \<Rightarrow> (nat \<times> nat \<times> nat) list \<Rightarrow> mem_sys \<Rightarrow> (mem_sys, u8 list) outcome" where
  "read_chunks gpu pt [] ms = Ok ms []"
| "read_chunks gpu pt (c # cs) ms =
     bindO (read_chunk gpu pt c ms) (\<lambda>ms1 bs. bindO (read_chunks gpu pt cs ms1) (\<lambda>ms2 bs'. Ok ms2 (bs @ bs')))"

definition ReadBlock :: "gpu \<Rightarrow> page_table \<Rightarrow> nat \<Rightarrow> nat \<Rightarrow> mem_sys \<Rightarrow> (mem_sys, u8 list) outcome" where
  "ReadBlock gpu pt src_addr sz ms = read_chunks gpu pt (chunks_of src_addr sz) ms"

fun write_chunk :: "gpu \<Rightarrow> page_table \<Rightarrow> nat \<times> nat \<times> nat \<Rightarrow> u8 list \<Rightarrow> mem_sys \<Rightarrow> (mem_sys, unit) outcome" where
  "write_chunk gpu pt (idx, off, amount) bs ms =
     (case page_access ms pt idx off of
        AccUnmapped \<Rightarrow> Ok ms ()
      | AccDirect p \<Rightarrow> Ok (host_write p bs ms) ()
      | AccCached p \<Rightarrow>
          (let ms1 = RasterizerFlushVirtualRegion gpu (idx * CITRA_PAGE_SIZE + off) amount Invalidate ms
           in Ok (host_write p bs ms1) ())
      | AccCrash \<Rightarrow> Crash)"

fun write_chunks :: "gpu \<Rightarrow> page_table \<Rightarrow> (nat \<times> nat \<times> nat) list \<Rightarrow> u8 list \<Rightarrow> mem_sys \<Rightarrow> (mem_sys, unit) outcome" where
  "write_chunks gpu pt [] bs ms = Ok ms ()"
| "write_chunks gpu pt (c # cs) bs ms =
     bindO (write_chunk gpu pt c (take (snd (snd c)) bs) ms)
       (\<lambda>ms1 _. write_chunks gpu pt cs (drop (snd (snd c)) bs) ms1)"

definition WriteBlock :: "gpu \<Rightarrow> page_table \<Rightarrow> nat \<Rightarrow> u8 list \<Rightarrow> mem_sys \<Rightarrow> (mem_sys, unit) outcome" where
  "WriteBlock gpu pt dest_addr bs ms = write_chunks gpu pt (chunks_of dest_addr (length bs)) bs ms"

definition ZeroBlock :: "gpu \<Rightarrow> page_table \<Rightarrow> nat \<Rightarrow> nat \<Rightarrow> mem_sys \<Rightarrow> (mem_sys, unit) outcome" where
  "ZeroBlock gpu pt dest_addr sz ms = write_chunks gpu pt (chunks_of dest_addr sz) (replicate sz 0) ms"

text \<open>\<^verbatim>\<open>CopyBlock\<close>: for each piece of the source, a \<^verbatim>\<open>WriteBlock\<close> or \<^verbatim>\<open>ZeroBlock\<close> at the moving destination.\<close>

fun copy_chunks ::
  "gpu \<Rightarrow> page_table \<Rightarrow> page_table \<Rightarrow> (nat \<times> nat \<times> nat) list \<Rightarrow> nat \<Rightarrow> mem_sys \<Rightarrow> (mem_sys, unit) outcome" where
  "copy_chunks gpu dpt spt [] dest_addr ms = Ok ms ()"
| "copy_chunks gpu dpt spt ((idx, off, amount) # cs) dest_addr ms =
     bindO
       (case page_access ms spt idx off of
          AccUnmapped \<Rightarrow> ZeroBlock gpu dpt dest_addr amount ms
        | AccDirect p \<Rightarrow> WriteBlock gpu dpt dest_addr (host_read ms p amount) ms
        | AccCached p \<Rightarrow>
            (let ms1 = RasterizerFlushVirtualRegion gpu (idx * CITRA_PAGE_SIZE + off) amount Flush ms
             in WriteBlock gpu dpt dest_addr (host_read ms1 p amount) ms1)
        | AccCrash \<Rightarrow> Crash)
       (\<lambda>ms1 _. copy_chunks gpu dpt spt cs (add32 dest_addr amount) ms1)"

definition CopyBlock ::
  "gpu \<Rightarrow> page_table \<Rightarrow> page_table \<Rightarrow> nat \<Rightarrow> nat \<Rightarrow> nat \<Rightarrow> mem_sys \<Rightarrow> (mem_sys, unit) outcome" where
  "CopyBlock gpu dest_pt src_pt dest_addr src_addr sz ms =
     copy_chunks gpu dest_pt src_pt (chunks_of src_addr sz) dest_addr ms"

text \<open>FCRAM by offset; the assertions of the source are \<open>None\<close>.\<close>

definition GetFCRAMOffset :: "mem_sys \<Rightarrow> nat \<Rightarrow> nat option" where
  "GetFCRAMOffset ms ptr =
     (if bm_ptr (fcram_mem ms) \<le> ptr \<and> ptr \<le> bm_ptr (fcram_mem ms) + FCRAM_N3DS_SIZE
      then Some (ptr - bm_ptr (fcram_mem ms)) else None)"

definition GetFCRAMPointer :: "mem_sys \<Rightarrow> nat \<Rightarrow> nat option" where
  "GetFCRAMPointer ms off = (if off \<le> FCRAM_N3DS_SIZE then Some (bm_ptr (fcram_mem ms) + off) else None)"

definition GetFCRAMRef :: "mem_sys \<Rightarrow> nat \<Rightarrow> memory_ref option" where
  "GetFCRAMRef ms off =
     (if off \<le> FCRAM_N3DS_SIZE then Some \<lparr>mr_backing = Some (fcram_mem ms), mr_offset = off\<rparr> else None)"

text \<open>
  \<^verbatim>\<open>Read<T>\<close> with \<open>n\<close> the size of \<open>T\<close>: the fast path through the page pointer, the physical alias at bit
  31, and the \<^verbatim>\<open>switch\<close>. \<open>gpu_reg a n\<close> is the value of a GPU register as \<open>n\<close> bytes. The page of a 32-bit
  address is always inside the table.
\<close>

definition LUMA_ALIAS :: nat where "LUMA_ALIAS = 0x80000000"

definition Read_slow :: "gpu \<Rightarrow> page_table \<Rightarrow> nat \<Rightarrow> nat \<Rightarrow> mem_sys \<Rightarrow> (mem_sys, u8 list) outcome" where
  "Read_slow gpu pt vaddr n ms =
     (case attributes pt (vaddr div CITRA_PAGE_SIZE) of
        UnmappedPage \<Rightarrow> Ok ms (replicate n 0)
      | MemoryPage \<Rightarrow> Crash
      | MemoryWatchpoint \<Rightarrow>
          (case watchpoint_pages_map pt (vaddr div CITRA_PAGE_SIZE) of
             None \<Rightarrow> Crash
           | Some info \<Rightarrow> Ok ms (host_read ms (GetPtr (wp_memory info) + vaddr mod CITRA_PAGE_SIZE) n))
      | _ \<Rightarrow> (let ms1 = RasterizerFlushVirtualRegion gpu vaddr n Flush ms
              in case GetPointerForRasterizerCache ms1 vaddr of
                   None \<Rightarrow> Crash
                 | Some r \<Rightarrow> Ok ms1 (host_read ms1 (GetPtr r) n)))"

definition Read ::
  "gpu \<Rightarrow> (nat \<Rightarrow> nat \<Rightarrow> u8 list) \<Rightarrow> page_table \<Rightarrow> nat \<Rightarrow> nat \<Rightarrow> mem_sys \<Rightarrow> (mem_sys, u8 list) outcome" where
  "Read gpu gpu_reg pt n vaddr ms =
     (let page_pointer = GetPtr (pointers pt (vaddr div CITRA_PAGE_SIZE)) in
      if page_pointer \<noteq> 0 then Ok ms (host_read ms (page_pointer + vaddr mod CITRA_PAGE_SIZE) n)
      else if LUMA_ALIAS \<le> vaddr \<and> (vaddr - LUMA_ALIAS) div 0x10000000 = 2
      then (case GetFCRAMPointer ms (vaddr - LUMA_ALIAS - FCRAM_PADDR) of
              None \<Rightarrow> Crash
            | Some p \<Rightarrow> Ok ms (host_read ms p n))
      else if LUMA_ALIAS \<le> vaddr \<and> (vaddr - LUMA_ALIAS) div 0x10000000 = 1 \<and> IO_AREA_PADDR \<le> vaddr - LUMA_ALIAS
      then Ok ms (gpu_reg (vaddr - LUMA_ALIAS - IO_AREA_PADDR + 0x1EC00000) n)
      else Read_slow gpu pt vaddr n ms)"

definition Write_slow :: "gpu \<Rightarrow> page_table \<Rightarrow> nat \<Rightarrow> u8 list \<Rightarrow> mem_sys \<Rightarrow> (mem_sys, unit) outcome" where
  "Write_slow gpu pt vaddr bs ms =
     (case attributes pt (vaddr div CITRA_PAGE_SIZE) of
        UnmappedPage \<Rightarrow> Ok ms ()
      | MemoryPage \<Rightarrow> Crash
      | MemoryWatchpoint \<Rightarrow>
          (case watchpoint_pages_map pt (vaddr div CITRA_PAGE_SIZE) of
             None \<Rightarrow> Crash
           | Some info \<Rightarrow> Ok (host_write (GetPtr (wp_memory info) + vaddr mod CITRA_PAGE_SIZE) bs ms) ())
      | _ \<Rightarrow> (let ms1 = RasterizerFlushVirtualRegion gpu vaddr (length bs) Invalidate ms
              in case GetPointerForRasterizerCache ms1 vaddr of
                   None \<Rightarrow> Crash
                 | Some r \<Rightarrow> Ok (host_write (GetPtr r) bs ms1) ()))"

text \<open>\<^verbatim>\<open>Write<T>\<close>; a GPU register takes 32 bits only, and \<open>gpu_set\<close> is what writing it does to memory.\<close>

definition Write ::
  "gpu \<Rightarrow> (nat \<Rightarrow> u8 list \<Rightarrow> mem_sys \<Rightarrow> mem_sys) \<Rightarrow> page_table \<Rightarrow> nat \<Rightarrow> u8 list \<Rightarrow> mem_sys
     \<Rightarrow> (mem_sys, unit) outcome" where
  "Write gpu gpu_set pt vaddr bs ms =
     (let page_pointer = GetPtr (pointers pt (vaddr div CITRA_PAGE_SIZE)) in
      if page_pointer \<noteq> 0 then Ok (host_write (page_pointer + vaddr mod CITRA_PAGE_SIZE) bs ms) ()
      else if LUMA_ALIAS \<le> vaddr \<and> (vaddr - LUMA_ALIAS) div 0x10000000 = 2
      then (case GetFCRAMPointer ms (vaddr - LUMA_ALIAS - FCRAM_PADDR) of
              None \<Rightarrow> Crash
            | Some p \<Rightarrow> Ok (host_write p bs ms) ())
      else if LUMA_ALIAS \<le> vaddr \<and> (vaddr - LUMA_ALIAS) div 0x10000000 = 1 \<and> IO_AREA_PADDR \<le> vaddr - LUMA_ALIAS
      then assertO (length bs = 4) (Ok (gpu_set (vaddr - LUMA_ALIAS - IO_AREA_PADDR + 0x1EC00000) bs ms) ())
      else Write_slow gpu pt vaddr bs ms)"

text \<open>\<^verbatim>\<open>AtomicCompareAndSwap\<close> and \<^verbatim>\<open>WriteExclusive<T>\<close>.\<close>

definition compare_and_swap :: "nat \<Rightarrow> u8 list \<Rightarrow> u8 list \<Rightarrow> mem_sys \<Rightarrow> (mem_sys, bool) outcome" where
  "compare_and_swap p bs expected ms =
     (if host_read ms p (length bs) = expected then Ok (host_write p bs ms) True else Ok ms False)"

definition WriteExclusive ::
  "gpu \<Rightarrow> page_table \<Rightarrow> nat \<Rightarrow> u8 list \<Rightarrow> u8 list \<Rightarrow> mem_sys \<Rightarrow> (mem_sys, bool) outcome" where
  "WriteExclusive gpu pt vaddr bs expected ms =
     (let page_pointer = GetPtr (pointers pt (vaddr div CITRA_PAGE_SIZE)) in
      if page_pointer \<noteq> 0 then compare_and_swap (page_pointer + vaddr mod CITRA_PAGE_SIZE) bs expected ms
      else case attributes pt (vaddr div CITRA_PAGE_SIZE) of
        UnmappedPage \<Rightarrow> Ok ms True
      | MemoryPage \<Rightarrow> Crash
      | MemoryWatchpoint \<Rightarrow>
          (case watchpoint_pages_map pt (vaddr div CITRA_PAGE_SIZE) of
             None \<Rightarrow> Crash
           | Some info \<Rightarrow> compare_and_swap (GetPtr (wp_memory info) + vaddr mod CITRA_PAGE_SIZE) bs expected ms)
      | _ \<Rightarrow> (let ms1 = RasterizerFlushVirtualRegion gpu vaddr (length bs) Invalidate ms
              in case GetPointerForRasterizerCache ms1 vaddr of
                   None \<Rightarrow> Crash
                 | Some r \<Rightarrow> compare_and_swap (GetPtr r) bs expected ms1))"

definition IsValidVirtualAddress :: "page_table \<Rightarrow> nat \<Rightarrow> bool" where
  "IsValidVirtualAddress pt vaddr \<longleftrightarrow>
     GetPtr (pointers pt (vaddr div CITRA_PAGE_SIZE)) \<noteq> 0 \<or>
     attributes pt (vaddr div CITRA_PAGE_SIZE) \<noteq> UnmappedPage"

definition GetPointer :: "mem_sys \<Rightarrow> page_table \<Rightarrow> nat \<Rightarrow> nat option" where
  "GetPointer ms pt vaddr =
     (let page_pointer = GetPtr (pointers pt (vaddr div CITRA_PAGE_SIZE));
          ty = attributes pt (vaddr div CITRA_PAGE_SIZE)
      in if page_pointer \<noteq> 0 then Some (page_pointer + vaddr mod CITRA_PAGE_SIZE)
         else if ty = RasterizerCachedMemory \<or> ty = RasterizerCachedMemoryWatchpoint
         then map_option GetPtr (GetPointerForRasterizerCache ms vaddr)
         else None)"

fun ReadCString ::
  "gpu \<Rightarrow> (nat \<Rightarrow> nat \<Rightarrow> u8 list) \<Rightarrow> page_table \<Rightarrow> nat \<Rightarrow> nat \<Rightarrow> mem_sys \<Rightarrow> (mem_sys, u8 list) outcome" where
  "ReadCString gpu gpu_reg pt vaddr 0 ms = Ok ms []"
| "ReadCString gpu gpu_reg pt vaddr (Suc n) ms =
     bindO (Read gpu gpu_reg pt 1 vaddr ms) (\<lambda>ms1 bs.
       if bs = [0] then Ok ms1 []
       else bindO (ReadCString gpu gpu_reg pt (add32 vaddr 1) n ms1) (\<lambda>ms2 cs. Ok ms2 (bs @ cs)))"

text \<open>
  Physical addresses. The result of the last lookup is cached in the memory system; the cache is the
  argument \<open>cache\<close>, \<open>(memory, start, end)\<close>, and is returned with the answer.
\<close>

definition memory_areas :: "mem_sys \<Rightarrow> (nat \<times> nat \<times> backing_mem) list" where
  "memory_areas ms = [(VRAM_PADDR, VRAM_SIZE, vram_mem ms), (DSP_RAM_PADDR, DSP_RAM_SIZE, dsp_mem ms),
     (FCRAM_PADDR, FCRAM_N3DS_SIZE, fcram_mem ms), (N3DS_EXTRA_RAM_PADDR, N3DS_EXTRA_RAM_SIZE, n3ds_extra_ram_mem ms)]"

type_synonym region_info = "(backing_mem \<times> nat \<times> nat) option"

definition GetPhysMemRegionInfo :: "mem_sys \<Rightarrow> region_info \<Rightarrow> nat \<Rightarrow> region_info" where
  "GetPhysMemRegionInfo ms cache address =
     (case cache of
        Some (b, start, fin) \<Rightarrow>
          if start \<le> address \<and> address < fin then cache
          else (case List.find (\<lambda>(base, sz, b). base \<le> address \<and> address \<le> base + sz) (memory_areas ms) of
                  None \<Rightarrow> None
                | Some (base, sz, b) \<Rightarrow> Some (b, base, base + sz))
      | None \<Rightarrow>
          (case List.find (\<lambda>(base, sz, b). base \<le> address \<and> address \<le> base + sz) (memory_areas ms) of
             None \<Rightarrow> None
           | Some (base, sz, b) \<Rightarrow> Some (b, base, base + sz)))"

definition GetPhysicalRef :: "mem_sys \<Rightarrow> region_info \<Rightarrow> nat \<Rightarrow> memory_ref" where
  "GetPhysicalRef ms cache address =
     (case GetPhysMemRegionInfo ms cache address of
        None \<Rightarrow> null_ref
      | Some (b, start, fin) \<Rightarrow> \<lparr>mr_backing = Some b, mr_offset = address - start\<rparr>)"

definition PhysicalToVirtualAddressForRasterizer :: "mem_sys \<Rightarrow> nat \<Rightarrow> nat list" where
  "PhysicalToVirtualAddressForRasterizer ms a =
     (if in_region VRAM_PADDR VRAM_SIZE a then [a - VRAM_PADDR + VRAM_VADDR]
      else if plugin_fb_address ms \<noteq> 0 \<and> in_region (plugin_fb_address ms) PLUGIN_3GX_FB_SIZE a
      then [a - plugin_fb_address ms + PLUGIN_3GX_FB_VADDR]
      else if in_region FCRAM_PADDR FCRAM_SIZE a
      then [a - FCRAM_PADDR + LINEAR_HEAP_VADDR, a - FCRAM_PADDR + NEW_LINEAR_HEAP_VADDR]
      else if in_region (FCRAM_PADDR + FCRAM_SIZE) (FCRAM_N3DS_SIZE - FCRAM_SIZE) a
      then [a - FCRAM_PADDR + NEW_LINEAR_HEAP_VADDR]
      else [])"

text \<open>One page of one page table in \<^verbatim>\<open>RasterizerMarkRegionCached\<close>; \<open>None\<close> is its \<^verbatim>\<open>UNREACHABLE\<close>.\<close>

definition mark_page :: "mem_sys \<Rightarrow> bool \<Rightarrow> nat \<Rightarrow> page_table \<Rightarrow> page_table option" where
  "mark_page ms cached vaddr pt =
     (let idx = vaddr div CITRA_PAGE_SIZE in
      if cached then
        (case attributes pt idx of
           UnmappedPage \<Rightarrow> Some pt
         | MemoryPage \<Rightarrow> Some (pt\<lparr>attributes := (attributes pt)(idx := RasterizerCachedMemory),
                                 pointers := (pointers pt)(idx := null_ref)\<rparr>)
         | MemoryWatchpoint \<Rightarrow> Some (pt\<lparr>attributes := (attributes pt)(idx := RasterizerCachedMemoryWatchpoint),
                                       pointers := (pointers pt)(idx := null_ref)\<rparr>)
         | _ \<Rightarrow> None)
      else
        (case attributes pt idx of
           UnmappedPage \<Rightarrow> Some pt
         | RasterizerCachedMemory \<Rightarrow>
             map_option (\<lambda>r. pt\<lparr>attributes := (attributes pt)(idx := MemoryPage),
                               pointers := (pointers pt)(idx := r)\<rparr>)
               (GetPointerForRasterizerCache ms (vaddr - vaddr mod CITRA_PAGE_SIZE))
         | RasterizerCachedMemoryWatchpoint \<Rightarrow>
             Some (pt\<lparr>attributes := (attributes pt)(idx := MemoryWatchpoint)\<rparr>)
         | _ \<Rightarrow> None))"

fun mark_tables :: "mem_sys \<Rightarrow> bool \<Rightarrow> nat \<Rightarrow> page_table list \<Rightarrow> page_table list option" where
  "mark_tables ms cached vaddr [] = Some []"
| "mark_tables ms cached vaddr (pt # pts) =
     (case mark_page ms cached vaddr pt of
        None \<Rightarrow> None
      | Some pt' \<Rightarrow> map_option (\<lambda>pts'. pt' # pts') (mark_tables ms cached vaddr pts))"

fun mark_vaddrs ::
  "bool \<Rightarrow> nat list \<Rightarrow> mem_sys \<times> page_table list \<Rightarrow> (mem_sys \<times> page_table list) option" where
  "mark_vaddrs cached [] s = Some s"
| "mark_vaddrs cached (v # vs) (ms, pts) =
     (let ms1 = MarkCached v cached ms in
      case mark_tables ms1 cached v pts of
        None \<Rightarrow> None
      | Some pts1 \<Rightarrow> mark_vaddrs cached vs (ms1, pts1))"

fun mark_pages ::
  "bool \<Rightarrow> nat \<Rightarrow> nat \<Rightarrow> mem_sys \<times> page_table list \<Rightarrow> (mem_sys \<times> page_table list) option" where
  "mark_pages cached 0 paddr s = Some s"
| "mark_pages cached (Suc n) paddr s =
     (case mark_vaddrs cached (PhysicalToVirtualAddressForRasterizer (fst s) paddr) s of
        None \<Rightarrow> None
      | Some s1 \<Rightarrow> mark_pages cached n (add32 paddr CITRA_PAGE_SIZE) s1)"

definition RasterizerMarkRegionCached ::
  "nat \<Rightarrow> nat \<Rightarrow> bool \<Rightarrow> mem_sys \<times> page_table list \<Rightarrow> (mem_sys \<times> page_table list) option" where
  "RasterizerMarkRegionCached start sz cached s =
     (if start = 0 then Some s
      else mark_pages cached
             (add32 (sub32 (sub32 (add32 start sz) 1 div CITRA_PAGE_SIZE) (start div CITRA_PAGE_SIZE)) 1) start s)"

text \<open>
  Watchpoints. The loop of \<^verbatim>\<open>RegisterWatchpoint\<close> does not advance when the page cannot be watched (the
  \<^verbatim>\<open>continue\<close> inside the \<^verbatim>\<open>switch\<close>), so it is a partial function: not returning is \<open>None\<close>. The inner
  option is the assertion inside \<^verbatim>\<open>GetPointerForRasterizerCache\<close>.
\<close>

definition watch_page :: "mem_sys \<Rightarrow> nat \<Rightarrow> page_table \<Rightarrow> page_table option option" where
  "watch_page ms idx pt =
     (case watchpoint_pages_map pt idx of
        Some info \<Rightarrow>
          Some (Some (pt\<lparr>watchpoint_pages_map := (watchpoint_pages_map pt)
             (idx \<mapsto> info\<lparr>watchpoint_count := add32 (watchpoint_count info) 1\<rparr>)\<rparr>))
      | None \<Rightarrow>
          (case attributes pt idx of
             MemoryPage \<Rightarrow>
               Some (Some (pt\<lparr>attributes := (attributes pt)(idx := MemoryWatchpoint),
                             pointers := (pointers pt)(idx := null_ref),
                             watchpoint_pages_map := (watchpoint_pages_map pt)
                               (idx \<mapsto> \<lparr>watchpoint_count = 1, wp_memory = pointers pt idx\<rparr>)\<rparr>))
           | RasterizerCachedMemory \<Rightarrow>
               (case GetPointerForRasterizerCache ms (idx * CITRA_PAGE_SIZE) of
                  None \<Rightarrow> Some None
                | Some mem \<Rightarrow>
                    Some (Some (pt\<lparr>attributes := (attributes pt)(idx := RasterizerCachedMemoryWatchpoint),
                                  watchpoint_pages_map := (watchpoint_pages_map pt)
                                    (idx \<mapsto> \<lparr>watchpoint_count = 1, wp_memory = mem\<rparr>)\<rparr>)))
           | _ \<Rightarrow> None))"

partial_function (option) register_loop ::
  "mem_sys \<Rightarrow> nat \<Rightarrow> nat \<Rightarrow> page_table \<Rightarrow> page_table option option" where
  "register_loop ms current fin pt =
     (if current < fin
      then (case watch_page ms (current div CITRA_PAGE_SIZE) pt of
              None \<Rightarrow> register_loop ms current fin pt
            | Some None \<Rightarrow> Some None
            | Some (Some pt1) \<Rightarrow>
                register_loop ms (add32 (current - current mod CITRA_PAGE_SIZE) CITRA_PAGE_SIZE) fin pt1)
      else Some (Some pt))"

definition RegisterWatchpoint :: "mem_sys \<Rightarrow> nat \<Rightarrow> nat \<Rightarrow> page_table \<Rightarrow> page_table option option" where
  "RegisterWatchpoint ms a sz pt = register_loop ms a (add32 a sz) pt"

definition unwatch_page :: "nat \<Rightarrow> page_table \<Rightarrow> page_table" where
  "unwatch_page idx pt =
     (case watchpoint_pages_map pt idx of
        None \<Rightarrow> pt
      | Some info \<Rightarrow>
          if sub32 (watchpoint_count info) 1 = 0
          then (let pt1 = (case attributes pt idx of
                             MemoryWatchpoint \<Rightarrow> pt\<lparr>attributes := (attributes pt)(idx := MemoryPage),
                                                     pointers := (pointers pt)(idx := wp_memory info)\<rparr>
                           | RasterizerCachedMemoryWatchpoint \<Rightarrow>
                               pt\<lparr>attributes := (attributes pt)(idx := RasterizerCachedMemory)\<rparr>
                           | _ \<Rightarrow> pt)
                in pt1\<lparr>watchpoint_pages_map := (watchpoint_pages_map pt1)(idx := None)\<rparr>)
          else pt\<lparr>watchpoint_pages_map := (watchpoint_pages_map pt)
                 (idx \<mapsto> info\<lparr>watchpoint_count := sub32 (watchpoint_count info) 1\<rparr>)\<rparr>)"

partial_function (option) unregister_loop :: "nat \<Rightarrow> nat \<Rightarrow> page_table \<Rightarrow> page_table option" where
  "unregister_loop current fin pt =
     (if current < fin
      then unregister_loop (add32 (current - current mod CITRA_PAGE_SIZE) CITRA_PAGE_SIZE) fin
             (unwatch_page (current div CITRA_PAGE_SIZE) pt)
      else Some pt)"

definition UnregisterWatchpoint :: "nat \<Rightarrow> nat \<Rightarrow> page_table \<Rightarrow> page_table option" where
  "UnregisterWatchpoint a sz pt = unregister_loop a (add32 a sz) pt"

section \<open>The byte-level reference\<close>

definition byte_ptr :: "page_table \<Rightarrow> nat \<Rightarrow> nat option" where
  "byte_ptr pt a =
     (case attributes pt (a div CITRA_PAGE_SIZE) of
        MemoryPage \<Rightarrow> Some (GetPtr (pointers pt (a div CITRA_PAGE_SIZE)) + a mod CITRA_PAGE_SIZE)
      | MemoryWatchpoint \<Rightarrow>
          map_option (\<lambda>info. GetPtr (wp_memory info) + a mod CITRA_PAGE_SIZE)
            (watchpoint_pages_map pt (a div CITRA_PAGE_SIZE))
      | _ \<Rightarrow> None)"

text \<open>Pages that need no help from the rasterizer and have their watchpoint entry.\<close>

definition plain :: "page_table \<Rightarrow> nat \<Rightarrow> bool" where
  "plain pt a \<longleftrightarrow> a div CITRA_PAGE_SIZE < PAGE_TABLE_NUM_ENTRIES \<and>
     (case attributes pt (a div CITRA_PAGE_SIZE) of
        UnmappedPage \<Rightarrow> True
      | MemoryPage \<Rightarrow> True
      | MemoryWatchpoint \<Rightarrow> watchpoint_pages_map pt (a div CITRA_PAGE_SIZE) \<noteq> None
      | _ \<Rightarrow> False)"

definition peek :: "page_table \<Rightarrow> nat \<Rightarrow> nat \<Rightarrow> (nat \<Rightarrow> u8) \<Rightarrow> u8 list" where
  "peek pt a n h = map (\<lambda>x. case byte_ptr pt x of Some p \<Rightarrow> h p | None \<Rightarrow> 0) [a..<a + n]"

fun poke :: "page_table \<Rightarrow> nat \<Rightarrow> u8 list \<Rightarrow> (nat \<Rightarrow> u8) \<Rightarrow> nat \<Rightarrow> u8" where
  "poke pt a [] h = h"
| "poke pt a (b # bs) h = poke pt (a + 1) bs (case byte_ptr pt a of Some p \<Rightarrow> h(p := b) | None \<Rightarrow> h)"

lemma page_pos [simp]: "0 < CITRA_PAGE_SIZE"
  by (simp add: CITRA_PAGE_SIZE_def)

lemma in_page: "off + k < CITRA_PAGE_SIZE \<Longrightarrow> (idx * CITRA_PAGE_SIZE + off + k) div CITRA_PAGE_SIZE = idx"
  "off + k < CITRA_PAGE_SIZE \<Longrightarrow> (idx * CITRA_PAGE_SIZE + off + k) mod CITRA_PAGE_SIZE = off + k"
proof -
  assume k: "off + k < CITRA_PAGE_SIZE"
  have e: "idx * CITRA_PAGE_SIZE + off + k = (off + k) + idx * CITRA_PAGE_SIZE" by simp
  from k show "(idx * CITRA_PAGE_SIZE + off + k) div CITRA_PAGE_SIZE = idx" unfolding e by (subst div_mult_self1) simp_all
  from k show "(idx * CITRA_PAGE_SIZE + off + k) mod CITRA_PAGE_SIZE = off + k" unfolding e by (subst mod_mult_self1) simp
qed

text \<open>The pieces of a range tile it.\<close>

fun tiled :: "nat \<Rightarrow> nat \<Rightarrow> (nat \<times> nat \<times> nat) list \<Rightarrow> bool" where
  "tiled a n [] \<longleftrightarrow> n = 0"
| "tiled a n ((idx, off, m) # cs) \<longleftrightarrow> a = idx * CITRA_PAGE_SIZE + off \<and> off < CITRA_PAGE_SIZE \<and>
     off + m \<le> CITRA_PAGE_SIZE \<and> 0 < m \<and> m \<le> n \<and> tiled (a + m) (n - m) cs"

lemma block_chunks_tiled:
  "off < CITRA_PAGE_SIZE \<Longrightarrow> tiled (idx * CITRA_PAGE_SIZE + off) n (block_chunks idx off n)"
proof (induction idx off n rule: block_chunks.induct)
  case (1 idx off n)
  show ?case
  proof (cases "n = 0")
    case True
    then show ?thesis by (simp add: block_chunks.simps [of idx off 0])
  next
    case False
    define m where "m = min (CITRA_PAGE_SIZE - off) n"
    have m: "0 < m" "off + m \<le> CITRA_PAGE_SIZE" "m \<le> n" using False 1(2) by (auto simp: m_def)
    have "tiled ((idx + 1) * CITRA_PAGE_SIZE + 0) (n - m) (block_chunks (idx + 1) 0 (n - m))"
      by (rule 1(1)) (use False 1(2) in \<open>auto simp: m_def\<close>)
    moreover have "tiled b 0 (block_chunks (idx + 1) 0 0)" for b by (simp add: block_chunks.simps [of "Suc idx" 0 0])
    moreover have "(idx + 1) * CITRA_PAGE_SIZE + 0 = idx * CITRA_PAGE_SIZE + off + m" if "m < n"
      using that 1(2) by (auto simp: m_def)
    ultimately have "tiled (idx * CITRA_PAGE_SIZE + off + m) (n - m) (block_chunks (idx + 1) 0 (n - m))"
      using m(3) by (cases "m = n") (simp, metis le_neq_implies_less)
    with m 1(2) False show ?thesis by (simp add: block_chunks.simps [of idx off n] Let_def flip: m_def)
  qed
qed

lemma chunks_of_tiled: "tiled a n (chunks_of a n)"
  using block_chunks_tiled [of "a mod CITRA_PAGE_SIZE" "a div CITRA_PAGE_SIZE" n] by (simp add: chunks_of_def)

definition plain_range :: "page_table \<Rightarrow> nat \<Rightarrow> nat \<Rightarrow> bool" where
  "plain_range pt a n \<longleftrightarrow> (\<forall>x. a \<le> x \<and> x < a + n \<longrightarrow> plain pt x)"

lemma plain_range_split:
  "plain_range pt a n \<Longrightarrow> 0 < m \<Longrightarrow> m \<le> n \<Longrightarrow> plain pt a \<and> plain_range pt a m \<and> plain_range pt (a + m) (n - m)"
  by (auto simp: plain_range_def)

text \<open>Within a page, the access of a piece is the access of its first byte, shifted.\<close>

lemma plain_chunk:
  assumes "plain pt (idx * CITRA_PAGE_SIZE + off)" "off < CITRA_PAGE_SIZE"
  obtains "page_access ms pt idx off = AccUnmapped" "\<And>k. off + k < CITRA_PAGE_SIZE \<Longrightarrow> byte_ptr pt (idx * CITRA_PAGE_SIZE + off + k) = None"
  | p where "page_access ms pt idx off = AccDirect p" "\<And>k. off + k < CITRA_PAGE_SIZE \<Longrightarrow> byte_ptr pt (idx * CITRA_PAGE_SIZE + off + k) = Some (p + k)"
proof -
  have d: "(idx * CITRA_PAGE_SIZE + off) div CITRA_PAGE_SIZE = idx" using in_page(1) [of off 0 idx] assms(2) by simp
  note pl = assms(1) [unfolded plain_def d]
  show thesis
  proof (cases "attributes pt idx")
    case UnmappedPage
    with pl show thesis by (intro that(1)) (auto simp: page_access_def byte_ptr_def in_page)
  next
    case MemoryPage
    with pl show thesis by (intro that(2) [of "GetPtr (pointers pt idx) + off"])
        (auto simp: page_access_def byte_ptr_def in_page)
  next
    case MemoryWatchpoint
    with pl obtain info where "watchpoint_pages_map pt idx = Some info" by auto
    with MemoryWatchpoint pl show thesis by (intro that(2) [of "GetPtr (wp_memory info) + off"])
        (auto simp: page_access_def byte_ptr_def in_page)
  qed (use pl in auto)
qed

lemma peek_append: "peek pt a (m + n) h = peek pt a m h @ peek pt (a + m) n h"
  using upt_add_eq_append [of a "a + m" n] by (simp add: peek_def add.assoc)

lemma read_chunk_plain:
  assumes "plain pt (idx * CITRA_PAGE_SIZE + off)" "off + amount \<le> CITRA_PAGE_SIZE" "off < CITRA_PAGE_SIZE"
  shows "read_chunk gpu pt (idx, off, amount) ms = Ok ms (peek pt (idx * CITRA_PAGE_SIZE + off) amount (host ms))"
  using assms(1,3)
proof (cases rule: plain_chunk [where ms = ms])
  case 1
  have "peek pt (idx * CITRA_PAGE_SIZE + off) amount (host ms) = replicate amount 0"
    using 1(2) assms(2) by (intro nth_equalityI) (auto simp: peek_def)
  with 1(1) show ?thesis by simp
next
  case (2 p)
  have "peek pt (idx * CITRA_PAGE_SIZE + off) amount (host ms) = host_read ms p amount"
    using 2(2) assms(2) by (intro nth_equalityI) (auto simp: peek_def host_read_def)
  with 2(1) show ?thesis by simp
qed

lemma read_chunks_plain:
  "tiled a n cs \<Longrightarrow> plain_range pt a n \<Longrightarrow> read_chunks gpu pt cs ms = Ok ms (peek pt a n (host ms))"
proof (induction cs arbitrary: a n)
  case Nil
  then show ?case by (simp add: peek_def)
next
  case (Cons c cs)
  obtain idx off m where c: "c = (idx, off, m)" by (cases c)
  with Cons.prems have t: "a = idx * CITRA_PAGE_SIZE + off" "off < CITRA_PAGE_SIZE" "off + m \<le> CITRA_PAGE_SIZE"
    "0 < m" "m \<le> n" "tiled (a + m) (n - m) cs" by auto
  note pl = plain_range_split [OF Cons.prems(2) t(4,5)]
  have "read_chunk gpu pt c ms = Ok ms (peek pt a m (host ms))"
    using read_chunk_plain [of pt idx off m gpu ms] pl t(1,2,3) c by simp
  with Cons.IH [OF t(6)] pl t(5) peek_append [of pt a m "n - m" "host ms"] show ?case by simp
qed

lemma ReadBlock_peek: "plain_range pt a n \<Longrightarrow> ReadBlock gpu pt a n ms = Ok ms (peek pt a n (host ms))"
  unfolding ReadBlock_def by (rule read_chunks_plain [OF chunks_of_tiled])

section \<open>Writing\<close>

lemma poke_append: "poke pt a (xs @ ys) h = poke pt (a + length xs) ys (poke pt a xs h)"
  by (induction xs arbitrary: a h) simp_all

lemma poke_direct:
  "(\<And>k. k < length bs \<Longrightarrow> byte_ptr pt (a + k) = Some (p + k)) \<Longrightarrow> poke pt a bs h = put_bytes h p bs"
proof (induction bs arbitrary: a p h)
  case (Cons b bs)
  have "byte_ptr pt (a + 1 + k) = Some (p + 1 + k)" if "k < length bs" for k
    using Cons.prems [of "Suc k"] that by simp
  moreover have "byte_ptr pt a = Some p" using Cons.prems [of 0] by simp
  ultimately show ?case using Cons.IH [of "a + 1" "p + 1" "h(p := b)"] by (simp del: fun_upd_apply)
qed simp

lemma poke_unmapped: "(\<And>k. k < length bs \<Longrightarrow> byte_ptr pt (a + k) = None) \<Longrightarrow> poke pt a bs h = h"
proof (induction bs arbitrary: a h)
  case (Cons b bs)
  have "byte_ptr pt (a + 1 + k) = None" if "k < length bs" for k using Cons.prems [of "Suc k"] that by simp
  moreover have "byte_ptr pt a = None" using Cons.prems [of 0] by simp
  ultimately show ?case using Cons.IH [of "a + 1" h] by simp
qed simp

lemma write_chunk_plain:
  assumes "plain pt (idx * CITRA_PAGE_SIZE + off)" "off + length bs \<le> CITRA_PAGE_SIZE" "off < CITRA_PAGE_SIZE"
  shows "write_chunk gpu pt (idx, off, amount) bs ms =
    Ok (ms\<lparr>host := poke pt (idx * CITRA_PAGE_SIZE + off) bs (host ms)\<rparr>) ()"
  using assms(1,3)
proof (cases rule: plain_chunk [where ms = ms])
  case 1
  have "poke pt (idx * CITRA_PAGE_SIZE + off) bs (host ms) = host ms"
    by (rule poke_unmapped) (use 1(2) assms(2) in auto)
  with 1(1) show ?thesis by simp
next
  case (2 p)
  have "poke pt (idx * CITRA_PAGE_SIZE + off) bs (host ms) = put_bytes (host ms) p bs"
    by (rule poke_direct) (use 2(2) assms(2) in auto)
  with 2(1) show ?thesis by (simp add: host_write_def)
qed

lemma write_chunks_plain:
  "tiled a (length bs) cs \<Longrightarrow> plain_range pt a (length bs) \<Longrightarrow>
   write_chunks gpu pt cs bs ms = Ok (ms\<lparr>host := poke pt a bs (host ms)\<rparr>) ()"
proof (induction cs arbitrary: a bs ms)
  case Nil
  then show ?case by simp
next
  case (Cons c cs)
  obtain idx off m where c: "c = (idx, off, m)" by (cases c)
  with Cons.prems have t: "a = idx * CITRA_PAGE_SIZE + off" "off < CITRA_PAGE_SIZE" "off + m \<le> CITRA_PAGE_SIZE"
    "0 < m" "m \<le> length bs" "tiled (a + m) (length (drop m bs)) cs" by auto
  note pl = plain_range_split [OF Cons.prems(2) t(4,5)]
  have "write_chunk gpu pt c (take m bs) ms = Ok (ms\<lparr>host := poke pt a (take m bs) (host ms)\<rparr>) ()"
    using write_chunk_plain [of pt idx off "take m bs" gpu m ms] pl t(1,2,3,5) c by simp
  moreover have "poke pt a bs (host ms) = poke pt (a + m) (drop m bs) (poke pt a (take m bs) (host ms))"
    using poke_append [of pt a "take m bs" "drop m bs" "host ms"] t(5) by simp
  ultimately show ?case using Cons.IH [OF t(6)] pl c by simp
qed

lemma WriteBlock_poke:
  "plain_range pt a (length bs) \<Longrightarrow> WriteBlock gpu pt a bs ms = Ok (ms\<lparr>host := poke pt a bs (host ms)\<rparr>) ()"
  unfolding WriteBlock_def by (rule write_chunks_plain [OF chunks_of_tiled])

lemma ZeroBlock_poke:
  "plain_range pt a n \<Longrightarrow> ZeroBlock gpu pt a n ms = Ok (ms\<lparr>host := poke pt a (replicate n 0) (host ms)\<rparr>) ()"
  unfolding ZeroBlock_def using write_chunks_plain [of a "replicate n 0"] chunks_of_tiled [of a n] by simp

section \<open>Reading back\<close>

lemma poke_other: "(\<forall>x. a \<le> x \<and> x < a + length bs \<longrightarrow> byte_ptr pt x \<noteq> Some p) \<Longrightarrow> poke pt a bs h p = h p"
proof (induction bs arbitrary: a h)
  case (Cons b bs)
  from Cons.prems have "\<forall>x. a + 1 \<le> x \<and> x < a + 1 + length bs \<longrightarrow> byte_ptr pt x \<noteq> Some p" by simp
  moreover have "byte_ptr pt a \<noteq> Some p" using Cons.prems by simp
  ultimately show ?case using Cons.IH by (simp split: option.split)
qed simp

lemma poke_hit:
  assumes "k < length bs" "byte_ptr pt (a + k) = Some p" "inj_on (byte_ptr pt) {a..<a + length bs}"
  shows "poke pt a bs h p = bs ! k"
  using assms
proof (induction bs arbitrary: a h k)
  case (Cons b bs)
  have inj: "inj_on (byte_ptr pt) {a + 1..<a + 1 + length bs}"
    by (rule inj_on_subset [OF Cons.prems(3)]) auto
  show ?case
  proof (cases k)
    case 0
    have "byte_ptr pt x \<noteq> Some p" if "a + 1 \<le> x" "x < a + 1 + length bs" for x
      using inj_onD [OF Cons.prems(3), of x a] Cons.prems(2) 0 that by auto
    then show ?thesis using 0 Cons.prems(2) by (simp add: poke_other)
  next
    case (Suc j)
    with Cons.IH [OF _ _ inj, of j] Cons.prems(1,2) show ?thesis by simp
  qed
qed simp

text \<open>A range that is mapped throughout and no two of whose addresses share a host byte.\<close>

definition mapped_once :: "page_table \<Rightarrow> nat \<Rightarrow> nat \<Rightarrow> bool" where
  "mapped_once pt a n \<longleftrightarrow> (\<forall>x. a \<le> x \<and> x < a + n \<longrightarrow> byte_ptr pt x \<noteq> None) \<and> inj_on (byte_ptr pt) {a..<a + n}"

lemma peek_poke:
  assumes "mapped_once pt a (length bs)" shows "peek pt a (length bs) (poke pt a bs h) = bs"
proof (rule nth_equalityI)
  fix k assume "k < length (peek pt a (length bs) (poke pt a bs h))"
  then have k: "k < length bs" by (simp add: peek_def)
  with assms have "byte_ptr pt (a + k) \<noteq> None" by (simp add: mapped_once_def)
  then obtain p where p: "byte_ptr pt (a + k) = Some p" by auto
  with poke_hit [OF k p] assms k show "peek pt a (length bs) (poke pt a bs h) ! k = bs ! k"
    by (simp add: peek_def mapped_once_def)
qed (simp add: peek_def)

text \<open>
  Property (C30): Block writes are read back. Writing a block to a mapped range whose addresses reach distinct host
  bytes succeeds, reading the block back returns exactly what was written, whatever pages it spans, and no
  host byte outside the range's own is changed.
\<close>

theorem WriteBlock_ReadBlock:
  assumes "plain_range pt a (length bs)" "mapped_once pt a (length bs)"
  shows "\<exists>ms'. WriteBlock gpu pt a bs ms = Ok ms' () \<and> ReadBlock gpu pt a (length bs) ms' = Ok ms' bs \<and>
    (\<forall>p. (\<forall>x. a \<le> x \<and> x < a + length bs \<longrightarrow> byte_ptr pt x \<noteq> Some p) \<longrightarrow> host ms' p = host ms p)"
proof (intro exI conjI)
  show "WriteBlock gpu pt a bs ms = Ok (ms\<lparr>host := poke pt a bs (host ms)\<rparr>) ()"
    by (rule WriteBlock_poke [OF assms(1)])
  show "ReadBlock gpu pt a (length bs) (ms\<lparr>host := poke pt a bs (host ms)\<rparr>) = Ok (ms\<lparr>host := poke pt a bs (host ms)\<rparr>) bs"
    using ReadBlock_peek [OF assms(1)] peek_poke [OF assms(2)] by simp
  show "\<forall>p. (\<forall>x. a \<le> x \<and> x < a + length bs \<longrightarrow> byte_ptr pt x \<noteq> Some p) \<longrightarrow>
      host (ms\<lparr>host := poke pt a bs (host ms)\<rparr>) p = host ms p"
    by (simp add: poke_other)
qed

text \<open>A table with two pages whose host pages are in the opposite order, for the examples.\<close>

definition sample_pt :: page_table where
  "sample_pt = \<lparr>attributes = (\<lambda>p. if p = 0x100 \<or> p = 0x101 then MemoryPage else UnmappedPage),
     pointers = (\<lambda>p. if p = 0x100 then \<lparr>mr_backing = Some sample_fcram, mr_offset = 0x1000\<rparr>
                     else if p = 0x101 then \<lparr>mr_backing = Some sample_fcram, mr_offset = 0\<rparr> else null_ref),
     watchpoint_pages_map = Map.empty\<rparr>"

definition sample_ms :: mem_sys where
  "sample_ms = \<lparr>host = (\<lambda>_. 7), fcram_mem = sample_fcram, vram_mem = sample_fcram,
     n3ds_extra_ram_mem = sample_fcram, dsp_mem = sample_fcram, plugin_fb_address = 0, cache_marks = (\<lambda>_. False)\<rparr>"

lemma sample_bytes:
  "byte_ptr sample_pt 0x100FFF = Some (bm_ptr sample_fcram + 0x1FFF)" "byte_ptr sample_pt 0x101000 = Some (bm_ptr sample_fcram)"
  "plain sample_pt x \<longleftrightarrow> x div CITRA_PAGE_SIZE < PAGE_TABLE_NUM_ENTRIES"
  by (auto simp: byte_ptr_def plain_def sample_pt_def CITRA_PAGE_SIZE_def GetPtr_def)

lemma sample_range: "plain_range sample_pt 0x100FFF 2" "mapped_once sample_pt 0x100FFF 2"
proof -
  show "plain_range sample_pt 0x100FFF 2"
    by (auto simp: plain_range_def sample_bytes CITRA_PAGE_SIZE_def PAGE_TABLE_NUM_ENTRIES_def)
  have "x = 0x100FFF \<or> x = 0x101000" if "0x100FFF \<le> x" "x < 0x100FFF + 2" for x :: nat using that by arith
  moreover have "{0x100FFF..<0x100FFF + 2::nat} = {0x100FFF, 0x101000}" by auto
  ultimately show "mapped_once sample_pt 0x100FFF 2" by (fastforce simp: mapped_once_def sample_bytes)
qed

theorem WriteBlock_ReadBlock_witness:
  "\<exists>ms'. WriteBlock (\<lambda>_ _ _ h. h) sample_pt 0x100FFF [1, 2] sample_ms = Ok ms' () \<and>
     ReadBlock (\<lambda>_ _ _ h. h) sample_pt 0x100FFF 2 ms' = Ok ms' [1, 2]"
  using WriteBlock_ReadBlock [of sample_pt "0x100FFF" "[1, 2]" "\<lambda>_ _ _ h. h" sample_ms] sample_range by (auto simp: numeral_2_eq_2)


section \<open>Copying\<close>

lemma peek_cong: "(\<And>x p. a \<le> x \<Longrightarrow> x < a + n \<Longrightarrow> byte_ptr pt x = Some p \<Longrightarrow> h p = h' p) \<Longrightarrow> peek pt a n h = peek pt a n h'"
  by (auto simp: peek_def split: option.split)

lemma length_peek [simp]: "length (peek pt a n h) = n"
  by (simp add: peek_def)

lemma length_host_read [simp]: "length (host_read ms p n) = n"
  by (simp add: host_read_def)

text \<open>No host byte of the destination range is behind a source address.\<close>

definition apart :: "page_table \<Rightarrow> nat \<Rightarrow> page_table \<Rightarrow> nat \<Rightarrow> nat \<Rightarrow> bool" where
  "apart dpt d spt s n \<longleftrightarrow> (\<forall>x y p. d \<le> x \<and> x < d + n \<and> s \<le> y \<and> y < s + n \<and> byte_ptr dpt x = Some p \<longrightarrow> byte_ptr spt y \<noteq> Some p)"

lemma copy_step_plain:
  assumes "plain spt (idx * CITRA_PAGE_SIZE + off)" "off < CITRA_PAGE_SIZE" "off + m \<le> CITRA_PAGE_SIZE" "plain_range dpt d m"
  shows "(case page_access ms spt idx off of
          AccUnmapped \<Rightarrow> ZeroBlock gpu dpt d m ms
        | AccDirect p \<Rightarrow> WriteBlock gpu dpt d (host_read ms p m) ms
        | AccCached p \<Rightarrow>
            (let ms1 = RasterizerFlushVirtualRegion gpu (idx * CITRA_PAGE_SIZE + off) m Flush ms
             in WriteBlock gpu dpt d (host_read ms1 p m) ms1)
        | AccCrash \<Rightarrow> Crash) =
    Ok (ms\<lparr>host := poke dpt d (peek spt (idx * CITRA_PAGE_SIZE + off) m (host ms)) (host ms)\<rparr>) ()"
  using assms(1,2)
proof (cases rule: plain_chunk [where ms = ms])
  case 1
  have "peek spt (idx * CITRA_PAGE_SIZE + off) m (host ms) = replicate m 0"
    using 1(2) assms(3) by (intro nth_equalityI) (auto simp: peek_def)
  with 1(1) ZeroBlock_poke [OF assms(4)] show ?thesis by simp
next
  case (2 p)
  have "peek spt (idx * CITRA_PAGE_SIZE + off) m (host ms) = host_read ms p m"
    using 2(2) assms(3) by (intro nth_equalityI) (auto simp: peek_def host_read_def)
  with 2(1) WriteBlock_poke [of dpt d "host_read ms p m"] assms(4) show ?thesis by simp
qed

lemma copy_chunks_plain:
  "tiled s n cs \<Longrightarrow> plain_range spt s n \<Longrightarrow> plain_range dpt d n \<Longrightarrow> apart dpt d spt s n \<Longrightarrow> d + n < 4294967296 \<Longrightarrow>
   copy_chunks gpu dpt spt cs d ms = Ok (ms\<lparr>host := poke dpt d (peek spt s n (host ms)) (host ms)\<rparr>) ()"
proof (induction cs arbitrary: s n d ms)
  case Nil
  then show ?case by (simp add: peek_def)
next
  case (Cons c cs)
  obtain idx off m where c: "c = (idx, off, m)" by (cases c)
  with Cons.prems have t: "s = idx * CITRA_PAGE_SIZE + off" "off < CITRA_PAGE_SIZE" "off + m \<le> CITRA_PAGE_SIZE"
    "0 < m" "m \<le> n" "tiled (s + m) (n - m) cs" by auto
  note ps = plain_range_split [OF Cons.prems(2) t(4,5)] and pd = plain_range_split [OF Cons.prems(3) t(4,5)]
  define h1 where "h1 = poke dpt d (peek spt s m (host ms)) (host ms)"
  have ap: "apart dpt (d + m) spt (s + m) (n - m)" using Cons.prems(4) t(5) unfolding apart_def by simp (meson add_leD1)
  have eq: "peek spt (s + m) (n - m) h1 = peek spt (s + m) (n - m) (host ms)"
  proof (rule peek_cong)
    fix x p assume x: "s + m \<le> x" "x < s + m + (n - m)" "byte_ptr spt x = Some p"
    have "byte_ptr dpt y \<noteq> Some p" if "d \<le> y" "y < d + m" for y
      using Cons.prems(4) [unfolded apart_def, rule_format, of y x p] x t(5) that by auto
    then show "h1 p = host ms p" by (simp add: h1_def poke_other)
  qed
  have "poke dpt d (peek spt s n (host ms)) (host ms) = poke dpt (d + m) (peek spt (s + m) (n - m) h1) h1"
    using peek_append [of spt s m "n - m" "host ms"] t(5) by (simp add: poke_append eq flip: h1_def)
  moreover have "add32 d m = d + m" using Cons.prems(5) t(5) by (simp add: add32_small)
  ultimately show ?case
    using copy_step_plain [of spt idx off m dpt d gpu ms] Cons.IH [OF t(6) _ _ ap, of "ms\<lparr>host := h1\<rparr>"] ps pd t(1,2,3,5)
      Cons.prems(5) c by (simp add: h1_def)
qed

text \<open>
  Property: Copying between processes. When neither range needs the rasterizer and no host byte of the
  destination lies behind a source address, \<^verbatim>\<open>CopyBlock\<close> leaves host memory as if the whole source block
  had been read and then written, byte by byte, although it works in pieces bounded by both sides' pages.
\<close>

theorem CopyBlock_bytes:
  assumes "plain_range spt s n" "plain_range dpt d n" "apart dpt d spt s n" "d + n < 4294967296"
  shows "CopyBlock gpu dpt spt d s n ms = Ok (ms\<lparr>host := poke dpt d (peek spt s n (host ms)) (host ms)\<rparr>) ()"
  unfolding CopyBlock_def by (rule copy_chunks_plain [OF chunks_of_tiled assms])

lemma sample_apart: "apart sample_pt 0x100FFF sample_pt 0x100FFD 2"
proof -
  have "byte_ptr sample_pt y = Some (bm_ptr sample_fcram + 0x1000 + y mod CITRA_PAGE_SIZE)" "y mod CITRA_PAGE_SIZE < 0xFFF"
    "0xFFD \<le> y mod CITRA_PAGE_SIZE" if "0x100FFD \<le> y" "y < 0x100FFF" for y
  proof -
    from that have "y = 0x100FFD \<or> y = 0x100FFE" by arith
    then show "byte_ptr sample_pt y = Some (bm_ptr sample_fcram + 0x1000 + y mod CITRA_PAGE_SIZE)"
      "y mod CITRA_PAGE_SIZE < 0xFFF" "0xFFD \<le> y mod CITRA_PAGE_SIZE"
      by (auto simp: byte_ptr_def sample_pt_def CITRA_PAGE_SIZE_def GetPtr_def)
  qed
  moreover have "x = 0x100FFF \<or> x = 0x101000" if "0x100FFF \<le> x" "x < 0x100FFF + 2" for x :: nat using that by arith
  ultimately show ?thesis unfolding apart_def by (fastforce simp: sample_bytes)
qed

theorem CopyBlock_bytes_witness:
  "\<exists>ms'. CopyBlock (\<lambda>_ _ _ h. h) sample_pt sample_pt 0x100FFF 0x100FFD 2 sample_ms = Ok ms' ()"
proof -
  have "plain_range sample_pt 0x100FFD 2"
    by (auto simp: plain_range_def sample_bytes CITRA_PAGE_SIZE_def PAGE_TABLE_NUM_ENTRIES_def)
  from CopyBlock_bytes [OF this sample_range(1) sample_apart] show ?thesis by auto
qed

section \<open>Guest memory of a process\<close>

text \<open>
  The page table of a process agrees byte by byte with its address space: a free address has no host byte,
  a mapped one has the host byte of its area.
\<close>

lemma vm_byte_ptr:
  assumes inv: "vm_inv H cached vm" and a: "a < MAX_ADDRESS" and nc: "\<not> cached (a div CITRA_PAGE_SIZE)"
  shows "plain (vm_page_table vm) a"
    "byte_ptr (vm_page_table vm) a = (if type_at vm a = Some BackingMemory then Some (host_ptr vm a) else None)"
proof -
  note t = vm_inv_tiles [OF inv]
  obtain xs v ys where v: "vma_map vm = xs @ v # ys" "inside a v"
    using FindVMA_obtain [OF tiles_covers [OF t] a] by blast
  then have vm: "v \<in> set (vma_map vm)" by simp
  let ?p = "a div CITRA_PAGE_SIZE" and ?b = "a div CITRA_PAGE_SIZE * CITRA_PAGE_SIZE"
  have le: "vbase v \<le> ?b" using tiles_aligned [OF t vm] v(2) by (metis dvd_div_mult_self inside_def div_le_mono mult_le_mono1)
  have b: "?b + a mod CITRA_PAGE_SIZE = a" by (rule div_mult_mod_eq)
  with v(2) have "?b < vend v" unfolding inside_def by linarith
  with le have ib: "inside ?b v" by (simp add: inside_def)
  have at: "contents vm a = Some (vattr v a)" "contents vm ?b = Some (vattr v ?b)"
    using attr_map_in [OF tiles_covers [OF t] vm] v(2) ib by auto
  have pg: "page_ok cached (vm_page_table vm) ?p (Some (vattr v ?b))"
    using t at(2) unfolding tiles_def pt_ok_def by metis
  have lt: "?p < PAGE_TABLE_NUM_ENTRIES" using a by (simp add: MAX_ADDRESS_def CITRA_PAGE_SIZE_def PAGE_TABLE_NUM_ENTRIES_def)
  show "plain (vm_page_table vm) a"
    using pg nc lt by (cases "vtype v") (auto simp: plain_def page_ok_def vattr_def page_unmapped_def page_backed_def)
  show "byte_ptr (vm_page_table vm) a = (if type_at vm a = Some BackingMemory then Some (host_ptr vm a) else None)"
    using pg nc le b at(1) v(2) [unfolded inside_def]
    by (cases "vtype v") (auto simp: byte_ptr_def page_ok_def vattr_def page_unmapped_def page_backed_def type_at_def host_ptr_def)
qed

text \<open>
  Property (C31): What a process reads. For an address space in a reachable state, reading a block that the
  rasterizer has not cached returns, for every address, the host byte its area is backed by and zero
  where the address space is free; nothing is changed.
\<close>

theorem ReadBlock_process:
  assumes "vm_inv H cached vm" "a + n \<le> MAX_ADDRESS"
    "\<forall>x. a \<le> x \<and> x < a + n \<longrightarrow> \<not> cached (x div CITRA_PAGE_SIZE)"
  shows "ReadBlock gpu (vm_page_table vm) a n ms =
    Ok ms (map (\<lambda>x. if type_at vm x = Some BackingMemory then host ms (host_ptr vm x) else 0) [a..<a + n])"
proof -
  have b: "plain (vm_page_table vm) x"
    "byte_ptr (vm_page_table vm) x = (if type_at vm x = Some BackingMemory then Some (host_ptr vm x) else None)"
    if "a \<le> x" "x < a + n" for x
    using vm_byte_ptr [OF assms(1), of x] assms(2,3) that by auto
  then have "ReadBlock gpu (vm_page_table vm) a n ms = Ok ms (peek (vm_page_table vm) a n (host ms))"
    by (intro ReadBlock_peek) (simp add: plain_range_def)
  also have "peek (vm_page_table vm) a n (host ms) =
      map (\<lambda>x. if type_at vm x = Some BackingMemory then host ms (host_ptr vm x) else 0) [a..<a + n]"
    unfolding peek_def by (rule map_cong [OF refl]) (simp add: b)
  finally show ?thesis .
qed

theorem ReadBlock_process_witness:
  "\<exists>vm :: vm_manager. ReadBlock (\<lambda>_ _ _ h. h) (vm_page_table vm) 0x100FFF 2 sample_ms = Ok sample_ms [7, 7]"
proof -
  obtain vm where vm: "vm_inv {sample_fcram} no_cache vm" "no_free_in vm 0x100000 0x3000"
    "\<forall>a. 0x100000 \<le> a \<and> a < 0x103000 \<longrightarrow>
      contents vm a = Some (BackingMemory, PermReadWrite, StPrivate, GetPtr sample_ref + (a - 0x100000))"
    by (rule sample_vm)
  have "[0x100FFF..<0x100FFF + 2] = [0x100FFF, 0x101000::nat]" by (simp add: upt_conv_Cons)
  moreover have "type_at vm 0x100FFF = Some BackingMemory" "type_at vm 0x101000 = Some BackingMemory"
    using vm(3) by (simp_all add: type_at_def)
  ultimately have "ReadBlock (\<lambda>_ _ _ h. h) (vm_page_table vm) 0x100FFF 2 sample_ms = Ok sample_ms [7, 7]"
    using ReadBlock_process [OF vm(1), of "0x100FFF" 2 "\<lambda>_ _ _ h. h" sample_ms]
    by (simp add: MAX_ADDRESS_def sample_ms_def)
  then show ?thesis by (rule exI)
qed

section \<open>Single accesses\<close>

text \<open>The pointer of a page is set exactly when the page is plain memory.\<close>

definition fast_path_ok :: "page_table \<Rightarrow> nat \<Rightarrow> bool" where
  "fast_path_ok pt idx \<longleftrightarrow> (GetPtr (pointers pt idx) \<noteq> 0 \<longleftrightarrow> attributes pt idx = MemoryPage)"

lemma one_chunk:
  "0 < n \<Longrightarrow> a mod CITRA_PAGE_SIZE + n \<le> CITRA_PAGE_SIZE \<Longrightarrow> chunks_of a n = [(a div CITRA_PAGE_SIZE, a mod CITRA_PAGE_SIZE, n)]"
  by (simp add: chunks_of_def block_chunks.simps [of _ "a mod CITRA_PAGE_SIZE"] block_chunks.simps [of _ 0 0] Let_def min_def) auto

text \<open>
  Property (C32): The fast path agrees with the slow one. On a page whose pointer is set exactly when it is plain
  memory, reading or writing a value that does not cross the page below the physical alias does the same as
  \<^verbatim>\<open>ReadBlock\<close> or \<^verbatim>\<open>WriteBlock\<close> of its bytes, including on watched pages and unmapped ones.
\<close>

theorem Read_Write_as_blocks:
  assumes "plain pt a" "fast_path_ok pt (a div CITRA_PAGE_SIZE)" "a < LUMA_ALIAS"
    "0 < length bs" "a mod CITRA_PAGE_SIZE + length bs \<le> CITRA_PAGE_SIZE"
  shows "Read gpu gpu_reg pt (length bs) a ms = ReadBlock gpu pt a (length bs) ms \<and>
    Write gpu gpu_set pt a bs ms = WriteBlock gpu pt a bs ms"
proof -
  have c: "chunks_of a (length bs) = [(a div CITRA_PAGE_SIZE, a mod CITRA_PAGE_SIZE, length bs)]"
    using one_chunk assms(4,5) by simp
  note d = page_access_def plain_def fast_path_ok_def Let_def c
  have "Read gpu gpu_reg pt (length bs) a ms = ReadBlock gpu pt a (length bs) ms"
    using assms(1-3) by (cases "attributes pt (a div CITRA_PAGE_SIZE)")
      (auto simp: Read_def Read_slow_def ReadBlock_def d split: option.splits)
  moreover have "Write gpu gpu_set pt a bs ms = WriteBlock gpu pt a bs ms"
    using assms(1-3) by (cases "attributes pt (a div CITRA_PAGE_SIZE)")
      (auto simp: Write_def Write_slow_def WriteBlock_def d split: option.splits)
  ultimately show ?thesis ..
qed

theorem Read_Write_as_blocks_witness:
  "Read (\<lambda>_ _ _ h. h) (\<lambda>_ _. []) sample_pt 4 0x100FF0 sample_ms = ReadBlock (\<lambda>_ _ _ h. h) sample_pt 0x100FF0 4 sample_ms \<and>
   Write (\<lambda>_ _ _ h. h) (\<lambda>_ _ h. h) sample_pt 0x100FF0 [1, 2, 3, 4] sample_ms =
     WriteBlock (\<lambda>_ _ _ h. h) sample_pt 0x100FF0 [1, 2, 3, 4] sample_ms"
proof -
  have "plain sample_pt 0x100FF0" "fast_path_ok sample_pt (0x100FF0 div CITRA_PAGE_SIZE)"
    by (simp add: sample_bytes CITRA_PAGE_SIZE_def PAGE_TABLE_NUM_ENTRIES_def)
      (simp add: CITRA_PAGE_SIZE_def fast_path_ok_def sample_pt_def GetPtr_def sample_fcram_def)
  note r = Read_Write_as_blocks [OF this, of "[1, 2, 3, 4]"]
  have n: "length [1, 2, 3, 4 :: u8] = 4" by simp
  have "(0x100FF0 :: nat) < LUMA_ALIAS" "(0x100FF0 :: nat) mod CITRA_PAGE_SIZE + 4 \<le> CITRA_PAGE_SIZE"
    by (simp_all add: LUMA_ALIAS_def CITRA_PAGE_SIZE_def)
  then show ?thesis using r unfolding n by simp
qed

section \<open>Watchpoints\<close>

definition watch_type :: "page_type \<Rightarrow> bool" where
  "watch_type t \<longleftrightarrow> t = MemoryWatchpoint \<or> t = RasterizerCachedMemoryWatchpoint"

text \<open>Pages that are watched already, or that a watchpoint can be put on.\<close>

definition watchable :: "mem_sys \<Rightarrow> page_table \<Rightarrow> nat \<Rightarrow> bool" where
  "watchable ms pt idx \<longleftrightarrow>
     (case watchpoint_pages_map pt idx of
        Some info \<Rightarrow> 0 < watchpoint_count info \<and> watchpoint_count info < 0xFFFFFFFF \<and> watch_type (attributes pt idx)
      | None \<Rightarrow> attributes pt idx = MemoryPage \<or>
          attributes pt idx = RasterizerCachedMemory \<and> GetPointerForRasterizerCache ms (idx * CITRA_PAGE_SIZE) \<noteq> None)"

definition watched :: "mem_sys \<Rightarrow> nat \<Rightarrow> page_table \<Rightarrow> page_table" where
  "watched ms idx pt = (case watch_page ms idx pt of Some (Some pt1) \<Rightarrow> pt1 | _ \<Rightarrow> pt)"

lemma watch_page_watchable: "watchable ms pt idx \<Longrightarrow> watch_page ms idx pt = Some (Some (watched ms idx pt))"
  by (auto simp: watchable_def watched_def watch_page_def split: option.splits)

lemma watched_other:
  assumes "j \<noteq> idx"
  shows "attributes (watched ms idx pt) j = attributes pt j" "pointers (watched ms idx pt) j = pointers pt j"
    "watchpoint_pages_map (watched ms idx pt) j = watchpoint_pages_map pt j"
  using assms by (auto simp: watched_def watch_page_def split: option.splits page_type.splits)

lemma watchable_watched_other: "j \<noteq> idx \<Longrightarrow> watchable ms (watched ms idx pt) j = watchable ms pt j"
  by (simp add: watchable_def watched_other split: option.split)

lemma watched_type: "watchable ms pt idx \<Longrightarrow> watch_type (attributes (watched ms idx pt) idx)"
  by (auto simp: watchable_def watched_def watch_page_def watch_type_def split: option.splits)

lemma byte_ptr_watched: "byte_ptr (watched ms idx pt) x = byte_ptr pt x"
  by (auto simp: watched_def watch_page_def byte_ptr_def split: option.splits page_type.splits)

lemma unwatch_watched: "watchable ms pt idx \<Longrightarrow> unwatch_page idx (watched ms idx pt) = pt"
  by (auto simp: watchable_def watched_def watch_page_def unwatch_page_def fun_upd_idem arith32 split: option.splits
      intro!: page_table.equality)

lemma unwatch_watched_commute:
  assumes "i \<noteq> j"
  shows "unwatch_page i (watched ms j pt) = watched ms j (unwatch_page i pt)"
proof (cases "watchpoint_pages_map pt i")
  case None
  with watched_other [OF assms] show ?thesis by (simp add: unwatch_page_def)
next
  case (Some info)
  with assms show ?thesis unfolding watched_def watch_page_def
    by (cases "attributes pt i"; cases "attributes pt j"; cases "watchpoint_pages_map pt j")
      (simp_all add: unwatch_page_def fun_upd_twist Let_def split: option.split)
qed

text \<open>A run of pages, and the two loops as folds over it.\<close>

fun watch_run :: "mem_sys \<Rightarrow> nat list \<Rightarrow> page_table \<Rightarrow> page_table" where
  "watch_run ms [] pt = pt"
| "watch_run ms (p # ps) pt = watch_run ms ps (watched ms p pt)"

lemma watch_run_facts:
  "distinct ps \<Longrightarrow> \<forall>p \<in> set ps. watchable ms pt p \<Longrightarrow>
   (\<forall>x. byte_ptr (watch_run ms ps pt) x = byte_ptr pt x) \<and>
   (\<forall>p \<in> set ps. watch_type (attributes (watch_run ms ps pt) p)) \<and>
   (\<forall>p. p \<notin> set ps \<longrightarrow> attributes (watch_run ms ps pt) p = attributes pt p)"
proof (induction ps arbitrary: pt)
  case (Cons p ps)
  let ?q = "watched ms p pt"
  have w: "\<forall>x \<in> set ps. watchable ms ?q x" using Cons.prems watchable_watched_other [of _ p ms pt] by fastforce
  have "watch_type (attributes ?q p)" using Cons.prems by (simp add: watched_type)
  with Cons.IH [of ?q, OF _ w] Cons.prems(1) show ?case by (auto simp: byte_ptr_watched watched_other)
qed simp

lemma unwatch_watch_run:
  "p \<notin> set ps \<Longrightarrow> unwatch_page p (watch_run ms ps pt) = watch_run ms ps (unwatch_page p pt)"
  by (induction ps arbitrary: pt) (simp_all add: unwatch_watched_commute)

lemma unwatch_run:
  "distinct ps \<Longrightarrow> \<forall>p \<in> set ps. watchable ms pt p \<Longrightarrow> fold unwatch_page ps (watch_run ms ps pt) = pt"
proof (induction ps arbitrary: pt)
  case (Cons p ps)
  then have "fold unwatch_page (p # ps) (watch_run ms (p # ps) pt) = fold unwatch_page ps (watch_run ms ps pt)"
    by (simp add: unwatch_watch_run unwatch_watched)
  with Cons show ?case by simp
qed simp

definition page_limit :: "nat \<Rightarrow> nat" where
  "page_limit fin = (fin + (CITRA_PAGE_SIZE - 1)) div CITRA_PAGE_SIZE"

lemma page_limit_iff: "i * CITRA_PAGE_SIZE < fin \<longleftrightarrow> i < page_limit fin"
  by (auto simp: page_limit_def CITRA_PAGE_SIZE_def)

lemma next_page: "fin \<le> 0xFFFFF000 \<Longrightarrow> a < fin \<Longrightarrow>
  add32 (a - a mod CITRA_PAGE_SIZE) CITRA_PAGE_SIZE = Suc (a div CITRA_PAGE_SIZE) * CITRA_PAGE_SIZE"
  using minus_mod_eq_div_mult [of a CITRA_PAGE_SIZE] by (simp add: add32_small CITRA_PAGE_SIZE_def)

lemma register_loop_aligned:
  assumes fin: "fin \<le> 0xFFFFF000"
  shows "\<forall>p \<in> set [i..<page_limit fin]. watchable ms pt p \<Longrightarrow>
    register_loop ms (i * CITRA_PAGE_SIZE) fin pt = Some (Some (watch_run ms [i..<page_limit fin] pt))"
proof (induction "page_limit fin - i" arbitrary: i pt)
  case 0
  then show ?case using page_limit_iff [of i fin] by (simp add: register_loop.simps [of ms "i * CITRA_PAGE_SIZE"])
next
  case (Suc k)
  then have i: "i < page_limit fin" by simp
  have w: "watchable ms pt i" using Suc.prems i by simp
  have "\<forall>p \<in> set [Suc i..<page_limit fin]. watchable ms (watched ms i pt) p"
    using Suc.prems by (simp add: watchable_watched_other)
  from Suc.hyps(1) [OF _ this] Suc.hyps(2) i w next_page [OF fin, of "i * CITRA_PAGE_SIZE"] show ?case
    by (simp add: register_loop.simps [of ms "i * CITRA_PAGE_SIZE"] page_limit_iff watch_page_watchable upt_conv_Cons)
qed

lemma unregister_loop_aligned:
  assumes fin: "fin \<le> 0xFFFFF000"
  shows "unregister_loop (i * CITRA_PAGE_SIZE) fin pt = Some (fold unwatch_page [i..<page_limit fin] pt)"
proof (induction "page_limit fin - i" arbitrary: i pt)
  case 0
  then show ?case using page_limit_iff [of i fin] by (simp add: unregister_loop.simps [of "i * CITRA_PAGE_SIZE"])
next
  case (Suc k)
  then have i: "i < page_limit fin" by simp
  from Suc.hyps(1) [of "Suc i" "unwatch_page i pt"] Suc.hyps(2) i next_page [OF fin, of "i * CITRA_PAGE_SIZE"] show ?case
    by (simp add: unregister_loop.simps [of "i * CITRA_PAGE_SIZE"] page_limit_iff upt_conv_Cons)
qed

text \<open>An unaligned start only makes the first page shorter.\<close>

lemma loops_align:
  assumes "a < fin" "watchable ms pt (a div CITRA_PAGE_SIZE)"
  shows "register_loop ms a fin pt = register_loop ms (a div CITRA_PAGE_SIZE * CITRA_PAGE_SIZE) fin pt"
    "unregister_loop a fin q = unregister_loop (a div CITRA_PAGE_SIZE * CITRA_PAGE_SIZE) fin q"
proof -
  have lt: "a div CITRA_PAGE_SIZE * CITRA_PAGE_SIZE < fin" using assms(1) div_times_less_eq_dividend [of a CITRA_PAGE_SIZE] by linarith
  have eq: "a - a mod CITRA_PAGE_SIZE = a div CITRA_PAGE_SIZE * CITRA_PAGE_SIZE" by (rule minus_mod_eq_div_mult)
  show "register_loop ms a fin pt = register_loop ms (a div CITRA_PAGE_SIZE * CITRA_PAGE_SIZE) fin pt"
    using assms lt by (simp add: register_loop.simps [of ms a] register_loop.simps [of ms "a div CITRA_PAGE_SIZE * CITRA_PAGE_SIZE"]
        watch_page_watchable eq)
  show "unregister_loop a fin q = unregister_loop (a div CITRA_PAGE_SIZE * CITRA_PAGE_SIZE) fin q"
    using assms(1) lt by (simp add: unregister_loop.simps [of a] unregister_loop.simps [of "a div CITRA_PAGE_SIZE * CITRA_PAGE_SIZE"] eq)
qed



text \<open>
  Property: A page that cannot be watched hangs the debugger. If the first page of a non-empty range is
  unmapped and not watched yet, \<^verbatim>\<open>RegisterWatchpoint\<close> never returns: the loop retries the page
  without advancing.
\<close>

theorem RegisterWatchpoint_hangs:
  assumes "0 < sz" "a + sz < 4294967296" "watchpoint_pages_map pt (a div CITRA_PAGE_SIZE) = None"
    "attributes pt (a div CITRA_PAGE_SIZE) = UnmappedPage"
  shows "RegisterWatchpoint ms a sz pt = None"
proof -
  have "\<not> (c < fin \<and> watch_page ms (c div CITRA_PAGE_SIZE) q = None)" if "register_loop ms c fin q = Some r" for c fin q r
    by (rule register_loop.raw_induct [OF _ that, where P = "\<lambda>ms c fin q _. \<not> (c < fin \<and> watch_page ms (c div CITRA_PAGE_SIZE) q = None)"])
      (fastforce split: if_splits option.splits)
  from this [of a "a + sz" pt] assms show ?thesis
    by (cases "register_loop ms a (a + sz) pt") (auto simp: RegisterWatchpoint_def add32_small watch_page_def)
qed

theorem RegisterWatchpoint_hangs_witness: "RegisterWatchpoint sample_ms 0x2000 4 NewPageTable = None"
  using RegisterWatchpoint_hangs [of 4 "0x2000" NewPageTable sample_ms] by (simp add: NewPageTable_def)

end
