(* ===== verification/ARM_Support.thy ===== *)
theory ARM_Support
  imports Emu_Prelude
begin

text \<open>
  The arithmetic helpers of the ARM interpreter (\<^verbatim>\<open>src/core/arm/skyeye_common/armsupp.cpp\<close>): addition
  with carry and its flags, overflow tests, and the saturating operations behind the parallel and saturating
  media instructions. A function with output parameters returns a tuple. The theorems state each operation
  against integer arithmetic: \<open>sint\<close> and \<open>unat\<close> read a word as signed and unsigned.
\<close>

unbundle bit_operations_syntax

section \<open>Definitions\<close>

definition POS :: "u32 \<Rightarrow> u32" where "POS i = drop_bit 31 (NOT i)"
definition NEG :: "u32 \<Rightarrow> u32" where "NEG i = drop_bit 31 i"

definition ARMul_UnsignedAbsoluteDifference :: "u8 \<Rightarrow> u8 \<Rightarrow> u8" where
  "ARMul_UnsignedAbsoluteDifference left right = (if left > right then left - right else right - left)"

text \<open>The result, whether a carry out and whether a signed overflow occurred; the sums are 64-bit.\<close>

definition AddWithCarry :: "u32 \<Rightarrow> u32 \<Rightarrow> u32 \<Rightarrow> u32 \<times> bool \<times> bool" where
  "AddWithCarry left right carry_in =
     (let unsigned_sum = (ucast left + ucast right + ucast carry_in :: u64);
          signed_sum = (scast left + scast right + ucast carry_in :: u64);
          result = unsigned_sum AND 0xFFFFFFFF
      in (ucast result, result \<noteq> unsigned_sum, (scast (ucast result :: u32) :: u64) \<noteq> signed_sum))"

definition AddOverflow :: "u32 \<Rightarrow> u32 \<Rightarrow> u32 \<Rightarrow> bool" where
  "AddOverflow a b result \<longleftrightarrow>
     (NEG a \<noteq> 0 \<and> NEG b \<noteq> 0 \<and> POS result \<noteq> 0) \<or> (POS a \<noteq> 0 \<and> POS b \<noteq> 0 \<and> NEG result \<noteq> 0)"

definition SubOverflow :: "u32 \<Rightarrow> u32 \<Rightarrow> u32 \<Rightarrow> bool" where
  "SubOverflow a b result \<longleftrightarrow>
     (NEG a \<noteq> 0 \<and> POS b \<noteq> 0 \<and> POS result \<noteq> 0) \<or> (POS a \<noteq> 0 \<and> NEG b \<noteq> 0 \<and> NEG result \<noteq> 0)"

definition ARMul_AddOverflowQ :: "u32 \<Rightarrow> u32 \<Rightarrow> bool" where
  "ARMul_AddOverflowQ a b =
     (let result = a + b
      in (result XOR a) AND 0x80000000 \<noteq> 0 \<and> (a XOR b) AND 0x80000000 = 0)"

definition ARMul_SignedSaturatedAdd8 :: "u8 \<Rightarrow> u8 \<Rightarrow> u8" where
  "ARMul_SignedSaturatedAdd8 left right =
     (let result = left + right
      in if (result XOR left) AND 0x80 \<noteq> 0 \<and> (left XOR right) AND 0x80 = 0
         then (if left AND 0x80 \<noteq> 0 then 0x80 else 0x7F)
         else result)"

definition ARMul_SignedSaturatedSub8 :: "u8 \<Rightarrow> u8 \<Rightarrow> u8" where
  "ARMul_SignedSaturatedSub8 left right =
     (let result = left - right
      in if (result XOR left) AND 0x80 \<noteq> 0 \<and> (left XOR right) AND 0x80 \<noteq> 0
         then (if left AND 0x80 \<noteq> 0 then 0x80 else 0x7F)
         else result)"

definition ARMul_SignedSaturatedAdd16 :: "u16 \<Rightarrow> u16 \<Rightarrow> u16" where
  "ARMul_SignedSaturatedAdd16 left right =
     (let result = left + right
      in if (result XOR left) AND 0x8000 \<noteq> 0 \<and> (left XOR right) AND 0x8000 = 0
         then (if left AND 0x8000 \<noteq> 0 then 0x8000 else 0x7FFF)
         else result)"

definition ARMul_SignedSaturatedSub16 :: "u16 \<Rightarrow> u16 \<Rightarrow> u16" where
  "ARMul_SignedSaturatedSub16 left right =
     (let result = left - right
      in if (result XOR left) AND 0x8000 \<noteq> 0 \<and> (left XOR right) AND 0x8000 \<noteq> 0
         then (if left AND 0x8000 \<noteq> 0 then 0x8000 else 0x7FFF)
         else result)"

definition ARMul_UnsignedSaturatedAdd8 :: "u8 \<Rightarrow> u8 \<Rightarrow> u8" where
  "ARMul_UnsignedSaturatedAdd8 left right =
     (let result = left + right in if result < left then 0xFF else result)"

definition ARMul_UnsignedSaturatedAdd16 :: "u16 \<Rightarrow> u16 \<Rightarrow> u16" where
  "ARMul_UnsignedSaturatedAdd16 left right =
     (let result = left + right in if result < left then 0xFFFF else result)"

definition ARMul_UnsignedSaturatedSub8 :: "u8 \<Rightarrow> u8 \<Rightarrow> u8" where
  "ARMul_UnsignedSaturatedSub8 left right = (if left \<le> right then 0 else left - right)"

definition ARMul_UnsignedSaturatedSub16 :: "u16 \<Rightarrow> u16 \<Rightarrow> u16" where
  "ARMul_UnsignedSaturatedSub16 left right = (if left \<le> right then 0 else left - right)"

text \<open>
  \<^verbatim>\<open>value >> shift\<close> on a signed value is the arithmetic shift, division of \<open>sint value\<close> rounding down.
\<close>

definition ARMul_SignedSatQ :: "u32 \<Rightarrow> nat \<Rightarrow> u32 \<times> bool" where
  "ARMul_SignedSatQ v shift =
     (let max = push_bit shift 1 - 1; top = sint v div 2 ^ shift
      in if top > 0 then (max, True) else if top < -1 then (NOT max, True) else (v, False))"

definition ARMul_UnsignedSatQ :: "u32 \<Rightarrow> nat \<Rightarrow> u32 \<times> bool" where
  "ARMul_UnsignedSatQ v shift =
     (let max = push_bit shift 1 - 1
      in if sint v < 0 then (0, True) else if v > max then (max, True) else (v, False))"

section \<open>Words as integers\<close>

lemma and_top8: "(x :: u8) AND 0x80 = 0 \<longleftrightarrow> \<not> bit x 7"
  using and_exp_eq_0_iff_not_bit [of x 7] by simp

lemma and_top16: "(x :: u16) AND 0x8000 = 0 \<longleftrightarrow> \<not> bit x 15"
  using and_exp_eq_0_iff_not_bit [of x 15] by simp

lemma and_top32: "(x :: u32) AND 0x80000000 = 0 \<longleftrightarrow> \<not> bit x 31"
  using and_exp_eq_0_iff_not_bit [of x 31] by simp

lemma bit_top: "bit (x :: u8) 7 \<longleftrightarrow> sint x < 0" "bit (y :: u16) 15 \<longleftrightarrow> sint y < 0" "bit (z :: u32) 31 \<longleftrightarrow> sint z < 0"
  using bit_last_iff [of x] bit_last_iff [of y] bit_last_iff [of z] by simp_all

lemma sint_bounds8: "- 128 \<le> sint (x :: u8)" "sint x < 128"
  using sint_greater_eq [of x] sint_less [of x] by simp_all

lemma sint_bounds16: "- 32768 \<le> sint (x :: u16)" "sint x < 32768"
  using sint_greater_eq [of x] sint_less [of x] by simp_all

lemma sint_bounds32: "- 2147483648 \<le> sint (x :: u32)" "sint x < 2147483648"
  using sint_greater_eq [of x] sint_less [of x] by simp_all

text \<open>The signed value of a wrapped sum or difference.\<close>

lemma sint_wrap8:
  "sint (x + y :: u8) = (sint x + sint y + 128) mod 256 - 128"
  "sint (x - y :: u8) = (sint x - sint y + 128) mod 256 - 128"
  by (simp_all add: sint_word_ariths signed_take_bit_eq_take_bit_shift take_bit_eq_mod)

lemma sint_wrap16:
  "sint (x + y :: u16) = (sint x + sint y + 32768) mod 65536 - 32768"
  "sint (x - y :: u16) = (sint x - sint y + 32768) mod 65536 - 32768"
  by (simp_all add: sint_word_ariths signed_take_bit_eq_take_bit_shift take_bit_eq_mod)

lemma sint_wrap32:
  "sint (x + y :: u32) = (sint x + sint y + 2147483648) mod 4294967296 - 2147483648"
  "sint (x - y :: u32) = (sint x - sint y + 2147483648) mod 4294967296 - 2147483648"
  by (simp_all add: sint_word_ariths signed_take_bit_eq_take_bit_shift take_bit_eq_mod)

text \<open>A sum that is out of range by at most one turn, wrapped into range.\<close>

lemma mod_turn:
  fixes s m :: int
  assumes "- m \<le> s" "s < 2 * m"
  shows "s mod m = (if s < 0 then s + m else if m \<le> s then s - m else s)"
proof -
  consider "s < 0" | "0 \<le> s" "s < m" | "m \<le> s" by linarith
  then show ?thesis
  proof cases
    case 1
    then have "(s + m) mod m = s + m" using assms by (intro mod_pos_pos_trivial) auto
    with 1 show ?thesis by simp
  next
    case 2
    then show ?thesis by simp
  next
    case 3
    then have "(s - m) mod m = s - m" using assms by (intro mod_pos_pos_trivial) auto
    moreover have "(s - m) mod m = s mod m" by (rule minus_mod_self2)
    ultimately show ?thesis using 3 assms by simp
  qed
qed

definition clamp :: "int \<Rightarrow> int \<Rightarrow> int \<Rightarrow> int" where
  "clamp lo hi x = max lo (min hi x)"

lemma signed_add8: "sint (ARMul_SignedSaturatedAdd8 l r) = clamp (- 128) 127 (sint l + sint r)"
  using sint_bounds8 [of l] sint_bounds8 [of r] mod_turn [of 256 "sint l + sint r + 128"]
  by (simp add: ARMul_SignedSaturatedAdd8_def Let_def and_top8 bit_xor_iff)
    (auto simp: bit_top sint_wrap8 clamp_def split: if_splits)

lemma signed_sub8: "sint (ARMul_SignedSaturatedSub8 l r) = clamp (- 128) 127 (sint l - sint r)"
  using sint_bounds8 [of l] sint_bounds8 [of r] mod_turn [of 256 "sint l - sint r + 128"]
  by (simp add: ARMul_SignedSaturatedSub8_def Let_def and_top8 bit_xor_iff)
    (auto simp: bit_top sint_wrap8 clamp_def split: if_splits)

lemma signed_add16: "sint (ARMul_SignedSaturatedAdd16 l r) = clamp (- 32768) 32767 (sint l + sint r)"
  using sint_bounds16 [of l] sint_bounds16 [of r] mod_turn [of 65536 "sint l + sint r + 32768"]
  by (simp add: ARMul_SignedSaturatedAdd16_def Let_def and_top16 bit_xor_iff)
    (auto simp: bit_top sint_wrap16 clamp_def split: if_splits)

lemma signed_sub16: "sint (ARMul_SignedSaturatedSub16 l r) = clamp (- 32768) 32767 (sint l - sint r)"
  using sint_bounds16 [of l] sint_bounds16 [of r] mod_turn [of 65536 "sint l - sint r + 32768"]
  by (simp add: ARMul_SignedSaturatedSub16_def Let_def and_top16 bit_xor_iff)
    (auto simp: bit_top sint_wrap16 clamp_def split: if_splits)

lemma unsigned_add8: "unat (ARMul_UnsignedSaturatedAdd8 l r) = min 255 (unat l + unat r)"
proof -
  have "unat l < 256" "unat r < 256" using unsigned_less [of l] unsigned_less [of r] by simp_all
  then show ?thesis
    by (auto simp: ARMul_UnsignedSaturatedAdd8_def Let_def word_less_nat_alt unat_word_ariths mod_if)
qed

lemma unsigned_add16: "unat (ARMul_UnsignedSaturatedAdd16 l r) = min 65535 (unat l + unat r)"
proof -
  have "unat l < 65536" "unat r < 65536" using unsigned_less [of l] unsigned_less [of r] by simp_all
  then show ?thesis
    by (auto simp: ARMul_UnsignedSaturatedAdd16_def Let_def word_less_nat_alt unat_word_ariths mod_if)
qed

section \<open>Properties\<close>

text \<open>
  Property: The four signed saturating operations compute the exact integer sum or difference clamped to the
  range of their width.
\<close>

theorem signed_saturation:
  "sint (ARMul_SignedSaturatedAdd8 l r) = clamp (- 128) 127 (sint l + sint r) \<and>
   sint (ARMul_SignedSaturatedSub8 l r) = clamp (- 128) 127 (sint l - sint r) \<and>
   sint (ARMul_SignedSaturatedAdd16 l' r') = clamp (- 32768) 32767 (sint l' + sint r') \<and>
   sint (ARMul_SignedSaturatedSub16 l' r') = clamp (- 32768) 32767 (sint l' - sint r')"
  by (simp add: signed_add8 signed_sub8 signed_add16 signed_sub16)

text \<open>
  Property: The unsigned saturating operations compute the exact sum capped at the largest value of their width
  and the difference floored at zero, and the absolute difference is the absolute difference.
\<close>

theorem unsigned_saturation:
  "unat (ARMul_UnsignedSaturatedAdd8 l r) = min 255 (unat l + unat r) \<and>
   unat (ARMul_UnsignedSaturatedSub8 l r) = unat l - unat r \<and>
   unat (ARMul_UnsignedSaturatedAdd16 l' r') = min 65535 (unat l' + unat r') \<and>
   unat (ARMul_UnsignedSaturatedSub16 l' r') = unat l' - unat r' \<and>
   int (unat (ARMul_UnsignedAbsoluteDifference l r)) = \<bar>uint l - uint r\<bar>"
proof -
  have "int (unat (ARMul_UnsignedAbsoluteDifference l r)) = \<bar>uint l - uint r\<bar>"
    by (auto simp: ARMul_UnsignedAbsoluteDifference_def word_less_def uint_sub_lem [THEN iffD1] word_le_def)
  then show ?thesis
    by (auto simp: unsigned_add8 unsigned_add16 ARMul_UnsignedSaturatedSub8_def ARMul_UnsignedSaturatedSub16_def
        word_le_nat_alt unat_sub_if')
qed

definition in_s32 :: "int \<Rightarrow> bool" where
  "in_s32 x \<longleftrightarrow> - 2147483648 \<le> x \<and> x < 2147483648"

text \<open>A 32-bit word congruent to \<open>s\<close> reads as \<open>s\<close> exactly when \<open>s\<close> is in range.\<close>

lemma sint_of_int_iff: "sint (word_of_int s :: u32) = s \<longleftrightarrow> in_s32 s"
  by (simp add: int_word_sint in_s32_def) (auto simp: mod_if)

lemma bit_of_shifted: "drop_bit 31 (x :: u32) = 0 \<longleftrightarrow> \<not> bit x 31"
proof
  assume "drop_bit 31 x = 0"
  then have "\<not> bit (drop_bit 31 x) 0" by simp
  then show "\<not> bit x 31" by (simp add: bit_drop_bit_eq)
next
  assume "\<not> bit x 31"
  then have "\<not> bit x (31 + n)" for n by (cases n) (auto dest: bit_imp_le_length)
  then show "drop_bit 31 x = 0" by (intro bit_word_eqI) (simp add: bit_drop_bit_eq)
qed

lemma NEG_iff: "NEG x \<noteq> 0 \<longleftrightarrow> sint x < 0"
  by (simp add: NEG_def bit_of_shifted bit_top)

lemma POS_iff: "POS x \<noteq> 0 \<longleftrightarrow> \<not> sint x < 0"
  by (simp add: POS_def bit_of_shifted bit_not_iff) (simp add: bit_top)

lemma AddOverflow_iff: "AddOverflow a b (a + b) \<longleftrightarrow> \<not> in_s32 (sint a + sint b)"
  using sint_bounds32 [of a] sint_bounds32 [of b] mod_turn [of 4294967296 "sint a + sint b + 2147483648"]
  by (auto simp: AddOverflow_def NEG_iff POS_iff sint_wrap32 in_s32_def split: if_splits)

lemma SubOverflow_iff: "SubOverflow a b (a - b) \<longleftrightarrow> \<not> in_s32 (sint a - sint b)"
  using sint_bounds32 [of a] sint_bounds32 [of b] mod_turn [of 4294967296 "sint a - sint b + 2147483648"]
  by (auto simp: SubOverflow_def NEG_iff POS_iff sint_wrap32 in_s32_def split: if_splits)

lemma AddOverflowQ_iff: "ARMul_AddOverflowQ a b \<longleftrightarrow> \<not> in_s32 (sint a + sint b)"
  using sint_bounds32 [of a] sint_bounds32 [of b] mod_turn [of 4294967296 "sint a + sint b + 2147483648"]
  by (simp add: ARMul_AddOverflowQ_def Let_def and_top32 bit_xor_iff)
    (auto simp: bit_top sint_wrap32 in_s32_def split: if_splits)

lemma u64_sum: "uint (ucast (a :: u32) + ucast (b :: u32) + ucast (c :: u32) :: u64) = uint a + uint b + uint c"
proof -
  have "uint a < 4294967296" "uint b < 4294967296" "uint c < 4294967296"
    using uint_lt2p [of a] uint_lt2p [of b] uint_lt2p [of c] by simp_all
  then show ?thesis by (simp add: uint_word_ariths unsigned_ucast_eq take_bit_int_eq_self)
qed

lemma sint_of_int64: "- 9223372036854775808 \<le> k \<Longrightarrow> k < 9223372036854775808 \<Longrightarrow> sint (word_of_int k :: u64) = k"
  by (simp add: int_word_sint)

lemma s64_sum:
  "sint (scast (a :: u32) + scast (b :: u32) + ucast (c :: u32) :: u64) = sint a + sint b + uint c"
proof -
  have c: "0 \<le> uint c" "uint c < 4294967296" using uint_lt2p [of c] by simp_all
  have "(scast a + scast b + ucast c :: u64) = word_of_int (sint a + sint b + uint c)" by simp
  moreover have "sint (word_of_int (sint a + sint b + uint c) :: u64) = sint a + sint b + uint c"
    by (rule sint_of_int64) (use sint_bounds32 [of a] sint_bounds32 [of b] c in linarith)+
  ultimately show ?thesis by simp
qed

lemma word_sum: "a + b + c = (word_of_int (uint a + uint b + uint c) :: u32)"
  "a + b + c = (word_of_int (sint a + sint b + uint c) :: u32)"
  by simp_all

lemma sint_scast64: "sint (scast (x :: u32) :: u64) = sint x"
proof -
  have "sint (word_of_int (sint x) :: u64) = sint x"
    by (rule sint_of_int64) (use sint_bounds32 [of x] in linarith)+
  then show ?thesis by simp
qed

text \<open>
  Property (C34): \<^verbatim>\<open>AddWithCarry\<close> returns the sum modulo 2^32, a carry exactly when the unsigned sum does not fit in
  32 bits and an overflow exactly when the signed sum does not; the other overflow tests agree with it.
\<close>

theorem arithmetic_flags:
  "AddWithCarry l r c =
     (l + r + c, 4294967296 \<le> uint l + uint r + uint c, \<not> in_s32 (sint l + sint r + uint c)) \<and>
   (AddOverflow l r (l + r) \<longleftrightarrow> \<not> in_s32 (sint l + sint r)) \<and>
   (SubOverflow l r (l - r) \<longleftrightarrow> \<not> in_s32 (sint l - sint r)) \<and>
   (ARMul_AddOverflowQ l r \<longleftrightarrow> \<not> in_s32 (sint l + sint r))"
proof -
  let ?S = "ucast l + ucast r + ucast c :: u64"
  have "(0xFFFFFFFF :: u64) = mask 32" by (simp add: mask_eq_exp_minus_1)
  then have res: "?S AND 0xFFFFFFFF = take_bit 32 ?S" by (simp add: take_bit_eq_mask)
  have uint_res: "uint (take_bit 32 ?S) = (uint l + uint r + uint c) mod 4294967296"
    unfolding unsigned_take_bit_eq u64_sum by (simp add: take_bit_eq_mod)
  have fst: "ucast (take_bit 32 ?S) = l + r + c"
    by (rule bit_word_eqI) (simp add: bit_simps word_sum(1) flip: bit_uint_iff u64_sum)
  have pos: "0 \<le> uint l + uint r + uint c" by simp
  have "take_bit 32 ?S \<noteq> ?S \<longleftrightarrow> uint (take_bit 32 ?S) \<noteq> uint ?S" by (simp add: word_uint_eq_iff)
  also have "\<dots> \<longleftrightarrow> 4294967296 \<le> uint l + uint r + uint c"
    unfolding uint_res u64_sum using pos mod_pos_pos_trivial [OF pos, of 4294967296]
      pos_mod_bound [of 4294967296 "uint l + uint r + uint c"] by linarith
  finally have carry: "take_bit 32 ?S \<noteq> ?S \<longleftrightarrow> 4294967296 \<le> uint l + uint r + uint c" .
  have "(scast (l + r + c) :: u64) \<noteq> scast l + scast r + ucast c \<longleftrightarrow>
      sint (scast (l + r + c) :: u64) \<noteq> sint (scast l + scast r + ucast c :: u64)" by (auto dest: signed_word_eqI)
  also have "\<dots> \<longleftrightarrow> sint (l + r + c) \<noteq> sint l + sint r + uint c" unfolding s64_sum sint_scast64 ..
  also have "\<dots> \<longleftrightarrow> \<not> in_s32 (sint l + sint r + uint c)" unfolding word_sum(2) sint_of_int_iff ..
  finally show ?thesis
    using carry by (simp add: AddWithCarry_def Let_def res fst AddOverflow_iff SubOverflow_iff AddOverflowQ_iff)
qed

lemma uint_nonneg: "0 \<le> sint (v :: u32) \<Longrightarrow> uint v = sint v"
  using uint_lt2p [of v] int_word_sint [of "uint v", where 'a = 32] mod_turn [of 4294967296 "uint v + 2147483648"]
  by (simp split: if_splits)

lemma sat_max:
  assumes "n < 32"
  shows "sint (2 ^ n - 1 :: u32) = 2 ^ n - 1" "uint (2 ^ n - 1 :: u32) = 2 ^ n - 1"
    "sint (NOT (2 ^ n - 1) :: u32) = - (2 ^ n)"
proof -
  have le: "(2 :: int) ^ n \<le> 2 ^ 31" using assms by (intro power_increasing) auto
  have max: "(2 ^ n - 1 :: u32) = word_of_int (2 ^ n - 1)" by simp
  have neg: "NOT (2 ^ n - 1 :: u32) = word_of_int (- (2 ^ n))" by (simp add: not_eq_complement)
  have "in_s32 (2 ^ n - 1)" "in_s32 (- (2 ^ n))"
    using le zero_less_power [of "2 :: int" n, OF zero_less_numeral] unfolding in_s32_def
    by (simp_all del: zero_less_power)
  then have "sint (word_of_int (2 ^ n - 1) :: u32) = 2 ^ n - 1" "sint (word_of_int (- (2 ^ n)) :: u32) = - (2 ^ n)"
    by (simp_all only: sint_of_int_iff)
  then show m: "sint (2 ^ n - 1 :: u32) = 2 ^ n - 1" and "sint (NOT (2 ^ n - 1) :: u32) = - (2 ^ n)"
    by (simp_all only: neg max [symmetric])
  from m show "uint (2 ^ n - 1 :: u32) = 2 ^ n - 1" using uint_nonneg [of "2 ^ n - 1"] by simp
qed

text \<open>
  Property: The 32-bit saturation helpers clamp: for every bit position \<open>n\<close> of an instruction, the signed one
  clamps to -2^n .. 2^n - 1 and the unsigned one to 0 .. 2^n - 1, and both report saturation exactly when the
  value was outside.
\<close>

theorem saturation_to_width:
  assumes "n < 32"
  shows "sint (fst (ARMul_SignedSatQ v n)) = clamp (- (2 ^ n)) (2 ^ n - 1) (sint v) \<and>
    (snd (ARMul_SignedSatQ v n) \<longleftrightarrow> \<not> (- (2 ^ n) \<le> sint v \<and> sint v < 2 ^ n)) \<and>
    uint (fst (ARMul_UnsignedSatQ v n)) = clamp 0 (2 ^ n - 1) (sint v) \<and>
    (snd (ARMul_UnsignedSatQ v n) \<longleftrightarrow> \<not> (0 \<le> sint v \<and> sint v < 2 ^ n))"
proof -
  note max = sat_max [OF assms]
  have p: "(0 :: int) < 2 ^ n" by simp
  have hi: "0 < sint v div 2 ^ n \<longleftrightarrow> 2 ^ n \<le> sint v" by (rule pos_imp_zdiv_pos_iff [OF p])
  have "(sint v + 2 ^ n) div 2 ^ n = sint v div 2 ^ n + 1" using p by (intro div_add_self2) simp
  then have lo: "sint v div 2 ^ n < -1 \<longleftrightarrow> sint v < - (2 ^ n)"
    using pos_imp_zdiv_neg_iff [OF p, of "sint v + 2 ^ n"] by linarith
  have gt: "2 ^ n - 1 < v \<longleftrightarrow> 2 ^ n - 1 < sint v" if "0 \<le> sint v"
    using that by (simp add: word_less_def max(2) uint_nonneg)
  have "sint (fst (ARMul_SignedSatQ v n)) = clamp (- (2 ^ n)) (2 ^ n - 1) (sint v)"
    using max(1,3) p by (auto simp: ARMul_SignedSatQ_def Let_def hi lo clamp_def)
  moreover have "snd (ARMul_SignedSatQ v n) \<longleftrightarrow> \<not> (- (2 ^ n) \<le> sint v \<and> sint v < 2 ^ n)"
    by (auto simp: ARMul_SignedSatQ_def Let_def hi lo)
  moreover have "uint (fst (ARMul_UnsignedSatQ v n)) = clamp 0 (2 ^ n - 1) (sint v)"
    using max(2) p uint_nonneg [of v] gt by (auto simp: ARMul_UnsignedSatQ_def Let_def clamp_def linorder_not_less)
  moreover have "snd (ARMul_UnsignedSatQ v n) \<longleftrightarrow> \<not> (0 \<le> sint v \<and> sint v < 2 ^ n)"
    using gt by (auto simp: ARMul_UnsignedSatQ_def Let_def)
  ultimately show ?thesis by blast
qed

theorem saturation_to_width_witness:
  "sint (fst (ARMul_SignedSatQ 300 7)) = 127 \<and> snd (ARMul_SignedSatQ 300 7)"
  using saturation_to_width [of 7 300] by (simp add: clamp_def)

end
