(* ===== verification/Std_Heap.thy ===== *)
theory Std_Heap
  imports Emu_Prelude "HOL-Library.Multiset" "HOL-Library.Product_Lexorder"
begin

text \<open>
  The heap algorithms of the standard library (\<^verbatim>\<open>std::push_heap\<close>, \<^verbatim>\<open>std::pop_heap\<close>, \<^verbatim>\<open>std::make_heap\<close>)
  on a vector, for a min-heap ordered by \<open>key\<close>: the parent of index \<open>i\<close> is \<open>(i - 1) div 2\<close>. The interface
  the event queue relies on is the locale \<open>min_queue\<close>; the array operations are an interpretation of it.
\<close>

section \<open>Definitions\<close>

definition parent :: "nat \<Rightarrow> nat" where
  "parent i = (i - 1) div 2"

definition swap :: "'a list \<Rightarrow> nat \<Rightarrow> nat \<Rightarrow> 'a list" where
  "swap xs i j = xs[i := xs ! j, j := xs ! i]"

lemma parent_less [simp]: "0 < i \<Longrightarrow> parent i < i"
  by (simp add: parent_def)

lemma parent_bound: "0 < i \<Longrightarrow> i < n \<Longrightarrow> parent i < n"
  by (simp add: parent_def)

function sift_up :: "('a \<Rightarrow> 'k::linorder) \<Rightarrow> 'a list \<Rightarrow> nat \<Rightarrow> 'a list" where
  "sift_up key xs i =
     (if i = 0 then xs
      else if key (xs ! i) < key (xs ! parent i) then sift_up key (swap xs i (parent i)) (parent i)
      else xs)"
  by pat_completeness auto
termination by (relation "measure (\<lambda>(key, xs, i). i)") auto

definition least_child :: "('a \<Rightarrow> 'k::linorder) \<Rightarrow> 'a list \<Rightarrow> nat \<Rightarrow> nat \<Rightarrow> nat" where
  "least_child key xs i n =
     (if 2 * i + 2 < n \<and> key (xs ! (2 * i + 2)) < key (xs ! (2 * i + 1)) then 2 * i + 2 else 2 * i + 1)"

lemma least_child_cases: "least_child key xs i n = 2 * i + 1 \<or> least_child key xs i n = 2 * i + 2"
  by (simp add: least_child_def)

function sift_down :: "('a \<Rightarrow> 'k::linorder) \<Rightarrow> 'a list \<Rightarrow> nat \<Rightarrow> nat \<Rightarrow> 'a list" where
  "sift_down key xs i n =
     (if 2 * i + 1 < n \<and> key (xs ! least_child key xs i n) < key (xs ! i)
      then sift_down key (swap xs i (least_child key xs i n)) (least_child key xs i n) n
      else xs)"
  by pat_completeness auto
termination
  by (relation "measure (\<lambda>(key, xs, i, n). n - i)") (auto simp: least_child_def)

declare sift_up.simps [simp del] sift_down.simps [simp del]

definition push_heap :: "('a \<Rightarrow> 'k::linorder) \<Rightarrow> 'a list \<Rightarrow> 'a list" where
  "push_heap key xs = sift_up key xs (length xs - 1)"

definition pop_heap :: "('a \<Rightarrow> 'k::linorder) \<Rightarrow> 'a list \<Rightarrow> 'a list" where
  "pop_heap key xs = sift_down key (swap xs 0 (length xs - 1)) 0 (length xs - 1)"

fun make_heap_loop :: "('a \<Rightarrow> 'k::linorder) \<Rightarrow> 'a list \<Rightarrow> nat \<Rightarrow> 'a list" where
  "make_heap_loop key xs 0 = xs"
| "make_heap_loop key xs (Suc i) = make_heap_loop key (sift_down key xs i (length xs)) i"

definition make_heap :: "('a \<Rightarrow> 'k::linorder) \<Rightarrow> 'a list \<Rightarrow> 'a list" where
  "make_heap key xs = make_heap_loop key xs (length xs div 2)"

section \<open>The heap order\<close>

text \<open>\<open>ordered_at\<close>: the element at \<open>j\<close> is not before its parent; \<open>heap_from k\<close>: so for all with a parent from \<open>k\<close> on.\<close>

definition ordered_at :: "('a \<Rightarrow> 'k::linorder) \<Rightarrow> 'a list \<Rightarrow> nat \<Rightarrow> bool" where
  "ordered_at key xs j \<longleftrightarrow> key (xs ! parent j) \<le> key (xs ! j)"

definition heap_from :: "('a \<Rightarrow> 'k::linorder) \<Rightarrow> nat \<Rightarrow> nat \<Rightarrow> 'a list \<Rightarrow> bool" where
  "heap_from key k n xs \<longleftrightarrow> (\<forall>j. 0 < j \<and> j < n \<and> k \<le> parent j \<longrightarrow> ordered_at key xs j)"

abbreviation is_heap :: "('a \<Rightarrow> 'k::linorder) \<Rightarrow> 'a list \<Rightarrow> bool" where
  "is_heap key xs \<equiv> heap_from key 0 (length xs) xs"

lemma length_swap [simp]: "length (swap xs i j) = length xs"
  by (simp add: swap_def)

lemma nth_swap: "i < length xs \<Longrightarrow> j < length xs \<Longrightarrow>
  swap xs i j ! k = (if k = j then xs ! i else if k = i then xs ! j else xs ! k)"
  by (simp add: swap_def nth_list_update)

lemma mset_swap' [simp]: "i < length xs \<Longrightarrow> j < length xs \<Longrightarrow> mset (swap xs i j) = mset xs"
  unfolding swap_def by (rule mset_swap)

lemma parent_child: "parent j = i \<Longrightarrow> 0 < j \<Longrightarrow> j = 2 * i + 1 \<or> j = 2 * i + 2"
  by (auto simp: parent_def)

lemma parent_children [simp]: "parent (2 * i + 1) = i" "parent (2 * i + 2) = i" "parent (Suc (2 * i)) = i" "parent (Suc (Suc (2 * i))) = i"
  by (simp_all add: parent_def)

lemma length_sift_up [simp]: "length (sift_up key xs i) = length xs"
  by (induction key xs i rule: sift_up.induct) (subst sift_up.simps, simp)

lemma mset_sift_up: "i < length xs \<Longrightarrow> mset (sift_up key xs i) = mset xs"
proof (induction key xs i rule: sift_up.induct)
  case (1 key xs i)
  then show ?case using parent_bound [of i "length xs"] by (subst sift_up.simps) auto
qed

lemma length_sift_down [simp]: "length (sift_down key xs i n) = length xs"
  by (induction key xs i n rule: sift_down.induct) (subst sift_down.simps, simp)

lemma least_child_less: "2 * i + 1 < n \<Longrightarrow> least_child key xs i n < n \<and> i < least_child key xs i n"
  by (simp add: least_child_def)

lemma parent_least_child [simp]: "parent (least_child key xs i n) = i"
  by (simp add: least_child_def)

lemma mset_sift_down: "n \<le> length xs \<Longrightarrow> mset (sift_down key xs i n) = mset xs"
proof (induction key xs i n rule: sift_down.induct)
  case (1 key xs i n)
  show ?case
  proof (cases "2 * i + 1 < n \<and> key (xs ! least_child key xs i n) < key (xs ! i)")
    case True
    then have "i < length xs" "least_child key xs i n < length xs"
      using least_child_less [of i n key xs] 1(2) by auto
    then show ?thesis using True 1 by (subst sift_down.simps) simp
  qed (subst sift_down.simps, auto)
qed

text \<open>Positions from \<open>n\<close> on are not touched.\<close>

lemma sift_down_beyond: "n \<le> length xs \<Longrightarrow> n \<le> k \<Longrightarrow> sift_down key xs i n ! k = xs ! k"
proof (induction key xs i n rule: sift_down.induct)
  case (1 key xs i n)
  show ?case
  proof (cases "2 * i + 1 < n \<and> key (xs ! least_child key xs i n) < key (xs ! i)")
    case True
    then have "i < length xs" "least_child key xs i n < length xs" "k \<noteq> i" "k \<noteq> least_child key xs i n"
      using least_child_less [of i n key xs] 1(2,3) by auto
    then show ?thesis using True 1 by (subst sift_down.simps) (simp add: nth_swap)
  qed (subst sift_down.simps, auto)
qed

section \<open>Correctness of the sift operations\<close>

text \<open>
  While an element moves, only its own order may be violated, and its parent is already ordered with respect
  to its children.
\<close>

definition hole_up :: "('a \<Rightarrow> 'k::linorder) \<Rightarrow> nat \<Rightarrow> nat \<Rightarrow> nat \<Rightarrow> 'a list \<Rightarrow> bool" where
  "hole_up key k n i xs \<longleftrightarrow>
     (\<forall>j. 0 < j \<and> j < n \<and> k \<le> parent j \<and> j \<noteq> i \<longrightarrow> ordered_at key xs j) \<and>
     (\<forall>j. 0 < i \<and> k \<le> parent i \<and> 0 < j \<and> j < n \<and> parent j = i \<longrightarrow> key (xs ! parent i) \<le> key (xs ! j))"

definition hole_down :: "('a \<Rightarrow> 'k::linorder) \<Rightarrow> nat \<Rightarrow> nat \<Rightarrow> nat \<Rightarrow> 'a list \<Rightarrow> bool" where
  "hole_down key k n i xs \<longleftrightarrow>
     (\<forall>j. 0 < j \<and> j < n \<and> k \<le> parent j \<and> parent j \<noteq> i \<longrightarrow> ordered_at key xs j) \<and>
     (\<forall>j. 0 < i \<and> k \<le> parent i \<and> 0 < j \<and> j < n \<and> parent j = i \<longrightarrow> key (xs ! parent i) \<le> key (xs ! j))"

lemma hole_up_step:
  assumes h: "hole_up key 0 n i xs" and i: "0 < i" "i < n" "n \<le> length xs" and lt: "key (xs ! i) < key (xs ! parent i)"
  shows "hole_up key 0 n (parent i) (swap xs i (parent i))"
proof -
  let ?p = "parent i"
  have p: "?p < i" using i(1) by simp
  then have sw: "swap xs i ?p ! k = (if k = ?p then xs ! i else if k = i then xs ! ?p else xs ! k)" for k
    using i p by (intro nth_swap) linarith+
  have old: "key (xs ! parent j) \<le> key (xs ! j)" if "0 < j" "j < n" "j \<noteq> i" for j
    using h that by (simp add: hole_up_def ordered_at_def)
  have gap: "key (xs ! ?p) \<le> key (xs ! j)" if "0 < j" "j < n" "parent j = i" for j
    using h that i(1) by (simp add: hole_up_def)
  have "ordered_at key (swap xs i ?p) j" if j: "0 < j" "j < n" "j \<noteq> ?p" for j
  proof -
    consider "j = i" | "j \<noteq> i" "parent j = i" | "j \<noteq> i" "parent j = ?p" | "j \<noteq> i" "parent j \<noteq> i" "parent j \<noteq> ?p" by blast
    then show ?thesis
    proof cases
      case 1
      then show ?thesis using lt p by (simp add: ordered_at_def sw)
    next
      case 2
      then show ?thesis using gap [of j] j p by (simp add: ordered_at_def sw)
    next
      case 3
      then show ?thesis using old [of j] j lt p by (simp add: ordered_at_def sw)
    next
      case 4
      then show ?thesis using old [of j] j by (simp add: ordered_at_def sw)
    qed
  qed
  moreover have "key (swap xs i ?p ! parent ?p) \<le> key (swap xs i ?p ! j)"
    if "0 < ?p" "0 < j" "j < n" "parent j = ?p" for j
  proof -
    have pp: "parent ?p < ?p" using that(1) by simp
    have "key (xs ! parent ?p) \<le> key (xs ! ?p)" using old [of ?p] that(1) p i(2) by simp
    moreover have "key (xs ! ?p) \<le> key (xs ! j)" if "j \<noteq> i" using old [of j] that \<open>0 < j\<close> \<open>j < n\<close> \<open>parent j = ?p\<close> by simp
    moreover have "j \<noteq> ?p" using parent_less [of j] that by auto
    ultimately show ?thesis using pp p by (auto simp: sw)
  qed
  ultimately show ?thesis by (simp add: hole_up_def)
qed

lemma sift_up_heap:
  "hole_up key 0 n i xs \<Longrightarrow> i < n \<Longrightarrow> n \<le> length xs \<Longrightarrow> heap_from key 0 n (sift_up key xs i)"
proof (induction key xs i rule: sift_up.induct)
  case (1 key xs i)
  show ?case
  proof (cases "0 < i \<and> key (xs ! i) < key (xs ! parent i)")
    case True
    then have "hole_up key 0 n (parent i) (swap xs i (parent i))" using hole_up_step 1(2-4) by blast
    moreover have "parent i < n" using 1(3) True parent_less [of i] by linarith
    ultimately show ?thesis using 1 True by (subst sift_up.simps) simp
  next
    case False
    then have "sift_up key xs i = xs" by (subst sift_up.simps) auto
    moreover have "0 < i \<longrightarrow> ordered_at key xs i" using False by (auto simp: ordered_at_def)
    ultimately show ?thesis using 1(2) by (auto simp: hole_up_def heap_from_def)
  qed
qed

lemma hole_down_step:
  assumes h: "hole_down key k n i xs" and i: "2 * i + 1 < n" "n \<le> length xs" "k \<le> i"
    and lt: "key (xs ! least_child key xs i n) < key (xs ! i)"
  shows "hole_down key k n (least_child key xs i n) (swap xs i (least_child key xs i n))"
proof -
  let ?c = "least_child key xs i n"
  have c: "i < ?c" "?c < n" using least_child_less [OF i(1)] by auto
  then have sw: "swap xs i ?c ! m = (if m = ?c then xs ! i else if m = i then xs ! ?c else xs ! m)" for m
    using i by (intro nth_swap) auto
  have old: "key (xs ! parent j) \<le> key (xs ! j)" if "0 < j" "j < n" "k \<le> parent j" "parent j \<noteq> i" for j
    using h that by (simp add: hole_down_def ordered_at_def)
  have gap: "key (xs ! parent i) \<le> key (xs ! j)" if "0 < i" "k \<le> parent i" "0 < j" "j < n" "parent j = i" for j
    using h that by (simp add: hole_down_def)
  have least: "key (xs ! ?c) \<le> key (xs ! j)" if "0 < j" "j < n" "parent j = i" for j
    using parent_child [OF that(3,1)] that(2) i(1) by (auto simp: least_child_def)
  have "ordered_at key (swap xs i ?c) j" if j: "0 < j" "j < n" "k \<le> parent j" "parent j \<noteq> ?c" for j
  proof -
    consider "j = i" | "j = ?c" | "j \<noteq> ?c" "parent j = i" | "j \<noteq> i" "j \<noteq> ?c" "parent j \<noteq> i" by blast
    then show ?thesis
    proof cases
      case 1
      then show ?thesis using gap [of ?c] j c parent_less [of i] by (auto simp: ordered_at_def sw)
    next
      case 2
      then show ?thesis using lt c by (simp add: ordered_at_def sw)
    next
      case 3
      then have "j \<noteq> i" using parent_less [of j] j(1) by auto
      then show ?thesis using 3 least [of j] j c by (simp add: ordered_at_def sw)
    next
      case 4
      then show ?thesis using old [of j] j by (simp add: ordered_at_def sw)
    qed
  qed
  moreover have "key (swap xs i ?c ! parent ?c) \<le> key (swap xs i ?c ! j)" if "0 < j" "j < n" "parent j = ?c" for j
  proof -
    have "j \<noteq> ?c" "j \<noteq> i" using parent_less [OF that(1)] that(3) c(1) by auto
    then show ?thesis using old [of j] that c i(3) by (simp add: sw)
  qed
  ultimately show ?thesis by (simp add: hole_down_def)
qed

lemma sift_down_heap:
  "hole_down key k n i xs \<Longrightarrow> n \<le> length xs \<Longrightarrow> k \<le> i \<Longrightarrow> heap_from key k n (sift_down key xs i n)"
proof (induction key xs i n rule: sift_down.induct)
  case (1 key xs i n)
  let ?c = "least_child key xs i n"
  show ?case
  proof (cases "2 * i + 1 < n \<and> key (xs ! ?c) < key (xs ! i)")
    case True
    then have "hole_down key k n ?c (swap xs i ?c)" using hole_down_step 1(2-4) by blast
    moreover have "k \<le> ?c" using least_child_less [of i n key xs] True 1(4) by linarith
    ultimately show ?thesis using 1 True by (subst sift_down.simps) simp
  next
    case False
    then have "sift_down key xs i n = xs" by (subst sift_down.simps) auto
    moreover have "ordered_at key xs j" if j: "0 < j" "j < n" "parent j = i" for j
    proof -
      have "j = 2 * i + 1 \<or> j = 2 * i + 2" by (rule parent_child [OF j(3,1)])
      then show ?thesis using False j by (auto simp: ordered_at_def least_child_def split: if_splits)
    qed
    ultimately show ?thesis using 1(2) by (auto simp: hole_down_def heap_from_def)
  qed
qed

section \<open>The vector operations\<close>

lemma is_heap_front:
  assumes "is_heap key xs" "i < length xs" shows "key (xs ! 0) \<le> key (xs ! i)"
  using assms(2)
proof (induction i rule: less_induct)
  case (less i)
  show ?case
  proof (cases "i = 0")
    case False
    then have "key (xs ! 0) \<le> key (xs ! parent i)" using less parent_bound by simp
    also have "\<dots> \<le> key (xs ! i)" using assms(1) less(2) False by (simp add: heap_from_def ordered_at_def)
    finally show ?thesis .
  qed simp
qed

lemma heap_from_cong: "(\<And>i. i < n \<Longrightarrow> xs ! i = ys ! i) \<Longrightarrow> heap_from key k n xs = heap_from key k n ys"
  unfolding heap_from_def ordered_at_def using parent_bound by (metis (no_types, opaque_lifting))

lemma push_heap_heap:
  assumes "is_heap key xs" shows "is_heap key (push_heap key (xs @ [x]))"
proof -
  have p: "parent j < length xs" if "0 < j" "j < Suc (length xs)" for j using that by (auto simp: parent_def)
  have "ordered_at key (xs @ [x]) j" if "0 < j" "j < length xs" for j
    using assms p [of j] that by (simp add: heap_from_def ordered_at_def nth_append)
  moreover have "parent j \<noteq> length xs" if "0 < j" "j < Suc (length xs)" for j using p [OF that] by simp
  ultimately have "hole_up key 0 (Suc (length xs)) (length xs) (xs @ [x])" unfolding hole_up_def by (metis less_antisym)
  from sift_up_heap [OF this] show ?thesis by (simp add: push_heap_def)
qed

lemma mset_push_heap: "xs \<noteq> [] \<Longrightarrow> mset (push_heap key xs) = mset xs"
  by (simp add: push_heap_def mset_sift_up)

lemma pop_heap_last: "xs \<noteq> [] \<Longrightarrow> pop_heap key xs = butlast (pop_heap key xs) @ [xs ! 0]"
proof -
  assume ne: "xs \<noteq> []"
  have len: "length (pop_heap key xs) = length xs" by (simp add: pop_heap_def)
  then have "last (pop_heap key xs) = pop_heap key xs ! (length xs - 1)" using ne by (metis last_conv_nth length_0_conv)
  also have "\<dots> = xs ! 0" unfolding pop_heap_def using ne by (simp add: sift_down_beyond nth_swap)
  finally show ?thesis using ne len by (metis append_butlast_last_id length_0_conv)
qed

lemma pop_heap_heap:
  assumes "is_heap key xs" "xs \<noteq> []" shows "is_heap key (butlast (pop_heap key xs))"
proof -
  let ?n = "length xs - 1" and ?ys = "swap xs 0 (length xs - 1)"
  have sw: "?ys ! j = xs ! j" if "0 < j" "j < ?n" for j using assms(2) that by (simp add: nth_swap)
  have "hole_down key 0 ?n 0 ?ys"
    using assms(1) sw parent_bound [of _ ?n] by (auto simp: hole_down_def heap_from_def ordered_at_def)
  then have h: "heap_from key 0 ?n (pop_heap key xs)" unfolding pop_heap_def by (rule sift_down_heap) simp_all
  have "length (butlast (pop_heap key xs)) = ?n" by (simp add: pop_heap_def)
  with h heap_from_cong [of ?n "butlast (pop_heap key xs)" "pop_heap key xs" key 0] show ?thesis by (simp add: nth_butlast)
qed

lemma mset_pop_heap: "xs \<noteq> [] \<Longrightarrow> mset (butlast (pop_heap key xs)) = mset xs - {#xs ! 0#}"
proof -
  assume ne: "xs \<noteq> []"
  have "mset (pop_heap key xs) = mset xs" using ne by (simp add: pop_heap_def mset_sift_down)
  then show ?thesis using pop_heap_last [OF ne, of key] by (metis add_mset_diff_bothsides add_mset_add_single diff_empty mset.simps(1) mset.simps(2) mset_append)
qed

lemma make_heap_loop_heap:
  "heap_from key i (length xs) xs \<Longrightarrow> is_heap key (make_heap_loop key xs i)"
proof (induction i arbitrary: xs)
  case (Suc i)
  have "hole_down key i (length xs) i xs"
    using Suc.prems parent_less [of i] by (fastforce simp: hole_down_def heap_from_def Suc_le_eq)
  then have "heap_from key i (length xs) (sift_down key xs i (length xs))" by (rule sift_down_heap) simp_all
  with Suc.IH [of "sift_down key xs i (length xs)"] show ?case by simp
qed simp

lemma make_heap_loop_mset: "mset (make_heap_loop key xs i) = mset xs"
  by (induction i arbitrary: xs) (simp_all add: mset_sift_down)

lemma make_heap_heap: "is_heap key (make_heap key xs)"
  unfolding make_heap_def by (rule make_heap_loop_heap) (auto simp: heap_from_def parent_def)

section \<open>The interface of the event queue\<close>

text \<open>
  What the timing code relies on: a queue of elements whose front has the least key, that can be extended,
  popped and rebuilt.
\<close>

locale min_queue =
  fixes key :: "'a \<Rightarrow> 'k::linorder"
    and elems :: "'q \<Rightarrow> 'a multiset"
    and inv :: "'q \<Rightarrow> bool"
    and insert :: "'a \<Rightarrow> 'q \<Rightarrow> 'q"
    and front :: "'q \<Rightarrow> 'a"
    and pop :: "'q \<Rightarrow> 'q"
    and rebuild :: "'q \<Rightarrow> 'q"
  assumes inv_insert: "inv q \<Longrightarrow> inv (insert x q)"
    and elems_insert: "elems (insert x q) = add_mset x (elems q)"
    and front_least: "inv q \<Longrightarrow> x \<in># elems q \<Longrightarrow> key (front q) \<le> key x"
    and front_in: "elems q \<noteq> {#} \<Longrightarrow> front q \<in># elems q"
    and inv_pop: "inv q \<Longrightarrow> elems q \<noteq> {#} \<Longrightarrow> inv (pop q)"
    and elems_pop: "elems q \<noteq> {#} \<Longrightarrow> elems (pop q) = elems q - {#front q#}"
    and inv_rebuild: "inv (rebuild q)"
    and elems_rebuild: "elems (rebuild q) = elems q"
begin

lemma front_unique:
  "inv q \<Longrightarrow> inj_on key (set_mset (elems q)) \<Longrightarrow> x \<in># elems q \<Longrightarrow> (\<And>y. y \<in># elems q \<Longrightarrow> key x \<le> key y) \<Longrightarrow> front q = x"
  using front_least [of q x] front_in [of q] by (metis antisym inj_onD empty_iff set_mset_empty)

lemma front_after_pop: "inv q \<Longrightarrow> elems q \<noteq> {#} \<Longrightarrow> x \<in># elems (pop q) \<Longrightarrow> key (front q) \<le> key x"
  using front_least [of q x] elems_pop [of q] in_diffD by metis

lemma size_pop: "elems q \<noteq> {#} \<Longrightarrow> size (elems (pop q)) < size (elems q)"
  using elems_pop [of q] front_in [of q] by (metis size_Diff1_less)

lemma front_insert: "inv q \<Longrightarrow> key x < key (front q) \<Longrightarrow> elems q \<noteq> {#} \<Longrightarrow> front (insert x q) = x"
proof -
  assume q: "inv q" "key x < key (front q)" "elems q \<noteq> {#}"
  let ?f = "front (insert x q)"
  have "?f \<in># add_mset x (elems q)" using front_in [of "insert x q"] by (simp add: elems_insert)
  moreover have "key ?f \<le> key x" using front_least [OF inv_insert [OF q(1), of x]] by (simp add: elems_insert)
  moreover have "key (front q) \<le> key y" if "y \<in># elems q" for y using front_least [OF q(1) that] .
  ultimately show "?f = x" using q(2) by fastforce
qed

end

interpretation hq: min_queue key mset "is_heap key" "\<lambda>x xs. push_heap key (xs @ [x])" "\<lambda>xs. xs ! 0"
  "\<lambda>xs. butlast (pop_heap key xs)" "make_heap key" for key :: "'a \<Rightarrow> 'k::linorder"
proof unfold_locales
  fix q :: "'a list" and x
  show "is_heap key q \<Longrightarrow> is_heap key (push_heap key (q @ [x]))" by (rule push_heap_heap)
  show "mset (push_heap key (q @ [x])) = add_mset x (mset q)" by (simp add: mset_push_heap)
  show "is_heap key q \<Longrightarrow> x \<in># mset q \<Longrightarrow> key (q ! 0) \<le> key x"
    using is_heap_front [of key q] by (auto simp: in_set_conv_nth)
  show "mset q \<noteq> {#} \<Longrightarrow> q ! 0 \<in># mset q" by (cases q) auto
  show "is_heap key q \<Longrightarrow> mset q \<noteq> {#} \<Longrightarrow> is_heap key (butlast (pop_heap key q))" by (rule pop_heap_heap) auto
  show "mset q \<noteq> {#} \<Longrightarrow> mset (butlast (pop_heap key q)) = mset q - {#q ! 0#}" by (rule mset_pop_heap) auto
  show "is_heap key (make_heap key q)" by (rule make_heap_heap)
  show "mset (make_heap key q) = mset q" by (simp add: make_heap_def make_heap_loop_mset)
qed

end
