(* ===== verification/Core_Timing.thy ===== *)
theory Core_Timing
  imports Std_Heap
begin

text \<open>
  \<^verbatim>\<open>Core::Timing\<close> (\<^verbatim>\<open>src/core/core_timing.h\<close> and \<^verbatim>\<open>core_timing.cpp\<close>): conversion between time units and
  cycles, the per-core timers with their event heaps, and the loop that runs the events that are due.

  A value of type \<^verbatim>\<open>s64\<close> or \<^verbatim>\<open>int\<close> is an \<open>int\<close>; every sum or difference that the code computes at a width
  goes through \<open>s64\<close>, \<open>u64\<close> or \<open>s32\<close>, which wrap. An event type is known by its name, the key under which
  \<^verbatim>\<open>event_types\<close> keeps it. What calling a callback does is a parameter: \<open>invoke f user_data late\<close> transforms
  the timing state and a state \<open>'w\<close> of the rest of the emulator. The clock scale is a \<^verbatim>\<open>double\<close>; its
  multiplication with a number of ticks, rounded to an integer, is a function stored in the timer. The queue
  for events from other threads is a list, the oldest first.
\<close>

section \<open>Widths and constants\<close>

definition s64 :: "int \<Rightarrow> int" where
  "s64 x = (x + 2 ^ 63) mod 2 ^ 64 - 2 ^ 63"

definition u64 :: "int \<Rightarrow> int" where
  "u64 x = x mod 2 ^ 64"

definition s32 :: "int \<Rightarrow> int" where
  "s32 x = (x + 2 ^ 31) mod 2 ^ 32 - 2 ^ 31"

definition BASE_CLOCK_RATE_ARM11 :: int where
  "BASE_CLOCK_RATE_ARM11 = 268111856"

definition MAX_VALUE_TO_MULTIPLY :: int where
  "MAX_VALUE_TO_MULTIPLY = (2 ^ 63 - 1) div BASE_CLOCK_RATE_ARM11"

definition MAX_SLICE_LENGTH :: int where
  "MAX_SLICE_LENGTH = BASE_CLOCK_RATE_ARM11 div 234"

text \<open>Division of signed numbers truncates towards zero.\<close>

definition quot :: "int \<Rightarrow> int \<Rightarrow> int" where
  "quot a b = sgn a * sgn b * (\<bar>a\<bar> div \<bar>b\<bar>)"

section \<open>Unit conversions\<close>

text \<open>The clock rate is unsigned, so products with it and the divisions that follow are unsigned.\<close>

definition msToCycles :: "int \<Rightarrow> int" where
  "msToCycles ms = s64 (u64 (BASE_CLOCK_RATE_ARM11 * u64 ms) div 1000)"

definition usToCycles_int :: "int \<Rightarrow> int" where
  "usToCycles_int us = s64 (u64 (BASE_CLOCK_RATE_ARM11 * u64 us) div 1000000)"

definition usToCycles_s64 :: "int \<Rightarrow> int" where
  "usToCycles_s64 us =
     (if quot us 1000000 > MAX_VALUE_TO_MULTIPLY then 2 ^ 63 - 1
      else if us > MAX_VALUE_TO_MULTIPLY then s64 (u64 (BASE_CLOCK_RATE_ARM11 * u64 (quot us 1000000)))
      else s64 (u64 (BASE_CLOCK_RATE_ARM11 * u64 us) div 1000000))"

definition usToCycles_u64 :: "int \<Rightarrow> int" where
  "usToCycles_u64 us =
     (if us div 1000000 > MAX_VALUE_TO_MULTIPLY then 2 ^ 63 - 1
      else if us > MAX_VALUE_TO_MULTIPLY then s64 (u64 (BASE_CLOCK_RATE_ARM11 * u64 (s64 (us div 1000000))))
      else s64 (u64 (BASE_CLOCK_RATE_ARM11 * u64 (s64 us)) div 1000000))"

definition nsToCycles_int :: "int \<Rightarrow> int" where
  "nsToCycles_int ns = s64 (u64 (BASE_CLOCK_RATE_ARM11 * u64 ns) div 1000000000)"

definition nsToCycles_s64 :: "int \<Rightarrow> int" where
  "nsToCycles_s64 ns =
     (if quot ns 1000000000 > MAX_VALUE_TO_MULTIPLY then 2 ^ 63 - 1
      else if ns > MAX_VALUE_TO_MULTIPLY then s64 (u64 (BASE_CLOCK_RATE_ARM11 * u64 (quot ns 1000000000)))
      else s64 (u64 (BASE_CLOCK_RATE_ARM11 * u64 ns) div 1000000000))"

definition nsToCycles_u64 :: "int \<Rightarrow> int" where
  "nsToCycles_u64 ns =
     (if ns div 1000000000 > MAX_VALUE_TO_MULTIPLY then 2 ^ 63 - 1
      else if ns > MAX_VALUE_TO_MULTIPLY then s64 (u64 (BASE_CLOCK_RATE_ARM11 * u64 (quot (s64 ns) 1000000000)))
      else s64 (u64 (BASE_CLOCK_RATE_ARM11 * u64 (s64 ns)) div 1000000000))"

definition cyclesToNs :: "int \<Rightarrow> int" where
  "cyclesToNs cycles = u64 (s64 (cycles * 1000000000)) div BASE_CLOCK_RATE_ARM11"

definition cyclesToUs :: "int \<Rightarrow> int" where
  "cyclesToUs cycles = s64 (u64 (s64 (cycles * 1000000)) div BASE_CLOCK_RATE_ARM11)"

definition cyclesToMs :: "int \<Rightarrow> int" where
  "cyclesToMs cycles = u64 (s64 (cycles * 1000)) div BASE_CLOCK_RATE_ARM11"

section \<open>Timers\<close>

record event =
  ev_time :: int
  fifo_order :: nat
  ev_data :: nat
  ev_type :: string

text \<open>\<^verbatim>\<open>operator>\<close> and \<^verbatim>\<open>operator<\<close> compare the pair of time and insertion order.\<close>

definition ekey :: "event \<Rightarrow> int \<times> nat" where
  "ekey e = (ev_time e, fifo_order e)"

record timer =
  event_queue :: "event list"
  event_fifo_id :: nat
  ts_queue :: "event list"
  is_timer_sane :: bool
  slice_length :: int
  downcount :: int
  executed_ticks :: int
  idled_cycles :: int
  cpu_clock_scale :: "int \<Rightarrow> int"

record 'f timing =
  timers :: "timer list"
  current_timer :: nat
  event_queue_locked :: bool
  event_types :: "string \<rightharpoonup> 'f option"

definition Timer :: "int \<Rightarrow> timer" where
  "Timer base_ticks = \<lparr>event_queue = [], event_fifo_id = 0, ts_queue = [], is_timer_sane = True,
     slice_length = MAX_SLICE_LENGTH, downcount = MAX_SLICE_LENGTH, executed_ticks = base_ticks,
     idled_cycles = 0, cpu_clock_scale = (\<lambda>t. t)\<rparr>"

definition timer_GetTicks :: "timer \<Rightarrow> int" where
  "timer_GetTicks t =
     (if is_timer_sane t then u64 (executed_ticks t)
      else u64 (u64 (executed_ticks t) + s64 (slice_length t - downcount t)))"

definition AddTicks :: "int \<Rightarrow> timer \<Rightarrow> timer" where
  "AddTicks ticks t = t\<lparr>downcount := s64 (downcount t - cpu_clock_scale t ticks)\<rparr>"

definition ForceExceptionCheck :: "int \<Rightarrow> timer \<Rightarrow> timer" where
  "ForceExceptionCheck cycles t =
     (let c = max 0 cycles in
      if downcount t > c
      then t\<lparr>slice_length := s64 (slice_length t - (downcount t - c)), downcount := c\<rparr>
      else t)"

text \<open>\<^verbatim>\<open>emplace_back\<close> and \<^verbatim>\<open>push_heap\<close> of an event that gets the next number.\<close>

definition enqueue :: "event \<Rightarrow> timer \<Rightarrow> timer" where
  "enqueue e t =
     t\<lparr>event_queue := push_heap ekey (event_queue t @ [e\<lparr>fifo_order := event_fifo_id t\<rparr>]),
       event_fifo_id := (event_fifo_id t + 1) mod 2 ^ 64\<rparr>"

fun move_events :: "event list \<Rightarrow> timer \<Rightarrow> timer" where
  "move_events [] t = t"
| "move_events (e # es) t = move_events es (enqueue e t)"

definition MoveEvents :: "timer \<Rightarrow> timer" where
  "MoveEvents t = (move_events (ts_queue t) t)\<lparr>ts_queue := []\<rparr>"

text \<open>\<open>None\<close>: the assertion that the next event is in the future fails.\<close>

definition GetMaxSliceLength :: "timer \<Rightarrow> int option" where
  "GetMaxSliceLength t =
     (if event_queue t = [] then Some MAX_SLICE_LENGTH
      else let d = s64 (ev_time (event_queue t ! 0) - executed_ticks t)
           in if d > 0 then Some d else None)"

definition SetNextSlice :: "int \<Rightarrow> timer \<Rightarrow> timer" where
  "SetNextSlice max_slice_length t =
     (let l = (if event_queue t = [] then max_slice_length
               else s32 (min (s64 (ev_time (event_queue t ! 0) - executed_ticks t)) max_slice_length))
      in t\<lparr>slice_length := l, downcount := l\<rparr>)"

definition Idle :: "timer \<Rightarrow> timer" where
  "Idle t = t\<lparr>idled_cycles := u64 (idled_cycles t + downcount t), downcount := 0\<rparr>"

section \<open>The timing system\<close>

definition on_timer :: "nat \<Rightarrow> (timer \<Rightarrow> timer) \<Rightarrow> 'f timing \<Rightarrow> 'f timing" where
  "on_timer i f tm = tm\<lparr>timers := (timers tm)[i := f (timers tm ! i)]\<rparr>"

definition UpdateClockSpeed :: "(int \<Rightarrow> int) \<Rightarrow> 'f timing \<Rightarrow> 'f timing" where
  "UpdateClockSpeed scale tm = tm\<lparr>timers := map (\<lambda>t. t\<lparr>cpu_clock_scale := scale\<rparr>) (timers tm)\<rparr>"

definition Timing :: "nat \<Rightarrow> (int \<Rightarrow> int) \<Rightarrow> int \<Rightarrow> 'f timing" where
  "Timing num_cores scale base_ticks =
     UpdateClockSpeed scale
       \<lparr>timers = replicate num_cores (Timer base_ticks), current_timer = 0, event_queue_locked = False,
        event_types = Map.empty\<rparr>"

definition RegisterEvent :: "string \<Rightarrow> 'f option \<Rightarrow> 'f timing \<Rightarrow> 'f timing" where
  "RegisterEvent name callback tm =
     (let old = (case event_types tm name of None \<Rightarrow> None | Some c \<Rightarrow> c)
      in tm\<lparr>event_types := (event_types tm)(name \<mapsto> (if callback \<noteq> None then callback else old))\<rparr>)"

text \<open>
  \<^verbatim>\<open>ScheduleEvent\<close>: \<open>core_id\<close> is \<open>None\<close> for the default, the current timer; the result is \<open>None\<close> when the core
  does not exist.
\<close>

definition ScheduleEvent ::
  "int \<Rightarrow> string \<Rightarrow> nat \<Rightarrow> nat option \<Rightarrow> bool \<Rightarrow> 'f timing \<Rightarrow> 'f timing option" where
  "ScheduleEvent cycles event_type user_data core_id thread_safe_mode tm =
     (if event_queue_locked tm then Some tm
      else let i = (case core_id of None \<Rightarrow> current_timer tm | Some c \<Rightarrow> c) in
        if core_id \<noteq> None \<and> length (timers tm) \<le> i then None
        else let t = timers tm ! i;
                 push_ts = (\<lambda>c. on_timer i (\<lambda>t. t\<lparr>ts_queue := ts_queue t @
                   [\<lparr>ev_time = s64 (timer_GetTicks t + c), fifo_order = 0, ev_data = user_data, ev_type = event_type\<rparr>]\<rparr>) tm)
             in if thread_safe_mode then Some (push_ts (max (MAX_SLICE_LENGTH * 2) cycles))
                else if current_timer tm = i
                then Some (on_timer i (\<lambda>t. enqueue
                       \<lparr>ev_time = s64 (timer_GetTicks t + cycles), fifo_order = 0, ev_data = user_data, ev_type = event_type\<rparr>
                       (if is_timer_sane t then t else ForceExceptionCheck cycles t)) tm)
                else Some (push_ts cycles))"

text \<open>Removing events from every timer; a heap that lost an element is rebuilt.\<close>

definition drop_events :: "(event \<Rightarrow> bool) \<Rightarrow> timer \<Rightarrow> timer" where
  "drop_events P t =
     (let q = filter (\<lambda>e. \<not> P e) (event_queue t)
      in if length q = length (event_queue t) then t else t\<lparr>event_queue := make_heap ekey q\<rparr>)"

definition UnscheduleEvent :: "string \<Rightarrow> nat \<Rightarrow> 'f timing \<Rightarrow> 'f timing" where
  "UnscheduleEvent event_type user_data tm =
     (if event_queue_locked tm then tm
      else tm\<lparr>timers := map (drop_events (\<lambda>e. ev_type e = event_type \<and> ev_data e = user_data)) (timers tm)\<rparr>)"

definition RemoveEvent :: "string \<Rightarrow> 'f timing \<Rightarrow> 'f timing" where
  "RemoveEvent event_type tm =
     (if event_queue_locked tm then tm
      else tm\<lparr>timers := map (drop_events (\<lambda>e. ev_type e = event_type)) (timers tm)\<rparr>)"

definition SetCurrentTimer :: "nat \<Rightarrow> 'f timing \<Rightarrow> 'f timing" where
  "SetCurrentTimer core_id tm = tm\<lparr>current_timer := core_id\<rparr>"

definition timing_GetTicks :: "'f timing \<Rightarrow> int" where
  "timing_GetTicks tm = s64 (timer_GetTicks (timers tm ! current_timer tm))"

text \<open>\<^verbatim>\<open>std::max_element\<close> over the timers.\<close>

definition GetGlobalTicks :: "'f timing \<Rightarrow> int" where
  "GetGlobalTicks tm = s64 (fold max (map timer_GetTicks (tl (timers tm))) (timer_GetTicks (timers tm ! 0)))"

definition GetGlobalTimeUs :: "'f timing \<Rightarrow> int" where
  "GetGlobalTimeUs tm = u64 (s64 (GetGlobalTicks tm * 1000000)) div BASE_CLOCK_RATE_ARM11"

section \<open>Advancing\<close>

definition advance_start :: "timer \<Rightarrow> timer" where
  "advance_start t =
     (let t1 = MoveEvents t
      in t1\<lparr>idled_cycles := 0, executed_ticks := s64 (executed_ticks t1 + s64 (slice_length t1 - downcount t1)),
            slice_length := 0, downcount := 0, is_timer_sane := True\<rparr>)"

definition due :: "timer \<Rightarrow> bool" where
  "due t \<longleftrightarrow> event_queue t \<noteq> [] \<and> ev_time (event_queue t ! 0) \<le> executed_ticks t"

text \<open>One iteration: take the front event off the heap of timer \<open>i\<close> and call its callback, if it has one.\<close>

definition run_event ::
  "('f \<Rightarrow> nat \<Rightarrow> int \<Rightarrow> 'f timing \<times> 'w \<Rightarrow> 'f timing \<times> 'w) \<Rightarrow> nat \<Rightarrow> 'f timing \<times> 'w \<Rightarrow> 'f timing \<times> 'w" where
  "run_event invoke i s =
     (let t = timers (fst s) ! i;
          e = event_queue t ! 0;
          tm1 = on_timer i (\<lambda>t. t\<lparr>event_queue := butlast (pop_heap ekey (event_queue t))\<rparr>) (fst s)
      in case event_types (fst s) (ev_type e) of
           Some (Some f) \<Rightarrow> invoke f (ev_data e) (s32 (s64 (executed_ticks t - ev_time e))) (tm1, snd s)
         | _ \<Rightarrow> (tm1, snd s))"

partial_function (option) run_due ::
  "('f \<Rightarrow> nat \<Rightarrow> int \<Rightarrow> 'f timing \<times> 'w \<Rightarrow> 'f timing \<times> 'w) \<Rightarrow> nat \<Rightarrow> 'f timing \<times> 'w \<Rightarrow> ('f timing \<times> 'w) option" where
  "run_due invoke i s =
     (if due (timers (fst s) ! i) then run_due invoke i (run_event invoke i s) else Some s)"

text \<open>\<^verbatim>\<open>Timer::Advance\<close> on timer \<open>i\<close>; \<open>None\<close> when the loop does not end.\<close>

definition Advance ::
  "('f \<Rightarrow> nat \<Rightarrow> int \<Rightarrow> 'f timing \<times> 'w \<Rightarrow> 'f timing \<times> 'w) \<Rightarrow> nat \<Rightarrow> 'f timing \<times> 'w \<Rightarrow> ('f timing \<times> 'w) option" where
  "Advance invoke i s =
     map_option (\<lambda>s'. (on_timer i (\<lambda>t. t\<lparr>is_timer_sane := False\<rparr>) (fst s'), snd s'))
       (run_due invoke i (on_timer i advance_start (fst s), snd s))"

section \<open>Conversions stay in range\<close>

lemma s64_id [arith32]: "- (2 ^ 63) \<le> x \<Longrightarrow> x < 2 ^ 63 \<Longrightarrow> s64 x = x"
  by (simp add: s64_def)

lemma u64_id [arith32]: "0 \<le> x \<Longrightarrow> x < 2 ^ 64 \<Longrightarrow> u64 x = x"
  by (simp add: u64_def)

lemma s32_id [arith32]: "- (2 ^ 31) \<le> x \<Longrightarrow> x < 2 ^ 31 \<Longrightarrow> s32 x = x"
  by (simp add: s32_def)

lemma quot_nonneg: "0 \<le> a \<Longrightarrow> 0 < b \<Longrightarrow> quot a b = a div b"
  by (cases "a = 0") (simp_all add: quot_def)

lemma MAX_VALUE_eq: "MAX_VALUE_TO_MULTIPLY = 34401209161"
  by (simp add: MAX_VALUE_TO_MULTIPLY_def BASE_CLOCK_RATE_ARM11_def)

lemma div_below: "(a::int) < b * u \<Longrightarrow> 0 < u \<Longrightarrow> a div u < b"
proof (rule ccontr)
  assume a: "a < b * u" "0 < u" "\<not> a div u < b"
  then have "b * u \<le> a div u * u" by simp
  also have "\<dots> \<le> a" using a(2) div_mult_mod_eq [of a u] pos_mod_sign [OF a(2), of a] by linarith
  finally show False using a(1) by simp
qed

text \<open>The body shared by the conversions with a range check: \<open>x\<close> units of which \<open>u\<close> make a second.\<close>

definition to_cycles :: "int \<Rightarrow> int \<Rightarrow> int" where
  "to_cycles u x =
     (if x div u > MAX_VALUE_TO_MULTIPLY then 2 ^ 63 - 1
      else if x > MAX_VALUE_TO_MULTIPLY then BASE_CLOCK_RATE_ARM11 * (x div u)
      else BASE_CLOCK_RATE_ARM11 * x div u)"

lemma to_cycles_bounds:
  assumes "0 \<le> x" "0 < u"
  shows "to_cycles u x = 2 ^ 63 - 1 \<and> MAX_VALUE_TO_MULTIPLY < x div u \<or>
    to_cycles u x \<le> BASE_CLOCK_RATE_ARM11 * x div u \<and> BASE_CLOCK_RATE_ARM11 * x div u - BASE_CLOCK_RATE_ARM11 < to_cycles u x"
proof -
  have "BASE_CLOCK_RATE_ARM11 * x = u * (BASE_CLOCK_RATE_ARM11 * (x div u)) + BASE_CLOCK_RATE_ARM11 * (x mod u)"
    by (metis distrib_left mult.left_commute mult_div_mod_eq)
  then have e: "BASE_CLOCK_RATE_ARM11 * x div u = BASE_CLOCK_RATE_ARM11 * (x div u) + BASE_CLOCK_RATE_ARM11 * (x mod u) div u"
    using assms(2) by simp
  have "BASE_CLOCK_RATE_ARM11 * (x mod u) < BASE_CLOCK_RATE_ARM11 * u"
    using assms(2) by (simp add: BASE_CLOCK_RATE_ARM11_def)
  then have "BASE_CLOCK_RATE_ARM11 * (x mod u) div u < BASE_CLOCK_RATE_ARM11"
    using assms(2) by (intro div_below) (simp_all add: ac_simps)
  moreover have "0 \<le> BASE_CLOCK_RATE_ARM11 * (x mod u) div u"
    using assms by (simp add: BASE_CLOCK_RATE_ARM11_def pos_imp_zdiv_nonneg_iff)
  ultimately show ?thesis unfolding to_cycles_def e by (auto simp: BASE_CLOCK_RATE_ARM11_def)
qed

lemma to_cycles_range: "0 \<le> x \<Longrightarrow> 0 < u \<Longrightarrow> 0 \<le> to_cycles u x \<and> to_cycles u x < 2 ^ 63"
proof -
  assume x: "0 \<le> x" "0 < u"
  have "0 \<le> x div u" using x by (simp add: pos_imp_zdiv_nonneg_iff)
  moreover have "BASE_CLOCK_RATE_ARM11 * x div u \<le> BASE_CLOCK_RATE_ARM11 * x"
    using x zdiv_mono2 [of "BASE_CLOCK_RATE_ARM11 * x" 1 u] by (simp add: BASE_CLOCK_RATE_ARM11_def)
  ultimately show ?thesis using x
    by (auto simp: to_cycles_def MAX_VALUE_eq BASE_CLOCK_RATE_ARM11_def pos_imp_zdiv_nonneg_iff)
qed

lemma to_cycles_branches:
  assumes "0 \<le> x" "x < 2 ^ 63" "1000000 \<le> u"
  shows "x \<le> MAX_VALUE_TO_MULTIPLY \<Longrightarrow> s64 (u64 (BASE_CLOCK_RATE_ARM11 * u64 x) div u) = to_cycles u x"
    "x div u \<le> MAX_VALUE_TO_MULTIPLY \<Longrightarrow> MAX_VALUE_TO_MULTIPLY < x \<Longrightarrow> s64 (u64 (BASE_CLOCK_RATE_ARM11 * u64 (x div u))) = to_cycles u x"
    "MAX_VALUE_TO_MULTIPLY < x div u \<Longrightarrow> to_cycles u x = 2 ^ 63 - 1"
proof -
  have d: "0 \<le> x div u" "x div u \<le> x" using assms zdiv_mono2 [of x 1 u] by (auto simp: pos_imp_zdiv_nonneg_iff)
  show "s64 (u64 (BASE_CLOCK_RATE_ARM11 * u64 x) div u) = to_cycles u x" if "x \<le> MAX_VALUE_TO_MULTIPLY"
  proof -
    have "u64 (BASE_CLOCK_RATE_ARM11 * u64 x) = BASE_CLOCK_RATE_ARM11 * x"
      using assms that by (simp add: u64_id MAX_VALUE_eq BASE_CLOCK_RATE_ARM11_def)
    moreover have "to_cycles u x = BASE_CLOCK_RATE_ARM11 * x div u" using that d by (simp add: to_cycles_def)
    ultimately show ?thesis using to_cycles_range [of x u] assms by (simp add: s64_id)
  qed
  show "s64 (u64 (BASE_CLOCK_RATE_ARM11 * u64 (x div u))) = to_cycles u x"
    if "x div u \<le> MAX_VALUE_TO_MULTIPLY" "MAX_VALUE_TO_MULTIPLY < x"
    using that d by (simp add: to_cycles_def u64_id s64_id MAX_VALUE_eq BASE_CLOCK_RATE_ARM11_def)
  show "MAX_VALUE_TO_MULTIPLY < x div u \<Longrightarrow> to_cycles u x = 2 ^ 63 - 1" by (simp add: to_cycles_def)
qed

text \<open>\<open>r\<close> cycles are right for \<open>x\<close> units of which \<open>u\<close> make a second.\<close>

definition cycles_for :: "int \<Rightarrow> int \<Rightarrow> int \<Rightarrow> bool" where
  "cycles_for u x r \<longleftrightarrow> 0 \<le> r \<and> r < 2 ^ 63 \<and>
     (if x \<le> MAX_VALUE_TO_MULTIPLY then r = BASE_CLOCK_RATE_ARM11 * x div u
      else r = 2 ^ 63 - 1 \<and> 2 ^ 63 \<le> BASE_CLOCK_RATE_ARM11 * x div u \<or>
           BASE_CLOCK_RATE_ARM11 * x div u - BASE_CLOCK_RATE_ARM11 < r \<and> r \<le> BASE_CLOCK_RATE_ARM11 * x div u)"

lemma to_cycles_for:
  assumes x: "0 \<le> x" and u: "1000000 \<le> u" shows "cycles_for u x (to_cycles u x)"
proof -
  have le: "x div u \<le> x" using assms zdiv_mono2 [of x 1 u] by simp
  have big: "2 ^ 63 \<le> BASE_CLOCK_RATE_ARM11 * x div u" if "MAX_VALUE_TO_MULTIPLY < x div u"
  proof -
    have "0 \<le> x mod u" using u by (intro pos_mod_sign) simp
    then have "x div u * u \<le> x" using minus_mod_eq_div_mult [of x u] by linarith
    then have "BASE_CLOCK_RATE_ARM11 * (x div u) * u \<le> BASE_CLOCK_RATE_ARM11 * x"
      by (simp add: BASE_CLOCK_RATE_ARM11_def mult.assoc)
    then have "BASE_CLOCK_RATE_ARM11 * (x div u) \<le> BASE_CLOCK_RATE_ARM11 * x div u"
      using zdiv_mono1 [of "BASE_CLOCK_RATE_ARM11 * (x div u) * u" "BASE_CLOCK_RATE_ARM11 * x" u] u by simp
    with that show ?thesis by (simp add: MAX_VALUE_eq BASE_CLOCK_RATE_ARM11_def)
  qed
  show ?thesis
  proof (cases "x \<le> MAX_VALUE_TO_MULTIPLY")
    case True
    then have "to_cycles u x = BASE_CLOCK_RATE_ARM11 * x div u" using le by (simp add: to_cycles_def)
    with True to_cycles_range [OF x, of u] u show ?thesis by (simp add: cycles_for_def)
  next
    case False
    with to_cycles_range [OF x, of u] to_cycles_bounds [OF x, of u] u big show ?thesis by (auto simp: cycles_for_def)
  qed
qed

text \<open>
  Property: Time conversions with a range check. For every non-negative \<^verbatim>\<open>s64\<close> number of micro- or nanoseconds
  the result is a non-negative \<^verbatim>\<open>s64\<close>: exact up to \<^verbatim>\<open>MAX_VALUE_TO_MULTIPLY\<close>, then less than one second of
  cycles below the exact value, and the largest value when the exact number of cycles does not fit.
\<close>

theorem to_cycles_in_range:
  assumes "0 \<le> x" "x < 2 ^ 63"
  shows "cycles_for 1000000 x (usToCycles_s64 x) \<and> cycles_for 1000000 x (usToCycles_u64 x) \<and>
    cycles_for 1000000000 x (nsToCycles_s64 x) \<and> cycles_for 1000000000 x (nsToCycles_u64 x)"
proof -
  have q: "quot x 1000000 = x div 1000000" "quot x 1000000000 = x div 1000000000"
    using assms by (simp_all add: quot_nonneg)
  have s: "s64 x = x" "s64 (x div 1000000) = x div 1000000" using assms by (simp_all add: s64_id)
  note b = to_cycles_branches [OF assms, of 1000000] to_cycles_branches [OF assms, of 1000000000]
  have "usToCycles_s64 x = to_cycles 1000000 x" "usToCycles_u64 x = to_cycles 1000000 x"
    "nsToCycles_s64 x = to_cycles 1000000000 x" "nsToCycles_u64 x = to_cycles 1000000000 x"
    by (simp_all add: usToCycles_s64_def usToCycles_u64_def nsToCycles_s64_def nsToCycles_u64_def q s b not_less)
  then show ?thesis using assms(1) by (simp add: to_cycles_for)
qed

theorem to_cycles_in_range_witness: "nsToCycles_s64 2000000 = 536223"
  using to_cycles_in_range [of 2000000] by (simp add: cycles_for_def MAX_VALUE_eq BASE_CLOCK_RATE_ARM11_def)

text \<open>
  Property: Outside that range the conversions wrap. A negative duration becomes a huge positive number of cycles,
  because the clock rate is unsigned, and a \<^verbatim>\<open>u64\<close> number of nanoseconds from 2^63 on becomes a negative
  number of cycles, because the range check can never fail for nanoseconds.
\<close>

theorem to_cycles_wraps:
  "nsToCycles_s64 (- 1) = 18446744073 \<and> msToCycles (- 1) = 18446744073441439 \<and>
   nsToCycles_u64 (2 ^ 63) < 0 \<and> (2 ^ 64 - 1) div 1000000000 \<le> MAX_VALUE_TO_MULTIPLY"
  by (simp add: nsToCycles_s64_def msToCycles_def nsToCycles_u64_def MAX_VALUE_eq BASE_CLOCK_RATE_ARM11_def
      s64_def u64_def quot_def)

section \<open>The queue invariant\<close>

text \<open>The queue is a heap, and no two of its events carry the same number.\<close>

definition timer_inv :: "timer \<Rightarrow> bool" where
  "timer_inv t \<longleftrightarrow> is_heap ekey (event_queue t) \<and> distinct (map fifo_order (event_queue t)) \<and>
     (\<forall>e \<in> set (event_queue t). fifo_order e < event_fifo_id t)"

lemma timer_inv_Timer: "timer_inv (Timer b)"
  by (simp add: timer_inv_def Timer_def heap_from_def)

lemma timer_inv_cong:
  "event_queue t' = event_queue t \<Longrightarrow> event_fifo_id t' = event_fifo_id t \<Longrightarrow> timer_inv t' = timer_inv t"
  by (simp add: timer_inv_def)

lemma distinct_fifo_mset:
  "mset q = mset q' \<Longrightarrow> distinct (map fifo_order q) = distinct (map fifo_order q')"
  by (rule mset_eq_imp_distinct_iff) simp

lemma enqueue_elems:
  "mset (event_queue (enqueue e t)) = add_mset (e\<lparr>fifo_order := event_fifo_id t\<rparr>) (mset (event_queue t))"
  unfolding enqueue_def by (simp add: hq.elems_insert [of ekey])

lemma enqueue_inv:
  assumes "timer_inv t" "event_fifo_id t + 1 < 2 ^ 64" shows "timer_inv (enqueue e t)"
proof -
  let ?e = "e\<lparr>fifo_order := event_fifo_id t\<rparr>"
  note ms = enqueue_elems [of e t]
  have "is_heap ekey (event_queue (enqueue e t))"
    unfolding enqueue_def using assms(1) hq.inv_insert [of ekey "event_queue t" ?e] by (simp add: timer_inv_def)
  moreover have "distinct (map fifo_order (event_queue (enqueue e t)))"
    using assms(1) distinct_fifo_mset [of "event_queue (enqueue e t)" "?e # event_queue t"] ms by (auto simp: timer_inv_def)
  moreover have "set (event_queue (enqueue e t)) = insert ?e (set (event_queue t))"
    using ms by (metis mset.simps(2) set_mset_mset list.simps(15))
  moreover have "event_fifo_id (enqueue e t) = event_fifo_id t + 1" using assms(2) by (simp add: enqueue_def)
  ultimately show ?thesis using assms(1) by (auto simp: timer_inv_def)
qed

lemma enqueue_simps [simp]:
  "executed_ticks (enqueue e t) = executed_ticks t" "slice_length (enqueue e t) = slice_length t"
  "downcount (enqueue e t) = downcount t" "is_timer_sane (enqueue e t) = is_timer_sane t"
  "ts_queue (enqueue e t) = ts_queue t"
  by (simp_all add: enqueue_def)

lemma move_events_simps [simp]:
  "executed_ticks (move_events es t) = executed_ticks t" "slice_length (move_events es t) = slice_length t"
  "downcount (move_events es t) = downcount t" "is_timer_sane (move_events es t) = is_timer_sane t"
  by (induction es arbitrary: t) simp_all

lemma move_events_inv:
  "timer_inv t \<Longrightarrow> event_fifo_id t + length es < 2 ^ 64 \<Longrightarrow> timer_inv (move_events es t)"
proof (induction es arbitrary: t)
  case (Cons e es)
  have "timer_inv (enqueue e t)" using Cons.prems by (intro enqueue_inv) auto
  moreover have "event_fifo_id (enqueue e t) + length es < 2 ^ 64" using Cons.prems(2) by (simp add: enqueue_def)
  ultimately show ?case using Cons.IH by simp
qed simp

lemma advance_start_inv:
  "timer_inv t \<Longrightarrow> event_fifo_id t + length (ts_queue t) < 2 ^ 64 \<Longrightarrow> timer_inv (advance_start t)"
  using move_events_inv [of t "ts_queue t"] by (simp add: advance_start_def MoveEvents_def Let_def timer_inv_def)

lemma pop_inv:
  assumes "timer_inv t" "event_queue t \<noteq> []"
  shows "timer_inv (t\<lparr>event_queue := butlast (pop_heap ekey (event_queue t))\<rparr>)"
proof -
  let ?q = "butlast (pop_heap ekey (event_queue t))"
  have ms: "mset (event_queue t) = mset (event_queue t ! 0 # ?q)"
    using hq.elems_pop [of "event_queue t" ekey] hq.front_in [of "event_queue t"] assms(2) by simp
  then have "distinct (map fifo_order (event_queue t ! 0 # ?q))"
    using assms(1) distinct_fifo_mset [OF ms] by (simp add: timer_inv_def)
  moreover have "set ?q \<subseteq> set (event_queue t)" using mset_eq_setD [OF ms] by auto
  moreover have "is_heap ekey ?q" using hq.inv_pop [of ekey "event_queue t"] assms by (simp add: timer_inv_def)
  ultimately show ?thesis using assms(1) by (auto simp: timer_inv_def)
qed

lemma drop_events_inv: "timer_inv t \<Longrightarrow> timer_inv (drop_events P t)"
proof -
  assume t: "timer_inv t"
  let ?q = "filter (\<lambda>e. \<not> P e) (event_queue t)"
  have "distinct (map fifo_order ?q)" using t by (simp add: timer_inv_def distinct_map_filter)
  then have "distinct (map fifo_order (make_heap ekey ?q))"
    using distinct_fifo_mset [OF hq.elems_rebuild [of ekey ?q]] by simp
  moreover have "set (make_heap ekey ?q) \<subseteq> set (event_queue t)"
    using mset_eq_setD [OF hq.elems_rebuild [of ekey ?q]] by auto
  ultimately show ?thesis using t hq.inv_rebuild [of ekey ?q] by (auto simp: drop_events_def timer_inv_def Let_def)
qed

lemma mset_drop_events: "mset (event_queue (drop_events P t)) = filter_mset (\<lambda>e. \<not> P e) (mset (event_queue t))"
proof (cases "length (filter (\<lambda>e. \<not> P e) (event_queue t)) = length (event_queue t)")
  case True
  then have "filter (\<lambda>e. \<not> P e) (event_queue t) = event_queue t" by (metis filter_id_conv length_filter_less less_irrefl)
  with True show ?thesis by (simp add: drop_events_def Let_def) (metis mset_filter)
next
  case False
  then show ?thesis by (simp add: drop_events_def Let_def hq.elems_rebuild)
qed

section \<open>Scheduling\<close>

text \<open>Ticks and counters far enough from the ends of their range.\<close>

definition in_range :: "timer \<Rightarrow> bool" where
  "in_range t \<longleftrightarrow> 0 \<le> executed_ticks t \<and> executed_ticks t < 2 ^ 62 \<and> \<bar>slice_length t\<bar> < 2 ^ 31 \<and>
     \<bar>downcount t\<bar> < 2 ^ 31 \<and> 0 \<le> executed_ticks t + slice_length t - downcount t"

definition now :: "timer \<Rightarrow> int" where
  "now t = executed_ticks t + (if is_timer_sane t then 0 else slice_length t - downcount t)"

lemma timer_GetTicks_now: "in_range t \<Longrightarrow> timer_GetTicks t = now t"
  by (auto simp: timer_GetTicks_def now_def in_range_def u64_id s64_id)

lemma ForceExceptionCheck_now:
  "in_range t \<Longrightarrow> now (ForceExceptionCheck c t) = now t \<and>
     downcount (ForceExceptionCheck c t) \<le> max 0 c \<and> downcount (ForceExceptionCheck c t) \<le> downcount t \<and>
     is_timer_sane (ForceExceptionCheck c t) = is_timer_sane t"
  by (auto simp: ForceExceptionCheck_def Let_def now_def in_range_def s64_id)

lemma ForceExceptionCheck_queue [simp]:
  "event_queue (ForceExceptionCheck c t) = event_queue t" "event_fifo_id (ForceExceptionCheck c t) = event_fifo_id t"
  "ts_queue (ForceExceptionCheck c t) = ts_queue t" "executed_ticks (ForceExceptionCheck c t) = executed_ticks t"
  by (simp_all add: ForceExceptionCheck_def Let_def)

text \<open>
  Property: Scheduling on the running core. The event is added to that timer's heap with the time \<open>cycles\<close> from now
  and a number larger than all pending ones; the timer's clock does not move; and if a slice is running, it is
  shortened so that it ends no later than the event. Every other timer is unchanged.
\<close>

theorem ScheduleEvent_current:
  assumes "i = current_timer tm" "i < length (timers tm)" "\<not> event_queue_locked tm" "t = timers tm ! i"
    "timer_inv t" "in_range t" "event_fifo_id t + 1 < 2 ^ 64" "\<bar>cycles\<bar> < 2 ^ 61"
  shows "\<exists>t'. ScheduleEvent cycles ty d None False tm = Some (tm\<lparr>timers := (timers tm)[i := t']\<rparr>) \<and>
    timer_inv t' \<and> now t' = now t \<and> (\<not> is_timer_sane t \<longrightarrow> downcount t' \<le> max 0 cycles) \<and>
    mset (event_queue t') = add_mset \<lparr>ev_time = now t + cycles, fifo_order = event_fifo_id t, ev_data = d, ev_type = ty\<rparr>
      (mset (event_queue t))"
proof -
  let ?t1 = "if is_timer_sane t then t else ForceExceptionCheck cycles t"
  let ?e = "\<lparr>ev_time = s64 (timer_GetTicks t + cycles), fifo_order = 0, ev_data = d, ev_type = ty\<rparr>"
  have "0 \<le> now t \<and> now t < 2 ^ 62 + 2 ^ 32" using assms(6) by (auto simp: now_def in_range_def)
  then have e: "s64 (timer_GetTicks t + cycles) = now t + cycles"
    using assms(8) timer_GetTicks_now [OF assms(6)] by (intro trans [OF s64_id]) auto
  have "ScheduleEvent cycles ty d None False tm = Some (tm\<lparr>timers := (timers tm)[i := enqueue ?e ?t1]\<rparr>)"
    using assms(1-4) by (simp add: ScheduleEvent_def on_timer_def Let_def)
  moreover have "timer_inv (enqueue ?e ?t1)"
    using assms(5,7) timer_inv_cong [of ?t1 t] by (intro enqueue_inv) auto
  moreover have "now (enqueue ?e ?t1) = now t" using ForceExceptionCheck_now [OF assms(6), of cycles] by (auto simp: now_def split: if_splits)
  moreover have "\<not> is_timer_sane t \<longrightarrow> downcount (enqueue ?e ?t1) \<le> max 0 cycles"
    using ForceExceptionCheck_now [OF assms(6), of cycles] by simp
  moreover have "mset (event_queue (enqueue ?e ?t1)) =
      add_mset \<lparr>ev_time = now t + cycles, fifo_order = event_fifo_id t, ev_data = d, ev_type = ty\<rparr> (mset (event_queue t))"
    by (simp add: enqueue_elems e)
  ultimately show ?thesis by blast
qed

definition sample_timing :: "unit timing" where
  "sample_timing = \<lparr>timers = [Timer 100], current_timer = 0, event_queue_locked = False, event_types = [''ev'' \<mapsto> Some ()]\<rparr>"

lemma sample_in_range: "in_range (Timer 100)"
  by (simp add: in_range_def Timer_def MAX_SLICE_LENGTH_def BASE_CLOCK_RATE_ARM11_def)

theorem ScheduleEvent_current_witness:
  "\<exists>t'. ScheduleEvent 5 ''ev'' 1 None False sample_timing = Some (sample_timing\<lparr>timers := [t']\<rparr>) \<and>
     mset (event_queue t') = {#\<lparr>ev_time = 105, fifo_order = 0, ev_data = 1, ev_type = ''ev''\<rparr>#}"
proof -
  have "\<exists>t'. ScheduleEvent 5 ''ev'' 1 None False sample_timing = Some (sample_timing\<lparr>timers := (timers sample_timing)[0 := t']\<rparr>) \<and>
    timer_inv t' \<and> now t' = now (Timer 100) \<and> (\<not> is_timer_sane (Timer 100) \<longrightarrow> downcount t' \<le> max 0 5) \<and>
    mset (event_queue t') = add_mset \<lparr>ev_time = now (Timer 100) + 5, fifo_order = event_fifo_id (Timer 100), ev_data = 1, ev_type = ''ev''\<rparr>
      (mset (event_queue (Timer 100)))"
    by (rule ScheduleEvent_current)
      (use timer_inv_Timer [of 100] sample_in_range in \<open>simp_all add: sample_timing_def, simp add: Timer_def\<close>)
  then show ?thesis by (auto simp: sample_timing_def now_def Timer_def)
qed

section \<open>Running the due events\<close>

text \<open>The events that a run of the loop takes off the queue, in order.\<close>

inductive due_run ::
  "('f \<Rightarrow> nat \<Rightarrow> int \<Rightarrow> 'f timing \<times> 'w \<Rightarrow> 'f timing \<times> 'w) \<Rightarrow> nat \<Rightarrow> 'f timing \<times> 'w \<Rightarrow> event list \<Rightarrow> 'f timing \<times> 'w \<Rightarrow> bool"
  for invoke i where
  due_stop: "\<not> due (timers (fst s) ! i) \<Longrightarrow> due_run invoke i s [] s"
| due_step: "due (timers (fst s) ! i) \<Longrightarrow> due_run invoke i (run_event invoke i s) es s' \<Longrightarrow>
    due_run invoke i s (event_queue (timers (fst s) ! i) ! 0 # es) s'"

inductive_simps due_run_Nil: "due_run invoke i s [] s'"

lemma due_run_result: "due_run invoke i s es s' \<Longrightarrow> run_due invoke i s = Some s'"
  by (induction rule: due_run.induct) (simp_all add: run_due.simps)

definition due_events :: "int \<Rightarrow> timer \<Rightarrow> event multiset" where
  "due_events clock t = filter_mset (\<lambda>e. ev_time e \<le> clock) (mset (event_queue t))"

text \<open>
  What the timing system asks of callbacks: they keep the timer's queue well formed and its clock, they
  schedule nothing that is already due and unschedule nothing that is due.
\<close>

definition calm :: "('f \<Rightarrow> nat \<Rightarrow> int \<Rightarrow> 'f timing \<times> 'w \<Rightarrow> 'f timing \<times> 'w) \<Rightarrow> nat \<Rightarrow> bool" where
  "calm invoke i \<longleftrightarrow> (\<forall>f d late tm w tm' w'. invoke f d late (tm, w) = (tm', w') \<and> i < length (timers tm) \<and>
     timer_inv (timers tm ! i) \<longrightarrow>
       i < length (timers tm') \<and> timer_inv (timers tm' ! i) \<and>
       executed_ticks (timers tm' ! i) = executed_ticks (timers tm ! i) \<and>
       due_events (executed_ticks (timers tm ! i)) (timers tm' ! i) = due_events (executed_ticks (timers tm ! i)) (timers tm ! i))"

lemma front_is_first_due:
  assumes "timer_inv t" "mset (x # es) = due_events (executed_ticks t) t" "sorted (map ekey (x # es))"
  shows "due t \<and> event_queue t ! 0 = x"
proof -
  let ?q = "event_queue t"
  have "x \<in># due_events (executed_ticks t) t" unfolding assms(2) [symmetric] by simp
  then have x: "x \<in># mset ?q" "ev_time x \<le> executed_ticks t" by (simp_all add: due_events_def)
  then have ne: "?q \<noteq> []" by auto
  then have f: "?q ! 0 \<in># mset ?q" by (simp add: hq.front_in)
  have le: "ekey (?q ! 0) \<le> ekey x" using hq.front_least [of ekey ?q x] assms(1) x(1) by (simp add: timer_inv_def)
  then have "ev_time (?q ! 0) \<le> ev_time x" by (auto simp: ekey_def less_eq_prod_def)
  then have d: "ev_time (?q ! 0) \<le> executed_ticks t" using x(2) by simp
  with f have "?q ! 0 \<in># mset (x # es)" unfolding assms(2) due_events_def by simp
  then have "ekey x \<le> ekey (?q ! 0)" using assms(3) by auto
  with le have "fifo_order x = fifo_order (?q ! 0)" by (simp add: ekey_def less_eq_prod_def) auto
  moreover have "inj_on fifo_order (set ?q)" using assms(1) by (simp add: timer_inv_def distinct_map)
  ultimately have "?q ! 0 = x" using x(1) f by (auto dest: inj_onD)
  with d ne show ?thesis by (simp add: due_def)
qed

lemma run_event_effect:
  assumes calm: "calm invoke i" and i: "i < length (timers (fst s))" and inv: "timer_inv (timers (fst s) ! i)"
    and due: "due (timers (fst s) ! i)"
  defines "t \<equiv> timers (fst s) ! i" and "s' \<equiv> run_event invoke i s"
  shows "i < length (timers (fst s'))" "timer_inv (timers (fst s') ! i)" "executed_ticks (timers (fst s') ! i) = executed_ticks t"
    "due_events (executed_ticks t) (timers (fst s') ! i) = due_events (executed_ticks t) t - {#event_queue t ! 0#}"
proof -
  let ?t1 = "t\<lparr>event_queue := butlast (pop_heap ekey (event_queue t))\<rparr>"
  let ?tm = "on_timer i (\<lambda>t. t\<lparr>event_queue := butlast (pop_heap ekey (event_queue t))\<rparr>) (fst s)"
  have ne: "event_queue t \<noteq> []" using due by (simp add: due_def t_def)
  have tm: "timers ?tm ! i = ?t1" "i < length (timers ?tm)" using i by (simp_all add: on_timer_def t_def)
  have inv1: "timer_inv ?t1" using pop_inv inv ne by (simp add: t_def)
  have ms: "due_events (executed_ticks t) ?t1 = due_events (executed_ticks t) t - {#event_queue t ! 0#}"
    using hq.elems_pop [of "event_queue t" ekey] ne due by (simp add: due_events_def due_def t_def)
  have "i < length (timers (fst s')) \<and> timer_inv (timers (fst s') ! i) \<and>
      executed_ticks (timers (fst s') ! i) = executed_ticks t \<and>
      due_events (executed_ticks t) (timers (fst s') ! i) = due_events (executed_ticks t) ?t1"
  proof (cases "event_types (fst s) (ev_type (event_queue t ! 0))")
    case None
    then have "s' = (?tm, snd s)" by (simp add: s'_def run_event_def Let_def t_def)
    with tm inv1 show ?thesis by simp
  next
    case (Some c)
    show ?thesis
    proof (cases c)
      case None
      with Some have "s' = (?tm, snd s)" by (simp add: s'_def run_event_def Let_def t_def)
      with tm inv1 show ?thesis by simp
    next
      case (Some f)
      with \<open>event_types _ _ = Some c\<close> have e: "s' = invoke f (ev_data (event_queue t ! 0)) (s32 (s64 (executed_ticks t - ev_time (event_queue t ! 0)))) (?tm, snd s)"
        by (simp add: s'_def run_event_def Let_def t_def)
      then have "invoke f (ev_data (event_queue t ! 0)) (s32 (s64 (executed_ticks t - ev_time (event_queue t ! 0)))) (?tm, snd s) = (fst s', snd s')"
        by simp
      from calm [unfolded calm_def, rule_format, OF conjI, OF this] tm inv1 show ?thesis by simp
    qed
  qed
  with ms show "i < length (timers (fst s'))" "timer_inv (timers (fst s') ! i)" "executed_ticks (timers (fst s') ! i) = executed_ticks t"
    "due_events (executed_ticks t) (timers (fst s') ! i) = due_events (executed_ticks t) t - {#event_queue t ! 0#}" by simp_all
qed

lemma due_run_exists:
  assumes "calm invoke i"
  shows "i < length (timers (fst s)) \<Longrightarrow> timer_inv (timers (fst s) ! i) \<Longrightarrow>
    mset es = due_events (executed_ticks (timers (fst s) ! i)) (timers (fst s) ! i) \<Longrightarrow> sorted (map ekey es) \<Longrightarrow>
    \<exists>s'. due_run invoke i s es s' \<and> i < length (timers (fst s')) \<and> timer_inv (timers (fst s') ! i) \<and>
      executed_ticks (timers (fst s') ! i) = executed_ticks (timers (fst s) ! i) \<and>
      (\<forall>e \<in> set (event_queue (timers (fst s') ! i)). executed_ticks (timers (fst s') ! i) < ev_time e)"
proof (induction es arbitrary: s)
  case Nil
  let ?t = "timers (fst s) ! i"
  have "\<forall>e \<in> set (event_queue ?t). executed_ticks ?t < ev_time e"
  proof (rule ballI, rule ccontr)
    fix e assume "e \<in> set (event_queue ?t)" "\<not> executed_ticks ?t < ev_time e"
    then have "e \<in># due_events (executed_ticks ?t) ?t" by (simp add: due_events_def)
    then show False unfolding Nil.prems(3) [symmetric] by simp
  qed
  moreover have "event_queue ?t \<noteq> [] \<Longrightarrow> event_queue ?t ! 0 \<in> set (event_queue ?t)" by simp
  ultimately have "\<not> due ?t" by (fastforce simp: due_def)
  with Nil.prems \<open>\<forall>e \<in> set (event_queue ?t). executed_ticks ?t < ev_time e\<close> show ?case
    by (intro exI [of _ s]) (simp add: due_stop)
next
  case (Cons x es)
  let ?t = "timers (fst s) ! i"
  have f: "due ?t" "event_queue ?t ! 0 = x" using front_is_first_due [OF Cons.prems(2,3,4)] by auto
  note eff = run_event_effect [OF assms Cons.prems(1,2) f(1)]
  have "mset es = due_events (executed_ticks ?t) (timers (fst (run_event invoke i s)) ! i)"
    using eff(4) Cons.prems(3) f(2) by (metis add_mset_remove_trivial mset.simps(2))
  then obtain s' where s': "due_run invoke i (run_event invoke i s) es s'" "i < length (timers (fst s'))"
    "timer_inv (timers (fst s') ! i)" "executed_ticks (timers (fst s') ! i) = executed_ticks ?t"
    "\<forall>e \<in> set (event_queue (timers (fst s') ! i)). executed_ticks (timers (fst s') ! i) < ev_time e"
    using Cons.IH [OF eff(1,2)] eff(3) Cons.prems(4) by auto
  with due_step [of s i invoke es s', OF f(1)] f(2) show ?case by (intro exI [of _ s']) simp
qed


text \<open>A timer with two events at the same time, the second one scheduled by another thread.\<close>

definition busy_timer :: timer where
  "busy_timer = (Timer 100)\<lparr>event_queue := [\<lparr>ev_time = 100, fifo_order = 3, ev_data = 1, ev_type = ''ev''\<rparr>],
     event_fifo_id := 4, ts_queue := [\<lparr>ev_time = 100, fifo_order = 0, ev_data = 2, ev_type = ''ev''\<rparr>]\<rparr>"


text \<open>
  Property: The next slice ends at the next event. After \<^verbatim>\<open>Advance\<close>, when every pending event lies in the future,
  the assertion of \<^verbatim>\<open>GetMaxSliceLength\<close> holds, and \<^verbatim>\<open>SetNextSlice\<close> with a positive limit gives the running core
  a positive number of cycles that neither exceeds the limit nor runs past the earliest event.
\<close>

theorem SetNextSlice_bounds:
  assumes "timer_inv t" "0 \<le> executed_ticks t" "0 < max_slice" "max_slice < 2 ^ 31"
    "\<forall>e \<in> set (event_queue t). executed_ticks t < ev_time e \<and> ev_time e < 2 ^ 63"
  shows "(\<exists>n > 0. GetMaxSliceLength t = Some n) \<and> 0 < downcount (SetNextSlice max_slice t) \<and>
    downcount (SetNextSlice max_slice t) \<le> max_slice \<and> slice_length (SetNextSlice max_slice t) = downcount (SetNextSlice max_slice t) \<and>
    (\<forall>e \<in> set (event_queue t). executed_ticks t + downcount (SetNextSlice max_slice t) \<le> ev_time e)"
proof (cases "event_queue t = []")
  case True
  then show ?thesis using assms(3)
    by (simp add: GetMaxSliceLength_def SetNextSlice_def MAX_SLICE_LENGTH_def BASE_CLOCK_RATE_ARM11_def)
next
  case False
  let ?f = "event_queue t ! 0"
  have f: "?f \<in> set (event_queue t)" using False by simp
  have least: "ev_time ?f \<le> ev_time e" if "e \<in> set (event_queue t)" for e
    using hq.front_least [of ekey "event_queue t" e] assms(1) that by (auto simp: timer_inv_def ekey_def less_eq_prod_def)
  have d: "s64 (ev_time ?f - executed_ticks t) = ev_time ?f - executed_ticks t" "0 < ev_time ?f - executed_ticks t"
    using assms(2,5) f by (auto simp: s64_id)
  have "downcount (SetNextSlice max_slice t) = min (ev_time ?f - executed_ticks t) max_slice"
    "slice_length (SetNextSlice max_slice t) = min (ev_time ?f - executed_ticks t) max_slice"
    using False d assms(3,4) by (simp_all add: SetNextSlice_def Let_def s32_id min_def)
  with d assms(3) least show ?thesis
    by (fastforce simp: GetMaxSliceLength_def False Let_def)
qed

theorem SetNextSlice_bounds_witness:
  "executed_ticks (Timer 100) + downcount (SetNextSlice 1000 ((Timer 100)\<lparr>event_queue :=
     [\<lparr>ev_time = 150, fifo_order = 0, ev_data = 0, ev_type = ''ev''\<rparr>], event_fifo_id := 1\<rparr>)) \<le> 150"
  using SetNextSlice_bounds [of "(Timer 100)\<lparr>event_queue :=
     [\<lparr>ev_time = 150, fifo_order = 0, ev_data = 0, ev_type = ''ev''\<rparr>], event_fifo_id := 1\<rparr>" 1000]
  by (simp add: timer_inv_def heap_from_def Timer_def)

text \<open>
  Property: Unscheduling is exact. Removing the events of a type and user data from a timing system that is not
  being loaded leaves in every timer exactly the other events, in a well-formed queue.
\<close>

theorem UnscheduleEvent_exact:
  assumes "\<not> event_queue_locked tm" "i < length (timers tm)" "timer_inv (timers tm ! i)"
  shows "timer_inv (timers (UnscheduleEvent ty d tm) ! i) \<and>
    mset (event_queue (timers (UnscheduleEvent ty d tm) ! i)) =
      filter_mset (\<lambda>e. \<not> (ev_type e = ty \<and> ev_data e = d)) (mset (event_queue (timers tm ! i))) \<and>
    timer_inv (timers (RemoveEvent ty tm) ! i) \<and>
    mset (event_queue (timers (RemoveEvent ty tm) ! i)) = filter_mset (\<lambda>e. ev_type e \<noteq> ty) (mset (event_queue (timers tm ! i)))"
  using assms by (simp add: UnscheduleEvent_def RemoveEvent_def drop_events_inv mset_drop_events)

theorem UnscheduleEvent_exact_witness:
  "mset (event_queue (timers (UnscheduleEvent ''ev'' 1 (sample_timing\<lparr>timers := [busy_timer]\<rparr>)) ! 0)) = {#}"
  using UnscheduleEvent_exact [of "sample_timing\<lparr>timers := [busy_timer]\<rparr>" 0 "''ev''" 1]
  by (simp add: sample_timing_def timer_inv_def busy_timer_def heap_from_def)

end
