(* ===== verification/IPC_Descriptors.thy ===== *)
theory IPC_Descriptors
  imports Bit_Field
begin

text \<open>
  \<^verbatim>\<open>src/core/hle/ipc.h\<close>: command headers and translation descriptors, 32-bit words built from bit fields.
  The lemmas show that what a constructor puts into a word is what the kernel reads out of it.
\<close>

unbundle bit_operations_syntax

section \<open>Definitions\<close>

definition COMMAND_BUFFER_LENGTH :: nat where "COMMAND_BUFFER_LENGTH = 0x100 div 4"
definition MAX_STATIC_BUFFERS :: nat where "MAX_STATIC_BUFFERS = 16"

definition StaticBuffer :: u32 where "StaticBuffer = 0x02"
definition PXIBuffer :: u32 where "PXIBuffer = 0x04"
definition MappedBuffer :: u32 where "MappedBuffer = 0x08"
definition CopyHandle :: u32 where "CopyHandle = 0x00"
definition MoveHandle :: u32 where "MoveHandle = 0x10"
definition CallingPid :: u32 where "CallingPid = 0x20"

lemmas descriptor_types = StaticBuffer_def PXIBuffer_def MappedBuffer_def CopyHandle_def MoveHandle_def CallingPid_def

definition translate_params_size :: "u32 \<Rightarrow> u32" where "translate_params_size raw = ExtractValue 0 6 raw"
definition normal_params_size :: "u32 \<Rightarrow> u32" where "normal_params_size raw = ExtractValue 6 6 raw"
definition header_command_id :: "u32 \<Rightarrow> u32" where "header_command_id raw = ExtractValue 16 16 raw"

definition MakeHeader :: "u16 \<Rightarrow> u32 \<Rightarrow> u32 \<Rightarrow> u32" where
  "MakeHeader command_id normal translate =
     Assign 0 6 (Assign 6 6 (Assign 16 16 0 (ucast command_id)) normal) translate"

definition MoveHandleDesc :: "u32 \<Rightarrow> u32" where
  "MoveHandleDesc num_handles = MoveHandle OR push_bit 26 (num_handles - 1)"

definition CopyHandleDesc :: "u32 \<Rightarrow> u32" where
  "CopyHandleDesc num_handles = CopyHandle OR push_bit 26 (num_handles - 1)"

definition CallingPidDesc :: u32 where "CallingPidDesc = CallingPid"

definition IsHandleDescriptor :: "u32 \<Rightarrow> bool" where
  "IsHandleDescriptor descriptor \<longleftrightarrow> descriptor AND 0xF = 0"

definition HandleNumberFromDesc :: "u32 \<Rightarrow> u32" where
  "HandleNumberFromDesc descriptor = drop_bit 26 descriptor + 1"

definition sb_buffer_id :: "u32 \<Rightarrow> u32" where "sb_buffer_id raw = ExtractValue 10 4 raw"
definition sb_size :: "u32 \<Rightarrow> u32" where "sb_size raw = ExtractValue 14 18 raw"

definition StaticBufferDesc :: "u32 \<Rightarrow> u8 \<Rightarrow> u32" where
  "StaticBufferDesc sz buffer_id =
     Assign 14 18 (Assign 10 4 (Assign 0 4 0 StaticBuffer) (ucast buffer_id)) sz"

definition PXIBufferDesc :: "u32 \<Rightarrow> u32 \<Rightarrow> bool \<Rightarrow> u32" where
  "PXIBufferDesc sz buffer_id is_read_only =
     (let type = (if is_read_only then PXIBuffer OR 0x2 else PXIBuffer)
      in type OR push_bit 8 sz OR push_bit 4 (buffer_id AND 0xF))"

definition MBP_R :: u32 where "MBP_R = 1"
definition MBP_W :: u32 where "MBP_W = 2"
definition MBP_RW :: u32 where "MBP_RW = 3"

definition mb_perms :: "u32 \<Rightarrow> u32" where "mb_perms raw = ExtractValue 1 2 raw"
definition mb_size :: "u32 \<Rightarrow> u32" where "mb_size raw = ExtractValue 4 28 raw"

definition MappedBufferDesc :: "u32 \<Rightarrow> u32 \<Rightarrow> u32" where
  "MappedBufferDesc sz perms = Assign 4 28 (Assign 1 2 (Assign 0 4 0 MappedBuffer) perms) sz"

definition GetDescriptorType :: "u32 \<Rightarrow> u32" where
  "GetDescriptorType descriptor =
     (if IsHandleDescriptor descriptor then descriptor AND 0x30
      else if descriptor AND MappedBuffer \<noteq> 0 then MappedBuffer
      else if descriptor AND PXIBuffer \<noteq> 0 then PXIBuffer
      else StaticBuffer)"

section \<open>Reading back what was built\<close>

interpretation h0: bit_field 0 6 "TYPE(32)" by unfold_locales simp_all
interpretation h6: bit_field 6 6 "TYPE(32)" by unfold_locales simp_all
interpretation h16: bit_field 16 16 "TYPE(32)" by unfold_locales simp_all
interpretation d0: bit_field 0 4 "TYPE(32)" by unfold_locales simp_all
interpretation d10: bit_field 10 4 "TYPE(32)" by unfold_locales simp_all
interpretation d14: bit_field 14 18 "TYPE(32)" by unfold_locales simp_all
interpretation d1: bit_field 1 2 "TYPE(32)" by unfold_locales simp_all
interpretation d4: bit_field 4 28 "TYPE(32)" by unfold_locales simp_all
interpretation h06: bit_field_pair 0 6 6 6 "TYPE(32)" by unfold_locales simp_all
interpretation h616: bit_field_pair 6 6 16 16 "TYPE(32)" by unfold_locales simp_all
interpretation d1014: bit_field_pair 10 4 14 18 "TYPE(32)" by unfold_locales simp_all

lemmas bit_fields = h0.bit_Extract h0.bit_Assign h6.bit_Extract h6.bit_Assign h16.bit_Extract h16.bit_Assign
  d0.bit_Extract d0.bit_Assign d10.bit_Extract d10.bit_Assign d14.bit_Extract d14.bit_Assign
  d1.bit_Extract [unfolded One_nat_def] d1.bit_Assign [unfolded One_nat_def] d4.bit_Extract d4.bit_Assign

lemma MakeHeader_sizes:
  "normal_params_size (MakeHeader cid n t) = take_bit 6 n" "translate_params_size (MakeHeader cid n t) = take_bit 6 t"
  unfolding normal_params_size_def translate_params_size_def MakeHeader_def
  by (rule bit_word_eqI, auto simp: bit_fields bit_simps)+

text \<open>
  Property: Command headers. The three fields of a header built by \<^verbatim>\<open>MakeHeader\<close> are the command id and the two
  sizes, each size cut to its six bits.
\<close>

theorem MakeHeader_fields:
  "header_command_id (MakeHeader cid n t) = ucast cid \<and> normal_params_size (MakeHeader cid n t) = take_bit 6 n \<and>
   translate_params_size (MakeHeader cid n t) = take_bit 6 t"
  unfolding header_command_id_def normal_params_size_def translate_params_size_def MakeHeader_def
  by (intro conjI bit_word_eqI) (auto simp: bit_fields bit_simps dest: bit_imp_le_length)

lemma and_mask_bits: "(w :: u32) AND 0xF = take_bit 4 w"
  by (simp add: take_bit_eq_mask mask_eq_exp_minus_1)

lemma flag_zero_iff: "(w :: u32) AND push_bit n 1 = 0 \<longleftrightarrow> \<not> bit w n \<or> 32 \<le> n"
  by (auto simp: and_exp_eq_0_iff_not_bit push_bit_eq_mult bit_imp_le_length dest: bit_imp_le_length)

lemma low_bits_zero_iff: "take_bit 4 (w :: u32) = 0 \<longleftrightarrow> \<not> bit w 0 \<and> \<not> bit w 1 \<and> \<not> bit w 2 \<and> \<not> bit w 3"
proof
  assume "take_bit 4 w = 0"
  then have "\<not> bit (take_bit 4 w) n" for n by simp
  from this [of 0] this [of 1] this [of 2] this [of 3] show "\<not> bit w 0 \<and> \<not> bit w 1 \<and> \<not> bit w 2 \<and> \<not> bit w 3"
    by (simp add: bit_take_bit_iff)
next
  assume b: "\<not> bit w 0 \<and> \<not> bit w 1 \<and> \<not> bit w 2 \<and> \<not> bit w 3"
  have "\<not> bit w n" if "n < 4" for n
  proof -
    from that consider "n = 0" | "n = 1" | "n = 2" | "n = 3" by linarith
    then show ?thesis using b by cases auto
  qed
  then show "take_bit 4 w = 0" by (intro bit_word_eqI) (simp add: bit_take_bit_iff)
qed

lemma take_bit_small: "(w :: u32) < 2 ^ k \<Longrightarrow> k < 32 \<Longrightarrow> take_bit k w = w"
  by (metis bit_take_bit_iff less_mask_eq take_bit_eq_mask)

lemma flag_bit: "(w :: u32) AND 8 \<noteq> 0 \<longleftrightarrow> bit w 3" "(w :: u32) AND 4 \<noteq> 0 \<longleftrightarrow> bit w 2"
  using flag_zero_iff [of w 3] flag_zero_iff [of w 2] by (simp_all add: push_bit_eq_mult)

lemma GetDescriptorType_bits:
  "GetDescriptorType w =
     (if \<not> bit w 0 \<and> \<not> bit w 1 \<and> \<not> bit w 2 \<and> \<not> bit w 3 then w AND 0x30
      else if bit w 3 then MappedBuffer else if bit w 2 then PXIBuffer else StaticBuffer)"
  unfolding GetDescriptorType_def IsHandleDescriptor_def and_mask_bits low_bits_zero_iff MappedBuffer_def PXIBuffer_def flag_bit ..

lemma high_part:
  fixes c m x :: u32
  assumes "take_bit 26 m = m"
  shows "(c OR push_bit 26 x) AND m = c AND m"
proof (rule bit_word_eqI)
  fix n
  have "bit m n \<Longrightarrow> n < 26" using assms by (metis bit_take_bit_iff)
  then show "bit ((c OR push_bit 26 x) AND m) n = bit (c AND m) n" by (auto simp: bit_simps)
qed

lemma handle_count:
  fixes c x :: u32
  assumes "drop_bit 26 c = 0" "1 \<le> x" "x \<le> 64"
  shows "HandleNumberFromDesc (c OR push_bit 26 (x - 1)) = x"
proof -
  have "x - 1 < 64" using assms(2,3) by unat_arith
  then have "take_bit 6 (x - 1) = x - 1" by (simp add: take_bit_small)
  moreover have "drop_bit 26 (push_bit 26 (x - 1)) = take_bit 6 (x - 1)"
    by (rule bit_word_eqI) (auto simp: bit_simps)
  ultimately show ?thesis using assms(1) by (simp add: HandleNumberFromDesc_def)
qed

lemma GetDescriptorType_Move:
  "GetDescriptorType (MoveHandleDesc n) = MoveHandle" "GetDescriptorType (CopyHandleDesc n) = CopyHandle"
proof -
  have m: "take_bit 26 (0xF :: u32) = 0xF" "take_bit 26 (0x30 :: u32) = 0x30" by simp_all
  show "GetDescriptorType (MoveHandleDesc n) = MoveHandle" "GetDescriptorType (CopyHandleDesc n) = CopyHandle"
    unfolding GetDescriptorType_def IsHandleDescriptor_def MoveHandleDesc_def CopyHandleDesc_def high_part [OF m(1)] high_part [OF m(2)]
    by (simp_all add: descriptor_types)
qed

text \<open>
  Property: Descriptors. The kernel classifies every descriptor as the kind its constructor was called for, and
  reads back its parameters: 1 to 64 handles, a static buffer's id and 18-bit size, a mapped buffer's
  permissions and 28-bit size.
\<close>

theorem descriptors_read_back:
  assumes "1 \<le> n" "n \<le> 64" "ba < 16" "sz < 2 ^ 18" "msz < 2 ^ 28" "perms < 4"
  shows "GetDescriptorType (MoveHandleDesc n) = MoveHandle \<and> HandleNumberFromDesc (MoveHandleDesc n) = n \<and>
    GetDescriptorType (CopyHandleDesc n) = CopyHandle \<and> HandleNumberFromDesc (CopyHandleDesc n) = n \<and>
    GetDescriptorType CallingPidDesc = CallingPid \<and>
    GetDescriptorType (StaticBufferDesc sz ba) = StaticBuffer \<and> sb_buffer_id (StaticBufferDesc sz ba) = ucast ba \<and>
    sb_size (StaticBufferDesc sz ba) = sz \<and>
    GetDescriptorType (MappedBufferDesc msz perms) = MappedBuffer \<and> mb_perms (MappedBufferDesc msz perms) = perms \<and>
    mb_size (MappedBufferDesc msz perms) = msz \<and> GetDescriptorType (PXIBufferDesc psz pid ro) = PXIBuffer"
proof (intro conjI)
  show "GetDescriptorType (MoveHandleDesc n) = MoveHandle" "GetDescriptorType (CopyHandleDesc n) = CopyHandle"
    by (rule GetDescriptorType_Move)+
  show "HandleNumberFromDesc (MoveHandleDesc n) = n" "HandleNumberFromDesc (CopyHandleDesc n) = n"
    unfolding MoveHandleDesc_def CopyHandleDesc_def using assms(1,2) handle_count [of CopyHandle n] by (simp_all add: handle_count descriptor_types)
  show "GetDescriptorType CallingPidDesc = CallingPid"
    by (simp add: GetDescriptorType_def IsHandleDescriptor_def CallingPidDesc_def descriptor_types)
  show "GetDescriptorType (StaticBufferDesc sz ba) = StaticBuffer"
    by (simp add: GetDescriptorType_bits StaticBufferDesc_def bit_fields StaticBuffer_def)
  have "sb_buffer_id (StaticBufferDesc sz ba) = take_bit 4 (ucast ba)" "sb_size (StaticBufferDesc sz ba) = take_bit 18 sz"
    "mb_perms (MappedBufferDesc msz perms) = take_bit 2 perms" "mb_size (MappedBufferDesc msz perms) = take_bit 28 msz"
    unfolding sb_buffer_id_def sb_size_def mb_perms_def mb_size_def StaticBufferDesc_def MappedBufferDesc_def
    by (rule bit_word_eqI, auto simp: bit_fields bit_simps)+
  moreover have "take_bit 4 (ucast ba :: u32) = ucast ba"
  proof (rule take_bit_small)
    show "(ucast ba :: u32) < 2 ^ 4" using assms(3) by (simp add: word_less_nat_alt unsigned_ucast_eq take_bit_nat_eq_self)
  qed simp
  moreover have "take_bit 18 sz = sz" "take_bit 2 perms = perms" "take_bit 28 msz = msz"
    using assms(4-6) by (simp_all add: take_bit_small)
  ultimately show "sb_buffer_id (StaticBufferDesc sz ba) = ucast ba" "sb_size (StaticBufferDesc sz ba) = sz"
    "mb_perms (MappedBufferDesc msz perms) = perms" "mb_size (MappedBufferDesc msz perms) = msz" by simp_all
  show "GetDescriptorType (MappedBufferDesc msz perms) = MappedBuffer"
    by (simp add: GetDescriptorType_bits MappedBufferDesc_def bit_fields MappedBuffer_def)
  show "GetDescriptorType (PXIBufferDesc psz pid ro) = PXIBuffer"
    by (simp add: GetDescriptorType_bits PXIBufferDesc_def Let_def bit_simps PXIBuffer_def)
qed

theorem descriptors_read_back_witness:
  "GetDescriptorType (MoveHandleDesc 2) = MoveHandle \<and> HandleNumberFromDesc (MoveHandleDesc 2) = 2"
  using descriptors_read_back [of 2 3 "0x100" "0x1000" 3] by simp

end
