(* ===== verification/IPC_Translate.thy ===== *)
theory IPC_Translate
  imports IPC_Descriptors Handle_Table Memory_System
begin

text \<open>
  \<^verbatim>\<open>TranslateCommandBuffer\<close> (\<^verbatim>\<open>src/core/hle/kernel/ipc.cpp\<close>): copying an IPC command from one process to
  another, translating handles, static buffers and mapped buffers on the way.

  The state is the processes (by number, so that sender and receiver may be the same), host memory, and the
  mapped buffers of the session. \<open>alloc ms n\<close> is where the host allocator puts a new block of \<open>n\<close> bytes.
  Objects are of an arbitrary type; \<open>thread_obj\<close> and \<open>process_obj\<close> are the sending thread and process. Recording
  for the debugger is left out. \<open>junk\<close> is what the command buffer array holds before it is filled. An access
  beyond that array, which the source does not check, is a crash.
\<close>

section \<open>Words and bytes\<close>

definition le_bytes :: "u32 \<Rightarrow> u8 list" where
  "le_bytes w = [ucast w, ucast (drop_bit 8 w), ucast (drop_bit 16 w), ucast (drop_bit 24 w)]"

fun le_word :: "u8 list \<Rightarrow> u32" where
  "le_word (b0 # b1 # b2 # b3 # _) =
     ucast b0 OR push_bit 8 (ucast b1) OR push_bit 16 (ucast b2) OR push_bit 24 (ucast b3)"
| "le_word _ = 0"

fun words_of :: "u8 list \<Rightarrow> u32 list" where
  "words_of (b0 # b1 # b2 # b3 # bs) = le_word [b0, b1, b2, b3] # words_of bs"
| "words_of _ = []"

definition bytes_of :: "u32 list \<Rightarrow> u8 list" where
  "bytes_of ws = concat (map le_bytes ws)"

section \<open>State\<close>

record 'o proc =
  ptable :: "'o handle_table"
  pvm :: vm_manager
  ppid :: u32

record mapped_buffer =
  mbc_permissions :: u32
  mbc_size :: nat
  mbc_source :: nat
  mbc_target :: nat
  mbc_buffer :: backing_mem

record 'o ipc_state =
  procs :: "nat \<Rightarrow> 'o proc"
  wmem :: mem_sys
  contexts :: "mapped_buffer list"

text \<open>What a translation is given: the two processes, the sender's pseudo-handles, the receiver's buffer, the direction.\<close>

record 'o ipc_call =
  src :: nat
  dst :: nat
  thread_obj :: 'o
  process_obj :: 'o
  dst_address :: nat
  is_reply :: bool

text \<open>Running a memory or address-space operation of a process on the state.\<close>

definition with_mem :: "(mem_sys \<Rightarrow> (mem_sys, 'a) outcome) \<Rightarrow> 'o ipc_state \<Rightarrow> ('o ipc_state, 'a) outcome" where
  "with_mem f w = (case f (wmem w) of
     Ok ms a \<Rightarrow> Ok (w\<lparr>wmem := ms\<rparr>) a | Err ms c \<Rightarrow> Err (w\<lparr>wmem := ms\<rparr>) c | Crash \<Rightarrow> Crash)"

definition with_vm ::
  "nat \<Rightarrow> ((nat \<Rightarrow> bool) \<Rightarrow> vm_manager \<Rightarrow> (vm_manager, 'a) outcome) \<Rightarrow> 'o ipc_state \<Rightarrow> ('o ipc_state, 'a) outcome" where
  "with_vm p f w = (case f (cached_pages (wmem w)) (pvm (procs w p)) of
     Ok vm a \<Rightarrow> Ok (w\<lparr>procs := (procs w)(p := (procs w p)\<lparr>pvm := vm\<rparr>)\<rparr>) a
   | Err vm c \<Rightarrow> Err (w\<lparr>procs := (procs w)(p := (procs w p)\<lparr>pvm := vm\<rparr>)\<rparr>) c
   | Crash \<Rightarrow> Crash)"

abbreviation pt_of :: "'o ipc_state \<Rightarrow> nat \<Rightarrow> page_table" where
  "pt_of w p \<equiv> vm_page_table (pvm (procs w p))"

definition set_table :: "nat \<Rightarrow> 'o handle_table \<Rightarrow> 'o ipc_state \<Rightarrow> 'o ipc_state" where
  "set_table p t w = w\<lparr>procs := (procs w)(p := (procs w p)\<lparr>ptable := t\<rparr>)\<rparr>"

text \<open>\<^verbatim>\<open>ASSERT(result == ResultSuccess)\<close>.\<close>

fun must :: "('s, 'a) outcome \<Rightarrow> ('s, 'a) outcome" where
  "must (Ok s a) = Ok s a"
| "must (Err s c) = Crash"
| "must Crash = Crash"

section \<open>Handles\<close>

text \<open>The lookup of one handle of the sender, and the state it leaves: \<open>Close\<close> ignores its result.\<close>

definition take_handle :: "'o ipc_call \<Rightarrow> u32 \<Rightarrow> u32 \<Rightarrow> 'o ipc_state \<Rightarrow> 'o option \<times> 'o ipc_state" where
  "take_handle c descriptor handle w =
     (if handle = CurrentThread then (Some (thread_obj c), w)
      else if handle = CurrentProcess then (Some (process_obj c), w)
      else if handle \<noteq> 0 then
        (let t = ptable (procs w (src c)); obj = GetGeneric None None t handle
         in (obj, if descriptor = MoveHandle
                  then (case Close t handle of
                          Ok t' _ \<Rightarrow> set_table (src c) t' w | Err t' _ \<Rightarrow> set_table (src c) t' w | Crash \<Rightarrow> w)
                  else w))
      else (None, w))"

fun translate_handles ::
  "'o ipc_call \<Rightarrow> u32 \<Rightarrow> nat \<Rightarrow> nat \<Rightarrow> u32 list \<Rightarrow> 'o ipc_state \<Rightarrow> ('o ipc_state, nat \<times> u32 list) outcome" where
  "translate_handles c descriptor 0 i cmd w = Ok w (i, cmd)"
| "translate_handles c descriptor (Suc n) i cmd w =
     (case take_handle c descriptor (cmd ! i) w of
        (None, w1) \<Rightarrow> translate_handles c descriptor n (i + 1) (cmd[i := 0]) w1
      | (Some obj, w1) \<Rightarrow>
          (case Create (ptable (procs w1 (dst c))) obj of
             Ok t' h \<Rightarrow> translate_handles c descriptor n (i + 1) (cmd[i := h]) (set_table (dst c) t' w1)
           | _ \<Rightarrow> Crash))"

section \<open>Buffers\<close>

definition IPC_MAPPING_VADDR :: nat where "IPC_MAPPING_VADDR = 0x04000000"
definition IPC_MAPPING_SIZE :: nat where "IPC_MAPPING_SIZE = 0x04000000"

definition AlignDown :: "nat \<Rightarrow> nat \<Rightarrow> nat" where
  "AlignDown value sz = value - value mod sz"

definition AlignUp :: "nat \<Rightarrow> nat \<Rightarrow> nat" where
  "AlignUp value sz = (if value mod sz = 0 then value - value mod sz else value - value mod sz + sz)"

definition translate_static ::
  "gpu \<Rightarrow> 'o ipc_call \<Rightarrow> u32 \<Rightarrow> nat \<Rightarrow> u32 list \<Rightarrow> 'o ipc_state \<Rightarrow> ('o ipc_state, nat \<times> u32 list) outcome" where
  "translate_static gpu c descriptor i cmd w =
     assertO (i < COMMAND_BUFFER_LENGTH)
       (bindO (with_mem (ReadBlock gpu (pt_of w (src c)) (unat (cmd ! i)) (unat (sb_size descriptor))) w) (\<lambda>w1 data.
          let off = COMMAND_BUFFER_LENGTH * 4 + 8 * unat (sb_buffer_id descriptor) in
          bindO (with_mem (ReadBlock gpu (pt_of w1 (dst c)) (add32 (dst_address c) off) 8) w1) (\<lambda>w2 tb.
            let target_descriptor = le_word (take 4 tb); target_address = le_word (drop 4 tb) in
            assertO (length data \<le> unat (sb_size target_descriptor))
              (bindO (with_mem (WriteBlock gpu (pt_of w2 (dst c)) (unat target_address) data) w2) (\<lambda>w3 _.
                 Ok w3 (i + 1, cmd[i := target_address]))))))"

text \<open>The reply direction of a mapped buffer: copy the data back, check the guard pages, unmap.\<close>

definition is_reserved :: "vm_manager \<Rightarrow> nat \<Rightarrow> bool" where
  "is_reserved vm a \<longleftrightarrow> FindVMA (vma_map vm) a < length (vma_map vm) \<and> vstate (vma_map vm ! FindVMA (vma_map vm) a) = StReserved"

fun erase_first :: "('a \<Rightarrow> bool) \<Rightarrow> 'a list \<Rightarrow> 'a list" where
  "erase_first P [] = []"
| "erase_first P (x # xs) = (if P x then xs else x # erase_first P xs)"

definition mapped_reply ::
  "gpu \<Rightarrow> 'o ipc_call \<Rightarrow> u32 \<Rightarrow> nat \<Rightarrow> nat \<Rightarrow> nat \<Rightarrow> nat \<Rightarrow> 'o ipc_state \<Rightarrow> ('o ipc_state, unit) outcome" where
  "mapped_reply gpu c perms sz source page_start num_pages w =
     (let match = (\<lambda>x. mbc_permissions x = perms \<and> mbc_size x = sz \<and> mbc_target x = source) in
      case List.find match (contexts w) of
        None \<Rightarrow> Crash
      | Some x \<Rightarrow>
          bindO (if perms \<noteq> MBP_R
                 then with_mem (CopyBlock gpu (pt_of w (dst c)) (pt_of w (src c)) (mbc_source x) (mbc_target x) sz) w
                 else Ok w ()) (\<lambda>w1 _.
            let prev_reserve = sub32 page_start CITRA_PAGE_SIZE;
                next_reserve = add32 page_start (num_pages * CITRA_PAGE_SIZE);
                vm = pvm (procs w1 (src c))
            in assertO (is_reserved vm prev_reserve \<and> is_reserved vm next_reserve)
                 (bindO (must (with_vm (src c) (\<lambda>cached. UnmapRange cached prev_reserve ((num_pages + 2) * CITRA_PAGE_SIZE)) w1))
                    (\<lambda>w2 _. Ok (w2\<lparr>contexts := erase_first match (contexts w2)\<rparr>) ()))))"

text \<open>
  The request direction: a new zeroed buffer with a guard page on either side, filled from the sender, mapped
  into the receiver; the result is the address of the data in the receiver.
\<close>

definition guard_page :: "'o ipc_call \<Rightarrow> nat \<Rightarrow> 'o ipc_state \<Rightarrow> ('o ipc_state, unit) outcome" where
  "guard_page c a w =
     must (with_vm (dst c) (\<lambda>cached. ChangeMemoryState cached a CITRA_PAGE_SIZE StShared PermReadWrite StReserved PermNone) w)"

definition mapped_request ::
  "gpu \<Rightarrow> (mem_sys \<Rightarrow> nat \<Rightarrow> backing_mem) \<Rightarrow> 'o ipc_call \<Rightarrow> u32 \<Rightarrow> nat \<Rightarrow> nat \<Rightarrow> nat \<Rightarrow> nat \<Rightarrow> 'o ipc_state
     \<Rightarrow> ('o ipc_state, nat) outcome" where
  "mapped_request gpu alloc c perms sz source page_offset num_pages w =
     (let total = (num_pages + 2) * CITRA_PAGE_SIZE;
          buffer = alloc (wmem w) total;
          w0 = w\<lparr>wmem := host_write (bm_ptr buffer) (replicate total 0) (wmem w)\<rparr>
      in bindO (with_mem (ReadBlock gpu (pt_of w0 (src c)) source sz) w0) (\<lambda>w1 bs.
           let w2 = w1\<lparr>wmem := host_write (bm_ptr buffer + CITRA_PAGE_SIZE + page_offset) bs (wmem w1)\<rparr> in
           bindO (must (with_vm (dst c) (\<lambda>cached. MapBackingMemoryToBase cached IPC_MAPPING_VADDR IPC_MAPPING_SIZE
                    \<lparr>mr_backing = Some buffer, mr_offset = 0\<rparr> total StShared) w2)) (\<lambda>w3 low_guard.
             let high_guard = sub32 (add32 low_guard total) CITRA_PAGE_SIZE;
                 target = add32 (add32 low_guard CITRA_PAGE_SIZE) page_offset
             in bindO (guard_page c low_guard w3) (\<lambda>w4 _. bindO (guard_page c high_guard w4) (\<lambda>w5 _.
                  Ok (w5\<lparr>contexts := contexts w5 @ [\<lparr>mbc_permissions = perms, mbc_size = sz, mbc_source = source,
                        mbc_target = target, mbc_buffer = buffer\<rparr>]\<rparr>) target)))))"

definition translate_mapped ::
  "gpu \<Rightarrow> (mem_sys \<Rightarrow> nat \<Rightarrow> backing_mem) \<Rightarrow> 'o ipc_call \<Rightarrow> u32 \<Rightarrow> nat \<Rightarrow> u32 list \<Rightarrow> 'o ipc_state
     \<Rightarrow> ('o ipc_state, nat \<times> u32 list) outcome" where
  "translate_mapped gpu alloc c descriptor i cmd w =
     assertO (i < COMMAND_BUFFER_LENGTH)
       (let source = unat (cmd ! i); sz = unat (mb_size descriptor); perms = mb_perms descriptor;
            page_start = AlignDown source CITRA_PAGE_SIZE; page_offset = source - page_start;
            num_pages = AlignUp (page_offset + sz) CITRA_PAGE_SIZE div CITRA_PAGE_SIZE
        in if sz = 0 then Ok w (i + 1, cmd[i := 0])
           else assertO (1 \<le> num_pages)
             (if is_reply c
              then bindO (mapped_reply gpu c perms sz source page_start num_pages w) (\<lambda>w1 _. Ok w1 (i + 1, cmd))
              else bindO (mapped_request gpu alloc c perms sz source page_offset num_pages w)
                     (\<lambda>w1 target. Ok w1 (i + 1, cmd[i := of_nat target]))))"

section \<open>The command\<close>

text \<open>One descriptor: \<open>i\<close> is the index after it. A kind that is not handled is logged and skipped.\<close>

definition translate_descriptor ::
  "gpu \<Rightarrow> (mem_sys \<Rightarrow> nat \<Rightarrow> backing_mem) \<Rightarrow> 'o ipc_call \<Rightarrow> nat \<Rightarrow> u32 \<Rightarrow> nat \<Rightarrow> u32 list \<Rightarrow> 'o ipc_state
     \<Rightarrow> ('o ipc_state, nat \<times> u32 list) outcome" where
  "translate_descriptor gpu alloc c command_size descriptor i cmd w =
     (let ty = GetDescriptorType descriptor in
      if ty = CopyHandle \<or> ty = MoveHandle then
        (let num_handles = unat (HandleNumberFromDesc descriptor) in
         if i + num_handles > command_size
         then Err w (MakeResultRaw CommandTooLarge EM_OS ES_InvalidState EL_Status)
         else translate_handles c descriptor num_handles i cmd w)
      else if ty = CallingPid then
        assertO (i < COMMAND_BUFFER_LENGTH) (Ok w (i + 1, cmd[i := ppid (procs w (src c))]))
      else if ty = StaticBuffer then translate_static gpu c descriptor i cmd w
      else if ty = MappedBuffer then translate_mapped gpu alloc c descriptor i cmd w
      else Ok w (i, cmd))"

text \<open>The loop, with fuel; every iteration consumes at least the descriptor, so \<open>command_size\<close> is enough.\<close>

fun translate_loop ::
  "nat \<Rightarrow> gpu \<Rightarrow> (mem_sys \<Rightarrow> nat \<Rightarrow> backing_mem) \<Rightarrow> 'o ipc_call \<Rightarrow> nat \<Rightarrow> nat \<Rightarrow> u32 list \<Rightarrow> 'o ipc_state
     \<Rightarrow> ('o ipc_state, u32 list) outcome" where
  "translate_loop 0 gpu alloc c command_size i cmd w = (if i < command_size then Crash else Ok w cmd)"
| "translate_loop (Suc n) gpu alloc c command_size i cmd w =
     (if i < command_size
      then bindO (translate_descriptor gpu alloc c command_size (cmd ! i) (i + 1) cmd w)
             (\<lambda>w1 (i1, cmd1). translate_loop n gpu alloc c command_size i1 cmd1 w1)
      else Ok w cmd)"

definition TranslateCommandBuffer ::
  "gpu \<Rightarrow> (mem_sys \<Rightarrow> nat \<Rightarrow> backing_mem) \<Rightarrow> u32 list \<Rightarrow> 'o ipc_call \<Rightarrow> nat \<Rightarrow> 'o ipc_state
     \<Rightarrow> ('o ipc_state, unit) outcome" where
  "TranslateCommandBuffer gpu alloc junk c src_address w =
     bindO (with_mem (ReadBlock gpu (pt_of w (src c)) src_address 4) w) (\<lambda>w1 hb.
       let header = le_word hb;
           untranslated_size = 1 + unat (normal_params_size header);
           command_size = untranslated_size + unat (translate_params_size header)
       in assertO (command_size \<le> COMMAND_BUFFER_LENGTH)
            (bindO (with_mem (ReadBlock gpu (pt_of w1 (src c)) src_address (command_size * 4)) w1) (\<lambda>w2 bs.
               bindO (translate_loop command_size gpu alloc c command_size untranslated_size
                        (words_of bs @ drop command_size junk) w2) (\<lambda>w3 cmd.
                 with_mem (WriteBlock gpu (pt_of w3 (dst c)) (dst_address c) (bytes_of (take command_size cmd))) w3))))"

section \<open>Handles\<close>

text \<open>The object a handle of the sender stands for.\<close>

definition sender_object :: "'o ipc_call \<Rightarrow> 'o ipc_state \<Rightarrow> u32 \<Rightarrow> 'o option" where
  "sender_object c w handle =
     (if handle = CurrentThread then Some (thread_obj c)
      else if handle = CurrentProcess then Some (process_obj c)
      else if handle = 0 then None else lookup (ptable (procs w (src c))) handle)"

lemma take_handle_copy:
  "descriptor \<noteq> MoveHandle \<Longrightarrow> take_handle c descriptor handle w = (sender_object c w handle, w)"
  by (simp add: take_handle_def sender_object_def GetGeneric_def lookup_def Let_def)

lemma set_table_other [simp]: "p \<noteq> q \<Longrightarrow> procs (set_table q t w) p = procs w p"
  by (simp add: set_table_def)

lemma set_table_same [simp]: "ptable (procs (set_table q t w) q) = t" "pvm (procs (set_table q t w) p) = pvm (procs w p)"
  "wmem (set_table q t w) = wmem w" "contexts (set_table q t w) = contexts w"
  by (auto simp: set_table_def)

lemma sender_object_other: "procs w' (src c) = procs w (src c) \<Longrightarrow> sender_object c w' = sender_object c w"
  by (simp add: sender_object_def fun_eq_iff)

text \<open>What translating \<open>n\<close> handles from index \<open>i\<close> on leaves behind.\<close>

definition handles_copied ::
  "'o ipc_call \<Rightarrow> nat \<Rightarrow> nat \<Rightarrow> u32 list \<Rightarrow> 'o ipc_state \<Rightarrow> 'o ipc_state \<Rightarrow> u32 list \<Rightarrow> bool" where
  "handles_copied c n i cmd w w' cmd' \<longleftrightarrow>
     length cmd' = length cmd \<and> (\<forall>j. j < i \<or> i + n \<le> j \<longrightarrow> cmd' ! j = cmd ! j) \<and>
     (\<forall>p. p \<noteq> dst c \<longrightarrow> procs w' p = procs w p) \<and> wmem w' = wmem w \<and>
     (\<forall>h obj. lookup (ptable (procs w (dst c))) h = Some obj \<longrightarrow> lookup (ptable (procs w' (dst c))) h = Some obj) \<and>
     (\<forall>k < n. case sender_object c w (cmd ! (i + k)) of
        None \<Rightarrow> cmd' ! (i + k) = 0
      | Some obj \<Rightarrow> lookup (ptable (procs w' (dst c))) (cmd' ! (i + k)) = Some obj)"

lemma Create_keeps:
  "ht_inv t \<Longrightarrow> Create t v = Ok t' h \<Longrightarrow> lookup t h' = Some x \<Longrightarrow> lookup t' h' = Some x"
  by (rule ht.create_keeps) (auto intro: lookup_same_entry)

lemma Create_room:
  assumes "ht_inv_with t (x # fs)"
  shows "\<exists>t' h. Create t v = Ok t' h \<and> ht_inv_with t' fs"
  using Create_free [OF assms] created_inv [OF assms] by auto

lemma translate_handles_copied:
  "ht_inv_with (ptable (procs w (dst c))) fs \<Longrightarrow> n \<le> length fs \<Longrightarrow> src c \<noteq> dst c \<Longrightarrow> descriptor \<noteq> MoveHandle \<Longrightarrow>
   i + n \<le> length cmd \<Longrightarrow>
   \<exists>w' cmd'. translate_handles c descriptor n i cmd w = Ok w' (i + n, cmd') \<and> handles_copied c n i cmd w w' cmd'"
proof (induction n arbitrary: i cmd w fs)
  case 0
  then show ?case by (simp add: handles_copied_def)
next
  case (Suc n)
  let ?o = "sender_object c w (cmd ! i)"
  have th: "take_handle c descriptor (cmd ! i) w = (?o, w)" by (rule take_handle_copy [OF Suc.prems(4)])
  obtain w1 v fs1 where w1: "translate_handles c descriptor (Suc n) i cmd w = translate_handles c descriptor n (i + 1) (cmd[i := v]) w1"
    "\<forall>p. p \<noteq> dst c \<longrightarrow> procs w1 p = procs w p" "wmem w1 = wmem w" "ht_inv_with (ptable (procs w1 (dst c))) fs1" "n \<le> length fs1"
    "\<forall>h obj. lookup (ptable (procs w (dst c))) h = Some obj \<longrightarrow> lookup (ptable (procs w1 (dst c))) h = Some obj"
    "case ?o of None \<Rightarrow> v = 0 | Some obj \<Rightarrow> lookup (ptable (procs w1 (dst c))) v = Some obj"
  proof (cases ?o)
    case None
    show thesis
      by (rule that [of 0 w fs]) (use None Suc.prems th in auto)
  next
    case (Some obj)
    obtain x fs' where fs: "fs = x # fs'" using Suc.prems(2) by (cases fs) auto
    from Create_room [OF Suc.prems(1) [unfolded fs], of obj]
    obtain t' h where t': "Create (ptable (procs w (dst c))) obj = Ok t' h" "ht_inv_with t' fs'" by auto
    have inv: "ht_inv (ptable (procs w (dst c)))" using Suc.prems(1) by (auto simp: ht_inv_def)
    show thesis
      by (rule that [of h "set_table (dst c) t' w" fs'])
        (use Some t' fs Suc.prems(2) th ht.create_finds [OF inv t'(1)] Create_keeps [OF inv t'(1)] in auto)
  qed
  have so: "sender_object c w1 = sender_object c w" using w1(2) Suc.prems(3) by (intro sender_object_other) simp
  obtain w' cmd' where w': "translate_handles c descriptor n (i + 1) (cmd[i := v]) w1 = Ok w' (i + 1 + n, cmd')"
    "handles_copied c n (i + 1) (cmd[i := v]) w1 w' cmd'"
    using Suc.IH [OF w1(4,5) Suc.prems(3,4), of "i + 1" "cmd[i := v]"] Suc.prems(5) by auto
  have "handles_copied c (Suc n) i cmd w w' cmd'"
  proof -
    have "case sender_object c w (cmd ! (i + k)) of None \<Rightarrow> cmd' ! (i + k) = 0
        | Some obj \<Rightarrow> lookup (ptable (procs w' (dst c))) (cmd' ! (i + k)) = Some obj" if "k < Suc n" for k
    proof (cases k)
      case 0
      then have "cmd' ! (i + k) = v" using w'(2) Suc.prems(5) by (simp add: handles_copied_def)
      with 0 w1(7) w'(2) show ?thesis by (auto simp: handles_copied_def split: option.splits)
    next
      case (Suc j)
      have "case sender_object c w1 (cmd[i := v] ! (i + 1 + j)) of None \<Rightarrow> cmd' ! (i + 1 + j) = 0
          | Some obj \<Rightarrow> lookup (ptable (procs w' (dst c))) (cmd' ! (i + 1 + j)) = Some obj"
        using w'(2) that Suc unfolding handles_copied_def by blast
      then show ?thesis by (simp add: so Suc split: option.splits)
    qed
    moreover have "cmd' ! j = cmd ! j" if "j < i \<or> i + Suc n \<le> j" for j
    proof -
      have "cmd' ! j = cmd[i := v] ! j" using w'(2) that unfolding handles_copied_def by auto
      then show ?thesis using that by auto
    qed
    ultimately show ?thesis using w'(2) w1(2,3,6) unfolding handles_copied_def by simp
  qed
  with w1(1) w'(1) show ?case by auto
qed

text \<open>
  Property (C36): Copying handles. If the receiver is another process with a free slot for each of the \<open>n\<close> handles,
  translating them succeeds: each becomes a handle in the receiver's table for the very object the sender's
  handle stood for (or 0 if it stood for nothing), every handle the receiver already had stays valid, and
  neither the sender's table nor any other word of the command changes.
\<close>

theorem translate_handles_copy:
  assumes "ht_inv_with (ptable (procs w (dst c))) fs" "n \<le> length fs" "src c \<noteq> dst c" "descriptor \<noteq> MoveHandle"
    "i + n \<le> length cmd"
  shows "\<exists>w' cmd'. translate_handles c descriptor n i cmd w = Ok w' (i + n, cmd') \<and> handles_copied c n i cmd w w' cmd'"
  by (rule translate_handles_copied [OF assms])

text \<open>Two processes with empty tables, for the examples.\<close>

definition sample_ipc :: "string ipc_state" where
  "sample_ipc = \<lparr>procs = (\<lambda>_. \<lparr>ptable = HandleTable, pvm = \<lparr>vma_map = [], vm_page_table = NewPageTable, is_locked = False\<rparr>, ppid = 7\<rparr>),
     wmem = sample_ms, contexts = []\<rparr>"

definition sample_call :: "string ipc_call" where
  "sample_call = \<lparr>src = 0, dst = 1, thread_obj = ''thread'', process_obj = ''process'', dst_address = 0, is_reply = False\<rparr>"

lemma sample_tables: "\<exists>fs. ht_inv_with (ptable (procs sample_ipc p)) fs \<and> 2 \<le> length fs"
proof -
  obtain fs where fs: "ht_inv_with (HandleTable :: string handle_table) fs" using HandleTable_inv by blast
  have "of_nat i \<in> set fs" if "i < MAX_COUNT" for i
    using fs that by (simp add: ht_inv_with_def HandleTable_def Clear_def)
  then have "{0, 1} \<subseteq> set fs" using \<open>\<And>i. i < MAX_COUNT \<Longrightarrow> of_nat i \<in> set fs\<close> [of 0]
      \<open>\<And>i. i < MAX_COUNT \<Longrightarrow> of_nat i \<in> set fs\<close> [of 1] by (simp add: MAX_COUNT_def)
  then have "card {0 :: u16, 1} \<le> card (set fs)" by (intro card_mono) auto
  then have "2 \<le> length fs" using card_length [of fs] by simp
  with fs show ?thesis by (auto simp: sample_ipc_def)
qed

theorem translate_handles_copy_witness:
  "\<exists>w' cmd'. translate_handles sample_call CopyHandle 2 1 [0, CurrentThread, 5] sample_ipc = Ok w' (3, cmd') \<and>
     lookup (ptable (procs w' 1)) (cmd' ! 1) = Some ''thread'' \<and> cmd' ! 2 = 0"
proof -
  obtain fs where "ht_inv_with (ptable (procs sample_ipc (dst sample_call))) fs" "2 \<le> length fs"
    using sample_tables by blast
  from translate_handles_copy [OF this, of CopyHandle 1 "[0, CurrentThread, 5]"]
  obtain w' cmd' where r: "translate_handles sample_call CopyHandle 2 1 [0, CurrentThread, 5] sample_ipc = Ok w' (1 + 2, cmd')"
    "handles_copied sample_call 2 1 [0, CurrentThread, 5] sample_ipc w' cmd'"
    by (auto simp: sample_call_def descriptor_types)
  have "sender_object sample_call sample_ipc CurrentThread = Some ''thread''"
    by (simp add: sender_object_def sample_call_def)
  moreover have "sender_object sample_call sample_ipc 5 = None"
    by (simp add: sender_object_def sample_ipc_def CurrentThread_def CurrentProcess_def lookup_def IsValid_def
        HandleTable_def Clear_def GetSlot_def MAX_COUNT_def)
  moreover have "dst sample_call = 1" by (simp add: sample_call_def)
  ultimately have "lookup (ptable (procs w' 1)) (cmd' ! 1) = Some ''thread''" "cmd' ! 2 = 0"
    using r(2) unfolding handles_copied_def by (force simp: numeral_2_eq_2)+
  with r(1) show ?thesis by auto
qed

text \<open>
  Property (C37): Moving several handles copies them. For a descriptor that moves two or more handles the sender's
  handles are not closed: the comparison with the bare descriptor type fails, so the sender's process is
  exactly as before, although a descriptor that moves one handle does close it.
\<close>

theorem move_many_keeps_sender:
  assumes "ht_inv_with (ptable (procs w (dst c))) fs" "unat n \<le> length fs" "src c \<noteq> dst c" "1 < n" "n \<le> 64"
    "i + unat n \<le> length cmd"
  shows "GetDescriptorType (MoveHandleDesc n) = MoveHandle \<and> HandleNumberFromDesc (MoveHandleDesc n) = n \<and>
    (\<exists>w' cmd'. translate_handles c (MoveHandleDesc n) (unat n) i cmd w = Ok w' (i + unat n, cmd') \<and>
      procs w' (src c) = procs w (src c))"
proof -
  have n: "1 \<le> n" using assms(4) by simp
  have h: "HandleNumberFromDesc (MoveHandleDesc n) = n"
    unfolding MoveHandleDesc_def using n assms(5) by (intro handle_count) (simp_all add: descriptor_types)
  have "HandleNumberFromDesc MoveHandle = 1" by (simp add: HandleNumberFromDesc_def descriptor_types)
  with h assms(4) have "MoveHandleDesc n \<noteq> MoveHandle" by auto
  from translate_handles_copied [OF assms(1-3) this assms(6)] assms(3)
  have "\<exists>w' cmd'. translate_handles c (MoveHandleDesc n) (unat n) i cmd w = Ok w' (i + unat n, cmd') \<and>
      procs w' (src c) = procs w (src c)" by (auto simp: handles_copied_def)
  moreover have "GetDescriptorType (MoveHandleDesc n) = MoveHandle" by (rule GetDescriptorType_Move)
  ultimately show ?thesis using h by blast
qed

theorem move_many_keeps_sender_witness:
  "\<exists>w' cmd'. translate_handles sample_call (MoveHandleDesc 2) 2 1 [0, CurrentThread, 5] sample_ipc = Ok w' (3, cmd') \<and>
     procs w' 0 = procs sample_ipc 0"
proof -
  obtain fs where "ht_inv_with (ptable (procs sample_ipc (dst sample_call))) fs" "unat (2 :: u32) \<le> length fs"
    using sample_tables by auto
  from move_many_keeps_sender [OF this, of 1 "[0, CurrentThread, 5]"] show ?thesis by (simp add: sample_call_def numeral_3_eq_3)
qed

section \<open>The loop\<close>

lemma translate_handles_frame:
  "translate_handles c descriptor n i cmd w = Ok w' (i', cmd') \<Longrightarrow>
   i' = i + n \<and> length cmd' = length cmd \<and> take i cmd' = take i cmd"
proof (induction c descriptor n i cmd w rule: translate_handles.induct)
  case (2 c descriptor n i cmd w)
  obtain o' w1 where th: "take_handle c descriptor (cmd ! i) w = (o', w1)" by (cases "take_handle c descriptor (cmd ! i) w")
  show ?case
  proof (cases o')
    case None
    with 2(1) [OF th [symmetric]] 2(3) th have "i' = i + 1 + n \<and> length cmd' = length cmd \<and> take (i + 1) cmd' = take (i + 1) (cmd[i := 0])"
      by auto
    then show ?thesis by (metis (no_types, lifting) add.assoc le_add1 min.absorb1 min.commute plus_1_eq_Suc take_take take_update_cancel order_refl add.commute)
  next
    case (Some obj)
    then obtain t' h where cr: "Create (ptable (procs w1 (dst c))) obj = Ok t' h"
      "translate_handles c descriptor n (i + 1) (cmd[i := h]) (set_table (dst c) t' w1) = Ok w' (i', cmd')"
      using 2(3) th by (auto split: outcome.splits)
    from 2(2) [OF th [symmetric] Some cr(1) cr(2)] have "i' = i + 1 + n \<and> length cmd' = length cmd \<and> take (i + 1) cmd' = take (i + 1) (cmd[i := h])"
      by auto
    then show ?thesis by (metis (no_types, lifting) add.assoc le_add1 min.absorb1 min.commute plus_1_eq_Suc take_take take_update_cancel order_refl add.commute)
  qed
qed auto

lemma translate_descriptor_frame:
  assumes "translate_descriptor gpu alloc c command_size descriptor i cmd w = Ok w' (i', cmd')"
  shows "i \<le> i' \<and> length cmd' = length cmd \<and> take i cmd' = take i cmd"
proof -
  consider "i' = i" "cmd' = cmd" | v where "i' = i + 1" "cmd' = cmd[i := v]" | "i' = i + 1" "cmd' = cmd"
    | n where "translate_handles c descriptor n i cmd w = Ok w' (i', cmd')"
    using assms unfolding translate_descriptor_def translate_static_def translate_mapped_def Let_def
    by (auto split: if_splits)
  then show ?thesis
  proof cases
    case 4
    then show ?thesis using translate_handles_frame by fastforce
  qed auto
qed

lemma translate_loop_frame:
  "translate_loop n gpu alloc c command_size i cmd w = Ok w' cmd' \<Longrightarrow> length cmd' = length cmd \<and> take i cmd' = take i cmd"
proof (induction n arbitrary: i cmd w)
  case 0
  then show ?case by (simp split: if_splits)
next
  case (Suc n)
  show ?case
  proof (cases "i < command_size")
    case True
    with Suc.prems obtain w1 i1 cmd1 where d: "translate_descriptor gpu alloc c command_size (cmd ! i) (i + 1) cmd w = Ok w1 (i1, cmd1)"
      "translate_loop n gpu alloc c command_size i1 cmd1 w1 = Ok w' cmd'" by auto
    note f = translate_descriptor_frame [OF d(1)] and g = Suc.IH [OF d(2)]
    have "take i cmd' = take i (take i1 cmd')" using f by (simp add: min_def)
    also have "\<dots> = take i cmd1" using f g by (simp add: min_def)
    also have "\<dots> = take i (take (i + 1) cmd1)" by simp
    also have "\<dots> = take i cmd" using f by simp
    finally show ?thesis using f g by simp
  next
    case False
    with Suc.prems show ?thesis by simp
  qed
qed

text \<open>
  Property: Translation terminates. Every iteration of the loop consumes at least one word of the command, so
  \<open>command_size\<close> iterations are enough: more fuel never changes the result.
\<close>

theorem translate_loop_enough_fuel:
  assumes "command_size \<le> i + n"
  shows "translate_loop (n + k) gpu alloc c command_size i cmd w = translate_loop n gpu alloc c command_size i cmd w"
  using assms
proof (induction n arbitrary: i cmd w)
  case 0
  then show ?case by (cases k) auto
next
  case (Suc n)
  have "translate_loop (n + k) gpu alloc c command_size i1 cmd1 w1 = translate_loop n gpu alloc c command_size i1 cmd1 w1"
    if "translate_descriptor gpu alloc c command_size (cmd ! i) (i + 1) cmd w = Ok w1 (i1, cmd1)" for i1 cmd1 w1
    using translate_descriptor_frame [OF that] Suc.prems by (intro Suc.IH) simp
  then show ?case by (cases "translate_descriptor gpu alloc c command_size (cmd ! i) (i + 1) cmd w") auto
qed

theorem translate_loop_enough_fuel_witness:
  "translate_loop (1 + 5) (\<lambda>_ _ _ h. h) (\<lambda>_ _. sample_fcram) sample_call 2 1 [0, CallingPid, 3] sample_ipc =
   translate_loop 1 (\<lambda>_ _ _ h. h) (\<lambda>_ _. sample_fcram) sample_call 2 1 [0, CallingPid, 3] sample_ipc"
  by (rule translate_loop_enough_fuel) simp

text \<open>
  Property: A descriptor in the last word overruns the buffer. In a command of the full 64 words whose last word is a
  process-id or buffer descriptor, the word it should translate lies beyond the array, which only the handle
  descriptors check for: the access is out of bounds.
\<close>

theorem last_descriptor_overruns:
  assumes "GetDescriptorType (cmd ! 63) \<in> {CallingPid, StaticBuffer, MappedBuffer}"
  shows "translate_loop (Suc n) gpu alloc c COMMAND_BUFFER_LENGTH 63 cmd w = Crash"
  using assms by (auto simp: COMMAND_BUFFER_LENGTH_def translate_descriptor_def translate_static_def translate_mapped_def
      descriptor_types Let_def)

theorem last_descriptor_overruns_witness:
  "translate_loop 1 (\<lambda>_ _ _ h. h) (\<lambda>_ _. sample_fcram) sample_call COMMAND_BUFFER_LENGTH 63 (replicate 64 CallingPid) sample_ipc = Crash"
  unfolding One_nat_def
  by (rule last_descriptor_overruns) (simp add: GetDescriptorType_def IsHandleDescriptor_def descriptor_types)

section \<open>Delivery\<close>

lemma le_word_bytes: "le_word (le_bytes w) = w"
proof (rule bit_word_eqI)
  fix n assume "n < LENGTH(32)"
  then consider "n < 8" | "8 \<le> n" "n < 16" | "16 \<le> n" "n < 24" | "24 \<le> n" "n < 32" by fastforce
  then show "bit (le_word (le_bytes w)) n = bit w n"
    by cases (auto simp: le_bytes_def bit_simps)
qed

lemma words_of_bytes_of: "words_of (bytes_of ws) = ws"
proof (induction ws)
  case (Cons w ws)
  have "words_of (bytes_of (w # ws)) = le_word (le_bytes w) # words_of (bytes_of ws)" by (simp add: bytes_of_def le_bytes_def)
  with Cons le_word_bytes show ?case by simp
qed (simp add: bytes_of_def)

lemma length_bytes_of [simp]: "length (bytes_of ws) = 4 * length ws"
  by (induction ws) (simp_all add: bytes_of_def le_bytes_def)

lemma take_bytes_of: "take 4 (bytes_of (w # ws)) = le_bytes w"
  by (simp add: bytes_of_def le_bytes_def)

text \<open>
  Property: A command without translated parameters arrives unchanged. If the sender's buffer holds a header built
  for \<open>m\<close> normal parameters and those parameters, and both buffers are ordinary mapped memory, then the
  translation succeeds, the receiver reads exactly the words the sender wrote, and no handle table or
  address space changes.
\<close>

theorem plain_command_delivered:
  assumes "length params < 63" "cmd = MakeHeader cid (of_nat (length params)) 0 # params"
    "plain_range (pt_of w (src c)) a (4 * length cmd)" "peek (pt_of w (src c)) a (4 * length cmd) (host (wmem w)) = bytes_of cmd"
    "plain_range (pt_of w (dst c)) (dst_address c) (4 * length cmd)" "mapped_once (pt_of w (dst c)) (dst_address c) (4 * length cmd)"
  shows "\<exists>w'. TranslateCommandBuffer gpu alloc junk c a w = Ok w' () \<and> procs w' = procs w \<and> contexts w' = contexts w \<and>
    ReadBlock gpu (pt_of w' (dst c)) (dst_address c) (4 * length cmd) (wmem w') = Ok (wmem w') (bytes_of cmd)"
proof -
  let ?n = "length cmd"
  let ?ms = "wmem w\<lparr>host := poke (pt_of w (dst c)) (dst_address c) (bytes_of cmd) (host (wmem w))\<rparr>"
  have n: "?n = length params + 1" "0 < ?n" using assms(2) by auto
  have "peek (pt_of w (src c)) a 4 (host (wmem w)) = take 4 (bytes_of cmd)"
    using peek_append [of "pt_of w (src c)" a 4 "4 * length params" "host (wmem w)"] assms(4) n
    by (metis add.commute append_eq_conv_conj length_peek mult_Suc_right Suc_eq_plus1)
  then have hb: "peek (pt_of w (src c)) a 4 (host (wmem w)) = le_bytes (hd cmd)" using assms(2) take_bytes_of by simp
  have "plain_range (pt_of w (src c)) a 4" using assms(3) n by (simp add: plain_range_def)
  from ReadBlock_peek [OF this] have r1: "with_mem (ReadBlock gpu (pt_of w (src c)) a 4) w = Ok w (le_bytes (hd cmd))"
    by (simp add: with_mem_def hb)
  from ReadBlock_peek [OF assms(3)] assms(4) have r2: "with_mem (ReadBlock gpu (pt_of w (src c)) a (?n * 4)) w = Ok w (bytes_of cmd)"
    by (simp add: with_mem_def mult.commute)
  have "take_bit 6 (of_nat (length params) :: u32) = of_nat (length params)"
    using assms(1) by (intro take_bit_small) (simp_all add: word_less_nat_alt unat_of_nat)
  then have sizes: "unat (normal_params_size (hd cmd)) = length params" "unat (translate_params_size (hd cmd)) = 0"
    using MakeHeader_sizes [of cid "of_nat (length params)" 0] assms(1,2) by (simp_all add: unat_of_nat)
  have e: "1 + length params = ?n" using n(1) by simp
  have loop: "translate_loop ?n gpu alloc c ?n ?n (cmd @ drop ?n junk) w = Ok w (cmd @ drop ?n junk)" by (cases ?n) simp_all
  have wr: "with_mem (WriteBlock gpu (pt_of w (dst c)) (dst_address c) (bytes_of cmd)) w = Ok (w\<lparr>wmem := ?ms\<rparr>) ()"
    using WriteBlock_poke [of "pt_of w (dst c)" "dst_address c" "bytes_of cmd"] assms(5) by (simp add: with_mem_def)
  have "TranslateCommandBuffer gpu alloc junk c a w = Ok (w\<lparr>wmem := ?ms\<rparr>) ()"
    unfolding TranslateCommandBuffer_def r1 bindO.simps le_word_bytes Let_def sizes add_0_right e r2 words_of_bytes_of loop
    using assms(1) n(1) wr by (simp add: COMMAND_BUFFER_LENGTH_def)
  moreover have "ReadBlock gpu (pt_of w (dst c)) (dst_address c) (4 * ?n) ?ms = Ok ?ms (bytes_of cmd)"
    using ReadBlock_peek [OF assms(5), of gpu ?ms] peek_poke [of "pt_of w (dst c)" "dst_address c" "bytes_of cmd"] assms(6) by simp
  ultimately show ?thesis by (intro exI [of _ "w\<lparr>wmem := ?ms\<rparr>"]) simp
qed

definition sample_sender :: "string ipc_state" where
  "sample_sender = \<lparr>procs = (\<lambda>_. \<lparr>ptable = HandleTable, pvm = \<lparr>vma_map = [], vm_page_table = sample_pt, is_locked = False\<rparr>, ppid = 7\<rparr>),
     wmem = sample_ms\<lparr>host := (\<lambda>p. if p = bm_ptr sample_fcram + 0x1002 then 1 else 0)\<rparr>, contexts = []\<rparr>"

lemma sample_page: "0x100000 \<le> x \<Longrightarrow> x < 0x101000 \<Longrightarrow> byte_ptr sample_pt x = Some (bm_ptr sample_fcram + 0x1000 + (x - 0x100000))"
  "0x101000 \<le> x \<Longrightarrow> x < 0x102000 \<Longrightarrow> byte_ptr sample_pt x = Some (bm_ptr sample_fcram + (x - 0x101000))"
proof -
  have d: "(idx * CITRA_PAGE_SIZE + k) div CITRA_PAGE_SIZE = idx" "(idx * CITRA_PAGE_SIZE + k) mod CITRA_PAGE_SIZE = k" if "k < 0x1000" for idx k
    using in_page [of 0 k idx] that by (simp_all add: CITRA_PAGE_SIZE_def)
  show "byte_ptr sample_pt x = Some (bm_ptr sample_fcram + 0x1000 + (x - 0x100000))" if "0x100000 \<le> x" "x < 0x101000"
  proof -
    have "x = 0x100 * CITRA_PAGE_SIZE + (x - 0x100000)" "x - 0x100000 < 0x1000" using that by (simp_all add: CITRA_PAGE_SIZE_def)
    with d [of "x - 0x100000" "0x100"] show ?thesis by (simp add: byte_ptr_def sample_pt_def GetPtr_def)
  qed
  show "byte_ptr sample_pt x = Some (bm_ptr sample_fcram + (x - 0x101000))" if "0x101000 \<le> x" "x < 0x102000"
  proof -
    have "x = 0x101 * CITRA_PAGE_SIZE + (x - 0x101000)" "x - 0x101000 < 0x1000" using that by (simp_all add: CITRA_PAGE_SIZE_def)
    with d [of "x - 0x101000" "0x101"] show ?thesis by (simp add: byte_ptr_def sample_pt_def GetPtr_def)
  qed
qed

theorem plain_command_delivered_witness:
  "\<exists>w'. TranslateCommandBuffer (\<lambda>_ _ _ h. h) (\<lambda>_ _. sample_fcram) [] (sample_call\<lparr>dst_address := 0x101000\<rparr>) 0x100000 sample_sender = Ok w' () \<and>
     ReadBlock (\<lambda>_ _ _ h. h) (pt_of w' 1) 0x101000 4 (wmem w') = Ok (wmem w') (bytes_of [MakeHeader 1 0 0])"
proof -
  let ?c = "sample_call\<lparr>dst_address := 0x101000\<rparr>"
  have pt: "pt_of sample_sender p = sample_pt" for p by (simp add: sample_sender_def)
  have pl: "plain_range sample_pt 0x100000 4" "plain_range sample_pt 0x101000 4"
    by (auto simp: plain_range_def sample_bytes CITRA_PAGE_SIZE_def PAGE_TABLE_NUM_ENTRIES_def)
  have mo: "mapped_once sample_pt 0x101000 4" by (auto simp: mapped_once_def sample_page inj_on_def)
  have "MakeHeader 1 0 0 = 0x10000"
    by (simp add: MakeHeader_def Assign_def FormatValue_def bf_mask_def mask_eq_exp_minus_1 push_bit_eq_mult)
  moreover have "[0x100000..<0x100000 + 4] = [0x100000, 0x100001, 0x100002, 0x100003 :: nat]" by (simp add: upt_conv_Cons)
  ultimately have "peek sample_pt 0x100000 4 (host (wmem sample_sender)) = bytes_of [MakeHeader 1 0 0]"
    by (simp add: peek_def sample_page sample_sender_def bytes_of_def le_bytes_def)
  with plain_command_delivered [of "[]" "[MakeHeader 1 0 0]" 1 sample_sender ?c "0x100000" "\<lambda>_ _ _ h. h" "\<lambda>_ _. sample_fcram" "[]"] pl mo pt
  show ?thesis by (auto simp: sample_call_def)
qed

end
