(* ===== verification/Resource_Limit.thy ===== *)
theory Resource_Limit
  imports Result_Code Core_Timing
begin

text \<open>
  \<^verbatim>\<open>Kernel::ResourceLimit\<close> and \<^verbatim>\<open>ResourceLimitList\<close> (\<^verbatim>\<open>src/core/hle/kernel/resource_limit.h\<close> and
  \<^verbatim>\<open>resource_limit.cpp\<close>): ten counters of type \<^verbatim>\<open>s32\<close> per category with a limit each, the limits a fresh
  kernel has, and the choice of the CPU time of an application from its extended header.

  The counters are lists of \<open>int\<close>, sums wrap at 32 bits (\<open>s32\<close>). The operations take the number of the
  \<^verbatim>\<open>ResourceLimitType\<close>, because the supervisor calls cast a number they read from memory to the enumeration;
  indexing past the array is \<open>None\<close>.
\<close>

section \<open>Definitions\<close>

datatype ResourceLimitCategory = Application | SysApplet | LibApplet | Other

datatype ResourceLimitType =
  RL_Priority | RL_Commit | RL_Thread | RL_Event | RL_Mutex | RL_Semaphore | RL_Timer
| RL_SharedMemory | RL_AddressArbiter | RL_CpuTime

primrec rl_index :: "ResourceLimitType \<Rightarrow> nat" where
  "rl_index RL_Priority = 0"
| "rl_index RL_Commit = 1"
| "rl_index RL_Thread = 2"
| "rl_index RL_Event = 3"
| "rl_index RL_Mutex = 4"
| "rl_index RL_Semaphore = 5"
| "rl_index RL_Timer = 6"
| "rl_index RL_SharedMemory = 7"
| "rl_index RL_AddressArbiter = 8"
| "rl_index RL_CpuTime = 9"

definition RL_Max :: nat where "RL_Max = 10"

record resource_limit =
  m_category :: ResourceLimitCategory
  m_limit_values :: "int list"
  m_current_values :: "int list"
  m_name :: string

definition ResourceLimit_Create :: "ResourceLimitCategory \<Rightarrow> string \<Rightarrow> resource_limit" where
  "ResourceLimit_Create category name =
     \<lparr>m_category = category, m_limit_values = replicate RL_Max 0,
      m_current_values = replicate RL_Max 0, m_name = name\<rparr>"

definition GetCurrentValue :: "nat \<Rightarrow> resource_limit \<Rightarrow> int option" where
  "GetCurrentValue i rl = (if i < RL_Max then Some (m_current_values rl ! i) else None)"

definition GetLimitValue :: "nat \<Rightarrow> resource_limit \<Rightarrow> int option" where
  "GetLimitValue i rl = (if i < RL_Max then Some (m_limit_values rl ! i) else None)"

definition SetCurrentValue :: "nat \<Rightarrow> int \<Rightarrow> resource_limit \<Rightarrow> resource_limit option" where
  "SetCurrentValue i v rl =
     (if i < RL_Max then Some (rl\<lparr>m_current_values := (m_current_values rl)[i := v]\<rparr>) else None)"

definition SetLimitValue :: "nat \<Rightarrow> int \<Rightarrow> resource_limit \<Rightarrow> resource_limit option" where
  "SetLimitValue i v rl =
     (if i < RL_Max then Some (rl\<lparr>m_limit_values := (m_limit_values rl)[i := v]\<rparr>) else None)"

text \<open>
  \<^verbatim>\<open>Reserve\<close> and \<^verbatim>\<open>Release\<close> compare with the limit only to log; both always return true.
\<close>

definition Reserve :: "nat \<Rightarrow> int \<Rightarrow> resource_limit \<Rightarrow> (bool \<times> resource_limit) option" where
  "Reserve i amount rl =
     (if i < RL_Max
      then let new_value = s32 (m_current_values rl ! i + amount)
           in Some (True, rl\<lparr>m_current_values := (m_current_values rl)[i := new_value]\<rparr>)
      else None)"

definition Release :: "nat \<Rightarrow> int \<Rightarrow> resource_limit \<Rightarrow> (bool \<times> resource_limit) option" where
  "Release i amount rl =
     (if i < RL_Max
      then let value = m_current_values rl ! i
           in Some (True, rl\<lparr>m_current_values := (m_current_values rl)[i := s32 (value - amount)]\<rparr>)
      else None)"

section \<open>The CPU time of an application\<close>

datatype Core1ScheduleMode = Multi | Single

definition PREEMPTION_DISABLED :: int where "PREEMPTION_DISABLED = 0"
definition PREEMPTION_SYSMODULE :: int where "PREEMPTION_SYSMODULE = 1000"
definition PREEMPTION_EXCEMPTED :: int where "PREEMPTION_EXCEMPTED = 10000"

definition cpu_time_overrides :: "(nat \<times> int) list" where
  "cpu_time_overrides =
    [(0x205, PREEMPTION_EXCEMPTED), (0x215, PREEMPTION_EXCEMPTED), (0x225, PREEMPTION_EXCEMPTED),
     (0x304, PREEMPTION_EXCEMPTED), (0x32E, PREEMPTION_EXCEMPTED),
     (0x334, 30), (0x335, 30), (0x336, 30),
     (0x348, PREEMPTION_EXCEMPTED), (0x368, PREEMPTION_EXCEMPTED), (0x562, PREEMPTION_EXCEMPTED),
     (0x349, PREEMPTION_EXCEMPTED), (0x370, PREEMPTION_EXCEMPTED), (0x389, PREEMPTION_EXCEMPTED),
     (0x490, PREEMPTION_EXCEMPTED), (0x491, PREEMPTION_EXCEMPTED)]"

text \<open>The mode, the limit and the current value that \<^verbatim>\<open>ApplyAppMaxCPUSetting\<close> decides on.\<close>

definition app_cpu_setting :: "nat \<Rightarrow> nat \<Rightarrow> nat \<Rightarrow> Core1ScheduleMode \<times> int \<times> int" where
  "app_cpu_setting program_id exh_mode exh_cpu_limit =
     (if exh_mode = 0 \<and> exh_cpu_limit = 0
      then let uID = (program_id div 2 ^ 8) mod 2 ^ 20
           in case map_of cpu_time_overrides uID of
                None \<Rightarrow> (Single, 80, 25)
              | Some time \<Rightarrow>
                  if time > 100 \<and> time < 200 then (Multi, time - 100, time - 100)
                  else (Single, time, time)
      else (if exh_mode = 0 then Single else Multi, int exh_cpu_limit, PREEMPTION_DISABLED))"

definition apply_cpu_setting :: "nat \<Rightarrow> nat \<Rightarrow> nat \<Rightarrow> resource_limit \<Rightarrow> (resource_limit \<times> Core1ScheduleMode) option" where
  "apply_cpu_setting program_id exh_mode exh_cpu_limit rl =
     (case app_cpu_setting program_id exh_mode exh_cpu_limit of (mode, limit_time, set_time) \<Rightarrow>
        Option.bind (SetLimitValue (rl_index RL_CpuTime) limit_time rl) (\<lambda>rl1.
        Option.bind (SetCurrentValue (rl_index RL_CpuTime) set_time rl1) (\<lambda>rl2.
        Some (rl2, mode))))"

section \<open>The limits of a fresh kernel\<close>

text \<open>
  The constructor of \<^verbatim>\<open>ResourceLimitList\<close> creates one object per category and sets its ten limits in the
  order of the enumeration; the size of the application memory region goes to an \<^verbatim>\<open>s32\<close>.
\<close>

definition fresh_limit :: "ResourceLimitCategory \<Rightarrow> string \<Rightarrow> int list \<Rightarrow> resource_limit" where
  "fresh_limit category name limits = (ResourceLimit_Create category name)\<lparr>m_limit_values := limits\<rparr>"

definition ResourceLimitList :: "bool \<Rightarrow> int \<Rightarrow> ResourceLimitCategory \<Rightarrow> resource_limit" where
  "ResourceLimitList is_new_3ds appmemalloc_size category =
     (case category of
        Application \<Rightarrow> fresh_limit Application ''Applications''
          [0x18, s32 appmemalloc_size, 0x20, 0x20, 0x20, 0x8, 0x8, 0x10, 0x2, PREEMPTION_DISABLED]
      | SysApplet \<Rightarrow> fresh_limit SysApplet ''System Applets''
          [0x4, if is_new_3ds then 0x5E06000 else 0x2606000, if is_new_3ds then 0x1D else 0xE,
           if is_new_3ds then 0xB else 0x8, 0x8, 0x4, 0x4, 0x8, 0x3, PREEMPTION_EXCEMPTED]
      | LibApplet \<Rightarrow> fresh_limit LibApplet ''Library Applets''
          [0x4, 0x602000, 0xE, 0x8, 0x8, 0x4, 0x4, 0x8, 0x1, PREEMPTION_EXCEMPTED]
      | Other \<Rightarrow> fresh_limit Other ''Others''
          [0x4, if is_new_3ds then 0x2182000 else 0x1682000, if is_new_3ds then 0xE1 else 0xCA,
           if is_new_3ds then 0x108 else 0xF8, if is_new_3ds then 0x25 else 0x23,
           if is_new_3ds then 0x43 else 0x40, if is_new_3ds then 0x2C else 0x2B,
           if is_new_3ds then 0x1F else 0x1E, if is_new_3ds then 0x2D else 0x2B, PREEMPTION_SYSMODULE])"

text \<open>\<^verbatim>\<open>GetForCategory\<close>: the four cases of the switch are all the categories there are.\<close>

definition GetForCategory ::
  "(ResourceLimitCategory \<Rightarrow> resource_limit) \<Rightarrow> ResourceLimitCategory \<Rightarrow> resource_limit" where
  "GetForCategory resource_limits category = resource_limits category"

section \<open>Facts\<close>

definition rl_inv :: "resource_limit \<Rightarrow> bool" where
  "rl_inv rl \<longleftrightarrow> length (m_limit_values rl) = RL_Max \<and> length (m_current_values rl) = RL_Max \<and>
     (\<forall>v \<in> set (m_limit_values rl) \<union> set (m_current_values rl). - (2 ^ 31) \<le> v \<and> v < 2 ^ 31)"

lemma rl_index_bound [simp]: "rl_index t < RL_Max"
  by (cases t) (simp_all add: RL_Max_def)

lemma rl_index_inj [simp]: "rl_index a = rl_index b \<longleftrightarrow> a = b"
  by (cases a; cases b) simp_all

lemma s32_range [simp]: "- (2 ^ 31) \<le> s32 x" "s32 x < 2 ^ 31"
  by (simp_all add: s32_def)

text \<open>Undoing a reservation modulo \<open>2\<^sup>3\<^sup>2\<close>.\<close>

lemma s32_cancel: "- (2 ^ 31) \<le> v \<Longrightarrow> v < 2 ^ 31 \<Longrightarrow> s32 (s32 (v + a) - a) = v"
proof -
  assume v: "- (2 ^ 31) \<le> v" "v < 2 ^ 31"
  have "s32 (s32 (v + a) - a) = s32 v"
    unfolding s32_def by (simp add: algebra_simps mod_simps)
  then show ?thesis using v by (simp add: s32_id)
qed

lemma Reserve_effect:
  assumes "rl_inv rl"
  shows "\<exists>rl'. Reserve (rl_index t) a rl = Some (True, rl') \<and> rl_inv rl' \<and>
     m_limit_values rl' = m_limit_values rl \<and>
     GetCurrentValue (rl_index t) rl' = Some (s32 (m_current_values rl ! rl_index t + a)) \<and>
     (\<forall>u. u \<noteq> t \<longrightarrow> GetCurrentValue (rl_index u) rl' = GetCurrentValue (rl_index u) rl) \<and>
     Release (rl_index t) a rl' = Some (True, rl)"
proof -
  let ?i = "rl_index t"
  let ?v = "m_current_values rl ! ?i"
  have len: "?i < length (m_current_values rl)" using assms rl_index_bound [of t] by (simp add: rl_inv_def)
  have v: "- (2 ^ 31) \<le> ?v" "?v < 2 ^ 31" using assms nth_mem [OF len] by (auto simp: rl_inv_def)
  have "rl_inv (rl\<lparr>m_current_values := (m_current_values rl)[?i := s32 (?v + a)]\<rparr>)"
    using assms set_update_subset_insert [of "m_current_values rl" ?i "s32 (?v + a)"]
      s32_range [of "?v + a"]
    unfolding rl_inv_def by auto
  then show ?thesis
    using len by (simp add: Reserve_def Release_def GetCurrentValue_def s32_cancel [OF v])
qed

text \<open>
  Property: a reservation of any kind always succeeds, whatever the limit, changes only the
  counter of that kind, keeps the object well formed, and releasing the same amount restores the object.
\<close>

theorem Reserve_Release:
  assumes "rl_inv rl"
  shows "\<exists>rl'. Reserve (rl_index t) a rl = Some (True, rl') \<and> rl_inv rl' \<and>
     m_limit_values rl' = m_limit_values rl \<and>
     GetCurrentValue (rl_index t) rl' = Some (s32 (m_current_values rl ! rl_index t + a)) \<and>
     (\<forall>u. u \<noteq> t \<longrightarrow> GetCurrentValue (rl_index u) rl' = GetCurrentValue (rl_index u) rl) \<and>
     Release (rl_index t) a rl' = Some (True, rl)"
  by (rule Reserve_effect [OF assms])

lemma fresh_limits_inv: "rl_inv (ResourceLimitList n m c)"
  by (cases c) (auto simp: rl_inv_def ResourceLimitList_def fresh_limit_def ResourceLimit_Create_def RL_Max_def
    PREEMPTION_DISABLED_def PREEMPTION_EXCEMPTED_def PREEMPTION_SYSMODULE_def s32_range [simplified])

theorem Reserve_Release_witness:
  "Reserve 5 9 (ResourceLimitList False 0 Application) \<noteq> None \<and>
   (\<exists>rl'. Reserve 5 9 (ResourceLimitList False 0 Application) = Some (True, rl') \<and>
      GetLimitValue 5 rl' = Some 8 \<and> GetCurrentValue 5 rl' = Some 9 \<and>
      Release 5 9 rl' = Some (True, ResourceLimitList False 0 Application))"
  using Reserve_Release [OF fresh_limits_inv [of False 0 Application], where t = RL_Semaphore and a = 9]
  by (auto simp: GetLimitValue_def GetCurrentValue_def ResourceLimitList_def fresh_limit_def
    ResourceLimit_Create_def RL_Max_def s32_def)

text \<open>
  Property: the CPU time of an application. An application without a CPU limit in its header runs
  in single mode; all others take mode and limit from the header and start with preemption disabled.
  The branch of the code that selects multi mode for an override is never taken.
\<close>

theorem apply_cpu_setting_spec:
  assumes "rl_inv rl"
  shows "\<exists>rl' mode. apply_cpu_setting program_id exh_mode exh_cpu_limit rl = Some (rl', mode) \<and>
     GetLimitValue (rl_index RL_CpuTime) rl' = Some (fst (snd (app_cpu_setting program_id exh_mode exh_cpu_limit))) \<and>
     GetCurrentValue (rl_index RL_CpuTime) rl' = Some (snd (snd (app_cpu_setting program_id exh_mode exh_cpu_limit))) \<and>
     (\<forall>u. u \<noteq> RL_CpuTime \<longrightarrow> GetLimitValue (rl_index u) rl' = GetLimitValue (rl_index u) rl \<and>
        GetCurrentValue (rl_index u) rl' = GetCurrentValue (rl_index u) rl) \<and>
     (mode = Multi \<longleftrightarrow> exh_mode \<noteq> 0)"
proof -
  have len: "length (m_limit_values rl) = RL_Max" "length (m_current_values rl) = RL_Max"
    using assms by (simp_all add: rl_inv_def)
  have ov: "time = 10000 \<or> time = 30" if "map_of cpu_time_overrides uid = Some time" for uid time
    using map_of_SomeD [OF that] by (auto simp: cpu_time_overrides_def PREEMPTION_EXCEMPTED_def)
  have idx: "rl_index u \<noteq> 9" if "u \<noteq> RL_CpuTime" for u
    using that rl_index_inj [of u RL_CpuTime] by simp
  obtain mode limit_time set_time
    where app: "app_cpu_setting program_id exh_mode exh_cpu_limit = (mode, limit_time, set_time)"
    by (metis prod_cases3)
  then have "mode = Multi \<longleftrightarrow> exh_mode \<noteq> 0"
    by (auto simp: app_cpu_setting_def Let_def split: if_splits option.splits dest!: ov)
  then show ?thesis
    using len by (auto simp: apply_cpu_setting_def app SetLimitValue_def SetCurrentValue_def GetLimitValue_def
      GetCurrentValue_def RL_Max_def dest!: idx)
qed

theorem apply_cpu_setting_spec_witness:
  "\<exists>rl' mode. apply_cpu_setting 0x0004000000033400 0 0 (ResourceLimitList False 0 Application) = Some (rl', mode) \<and>
     GetLimitValue 9 rl' = Some 30 \<and> GetCurrentValue 9 rl' = Some 30 \<and> mode = Single"
  using apply_cpu_setting_spec [OF fresh_limits_inv [of False 0 Application], where
      program_id = "0x0004000000033400" and exh_mode = 0 and exh_cpu_limit = 0]
  by (auto simp: app_cpu_setting_def cpu_time_overrides_def PREEMPTION_EXCEMPTED_def
    intro: Core1ScheduleMode.exhaust)

end
