(* ===== verification/Kernel_Thread.thy ===== *)
theory Kernel_Thread
  imports Thread_Queue_List Resource_Limit "HOL-Library.Monad_Syntax"
begin

unbundle bit_operations_syntax

text \<open>
  Threads and their scheduler (\<^verbatim>\<open>src/core/hle/kernel/thread.h\<close> and \<^verbatim>\<open>thread.cpp\<close>) and the state the
  threads share with the objects they wait for.

  A thread, a wait object, an address arbiter and a process are known by numbers that stand for their
  addresses, so that a \<^verbatim>\<open>flat_set\<close> of pointers is a sorted list of numbers. The kernel state holds, for
  each core, what its \<^verbatim>\<open>ThreadManager\<close> holds, and the fields of every thread and object. The data of a
  mutex, semaphore, event, timer, port or session \<open>ob\<close> is the entry \<open>ob\<close> of the map of that kind; \<open>kind\<close> says which one
  it is. A thread context is a function from register numbers; a process stands for its page table.

  Every operation returns an \<open>option\<close>: \<open>None\<close> is a failed \<^verbatim>\<open>ASSERT\<close>, an uncaught exception or a loop that
  does not end. \<^verbatim>\<open>DEBUG_ASSERT\<close>s are those of a release build, which does not check them.
  \<^verbatim>\<open>PrepareReschedule\<close> is the flag \<open>reschedule_pending\<close>. The callback with which a service of the host
  puts its client to sleep is not among the modelled \<open>WakeupCallback\<close>s.
\<close>

section \<open>State\<close>

datatype ThreadStatus =
  Running | Ready | WaitArb | WaitSleep | WaitIPC | WaitSynchAny | WaitSynchAll | WaitHleEvent | Dormant | Dead

datatype ThreadWakeupReason = WR_Signal | WR_Timeout

definition ThreadPrioLowest :: nat where "ThreadPrioLowest = 63"

text \<open>
  \<^verbatim>\<open>SVC_SyncCallback\<close> with its flag \<^verbatim>\<open>do_output\<close>, \<^verbatim>\<open>SVC_IPCCallback\<close>, and \<^verbatim>\<open>AddressArbiter::Callback\<close> with its parent.
\<close>

datatype WakeupCallback = SyncCallback bool | IpcCallback | ArbiterCallback nat

datatype ResetType = OneShot | Sticky | Pulse

datatype object_kind = KMutex | KSemaphore | KEvent | KTimer | KServerPort | KServerSession | KThread nat

record thread =
  thread_id :: nat
  core_id :: nat
  status :: ThreadStatus
  nominal_priority :: nat
  current_priority :: nat
  last_running_ticks :: int
  tls_address :: nat
  held_mutexes :: "nat list"
  pending_mutexes :: "nat list"
  owner_process :: "nat option"
  resource_limit_category :: ResourceLimitCategory
  wait_objects :: "nat list"
  wait_address :: nat
  wakeup_callback :: "WakeupCallback option"
  unschedule_mode :: u32
  ctx :: "nat \<Rightarrow> u32"

record mutex =
  lock_count :: int
  mtx_priority :: nat
  holding_thread :: "nat option"

record semaphore =
  max_count :: int
  available_count :: int

record kevent =
  ev_reset_type :: ResetType
  ev_signaled :: bool

record ktimer =
  tm_reset_type :: ResetType
  tm_signaled :: bool
  initial_delay :: int
  interval_delay :: int
  callback_id :: nat

text \<open>
  A session, with the number of its server endpoint: which endpoints exist (\<^verbatim>\<open>parent->client\<close>, \<^verbatim>\<open>parent->server\<close>), its client port, the service of
  the host that handles its requests, if any, the threads whose requests are pending and the one whose request is handled.
\<close>

record session =
  ses_client :: bool
  ses_server :: bool
  ses_port :: "nat option"
  hle_handler :: "nat option"
  pending_requesting_threads :: "nat list"
  currently_handling :: "nat option"

record client_port =
  cp_server_port :: nat
  max_sessions :: nat
  active_sessions :: nat

text \<open>A call of \<^verbatim>\<open>TranslateCommandBuffer\<close>: the session, the thread whose command buffer is read, the one whose buffer is written, and whether it is a reply.\<close>

type_synonym translation = "nat \<times> nat \<times> nat \<times> bool"

datatype SchedState = APP | SYS

record cpu_limiter =
  lim_ready :: bool
  lim_active :: bool
  app_cpu_time :: int
  curr_state :: SchedState
  sleeping_thread_ids :: "nat list"

text \<open>
  The callbacks the kernel registers with the timing system. \<open>app_share x\<close> is the \<^verbatim>\<open>float\<close> expression
  \<^verbatim>\<open>base_tick_interval * (x / 100.f)\<close> converted to \<^verbatim>\<open>s64\<close>.
\<close>

datatype kcallback = CB_ThreadWakeup nat | CB_Timer | CB_Tick Core1ScheduleMode

record kernel =
  threads :: "nat \<Rightarrow> thread"
  kind :: "nat \<Rightarrow> object_kind"
  waiting_threads :: "nat \<Rightarrow> nat list"
  hle_notifier :: "nat \<Rightarrow> bool"
  mutexes :: "nat \<Rightarrow> mutex"
  semaphores :: "nat \<Rightarrow> semaphore"
  events :: "nat \<Rightarrow> kevent"
  ktimers :: "nat \<Rightarrow> ktimer"
  ksessions :: "nat \<Rightarrow> session"
  pending_sessions :: "nat \<Rightarrow> nat list"
  port_handler :: "nat \<Rightarrow> nat option"
  connected_sessions :: "nat \<Rightarrow> nat list"
  client_ports :: "nat \<Rightarrow> client_port"
  named_ports :: "string \<Rightarrow> nat option"
  ipc_translations :: "translation list"
  arbiter_waiting :: "nat \<Rightarrow> nat list"
  thread_list :: "nat \<Rightarrow> nat list"
  ready_queue :: "nat \<Rightarrow> nat thread_queue_list"
  current_thread :: "nat \<Rightarrow> nat option"
  wakeup_callback_table :: "nat \<Rightarrow> nat \<Rightarrow> nat option"
  cpu_context :: "nat \<Rightarrow> nat \<Rightarrow> u32"
  cpu_thread_uro :: "nat \<Rightarrow> nat"
  cpu_process :: "nat \<Rightarrow> nat option"
  current_schedule_mode :: Core1ScheduleMode
  limiters :: "Core1ScheduleMode \<Rightarrow> cpu_limiter"
  app_share :: "int \<Rightarrow> int"
  resource_limits :: "ResourceLimitCategory \<Rightarrow> resource_limit"
  next_thread_id :: nat
  next_timer_callback_id :: nat
  timer_callback_table :: "nat \<Rightarrow> nat option"
  tls_used :: "nat \<Rightarrow> (nat \<times> nat) list"
  hle_notified :: "nat list"
  reschedule_pending :: bool
  ktiming :: "kcallback timing"

definition upd_thread :: "nat \<Rightarrow> (thread \<Rightarrow> thread) \<Rightarrow> kernel \<Rightarrow> kernel" where
  "upd_thread t f k = k\<lparr>threads := (threads k)(t := f (threads k t))\<rparr>"

definition upd_queue :: "nat \<Rightarrow> (nat thread_queue_list \<Rightarrow> nat thread_queue_list) \<Rightarrow> kernel \<Rightarrow> kernel" where
  "upd_queue c f k = k\<lparr>ready_queue := (ready_queue k)(c := f (ready_queue k c))\<rparr>"

definition PrepareReschedule :: "kernel \<Rightarrow> kernel" where
  "PrepareReschedule k = k\<lparr>reschedule_pending := True\<rparr>"

definition wakeup_event :: "nat \<Rightarrow> string" where
  "wakeup_event core = ''ThreadWakeupCallback_'' @ [char_of (48 + core)]"

section \<open>Waking up and priorities\<close>

definition WaitCurrentThread_Sleep :: "nat \<Rightarrow> kernel \<Rightarrow> kernel" where
  "WaitCurrentThread_Sleep core k =
     upd_thread (the (current_thread k core)) (\<lambda>t. t\<lparr>status := WaitSleep\<rparr>) k"

definition WakeAfterDelay :: "int \<Rightarrow> bool \<Rightarrow> nat \<Rightarrow> kernel \<Rightarrow> kernel option" where
  "WakeAfterDelay nanoseconds thread_safe_mode t k =
     (if nanoseconds = -1 then Some k
      else let th = threads k t in
        do { tm \<leftarrow> ScheduleEvent (nsToCycles_s64 nanoseconds) (wakeup_event (core_id th)) (thread_id th)
                      (if thread_safe_mode then Some (core_id th) else None) thread_safe_mode (ktiming k);
             Some (k\<lparr>ktiming := tm\<rparr>) })"

definition ResumeFromWait :: "nat \<Rightarrow> kernel \<Rightarrow> kernel option" where
  "ResumeFromWait t k =
     (let th = threads k t in
      if wait_objects th \<noteq> [] then None
      else case status th of
          Ready \<Rightarrow> if wakeup_callback th = None then Some k else None
        | Running \<Rightarrow> Some k
        | Dead \<Rightarrow> Some k
        | _ \<Rightarrow> Some (PrepareReschedule
                 (upd_thread t (\<lambda>x. x\<lparr>wakeup_callback := None, status := Ready\<rparr>)
                   (upd_queue (core_id th) (push_back (current_priority th) t) k))))"

definition BoostPriority :: "nat \<Rightarrow> nat \<Rightarrow> kernel \<Rightarrow> kernel" where
  "BoostPriority priority t k =
     (let th = threads k t in
      upd_thread t (\<lambda>x. x\<lparr>current_priority := priority\<rparr>)
        (upd_queue (core_id th)
           (if status th = Ready then move t (current_priority th) priority else prepare priority) k))"

definition SetPriority :: "nat \<Rightarrow> nat \<Rightarrow> kernel \<Rightarrow> kernel option" where
  "SetPriority priority t k =
     (let th = threads k t in
      if priority \<le> ThreadPrioLowest
      then Some (upd_thread t (\<lambda>x. x\<lparr>nominal_priority := priority, current_priority := priority\<rparr>)
             (upd_queue (core_id th)
                (if status th = Ready then move t (current_priority th) priority else prepare priority) k))
      else None)"

fun best_of :: "nat \<Rightarrow> nat list \<Rightarrow> nat" where
  "best_of best [] = best"
| "best_of best (p # ps) = best_of (if p < best then p else best) ps"

definition Thread_UpdatePriority :: "nat \<Rightarrow> kernel \<Rightarrow> kernel" where
  "Thread_UpdatePriority t k =
     BoostPriority (best_of (nominal_priority (threads k t))
       (map (\<lambda>m. mtx_priority (mutexes k m)) (held_mutexes (threads k t)))) t k"

definition SetWaitSynchronizationResult :: "u32 \<Rightarrow> nat \<Rightarrow> kernel \<Rightarrow> kernel" where
  "SetWaitSynchronizationResult r t k = upd_thread t (\<lambda>x. x\<lparr>ctx := (ctx x)(0 := r)\<rparr>) k"

definition SetWaitSynchronizationOutput :: "int \<Rightarrow> nat \<Rightarrow> kernel \<Rightarrow> kernel" where
  "SetWaitSynchronizationOutput out t k = upd_thread t (\<lambda>x. x\<lparr>ctx := (ctx x)(1 := word_of_int out)\<rparr>) k"

text \<open>The index of the last occurrence; \<open>-1\<close> when the object is not in the list.\<close>

fun last_index :: "nat list \<Rightarrow> nat \<Rightarrow> int" where
  "last_index [] x = -1"
| "last_index (y # ys) x =
     (if x \<in> set ys then 1 + last_index ys x else if y = x then 0 else -1)"

definition GetWaitObjectIndex :: "nat \<Rightarrow> nat \<Rightarrow> kernel \<Rightarrow> int option" where
  "GetWaitObjectIndex ob t k =
     (if wait_objects (threads k t) = [] then None else Some (last_index (wait_objects (threads k t)) ob))"

definition IsSleepingOnWaitAll :: "nat \<Rightarrow> kernel \<Rightarrow> bool" where
  "IsSleepingOnWaitAll t k \<longleftrightarrow> status (threads k t) = WaitSynchAll"

definition CanSchedule :: "kernel \<Rightarrow> nat \<Rightarrow> bool" where
  "CanSchedule k t \<longleftrightarrow> unschedule_mode (threads k t) = 0"

definition SetUnscheduleMode :: "u32 \<Rightarrow> nat \<Rightarrow> kernel \<Rightarrow> bool \<times> kernel" where
  "SetUnscheduleMode mode t k =
     (let old = unschedule_mode (threads k t); new = old OR mode
      in (new \<noteq> old, upd_thread t (\<lambda>x. x\<lparr>unschedule_mode := new\<rparr>) k))"

definition ClearUnscheduleMode :: "u32 \<Rightarrow> nat \<Rightarrow> kernel \<Rightarrow> bool \<times> kernel" where
  "ClearUnscheduleMode mode t k =
     (let old = unschedule_mode (threads k t); new = old AND NOT mode
      in (new \<noteq> old, upd_thread t (\<lambda>x. x\<lparr>unschedule_mode := new\<rparr>) k))"

section \<open>Creating a thread\<close>

text \<open>Registers 13, 15 and 16 of a context are the stack pointer, the program counter and the status register.\<close>

definition ResetThreadContext :: "u32 \<Rightarrow> u32 \<Rightarrow> u32 \<Rightarrow> (nat \<Rightarrow> u32) \<Rightarrow> (nat \<Rightarrow> u32)" where
  "ResetThreadContext stack_top entry_point arg context =
     context(0 := arg, 15 := entry_point, 13 := stack_top, 16 := 16 OR push_bit 5 (entry_point AND 1))"

text \<open>
  \<^verbatim>\<open>KernelSystem::CreateThread\<close> with the new object at \<open>t\<close>; \<open>num_cores\<close> is the number of thread managers.
  Whether the entry point is mapped and what \<^verbatim>\<open>AllocateThreadLocalStorage\<close> returned, an error code or an address,
  are arguments.
\<close>

definition CreateThread ::
  "nat \<Rightarrow> nat \<Rightarrow> u32 \<Rightarrow> nat \<Rightarrow> u32 \<Rightarrow> int \<Rightarrow> u32 \<Rightarrow> nat \<Rightarrow> ResourceLimitCategory \<Rightarrow> bool \<Rightarrow> bool \<Rightarrow> (u32 + nat) \<Rightarrow>
   kernel \<Rightarrow> (kernel, nat) outcome" where
  "CreateThread num_cores t entry_point priority arg processor_id stack_top process category make_ready entry_valid tls k =
     (if priority > ThreadPrioLowest then Err k ResultOutOfRange
      else if processor_id > 4 then Err k ResultOutOfRangeKernel
      else if \<not> entry_valid then Err k (MakeResult ED_InvalidAddress EM_Kernel ES_InvalidArgument EL_Permanent)
      else if processor_id < 0 \<or> int num_cores \<le> processor_id then Crash
      else
        let c = nat processor_id;
            th = \<lparr>thread_id = next_thread_id k, core_id = c, status = Dormant, nominal_priority = priority,
                  current_priority = priority, last_running_ticks = timer_GetTicks (timers (ktiming k) ! c),
                  tls_address = 0, held_mutexes = [], pending_mutexes = [], owner_process = Some process,
                  resource_limit_category = category, wait_objects = [], wait_address = 0, wakeup_callback = None,
                  unschedule_mode = 0, ctx = (\<lambda>_. 0)\<rparr>;
            k1 = (upd_queue c (prepare priority) k)
                   \<lparr>thread_list := (thread_list k)(c := thread_list k c @ [t]),
                    next_thread_id := (next_thread_id k + 1) mod 2 ^ 32,
                    kind := (kind k)(t := KThread t),
                    waiting_threads := (waiting_threads k)(t := []),
                    wakeup_callback_table := (wakeup_callback_table k)(c := (wakeup_callback_table k c)(next_thread_id k \<mapsto> t)),
                    threads := (threads k)(t := th)\<rparr>
        in case tls of
             Inl e \<Rightarrow> Err k1 e
           | Inr address \<Rightarrow>
               let k2 = upd_thread t (\<lambda>x. x\<lparr>tls_address := address,
                          ctx := ResetThreadContext stack_top entry_point arg (ctx x)\<rparr>) k1
               in if make_ready
                  then Ok (upd_thread t (\<lambda>x. x\<lparr>status := Ready\<rparr>) (upd_queue c (push_back priority t) k2)) t
                  else Ok k2 t)"

section \<open>The CPU limiter of core 1\<close>

definition upd_limiter :: "Core1ScheduleMode \<Rightarrow> (cpu_limiter \<Rightarrow> cpu_limiter) \<Rightarrow> kernel \<Rightarrow> kernel" where
  "upd_limiter m f k = k\<lparr>limiters := (limiters k)(m := f (limiters k m))\<rparr>"

definition base_tick_interval :: int where
  "base_tick_interval = nsToCycles_int 2000000"

fun tick_event :: "Core1ScheduleMode \<Rightarrow> string" where
  "tick_event Single = ''Kernel::CpuLimiterSingle::tick_event''"
| "tick_event Multi = ''Kernel::CpuLimiterMulti::tick_event''"

definition limiter_Start :: "Core1ScheduleMode \<Rightarrow> kernel \<Rightarrow> kernel" where
  "limiter_Start m k =
     (if lim_ready (limiters k m) then k
      else upd_limiter m (\<lambda>l. l\<lparr>lim_ready := True, lim_active := False, curr_state := APP,
             app_cpu_time := PREEMPTION_DISABLED\<rparr>) k)"

definition GetThreadByID :: "nat \<Rightarrow> nat \<Rightarrow> kernel \<Rightarrow> nat option" where
  "GetThreadByID core tid k = find (\<lambda>t. thread_id (threads k t) = tid) (thread_list k core)"

fun wakeup_sleeping :: "nat list \<Rightarrow> kernel \<Rightarrow> kernel option" where
  "wakeup_sleeping [] k = Some k"
| "wakeup_sleeping (i # is) k =
     do { k1 \<leftarrow> (case GetThreadByID 1 i k of
                  None \<Rightarrow> Some k
                | Some t \<Rightarrow> if status (threads k t) = WaitSleep then ResumeFromWait t k else Some k);
          wakeup_sleeping is k1 }"

definition WakeupSleepingThreads :: "Core1ScheduleMode \<Rightarrow> kernel \<Rightarrow> kernel option" where
  "WakeupSleepingThreads m k =
     do { k1 \<leftarrow> wakeup_sleeping (sleeping_thread_ids (limiters k m)) k;
          Some (upd_limiter m (\<lambda>l. l\<lparr>sleeping_thread_ids := []\<rparr>) k1) }"

definition limiter_End :: "Core1ScheduleMode \<Rightarrow> kernel \<Rightarrow> kernel option" where
  "limiter_End m k =
     (if \<not> lim_ready (limiters k m) then Some k
      else WakeupSleepingThreads m
        ((upd_limiter m (\<lambda>l. l\<lparr>lim_ready := False, lim_active := False\<rparr>) k)
           \<lparr>ktiming := UnscheduleEvent (tick_event m) 0 (ktiming k)\<rparr>))"

definition ChangeState :: "Core1ScheduleMode \<Rightarrow> int \<Rightarrow> kernel \<Rightarrow> kernel option" where
  "ChangeState m cycles_late k =
     (let st = (if curr_state (limiters k m) = SYS then APP else SYS);
          share = app_share k (app_cpu_time (limiters k m));
          n1 = (if st = SYS then s64 (base_tick_interval - share) else share);
          n2 = (if n1 > cycles_late then s64 (n1 - cycles_late) else n1)
      in do { tm \<leftarrow> ScheduleEvent n2 (tick_event m) 0 (Some 1) False (ktiming k);
              Some ((upd_limiter m (\<lambda>l. l\<lparr>curr_state := st\<rparr>) k)\<lparr>ktiming := tm\<rparr>) })"

definition OnTick :: "Core1ScheduleMode \<Rightarrow> int \<Rightarrow> kernel \<Rightarrow> kernel option" where
  "OnTick m cycles_late k = do { k1 \<leftarrow> WakeupSleepingThreads m k; ChangeState m cycles_late k1 }"

definition limiter_UpdateAppCpuLimit :: "Core1ScheduleMode \<Rightarrow> kernel \<Rightarrow> kernel option" where
  "limiter_UpdateAppCpuLimit m k =
     (if \<not> lim_ready (limiters k m) then Some k
      else do {
        time \<leftarrow> GetCurrentValue (rl_index RL_CpuTime) (GetForCategory (resource_limits k) Application);
        let k1 = upd_limiter m (\<lambda>l. l\<lparr>app_cpu_time := time\<rparr>) k in
        if time = PREEMPTION_DISABLED
        then WakeupSleepingThreads m
          ((upd_limiter m (\<lambda>l. l\<lparr>lim_active := False\<rparr>) k1)
             \<lparr>ktiming := UnscheduleEvent (tick_event m) 0 (ktiming k)\<rparr>)
        else ChangeState m 0
          (upd_limiter m (\<lambda>l. l\<lparr>lim_active := True\<rparr>)
            (if lim_active (limiters k m)
             then k1\<lparr>ktiming := UnscheduleEvent (tick_event m) 0 (ktiming k)\<rparr> else k1)) })"

definition time_limited :: "kernel \<Rightarrow> nat \<Rightarrow> bool" where
  "time_limited k t \<longleftrightarrow>
     (let l = limiters k (current_schedule_mode k); cat = resource_limit_category (threads k t) in
      lim_ready l \<and> lim_active l \<and>
      GetLimitValue (rl_index RL_CpuTime) (GetForCategory (resource_limits k) cat) \<noteq> Some PREEMPTION_EXCEMPTED \<and>
      (cat = Application \<and> curr_state l = SYS \<or> cat = Other \<and> curr_state l = APP))"

definition DoTimeLimit :: "nat \<Rightarrow> kernel \<Rightarrow> bool \<times> kernel" where
  "DoTimeLimit t k =
     (if time_limited k t
      then (True, upd_limiter (current_schedule_mode k)
              (\<lambda>l. l\<lparr>sleeping_thread_ids := sleeping_thread_ids l @ [thread_id (threads k t)]\<rparr>)
              (upd_thread t (\<lambda>x. x\<lparr>status := WaitSleep\<rparr>) k))
      else (False, k))"

definition SetScheduleMode :: "Core1ScheduleMode \<Rightarrow> kernel \<Rightarrow> kernel option" where
  "SetScheduleMode mode k =
     do { k1 \<leftarrow> limiter_End (current_schedule_mode k) k;
          Some (limiter_Start mode (k1\<lparr>current_schedule_mode := mode\<rparr>)) }"

text \<open>\<^verbatim>\<open>ResourceLimit::ApplyAppMaxCPUSetting\<close> with the calls into the kernel.\<close>

definition ApplyAppMaxCPUSetting ::
  "ResourceLimitCategory \<Rightarrow> nat \<Rightarrow> nat \<Rightarrow> nat \<Rightarrow> kernel \<Rightarrow> kernel option" where
  "ApplyAppMaxCPUSetting cat program_id exh_mode exh_cpu_limit k =
     do { (rl, mode) \<leftarrow> apply_cpu_setting program_id exh_mode exh_cpu_limit (resource_limits k cat);
          k1 \<leftarrow> SetScheduleMode mode (k\<lparr>resource_limits := (resource_limits k)(cat := rl)\<rparr>);
          limiter_UpdateAppCpuLimit (current_schedule_mode k1) k1 }"

section \<open>Choosing and switching threads\<close>

text \<open>
  The two inner loops of \<^verbatim>\<open>PopNextReadyThread\<close>: pop until a thread that may be scheduled comes out or the
  queue has nothing more to offer, collecting the ones that may not.
\<close>

partial_function (option) pop_schedulable ::
  "(nat \<Rightarrow> bool) \<Rightarrow> (nat thread_queue_list \<Rightarrow> (nat thread_queue_list, nat \<times> nat option) outcome) \<Rightarrow>
   (nat \<times> nat) list \<Rightarrow> nat thread_queue_list \<Rightarrow> (nat option \<times> (nat \<times> nat) list \<times> nat thread_queue_list) option" where
  "pop_schedulable can pop skipped q =
     (case pop q of
        Ok q' (p, None) \<Rightarrow> Some (None, skipped, q')
      | Ok q' (p, Some n) \<Rightarrow>
          if can n then Some (Some n, skipped, q') else pop_schedulable can pop (skipped @ [(p, n)]) q'
      | _ \<Rightarrow> None)"

definition select_next :: "nat \<Rightarrow> kernel \<Rightarrow> (nat option \<times> kernel) option" where
  "select_next core k =
     (let cur = current_thread k core;
          stay = (case cur of None \<Rightarrow> False | Some t \<Rightarrow> status (threads k t) = Running \<and> CanSchedule k t)
      in do {
        (next, skipped, q) \<leftarrow> pop_schedulable (CanSchedule k)
           (if stay then pop_first_better (current_priority (threads k (the cur))) else pop_first)
           [] (ready_queue k core);
        Some (if next = None \<and> stay then cur else next,
              upd_queue core (\<lambda>_. foldr (\<lambda>(p, n). push_front p n) skipped q) k) })"

partial_function (option) PopNextReadyThread :: "nat \<Rightarrow> kernel \<Rightarrow> (nat option \<times> kernel) option" where
  "PopNextReadyThread core k =
     do { (next, k1) \<leftarrow> select_next core k;
          case next of
            None \<Rightarrow> Some (None, k1)
          | Some t \<Rightarrow>
              if core = 1 \<and> time_limited k1 t then PopNextReadyThread core (snd (DoTimeLimit t k1))
              else Some (next, k1) }"

definition save_previous :: "nat \<Rightarrow> kernel \<Rightarrow> kernel" where
  "save_previous core k =
     (case current_thread k core of
        None \<Rightarrow> k
      | Some t \<Rightarrow>
          let k1 = upd_thread t (\<lambda>x. x\<lparr>last_running_ticks := timer_GetTicks (timers (ktiming k) ! core),
                                       ctx := cpu_context k core\<rparr>) k
          in if status (threads k t) = Running
             then upd_thread t (\<lambda>x. x\<lparr>status := Ready\<rparr>)
                    (upd_queue core (push_front (current_priority (threads k t)) t) k1)
             else k1)"

definition SwitchContext :: "nat \<Rightarrow> nat option \<Rightarrow> kernel \<Rightarrow> kernel option" where
  "SwitchContext core new_thread k =
     (let previous_process = Option.bind (current_thread k core) (\<lambda>t. owner_process (threads k t));
          k1 = save_previous core k
      in case new_thread of
           None \<Rightarrow> Some (k1\<lparr>current_thread := (current_thread k1)(core := None)\<rparr>)
         | Some n \<Rightarrow>
             let th = threads k1 n in
             if status th \<noteq> Running \<and> status th \<noteq> Ready
             then Some (upd_queue core (push_back (current_priority th) n) k1)
             else let k2 = upd_thread n (\<lambda>x. x\<lparr>status := Running\<rparr>)
                        (upd_queue core (remove (current_priority th) n)
                          (k1\<lparr>ktiming := UnscheduleEvent (wakeup_event core) (thread_id th) (ktiming k1),
                              current_thread := (current_thread k1)(core \<mapsto> n)\<rparr>))
                  in case owner_process th of
                       None \<Rightarrow> None
                     | Some p \<Rightarrow>
                         Some (k2\<lparr>cpu_process := (if previous_process \<noteq> Some p then (cpu_process k2)(core \<mapsto> p) else cpu_process k2),
                                  cpu_context := (cpu_context k2)(core := ctx th),
                                  cpu_thread_uro := (cpu_thread_uro k2)(core := tls_address th)\<rparr>))"

definition Reschedule :: "nat \<Rightarrow> kernel \<Rightarrow> kernel option" where
  "Reschedule core k =
     do { (next, k1) \<leftarrow> PopNextReadyThread core k;
          if current_thread k core = None \<and> next = None then Some k1 else SwitchContext core next k1 }"

fun reschedule_cores :: "nat list \<Rightarrow> kernel \<Rightarrow> kernel option" where
  "reschedule_cores [] k = Some k"
| "reschedule_cores (c # cs) k = do { k1 \<leftarrow> Reschedule c k; reschedule_cores cs k1 }"

definition System_Reschedule :: "nat \<Rightarrow> kernel \<Rightarrow> kernel option" where
  "System_Reschedule num_cores k =
     (if reschedule_pending k then reschedule_cores [0..<num_cores] (k\<lparr>reschedule_pending := False\<rparr>) else Some k)"

definition HaveReadyThreads :: "nat \<Rightarrow> kernel \<Rightarrow> bool option" where
  "HaveReadyThreads core k =
     (case get_first (ready_queue k core) of Ok q r \<Rightarrow> Some (r \<noteq> None) | _ \<Rightarrow> None)"

text \<open>\<^verbatim>\<open>svcSleepThread\<close> on the current core.\<close>

definition SleepThread :: "nat \<Rightarrow> int \<Rightarrow> kernel \<Rightarrow> kernel option" where
  "SleepThread core nanoseconds k =
     do { have_ready \<leftarrow> (if nanoseconds = 0 then HaveReadyThreads core k else Some True);
          if nanoseconds = 0 \<and> \<not> have_ready then Some k
          else if nanoseconds < 0 then Some (PrepareReschedule k)
          else do { k1 \<leftarrow> WakeAfterDelay nanoseconds False (the (current_thread k core)) (WaitCurrentThread_Sleep core k);
                    Some (PrepareReschedule k1) } }"

section \<open>Popping\<close>

definition queue_size :: "nat thread_queue_list \<Rightarrow> nat" where
  "queue_size q = (\<Sum>p < length (queues q). length (level q p))"

text \<open>\<open>pop\<close> takes the front of the best nonempty level below \<open>b\<close>.\<close>

definition pops_below :: "nat \<Rightarrow> (nat thread_queue_list \<Rightarrow> (nat thread_queue_list, nat \<times> nat option) outcome) \<Rightarrow>
    nat thread_queue_list \<Rightarrow> bool" where
  "pops_below b pop q \<longleftrightarrow>
     (\<exists>q' r. pop q = Ok q' r \<and> tq_inv q' \<and> prepared q' = prepared q \<and> length (queues q') = length (queues q) \<and>
       (case r of
          (p, None) \<Rightarrow> q' = q \<and> (\<forall>i < b. level q i = [])
        | (p, Some x) \<Rightarrow> p < b \<and> p < length (queues q) \<and> level q p = x # level q' p \<and>
            (\<forall>i < p. level q i = []) \<and> level q' = (level q)(p := level q' p)))"

lemma pop_better_loop_length:
  "pop_better_loop n s q l = Ok q' r \<Longrightarrow> length (queues q') = length (queues q)"
  by (induction n s q l rule: pop_better_loop.induct) (auto split: if_splits list.splits)

lemma pop_first_loop_length:
  "pop_first_loop n q l = Ok q' r \<Longrightarrow> length (queues q') = length (queues q)"
  by (induction n q l rule: pop_first_loop.induct) (auto split: list.splits)

lemma level_nonempty_bound: "level q p \<noteq> [] \<Longrightarrow> p < length (queues q)"
  by (auto simp: level_def split: if_splits)

lemma pop_first_below: "tq_inv q \<Longrightarrow> pops_below (length (queues q)) pop_first q"
  using tq.pop_spec [of q] level_nonempty_bound [of q]
  unfolding pops_below_def pop_first_def
  by (fastforce simp: fun_eq_iff dest: pop_first_loop_length split: prod.splits option.splits)

lemma pop_better_below:
  "tq_inv q \<Longrightarrow> prepared q b \<Longrightarrow> pops_below b (pop_first_better b) q"
  using tq.pop_better_spec [of q b] level_nonempty_bound [of q]
  unfolding pops_below_def pop_first_better_def
  by (fastforce simp: fun_eq_iff dest: pop_better_loop_length split: prod.splits option.splits)

lemma queue_size_pop:
  assumes "level q p = x # level q' p" "level q' = (level q)(p := level q' p)"
    "length (queues q') = length (queues q)" "p < length (queues q)"
  shows "queue_size q = Suc (queue_size q')"
proof -
  have "queue_size q = length (level q p) + (\<Sum>i \<in> {..<length (queues q)} - {p}. length (level q i))"
    unfolding queue_size_def using assms(4) by (simp add: sum.remove)
  moreover have "queue_size q' = length (level q' p) + (\<Sum>i \<in> {..<length (queues q)} - {p}. length (level q' i))"
    unfolding queue_size_def using assms(3,4) by (simp add: sum.remove)
  moreover have "(\<Sum>i \<in> {..<length (queues q)} - {p}. length (level q' i)) =
      (\<Sum>i \<in> {..<length (queues q)} - {p}. length (level q i))"
    using assms(2) by (intro sum.cong refl) (metis DiffE fun_upd_apply singletonI)
  ultimately show ?thesis using assms(1) by simp
qed

lemma push_front_simps:
  assumes "p < length (queues q)"
  shows "level (push_front p x q) = (level q)(p := x # level q p)"
    "prepared (push_front p x q) = prepared q" "length (queues (push_front p x q)) = length (queues q)"
  using assms by (auto simp: push_front_def level_def)

lemma push_front_inv: "tq_inv q \<Longrightarrow> prepared q p \<Longrightarrow> tq_inv (push_front p x q)"
  by (simp add: push_front_def tq.store_inv)

text \<open>
  What the search and the restoring of the skipped threads amount to: the first thread below level \<open>b\<close> that
  can be scheduled is taken out of the queue, and nothing else changes.
\<close>

definition takes_first :: "nat \<Rightarrow> (nat \<Rightarrow> bool) \<Rightarrow> nat thread_queue_list \<Rightarrow> nat option \<Rightarrow> nat thread_queue_list \<Rightarrow> bool" where
  "takes_first b can q next q' \<longleftrightarrow>
     tq_inv q' \<and> prepared q' = prepared q \<and> length (queues q') = length (queues q) \<and>
     (case next of
        None \<Rightarrow> level q' = level q \<and> (\<forall>p < b. \<forall>x \<in> set (level q p). \<not> can x)
      | Some n \<Rightarrow> \<exists>p xs ys. p < b \<and> level q p = xs @ n # ys \<and> can n \<and> (\<forall>x \<in> set xs. \<not> can x) \<and>
          (\<forall>i < p. \<forall>x \<in> set (level q i). \<not> can x) \<and> level q' = (level q)(p := xs @ ys))"

lemma takes_first_skip:
  assumes q1: "level q p = x # level q1 p" "level q1 = (level q)(p := level q1 p)" "prepared q1 = prepared q"
      "length (queues q1) = length (queues q)" "\<forall>i < p. level q i = []"
    and p: "p < length (queues q)" "prepared q p" and x: "\<not> can x"
    and rest: "takes_first b can q1 next q'"
  shows "takes_first b can q next (push_front p x q')"
proof -
  have lv: "level q1 i = (if i = p then level q1 p else level q i)" for i
    using q1(2) by (metis fun_upd_apply)
  have len: "p < length (queues q')" using rest p q1(4) by (simp add: takes_first_def)
  have base: "tq_inv (push_front p x q')" "prepared (push_front p x q') = prepared q"
      "length (queues (push_front p x q')) = length (queues q)"
    using rest p q1(3,4) push_front_simps [OF len, of x] push_front_inv [of q' p x]
    by (auto simp: takes_first_def)
  show ?thesis
  proof (cases "next")
    case None
    with rest have "level q' = level q1" "\<forall>i < b. \<forall>y \<in> set (level q1 i). \<not> can y"
      by (auto simp: takes_first_def)
    moreover have "\<forall>i < b. \<forall>y \<in> set (level q i). \<not> can y"
    proof (intro allI impI ballI)
      fix i y assume "i < b" "y \<in> set (level q i)"
      then show "\<not> can y" using calculation(2) lv [of i] x q1(1) by (cases "i = p") auto
    qed
    moreover have "(level q1)(p := x # level q1 p) = level q" using q1(1,2) by (metis fun_upd_triv fun_upd_upd)
    ultimately show ?thesis using base None push_front_simps(1) [OF len, of x] by (simp add: takes_first_def)
  next
    case (Some n)
    with rest obtain j xs ys where j: "j < b" "level q1 j = xs @ n # ys" "can n" "\<forall>y \<in> set xs. \<not> can y"
        "\<forall>i < j. \<forall>y \<in> set (level q1 i). \<not> can y" "level q' = (level q1)(j := xs @ ys)"
      by (auto simp: takes_first_def)
    let ?xs = "if j = p then x # xs else xs"
    have "level q j = ?xs @ n # ys" using j(2) q1(1) lv [of j] by (simp split: if_splits)
    moreover have "\<forall>y \<in> set ?xs. \<not> can y" using j(4) x by auto
    moreover have "\<forall>i < j. \<forall>y \<in> set (level q i). \<not> can y"
    proof (intro allI impI ballI)
      fix i y assume "i < j" "y \<in> set (level q i)"
      then show "\<not> can y" using j(5) lv [of i] x q1(1) by (cases "i = p") auto
    qed
    moreover have "level (push_front p x q') = (level q)(j := ?xs @ ys)"
      unfolding push_front_simps(1) [OF len] j(6)
    proof (rule ext)
      fix i
      show "((level q1)(j := xs @ ys, p := x # ((level q1)(j := xs @ ys)) p)) i = ((level q)(j := ?xs @ ys)) i"
        using q1(1) lv [of i] by (cases "i = p"; cases "i = j") simp_all
    qed
    ultimately have "\<exists>p xs ys. p < b \<and> level q p = xs @ n # ys \<and> can n \<and> (\<forall>x \<in> set xs. \<not> can x) \<and>
        (\<forall>i < p. \<forall>x \<in> set (level q i). \<not> can x) \<and> level (push_front p' x q') = (level q)(p := xs @ ys)"
      if "p' = p" for p' unfolding that using j(1,3) by (intro exI conjI)
    then show ?thesis using base Some by (simp add: takes_first_def)
  qed
qed

lemma pop_schedulable_spec:
  assumes "tq_inv q" and pops: "\<And>q'. tq_inv q' \<Longrightarrow> prepared q' = prepared q \<Longrightarrow>
      length (queues q') = length (queues q) \<Longrightarrow> pops_below b pop q'"
  shows "\<exists>next sk q'. pop_schedulable can pop acc q = Some (next, acc @ sk, q') \<and>
     takes_first b can q next (foldr (\<lambda>(p, n). push_front p n) sk q')"
  using assms
proof (induction "queue_size q" arbitrary: q acc rule: less_induct)
  case less
  obtain q1 p r where pop: "pop q = Ok q1 (p, r)" and q1: "tq_inv q1" "prepared q1 = prepared q"
      "length (queues q1) = length (queues q)"
    and r: "case r of None \<Rightarrow> q1 = q \<and> (\<forall>i < b. level q i = [])
        | Some x \<Rightarrow> p < b \<and> p < length (queues q) \<and> level q p = x # level q1 p \<and>
            (\<forall>i < p. level q i = []) \<and> level q1 = (level q)(p := level q1 p)"
    using less.prems(2) [OF less.prems(1)] by (auto simp: pops_below_def split: prod.splits)
  show ?case
  proof (cases r)
    case None
    with r pop less.prems(1) show ?thesis
      by (auto simp: pop_schedulable.simps [of can pop acc q] takes_first_def intro!: exI [of _ "None :: nat option"] exI [of _ "[]"])
  next
    case (Some x)
    then have x: "p < b" "p < length (queues q)" "level q p = x # level q1 p" "\<forall>i < p. level q i = []"
        "level q1 = (level q)(p := level q1 p)" using r by auto
    have prep: "prepared q p" using tq.lvl_prep [OF less.prems(1), of p] x(3) by simp
    show ?thesis
    proof (cases "can x")
      case True
      have "takes_first b can q (Some x) q1"
        unfolding takes_first_def option.case using x q1 True
        by (intro conjI exI [of _ p] exI [of _ "[]"] exI [of _ "level q1 p"]) simp_all
      then show ?thesis
        using pop Some True by (auto simp: pop_schedulable.simps [of can pop acc q] intro!: exI [of _ "Some x"] exI [of _ "[]"])
    next
      case False
      have "queue_size q1 < queue_size q" using queue_size_pop [OF x(3,5) q1(3) x(2)] by simp
      then obtain nx sk q' where rec: "pop_schedulable can pop (acc @ [(p, x)]) q1 = Some (nx, (acc @ [(p, x)]) @ sk, q')"
          "takes_first b can q1 nx (foldr (\<lambda>(p, n). push_front p n) sk q')"
        using less.hyps [of q1 "acc @ [(p, x)]"] q1 less.prems(2) by auto
      have "takes_first b can q nx (foldr (\<lambda>(p, n). push_front p n) ((p, x) # sk) q')"
        using takes_first_skip [where can = can, OF x(3,5) q1(2,3) x(4) x(2) prep False rec(2)] by simp
      then show ?thesis
        using rec(1) pop Some False
        by (auto simp: pop_schedulable.simps [of can pop acc q] intro!: exI [of _ nx] exI [of _ "(p, x) # sk"] exI [of _ q'])
    qed
  qed
qed

section \<open>The invariant of a core\<close>

text \<open>
  \<open>core_inv_but out k c\<close>: the ready queue of core \<open>c\<close> is well formed, its levels hold exactly the ready threads
  of the core, each once at its current priority, the level of every thread is prepared, and only the
  current thread is running. The thread \<open>out\<close>, if there is one, has been popped from the queue.
\<close>

definition core_inv_but :: "nat option \<Rightarrow> kernel \<Rightarrow> nat \<Rightarrow> bool" where
  "core_inv_but out k c \<longleftrightarrow>
     tq_inv (ready_queue k c) \<and> length (queues (ready_queue k c)) = ThreadPrioLowest + 1 \<and>
     (\<forall>t \<in> set (thread_list k c). core_id (threads k t) = c \<and>
        prepared (ready_queue k c) (current_priority (threads k t))) \<and>
     (\<forall>p. \<forall>t \<in> set (level (ready_queue k c) p). t \<in> set (thread_list k c) \<and>
        status (threads k t) = Ready \<and> current_priority (threads k t) = p \<and> out \<noteq> Some t) \<and>
     (\<forall>t \<in> set (thread_list k c). status (threads k t) = Ready \<and> out \<noteq> Some t \<longrightarrow>
        t \<in> set (level (ready_queue k c) (current_priority (threads k t)))) \<and>
     (\<forall>p. distinct (level (ready_queue k c) p)) \<and>
     (\<forall>t \<in> set (thread_list k c). status (threads k t) = Running \<longrightarrow> current_thread k c = Some t) \<and>
     (\<forall>t. current_thread k c = Some t \<longrightarrow> core_id (threads k t) = c \<and>
        (status (threads k t) = Running \<longrightarrow> t \<in> set (thread_list k c)))"

abbreviation core_inv :: "kernel \<Rightarrow> nat \<Rightarrow> bool" where
  "core_inv \<equiv> core_inv_but None"

lemma core_invD:
  assumes "core_inv_but out k c"
  shows "tq_inv (ready_queue k c)" "length (queues (ready_queue k c)) = 64"
    "\<And>t. t \<in> set (thread_list k c) \<Longrightarrow> core_id (threads k t) = c"
    "\<And>t. t \<in> set (thread_list k c) \<Longrightarrow> prepared (ready_queue k c) (current_priority (threads k t))"
    "\<And>t. t \<in> set (thread_list k c) \<Longrightarrow> current_priority (threads k t) < 64"
    "\<And>p t. t \<in> set (level (ready_queue k c) p) \<Longrightarrow> t \<in> set (thread_list k c) \<and>
        status (threads k t) = Ready \<and> current_priority (threads k t) = p \<and> out \<noteq> Some t"
    "\<And>t. t \<in> set (thread_list k c) \<Longrightarrow> status (threads k t) = Ready \<Longrightarrow> out \<noteq> Some t \<Longrightarrow>
        t \<in> set (level (ready_queue k c) (current_priority (threads k t)))"
    "\<And>p. distinct (level (ready_queue k c) p)"
    "\<And>t. t \<in> set (thread_list k c) \<Longrightarrow> status (threads k t) = Running \<Longrightarrow> current_thread k c = Some t"
    "\<And>t. current_thread k c = Some t \<Longrightarrow> status (threads k t) = Running \<Longrightarrow> t \<in> set (thread_list k c)"
    "\<And>t. current_thread k c = Some t \<Longrightarrow> core_id (threads k t) = c"
proof -
  note I = assms [unfolded core_inv_but_def]
  have 1: "\<forall>t \<in> set (thread_list k c). core_id (threads k t) = c \<and>
        prepared (ready_queue k c) (current_priority (threads k t))" using I by (elim conjE)
  have 2: "\<forall>p. \<forall>t \<in> set (level (ready_queue k c) p). t \<in> set (thread_list k c) \<and>
        status (threads k t) = Ready \<and> current_priority (threads k t) = p \<and> out \<noteq> Some t" using I by (elim conjE)
  have 3: "\<forall>t \<in> set (thread_list k c). status (threads k t) = Ready \<and> out \<noteq> Some t \<longrightarrow>
        t \<in> set (level (ready_queue k c) (current_priority (threads k t)))" using I by (elim conjE)
  have 4: "\<forall>p. distinct (level (ready_queue k c) p)" using I by (elim conjE)
  have 5: "\<forall>t \<in> set (thread_list k c). status (threads k t) = Running \<longrightarrow> current_thread k c = Some t" using I by (elim conjE)
  have 6: "\<forall>t. current_thread k c = Some t \<longrightarrow> core_id (threads k t) = c \<and>
        (status (threads k t) = Running \<longrightarrow> t \<in> set (thread_list k c))" using I by (elim conjE)
  have 7: "tq_inv (ready_queue k c)" using I by (elim conjE)
  have 8: "length (queues (ready_queue k c)) = ThreadPrioLowest + 1" using I by (elim conjE)
  show len: "length (queues (ready_queue k c)) = 64" using 8 by (simp add: ThreadPrioLowest_def)
  show "current_priority (threads k t) < 64" if "t \<in> set (thread_list k c)" for t
    using bspec [OF 1 that] len by (simp add: prepared_def)
  show "tq_inv (ready_queue k c)" by (rule 7)
  show "core_id (threads k t) = c" "prepared (ready_queue k c) (current_priority (threads k t))"
    if "t \<in> set (thread_list k c)" for t using bspec [OF 1 that] by simp_all
  show "t \<in> set (thread_list k c) \<and> status (threads k t) = Ready \<and> current_priority (threads k t) = p \<and> out \<noteq> Some t"
    if "t \<in> set (level (ready_queue k c) p)" for p t using bspec [OF spec [OF 2] that] .
  show "t \<in> set (level (ready_queue k c) (current_priority (threads k t)))"
    if "t \<in> set (thread_list k c)" "status (threads k t) = Ready" "out \<noteq> Some t" for t
    using bspec [OF 3 that(1)] that by simp
  show "distinct (level (ready_queue k c) p)" for p using 4 by simp
  show "current_thread k c = Some t" if "t \<in> set (thread_list k c)" "status (threads k t) = Running" for t
    using bspec [OF 5 that(1)] that by simp
  show "t \<in> set (thread_list k c)" if "current_thread k c = Some t" "status (threads k t) = Running" for t
    using 6 that by simp
  show "core_id (threads k t) = c" if "current_thread k c = Some t" for t using 6 that by simp
qed

lemma core_invI:
  assumes "tq_inv (ready_queue k c)" "length (queues (ready_queue k c)) = 64"
    "\<And>t. t \<in> set (thread_list k c) \<Longrightarrow> core_id (threads k t) = c"
    "\<And>t. t \<in> set (thread_list k c) \<Longrightarrow> prepared (ready_queue k c) (current_priority (threads k t))"
    "\<And>p t. t \<in> set (level (ready_queue k c) p) \<Longrightarrow> t \<in> set (thread_list k c) \<and>
        status (threads k t) = Ready \<and> current_priority (threads k t) = p \<and> out \<noteq> Some t"
    "\<And>t. t \<in> set (thread_list k c) \<Longrightarrow> status (threads k t) = Ready \<Longrightarrow> out \<noteq> Some t \<Longrightarrow>
        t \<in> set (level (ready_queue k c) (current_priority (threads k t)))"
    "\<And>p. distinct (level (ready_queue k c) p)"
    "\<And>t. t \<in> set (thread_list k c) \<Longrightarrow> status (threads k t) = Running \<Longrightarrow> current_thread k c = Some t"
    "\<And>t. current_thread k c = Some t \<Longrightarrow> status (threads k t) = Running \<Longrightarrow> t \<in> set (thread_list k c)"
    "\<And>t. current_thread k c = Some t \<Longrightarrow> core_id (threads k t) = c"
  shows "core_inv_but out k c"
  unfolding core_inv_but_def ThreadPrioLowest_def
proof (intro conjI)
  show "\<forall>t \<in> set (thread_list k c). core_id (threads k t) = c \<and>
      prepared (ready_queue k c) (current_priority (threads k t))" using assms(3,4) by blast
  show "\<forall>p. \<forall>t \<in> set (level (ready_queue k c) p). t \<in> set (thread_list k c) \<and>
      status (threads k t) = Ready \<and> current_priority (threads k t) = p \<and> out \<noteq> Some t"
    by (intro allI ballI) (rule assms(5))
  show "\<forall>t \<in> set (thread_list k c). status (threads k t) = Ready \<and> out \<noteq> Some t \<longrightarrow>
      t \<in> set (level (ready_queue k c) (current_priority (threads k t)))"
    by (intro ballI impI, elim conjE) (rule assms(6))
  show "\<forall>t \<in> set (thread_list k c). status (threads k t) = Running \<longrightarrow> current_thread k c = Some t"
    by (intro ballI impI) (rule assms(8))
  show "\<forall>t. current_thread k c = Some t \<longrightarrow> core_id (threads k t) = c \<and>
      (status (threads k t) = Running \<longrightarrow> t \<in> set (thread_list k c))"
    using assms(9,10) by blast
qed (use assms(1,2,7) in simp_all)

lemma upd_thread_simps [simp]:
  "threads (upd_thread t f k) = (threads k)(t := f (threads k t))"
  "ready_queue (upd_thread t f k) = ready_queue k"
  "thread_list (upd_thread t f k) = thread_list k"
  "current_thread (upd_thread t f k) = current_thread k"
  "kind (upd_thread t f k) = kind k"
  "waiting_threads (upd_thread t f k) = waiting_threads k"
  "hle_notifier (upd_thread t f k) = hle_notifier k"
  "mutexes (upd_thread t f k) = mutexes k"
  "semaphores (upd_thread t f k) = semaphores k"
  "events (upd_thread t f k) = events k"
  "ktimers (upd_thread t f k) = ktimers k"
  "arbiter_waiting (upd_thread t f k) = arbiter_waiting k"
  "ktiming (upd_thread t f k) = ktiming k"
  "limiters (upd_thread t f k) = limiters k"
  "current_schedule_mode (upd_thread t f k) = current_schedule_mode k"
  "resource_limits (upd_thread t f k) = resource_limits k"
  "cpu_context (upd_thread t f k) = cpu_context k"
  by (simp_all add: upd_thread_def)

lemma upd_queue_simps [simp]:
  "threads (upd_queue c g k) = threads k"
  "ready_queue (upd_queue c g k) = (ready_queue k)(c := g (ready_queue k c))"
  "thread_list (upd_queue c g k) = thread_list k"
  "current_thread (upd_queue c g k) = current_thread k"
  "kind (upd_queue c g k) = kind k"
  "waiting_threads (upd_queue c g k) = waiting_threads k"
  "hle_notifier (upd_queue c g k) = hle_notifier k"
  "mutexes (upd_queue c g k) = mutexes k"
  "semaphores (upd_queue c g k) = semaphores k"
  "events (upd_queue c g k) = events k"
  "ktimers (upd_queue c g k) = ktimers k"
  "arbiter_waiting (upd_queue c g k) = arbiter_waiting k"
  "ktiming (upd_queue c g k) = ktiming k"
  "limiters (upd_queue c g k) = limiters k"
  "current_schedule_mode (upd_queue c g k) = current_schedule_mode k"
  "resource_limits (upd_queue c g k) = resource_limits k"
  "cpu_context (upd_queue c g k) = cpu_context k"
  by (simp_all add: upd_queue_def)

lemma PrepareReschedule_simps [simp]:
  "threads (PrepareReschedule k) = threads k"
  "ready_queue (PrepareReschedule k) = ready_queue k"
  "thread_list (PrepareReschedule k) = thread_list k"
  "current_thread (PrepareReschedule k) = current_thread k"
  "kind (PrepareReschedule k) = kind k"
  "waiting_threads (PrepareReschedule k) = waiting_threads k"
  "hle_notifier (PrepareReschedule k) = hle_notifier k"
  "mutexes (PrepareReschedule k) = mutexes k"
  "semaphores (PrepareReschedule k) = semaphores k"
  "events (PrepareReschedule k) = events k"
  "ktimers (PrepareReschedule k) = ktimers k"
  "arbiter_waiting (PrepareReschedule k) = arbiter_waiting k"
  "ktiming (PrepareReschedule k) = ktiming k"
  "reschedule_pending (PrepareReschedule k)"
  by (simp_all add: PrepareReschedule_def)

text \<open>Whether a core is well formed depends on these parts of the state only.\<close>

lemma core_inv_cong:
  assumes "ready_queue k' c = ready_queue k c" "thread_list k' c = thread_list k c"
    "current_thread k' c = current_thread k c"
    "\<And>t. t \<in> set (thread_list k c) \<or> current_thread k c = Some t \<Longrightarrow>
       core_id (threads k' t) = core_id (threads k t) \<and> status (threads k' t) = status (threads k t) \<and>
       current_priority (threads k' t) = current_priority (threads k t)"
  shows "core_inv_but out k' c \<longleftrightarrow> core_inv_but out k c"
  unfolding core_inv_but_def assms(1-3) using assms(4) by (smt (verit, best))

definition runnable :: "kernel \<Rightarrow> nat \<Rightarrow> nat \<Rightarrow> bool" where
  "runnable k c t \<longleftrightarrow> t \<in> set (thread_list k c) \<and> status (threads k t) \<in> {Running, Ready} \<and> CanSchedule k t"

text \<open>Taking a thread out of the queue.\<close>

lemma takes_first_core:
  assumes inv: "core_inv k c" and tf: "takes_first b (CanSchedule k) (ready_queue k c) (Some n) q'"
  shows "core_inv_but (Some n) (upd_queue c (\<lambda>_. q') k) c" "runnable k c n" "status (threads k n) = Ready"
    "current_priority (threads k n) < b"
    "\<And>t. runnable k c t \<Longrightarrow> status (threads k t) = Ready \<Longrightarrow> current_priority (threads k n) \<le> current_priority (threads k t)"
proof -
  note I = core_invD [OF inv]
  obtain p xs ys where p: "p < b" "level (ready_queue k c) p = xs @ n # ys" "CanSchedule k n"
      "\<forall>i < p. \<forall>x \<in> set (level (ready_queue k c) i). \<not> CanSchedule k x"
      "level q' = (level (ready_queue k c))(p := xs @ ys)"
    and q': "tq_inv q'" "prepared q' = prepared (ready_queue k c)" "length (queues q') = length (queues (ready_queue k c))"
    using tf by (auto simp: takes_first_def)
  have n: "n \<in> set (thread_list k c)" "status (threads k n) = Ready" "current_priority (threads k n) = p"
    using I(6) [of n p] p(2) by auto
  show "runnable k c n" "status (threads k n) = Ready" "current_priority (threads k n) < b"
    using n p(1,3) by (auto simp: runnable_def)
  show "current_priority (threads k n) \<le> current_priority (threads k t)"
    if "runnable k c t" "status (threads k t) = Ready" for t
    using that I(7) [of t] p(4) n(3) by (metis linorder_not_less option.distinct(1) runnable_def)
  have d: "distinct (xs @ n # ys)" using I(8) [of p] p(2) by simp
  show "core_inv_but (Some n) (upd_queue c (\<lambda>_. q') k) c"
  proof (rule core_invI)
    fix t i assume t: "t \<in> set (level (ready_queue (upd_queue c (\<lambda>_. q') k) c) i)"
    then have "t \<in> set (level (ready_queue k c) i)" "t \<noteq> n"
      using p(2,5) d I(6) [of t i] n(3) by (auto split: if_splits)
    with I(6) [of t i] show "t \<in> set (thread_list (upd_queue c (\<lambda>_. q') k) c) \<and>
        status (threads (upd_queue c (\<lambda>_. q') k) t) = Ready \<and>
        current_priority (threads (upd_queue c (\<lambda>_. q') k) t) = i \<and> Some n \<noteq> Some t" by simp
  next
    fix t assume "t \<in> set (thread_list (upd_queue c (\<lambda>_. q') k) c)"
      "status (threads (upd_queue c (\<lambda>_. q') k) t) = Ready" "Some n \<noteq> Some t"
    then show "t \<in> set (level (ready_queue (upd_queue c (\<lambda>_. q') k) c)
        (current_priority (threads (upd_queue c (\<lambda>_. q') k) t)))"
      using I(7) [of t] p(2,5) by auto
  next
    fix i show "distinct (level (ready_queue (upd_queue c (\<lambda>_. q') k) c) i)"
      using I(8) [of i] d p(5) by (cases "i = p") auto
  next
    fix t assume "t \<in> set (thread_list (upd_queue c (\<lambda>_. q') k) c)"
      "status (threads (upd_queue c (\<lambda>_. q') k) t) = Running"
    then show "current_thread (upd_queue c (\<lambda>_. q') k) c = Some t" using I(9) [of t] by simp
  next
    fix t assume "current_thread (upd_queue c (\<lambda>_. q') k) c = Some t"
      "status (threads (upd_queue c (\<lambda>_. q') k) t) = Running"
    then show "t \<in> set (thread_list (upd_queue c (\<lambda>_. q') k) c)" using I(10) [of t] by simp
  qed (use I(1-4,11) q' in simp_all)
qed


lemma core_inv_change:
  assumes inv: "core_inv_but out k c"
    and list: "thread_list k' c = thread_list k c"
    and others: "\<And>u. u \<noteq> t \<Longrightarrow> core_id (threads k' u) = core_id (threads k u) \<and>
      status (threads k' u) = status (threads k u) \<and> current_priority (threads k' u) = current_priority (threads k u)"
    and core: "core_id (threads k' t) = core_id (threads k t)"
    and q: "tq_inv (ready_queue k' c)" "length (queues (ready_queue k' c)) = 64"
      "\<And>p. prepared (ready_queue k c) p \<Longrightarrow> prepared (ready_queue k' c) p"
      "t \<in> set (thread_list k c) \<Longrightarrow> prepared (ready_queue k' c) (current_priority (threads k' t))"
    and lv: "\<And>p. filter (\<lambda>u. u \<noteq> t) (level (ready_queue k' c) p) = filter (\<lambda>u. u \<noteq> t) (level (ready_queue k c) p)"
      "\<And>p. distinct (level (ready_queue k' c) p)"
      "\<And>p. t \<in> set (level (ready_queue k' c) p) \<longleftrightarrow> t \<in> set (thread_list k c) \<and>
         status (threads k' t) = Ready \<and> out' \<noteq> Some t \<and> p = current_priority (threads k' t)"
    and out: "\<And>u. u \<noteq> t \<Longrightarrow> u \<in> set (thread_list k c) \<Longrightarrow> status (threads k u) = Ready \<Longrightarrow> out' = Some u \<longleftrightarrow> out = Some u"
    and cur: "\<And>u. u \<in> set (thread_list k c) \<Longrightarrow> status (threads k' u) = Running \<Longrightarrow> current_thread k' c = Some u"
      "\<And>u. current_thread k' c = Some u \<Longrightarrow> core_id (threads k u) = c"
      "\<And>u. current_thread k' c = Some u \<Longrightarrow> status (threads k' u) = Running \<Longrightarrow> u \<in> set (thread_list k c)"
  shows "core_inv_but out' k' c"
proof (rule core_invI)
  note I = core_invD [OF inv]
  have mem: "u \<in> set (level (ready_queue k' c) p) \<longleftrightarrow> u \<in> set (level (ready_queue k c) p)" if "u \<noteq> t" for u p
    using arg_cong [OF lv(1) [of p], of set] that by auto
  have core': "core_id (threads k' u) = core_id (threads k u)" for u using core others by (cases "u = t") simp_all
  show "tq_inv (ready_queue k' c)" "length (queues (ready_queue k' c)) = 64" "distinct (level (ready_queue k' c) p)" for p
    by (rule q lv)+
  fix u
  show "core_id (threads k' u) = c" if "u \<in> set (thread_list k' c)" using that I(3) list core' by simp
  show "prepared (ready_queue k' c) (current_priority (threads k' u))" if "u \<in> set (thread_list k' c)"
    using that I(4) [of u] q(3,4) others [of u] list by (cases "u = t") simp_all
  show "u \<in> set (thread_list k' c) \<and> status (threads k' u) = Ready \<and> current_priority (threads k' u) = p \<and> out' \<noteq> Some u"
    if "u \<in> set (level (ready_queue k' c) p)" for p
    using that mem [of u p] lv(3) [of p] I(6) [of u p] others [of u] list out [of u] by (cases "u = t") auto
  show "u \<in> set (level (ready_queue k' c) (current_priority (threads k' u)))"
    if "u \<in> set (thread_list k' c)" "status (threads k' u) = Ready" "out' \<noteq> Some u"
    using that mem [of u] lv(3) I(7) [of u] others [of u] list out [of u] by (cases "u = t") auto
  show "current_thread k' c = Some u" if "u \<in> set (thread_list k' c)" "status (threads k' u) = Running"
    using cur(1) that list by simp
  show "u \<in> set (thread_list k' c)" if "current_thread k' c = Some u" "status (threads k' u) = Running"
    using cur(3) that list by simp
  show "core_id (threads k' u) = c" if "current_thread k' c = Some u" using cur(2) that core' by simp
qed

text \<open>The other cores do not see a change of a thread that is not theirs.\<close>

lemma core_inv_other:
  assumes "core_inv_but out k c" "core_id (threads k t) \<noteq> c"
    "ready_queue k' c = ready_queue k c" "thread_list k' c = thread_list k c" "current_thread k' c = current_thread k c"
    "\<And>u. u \<noteq> t \<Longrightarrow> core_id (threads k' u) = core_id (threads k u) \<and>
      status (threads k' u) = status (threads k u) \<and> current_priority (threads k' u) = current_priority (threads k u)"
  shows "core_inv_but out k' c"
proof -
  have "u \<noteq> t" if "u \<in> set (thread_list k c) \<or> current_thread k c = Some u" for u
    using that core_invD(3,11) [OF assms(1)] assms(2) by blast
  then have "core_inv_but out k' c \<longleftrightarrow> core_inv_but out k c" using assms(3-6) by (intro core_inv_cong) blast+
  with assms(1) show ?thesis by simp
qed

section \<open>Choosing the next thread\<close>

lemma select_next_spec:
  assumes inv: "core_inv k c"
  shows "\<exists>next q. select_next c k = Some (next, upd_queue c (\<lambda>_. q) k) \<and>
    (case next of
       None \<Rightarrow> core_inv (upd_queue c (\<lambda>_. q) k) c \<and> (\<forall>t. \<not> runnable k c t)
     | Some n \<Rightarrow> runnable k c n \<and>
         core_inv_but (if status (threads k n) = Ready then next else None) (upd_queue c (\<lambda>_. q) k) c \<and>
         (\<forall>t. runnable k c t \<longrightarrow> current_priority (threads k n) \<le> current_priority (threads k t)) \<and>
         (\<forall>t. runnable k c t \<and> current_thread k c = Some t \<and> status (threads k t) = Running \<and>
            current_priority (threads k t) \<le> current_priority (threads k n) \<longrightarrow> n = t))"
proof -
  note I = core_invD [OF inv]
  let ?q = "ready_queue k c"
  let ?stay = "case current_thread k c of None \<Rightarrow> False | Some t \<Rightarrow> status (threads k t) = Running \<and> CanSchedule k t"
  let ?b = "if ?stay then current_priority (threads k (the (current_thread k c))) else length (queues ?q)"
  let ?pop = "if ?stay then pop_first_better (current_priority (threads k (the (current_thread k c)))) else pop_first"
  have "pops_below ?b ?pop q'" if q': "tq_inv q'" "prepared q' = prepared ?q" "length (queues q') = length (queues ?q)" for q'
  proof (cases ?stay)
    case True
    then obtain t where t: "current_thread k c = Some t" "status (threads k t) = Running" by (auto split: option.splits)
    then have "prepared q' (current_priority (threads k t))" using I(4) [OF I(10) [OF t]] q'(2) by simp
    then show ?thesis using True t pop_better_below [OF q'(1)] by simp
  next
    case False
    then show ?thesis using pop_first_below [OF q'(1)] q'(3) by simp
  qed
  then obtain nx sk q' where pop: "pop_schedulable (CanSchedule k) ?pop [] ?q = Some (nx, sk, q')"
      and tf: "takes_first ?b (CanSchedule k) ?q nx (foldr (\<lambda>(p, n). push_front p n) sk q')"
    using pop_schedulable_spec [OF I(1), of ?b ?pop "CanSchedule k" "[]"] by auto
  define q where "q = foldr (\<lambda>(p, n). push_front p n) sk q'"
  note tf = tf [folded q_def]
  define nxt where "nxt = (if nx = None \<and> ?stay then current_thread k c else nx)"
  have sel: "select_next c k = Some (nxt, upd_queue c (\<lambda>_. q) k)"
    using pop unfolding select_next_def Let_def q_def nxt_def by simp
  have running: "current_thread k c = Some t" if "runnable k c t" "status (threads k t) \<noteq> Ready" for t
    using that I(9) [of t] by (auto simp: runnable_def)
  have ready: "current_priority (threads k t) < ?b \<Longrightarrow> \<not> CanSchedule k t"
    if "nx = None" "t \<in> set (thread_list k c)" "status (threads k t) = Ready" for t
    using that tf I(7) [of t] by (auto simp: takes_first_def)
  show ?thesis
  proof (cases nx)
    case None
    then have q: "level q = level ?q" "prepared q = prepared ?q" "length (queues q) = length (queues ?q)" "tq_inv q"
      using tf by (auto simp: takes_first_def)
    have inv': "core_inv (upd_queue c (\<lambda>_. q) k) c"
      unfolding core_inv_but_def upd_queue_simps fun_upd_same q(1-3)
      by (rule conjI [OF q(4) conjunct2 [OF inv [unfolded core_inv_but_def]]])
    show ?thesis
    proof (cases ?stay)
      case True
      then obtain t where t: "current_thread k c = Some t" "status (threads k t) = Running" "CanSchedule k t"
        by (auto split: option.splits)
      have r: "runnable k c t" using t I(10) by (simp add: runnable_def)
      have "current_priority (threads k t) \<le> current_priority (threads k u)" if "runnable k c u" for u
      proof (cases "status (threads k u) = Ready")
        case True
        then show ?thesis using ready [OF None, of u] that t \<open>?stay\<close> by (auto simp: runnable_def intro: leI)
      next
        case False
        then show ?thesis using running [OF that] t(1) by simp
      qed
      then show ?thesis
        using sel inv' t r None \<open>?stay\<close> by (intro exI [of _ nxt] exI [of _ q]) (simp add: nxt_def)
    next
      case False
      have "\<not> runnable k c u" for u
      proof
        assume u: "runnable k c u"
        show False
        proof (cases "status (threads k u) = Ready")
          case True
          then show False using ready [OF None, of u] u I(2,5) False by (auto simp: runnable_def)
        next
          case False
          then show False using running [OF u] u \<open>\<not> ?stay\<close> by (auto simp: runnable_def)
        qed
      qed
      then show ?thesis using sel inv' None False by (intro exI [of _ nxt] exI [of _ q]) (simp add: nxt_def)
    qed
  next
    case (Some n)
    note n = takes_first_core [OF inv tf [unfolded Some]]
    have cur: "?b = current_priority (threads k t)"
      if "runnable k c t" "current_thread k c = Some t" "status (threads k t) = Running" for t
      using that by (simp add: runnable_def)
    have "current_priority (threads k n) \<le> current_priority (threads k u)" if "runnable k c u" for u
    proof (cases "status (threads k u) = Ready")
      case False
      then have "status (threads k u) = Running" using that by (auto simp: runnable_def)
      then show ?thesis using n(4) cur [OF that running [OF that False]] by simp
    qed (rule n(5) [OF that])
    moreover have "n = t" if "runnable k c t" "current_thread k c = Some t" "status (threads k t) = Running"
        "current_priority (threads k t) \<le> current_priority (threads k n)" for t
      using cur [OF that(1-3)] n(4) that(4) by simp
    ultimately show ?thesis
      using sel Some n(1-3) by (intro exI [of _ nxt] exI [of _ q]) (simp add: nxt_def)
  qed
qed

lemma upd_limiter_simps [simp]:
  "threads (upd_limiter m f k) = threads k"
  "ready_queue (upd_limiter m f k) = ready_queue k"
  "thread_list (upd_limiter m f k) = thread_list k"
  "current_thread (upd_limiter m f k) = current_thread k"
  "limiters (upd_limiter m f k) = (limiters k)(m := f (limiters k m))"
  "current_schedule_mode (upd_limiter m f k) = current_schedule_mode k"
  "resource_limits (upd_limiter m f k) = resource_limits k"
  "ktiming (upd_limiter m f k) = ktiming k"
  "cpu_context (upd_limiter m f k) = cpu_context k"
  by (simp_all add: upd_limiter_def)

text \<open>The thread that was taken, popped from the queue or still running, stops being runnable.\<close>

lemma core_inv_stop:
  assumes inv: "core_inv_but (if status (threads k n) = Ready then Some n else None) k c"
    and n: "n \<in> set (thread_list k c)" "status (threads k n) \<in> {Running, Ready}"
    and s: "s \<notin> {Running, Ready}"
  shows "core_inv (upd_thread n (\<lambda>x. x\<lparr>status := s\<rparr>) k) c"
proof -
  note I = core_invD [OF inv]
  have "n \<notin> set (level (ready_queue k c) p)" for p
    using I(6) [of n p] by (auto split: if_splits)
  then show ?thesis
  proof (intro core_inv_change [OF inv, where t = n])
    fix u assume "u \<in> set (thread_list k c)" "status (threads (upd_thread n (\<lambda>x. x\<lparr>status := s\<rparr>) k) u) = Running"
    then show "current_thread (upd_thread n (\<lambda>x. x\<lparr>status := s\<rparr>) k) c = Some u"
      using I(9) [of u] s by (auto split: if_splits)
  next
    fix u assume "current_thread (upd_thread n (\<lambda>x. x\<lparr>status := s\<rparr>) k) c = Some u"
      "status (threads (upd_thread n (\<lambda>x. x\<lparr>status := s\<rparr>) k) u) = Running"
    then show "u \<in> set (thread_list k c)" using I(10) [of u] s by (auto split: if_splits)
  qed (use I(1,2,4,8,11) n s in \<open>auto split: if_splits\<close>)
qed

text \<open>Threads that may run now: those that the CPU limiter of core 1 does not hold back.\<close>

definition eligible :: "kernel \<Rightarrow> nat \<Rightarrow> nat \<Rightarrow> bool" where
  "eligible k c t \<longleftrightarrow> runnable k c t \<and> \<not> (c = 1 \<and> time_limited k t)"

text \<open>\<open>held_back k c k1\<close>: \<open>k1\<close> is \<open>k\<close> after the limiter put some threads it holds back to sleep.\<close>

definition held_back :: "kernel \<Rightarrow> nat \<Rightarrow> kernel \<Rightarrow> bool" where
  "held_back k c k1 \<longleftrightarrow>
     thread_list k1 = thread_list k \<and> current_thread k1 = current_thread k \<and>
     time_limited k1 = time_limited k \<and> cpu_context k1 = cpu_context k \<and> ktiming k1 = ktiming k \<and>
     (\<forall>c'. c' \<noteq> c \<longrightarrow> ready_queue k1 c' = ready_queue k c') \<and>
     (\<forall>t. threads k1 t = threads k t \<or>
        runnable k c t \<and> \<not> eligible k c t \<and> threads k1 t = (threads k t)\<lparr>status := WaitSleep\<rparr>)"

lemma time_limited_simps [simp]:
  "time_limited (upd_queue c g k) = time_limited k"
  "time_limited (snd (DoTimeLimit t k)) = time_limited k"
  by (auto simp: time_limited_def DoTimeLimit_def fun_eq_iff Let_def)

lemma held_back_trans:
  assumes "held_back k c k1" "held_back k1 c k2"
  shows "held_back k c k2"
proof -
  have "threads k2 t = threads k t \<or> runnable k c t \<and> \<not> eligible k c t \<and> threads k2 t = (threads k t)\<lparr>status := WaitSleep\<rparr>" for t
  proof (cases "threads k1 t = threads k t")
    case True
    then show ?thesis using assms unfolding held_back_def eligible_def runnable_def CanSchedule_def by metis
  next
    case False
    then have "runnable k c t \<and> \<not> eligible k c t" "threads k1 t = (threads k t)\<lparr>status := WaitSleep\<rparr>"
      using assms(1) unfolding held_back_def by metis+
    moreover then have "threads k2 t = threads k1 t"
      using assms(2) unfolding held_back_def runnable_def by fastforce
    ultimately show ?thesis by simp
  qed
  then show ?thesis using assms by (simp add: held_back_def)
qed

lemma held_back_runnable:
  assumes "held_back k c k1"
  shows "runnable k1 c t \<Longrightarrow> runnable k c t" "runnable k1 c t \<Longrightarrow> threads k1 t = threads k t"
    "eligible k1 c t \<longleftrightarrow> eligible k c t" "eligible k c t \<Longrightarrow> threads k1 t = threads k t"
    "current_priority (threads k1 t) = current_priority (threads k t)"
proof -
  have d: "threads k1 t = threads k t \<or> runnable k c t \<and> \<not> eligible k c t \<and> threads k1 t = (threads k t)\<lparr>status := WaitSleep\<rparr>"
    and e: "thread_list k1 = thread_list k" "time_limited k1 = time_limited k"
    using assms by (simp_all add: held_back_def)
  show "runnable k1 c t \<Longrightarrow> runnable k c t" "runnable k1 c t \<Longrightarrow> threads k1 t = threads k t"
    "eligible k1 c t \<longleftrightarrow> eligible k c t" "eligible k c t \<Longrightarrow> threads k1 t = threads k t"
    "current_priority (threads k1 t) = current_priority (threads k t)"
    using d e by (auto simp: runnable_def eligible_def CanSchedule_def)
qed

definition next_spec :: "kernel \<Rightarrow> nat \<Rightarrow> nat option \<Rightarrow> bool" where
  "next_spec k c next \<longleftrightarrow>
     (case next of
        None \<Rightarrow> \<forall>t. \<not> eligible k c t
      | Some n \<Rightarrow> eligible k c n \<and>
          (\<forall>t. eligible k c t \<longrightarrow> current_priority (threads k n) \<le> current_priority (threads k t)) \<and>
          (\<forall>t. eligible k c t \<and> current_thread k c = Some t \<and> status (threads k t) = Running \<and>
             current_priority (threads k t) \<le> current_priority (threads k n) \<longrightarrow> n = t))"

lemma PopNextReadyThread_spec:
  assumes "core_inv k c"
  shows "\<exists>next k1. PopNextReadyThread c k = Some (next, k1) \<and> held_back k c k1 \<and> next_spec k c next \<and>
    core_inv_but (case next of None \<Rightarrow> None | Some n \<Rightarrow> if status (threads k n) = Ready then next else None) k1 c"
  using assms
proof (induction "card {t \<in> set (thread_list k c). status (threads k t) \<in> {Running, Ready}}" arbitrary: k rule: less_induct)
  case less
  obtain nx q where sel: "select_next c k = Some (nx, upd_queue c (\<lambda>_. q) k)"
    and nx: "case nx of
       None \<Rightarrow> core_inv (upd_queue c (\<lambda>_. q) k) c \<and> (\<forall>t. \<not> runnable k c t)
     | Some n \<Rightarrow> runnable k c n \<and>
         core_inv_but (if status (threads k n) = Ready then nx else None) (upd_queue c (\<lambda>_. q) k) c \<and>
         (\<forall>t. runnable k c t \<longrightarrow> current_priority (threads k n) \<le> current_priority (threads k t)) \<and>
         (\<forall>t. runnable k c t \<and> current_thread k c = Some t \<and> status (threads k t) = Running \<and>
            current_priority (threads k t) \<le> current_priority (threads k n) \<longrightarrow> n = t)"
    using select_next_spec [OF less.prems] by blast
  let ?k1 = "upd_queue c (\<lambda>_. q) k"
  have hb: "held_back k c ?k1" by (simp add: held_back_def)
  show ?case
  proof (cases nx)
    case None
    with sel have "PopNextReadyThread c k = Some (None, ?k1)" by (simp add: PopNextReadyThread.simps)
    moreover have "next_spec k c None" using nx None by (simp add: next_spec_def eligible_def)
    ultimately show ?thesis using nx None hb by (intro exI [of _ None] exI [of _ ?k1]) simp
  next
    case (Some n)
    have n: "runnable k c n" "core_inv_but (if status (threads k n) = Ready then Some n else None) ?k1 c"
      "\<And>t. runnable k c t \<Longrightarrow> current_priority (threads k n) \<le> current_priority (threads k t)"
      "\<And>t. runnable k c t \<Longrightarrow> current_thread k c = Some t \<Longrightarrow> status (threads k t) = Running \<Longrightarrow>
         current_priority (threads k t) \<le> current_priority (threads k n) \<Longrightarrow> n = t"
      using nx unfolding Some by simp_all
    show ?thesis
    proof (cases "c = 1 \<and> time_limited k n")
      case False
      with sel Some have "PopNextReadyThread c k = Some (Some n, ?k1)"
        by (auto simp: PopNextReadyThread.simps [of c k])
      moreover have "next_spec k c (Some n)"
        unfolding next_spec_def option.case using n(1,3,4) False by (simp add: eligible_def)
      ultimately show ?thesis using n(2) hb by (intro exI [of _ "Some n"] exI [of _ ?k1]) simp
    next
      case True
      define k2 where "k2 = snd (DoTimeLimit n ?k1)"
      have k2: "k2 = upd_limiter (current_schedule_mode k)
          (\<lambda>l. l\<lparr>sleeping_thread_ids := sleeping_thread_ids l @ [thread_id (threads k n)]\<rparr>)
          (upd_thread n (\<lambda>x. x\<lparr>status := WaitSleep\<rparr>) ?k1)"
        using True by (simp add: k2_def DoTimeLimit_def)
      have pop: "PopNextReadyThread c k = PopNextReadyThread c k2"
        using sel Some True by (subst PopNextReadyThread.simps) (simp add: k2_def)
      have inv2: "core_inv (upd_thread n (\<lambda>x. x\<lparr>status := WaitSleep\<rparr>) ?k1) c"
        using n(1,2) by (intro core_inv_stop) (auto simp: runnable_def)
      have inv: "core_inv k2 c"
        using inv2 core_inv_cong [of k2 c "upd_thread n (\<lambda>x. x\<lparr>status := WaitSleep\<rparr>) ?k1"] by (simp add: k2)
      have hb2: "held_back k c k2"
        using n(1) True time_limited_simps(2) [of n ?k1] unfolding k2_def [symmetric]
        by (simp add: held_back_def k2 eligible_def)
      have "{t \<in> set (thread_list k2 c). status (threads k2 t) \<in> {Running, Ready}} \<subset>
          {t \<in> set (thread_list k c). status (threads k t) \<in> {Running, Ready}}"
        using n(1) by (auto simp: k2 runnable_def)
      then have "card {t \<in> set (thread_list k2 c). status (threads k2 t) \<in> {Running, Ready}} <
          card {t \<in> set (thread_list k c). status (threads k t) \<in> {Running, Ready}}"
        by (rule psubset_card_mono [rotated]) simp
      from less.hyps [OF this inv] obtain nxt k3 where rec: "PopNextReadyThread c k2 = Some (nxt, k3)"
          "held_back k2 c k3" "next_spec k2 c nxt"
          "core_inv_but (case nxt of None \<Rightarrow> None | Some n \<Rightarrow> if status (threads k2 n) = Ready then nxt else None) k3 c"
        by blast
      have "next_spec k c nxt"
        using rec(3) held_back_runnable(3-5) [OF hb2] hb2
        by (simp add: next_spec_def held_back_def split: option.splits)
      moreover have "threads k2 m = threads k m" if "nxt = Some m" for m
        using rec(3) held_back_runnable(3,4) [OF hb2] that by (simp add: next_spec_def)
      ultimately show ?thesis
        using rec(1,4) held_back_trans [OF hb2 rec(2)] pop
        by (intro exI [of _ nxt] exI [of _ k3]) (cases nxt; simp)
    qed
  qed
qed

section \<open>Switching\<close>

definition saved :: "kernel \<Rightarrow> nat \<Rightarrow> thread \<Rightarrow> thread" where
  "saved k c x = x\<lparr>last_running_ticks := timer_GetTicks (timers (ktiming k) ! c), ctx := cpu_context k c,
     status := if status x = Running then Ready else status x\<rparr>"

lemma save_previous_frame:
  "thread_list (save_previous c k) = thread_list k"
  "current_thread (save_previous c k) = current_thread k"
  "threads (save_previous c k) t = (if current_thread k c = Some t then saved k c (threads k t) else threads k t)"
  "c' \<noteq> c \<Longrightarrow> ready_queue (save_previous c k) c' = ready_queue k c'"
  "cpu_context (save_previous c k) = cpu_context k"
  by (auto simp: save_previous_def saved_def Let_def split: option.splits)

lemma save_previous_inv:
  assumes inv: "core_inv_but out k c" and out: "\<And>n. out = Some n \<Longrightarrow> status (threads k n) = Ready"
  shows "core_inv_but out (save_previous c k) c"
    "t \<in> set (thread_list k c) \<Longrightarrow> status (threads (save_previous c k) t) \<noteq> Running"
proof -
  note I = core_invD [OF inv]
  show "status (threads (save_previous c k) t) \<noteq> Running" if "t \<in> set (thread_list k c)"
    using I(9) [OF that] by (auto simp: save_previous_frame saved_def)
  show "core_inv_but out (save_previous c k) c"
  proof (cases "current_thread k c")
    case None
    then show ?thesis using inv by (simp add: save_previous_def)
  next
    case (Some t)
    show ?thesis
    proof (cases "status (threads k t) = Running")
      case False
      then have "save_previous c k = upd_thread t (\<lambda>x. x\<lparr>last_running_ticks := timer_GetTicks (timers (ktiming k) ! c),
          ctx := cpu_context k c\<rparr>) k"
        using Some by (simp add: save_previous_def)
      then show ?thesis using inv by (subst core_inv_cong [of _ c k]) auto
    next
      case True
      let ?p = "current_priority (threads k t)"
      have t: "t \<in> set (thread_list k c)" using I(10) [OF Some True] .
      have p: "?p < length (queues (ready_queue k c))" using I(2,5) t by simp
      have q: "ready_queue (save_previous c k) c = push_front ?p t (ready_queue k c)"
        using True Some by (simp add: save_previous_def)
      have lv: "level (ready_queue (save_previous c k) c) = (level (ready_queue k c))(?p := t # level (ready_queue k c) ?p)"
        unfolding q by (rule push_front_simps(1) [OF p])
      have notin: "t \<notin> set (level (ready_queue k c) i)" for i using I(6) [of t i] True by auto
      have frame: "threads (save_previous c k) u = (if u = t then saved k c (threads k t) else threads k u)" for u
        using Some by (simp add: save_previous_frame)
      show ?thesis
      proof (rule core_inv_change [OF inv, where t = t])
        show "tq_inv (ready_queue (save_previous c k) c)" unfolding q by (rule push_front_inv [OF I(1) I(4) [OF t]])
        show "length (queues (ready_queue (save_previous c k) c)) = 64"
          unfolding q push_front_simps(3) [OF p] by (rule I(2))
        show "prepared (ready_queue (save_previous c k) c) i" if "prepared (ready_queue k c) i" for i
          using that unfolding q push_front_simps(2) [OF p] .
        show "prepared (ready_queue (save_previous c k) c) (current_priority (threads (save_previous c k) t))"
          using I(4) [OF t] unfolding q push_front_simps(2) [OF p] by (simp add: frame saved_def)
        show "distinct (level (ready_queue (save_previous c k) c) i)" for i
          unfolding lv using I(8) [of i] notin [of i] by auto
        show "t \<in> set (level (ready_queue (save_previous c k) c) i) \<longleftrightarrow> t \<in> set (thread_list k c) \<and>
            status (threads (save_previous c k) t) = Ready \<and> out \<noteq> Some t \<and>
            i = current_priority (threads (save_previous c k) t)" for i
          unfolding lv using notin [of i] t True out [of t] by (auto simp: frame saved_def)
        show "current_thread (save_previous c k) c = Some u" if "u \<in> set (thread_list k c)" "status (threads (save_previous c k) u) = Running" for u
          using that I(9) [OF that(1)] by (auto simp: frame save_previous_frame(2) saved_def split: if_splits)
        show "u \<in> set (thread_list k c)" if "current_thread (save_previous c k) c = Some u" for u
          using that t Some by (simp add: save_previous_frame(2))
      qed (auto simp: frame saved_def lv save_previous_frame(1,2) I(11))
    qed
  qed
qed

text \<open>Taking up a ready thread, popped or still queued, when no thread of the core is running.\<close>

lemma take_up_inv:
  assumes inv: "core_inv_but out k c" and out: "out = None \<or> out = Some n"
    and n: "n \<in> set (thread_list k c)" "status (threads k n) = Ready"
    and idle: "\<And>t. t \<in> set (thread_list k c) \<Longrightarrow> status (threads k t) \<noteq> Running"
    and q: "ready_queue k' c = remove (current_priority (threads k n)) n (ready_queue k c)"
    and k': "threads k' = (threads k)(n := (threads k n)\<lparr>status := Running\<rparr>)" "thread_list k' = thread_list k"
      "current_thread k' c = Some n"
  shows "core_inv k' c"
proof -
  note I = core_invD [OF inv]
  let ?p = "current_priority (threads k n)"
  have p: "?p < length (queues (ready_queue k c))" using I(2,5) n by simp
  have data: "q_data (queues (ready_queue k c) ! ?p) = level (ready_queue k c) ?p" using p by (simp add: level_def)
  have lv: "level (ready_queue k' c) = (level (ready_queue k c))(?p := filter (\<lambda>u. u \<noteq> n) (level (ready_queue k c) ?p))"
    unfolding q remove_def using p by (simp add: data)
  have only: "n \<in> set (level (ready_queue k c) i) \<Longrightarrow> i = ?p" for i using I(6) [of n i] by simp
  show ?thesis
  proof (rule core_inv_change [OF inv, where t = n])
    show "tq_inv (ready_queue k' c)"
      unfolding q remove_def using I(1) I(4) [OF n(1)] by (rule tq.store_inv)
    show "length (queues (ready_queue k' c)) = 64" using I(2) by (simp add: q remove_def)
    show "prepared (ready_queue k' c) i" if "prepared (ready_queue k c) i" for i using that by (simp add: q remove_def)
    show "prepared (ready_queue k' c) (current_priority (threads k' n))"
      using I(4) [OF n(1)] by (simp add: q remove_def k'(1))
    show "distinct (level (ready_queue k' c) i)" for i unfolding lv using I(8) [of i] by auto
    show "n \<in> set (level (ready_queue k' c) i) \<longleftrightarrow> n \<in> set (thread_list k c) \<and>
        status (threads k' n) = Ready \<and> None \<noteq> Some n \<and> i = current_priority (threads k' n)" for i
      unfolding lv using only [of i] by (auto simp: k'(1))
    show "(None :: nat option) = Some u \<longleftrightarrow> out = Some u" if "u \<noteq> n" for u using out that by auto
    show "current_thread k' c = Some u" if "u \<in> set (thread_list k c)" "status (threads k' u) = Running" for u
      using that idle [of u] k'(1,3) by (auto split: if_splits)
    show "core_id (threads k u) = c" "u \<in> set (thread_list k c)" if "current_thread k' c = Some u" for u
      using that k'(3) n(1) I(3) by auto
  qed (simp_all add: k' lv)
qed


lemma core_inv_idle:
  assumes inv: "core_inv k c" and idle: "\<And>t. t \<in> set (thread_list k c) \<Longrightarrow> status (threads k t) \<noteq> Running"
  shows "core_inv (k\<lparr>current_thread := (current_thread k)(c := None)\<rparr>) c"
  using core_invD(1-4,6-8) [OF inv] idle by (intro core_invI) simp_all

lemma SwitchContext_spec:
  assumes inv: "core_inv_but (if status (threads k n) = Ready then Some n else None) k c"
    and n: "n \<in> set (thread_list k c)" "status (threads k n) \<in> {Running, Ready}" "owner_process (threads k n) \<noteq> None"
  shows "\<exists>k'. SwitchContext c (Some n) k = Some k' \<and> core_inv k' c \<and> current_thread k' c = Some n \<and>
    thread_list k' = thread_list k \<and>
    threads k' = (\<lambda>t. if t = n then (threads (save_previous c k) n)\<lparr>status := Running\<rparr> else threads (save_previous c k) t) \<and>
    cpu_context k' c = ctx (threads (save_previous c k) n)"
proof -
  let ?k1 = "save_previous c k"
  let ?out = "if status (threads k n) = Ready then Some n else None"
  obtain p where p: "owner_process (threads ?k1 n) = Some p"
    using n(3) by (auto simp: save_previous_frame saved_def)
  have inv1: "core_inv_but ?out ?k1 c" "\<And>t. t \<in> set (thread_list k c) \<Longrightarrow> status (threads ?k1 t) \<noteq> Running"
    by (rule save_previous_inv [OF inv]; simp split: if_splits)+
  have s: "status (threads ?k1 n) = Ready"
    using inv1(2) [OF n(1)] n(2) by (auto simp: save_previous_frame saved_def split: if_splits)
  define prev where "prev = Option.bind (current_thread k c) (\<lambda>t. owner_process (threads k t))"
  define k2 where "k2 = upd_thread n (\<lambda>x. x\<lparr>status := Running\<rparr>)
      (upd_queue c (remove (current_priority (threads ?k1 n)) n)
        (?k1\<lparr>ktiming := UnscheduleEvent (wakeup_event c) (thread_id (threads ?k1 n)) (ktiming ?k1),
             current_thread := (current_thread ?k1)(c \<mapsto> n)\<rparr>))"
  define k' where "k' = k2\<lparr>cpu_process := (if prev \<noteq> Some p then (cpu_process k2)(c \<mapsto> p) else cpu_process k2),
      cpu_context := (cpu_context k2)(c := ctx (threads ?k1 n)),
      cpu_thread_uro := (cpu_thread_uro k2)(c := tls_address (threads ?k1 n))\<rparr>"
  have sw: "SwitchContext c (Some n) k = Some k'"
    unfolding SwitchContext_def Let_def option.case s p k'_def k2_def prev_def by simp
  have k': "threads k' = (threads ?k1)(n := (threads ?k1 n)\<lparr>status := Running\<rparr>)" "thread_list k' = thread_list k"
      "current_thread k' c = Some n" "cpu_context k' c = ctx (threads ?k1 n)"
      "ready_queue k' c = remove (current_priority (threads ?k1 n)) n (ready_queue ?k1 c)"
    by (simp_all add: k'_def k2_def save_previous_frame(1,2))
  have "core_inv k' c"
    using inv1(1) _ _ s _ k'(5,1) _ k'(3)
    by (rule take_up_inv) (use n inv1(2) k'(2) in \<open>auto simp: save_previous_frame(1)\<close>)
  then show ?thesis using sw k' by (auto simp: fun_eq_iff)
qed

text \<open>
  Property (C3): the scheduler. On a well-formed core, \<^verbatim>\<open>Reschedule\<close> always returns, also when the CPU limiter
  of core 1 puts threads to sleep on the way, and leaves the core well formed. The thread that runs
  afterwards is eligible and no eligible thread has a better priority; the current thread goes on unless
  a strictly better one is ready; and the core is idle only when no thread is eligible. The registers of the
  new thread are on the CPU, those of the one that was switched away from are saved, and every
  other thread is as before, or was held back by the limiter.
\<close>

theorem Reschedule_spec:
  assumes inv: "core_inv k c" and own: "\<forall>t \<in> set (thread_list k c). owner_process (threads k t) \<noteq> None"
  shows "\<exists>k' next. Reschedule c k = Some k' \<and> core_inv k' c \<and> current_thread k' c = next \<and>
    (case next of
       None \<Rightarrow> \<forall>t. \<not> eligible k c t
     | Some n \<Rightarrow> eligible k c n \<and> status (threads k' n) = Running \<and>
         (\<forall>t. eligible k c t \<longrightarrow> current_priority (threads k n) \<le> current_priority (threads k t)) \<and>
         (\<forall>t. eligible k c t \<and> current_thread k c = Some t \<and> status (threads k t) = Running \<and>
            current_priority (threads k t) \<le> current_priority (threads k n) \<longrightarrow> n = t) \<and>
         cpu_context k' c = (if current_thread k c = next then cpu_context k c else ctx (threads k n))) \<and>
    (\<forall>t. current_thread k c = Some t \<longrightarrow> ctx (threads k' t) = cpu_context k c) \<and>
    (\<forall>t. current_thread k c \<noteq> Some t \<and> next \<noteq> Some t \<longrightarrow> threads k' t = threads k t \<or>
       \<not> eligible k c t \<and> threads k' t = (threads k t)\<lparr>status := WaitSleep\<rparr>)"
proof -
  obtain nx k1 where pop: "PopNextReadyThread c k = Some (nx, k1)" and hb: "held_back k c k1"
    and nx: "next_spec k c nx"
    and inv1: "core_inv_but (case nx of None \<Rightarrow> None | Some n \<Rightarrow> if status (threads k n) = Ready then nx else None) k1 c"
    using PopNextReadyThread_spec [OF inv] by blast
  have fr: "thread_list k1 = thread_list k" "current_thread k1 = current_thread k" "cpu_context k1 = cpu_context k"
    "\<And>t. threads k1 t = threads k t \<or> \<not> eligible k c t \<and> threads k1 t = (threads k t)\<lparr>status := WaitSleep\<rparr>"
    using hb by (auto simp: held_back_def)
  have ctx1: "ctx (threads (save_previous c k1) t) = cpu_context k c" if "current_thread k c = Some t" for t
    using that fr(2,3) by (simp add: save_previous_frame saved_def)
  have other: "threads (save_previous c k1) t = threads k1 t" if "current_thread k c \<noteq> Some t" for t
    using that fr(2) by (simp add: save_previous_frame)
  show ?thesis
  proof (cases nx)
    case (Some n)
    have e: "eligible k c n" using nx Some by (simp add: next_spec_def)
    then have n: "n \<in> set (thread_list k c)" "status (threads k n) \<in> {Running, Ready}" "threads k1 n = threads k n"
      using fr(4) [of n] by (auto simp: eligible_def runnable_def)
    have "core_inv_but (if status (threads k1 n) = Ready then Some n else None) k1 c"
      using inv1 n(3) unfolding Some by simp
    from SwitchContext_spec [OF this] obtain k' where k': "SwitchContext c (Some n) k1 = Some k'" "core_inv k' c"
        "current_thread k' c = Some n" "cpu_context k' c = ctx (threads (save_previous c k1) n)"
        "threads k' = (\<lambda>t. if t = n then (threads (save_previous c k1) n)\<lparr>status := Running\<rparr> else threads (save_previous c k1) t)"
      using n own fr(1) by auto
    have "Reschedule c k = Some k'" using pop Some k'(1) by (simp add: Reschedule_def)
    moreover have "cpu_context k' c = (if current_thread k c = Some n then cpu_context k c else ctx (threads k n))"
      using k'(4) ctx1 [of n] other [of n] n(3) by simp
    moreover have "ctx (threads k' t) = cpu_context k c" if "current_thread k c = Some t" for t
      using k'(5) ctx1 [OF that] by auto
    moreover have "threads k' t = threads k t \<or> \<not> eligible k c t \<and> threads k' t = (threads k t)\<lparr>status := WaitSleep\<rparr>"
      if "current_thread k c \<noteq> Some t \<and> Some n \<noteq> Some t" for t
      using that other [of t] fr(4) [of t] k'(5) by simp
    ultimately show ?thesis
      using k'(2,3,5) nx e unfolding Some next_spec_def option.case
      by (intro exI [of _ k'] exI [of _ "Some n"]) (simp add: Some)
  next
    case None
    define k' where "k' = (save_previous c k1)\<lparr>current_thread := (current_thread (save_previous c k1))(c := None)\<rparr>"
    have sw: "Reschedule c k = Some (if current_thread k c = None then k1 else k')"
      using pop None by (simp add: Reschedule_def SwitchContext_def k'_def Let_def)
    have ne: "\<forall>t. \<not> eligible k c t" using nx None by (simp add: next_spec_def)
    have inv1: "core_inv k1 c" using inv1 None by simp
    have "core_inv k' c"
      unfolding k'_def using save_previous_inv [OF inv1]
      by (intro core_inv_idle) (simp_all add: save_previous_frame(1))
    then have "core_inv (if current_thread k c = None then k1 else k') c" using inv1 by simp
    moreover have "threads k' = threads (save_previous c k1)" "current_thread k' c = None" by (simp_all add: k'_def)
    ultimately show ?thesis
      using sw ne fr other ctx1
      by (intro exI [of _ "if current_thread k c = None then k1 else k'"] exI [of _ "None :: nat option"]) auto
  qed
qed

section \<open>The state of all cores\<close>

text \<open>A kernel without threads, with the timing system of \<open>n\<close> cores.\<close>

definition fresh_kernel :: "nat \<Rightarrow> kernel" where
  "fresh_kernel n =
     \<lparr>threads = (\<lambda>_. \<lparr>thread_id = 0, core_id = 0, status = Dormant, nominal_priority = 0, current_priority = 0,
        last_running_ticks = 0, tls_address = 0, held_mutexes = [], pending_mutexes = [], owner_process = None,
        resource_limit_category = Application, wait_objects = [], wait_address = 0, wakeup_callback = None,
        unschedule_mode = 0, ctx = (\<lambda>_. 0)\<rparr>),
      kind = (\<lambda>_. KEvent), waiting_threads = (\<lambda>_. []), hle_notifier = (\<lambda>_. False),
      mutexes = (\<lambda>_. \<lparr>lock_count = 0, mtx_priority = 0, holding_thread = None\<rparr>),
      semaphores = (\<lambda>_. \<lparr>max_count = 0, available_count = 0\<rparr>),
      events = (\<lambda>_. \<lparr>ev_reset_type = OneShot, ev_signaled = False\<rparr>),
      ktimers = (\<lambda>_. \<lparr>tm_reset_type = OneShot, tm_signaled = False, initial_delay = 0, interval_delay = 0, callback_id = 0\<rparr>),
      ksessions = (\<lambda>_. \<lparr>ses_client = False, ses_server = False, ses_port = None, hle_handler = None, pending_requesting_threads = [], currently_handling = None\<rparr>),
      pending_sessions = (\<lambda>_. []), port_handler = (\<lambda>_. None), connected_sessions = (\<lambda>_. []),
      client_ports = (\<lambda>_. \<lparr>cp_server_port = 0, max_sessions = 0, active_sessions = 0\<rparr>), named_ports = (\<lambda>_. None), ipc_translations = [],
      arbiter_waiting = (\<lambda>_. []), thread_list = (\<lambda>_. []), ready_queue = (\<lambda>_. ThreadQueueList (ThreadPrioLowest + 1)),
      current_thread = (\<lambda>_. None), wakeup_callback_table = (\<lambda>_ _. None), cpu_context = (\<lambda>_ _. 0),
      cpu_thread_uro = (\<lambda>_. 0), cpu_process = (\<lambda>_. None), current_schedule_mode = Multi,
      limiters = (\<lambda>_. \<lparr>lim_ready = False, lim_active = False, app_cpu_time = PREEMPTION_DISABLED, curr_state = APP,
        sleeping_thread_ids = []\<rparr>),
      app_share = (\<lambda>x. base_tick_interval * x div 100),
      resource_limits = ResourceLimitList False 0, next_thread_id = 1, next_timer_callback_id = 0,
      timer_callback_table = (\<lambda>_. None), tls_used = (\<lambda>_. []), hle_notified = [], reschedule_pending = False,
      ktiming = Timing n (\<lambda>t. t) 0\<rparr>"

definition sched_inv :: "kernel \<Rightarrow> bool" where
  "sched_inv k \<longleftrightarrow> (\<forall>c. core_inv k c)"

lemma sched_inv_fresh: "sched_inv (fresh_kernel n)"
  by (simp add: sched_inv_def core_inv_but_def fresh_kernel_def tq_inv_fresh)

lemma sched_invD: "sched_inv k \<Longrightarrow> core_inv k c"
  by (simp add: sched_inv_def)

text \<open>A thread is registered with the manager of its core.\<close>

definition registered :: "kernel \<Rightarrow> nat \<Rightarrow> bool" where
  "registered k t \<longleftrightarrow> t \<in> set (thread_list k (core_id (threads k t)))"

lemma registered_in_list: "sched_inv k \<Longrightarrow> t \<in> set (thread_list k c) \<Longrightarrow> registered k t"
  using core_invD(3) [OF sched_invD] by (simp add: registered_def)

text \<open>Changes of one thread and of the queue of its core.\<close>

lemma sched_inv_change:
  assumes inv: "sched_inv k"
    and eq: "thread_list k' = thread_list k" "current_thread k' = current_thread k"
    and others: "\<And>u. u \<noteq> t \<Longrightarrow> core_id (threads k' u) = core_id (threads k u) \<and>
      status (threads k' u) = status (threads k u) \<and> current_priority (threads k' u) = current_priority (threads k u)"
    and core: "core_id (threads k' t) = core_id (threads k t)"
    and queue: "\<And>c. c \<noteq> core_id (threads k t) \<Longrightarrow> ready_queue k' c = ready_queue k c"
    and here: "core_inv k' (core_id (threads k t))"
  shows "sched_inv k'"
  unfolding sched_inv_def
proof
  fix c show "core_inv k' c"
  proof (cases "c = core_id (threads k t)")
    case False
    then show ?thesis
      using core_inv_other [OF sched_invD [OF inv], of t c k'] eq others queue [OF False] by simp
  qed (use here in simp)
qed

lemma move_or_prepare:
  assumes "tq_inv q" "length (queues q) = 64" "p < 64" "old < 64"
    and q': "q' = (if ready then move t old p q else prepare p q)"
  shows "tq_inv q'" "length (queues q') = 64" "prepared q' = (prepared q)(p := True)"
    "level q' = (if ready then (let l = (level q)(old := filter (\<lambda>y. y \<noteq> t) (level q old)) in l(p := l p @ [t])) else level q)"
  using move_spec [of q old p t] prepare_spec [of q p] assms
  by (auto simp: move_def remove_def)

text \<open>Setting the current priority, the common part of \<^verbatim>\<open>SetPriority\<close> and \<^verbatim>\<open>BoostPriority\<close>.\<close>

lemma set_priority_inv:
  assumes inv: "sched_inv k" and t: "registered k t" and p: "p \<le> ThreadPrioLowest"
    and k': "k' = upd_thread t f (upd_queue (core_id (threads k t))
        (if status (threads k t) = Ready then move t (current_priority (threads k t)) p else prepare p) k)"
    and f: "\<And>x. core_id (f x) = core_id x" "\<And>x. status (f x) = status x" "\<And>x. current_priority (f x) = p"
  shows "sched_inv k'"
proof (rule sched_inv_change [OF inv])
  let ?c = "core_id (threads k t)" let ?o = "current_priority (threads k t)"
  note I = core_invD [OF sched_invD [OF inv, of ?c]]
  have t: "t \<in> set (thread_list k ?c)" using t by (simp add: registered_def)
  have p: "p < 64" using p by (simp add: ThreadPrioLowest_def)
  have q': "ready_queue k' ?c = (if status (threads k t) = Ready then move t ?o p (ready_queue k ?c) else prepare p (ready_queue k ?c))"
    by (simp add: k')
  note q = move_or_prepare [OF I(1,2) p I(5) [OF t] q']
  have only: "t \<in> set (level (ready_queue k ?c) i) \<longleftrightarrow> status (threads k t) = Ready \<and> i = ?o" for i
    using I(6) [of t i] I(7) [OF t] by auto
  show "core_inv k' ?c"
  proof (rule core_inv_change [OF sched_invD [OF inv], where t = t])
    show "filter (\<lambda>u. u \<noteq> t) (level (ready_queue k' ?c) i) = filter (\<lambda>u. u \<noteq> t) (level (ready_queue k ?c) i)" for i
      unfolding q(4) by (simp add: Let_def)
    show "distinct (level (ready_queue k' ?c) i)" for i
      unfolding q(4) using I(8) [of i] I(8) [of p] only by (auto simp: Let_def)
    show "t \<in> set (level (ready_queue k' ?c) i) \<longleftrightarrow> t \<in> set (thread_list k ?c) \<and>
        status (threads k' t) = Ready \<and> None \<noteq> Some t \<and> i = current_priority (threads k' t)" for i
      unfolding q(4) using only [of i] only [of p] t f by (auto simp: Let_def k')
    show "current_thread k' ?c = Some u" if "u \<in> set (thread_list k ?c)" "status (threads k' u) = Running" for u
      using that I(9) [of u] f by (auto simp: k' split: if_splits)
    show "u \<in> set (thread_list k ?c)" if "current_thread k' ?c = Some u" "status (threads k' u) = Running" for u
      using that I(10) [of u] f by (auto simp: k' split: if_splits)
  qed (use q I(11) f in \<open>auto simp: k'\<close>)
qed (auto simp: k' f)

lemma BoostPriority_inv:
  "sched_inv k \<Longrightarrow> registered k t \<Longrightarrow> p \<le> ThreadPrioLowest \<Longrightarrow> sched_inv (BoostPriority p t k)"
  by (rule set_priority_inv [of k t p "BoostPriority p t k" "\<lambda>x. x\<lparr>current_priority := p\<rparr>"]) (simp_all add: BoostPriority_def Let_def)

lemma SetPriority_inv:
  "sched_inv k \<Longrightarrow> registered k t \<Longrightarrow> SetPriority p t k = Some k' \<Longrightarrow> sched_inv k'"
  by (rule set_priority_inv [of k t p k' "\<lambda>x. x\<lparr>nominal_priority := p, current_priority := p\<rparr>"]) (auto simp: SetPriority_def Let_def split: if_splits)

lemma sched_inv_cong:
  assumes "sched_inv k" "ready_queue k' = ready_queue k" "thread_list k' = thread_list k" "current_thread k' = current_thread k"
    "\<And>u. core_id (threads k' u) = core_id (threads k u) \<and> status (threads k' u) = status (threads k u) \<and>
       current_priority (threads k' u) = current_priority (threads k u)"
  shows "sched_inv k'"
  using assms(1) core_inv_cong [of k' _ k] assms(2-5) unfolding sched_inv_def by (metis (full_types))

text \<open>A thread that is not in the queue goes to sleep, or dies.\<close>

lemma sleep_inv:
  assumes inv: "sched_inv k" and t: "status (threads k t) \<noteq> Ready" and s: "s \<noteq> Ready" "s \<noteq> Running"
    and k': "thread_list k' = thread_list k" "current_thread k' = current_thread k" "ready_queue k' = ready_queue k"
      "\<And>u. core_id (threads k' u) = core_id (threads k u) \<and> current_priority (threads k' u) = current_priority (threads k u)"
      "\<And>u. status (threads k' u) = (if u = t then s else status (threads k u))"
  shows "sched_inv k'"
proof (rule sched_inv_change [OF inv, where t = t])
  let ?c = "core_id (threads k t)"
  note I = core_invD [OF sched_invD [OF inv, of ?c]]
  show "core_inv k' ?c"
  proof (rule core_inv_change [OF sched_invD [OF inv], where t = t])
    show "t \<in> set (level (ready_queue k' ?c) p) \<longleftrightarrow> t \<in> set (thread_list k ?c) \<and>
        status (threads k' t) = Ready \<and> None \<noteq> Some t \<and> p = current_priority (threads k' t)" for p
      using I(6) [of t p] t s k' by auto
    show "current_thread k' ?c = Some u" if "u \<in> set (thread_list k ?c)" "status (threads k' u) = Running" for u
      using that I(9) [of u] s k' by (auto split: if_splits)
    show "u \<in> set (thread_list k ?c)" if "current_thread k' ?c = Some u" "status (threads k' u) = Running" for u
      using that I(10) [of u] s k' by (auto split: if_splits)
  qed (use k' I(1,2,4,8,11) in auto)
qed (use k' in auto)

lemma ResumeFromWait_spec:
  assumes inv: "sched_inv k" and t: "registered k t" and w: "wait_objects (threads k t) = []"
    and cb: "status (threads k t) = Ready \<Longrightarrow> wakeup_callback (threads k t) = None"
  shows "\<exists>k'. ResumeFromWait t k = Some k' \<and> sched_inv k' \<and>
    k' = (if status (threads k t) \<in> {Ready, Running, Dead} then k
          else PrepareReschedule (upd_thread t (\<lambda>x. x\<lparr>wakeup_callback := None, status := Ready\<rparr>)
                 (upd_queue (core_id (threads k t)) (push_back (current_priority (threads k t)) t) k)))"
proof (cases "status (threads k t) \<in> {Ready, Running, Dead}")
  case True
  then show ?thesis using inv w cb by (auto simp: ResumeFromWait_def Let_def)
next
  case False
  let ?c = "core_id (threads k t)" let ?p = "current_priority (threads k t)"
  define k' where "k' = PrepareReschedule (upd_thread t (\<lambda>x. x\<lparr>wakeup_callback := None, status := Ready\<rparr>)
                 (upd_queue ?c (push_back ?p t) k))"
  have "ResumeFromWait t k = Some k'"
    using False w by (auto simp: ResumeFromWait_def Let_def k'_def split: ThreadStatus.splits)
  moreover have "sched_inv k'"
  proof (rule sched_inv_change [OF inv, where t = t])
    note I = core_invD [OF sched_invD [OF inv, of ?c]]
    have t: "t \<in> set (thread_list k ?c)" using t by (simp add: registered_def)
    have p: "?p < length (queues (ready_queue k ?c))" using I(2) I(5) [OF t] by simp
    have q: "ready_queue k' ?c = push_back ?p t (ready_queue k ?c)" by (simp add: k'_def)
    have lv: "level (ready_queue k' ?c) = (level (ready_queue k ?c))(?p := level (ready_queue k ?c) ?p @ [t])"
      unfolding q push_back_def using p by (simp add: level_def)
    have notin: "t \<notin> set (level (ready_queue k ?c) i)" for i using I(6) [of t i] False by auto
    show "core_inv k' ?c"
    proof (rule core_inv_change [OF sched_invD [OF inv], where t = t])
      show "tq_inv (ready_queue k' ?c)" unfolding q by (rule push_back_inv [OF I(1) I(4) [OF t]])
      show "filter (\<lambda>u. u \<noteq> t) (level (ready_queue k' ?c) i) = filter (\<lambda>u. u \<noteq> t) (level (ready_queue k ?c) i)" for i
        unfolding lv by simp
      show "distinct (level (ready_queue k' ?c) i)" for i
        unfolding lv using I(8) [of i] I(8) [of ?p] notin by auto
      show "t \<in> set (level (ready_queue k' ?c) i) \<longleftrightarrow> t \<in> set (thread_list k ?c) \<and>
          status (threads k' t) = Ready \<and> None \<noteq> Some t \<and> i = current_priority (threads k' t)" for i
        unfolding lv using notin [of i] t by (auto simp: k'_def)
      show "current_thread k' ?c = Some u" if "u \<in> set (thread_list k ?c)" "status (threads k' u) = Running" for u
        using that I(9) [of u] by (auto simp: k'_def split: if_splits)
      show "u \<in> set (thread_list k ?c)" if "current_thread k' ?c = Some u" "status (threads k' u) = Running" for u
        using that I(10) [of u] by (auto simp: k'_def split: if_splits)
    qed (use I(2,4,11) in \<open>auto simp: k'_def\<close>)
  qed (auto simp: k'_def)
  ultimately show ?thesis using False by (simp add: k'_def)
qed

lemma CreateThread_effect:
  assumes inv: "sched_inv k" and new: "\<forall>c. t \<notin> set (thread_list k c) \<and> current_thread k c \<noteq> Some t"
    and args: "p \<le> ThreadPrioLowest" "c < n" "n \<le> 4"
  shows "case CreateThread n t entry p arg (int c) stack process category ready True tls k of
      Ok k' t' \<Rightarrow> t' = t \<and> sched_inv k' \<and> registered k' t \<and> current_priority (threads k' t) = p \<and>
        level (ready_queue k' c) p = level (ready_queue k c) p @ (if ready then [t] else []) \<and>
        status (threads k' t) = (if ready then Ready else Dormant) \<and>
        ctx (threads k' t) 0 = arg \<and> ctx (threads k' t) 15 = entry \<and> tls = Inr (tls_address (threads k' t))
    | Err k' e \<Rightarrow> tls = Inl e \<and> t \<in> set (thread_list k' c) \<and> status (threads k' t) = Dormant
    | Crash \<Rightarrow> False"
proof (cases tls)
  case (Inl e)
  then show ?thesis using args by (simp add: CreateThread_def Let_def)
next
  case (Inr a)
  define k' where "k' = (case CreateThread n t entry p arg (int c) stack process category ready True (Inr a) k of Ok s _ \<Rightarrow> s)"
  have ok: "CreateThread n t entry p arg (int c) stack process category ready True (Inr a) k = Ok k' t"
    using args by (simp add: CreateThread_def Let_def k'_def)
  let ?q = "prepare p (ready_queue k c)"
  note I = core_invD [OF sched_invD [OF inv]]
  have p: "p < length (queues (ready_queue k c))" using I(2) args by (simp add: ThreadPrioLowest_def)
  have q: "tq_inv ?q" "prepared ?q = (prepared (ready_queue k c))(p := True)" "length (queues ?q) = 64"
    using prepare_spec [OF I(1) p] I(2) by simp_all
  have th: "core_id (threads k' t) = c" "current_priority (threads k' t) = p" "tls_address (threads k' t) = a"
      "status (threads k' t) = (if ready then Ready else Dormant)"
      "ctx (threads k' t) 0 = arg" "ctx (threads k' t) 15 = entry" "\<And>u. u \<noteq> t \<Longrightarrow> threads k' u = threads k u"
      "thread_list k' = (thread_list k)(c := thread_list k c @ [t])" "current_thread k' = current_thread k"
      "ready_queue k' = (ready_queue k)(c := if ready then push_back p t ?q else ?q)"
    using args by (auto simp: k'_def CreateThread_def Let_def ResetThreadContext_def)
  have "q_data (queues ?q ! p) = level (ready_queue k c) p"
    using p fun_cong [OF prepare_level [of p "ready_queue k c"], of p] by (simp add: level_def del: prepare_level)
  then have lv: "level (ready_queue k' c) = (level (ready_queue k c))(p := level (ready_queue k c) p @ (if ready then [t] else []))"
    using p by (simp add: th(10) push_back_def)
  have prep: "prepared (ready_queue k' c) = (prepared (ready_queue k c))(p := True)" using q by (simp add: th(10))
  have notin: "t \<notin> set (level (ready_queue k c) i)" for i using I(6) [of t c i] new by blast
  have "core_inv k' c"
  proof (rule core_invI)
    show "tq_inv (ready_queue k' c)" "length (queues (ready_queue k' c)) = 64"
      using q by (simp_all add: th(10) push_back_inv)
    fix u
    show "core_id (threads k' u) = c" if "u \<in> set (thread_list k' c)"
      using that I(3) [of u c] th by (cases "u = t") auto
    show "prepared (ready_queue k' c) (current_priority (threads k' u))" if "u \<in> set (thread_list k' c)"
      using that I(4) [of u c] th(2,7,8) unfolding prep by (cases "u = t") auto
    show "u \<in> set (thread_list k' c) \<and> status (threads k' u) = Ready \<and> current_priority (threads k' u) = i \<and> None \<noteq> Some u"
      if "u \<in> set (level (ready_queue k' c) i)" for i
      using that I(6) [of u c i] th(2,4,7,8) notin [of i] unfolding lv
      by (cases "u = t") (auto split: if_splits)
    show "u \<in> set (level (ready_queue k' c) (current_priority (threads k' u)))"
      if "u \<in> set (thread_list k' c)" "status (threads k' u) = Ready"
      using that I(7) [of u c] th(2,4,7,8) unfolding lv by (cases "u = t") (auto split: if_splits)
    show "distinct (level (ready_queue k' c) i)" for i using I(8) [of c i] notin [of i] unfolding lv by auto
    show "current_thread k' c = Some u" if "u \<in> set (thread_list k' c)" "status (threads k' u) = Running"
      using that I(9) [of u c] th(4,7,8,9) by (cases "u = t") (auto split: if_splits)
    show "u \<in> set (thread_list k' c)" if "current_thread k' c = Some u" "status (threads k' u) = Running"
      using that I(10) [of c u] th(7-9) new by (cases "u = t") auto
    show "core_id (threads k' u) = c" if "current_thread k' c = Some u"
      using that I(11) [of c u] th(7,9) new by (cases "u = t") auto
  qed
  moreover have "core_inv k' c'" if "c' \<noteq> c" for c'
  proof -
    have "threads k' u = threads k u" if "u \<in> set (thread_list k c') \<or> current_thread k c' = Some u" for u
      using that new th(7) [of u] by blast
    then have "core_inv k' c' \<longleftrightarrow> core_inv k c'"
      using \<open>c' \<noteq> c\<close> by (intro core_inv_cong) (simp_all add: th(8-10))
    then show ?thesis using sched_invD [OF inv] by simp
  qed
  ultimately have "sched_inv k'" unfolding sched_inv_def by metis
  then show ?thesis using ok th lv Inr by (simp add: registered_def)
qed

text \<open>
  Property: creating a thread. When the arguments are valid and the storage of the thread could be
  allocated, the scheduler's invariant is kept and the new thread is at the back of its level, or
  dormant when it is not to be made ready. When the allocation fails the error is returned, but the thread
  has already been entered into the list of its core, where it stays dormant for ever.
\<close>

theorem CreateThread_spec:
  assumes inv: "sched_inv k" and new: "\<forall>c. t \<notin> set (thread_list k c) \<and> current_thread k c \<noteq> Some t"
    and args: "p \<le> ThreadPrioLowest" "c < n" "n \<le> 4"
  shows "case CreateThread n t entry p arg (int c) stack process category ready True tls k of
      Ok k' t' \<Rightarrow> t' = t \<and> sched_inv k' \<and> registered k' t \<and> current_priority (threads k' t) = p \<and>
        level (ready_queue k' c) p = level (ready_queue k c) p @ (if ready then [t] else []) \<and>
        status (threads k' t) = (if ready then Ready else Dormant) \<and>
        ctx (threads k' t) 0 = arg \<and> ctx (threads k' t) 15 = entry \<and> tls = Inr (tls_address (threads k' t))
    | Err k' e \<Rightarrow> tls = Inl e \<and> t \<in> set (thread_list k' c) \<and> status (threads k' t) = Dormant
    | Crash \<Rightarrow> False"
  using assms by (rule CreateThread_effect)

text \<open>Two threads of core 0: thread 1 with priority 30, thread 2 with priority 20.\<close>

definition start_thread :: "nat \<Rightarrow> nat \<Rightarrow> kernel \<Rightarrow> kernel" where
  "start_thread t p k = (case CreateThread 2 t 0x100000 p 0 0 0x10000000 7 Application True True (Inr 0x1FF82000) k of
     Ok k' _ \<Rightarrow> k' | Err k' _ \<Rightarrow> k' | Crash \<Rightarrow> k)"

definition sample_kernel :: kernel where
  "sample_kernel = start_thread 2 20 (start_thread 1 30 (fresh_kernel 2))"

lemma start_thread_frame:
  assumes "p \<le> ThreadPrioLowest"
  shows "thread_list (start_thread t p k) = (thread_list k)(0 := thread_list k 0 @ [t])"
    "current_thread (start_thread t p k) = current_thread k"
    "u \<noteq> t \<Longrightarrow> threads (start_thread t p k) u = threads k u"
    "status (threads (start_thread t p k) t) = Ready" "current_priority (threads (start_thread t p k) t) = p"
    "owner_process (threads (start_thread t p k) t) = Some 7" "unschedule_mode (threads (start_thread t p k) t) = 0"
  using assms by (simp_all add: start_thread_def CreateThread_def Let_def)

lemma start_thread_inv:
  assumes "sched_inv k" "\<forall>c. t \<notin> set (thread_list k c) \<and> current_thread k c \<noteq> Some t" "p \<le> ThreadPrioLowest"
  shows "sched_inv (start_thread t p k)"
  using CreateThread_effect [OF assms, where c = 0 and n = 2 and entry = "0x100000" and arg = 0 and stack = "0x10000000"
      and process = 7 and category = Application and ready = True and tls = "Inr 0x1FF82000"] assms(3)
  by (auto simp: start_thread_def split: outcome.splits)

lemma prio_bounds [simp]: "30 \<le> ThreadPrioLowest" "20 \<le> ThreadPrioLowest"
  by (simp_all add: ThreadPrioLowest_def)

lemma sample_kernel_inv: "sched_inv sample_kernel"
  unfolding sample_kernel_def
  by (intro start_thread_inv sched_inv_fresh) (simp_all add: start_thread_frame fresh_kernel_def)

lemma sample_kernel_threads:
  "thread_list sample_kernel = (\<lambda>_. [])(0 := [1, 2])" "current_thread sample_kernel = (\<lambda>_. None)"
  "status (threads sample_kernel 1) = Ready" "status (threads sample_kernel 2) = Ready"
  "current_priority (threads sample_kernel 1) = 30" "current_priority (threads sample_kernel 2) = 20"
  "unschedule_mode (threads sample_kernel 1) = 0" "unschedule_mode (threads sample_kernel 2) = 0"
  "owner_process (threads sample_kernel 1) = Some 7" "owner_process (threads sample_kernel 2) = Some 7"
  unfolding sample_kernel_def
  by (simp_all add: start_thread_frame) (simp_all add: fresh_kernel_def fun_eq_iff)

theorem CreateThread_spec_witness:
  "case CreateThread 2 3 0x100000 48 0 0 0x10000000 7 Application True True (Inr 0x1FF82000) sample_kernel of
      Ok k' t' \<Rightarrow> t' = 3 \<and> level (ready_queue k' 0) 48 = level (ready_queue sample_kernel 0) 48 @ [3] \<and>
        status (threads k' 3) = Ready
    | Err k' e \<Rightarrow> False
    | Crash \<Rightarrow> False"
  using CreateThread_spec [OF sample_kernel_inv, where t = 3 and p = 48 and c = 0 and n = 2 and entry = "0x100000"
      and arg = 0 and stack = "0x10000000" and process = 7 and category = Application and ready = True
      and tls = "Inr 0x1FF82000"]
  by (simp add: sample_kernel_threads ThreadPrioLowest_def split: outcome.splits)

theorem Reschedule_spec_witness:
  "\<exists>k'. Reschedule 0 sample_kernel = Some k' \<and> current_thread k' 0 = Some 2 \<and> status (threads k' 2) = Running"
proof -
  have e: "eligible sample_kernel 0 1" "eligible sample_kernel 0 2"
    by (simp_all add: eligible_def runnable_def CanSchedule_def sample_kernel_threads [unfolded One_nat_def])
  have only: "t = 1 \<or> t = 2" if "eligible sample_kernel 0 t" for t
    using that by (auto simp: eligible_def runnable_def sample_kernel_threads)
  have "\<forall>t \<in> set (thread_list sample_kernel 0). owner_process (threads sample_kernel t) \<noteq> None"
    by (simp add: sample_kernel_threads [unfolded One_nat_def])
  from Reschedule_spec [OF sched_invD [OF sample_kernel_inv] this] obtain k' nx where
    r: "Reschedule 0 sample_kernel = Some k'" "current_thread k' 0 = nx"
    "case nx of None \<Rightarrow> \<forall>t. \<not> eligible sample_kernel 0 t
       | Some n \<Rightarrow> eligible sample_kernel 0 n \<and> status (threads k' n) = Running \<and>
         (\<forall>t. eligible sample_kernel 0 t \<longrightarrow> current_priority (threads sample_kernel n) \<le> current_priority (threads sample_kernel t))"
    by (auto split: option.splits)
  then obtain n where n: "nx = Some n" "eligible sample_kernel 0 n" "status (threads k' n) = Running"
      "current_priority (threads sample_kernel n) \<le> 20"
    using e sample_kernel_threads(6) by (cases nx) auto
  then have "n = 2" using only [of n] sample_kernel_threads(5) by auto
  with r n show ?thesis by auto
qed

end
