(* ===== verification/Wait_Object.thy ===== *)
theory Wait_Object
  imports Kernel_Thread
begin

text \<open>
  Synchronisation objects: \<^verbatim>\<open>WaitObject\<close> (\<^verbatim>\<open>src/core/hle/kernel/wait_object.cpp\<close>) with its subclasses mutex,
  semaphore, event, timer, thread, server port and server session (\<^verbatim>\<open>mutex.cpp\<close>, \<^verbatim>\<open>semaphore.cpp\<close>, \<^verbatim>\<open>event.cpp\<close>, \<^verbatim>\<open>timer.cpp\<close>,
  \<^verbatim>\<open>thread.cpp\<close>, \<^verbatim>\<open>server_port.cpp\<close>, \<^verbatim>\<open>server_session.cpp\<close>), the callbacks of \<^verbatim>\<open>svcWaitSynchronization\<close> and \<^verbatim>\<open>svcReplyAndReceive\<close>
  (\<^verbatim>\<open>svc.cpp\<close>) and the end of a thread.

  A virtual function is a case distinction on \<open>kind\<close>. The notifier of an HLE service is a flag; calling it
  appends the object to \<open>hle_notified\<close>. The other operations on ports and sessions are in \<open>Ports_Sessions\<close>.
\<close>

section \<open>Objects\<close>

definition upd_mutex :: "nat \<Rightarrow> (mutex \<Rightarrow> mutex) \<Rightarrow> kernel \<Rightarrow> kernel" where
  "upd_mutex m f k = k\<lparr>mutexes := (mutexes k)(m := f (mutexes k m))\<rparr>"

definition upd_semaphore :: "nat \<Rightarrow> (semaphore \<Rightarrow> semaphore) \<Rightarrow> kernel \<Rightarrow> kernel" where
  "upd_semaphore m f k = k\<lparr>semaphores := (semaphores k)(m := f (semaphores k m))\<rparr>"

definition upd_event :: "nat \<Rightarrow> (kevent \<Rightarrow> kevent) \<Rightarrow> kernel \<Rightarrow> kernel" where
  "upd_event m f k = k\<lparr>events := (events k)(m := f (events k m))\<rparr>"

definition upd_timer :: "nat \<Rightarrow> (ktimer \<Rightarrow> ktimer) \<Rightarrow> kernel \<Rightarrow> kernel" where
  "upd_timer m f k = k\<lparr>ktimers := (ktimers k)(m := f (ktimers k m))\<rparr>"

definition upd_waiting :: "nat \<Rightarrow> (nat list \<Rightarrow> nat list) \<Rightarrow> kernel \<Rightarrow> kernel" where
  "upd_waiting ob f k = k\<lparr>waiting_threads := (waiting_threads k)(ob := f (waiting_threads k ob))\<rparr>"

definition upd_session :: "nat \<Rightarrow> (session \<Rightarrow> session) \<Rightarrow> kernel \<Rightarrow> kernel" where
  "upd_session e f k = k\<lparr>ksessions := (ksessions k)(e := f (ksessions k e))\<rparr>"

text \<open>The virtual methods of \<^verbatim>\<open>WaitObject\<close> dispatch on the kind of the object.\<close>

definition Mutex_ShouldWait :: "nat \<Rightarrow> nat \<Rightarrow> kernel \<Rightarrow> bool" where
  "Mutex_ShouldWait m t k \<longleftrightarrow> lock_count (mutexes k m) > 0 \<and> holding_thread (mutexes k m) \<noteq> Some t"

definition Semaphore_ShouldWait :: "nat \<Rightarrow> kernel \<Rightarrow> bool" where
  "Semaphore_ShouldWait s k \<longleftrightarrow> available_count (semaphores k s) \<le> 0"

definition Event_ShouldWait :: "nat \<Rightarrow> kernel \<Rightarrow> bool" where
  "Event_ShouldWait e k \<longleftrightarrow> \<not> ev_signaled (events k e)"

definition Timer_ShouldWait :: "nat \<Rightarrow> kernel \<Rightarrow> bool" where
  "Timer_ShouldWait e k \<longleftrightarrow> \<not> tm_signaled (ktimers k e)"

definition Thread_ShouldWait :: "nat \<Rightarrow> kernel \<Rightarrow> bool" where
  "Thread_ShouldWait u k \<longleftrightarrow> status (threads k u) \<noteq> Dead"

definition ServerPort_ShouldWait :: "nat \<Rightarrow> kernel \<Rightarrow> bool" where
  "ServerPort_ShouldWait ob k \<longleftrightarrow> length (pending_sessions k ob) = 0"

definition ServerSession_ShouldWait :: "nat \<Rightarrow> kernel \<Rightarrow> bool" where
  "ServerSession_ShouldWait ob k \<longleftrightarrow>
     (if \<not> ses_client (ksessions k ob) then False
      else pending_requesting_threads (ksessions k ob) = [] \<or> currently_handling (ksessions k ob) \<noteq> None)"

declare Mutex_ShouldWait_def [simp] Semaphore_ShouldWait_def [simp] Event_ShouldWait_def [simp]
  Timer_ShouldWait_def [simp] Thread_ShouldWait_def [simp] ServerPort_ShouldWait_def [simp] ServerSession_ShouldWait_def [simp]

definition ShouldWait :: "nat \<Rightarrow> nat \<Rightarrow> kernel \<Rightarrow> bool" where
  "ShouldWait ob t k \<longleftrightarrow>
     (case kind k ob of
        KMutex \<Rightarrow> Mutex_ShouldWait ob t k
      | KSemaphore \<Rightarrow> Semaphore_ShouldWait ob k
      | KEvent \<Rightarrow> Event_ShouldWait ob k
      | KTimer \<Rightarrow> Timer_ShouldWait ob k
      | KServerPort \<Rightarrow> ServerPort_ShouldWait ob k
      | KServerSession \<Rightarrow> ServerSession_ShouldWait ob k
      | KThread u \<Rightarrow> Thread_ShouldWait u k)"

text \<open>The insertion into and removal from a \<^verbatim>\<open>flat_set\<close>.\<close>

definition set_insert :: "nat \<Rightarrow> nat list \<Rightarrow> nat list" where
  "set_insert x xs = (if x \<in> set xs then xs else insort x xs)"

definition Mutex_Acquire :: "nat \<Rightarrow> nat \<Rightarrow> kernel \<Rightarrow> kernel option" where
  "Mutex_Acquire m t k =
     (if ShouldWait m t k then None
      else let k1 = (if lock_count (mutexes k m) = 0
                     then PrepareReschedule (Thread_UpdatePriority t
                       (upd_thread t (\<lambda>x. x\<lparr>held_mutexes := set_insert m (held_mutexes x)\<rparr>)
                         (upd_mutex m (\<lambda>x. x\<lparr>mtx_priority := current_priority (threads k t), holding_thread := Some t\<rparr>) k)))
                     else k)
           in Some (upd_mutex m (\<lambda>x. x\<lparr>lock_count := s32 (lock_count x + 1)\<rparr>) k1))"

definition Semaphore_Acquire :: "nat \<Rightarrow> kernel \<Rightarrow> kernel" where
  "Semaphore_Acquire s k =
     (if available_count (semaphores k s) \<le> 0 then k
      else upd_semaphore s (\<lambda>x. x\<lparr>available_count := available_count x - 1\<rparr>) k)"

definition Event_Acquire :: "nat \<Rightarrow> nat \<Rightarrow> kernel \<Rightarrow> kernel option" where
  "Event_Acquire e t k =
     (if ShouldWait e t k then None
      else Some (if ev_reset_type (events k e) = OneShot then upd_event e (\<lambda>x. x\<lparr>ev_signaled := False\<rparr>) k else k))"

definition Timer_Acquire :: "nat \<Rightarrow> nat \<Rightarrow> kernel \<Rightarrow> kernel option" where
  "Timer_Acquire e t k =
     (if ShouldWait e t k then None
      else Some (if tm_reset_type (ktimers k e) = OneShot then upd_timer e (\<lambda>x. x\<lparr>tm_signaled := False\<rparr>) k else k))"

definition Thread_Acquire :: "nat \<Rightarrow> nat \<Rightarrow> kernel \<Rightarrow> kernel option" where
  "Thread_Acquire ob t k = (if ShouldWait ob t k then None else Some k)"

definition ServerPort_Acquire :: "nat \<Rightarrow> nat \<Rightarrow> kernel \<Rightarrow> kernel option" where
  "ServerPort_Acquire ob t k = (if ShouldWait ob t k then None else Some k)"

definition ServerSession_Acquire :: "nat \<Rightarrow> nat \<Rightarrow> kernel \<Rightarrow> kernel option" where
  "ServerSession_Acquire ob t k =
     (if ShouldWait ob t k then None
      else if \<not> ses_client (ksessions k ob) then Some k
      else if pending_requesting_threads (ksessions k ob) = [] then None
      else Some (upd_session ob (\<lambda>x. x\<lparr>currently_handling := Some (last (pending_requesting_threads x)),
                                      pending_requesting_threads := butlast (pending_requesting_threads x)\<rparr>) k))"

declare ServerPort_Acquire_def [simp] ServerSession_Acquire_def [simp]
declare Semaphore_Acquire_def [simp] Event_Acquire_def [simp] Timer_Acquire_def [simp] Thread_Acquire_def [simp]

definition Acquire :: "nat \<Rightarrow> nat \<Rightarrow> kernel \<Rightarrow> kernel option" where
  "Acquire ob t k =
     (case kind k ob of
        KMutex \<Rightarrow> Mutex_Acquire ob t k
      | KSemaphore \<Rightarrow> Some (Semaphore_Acquire ob k)
      | KEvent \<Rightarrow> Event_Acquire ob t k
      | KTimer \<Rightarrow> Timer_Acquire ob t k
      | KServerPort \<Rightarrow> ServerPort_Acquire ob t k
      | KServerSession \<Rightarrow> ServerSession_Acquire ob t k
      | KThread u \<Rightarrow> Thread_Acquire ob t k)"

definition Mutex_UpdatePriority :: "nat \<Rightarrow> kernel \<Rightarrow> kernel" where
  "Mutex_UpdatePriority m k =
     (case holding_thread (mutexes k m) of
        None \<Rightarrow> k
      | Some h \<Rightarrow>
          let best = best_of ThreadPrioLowest (map (\<lambda>t. current_priority (threads k t)) (waiting_threads k m))
          in if best \<noteq> mtx_priority (mutexes k m)
             then Thread_UpdatePriority h (upd_mutex m (\<lambda>x. x\<lparr>mtx_priority := best\<rparr>) k)
             else k)"

text \<open>What \<^verbatim>\<open>Mutex::AddWaitingThread\<close> and \<^verbatim>\<open>Mutex::RemoveWaitingThread\<close> do after the method of the base class.\<close>

definition mutex_pend :: "nat \<Rightarrow> nat \<Rightarrow> kernel \<Rightarrow> kernel" where
  "mutex_pend m t k = Mutex_UpdatePriority m (upd_thread t (\<lambda>x. x\<lparr>pending_mutexes := set_insert m (pending_mutexes x)\<rparr>) k)"

definition mutex_unpend :: "nat \<Rightarrow> nat \<Rightarrow> kernel \<Rightarrow> kernel" where
  "mutex_unpend m t k = Mutex_UpdatePriority m (upd_thread t (\<lambda>x. x\<lparr>pending_mutexes := remove1 m (pending_mutexes x)\<rparr>) k)"

declare mutex_pend_def [simp] mutex_unpend_def [simp]

definition AddWaitingThread :: "nat \<Rightarrow> nat \<Rightarrow> kernel \<Rightarrow> kernel" where
  "AddWaitingThread ob t k =
     (let k1 = upd_waiting ob (\<lambda>ws. if t \<in> set ws then ws else ws @ [t]) k
      in if kind k ob = KMutex then mutex_pend ob t k1 else k1)"

definition RemoveWaitingThread :: "nat \<Rightarrow> nat \<Rightarrow> kernel \<Rightarrow> kernel" where
  "RemoveWaitingThread ob t k =
     (let k1 = upd_waiting ob (remove1 t) k
      in if kind k ob = KMutex then mutex_unpend ob t k1 else k1)"

section \<open>Waking up\<close>

definition can_wake :: "nat \<Rightarrow> kernel \<Rightarrow> nat \<Rightarrow> bool" where
  "can_wake ob k t \<longleftrightarrow> \<not> ShouldWait ob t k \<and>
     (status (threads k t) = WaitSynchAll \<longrightarrow> (\<forall>ob' \<in> set (wait_objects (threads k t)). \<not> ShouldWait ob' t k))"

text \<open>The loop of \<^verbatim>\<open>GetHighestPriorityReadyThread\<close> over the waiting threads.\<close>

fun highest_loop :: "nat \<Rightarrow> kernel \<Rightarrow> nat option \<Rightarrow> nat \<Rightarrow> nat list \<Rightarrow> nat option option" where
  "highest_loop ob k candidate candidate_priority [] = Some candidate"
| "highest_loop ob k candidate candidate_priority (t # ts) =
     (if status (threads k t) \<notin> {WaitSynchAny, WaitSynchAll, WaitHleEvent} then None
      else if current_priority (threads k t) \<ge> candidate_priority \<or> \<not> can_wake ob k t
      then highest_loop ob k candidate candidate_priority ts
      else highest_loop ob k (Some t) (current_priority (threads k t)) ts)"

definition GetHighestPriorityReadyThread :: "nat \<Rightarrow> kernel \<Rightarrow> nat option option" where
  "GetHighestPriorityReadyThread ob k = highest_loop ob k None (ThreadPrioLowest + 1) (waiting_threads k ob)"

fun acquire_all :: "nat list \<Rightarrow> nat \<Rightarrow> kernel \<Rightarrow> kernel option" where
  "acquire_all [] t k = Some k"
| "acquire_all (ob # obs) t k = do { k1 \<leftarrow> Acquire ob t k; acquire_all obs t k1 }"

text \<open>
  \<^verbatim>\<open>ReceiveIPCRequest\<close> for the thread \<open>t\<close>. The translation of the command buffer (\<open>IPC_Translate\<close>) works on the memory and the handles of the two
  processes, which are no part of this state, so the call is recorded in \<open>ipc_translations\<close>; a translation that fails ends in a failed assertion.
\<close>

definition ReceiveIPCRequest :: "nat \<Rightarrow> nat \<Rightarrow> kernel \<Rightarrow> (u32 \<times> kernel) option" where
  "ReceiveIPCRequest ss t k =
     (if \<not> ses_client (ksessions k ss) then Some (ResultSessionClosed, k)
      else case currently_handling (ksessions k ss) of
             None \<Rightarrow> None
           | Some c \<Rightarrow> Some (ResultSuccess, k\<lparr>ipc_translations := ipc_translations k @ [(ss, c, t, False)]\<rparr>))"

definition ipc_wakeup :: "nat \<Rightarrow> nat \<Rightarrow> kernel \<Rightarrow> kernel option" where
  "ipc_wakeup ob t k =
     (if status (threads k t) \<noteq> WaitSynchAny then None
      else do { (result, k1) \<leftarrow> (if kind k ob = KServerSession then ReceiveIPCRequest ob t k else Some (ResultSuccess, k));
                let k2 = SetWaitSynchronizationResult result t k1;
                i \<leftarrow> GetWaitObjectIndex ob t k2;
                Some (SetWaitSynchronizationOutput i t k2) })"

fun WakeUp :: "WakeupCallback \<Rightarrow> ThreadWakeupReason \<Rightarrow> nat \<Rightarrow> nat option \<Rightarrow> kernel \<Rightarrow> kernel option" where
  "WakeUp (SyncCallback do_output) WR_Timeout t ob k = Some (SetWaitSynchronizationResult ResultTimeout t k)"
| "WakeUp (SyncCallback do_output) WR_Signal t ob k =
     (let k1 = SetWaitSynchronizationResult ResultSuccess t k
      in if do_output
         then do { i \<leftarrow> GetWaitObjectIndex (the ob) t k1; Some (SetWaitSynchronizationOutput i t k1) }
         else Some k1)"
| "WakeUp IpcCallback WR_Signal t ob k = ipc_wakeup (the ob) t k"
| "WakeUp IpcCallback WR_Timeout t ob k = None"
| "WakeUp (ArbiterCallback a) WR_Timeout t ob k =
     Some (k\<lparr>arbiter_waiting := (arbiter_waiting k)(a := removeAll t (arbiter_waiting k a))\<rparr>)"
| "WakeUp (ArbiterCallback a) WR_Signal t ob k = None"

definition run_callback :: "ThreadWakeupReason \<Rightarrow> nat \<Rightarrow> nat option \<Rightarrow> kernel \<Rightarrow> kernel option" where
  "run_callback reason t ob k =
     (case wakeup_callback (threads k t) of None \<Rightarrow> Some k | Some cb \<Rightarrow> WakeUp cb reason t ob k)"

text \<open>Take a thread off the lists of all the objects it waits for.\<close>

definition clear_wait_objects :: "nat \<Rightarrow> kernel \<Rightarrow> kernel" where
  "clear_wait_objects t k =
     upd_thread t (\<lambda>x. x\<lparr>wait_objects := []\<rparr>)
       (fold (\<lambda>ob. RemoveWaitingThread ob t) (wait_objects (threads k t)) k)"

definition wake_one :: "nat \<Rightarrow> nat \<Rightarrow> kernel \<Rightarrow> kernel option" where
  "wake_one ob t k =
     do { k1 \<leftarrow> (if \<not> IsSleepingOnWaitAll t k then Acquire ob t k
                else acquire_all (wait_objects (threads k t)) t k);
          k2 \<leftarrow> run_callback WR_Signal t (Some ob) k1;
          ResumeFromWait t (clear_wait_objects t k2) }"

partial_function (option) wakeup_loop :: "nat \<Rightarrow> kernel \<Rightarrow> kernel option" where
  "wakeup_loop ob k =
     do { next \<leftarrow> GetHighestPriorityReadyThread ob k;
          case next of
            None \<Rightarrow> Some k
          | Some t \<Rightarrow> do { k1 \<leftarrow> wake_one ob t k; wakeup_loop ob k1 } }"

text \<open>What \<^verbatim>\<open>Event::WakeupAllWaitingThreads\<close> and \<^verbatim>\<open>Timer::WakeupAllWaitingThreads\<close> do after the method of the base class.\<close>

definition event_pulse :: "nat \<Rightarrow> kernel \<Rightarrow> kernel" where
  "event_pulse e k = (if ev_reset_type (events k e) = Pulse then upd_event e (\<lambda>x. x\<lparr>ev_signaled := False\<rparr>) k else k)"

definition timer_pulse :: "nat \<Rightarrow> kernel \<Rightarrow> kernel" where
  "timer_pulse e k = (if tm_reset_type (ktimers k e) = Pulse then upd_timer e (\<lambda>x. x\<lparr>tm_signaled := False\<rparr>) k else k)"

declare event_pulse_def [simp] timer_pulse_def [simp]

definition WakeupAllWaitingThreads :: "nat \<Rightarrow> kernel \<Rightarrow> kernel option" where
  "WakeupAllWaitingThreads ob k =
     do { k1 \<leftarrow> wakeup_loop ob k;
          let k2 = (if hle_notifier k1 ob then k1\<lparr>hle_notified := hle_notified k1 @ [ob]\<rparr> else k1)
          in Some (case kind k2 ob of KEvent \<Rightarrow> event_pulse ob k2 | KTimer \<Rightarrow> timer_pulse ob k2 | _ \<Rightarrow> k2) }"

section \<open>Mutexes, semaphores, events\<close>

text \<open>An operation that returns a \<^verbatim>\<open>Result\<close> returns it with the new state.\<close>

definition CreateMutex :: "nat \<Rightarrow> nat \<Rightarrow> bool \<Rightarrow> kernel \<Rightarrow> kernel option" where
  "CreateMutex m core initial_locked k =
     (let k1 = upd_mutex m (\<lambda>x. x\<lparr>lock_count := 0, holding_thread := None\<rparr>)
                 (k\<lparr>kind := (kind k)(m := KMutex), waiting_threads := (waiting_threads k)(m := [])\<rparr>)
      in if initial_locked then Acquire m (the (current_thread k core)) k1 else Some k1)"

definition Mutex_Release :: "nat \<Rightarrow> nat \<Rightarrow> kernel \<Rightarrow> (u32 \<times> kernel) option" where
  "Mutex_Release m t k =
     (if holding_thread (mutexes k m) \<noteq> Some t
      then Some (MakeResultRaw WrongLockingThread EM_Kernel ES_InvalidArgument EL_Permanent, k)
      else if lock_count (mutexes k m) \<le> 0
      then Some (MakeResult ED_InvalidResultValue EM_Kernel ES_InvalidState EL_Permanent, k)
      else let k1 = upd_mutex m (\<lambda>x. x\<lparr>lock_count := lock_count x - 1\<rparr>) k
           in if lock_count (mutexes k1 m) = 0
              then do { k2 \<leftarrow> WakeupAllWaitingThreads m (upd_mutex m (\<lambda>x. x\<lparr>holding_thread := None\<rparr>)
                               (Thread_UpdatePriority t
                                 (upd_thread t (\<lambda>x. x\<lparr>held_mutexes := remove1 m (held_mutexes x)\<rparr>) k1)));
                        Some (ResultSuccess, PrepareReschedule k2) }
              else Some (ResultSuccess, k1))"

fun release_mutexes :: "nat list \<Rightarrow> kernel \<Rightarrow> kernel option" where
  "release_mutexes [] k = Some k"
| "release_mutexes (m # ms) k =
     do { k1 \<leftarrow> WakeupAllWaitingThreads m (upd_mutex m (\<lambda>x. x\<lparr>lock_count := 0, holding_thread := None\<rparr>) k);
          release_mutexes ms k1 }"

definition ReleaseThreadMutexes :: "nat \<Rightarrow> kernel \<Rightarrow> kernel option" where
  "ReleaseThreadMutexes t k =
     do { k1 \<leftarrow> release_mutexes (held_mutexes (threads k t)) k;
          Some (upd_thread t (\<lambda>x. x\<lparr>held_mutexes := []\<rparr>) k1) }"

definition CreateSemaphore :: "nat \<Rightarrow> int \<Rightarrow> int \<Rightarrow> kernel \<Rightarrow> u32 \<times> kernel" where
  "CreateSemaphore s initial_count maximum k =
     (if initial_count \<le> maximum
      then (ResultSuccess, upd_semaphore s (\<lambda>x. x\<lparr>max_count := maximum, available_count := initial_count\<rparr>)
              (k\<lparr>kind := (kind k)(s := KSemaphore), waiting_threads := (waiting_threads k)(s := [])\<rparr>))
      else (ResultInvalidCombinationKernel, k))"

definition Semaphore_Release :: "nat \<Rightarrow> int \<Rightarrow> kernel \<Rightarrow> (u32 \<times> int option \<times> kernel) option" where
  "Semaphore_Release s release_count k =
     (let available = available_count (semaphores k s)
      in if max_count (semaphores k s) \<ge> s32 (release_count + available)
         then do { k1 \<leftarrow> WakeupAllWaitingThreads s
                          (upd_semaphore s (\<lambda>x. x\<lparr>available_count := s32 (available + release_count)\<rparr>) k);
                   Some (ResultSuccess, Some available, k1) }
         else Some (ResultOutOfRangeKernel, None, k))"

definition CreateEvent :: "nat \<Rightarrow> ResetType \<Rightarrow> kernel \<Rightarrow> kernel" where
  "CreateEvent e reset_type k =
     upd_event e (\<lambda>x. x\<lparr>ev_signaled := False, ev_reset_type := reset_type\<rparr>)
       (k\<lparr>kind := (kind k)(e := KEvent), waiting_threads := (waiting_threads k)(e := [])\<rparr>)"

definition Event_Signal :: "nat \<Rightarrow> kernel \<Rightarrow> kernel option" where
  "Event_Signal e k = WakeupAllWaitingThreads e (upd_event e (\<lambda>x. x\<lparr>ev_signaled := True\<rparr>) k)"

definition Event_Clear :: "nat \<Rightarrow> kernel \<Rightarrow> kernel" where
  "Event_Clear e k = upd_event e (\<lambda>x. x\<lparr>ev_signaled := False\<rparr>) k"

section \<open>Timers\<close>

definition timer_event :: string where "timer_event = ''TimerCallback''"

definition CreateTimer :: "nat \<Rightarrow> ResetType \<Rightarrow> kernel \<Rightarrow> kernel" where
  "CreateTimer tm reset_type k =
     (let i = (next_timer_callback_id k + 1) mod 2 ^ 64
      in (upd_timer tm (\<lambda>x. x\<lparr>tm_reset_type := reset_type, tm_signaled := False, initial_delay := 0,
              interval_delay := 0, callback_id := i\<rparr>) k)
           \<lparr>kind := (kind k)(tm := KTimer), waiting_threads := (waiting_threads k)(tm := []),
            next_timer_callback_id := i, timer_callback_table := (timer_callback_table k)(i \<mapsto> tm)\<rparr>)"

definition Timer_Cancel :: "nat \<Rightarrow> kernel \<Rightarrow> kernel" where
  "Timer_Cancel tm k = k\<lparr>ktiming := UnscheduleEvent timer_event (callback_id (ktimers k tm)) (ktiming k)\<rparr>"

definition Timer_Clear :: "nat \<Rightarrow> kernel \<Rightarrow> kernel" where
  "Timer_Clear tm k = upd_timer tm (\<lambda>x. x\<lparr>tm_signaled := False\<rparr>) k"

definition Timer_Signal :: "nat \<Rightarrow> int \<Rightarrow> kernel \<Rightarrow> kernel option" where
  "Timer_Signal tm cycles_late k =
     do { k1 \<leftarrow> WakeupAllWaitingThreads tm (upd_timer tm (\<lambda>x. x\<lparr>tm_signaled := True\<rparr>) k);
          if interval_delay (ktimers k1 tm) \<noteq> 0
          then do { tg \<leftarrow> ScheduleEvent (s64 (nsToCycles_u64 (interval_delay (ktimers k1 tm)) - cycles_late)) timer_event
                           (callback_id (ktimers k1 tm)) None False (ktiming k1);
                    Some (k1\<lparr>ktiming := tg\<rparr>) }
          else Some k1 }"

definition Timer_Set :: "nat \<Rightarrow> int \<Rightarrow> int \<Rightarrow> kernel \<Rightarrow> kernel option" where
  "Timer_Set tm initial interval k =
     (let k1 = upd_timer tm (\<lambda>x. x\<lparr>initial_delay := initial mod 2 ^ 64, interval_delay := interval mod 2 ^ 64\<rparr>) (Timer_Cancel tm k)
      in if initial = 0 then Timer_Signal tm 0 k1
         else do { tg \<leftarrow> ScheduleEvent (nsToCycles_s64 initial) timer_event (callback_id (ktimers k1 tm)) None False (ktiming k1);
                   Some (k1\<lparr>ktiming := tg\<rparr>) })"

definition TimerCallback :: "nat \<Rightarrow> int \<Rightarrow> kernel \<Rightarrow> kernel option" where
  "TimerCallback i cycles_late k =
     do { tm \<leftarrow> timer_callback_table k i; Timer_Signal tm cycles_late k }"

section \<open>The end of a wait and of a thread\<close>

text \<open>\<^verbatim>\<open>at\<close> throws when the thread is not in the table.\<close>

definition ThreadWakeupCallback :: "nat \<Rightarrow> nat \<Rightarrow> kernel \<Rightarrow> kernel option" where
  "ThreadWakeupCallback core tid k =
     do { t \<leftarrow> wakeup_callback_table k core tid;
          k1 \<leftarrow> (if status (threads k t) \<in> {WaitSynchAny, WaitSynchAll, WaitArb, WaitHleEvent}
                then do { k1 \<leftarrow> run_callback WR_Timeout t None k; Some (clear_wait_objects t k1) }
                else Some k);
          ResumeFromWait t k1 }"

definition TLS_AREA_VADDR :: nat where "TLS_AREA_VADDR = 0x1FF82000"

text \<open>\<open>tls_used\<close> of a process lists the pairs of page and slot that are taken.\<close>

definition Thread_Stop :: "nat \<Rightarrow> kernel \<Rightarrow> kernel option" where
  "Thread_Stop t k =
     (let th = threads k t; c = core_id th;
          k1 = k\<lparr>ktiming := UnscheduleEvent (wakeup_event c) (thread_id th) (ktiming k),
                 wakeup_callback_table := (wakeup_callback_table k)(c := (wakeup_callback_table k c)(thread_id th := None))\<rparr>;
          k2 = (if status th = Ready then upd_queue c (remove (current_priority th) t) k1 else k1);
          k3 = upd_thread t (\<lambda>x. x\<lparr>status := Dead\<rparr>) k2
      in do {
        k4 \<leftarrow> WakeupAllWaitingThreads t k3;
        k5 \<leftarrow> ReleaseThreadMutexes t (clear_wait_objects t k4);
        case owner_process (threads k5 t) of
          None \<Rightarrow> Some k5
        | Some p \<Rightarrow>
            let a = sub32 (tls_address (threads k5 t)) TLS_AREA_VADDR;
                cat = resource_limit_category (threads k5 t)
            in do { (b, rl) \<leftarrow> Release (rl_index RL_Thread) 1 (resource_limits k5 cat);
                    Some (k5\<lparr>tls_used := (tls_used k5)(p := filter (\<lambda>x. x \<noteq> (a div 0x1000, (a mod 0x1000) div 0x200)) (tls_used k5 p)),
                             resource_limits := (resource_limits k5)(cat := rl)\<rparr>) } })"

definition ExitCurrentThread :: "nat \<Rightarrow> kernel \<Rightarrow> kernel option" where
  "ExitCurrentThread core k =
     do { t \<leftarrow> current_thread k core;
          k1 \<leftarrow> Thread_Stop t k;
          Some (PrepareReschedule (k1\<lparr>thread_list := (thread_list k1)(core := removeAll t (thread_list k1 core))\<rparr>)) }"

fun terminate_threads :: "nat \<Rightarrow> nat \<Rightarrow> nat list \<Rightarrow> kernel \<Rightarrow> kernel option" where
  "terminate_threads core p [] k = Some k"
| "terminate_threads core p (t # ts) k =
     (if current_thread k core = Some t \<or> owner_process (threads k t) \<noteq> Some p then terminate_threads core p ts k
      else do { k1 \<leftarrow> Thread_Stop t k;
                terminate_threads core p ts
                  (k1\<lparr>thread_list := (thread_list k1)(core := remove1 t (thread_list k1 core))\<rparr>) })"

definition TerminateProcessThreads :: "nat \<Rightarrow> nat \<Rightarrow> kernel \<Rightarrow> kernel option" where
  "TerminateProcessThreads core p k =
     do { k1 \<leftarrow> terminate_threads core p (thread_list k core) k;
          case current_thread k1 core of
            None \<Rightarrow> Some k1
          | Some t \<Rightarrow> if owner_process (threads k1 t) = Some p then ExitCurrentThread core k1 else Some k1 }"

section \<open>Frames\<close>

lemma upd_mutex_simps [simp]:
  "threads (upd_mutex m f k) = threads k" "kind (upd_mutex m f k) = kind k"
  "waiting_threads (upd_mutex m f k) = waiting_threads k" "hle_notifier (upd_mutex m f k) = hle_notifier k"
  "mutexes (upd_mutex m f k) = (mutexes k)(m := f (mutexes k m))" "semaphores (upd_mutex m f k) = semaphores k"
  "events (upd_mutex m f k) = events k" "ktimers (upd_mutex m f k) = ktimers k"
  "arbiter_waiting (upd_mutex m f k) = arbiter_waiting k" "thread_list (upd_mutex m f k) = thread_list k"
  "ready_queue (upd_mutex m f k) = ready_queue k" "current_thread (upd_mutex m f k) = current_thread k"
  by (simp_all add: upd_mutex_def)

lemma upd_waiting_simps [simp]:
  "threads (upd_waiting ob g k) = threads k" "kind (upd_waiting ob g k) = kind k"
  "waiting_threads (upd_waiting ob g k) = (waiting_threads k)(ob := g (waiting_threads k ob))"
  "hle_notifier (upd_waiting ob g k) = hle_notifier k"
  "mutexes (upd_waiting ob g k) = mutexes k" "semaphores (upd_waiting ob g k) = semaphores k"
  "events (upd_waiting ob g k) = events k" "ktimers (upd_waiting ob g k) = ktimers k"
  "arbiter_waiting (upd_waiting ob g k) = arbiter_waiting k" "thread_list (upd_waiting ob g k) = thread_list k"
  "ready_queue (upd_waiting ob g k) = ready_queue k" "current_thread (upd_waiting ob g k) = current_thread k"
  by (simp_all add: upd_waiting_def)

lemma ipc_upd_simps [simp]:
  "ksessions (upd_thread t h k) = ksessions k" "pending_sessions (upd_thread t h k) = pending_sessions k" "client_ports (upd_thread t h k) = client_ports k" "ipc_translations (upd_thread t h k) = ipc_translations k"
  "ksessions (upd_queue c q k) = ksessions k" "pending_sessions (upd_queue c q k) = pending_sessions k" "client_ports (upd_queue c q k) = client_ports k" "ipc_translations (upd_queue c q k) = ipc_translations k"
  "ksessions (upd_mutex ob m k) = ksessions k" "pending_sessions (upd_mutex ob m k) = pending_sessions k" "client_ports (upd_mutex ob m k) = client_ports k" "ipc_translations (upd_mutex ob m k) = ipc_translations k"
  "ksessions (upd_semaphore ob sm k) = ksessions k" "pending_sessions (upd_semaphore ob sm k) = pending_sessions k" "client_ports (upd_semaphore ob sm k) = client_ports k" "ipc_translations (upd_semaphore ob sm k) = ipc_translations k"
  "ksessions (upd_event ob e k) = ksessions k" "pending_sessions (upd_event ob e k) = pending_sessions k" "client_ports (upd_event ob e k) = client_ports k" "ipc_translations (upd_event ob e k) = ipc_translations k"
  "ksessions (upd_timer ob tm k) = ksessions k" "pending_sessions (upd_timer ob tm k) = pending_sessions k" "client_ports (upd_timer ob tm k) = client_ports k" "ipc_translations (upd_timer ob tm k) = ipc_translations k"
  "ksessions (upd_waiting ob w k) = ksessions k" "pending_sessions (upd_waiting ob w k) = pending_sessions k" "client_ports (upd_waiting ob w k) = client_ports k" "ipc_translations (upd_waiting ob w k) = ipc_translations k"
  "ksessions (PrepareReschedule k) = ksessions k" "pending_sessions (PrepareReschedule k) = pending_sessions k" "client_ports (PrepareReschedule k) = client_ports k" "ipc_translations (PrepareReschedule k) = ipc_translations k"
  by (simp_all add: upd_thread_def upd_queue_def upd_mutex_def upd_semaphore_def upd_event_def upd_timer_def upd_waiting_def PrepareReschedule_def)

text \<open>\<open>only_prio k k'\<close>: nothing but the priorities of threads and mutexes and the queues has changed.\<close>

definition same_ipc :: "kernel \<Rightarrow> kernel \<Rightarrow> bool" where
  "same_ipc k k' \<longleftrightarrow> ksessions k' = ksessions k \<and> pending_sessions k' = pending_sessions k \<and> client_ports k' = client_ports k \<and>
     ipc_translations k' = ipc_translations k"

definition only_prio :: "kernel \<Rightarrow> kernel \<Rightarrow> bool" where
  "only_prio k k' \<longleftrightarrow>
     (\<forall>t. threads k' t = (threads k t)\<lparr>current_priority := current_priority (threads k' t)\<rparr>) \<and>
     (\<forall>m. mutexes k' m = (mutexes k m)\<lparr>mtx_priority := mtx_priority (mutexes k' m)\<rparr>) \<and>
     kind k' = kind k \<and> waiting_threads k' = waiting_threads k \<and> hle_notifier k' = hle_notifier k \<and>
     semaphores k' = semaphores k \<and> events k' = events k \<and> ktimers k' = ktimers k \<and>
     arbiter_waiting k' = arbiter_waiting k \<and> thread_list k' = thread_list k \<and> current_thread k' = current_thread k \<and> same_ipc k k'"

lemma only_prioD:
  assumes "only_prio k k'"
  shows "status (threads k' t) = status (threads k t)" "wait_objects (threads k' t) = wait_objects (threads k t)"
    "wakeup_callback (threads k' t) = wakeup_callback (threads k t)" "core_id (threads k' t) = core_id (threads k t)"
    "nominal_priority (threads k' t) = nominal_priority (threads k t)" "held_mutexes (threads k' t) = held_mutexes (threads k t)"
    "pending_mutexes (threads k' t) = pending_mutexes (threads k t)" "ctx (threads k' t) = ctx (threads k t)"
    "wait_address (threads k' t) = wait_address (threads k t)" "thread_id (threads k' t) = thread_id (threads k t)"
    "lock_count (mutexes k' m) = lock_count (mutexes k m)" "holding_thread (mutexes k' m) = holding_thread (mutexes k m)"
    "kind k' = kind k" "waiting_threads k' = waiting_threads k" "hle_notifier k' = hle_notifier k"
    "semaphores k' = semaphores k" "events k' = events k" "ktimers k' = ktimers k"
    "arbiter_waiting k' = arbiter_waiting k" "thread_list k' = thread_list k" "current_thread k' = current_thread k"
    "registered k' t = registered k t" "ShouldWait ob t k' = ShouldWait ob t k" "same_ipc k k'"
proof -
  have t: "threads k' u = (threads k u)\<lparr>current_priority := current_priority (threads k' u)\<rparr>" for u
    using assms by (simp add: only_prio_def)
  show st: "status (threads k' u) = status (threads k u)" for u using arg_cong [OF t [of u], of status] by simp
  show "wait_objects (threads k' t) = wait_objects (threads k t)"
    "wakeup_callback (threads k' t) = wakeup_callback (threads k t)"
    "nominal_priority (threads k' t) = nominal_priority (threads k t)" "held_mutexes (threads k' t) = held_mutexes (threads k t)"
    "pending_mutexes (threads k' t) = pending_mutexes (threads k t)" "ctx (threads k' t) = ctx (threads k t)"
    "wait_address (threads k' t) = wait_address (threads k t)" "thread_id (threads k' t) = thread_id (threads k t)"
    by (subst t, simp)+
  show c: "core_id (threads k' t) = core_id (threads k t)" by (subst t, simp)
  have m: "mutexes k' u = (mutexes k u)\<lparr>mtx_priority := mtx_priority (mutexes k' u)\<rparr>" for u
    using assms by (simp add: only_prio_def)
  show mt: "lock_count (mutexes k' m) = lock_count (mutexes k m)" "holding_thread (mutexes k' m) = holding_thread (mutexes k m)" for m
    by (subst m, simp)+
  show rest: "kind k' = kind k" "waiting_threads k' = waiting_threads k" "hle_notifier k' = hle_notifier k"
    "semaphores k' = semaphores k" "events k' = events k" "ktimers k' = ktimers k"
    "arbiter_waiting k' = arbiter_waiting k" "thread_list k' = thread_list k" "current_thread k' = current_thread k"
    using assms by (simp_all add: only_prio_def)
  show "registered k' t = registered k t" using c rest by (simp add: registered_def)
  show ipc: "same_ipc k k'" using assms by (simp add: only_prio_def)
  show "ShouldWait ob t k' = ShouldWait ob t k"
    using rest st mt ipc by (simp add: ShouldWait_def same_ipc_def split: object_kind.splits)
qed

lemma same_ipc_refl [simp]: "same_ipc k k"
  by (simp add: same_ipc_def)

lemma same_ipc_trans: "same_ipc k k1 \<Longrightarrow> same_ipc k1 k2 \<Longrightarrow> same_ipc k k2"
  by (simp add: same_ipc_def)

lemma only_prio_refl [simp]: "only_prio k k"
  by (simp add: only_prio_def)

lemma only_prio_trans:
  assumes a: "only_prio k k1" and b: "only_prio k1 k2"
  shows "only_prio k k2"
proof -
  have "threads k2 t = (threads k t)\<lparr>current_priority := current_priority (threads k2 t)\<rparr>" for t
  proof -
    have "threads k2 t = (threads k1 t)\<lparr>current_priority := current_priority (threads k2 t)\<rparr>"
      "threads k1 t = (threads k t)\<lparr>current_priority := current_priority (threads k1 t)\<rparr>"
      using a b by (simp_all add: only_prio_def)
    then show ?thesis by (metis thread.update_convs(5) thread.surjective)
  qed
  moreover have "mutexes k2 m = (mutexes k m)\<lparr>mtx_priority := mtx_priority (mutexes k2 m)\<rparr>" for m
  proof -
    have "mutexes k2 m = (mutexes k1 m)\<lparr>mtx_priority := mtx_priority (mutexes k2 m)\<rparr>"
      "mutexes k1 m = (mutexes k m)\<lparr>mtx_priority := mtx_priority (mutexes k1 m)\<rparr>"
      using a b by (simp_all add: only_prio_def)
    then show ?thesis by (metis mutex.update_convs(2) mutex.surjective)
  qed
  moreover have "same_ipc k k2" by (rule same_ipc_trans [of k k1]) (use a b in \<open>simp_all add: only_prio_def\<close>)
  ultimately show ?thesis using a b by (simp add: only_prio_def)
qed

lemma best_of_le: "best_of b ps \<le> b" "p \<in> set ps \<Longrightarrow> best_of b ps \<le> p"
proof -
  show *: "best_of b ps \<le> b" for b ps
  proof (induction ps arbitrary: b)
    case (Cons q ps)
    show ?case using order_trans [OF Cons [of q], of b] Cons [of b] by simp
  qed simp
  show "p \<in> set ps \<Longrightarrow> best_of b ps \<le> p"
  proof (induction ps arbitrary: b)
    case (Cons q ps)
    then show ?case using * [of q ps] order_trans [OF * [of b ps], of q] by (cases "p = q") auto
  qed simp
qed

lemma best_of_mem: "best_of b ps \<in> insert b (set ps)"
proof (induction ps arbitrary: b)
  case (Cons p ps)
  then show ?case by (cases "p < b") (auto dest: meta_spec [of _ p] meta_spec [of _ b])
qed simp

definition inherited :: "kernel \<Rightarrow> nat \<Rightarrow> nat" where
  "inherited k t = best_of (nominal_priority (threads k t)) (map (\<lambda>m. mtx_priority (mutexes k m)) (held_mutexes (threads k t)))"

lemma Thread_UpdatePriority_simps:
  "threads (Thread_UpdatePriority t k) = (threads k)(t := (threads k t)\<lparr>current_priority := inherited k t\<rparr>)"
  "mutexes (Thread_UpdatePriority t k) = mutexes k"
  "only_prio k (Thread_UpdatePriority t k)"
  by (simp_all add: Thread_UpdatePriority_def BoostPriority_def inherited_def only_prio_def same_ipc_def Let_def)

lemma Thread_UpdatePriority_inv:
  "sched_inv k \<Longrightarrow> registered k t \<Longrightarrow> nominal_priority (threads k t) \<le> ThreadPrioLowest \<Longrightarrow>
   sched_inv (Thread_UpdatePriority t k)"
  unfolding Thread_UpdatePriority_def by (rule BoostPriority_inv) (auto intro: order_trans best_of_le)

lemma Mutex_UpdatePriority_only: "only_prio k (Mutex_UpdatePriority m k)"
proof (cases "holding_thread (mutexes k m)")
  case (Some h)
  have "only_prio k (upd_mutex m (\<lambda>x. x\<lparr>mtx_priority := p\<rparr>) k)" for p by (simp add: only_prio_def same_ipc_def)
  then show ?thesis
    using Some Thread_UpdatePriority_simps(3) only_prio_trans by (simp add: Mutex_UpdatePriority_def Let_def) blast
qed (simp add: Mutex_UpdatePriority_def)

section \<open>The invariant of waiting\<close>

text \<open>
  A thread is on the list of an object exactly when the object is among those it waits for; the list has it once;
  a thread on a list is registered and waits for objects. A thread that waits for all of its objects has
  no object twice.
\<close>

definition wait_inv :: "kernel \<Rightarrow> bool" where
  "wait_inv k \<longleftrightarrow>
     (\<forall>ob. distinct (waiting_threads k ob)) \<and>
     (\<forall>ob. \<forall>t \<in> set (waiting_threads k ob). registered k t \<and>
        status (threads k t) \<in> {WaitSynchAny, WaitSynchAll, WaitHleEvent} \<and>
        (\<forall>a. wakeup_callback (threads k t) \<noteq> Some (ArbiterCallback a)) \<and>
        (wakeup_callback (threads k t) = Some IpcCallback \<longrightarrow> status (threads k t) = WaitSynchAny)) \<and>
     (\<forall>ob t. ob \<in> set (wait_objects (threads k t)) \<longleftrightarrow> t \<in> set (waiting_threads k ob)) \<and>
     (\<forall>t. status (threads k t) = WaitSynchAll \<longrightarrow> distinct (wait_objects (threads k t)))"

text \<open>
  A mutex is locked exactly when it has a holder, the holder is registered, and a thread's set of held
  mutexes is the set of those it holds.
\<close>

definition mutex_inv :: "kernel \<Rightarrow> bool" where
  "mutex_inv k \<longleftrightarrow>
     (\<forall>t. registered k t \<longrightarrow> nominal_priority (threads k t) \<le> ThreadPrioLowest) \<and>
     (\<forall>m. kind k m = KMutex \<longrightarrow> 0 \<le> lock_count (mutexes k m) \<and> lock_count (mutexes k m) < 2 ^ 31 \<and>
        (lock_count (mutexes k m) = 0 \<longleftrightarrow> holding_thread (mutexes k m) = None) \<and>
        (\<forall>h. holding_thread (mutexes k m) = Some h \<longrightarrow> registered k h)) \<and>
     (\<forall>t m. m \<in> set (held_mutexes (threads k t)) \<longleftrightarrow> kind k m = KMutex \<and> holding_thread (mutexes k m) = Some t) \<and>
     (\<forall>t. distinct (held_mutexes (threads k t)))"

definition kinv :: "kernel \<Rightarrow> bool" where
  "kinv k \<longleftrightarrow> sched_inv k \<and> wait_inv k \<and> mutex_inv k"

lemma wait_invD:
  assumes "wait_inv k"
  shows "distinct (waiting_threads k ob)" "t \<in> set (waiting_threads k ob) \<Longrightarrow> registered k t"
    "t \<in> set (waiting_threads k ob) \<Longrightarrow> status (threads k t) \<in> {WaitSynchAny, WaitSynchAll, WaitHleEvent}"
    "t \<in> set (waiting_threads k ob) \<Longrightarrow> wakeup_callback (threads k t) \<noteq> Some (ArbiterCallback a)"
    "ob \<in> set (wait_objects (threads k t)) \<longleftrightarrow> t \<in> set (waiting_threads k ob)"
    "status (threads k t) = WaitSynchAll \<Longrightarrow> distinct (wait_objects (threads k t))"
    "t \<in> set (waiting_threads k ob) \<Longrightarrow> wakeup_callback (threads k t) = Some IpcCallback \<Longrightarrow> status (threads k t) = WaitSynchAny"
  using assms unfolding wait_inv_def by blast+

lemma mutex_invD:
  assumes "mutex_inv k"
  shows "registered k t \<Longrightarrow> nominal_priority (threads k t) \<le> ThreadPrioLowest"
    "kind k m = KMutex \<Longrightarrow> 0 \<le> lock_count (mutexes k m)" "kind k m = KMutex \<Longrightarrow> lock_count (mutexes k m) < 2 ^ 31"
    "kind k m = KMutex \<Longrightarrow> lock_count (mutexes k m) = 0 \<longleftrightarrow> holding_thread (mutexes k m) = None"
    "kind k m = KMutex \<Longrightarrow> holding_thread (mutexes k m) = Some h \<Longrightarrow> registered k h"
    "m \<in> set (held_mutexes (threads k t)) \<longleftrightarrow> kind k m = KMutex \<and> holding_thread (mutexes k m) = Some t"
    "distinct (held_mutexes (threads k t))"
  using assms unfolding mutex_inv_def by blast+

text \<open>What the waiting invariant depends on.\<close>

definition same_waits :: "kernel \<Rightarrow> kernel \<Rightarrow> bool" where
  "same_waits k k' \<longleftrightarrow>
     thread_list k' = thread_list k \<and> current_thread k' = current_thread k \<and> waiting_threads k' = waiting_threads k \<and>
     kind k' = kind k \<and> hle_notifier k' = hle_notifier k \<and> arbiter_waiting k' = arbiter_waiting k \<and>
     (\<forall>t. status (threads k' t) = status (threads k t) \<and> wait_objects (threads k' t) = wait_objects (threads k t) \<and>
        wakeup_callback (threads k' t) = wakeup_callback (threads k t) \<and> core_id (threads k' t) = core_id (threads k t) \<and>
        nominal_priority (threads k' t) = nominal_priority (threads k t))"

lemma same_waits_refl [simp]: "same_waits k k"
  by (simp add: same_waits_def)

lemma same_waits_trans: "same_waits k k1 \<Longrightarrow> same_waits k1 k2 \<Longrightarrow> same_waits k k2"
  by (simp add: same_waits_def)

lemma only_prio_same_waits: "only_prio k k' \<Longrightarrow> same_waits k k'"
  by (simp add: same_waits_def only_prioD)

lemma same_waits_registered: "same_waits k k' \<Longrightarrow> registered k' t \<longleftrightarrow> registered k t"
  by (simp add: same_waits_def registered_def)

lemma same_waits_inv: "same_waits k k' \<Longrightarrow> wait_inv k \<Longrightarrow> wait_inv k'"
  unfolding wait_inv_def by (simp add: same_waits_registered) (simp add: same_waits_def)

lemma only_prio_mutex_inv: "only_prio k k' \<Longrightarrow> mutex_inv k \<Longrightarrow> mutex_inv k'"
  unfolding mutex_inv_def by (simp add: only_prioD)

lemma Mutex_UpdatePriority_inv:
  assumes "sched_inv k" "mutex_inv k" "kind k m = KMutex"
  shows "sched_inv (Mutex_UpdatePriority m k)"
proof (cases "holding_thread (mutexes k m)")
  case (Some h)
  have h: "registered k h" using mutex_invD(5) [OF assms(2,3) Some] .
  have "sched_inv (upd_mutex m f k)" for f using assms(1) by (rule sched_inv_cong) simp_all
  then have "sched_inv (Thread_UpdatePriority h (upd_mutex m f k))" for f
    using h mutex_invD(1) [OF assms(2) h] by (intro Thread_UpdatePriority_inv) (simp_all add: registered_def)
  then show ?thesis using assms(1) Some by (simp add: Mutex_UpdatePriority_def Let_def)
qed (use assms in \<open>simp add: Mutex_UpdatePriority_def\<close>)

section \<open>Acquiring\<close>

lemma set_insert_set [simp]: "set (set_insert x xs) = insert x (set xs)"
  by (auto simp: set_insert_def set_insort_key)

lemma set_insert_distinct [simp]: "distinct xs \<Longrightarrow> distinct (set_insert x xs)"
  by (simp add: set_insert_def distinct_insort)

text \<open>
  \<open>acquired k obs t k'\<close>: the effect on the state of acquiring objects \<open>obs\<close> for \<open>t\<close>, as far as waiting is concerned.
\<close>

text \<open>The request of a session that is taken when the session is acquired.\<close>

definition popped :: "session \<Rightarrow> session" where
  "popped s = (if ses_client s then s\<lparr>currently_handling := Some (last (pending_requesting_threads s)),
     pending_requesting_threads := butlast (pending_requesting_threads s)\<rparr> else s)"

definition acquired :: "kernel \<Rightarrow> nat set \<Rightarrow> nat \<Rightarrow> kernel \<Rightarrow> bool" where
  "acquired k obs t k' \<longleftrightarrow> same_waits k k' \<and> sched_inv k' \<and> mutex_inv k' \<and>
     (\<forall>ob u. ob \<notin> obs \<longrightarrow> ShouldWait ob u k' = ShouldWait ob u k) \<and>
     (\<forall>ob. ob \<notin> obs \<longrightarrow> mutexes k' ob = mutexes k ob \<and> semaphores k' ob = semaphores k ob \<and>
        events k' ob = events k ob \<and> ktimers k' ob = ktimers k ob) \<and>
     (\<forall>m. lock_count (mutexes k' m) \<le> lock_count (mutexes k m) + (if m \<in> obs then 1 else 0)) \<and>
     (\<forall>m \<in> obs. kind k m = KMutex \<longrightarrow> holding_thread (mutexes k' m) = Some t \<and>
        lock_count (mutexes k' m) = lock_count (mutexes k m) + 1) \<and>
     (\<forall>s \<in> obs. kind k s = KSemaphore \<longrightarrow> available_count (semaphores k' s) = available_count (semaphores k s) - 1) \<and>
     (\<forall>u. u \<noteq> t \<longrightarrow> threads k' u = threads k u) \<and>
     ksessions k' = (\<lambda>s. if s \<in> obs \<and> kind k s = KServerSession then popped (ksessions k s) else ksessions k s) \<and>
     pending_sessions k' = pending_sessions k \<and> client_ports k' = client_ports k \<and> ipc_translations k' = ipc_translations k"

lemma Mutex_Acquire_spec:
  assumes k: "sched_inv k" "mutex_inv k" and t: "registered k t" and m: "kind k m = KMutex" "\<not> ShouldWait m t k"
    and bound: "lock_count (mutexes k m) + 1 < 2 ^ 31"
  shows "\<exists>k'. Mutex_Acquire m t k = Some k' \<and> acquired k {m} t k'"
proof (cases "lock_count (mutexes k m) = 0")
  case True
  define k1 where "k1 = upd_thread t (\<lambda>x. x\<lparr>held_mutexes := set_insert m (held_mutexes x)\<rparr>)
      (upd_mutex m (\<lambda>x. x\<lparr>mtx_priority := current_priority (threads k t), holding_thread := Some t\<rparr>) k)"
  define k2 where "k2 = Thread_UpdatePriority t k1"
  define k' where "k' = upd_mutex m (\<lambda>x. x\<lparr>lock_count := 1\<rparr>) (PrepareReschedule k2)"
  have eq: "Mutex_Acquire m t k = Some k'"
    using m True by (simp add: Mutex_Acquire_def k'_def k2_def k1_def upd_mutex_def s32_def
      Thread_UpdatePriority_simps PrepareReschedule_def)
  have op: "only_prio k1 k2" unfolding k2_def by (rule Thread_UpdatePriority_simps)
  have free: "holding_thread (mutexes k m) = None" using mutex_invD(4) [OF k(2) m(1)] True by simp
  have k1: "sched_inv k1" "registered k1 t" "nominal_priority (threads k1 t) \<le> ThreadPrioLowest"
    using sched_inv_cong [OF k(1), of k1] t mutex_invD(1) [OF k(2) t] by (simp_all add: k1_def registered_def)
  have "sched_inv k2" unfolding k2_def using k1 by (rule Thread_UpdatePriority_inv)
  then have inv: "sched_inv k'" by (rule sched_inv_cong) (simp_all add: k'_def)
  have sw: "same_waits k k'"
    using only_prioD [OF op] by (simp add: same_waits_def k'_def) (simp add: k1_def)
  have mt: "mutexes k' u = (if u = m then \<lparr>lock_count = 1, mtx_priority = current_priority (threads k t), holding_thread = Some t\<rparr>
      else mutexes k u)" for u
    by (simp add: k'_def k2_def Thread_UpdatePriority_simps k1_def)
  have held: "held_mutexes (threads k' u) = (if u = t then set_insert m (held_mutexes (threads k t)) else held_mutexes (threads k u))" for u
    using only_prioD(6) [OF op] by (simp add: k'_def) (simp add: k1_def)
  have frame: "semaphores k' = semaphores k" "events k' = events k" "ktimers k' = ktimers k" "kind k' = kind k"
    using only_prioD [OF op] by (simp_all add: k'_def) (simp_all add: k1_def)
  have ipc: "ksessions k' = ksessions k" "pending_sessions k' = pending_sessions k" "client_ports k' = client_ports k" "ipc_translations k' = ipc_translations k"
    using only_prioD(24) [OF op] by (simp_all add: k'_def same_ipc_def) (simp_all add: k1_def)
  have "mutex_inv k'"
    unfolding mutex_inv_def same_waits_registered [OF sw] frame(4)
  proof (intro conjI allI impI)
    show "registered k u \<Longrightarrow> nominal_priority (threads k' u) \<le> ThreadPrioLowest" for u
      using mutex_invD(1) [OF k(2), of u] sw by (simp add: same_waits_def)
    show "u \<in> set (held_mutexes (threads k' x)) \<longleftrightarrow> kind k u = KMutex \<and> holding_thread (mutexes k' u) = Some x" for x u
      using mutex_invD(6) [OF k(2), of u x] m(1) free by (auto simp: held mt)
    show "distinct (held_mutexes (threads k' u))" for u using mutex_invD(7) [OF k(2)] by (simp add: held)
  qed (use mutex_invD(2-5) [OF k(2)] t in \<open>auto simp: mt split: if_splits\<close>)
  moreover have "threads k' u = threads k u" if "u \<noteq> t" for u
    using that by (simp add: k'_def k2_def Thread_UpdatePriority_simps k1_def)
  moreover have "ShouldWait ob u k' = ShouldWait ob u k" if "ob \<noteq> m" for ob u
    using that mt frame ipc sw by (simp add: ShouldWait_def same_waits_def split: object_kind.splits)
  moreover have "ksessions k' = (\<lambda>s. if s \<in> {m} \<and> kind k s = KServerSession then popped (ksessions k s) else ksessions k s)"
    using ipc(1) m(1) by (simp add: fun_eq_iff)
  ultimately have "acquired k {m} t k'"
    using sw inv mt frame True m(1) ipc by (simp add: acquired_def)
  then show ?thesis using eq by simp
next
  case False
  then have h: "holding_thread (mutexes k m) = Some t" "0 < lock_count (mutexes k m)"
    using m mutex_invD(2) [OF k(2) m(1)] by (auto simp: ShouldWait_def)
  define k' where "k' = upd_mutex m (\<lambda>x. x\<lparr>lock_count := lock_count x + 1\<rparr>) k"
  have "s32 (lock_count (mutexes k m) + 1) = lock_count (mutexes k m) + 1"
    using bound h(2) by (intro s32_id) auto
  then have eq: "Mutex_Acquire m t k = Some k'"
    using m False by (simp add: Mutex_Acquire_def k'_def upd_mutex_def)
  have sw: "same_waits k k'" by (simp add: same_waits_def k'_def)
  have inv: "sched_inv k'" using k(1) by (rule sched_inv_cong) (simp_all add: k'_def)
  have "mutex_inv k'"
    using k(2) bound h unfolding mutex_inv_def same_waits_registered [OF sw] by (auto simp: k'_def)
  moreover have "ShouldWait ob u k' = ShouldWait ob u k" if "ob \<noteq> m" for ob u
    using that by (simp add: k'_def ShouldWait_def split: object_kind.splits)
  moreover have "ksessions k' = (\<lambda>s. if s \<in> {m} \<and> kind k s = KServerSession then popped (ksessions k s) else ksessions k s)"
    using m(1) by (simp add: fun_eq_iff k'_def)
  ultimately have "acquired k {m} t k'" using sw inv h m(1) by (simp add: acquired_def k'_def)
  then show ?thesis using eq by simp
qed

lemma acquired_refl:
  "sched_inv k \<Longrightarrow> mutex_inv k \<Longrightarrow> \<forall>ob \<in> obs. kind k ob \<noteq> KMutex \<and> kind k ob \<noteq> KSemaphore \<and>
     (kind k ob = KServerSession \<longrightarrow> \<not> ses_client (ksessions k ob)) \<Longrightarrow> acquired k obs t k"
  by (auto simp: acquired_def popped_def fun_eq_iff)

text \<open>Semaphores, events and timers: only the data of the object changes.\<close>

lemma acquired_data:
  assumes k: "sched_inv k" "mutex_inv k"
    and k': "kind k ob = KSemaphore \<and> k' = upd_semaphore ob (\<lambda>x. x\<lparr>available_count := available_count x - 1\<rparr>) k \<or>
      kind k ob = KEvent \<and> k' = upd_event ob g k \<or> kind k ob = KTimer \<and> k' = upd_timer ob h k \<or>
      kind k ob = KServerSession \<and> k' = upd_session ob popped k"
  shows "acquired k {ob} t k'"
proof -
  have fr: "threads k' = threads k" "thread_list k' = thread_list k" "current_thread k' = current_thread k"
    "ready_queue k' = ready_queue k" "mutexes k' = mutexes k" "kind k' = kind k" "waiting_threads k' = waiting_threads k"
    "hle_notifier k' = hle_notifier k" "arbiter_waiting k' = arbiter_waiting k"
    "\<And>x. x \<noteq> ob \<Longrightarrow> semaphores k' x = semaphores k x \<and> events k' x = events k x \<and> ktimers k' x = ktimers k x"
    "kind k ob = KSemaphore \<Longrightarrow> available_count (semaphores k' ob) = available_count (semaphores k ob) - 1"
    "kind k ob \<noteq> KMutex" "pending_sessions k' = pending_sessions k" "client_ports k' = client_ports k" "ipc_translations k' = ipc_translations k"
    using k' by (auto simp: upd_semaphore_def upd_event_def upd_timer_def upd_session_def)
  have se: "ksessions k' = (\<lambda>s. if s \<in> {ob} \<and> kind k s = KServerSession then popped (ksessions k s) else ksessions k s)"
    using k' by (auto simp: upd_semaphore_def upd_event_def upd_timer_def upd_session_def fun_eq_iff)
  have "sched_inv k'" using k(1) by (rule sched_inv_cong) (simp_all add: fr)
  moreover have "mutex_inv k'" using k(2) by (simp add: mutex_inv_def registered_def fr)
  moreover have "ShouldWait x u k' = ShouldWait x u k" if "x \<noteq> ob" for x u
    using that fr se by (simp add: ShouldWait_def split: object_kind.splits)
  ultimately show ?thesis using fr se by (simp add: acquired_def same_waits_def)
qed

lemmas acquired_upd = acquired_data [OF _ _ disjI1 [OF conjI [OF _ refl]]]
  acquired_data [OF _ _ disjI2 [OF disjI1 [OF conjI [OF _ refl]]]] acquired_data [OF _ _ disjI2 [OF disjI2 [OF disjI1 [OF conjI [OF _ refl]]]]]
  acquired_data [OF _ _ disjI2 [OF disjI2 [OF disjI2 [OF conjI [OF _ refl]]]]]

lemma Acquire_spec:
  assumes k: "sched_inv k" "mutex_inv k" and t: "registered k t" and w: "\<not> ShouldWait ob t k"
    and bound: "lock_count (mutexes k ob) + 1 < 2 ^ 31"
  shows "\<exists>k'. Acquire ob t k = Some k' \<and> acquired k {ob} t k'"
proof (cases "kind k ob")
  case KMutex
  then show ?thesis using Mutex_Acquire_spec [OF k t KMutex w bound] by (auto simp: Acquire_def)
next
  case KSemaphore
  then show ?thesis using w acquired_upd [OF k] by (auto simp: Acquire_def ShouldWait_def)
next
  case KEvent
  then show ?thesis using w acquired_upd [OF k] acquired_refl [OF k] by (auto simp: Acquire_def)
next
  case KTimer
  then show ?thesis using w acquired_upd [OF k] acquired_refl [OF k] by (auto simp: Acquire_def)
next
  case KServerPort
  then show ?thesis using w acquired_refl [OF k] by (auto simp: Acquire_def)
next
  case KServerSession
  have "upd_session ob popped k = upd_session ob (\<lambda>x. x\<lparr>currently_handling := Some (last (pending_requesting_threads x)),
      pending_requesting_threads := butlast (pending_requesting_threads x)\<rparr>) k" if "ses_client (ksessions k ob)"
    using that by (simp add: upd_session_def popped_def)
  then show ?thesis using w KServerSession acquired_upd(4) [OF k KServerSession] acquired_refl [OF k]
    by (cases "ses_client (ksessions k ob)") (auto simp: Acquire_def ShouldWait_def)
next
  case (KThread u)
  then show ?thesis using w acquired_refl [OF k] by (auto simp: Acquire_def)
qed

lemma acquired_trans:
  assumes a: "acquired k A t k1" and b: "acquired k1 B t k2" and disj: "A \<inter> B = {}"
  shows "acquired k (A \<union> B) t k2"
proof -
  have "lock_count (mutexes k2 m) \<le> lock_count (mutexes k m) + (if m \<in> A \<union> B then 1 else 0)" for m
    using a b disj unfolding acquired_def
    by (smt (verit, del_insts) Un_iff disjoint_iff)
  moreover have "kind k1 = kind k" using a by (simp add: acquired_def same_waits_def)
  moreover have "ksessions k2 = (\<lambda>s. if s \<in> A \<union> B \<and> kind k s = KServerSession then popped (ksessions k s) else ksessions k s)"
    using a b disj \<open>kind k1 = kind k\<close> by (auto simp: acquired_def fun_eq_iff disjoint_iff)
  ultimately show ?thesis using a b disj same_waits_trans
    unfolding acquired_def by (auto simp: disjoint_iff)
qed

lemma acquire_all_spec:
  assumes "sched_inv k" "mutex_inv k" "registered k t" "\<forall>ob \<in> set obs. \<not> ShouldWait ob t k" "distinct obs"
    "\<forall>ob \<in> set obs. lock_count (mutexes k ob) + 1 < 2 ^ 31"
  shows "\<exists>k'. acquire_all obs t k = Some k' \<and> acquired k (set obs) t k'"
  using assms
proof (induction obs arbitrary: k)
  case Nil
  then show ?case by (simp add: acquired_refl)
next
  case (Cons ob obs)
  obtain k1 where k1: "Acquire ob t k = Some k1" "acquired k {ob} t k1"
    using Acquire_spec [of k t ob] Cons.prems by auto
  have "\<forall>x \<in> set obs. \<not> ShouldWait x t k1" "\<forall>x \<in> set obs. lock_count (mutexes k1 x) + 1 < 2 ^ 31"
    using k1(2) Cons.prems(4-6) by (auto simp: acquired_def)
  moreover have "sched_inv k1" "mutex_inv k1" "registered k1 t"
    using k1(2) Cons.prems(3) same_waits_registered by (auto simp: acquired_def)
  ultimately obtain k' where k': "acquire_all obs t k1 = Some k'" "acquired k1 (set obs) t k'"
    using Cons.IH [of k1] Cons.prems(5) by auto
  then show ?case using k1 acquired_trans [OF k1(2) k'(2)] Cons.prems(5) by auto
qed

section \<open>Waking up one thread\<close>

text \<open>The callback of a thread that waits for objects only writes its registers.\<close>

definition only_ctx :: "nat \<Rightarrow> kernel \<Rightarrow> kernel \<Rightarrow> bool" where
  "only_ctx t k k' \<longleftrightarrow> (\<exists>g tr. k' = upd_thread t (\<lambda>x. x\<lparr>ctx := g\<rparr>) (k\<lparr>ipc_translations := tr\<rparr>))"

text \<open>What the callback of \<^verbatim>\<open>svcReplyAndReceive\<close> records: the request that is delivered to the thread, when the object is an open session.\<close>

definition delivered :: "nat \<Rightarrow> nat \<Rightarrow> kernel \<Rightarrow> translation list" where
  "delivered ob t k = (if wakeup_callback (threads k t) = Some IpcCallback \<and> kind k ob = KServerSession \<and> ses_client (ksessions k ob)
     then [(ob, the (currently_handling (ksessions k ob)), t, False)] else [])"

lemma only_ctxI:
  "only_ctx t k (k\<lparr>threads := (threads k)(t := (threads k t)\<lparr>ctx := g\<rparr>)\<rparr>)"
  "only_ctx t k (k\<lparr>ipc_translations := tr, threads := (threads k)(t := (threads k t)\<lparr>ctx := g\<rparr>)\<rparr>)"
  unfolding only_ctx_def
  by (rule exI [of _ g], rule exI [of _ "ipc_translations k"], simp add: upd_thread_def)
    (rule exI [of _ g], rule exI [of _ tr], simp add: upd_thread_def)

lemma run_callback_signal:
  assumes "wait_objects (threads k t) \<noteq> []" "\<forall>a. wakeup_callback (threads k t) \<noteq> Some (ArbiterCallback a)"
    "wakeup_callback (threads k t) = Some IpcCallback \<longrightarrow> status (threads k t) = WaitSynchAny \<and>
       (kind k ob = KServerSession \<and> ses_client (ksessions k ob) \<longrightarrow> currently_handling (ksessions k ob) \<noteq> None)"
  shows "\<exists>k'. run_callback WR_Signal t (Some ob) k = Some k' \<and> only_ctx t k k' \<and>
    (\<forall>b. wakeup_callback (threads k t) = Some (SyncCallback b) \<longrightarrow> ctx (threads k' t) 0 = ResultSuccess \<and>
       ctx (threads k' t) 1 = (if b then word_of_int (last_index (wait_objects (threads k t)) ob) else ctx (threads k t) 1)) \<and>
    (wakeup_callback (threads k t) = Some IpcCallback \<longrightarrow>
       ctx (threads k' t) 0 = (if kind k ob = KServerSession \<and> \<not> ses_client (ksessions k ob) then ResultSessionClosed else ResultSuccess) \<and>
       ctx (threads k' t) 1 = word_of_int (last_index (wait_objects (threads k t)) ob)) \<and>
    ipc_translations k' = ipc_translations k @ delivered ob t k"
proof -
  consider "wakeup_callback (threads k t) = None" | b where "wakeup_callback (threads k t) = Some (SyncCallback b)"
    | "wakeup_callback (threads k t) = Some IpcCallback"
    using assms(2) by (metis WakeupCallback.exhaust option.exhaust)
  then show ?thesis
  proof cases
    case 1
    have "only_ctx t k k" unfolding only_ctx_def
      by (rule exI [of _ "ctx (threads k t)"], rule exI [of _ "ipc_translations k"]) (simp add: upd_thread_def)
    then show ?thesis using 1 by (simp add: run_callback_def delivered_def)
  next
    case 2
    then show ?thesis using assms(1)
      by (auto simp: run_callback_def only_ctx_def SetWaitSynchronizationResult_def SetWaitSynchronizationOutput_def
        GetWaitObjectIndex_def Let_def upd_thread_def delivered_def intro!: exI [of _ "ipc_translations k"])
  next
    case 3
    then show ?thesis using assms(1,3)
      by (auto simp: run_callback_def SetWaitSynchronizationResult_def SetWaitSynchronizationOutput_def
        GetWaitObjectIndex_def Let_def upd_thread_def delivered_def ipc_wakeup_def ReceiveIPCRequest_def intro!: only_ctxI)
  qed
qed

text \<open>Leaving the waiting lists.\<close>

lemma RemoveWaitingThread_spec:
  assumes "sched_inv k" "mutex_inv k"
  shows "sched_inv (RemoveWaitingThread ob t k)" "mutex_inv (RemoveWaitingThread ob t k)"
    "waiting_threads (RemoveWaitingThread ob t k) = (waiting_threads k)(ob := remove1 t (waiting_threads k ob))"
    "\<exists>k1. only_prio k1 (RemoveWaitingThread ob t k) \<and>
       k1 = upd_thread t (\<lambda>x. x\<lparr>pending_mutexes := pending_mutexes (threads (RemoveWaitingThread ob t k) t)\<rparr>)
              (upd_waiting ob (remove1 t) k)"
proof -
  let ?r = "RemoveWaitingThread ob t k"
  let ?k1 = "upd_thread t (\<lambda>x. x\<lparr>pending_mutexes := remove1 ob (pending_mutexes x)\<rparr>) (upd_waiting ob (remove1 t) k)"
  have w: "upd_thread t (\<lambda>x. x\<lparr>pending_mutexes := pending_mutexes (threads k t)\<rparr>) (upd_waiting ob (remove1 t) k) =
      upd_waiting ob (remove1 t) k" by (simp add: upd_thread_def)
  have k1: "sched_inv ?k1" "mutex_inv ?k1" "sched_inv (upd_waiting ob (remove1 t) k)" "mutex_inv (upd_waiting ob (remove1 t) k)"
    using assms by (auto intro: sched_inv_cong [OF assms(1)] simp: mutex_inv_def registered_def)
  have "sched_inv ?r \<and> mutex_inv ?r \<and> waiting_threads ?r = (waiting_threads k)(ob := remove1 t (waiting_threads k ob)) \<and>
     (\<exists>k1. only_prio k1 ?r \<and> k1 = upd_thread t (\<lambda>x. x\<lparr>pending_mutexes := pending_mutexes (threads ?r t)\<rparr>) (upd_waiting ob (remove1 t) k))"
  proof (cases "kind k ob = KMutex")
    case True
    then have r: "?r = Mutex_UpdatePriority ob ?k1" by (simp add: RemoveWaitingThread_def Let_def)
    note op = Mutex_UpdatePriority_only [of ?k1 ob]
    have "?k1 = upd_thread t (\<lambda>x. x\<lparr>pending_mutexes := pending_mutexes (threads ?r t)\<rparr>) (upd_waiting ob (remove1 t) k)"
      using only_prioD(7) [OF op, of t] by (simp add: r upd_thread_def)
    then show ?thesis
      using Mutex_UpdatePriority_inv [OF k1(1,2)] only_prio_mutex_inv [OF op k1(2)] only_prioD(14) [OF op] True op
      unfolding r by (metis upd_thread_simps(5,6) upd_waiting_simps(2,3))
  next
    case False
    then have r: "?r = upd_waiting ob (remove1 t) k" by (simp add: RemoveWaitingThread_def Let_def)
    show ?thesis unfolding r using k1(3,4) by (simp add: w)
  qed
  then show "sched_inv ?r" "mutex_inv ?r" "waiting_threads ?r = (waiting_threads k)(ob := remove1 t (waiting_threads k ob))"
    "\<exists>k1. only_prio k1 ?r \<and> k1 = upd_thread t (\<lambda>x. x\<lparr>pending_mutexes := pending_mutexes (threads ?r t)\<rparr>) (upd_waiting ob (remove1 t) k)"
    by blast+
qed

definition leave :: "nat \<Rightarrow> nat list \<Rightarrow> (nat \<Rightarrow> nat list) \<Rightarrow> kernel \<Rightarrow> kernel" where
  "leave t p W k = upd_thread t (\<lambda>x. x\<lparr>pending_mutexes := p\<rparr>) (k\<lparr>waiting_threads := W\<rparr>)"

lemma leave_simps [simp]:
  "waiting_threads (leave t p W k) = W" "kind (leave t p W k) = kind k" "mutexes (leave t p W k) = mutexes k"
  "threads (leave t p W k) = (threads k)(t := (threads k t)\<lparr>pending_mutexes := p\<rparr>)"
  "thread_list (leave t p W k) = thread_list k" "current_thread (leave t p W k) = current_thread k"
  "ready_queue (leave t p W k) = ready_queue k" "leave t p W (leave t p' W' k) = leave t p W k"
  "semaphores (leave t p W k) = semaphores k" "events (leave t p W k) = events k" "ktimers (leave t p W k) = ktimers k"
  "hle_notifier (leave t p W k) = hle_notifier k" "arbiter_waiting (leave t p W k) = arbiter_waiting k" "same_ipc (leave t p W k) k' = same_ipc k k'"
  "same_ipc k' (leave t p W k) = same_ipc k' k"
  by (simp_all add: leave_def upd_thread_def same_ipc_def)

lemma only_prio_leave: "only_prio a b \<Longrightarrow> only_prio (leave t p W a) (leave t p W b)"
  by (simp add: only_prio_def) (metis thread.update_convs(5,9) thread.surjective)

lemma fold_remove_spec:
  fixes k :: kernel and t :: nat and obs :: "nat list"
  assumes "sched_inv k" "mutex_inv k" "\<forall>ob. distinct (waiting_threads k ob)"
  defines "k' \<equiv> fold (\<lambda>ob. RemoveWaitingThread ob t) obs k"
  shows "sched_inv k' \<and> mutex_inv k' \<and>
    (\<exists>p. only_prio (leave t p (\<lambda>ob. if ob \<in> set obs then removeAll t (waiting_threads k ob) else waiting_threads k ob) k) k')"
  using assms(1-3) unfolding k'_def
proof (induction obs arbitrary: k)
  case Nil
  have "leave t (pending_mutexes (threads k t)) (waiting_threads k) k = k"
    by (simp add: leave_def upd_thread_def)
  then show ?case using Nil by (intro conjI exI [of _ "pending_mutexes (threads k t)"]) simp_all
next
  case (Cons ob obs)
  define k1 where "k1 = RemoveWaitingThread ob t k"
  note r = RemoveWaitingThread_spec [OF Cons.prems(1,2), of ob t, folded k1_def]
  have w1: "waiting_threads k1 = (waiting_threads k)(ob := removeAll t (waiting_threads k ob))"
    using r(3) Cons.prems(3) by (simp add: distinct_remove1_removeAll)
  obtain p1 where p1: "only_prio (leave t p1 (waiting_threads k1) k) k1"
  proof -
    obtain k2 where "only_prio k2 k1"
        "k2 = upd_thread t (\<lambda>x. x\<lparr>pending_mutexes := pending_mutexes (threads k1 t)\<rparr>) (upd_waiting ob (remove1 t) k)"
      using r(4) by blast
    then show thesis using that [of "pending_mutexes (threads k1 t)"] r(3) by (simp add: leave_def upd_waiting_def)
  qed
  have "\<forall>x. distinct (waiting_threads k1 x)" using Cons.prems(3) by (simp add: w1 distinct_removeAll)
  from Cons.IH [OF r(1,2) this] obtain p where ih: "sched_inv (fold (\<lambda>ob. RemoveWaitingThread ob t) obs k1)"
      "mutex_inv (fold (\<lambda>ob. RemoveWaitingThread ob t) obs k1)"
      "only_prio (leave t p (\<lambda>x. if x \<in> set obs then removeAll t (waiting_threads k1 x) else waiting_threads k1 x) k1)
         (fold (\<lambda>ob. RemoveWaitingThread ob t) obs k1)" by blast
  have W: "(\<lambda>x. if x \<in> set obs then removeAll t (waiting_threads k1 x) else waiting_threads k1 x) =
      (\<lambda>x. if x \<in> set (ob # obs) then removeAll t (waiting_threads k x) else waiting_threads k x)"
    by (auto simp: w1 fun_eq_iff)
  have "only_prio (leave t p (\<lambda>x. if x \<in> set (ob # obs) then removeAll t (waiting_threads k x) else waiting_threads k x) k)
      (fold (\<lambda>ob. RemoveWaitingThread ob t) obs k1)"
    using only_prio_trans [OF only_prio_leave [OF p1] ih(3) [unfolded W]] by simp
  then show ?case using ih(1,2) by (auto simp: k1_def)
qed

lemma clear_wait_objects_spec:
  fixes k :: kernel and t :: nat
  assumes inv: "sched_inv k" "mutex_inv k" "wait_inv k"
  defines "k' \<equiv> clear_wait_objects t k"
  shows "sched_inv k'" "mutex_inv k'" "wait_objects (threads k' t) = []"
    "waiting_threads k' = (\<lambda>ob. removeAll t (waiting_threads k ob))"
    "\<And>u. u \<noteq> t \<Longrightarrow> wait_objects (threads k' u) = wait_objects (threads k u)"
    "\<And>u. status (threads k' u) = status (threads k u) \<and> wakeup_callback (threads k' u) = wakeup_callback (threads k u) \<and>
       core_id (threads k' u) = core_id (threads k u) \<and> nominal_priority (threads k' u) = nominal_priority (threads k u) \<and>
       ctx (threads k' u) = ctx (threads k u) \<and> held_mutexes (threads k' u) = held_mutexes (threads k u)"
    "\<And>m. lock_count (mutexes k' m) = lock_count (mutexes k m) \<and> holding_thread (mutexes k' m) = holding_thread (mutexes k m)"
    "thread_list k' = thread_list k" "current_thread k' = current_thread k" "kind k' = kind k" "hle_notifier k' = hle_notifier k"
    "semaphores k' = semaphores k" "events k' = events k" "ktimers k' = ktimers k" "arbiter_waiting k' = arbiter_waiting k" "same_ipc k k'"
proof -
  let ?f = "fold (\<lambda>ob. RemoveWaitingThread ob t) (wait_objects (threads k t)) k"
  let ?W = "\<lambda>ob. if ob \<in> set (wait_objects (threads k t)) then removeAll t (waiting_threads k ob) else waiting_threads k ob"
  have "\<forall>ob. distinct (waiting_threads k ob)" using wait_invD(1) [OF inv(3)] by simp
  from fold_remove_spec [OF inv(1,2) this, of t "wait_objects (threads k t)"]
  obtain p where f: "sched_inv ?f" "mutex_inv ?f" "only_prio (leave t p ?W k) ?f" by blast
  have k': "k' = upd_thread t (\<lambda>x. x\<lparr>wait_objects := []\<rparr>) ?f" by (simp add: k'_def clear_wait_objects_def)
  have W: "?W = (\<lambda>ob. removeAll t (waiting_threads k ob))"
    using wait_invD(5) [OF inv(3), of _ t] by (auto simp: fun_eq_iff)
  note d = only_prioD [OF f(3), unfolded leave_simps]
  show "sched_inv k'" using f(1) by (rule sched_inv_cong) (simp_all add: k')
  show "mutex_inv k'" using f(2) by (simp add: mutex_inv_def k' registered_def)
  show "waiting_threads k' = (\<lambda>ob. removeAll t (waiting_threads k ob))" using d(14) W by (simp add: k')
  show "wait_objects (threads k' t) = []" by (simp add: k')
  show "wait_objects (threads k' u) = wait_objects (threads k u)" if "u \<noteq> t" for u using that d(2) [of u] by (simp add: k')
  show "status (threads k' u) = status (threads k u) \<and> wakeup_callback (threads k' u) = wakeup_callback (threads k u) \<and>
       core_id (threads k' u) = core_id (threads k u) \<and> nominal_priority (threads k' u) = nominal_priority (threads k u) \<and>
       ctx (threads k' u) = ctx (threads k u) \<and> held_mutexes (threads k' u) = held_mutexes (threads k u)" for u
    using d(1,3,4,5,6,8) [of u] by (cases "u = t") (simp_all add: k')
  show "lock_count (mutexes k' m) = lock_count (mutexes k m) \<and> holding_thread (mutexes k' m) = holding_thread (mutexes k m)" for m
    using d(11,12) [of m] by (simp add: k')
  show "thread_list k' = thread_list k" "current_thread k' = current_thread k" "kind k' = kind k" "hle_notifier k' = hle_notifier k"
    "semaphores k' = semaphores k" "events k' = events k" "ktimers k' = ktimers k" "arbiter_waiting k' = arbiter_waiting k"
    using d(13,15-21) by (simp_all add: k')
  show "same_ipc k k'" using d(24) by (simp add: k' same_ipc_def)
qed

lemma only_ctx_inv:
  assumes "only_ctx t k k'"
  shows "same_waits k k'" "sched_inv k \<Longrightarrow> sched_inv k'" "mutex_inv k \<Longrightarrow> mutex_inv k'"
    "mutexes k' = mutexes k" "\<And>u. u \<noteq> t \<Longrightarrow> threads k' u = threads k u" "\<And>u. ShouldWait ob u k' = ShouldWait ob u k" "semaphores k' = semaphores k"
    "ksessions k' = ksessions k" "pending_sessions k' = pending_sessions k" "client_ports k' = client_ports k"
proof -
  obtain g tr where k': "k' = upd_thread t (\<lambda>x. x\<lparr>ctx := g\<rparr>) (k\<lparr>ipc_translations := tr\<rparr>)" using assms by (auto simp: only_ctx_def)
  show "same_waits k k'" "mutexes k' = mutexes k" "\<And>u. u \<noteq> t \<Longrightarrow> threads k' u = threads k u" "semaphores k' = semaphores k"
    "ksessions k' = ksessions k" "pending_sessions k' = pending_sessions k" "client_ports k' = client_ports k"
    by (auto simp: k' same_waits_def)
  show "sched_inv k'" if "sched_inv k" using that by (rule sched_inv_cong) (simp_all add: k')
  show "mutex_inv k'" if "mutex_inv k" using that by (simp add: k' mutex_inv_def registered_def)
  show "ShouldWait ob u k' = ShouldWait ob u k" for u by (simp add: k' ShouldWait_def split: object_kind.splits)
qed

text \<open>The objects that a thread acquires when it is woken up, and the request that it is given.\<close>

definition taken_for :: "nat \<Rightarrow> nat \<Rightarrow> kernel \<Rightarrow> nat set" where
  "taken_for ob t k = (if status (threads k t) = WaitSynchAll then set (wait_objects (threads k t)) else {ob})"

definition handed_over :: "nat \<Rightarrow> nat \<Rightarrow> kernel \<Rightarrow> translation list" where
  "handed_over ob t k = (if wakeup_callback (threads k t) = Some IpcCallback \<and> kind k ob = KServerSession \<and> ses_client (ksessions k ob)
     then [(ob, last (pending_requesting_threads (ksessions k ob)), t, False)] else [])"

text \<open>What waking up \<open>t\<close> for object \<open>ob\<close> does.\<close>

definition woken :: "nat \<Rightarrow> nat \<Rightarrow> kernel \<Rightarrow> kernel \<Rightarrow> bool" where
  "woken ob t k k' \<longleftrightarrow>
     waiting_threads k' = (\<lambda>x. removeAll t (waiting_threads k x)) \<and>
     status (threads k' t) = Ready \<and> wait_objects (threads k' t) = [] \<and> wakeup_callback (threads k' t) = None \<and>
     (\<forall>b. wakeup_callback (threads k t) = Some (SyncCallback b) \<longrightarrow> ctx (threads k' t) 0 = ResultSuccess \<and>
        (b \<longrightarrow> ctx (threads k' t) 1 = word_of_int (last_index (wait_objects (threads k t)) ob))) \<and>
     (\<forall>u. u \<noteq> t \<longrightarrow> status (threads k' u) = status (threads k u) \<and> wait_objects (threads k' u) = wait_objects (threads k u) \<and>
        wakeup_callback (threads k' u) = wakeup_callback (threads k u) \<and> ctx (threads k' u) = ctx (threads k u)) \<and>
     (\<forall>u. core_id (threads k' u) = core_id (threads k u) \<and> nominal_priority (threads k' u) = nominal_priority (threads k u)) \<and>
     (\<forall>m. lock_count (mutexes k' m) \<le> lock_count (mutexes k m) + 1) \<and>
     (kind k ob = KMutex \<longrightarrow> holding_thread (mutexes k' ob) = Some t \<and> lock_count (mutexes k' ob) = lock_count (mutexes k ob) + 1) \<and>
     (kind k ob = KSemaphore \<longrightarrow> available_count (semaphores k' ob) = available_count (semaphores k ob) - 1) \<and>
     thread_list k' = thread_list k \<and> current_thread k' = current_thread k \<and> kind k' = kind k \<and>
     hle_notifier k' = hle_notifier k \<and> arbiter_waiting k' = arbiter_waiting k \<and>
     ksessions k' = (\<lambda>s. if s \<in> taken_for ob t k \<and> kind k s = KServerSession then popped (ksessions k s) else ksessions k s) \<and>
     pending_sessions k' = pending_sessions k \<and> client_ports k' = client_ports k \<and>
     (wakeup_callback (threads k t) = Some IpcCallback \<longrightarrow>
        ctx (threads k' t) 0 = (if kind k ob = KServerSession \<and> \<not> ses_client (ksessions k ob) then ResultSessionClosed else ResultSuccess) \<and>
        ctx (threads k' t) 1 = word_of_int (last_index (wait_objects (threads k t)) ob)) \<and>
     ipc_translations k' = ipc_translations k @ handed_over ob t k"

lemma wake_one_acquire:
  assumes inv: "kinv k" and t: "t \<in> set (waiting_threads k ob)" and can: "can_wake ob k t"
    and bound: "\<forall>m. lock_count (mutexes k m) + 1 < 2 ^ 31"
  shows "\<exists>k1. (if \<not> IsSleepingOnWaitAll t k then Acquire ob t k else acquire_all (wait_objects (threads k t)) t k) = Some k1 \<and>
    acquired k (taken_for ob t k) t k1"
proof -
  have k: "sched_inv k" "mutex_inv k" "wait_inv k" using inv by (simp_all add: kinv_def)
  have r: "registered k t" using wait_invD(2) [OF k(3) t] .
  show ?thesis
  proof (cases "status (threads k t) = WaitSynchAll")
    case True
    then show ?thesis
      using acquire_all_spec [OF k(1,2) r, of "wait_objects (threads k t)"] can bound wait_invD(6) [OF k(3) True]
      by (simp add: IsSleepingOnWaitAll_def can_wake_def taken_for_def)
  next
    case False
    then show ?thesis
      using Acquire_spec [OF k(1,2) r, of ob] can bound by (simp add: IsSleepingOnWaitAll_def can_wake_def taken_for_def)
  qed
qed

lemma wake_one_spec:
  assumes inv: "kinv k" and t: "t \<in> set (waiting_threads k ob)" and can: "can_wake ob k t"
    and bound: "\<forall>m. lock_count (mutexes k m) + 1 < 2 ^ 31"
  shows "\<exists>k'. wake_one ob t k = Some k' \<and> kinv k' \<and> woken ob t k k'"
proof -
  have k: "wait_inv k" using inv by (simp add: kinv_def)
  note w = wait_invD [OF k]
  let ?obs = "taken_for ob t k"
  have ob: "ob \<in> ?obs" using w(5) [of ob t] t by (simp add: taken_for_def)
  obtain k1 where k1: "(if \<not> IsSleepingOnWaitAll t k then Acquire ob t k else acquire_all (wait_objects (threads k t)) t k) = Some k1"
      "acquired k ?obs t k1"
    using wake_one_acquire [OF assms] by blast
  have sw1: "same_waits k k1" "sched_inv k1" "mutex_inv k1" using k1(2) by (simp_all add: acquired_def)
  have f1: "wait_objects (threads k1 t) = wait_objects (threads k t)" "wakeup_callback (threads k1 t) = wakeup_callback (threads k t)"
    using sw1(1) by (simp_all add: same_waits_def)
  have ne: "wait_objects (threads k1 t) \<noteq> []" using w(5) [of ob t] t f1(1) by auto
  have na: "\<forall>a. wakeup_callback (threads k1 t) \<noteq> Some (ArbiterCallback a)" using w(4) [OF t] f1(2) by simp
  have s1: "ksessions k1 = (\<lambda>s. if s \<in> ?obs \<and> kind k s = KServerSession then popped (ksessions k s) else ksessions k s)" "kind k1 = kind k"
    "pending_sessions k1 = pending_sessions k" "client_ports k1 = client_ports k" "ipc_translations k1 = ipc_translations k"
    using k1(2) by (simp_all add: acquired_def same_waits_def)
  have ipc: "wakeup_callback (threads k1 t) = Some IpcCallback \<longrightarrow> status (threads k1 t) = WaitSynchAny \<and>
       (kind k1 ob = KServerSession \<and> ses_client (ksessions k1 ob) \<longrightarrow> currently_handling (ksessions k1 ob) \<noteq> None)"
    using w(7) [OF t] f1(2) sw1(1) ob by (auto simp: s1 popped_def same_waits_def)
  have del: "delivered ob t k1 = handed_over ob t k" using ob f1(2) by (auto simp: delivered_def handed_over_def s1 popped_def)
  obtain k2 where k2: "run_callback WR_Signal t (Some ob) k1 = Some k2" "only_ctx t k1 k2"
      "\<forall>b. wakeup_callback (threads k1 t) = Some (SyncCallback b) \<longrightarrow> ctx (threads k2 t) 0 = ResultSuccess \<and>
        ctx (threads k2 t) 1 = (if b then word_of_int (last_index (wait_objects (threads k1 t)) ob) else ctx (threads k1 t) 1)"
      "wakeup_callback (threads k1 t) = Some IpcCallback \<longrightarrow>
       ctx (threads k2 t) 0 = (if kind k1 ob = KServerSession \<and> \<not> ses_client (ksessions k1 ob) then ResultSessionClosed else ResultSuccess) \<and>
       ctx (threads k2 t) 1 = word_of_int (last_index (wait_objects (threads k1 t)) ob)"
      "ipc_translations k2 = ipc_translations k1 @ delivered ob t k1"
    using run_callback_signal [OF ne na ipc] by blast
  note oc = only_ctx_inv [OF k2(2)]
  have sw2: "same_waits k k2" using same_waits_trans [OF sw1(1) oc(1)] .
  have i2: "sched_inv k2" "mutex_inv k2" "wait_inv k2" using oc(2,3) sw1 same_waits_inv [OF sw2 k] by simp_all
  define k3 where "k3 = clear_wait_objects t k2"
  note c = clear_wait_objects_spec [OF i2, where t = t, folded k3_def]
  have st: "status (threads k3 t) \<in> {WaitSynchAny, WaitSynchAll, WaitHleEvent}"
    using w(3) [OF t] c(6) [of t] sw2 by (simp add: same_waits_def)
  have "registered k3 t"
    using w(2) [OF t] c(6,8) sw2 by (simp add: registered_def same_waits_def)
  from ResumeFromWait_spec [OF c(1) this c(3)] st obtain k4 where k4: "ResumeFromWait t k3 = Some k4" "sched_inv k4"
      "k4 = PrepareReschedule (upd_thread t (\<lambda>x. x\<lparr>wakeup_callback := None, status := Ready\<rparr>)
         (upd_queue (core_id (threads k3 t)) (push_back (current_priority (threads k3 t)) t) k3))"
    by auto
  have wake: "wake_one ob t k = Some k4"
    unfolding wake_one_def using k1(1) k2(1) k4(1) by (simp add: k3_def)
  have lc: "lock_count (mutexes k4 m) \<le> lock_count (mutexes k m) + 1" for m
  proof -
    have "lock_count (mutexes k1 m) \<le> lock_count (mutexes k m) + (if m \<in> ?obs then 1 else 0)"
      using k1(2) by (simp add: acquired_def)
    then show ?thesis using c(7) [of m] oc(4) by (simp add: k4(3) split: if_splits)
  qed
  have ctx': "ctx (threads k3 u) = ctx (threads k u)" if "u \<noteq> t" for u
    using c(6) [of u] oc(5) [OF that] k1(2) that by (simp add: acquired_def)
  have wo: "wait_objects (threads k3 u) = wait_objects (threads k u)" if "u \<noteq> t" for u
    using c(5) [OF that] sw2 by (simp add: same_waits_def)
  have sync: "ctx (threads k4 t) 0 = ResultSuccess \<and> (b \<longrightarrow> ctx (threads k4 t) 1 = word_of_int (last_index (wait_objects (threads k t)) ob))"
    if "wakeup_callback (threads k t) = Some (SyncCallback b)" for b
    using k2(3) f1 that c(6) [of t] by (simp add: k4(3))
  have data: "kind k ob = KMutex \<longrightarrow> holding_thread (mutexes k4 ob) = Some t \<and> lock_count (mutexes k4 ob) = lock_count (mutexes k ob) + 1"
      "kind k ob = KSemaphore \<longrightarrow> available_count (semaphores k4 ob) = available_count (semaphores k ob) - 1"
    using k1(2) ob c(7) [of ob] c(12) oc(4,7) by (simp_all add: k4(3) acquired_def)
  have cl: "ses_client (ksessions k1 ob) = ses_client (ksessions k ob)" by (simp add: s1 popped_def)
  have ipc4: "ksessions k4 = ksessions k1" "pending_sessions k4 = pending_sessions k" "client_ports k4 = client_ports k"
    "ipc_translations k4 = ipc_translations k @ handed_over ob t k"
    using c(16) oc(8-10) s1(3-5) k2(5) del by (simp_all add: k4(3) same_ipc_def)
  have ictx: "ctx (threads k4 t) 0 = (if kind k ob = KServerSession \<and> \<not> ses_client (ksessions k ob) then ResultSessionClosed else ResultSuccess) \<and>
       ctx (threads k4 t) 1 = word_of_int (last_index (wait_objects (threads k t)) ob)" if "wakeup_callback (threads k t) = Some IpcCallback"
    using k2(4) f1 that c(6) [of t] by (simp add: k4(3) cl s1(2))
  have base: "waiting_threads k4 = (\<lambda>x. removeAll t (waiting_threads k x))" "status (threads k4 t) = Ready" "wait_objects (threads k4 t) = []"
    "wakeup_callback (threads k4 t) = None" "thread_list k4 = thread_list k" "current_thread k4 = current_thread k" "kind k4 = kind k"
    "hle_notifier k4 = hle_notifier k" "arbiter_waiting k4 = arbiter_waiting k"
    using c(3,4,8-11,15) sw2 by (simp_all add: k4(3) same_waits_def)
  have oth: "status (threads k4 u) = status (threads k u) \<and> wait_objects (threads k4 u) = wait_objects (threads k u) \<and>
      wakeup_callback (threads k4 u) = wakeup_callback (threads k u) \<and> ctx (threads k4 u) = ctx (threads k u)" if "u \<noteq> t" for u
    using that c(6) [of u] ctx' [OF that] wo [OF that] sw2 by (simp add: k4(3) same_waits_def)
  have prio: "core_id (threads k4 u) = core_id (threads k u) \<and> nominal_priority (threads k4 u) = nominal_priority (threads k u)" for u
    using c(6) [of u] sw2 by (cases "u = t") (simp_all add: k4(3) same_waits_def)
  have wk: "woken ob t k k4"
    unfolding woken_def ipc4 using lc sync base oth prio data ictx s1(1) by blast
  have "mutex_inv k4" using c(2) by (simp add: k4(3) mutex_inv_def registered_def)
  moreover have "wait_inv k4"
    unfolding wait_inv_def
  proof (intro conjI allI ballI impI)
    fix x u
    show "distinct (waiting_threads k4 x)" using w(1) [of x] wk by (simp add: woken_def distinct_removeAll)
    show "x \<in> set (wait_objects (threads k4 u)) \<longleftrightarrow> u \<in> set (waiting_threads k4 x)"
      using w(5) [of x u] wk by (cases "u = t") (simp_all add: woken_def)
    show "distinct (wait_objects (threads k4 u))" if "status (threads k4 u) = WaitSynchAll"
      using that w(6) [of u] wk by (cases "u = t") (simp_all add: woken_def)
    assume "u \<in> set (waiting_threads k4 x)"
    then have u: "u \<noteq> t" "u \<in> set (waiting_threads k x)" using wk by (auto simp: woken_def)
    show "registered k4 u" "status (threads k4 u) \<in> {WaitSynchAny, WaitSynchAll, WaitHleEvent}"
      "wakeup_callback (threads k4 u) \<noteq> Some (ArbiterCallback a)" for a
      using w(2-4) [OF u(2)] wk u(1) by (simp_all add: woken_def registered_def)
    show "status (threads k4 u) = WaitSynchAny" if "wakeup_callback (threads k4 u) = Some IpcCallback"
      using w(7) [OF u(2)] wk u(1) that by (simp add: woken_def)
  qed
  ultimately show ?thesis using wake k4(2) wk by (auto simp: kinv_def)
qed

text \<open>The first of the waiting threads with the best priority among those that can be woken.\<close>

definition highest :: "nat \<Rightarrow> kernel \<Rightarrow> nat \<Rightarrow> bool" where
  "highest ob k t \<longleftrightarrow> (\<exists>xs ys. waiting_threads k ob = xs @ t # ys \<and> can_wake ob k t \<and>
     (\<forall>u \<in> set xs. can_wake ob k u \<longrightarrow> current_priority (threads k t) < current_priority (threads k u)) \<and>
     (\<forall>u \<in> set ys. can_wake ob k u \<longrightarrow> current_priority (threads k t) \<le> current_priority (threads k u)))"

lemma highest_loop_spec:
  assumes "\<forall>t \<in> set ts. status (threads k t) \<in> {WaitSynchAny, WaitSynchAll, WaitHleEvent}"
  shows "highest_loop ob k c p ts = Some r \<Longrightarrow>
    (r = c \<and> (\<forall>u \<in> set ts. can_wake ob k u \<longrightarrow> p \<le> current_priority (threads k u))) \<or>
    (\<exists>t xs ys. r = Some t \<and> ts = xs @ t # ys \<and> can_wake ob k t \<and> current_priority (threads k t) < p \<and>
       (\<forall>u \<in> set xs. can_wake ob k u \<longrightarrow> current_priority (threads k t) < current_priority (threads k u)) \<and>
       (\<forall>u \<in> set ys. can_wake ob k u \<longrightarrow> current_priority (threads k t) \<le> current_priority (threads k u)))"
  using assms
proof (induction ts arbitrary: c p)
  case (Cons t ts)
  have st: "\<forall>t \<in> set ts. status (threads k t) \<in> {WaitSynchAny, WaitSynchAll, WaitHleEvent}" using Cons.prems(2) by simp
  show ?case
  proof (cases "current_priority (threads k t) \<ge> p \<or> \<not> can_wake ob k t")
    case True
    have skip: "can_wake ob k t \<Longrightarrow> p \<le> current_priority (threads k t)" using True by auto
    have "highest_loop ob k c p ts = Some r" using Cons.prems True by (simp split: if_splits)
    from Cons.IH [OF this st] show ?thesis
    proof (elim disjE)
      assume "\<exists>t' xs ys. r = Some t' \<and> ts = xs @ t' # ys \<and> can_wake ob k t' \<and> current_priority (threads k t') < p \<and>
       (\<forall>u \<in> set xs. can_wake ob k u \<longrightarrow> current_priority (threads k t') < current_priority (threads k u)) \<and>
       (\<forall>u \<in> set ys. can_wake ob k u \<longrightarrow> current_priority (threads k t') \<le> current_priority (threads k u))"
      then obtain t' xs ys where "r = Some t'" "ts = xs @ t' # ys" "can_wake ob k t'" "current_priority (threads k t') < p"
        "\<forall>u \<in> set xs. can_wake ob k u \<longrightarrow> current_priority (threads k t') < current_priority (threads k u)"
        "\<forall>u \<in> set ys. can_wake ob k u \<longrightarrow> current_priority (threads k t') \<le> current_priority (threads k u)" by blast
      then show ?thesis using skip by (intro disjI2 exI [of _ t'] exI [of _ "t # xs"] exI [of _ ys]) auto
    qed (use skip in auto)
  next
    case False
    then have "highest_loop ob k (Some t) (current_priority (threads k t)) ts = Some r" using Cons.prems by (simp split: if_splits)
    from Cons.IH [OF this st] show ?thesis
    proof (elim disjE)
      assume "\<exists>t' xs ys. r = Some t' \<and> ts = xs @ t' # ys \<and> can_wake ob k t' \<and> current_priority (threads k t') < current_priority (threads k t) \<and>
       (\<forall>u \<in> set xs. can_wake ob k u \<longrightarrow> current_priority (threads k t') < current_priority (threads k u)) \<and>
       (\<forall>u \<in> set ys. can_wake ob k u \<longrightarrow> current_priority (threads k t') \<le> current_priority (threads k u))"
      then obtain t' xs ys where "r = Some t'" "ts = xs @ t' # ys" "can_wake ob k t'"
        "current_priority (threads k t') < current_priority (threads k t)"
        "\<forall>u \<in> set xs. can_wake ob k u \<longrightarrow> current_priority (threads k t') < current_priority (threads k u)"
        "\<forall>u \<in> set ys. can_wake ob k u \<longrightarrow> current_priority (threads k t') \<le> current_priority (threads k u)" by blast
      then show ?thesis using False by (intro disjI2 exI [of _ t'] exI [of _ "t # xs"] exI [of _ ys]) auto
    next
      assume "r = Some t \<and> (\<forall>u \<in> set ts. can_wake ob k u \<longrightarrow> current_priority (threads k t) \<le> current_priority (threads k u))"
      then show ?thesis using False by (intro disjI2 exI [of _ t] exI [of _ "[]"] exI [of _ ts]) auto
    qed
  qed
qed simp

section \<open>Waking up all\<close>

lemma highest_loop_total:
  "\<forall>t \<in> set ts. status (threads k t) \<in> {WaitSynchAny, WaitSynchAll, WaitHleEvent} \<Longrightarrow> \<exists>r. highest_loop ob k c p ts = Some r"
  by (induction ts arbitrary: c p) auto

lemma registered_prio: "sched_inv k \<Longrightarrow> registered k t \<Longrightarrow> current_priority (threads k t) < 64"
  using core_invD(5) [OF sched_invD] by (simp add: registered_def)

lemma GetHighestPriorityReadyThread_spec:
  assumes "kinv k"
  shows "\<exists>r. GetHighestPriorityReadyThread ob k = Some r \<and>
    (case r of None \<Rightarrow> \<forall>t \<in> set (waiting_threads k ob). \<not> can_wake ob k t | Some t \<Rightarrow> highest ob k t)"
proof -
  have k: "sched_inv k" "wait_inv k" using assms by (simp_all add: kinv_def)
  have st: "\<forall>t \<in> set (waiting_threads k ob). status (threads k t) \<in> {WaitSynchAny, WaitSynchAll, WaitHleEvent}"
    using wait_invD(3) [OF k(2)] by blast
  then obtain r where r: "highest_loop ob k None (ThreadPrioLowest + 1) (waiting_threads k ob) = Some r"
    using highest_loop_total by blast
  have "current_priority (threads k t) < ThreadPrioLowest + 1" if "t \<in> set (waiting_threads k ob)" for t
    using registered_prio [OF k(1) wait_invD(2) [OF k(2) that]] by (simp add: ThreadPrioLowest_def)
  then have "case r of None \<Rightarrow> \<forall>t \<in> set (waiting_threads k ob). \<not> can_wake ob k t | Some t \<Rightarrow> highest ob k t"
    using highest_loop_spec [OF st r] by (fastforce simp: highest_def)
  then show ?thesis using r by (auto simp: GetHighestPriorityReadyThread_def)
qed

text \<open>The run of the loop: the list has the threads in the order in which they are woken.\<close>

inductive wake_run :: "nat \<Rightarrow> kernel \<Rightarrow> nat list \<Rightarrow> kernel \<Rightarrow> bool" for ob where
  finish: "\<forall>t \<in> set (waiting_threads k ob). \<not> can_wake ob k t \<Longrightarrow> wake_run ob k [] k"
| step: "highest ob k t \<Longrightarrow> wake_one ob t k = Some k1 \<Longrightarrow> wake_run ob k1 ts k2 \<Longrightarrow> wake_run ob k (t # ts) k2"

inductive_cases wake_run_NilE: "wake_run ob k [] k'"
inductive_cases wake_run_ConsE: "wake_run ob k (t # ts) k'"

definition all_woken :: "nat list \<Rightarrow> kernel \<Rightarrow> kernel \<Rightarrow> bool" where
  "all_woken ts k k' \<longleftrightarrow>
     waiting_threads k' = (\<lambda>x. filter (\<lambda>u. u \<notin> set ts) (waiting_threads k x)) \<and>
     (\<forall>t \<in> set ts. status (threads k' t) = Ready \<and> wait_objects (threads k' t) = [] \<and>
        (\<forall>b. wakeup_callback (threads k t) = Some (SyncCallback b) \<longrightarrow> ctx (threads k' t) 0 = ResultSuccess)) \<and>
     (\<forall>t. t \<notin> set ts \<longrightarrow> status (threads k' t) = status (threads k t) \<and> wait_objects (threads k' t) = wait_objects (threads k t) \<and>
        wakeup_callback (threads k' t) = wakeup_callback (threads k t) \<and> ctx (threads k' t) = ctx (threads k t)) \<and>
     thread_list k' = thread_list k \<and> current_thread k' = current_thread k \<and> kind k' = kind k \<and>
     hle_notifier k' = hle_notifier k \<and> arbiter_waiting k' = arbiter_waiting k \<and>
     (\<forall>t. core_id (threads k' t) = core_id (threads k t) \<and> nominal_priority (threads k' t) = nominal_priority (threads k t))"

lemma all_woken_step:
  assumes w: "woken ob t k k1" and a: "all_woken ts k1 k2" and t: "t \<notin> set ts"
  shows "all_woken (t # ts) k k2"
  unfolding all_woken_def
proof (intro conjI)
  show "waiting_threads k2 = (\<lambda>x. filter (\<lambda>u. u \<notin> set (t # ts)) (waiting_threads k x))"
    using w a by (auto simp: woken_def all_woken_def fun_eq_iff removeAll_filter_not_eq intro!: filter_cong)
  show "\<forall>u \<in> set (t # ts). status (threads k2 u) = Ready \<and> wait_objects (threads k2 u) = [] \<and>
        (\<forall>b. wakeup_callback (threads k u) = Some (SyncCallback b) \<longrightarrow> ctx (threads k2 u) 0 = ResultSuccess)"
  proof
    fix u assume "u \<in> set (t # ts)"
    then show "status (threads k2 u) = Ready \<and> wait_objects (threads k2 u) = [] \<and>
        (\<forall>b. wakeup_callback (threads k u) = Some (SyncCallback b) \<longrightarrow> ctx (threads k2 u) 0 = ResultSuccess)"
      using w a t by (cases "u = t") (auto simp: woken_def all_woken_def)
  qed
qed (use w a t in \<open>auto simp: woken_def all_woken_def\<close>)

lemma highest_waiting: "highest ob k t \<Longrightarrow> t \<in> set (waiting_threads k ob) \<and> can_wake ob k t"
  by (auto simp: highest_def)

lemma wakeup_loop_spec:
  assumes "kinv k" "\<forall>m. lock_count (mutexes k m) + int (length (waiting_threads k ob)) < 2 ^ 31"
  shows "\<exists>ts k'. wakeup_loop ob k = Some k' \<and> wake_run ob k ts k' \<and> kinv k' \<and> all_woken ts k k' \<and>
    distinct ts \<and> set ts \<subseteq> set (waiting_threads k ob) \<and> (\<forall>t \<in> set (waiting_threads k' ob). \<not> can_wake ob k' t)"
  using assms
proof (induction "length (waiting_threads k ob)" arbitrary: k rule: less_induct)
  case less
  obtain r where r: "GetHighestPriorityReadyThread ob k = Some r"
    "case r of None \<Rightarrow> \<forall>t \<in> set (waiting_threads k ob). \<not> can_wake ob k t | Some t \<Rightarrow> highest ob k t"
    using GetHighestPriorityReadyThread_spec [OF less.prems(1)] by blast
  show ?case
  proof (cases r)
    case None
    then have n: "\<forall>t \<in> set (waiting_threads k ob). \<not> can_wake ob k t" using r by simp
    have "wakeup_loop ob k = Some k" using r None by (simp add: wakeup_loop.simps)
    moreover have "all_woken [] k k" by (simp add: all_woken_def)
    ultimately show ?thesis using wake_run.finish [OF n] n less.prems(1) by (intro exI [of _ "[]"] exI [of _ k]) simp
  next
    case (Some t)
    then have h: "highest ob k t" using r by simp
    note hw = highest_waiting [OF h]
    have "1 \<le> int (length (waiting_threads k ob))" using hw by (cases "waiting_threads k ob") auto
    then have b: "lock_count (mutexes k m) + 1 < 2 ^ 31" for m using less.prems(2) [rule_format, of m] by linarith
    obtain k1 where k1: "wake_one ob t k = Some k1" "kinv k1" "woken ob t k k1"
      using wake_one_spec [OF less.prems(1), of t ob] b hw by blast
    have w1: "waiting_threads k1 ob = removeAll t (waiting_threads k ob)" using k1(3) by (simp add: woken_def)
    have len: "length (waiting_threads k1 ob) + 1 \<le> length (waiting_threads k ob)"
      using hw length_removeAll_less [of t "waiting_threads k ob"] by (simp add: w1)
    have "lock_count (mutexes k1 m) + int (length (waiting_threads k1 ob)) < 2 ^ 31" for m
    proof -
      have "lock_count (mutexes k1 m) \<le> lock_count (mutexes k m) + 1" using k1(3) by (simp add: woken_def)
      then show ?thesis using len less.prems(2) [rule_format, of m] by linarith
    qed
    then obtain ts k' where rec: "wakeup_loop ob k1 = Some k'" "wake_run ob k1 ts k'" "kinv k'" "all_woken ts k1 k'" "distinct ts"
        "set ts \<subseteq> set (waiting_threads k1 ob)" "\<forall>t \<in> set (waiting_threads k' ob). \<not> can_wake ob k' t"
      using less.hyps [of k1] len k1(2) by auto
    have t: "t \<notin> set ts" using rec(6) w1 by auto
    have "wakeup_loop ob k = Some k'" using r Some k1(1) rec(1) by (subst wakeup_loop.simps) simp
    then show ?thesis
      using wake_run.step [OF h k1(1) rec(2)] all_woken_step [OF k1(3) rec(4) t] rec t hw w1
      by (intro exI [of _ "t # ts"] exI [of _ k']) auto
  qed
qed

section \<open>Going to sleep\<close>

lemma AddWaitingThread_spec:
  assumes "sched_inv k" "mutex_inv k"
  shows "sched_inv (AddWaitingThread ob t k) \<and> mutex_inv (AddWaitingThread ob t k) \<and>
    (\<exists>p. only_prio (leave t p ((waiting_threads k)(ob := if t \<in> set (waiting_threads k ob) then waiting_threads k ob
       else waiting_threads k ob @ [t])) k) (AddWaitingThread ob t k))"
proof -
  let ?W = "(waiting_threads k)(ob := if t \<in> set (waiting_threads k ob) then waiting_threads k ob else waiting_threads k ob @ [t])"
  have inv: "sched_inv (leave t p ?W k)" "mutex_inv (leave t p ?W k)" for p
    using assms by (auto intro: sched_inv_cong [OF assms(1)] simp: mutex_inv_def registered_def)
  have w: "upd_waiting ob (\<lambda>ws. if t \<in> set ws then ws else ws @ [t]) k = leave t (pending_mutexes (threads k t)) ?W k"
    by (simp add: upd_waiting_def leave_def upd_thread_def)
  show ?thesis
  proof (cases "kind k ob = KMutex")
    case True
    let ?k1 = "leave t (set_insert ob (pending_mutexes (threads k t))) ?W k"
    have "upd_thread t (\<lambda>x. x\<lparr>pending_mutexes := set_insert ob (pending_mutexes x)\<rparr>) (leave t p ?W k) =
        leave t (set_insert ob p) ?W k" for p
      by (simp add: leave_def upd_thread_def)
    then have r: "AddWaitingThread ob t k = Mutex_UpdatePriority ob ?k1"
      using True w by (simp add: AddWaitingThread_def Let_def)
    have k1: "sched_inv ?k1" "mutex_inv ?k1" by (rule inv)+
    show ?thesis
      unfolding r using Mutex_UpdatePriority_inv [OF k1, of ob] only_prio_mutex_inv [OF Mutex_UpdatePriority_only k1(2)]
        Mutex_UpdatePriority_only [of ?k1 ob] True by auto
  next
    case False
    then have r: "AddWaitingThread ob t k = leave t (pending_mutexes (threads k t)) ?W k"
      using w by (simp add: AddWaitingThread_def Let_def)
    show ?thesis unfolding r using inv only_prio_refl by blast
  qed
qed

lemma fold_add_spec:
  assumes "sched_inv k" "mutex_inv k" "\<forall>ob. t \<in> set (waiting_threads k ob) \<longrightarrow> ob \<in> D"
  shows "sched_inv (fold (\<lambda>ob. AddWaitingThread ob t) obs k) \<and> mutex_inv (fold (\<lambda>ob. AddWaitingThread ob t) obs k) \<and>
    (\<exists>p. only_prio (leave t p (\<lambda>ob. if ob \<in> set obs \<and> t \<notin> set (waiting_threads k ob) then waiting_threads k ob @ [t]
       else waiting_threads k ob) k) (fold (\<lambda>ob. AddWaitingThread ob t) obs k))"
  using assms
proof (induction obs arbitrary: k D)
  case Nil
  have "leave t (pending_mutexes (threads k t)) (waiting_threads k) k = k" by (simp add: leave_def upd_thread_def)
  then show ?case using Nil by (intro conjI exI [of _ "pending_mutexes (threads k t)"]) simp_all
next
  case (Cons ob obs)
  define k1 where "k1 = AddWaitingThread ob t k"
  let ?W1 = "(waiting_threads k)(ob := if t \<in> set (waiting_threads k ob) then waiting_threads k ob else waiting_threads k ob @ [t])"
  obtain p1 where r: "sched_inv k1" "mutex_inv k1" "only_prio (leave t p1 ?W1 k) k1"
    using AddWaitingThread_spec [OF Cons.prems(1,2), of ob t] unfolding k1_def by blast
  have w1: "waiting_threads k1 = ?W1" using only_prioD(14) [OF r(3)] by simp
  have "\<forall>x. t \<in> set (waiting_threads k1 x) \<longrightarrow> x \<in> insert ob D" using Cons.prems(3) by (auto simp: w1)
  from Cons.IH [OF r(1,2) this] obtain p where ih: "sched_inv (fold (\<lambda>ob. AddWaitingThread ob t) obs k1)"
      "mutex_inv (fold (\<lambda>ob. AddWaitingThread ob t) obs k1)"
      "only_prio (leave t p (\<lambda>x. if x \<in> set obs \<and> t \<notin> set (waiting_threads k1 x) then waiting_threads k1 x @ [t] else waiting_threads k1 x) k1)
         (fold (\<lambda>ob. AddWaitingThread ob t) obs k1)" by blast
  have W: "(\<lambda>x. if x \<in> set obs \<and> t \<notin> set (waiting_threads k1 x) then waiting_threads k1 x @ [t] else waiting_threads k1 x) =
      (\<lambda>x. if x \<in> set (ob # obs) \<and> t \<notin> set (waiting_threads k x) then waiting_threads k x @ [t] else waiting_threads k x)"
    by (auto simp: w1 fun_eq_iff)
  have "only_prio (leave t p (\<lambda>x. if x \<in> set (ob # obs) \<and> t \<notin> set (waiting_threads k x) then waiting_threads k x @ [t]
      else waiting_threads k x) k) (fold (\<lambda>ob. AddWaitingThread ob t) obs k1)"
    using only_prio_trans [OF only_prio_leave [OF r(3)] ih(3) [unfolded W]] by simp
  then show ?case using ih(1,2) by (auto simp: k1_def)
qed

text \<open>
  \<open>asleep s obs b t k\<close>: the thread \<open>t\<close> has been put to sleep with status \<open>s\<close> on the objects \<open>obs\<close>; the timeout
  and the request to reschedule are left out.
\<close>

definition asleep_with :: "ThreadStatus \<Rightarrow> nat list \<Rightarrow> WakeupCallback \<Rightarrow> nat \<Rightarrow> kernel \<Rightarrow> kernel" where
  "asleep_with s obs cb t k =
     upd_thread t (\<lambda>x. x\<lparr>status := s, wait_objects := obs, wakeup_callback := Some cb\<rparr>)
       (fold (\<lambda>ob. AddWaitingThread ob t) obs k)"

abbreviation asleep :: "ThreadStatus \<Rightarrow> nat list \<Rightarrow> bool \<Rightarrow> nat \<Rightarrow> kernel \<Rightarrow> kernel" where
  "asleep s obs b \<equiv> asleep_with s obs (SyncCallback b)"

lemma asleep_with_inv:
  assumes inv: "kinv k" and t: "registered k t" "status (threads k t) \<noteq> Ready" "wait_objects (threads k t) = []"
    and s: "s = WaitSynchAny \<or> s = WaitSynchAll \<and> distinct obs \<and> cb \<noteq> IpcCallback" and cb: "\<forall>a. cb \<noteq> ArbiterCallback a"
  shows "kinv (asleep_with s obs cb t k)"
    "waiting_threads (asleep_with s obs cb t k) = (\<lambda>ob. if ob \<in> set obs then waiting_threads k ob @ [t] else waiting_threads k ob)"
    "\<And>u. u \<noteq> t \<Longrightarrow> threads (asleep_with s obs cb t k) u = (threads k u)\<lparr>current_priority := current_priority (threads (asleep_with s obs cb t k) u)\<rparr>"
    "\<And>u. ShouldWait ob u (asleep_with s obs cb t k) \<longleftrightarrow> ShouldWait ob u k \<or> kind k ob = KThread t \<and> status (threads k t) = Dead"
proof -
  have k: "sched_inv k" "mutex_inv k" "wait_inv k" using inv by (simp_all add: kinv_def)
  have nowhere: "t \<notin> set (waiting_threads k ob)" for ob using wait_invD(5) [OF k(3), of ob t] t(3) by simp
  let ?f = "fold (\<lambda>ob. AddWaitingThread ob t) obs k"
  let ?W = "\<lambda>ob. if ob \<in> set obs then waiting_threads k ob @ [t] else waiting_threads k ob"
  obtain p where f: "sched_inv ?f" "mutex_inv ?f" "only_prio (leave t p ?W k) ?f"
    using fold_add_spec [OF k(1,2), of t UNIV obs] nowhere by auto
  note d = only_prioD [OF f(3), unfolded leave_simps]
  define k' where "k' = asleep_with s obs cb t k"
  have th: "threads k' u = (if u = t then (threads ?f t)\<lparr>status := s, wait_objects := obs, wakeup_callback := Some cb\<rparr>
      else threads ?f u)" for u by (simp add: k'_def asleep_with_def)
  have fr: "thread_list k' = thread_list k" "waiting_threads k' = ?W" "current_thread k' = current_thread ?f"
      "ready_queue k' = ready_queue ?f" "kind k' = kind k" "mutexes k' = mutexes ?f" "thread_list ?f = thread_list k"
      "semaphores k' = semaphores k" "events k' = events k" "ktimers k' = ktimers k"
    using d by (simp_all add: k'_def asleep_with_def)
  have ipc: "ksessions k' = ksessions k" "pending_sessions k' = pending_sessions k"
    using d(24) by (simp_all add: k'_def asleep_with_def same_ipc_def leave_simps)
  have "status (threads ?f t) \<noteq> Ready" using d(1) [of t] t(2) by simp
  then have sched: "sched_inv k'"
    using f(1) s by (intro sleep_inv [of ?f t s k']) (auto simp: th fr)
  have reg: "registered k' u \<longleftrightarrow> registered k u" for u
    using d(4) [of u] fr(1) by (cases "u = t") (simp_all add: registered_def th)
  have same: "status (threads k' u) = status (threads k u)" "wait_objects (threads k' u) = wait_objects (threads k u)"
      "wakeup_callback (threads k' u) = wakeup_callback (threads k u)" if "u \<noteq> t" for u
    using that d(1-3) [of u] by (simp_all add: th)
  have wait: "wait_inv k'"
    unfolding wait_inv_def reg
  proof (intro conjI allI ballI impI)
    fix x u
    show "distinct (waiting_threads k' x)" using wait_invD(1) [OF k(3)] nowhere by (simp add: fr)
    show "x \<in> set (wait_objects (threads k' u)) \<longleftrightarrow> u \<in> set (waiting_threads k' x)"
      using wait_invD(5) [OF k(3), of x u] nowhere same [of u] by (cases "u = t") (simp_all add: fr th)
    show "distinct (wait_objects (threads k' u))" if "status (threads k' u) = WaitSynchAll"
      using that wait_invD(6) [OF k(3), of u] same [of u] s by (cases "u = t") (auto simp: th)
    assume "u \<in> set (waiting_threads k' x)"
    then have "u = t \<or> u \<noteq> t \<and> u \<in> set (waiting_threads k x)" by (auto simp: fr split: if_splits)
    then show "registered k u" "status (threads k' u) \<in> {WaitSynchAny, WaitSynchAll, WaitHleEvent}"
      "wakeup_callback (threads k' u) \<noteq> Some (ArbiterCallback a)" for a
      using wait_invD(2-4) [OF k(3), of u x] same [of u] t(1) s cb by (auto simp: th)
    show "status (threads k' u) = WaitSynchAny" if "wakeup_callback (threads k' u) = Some IpcCallback"
      using \<open>u = t \<or> _\<close> wait_invD(7) [OF k(3), of u x] same [of u] s that by (auto simp: th)
  qed
  have "mutex_inv k'" using f(2) by (simp add: k'_def asleep_with_def mutex_inv_def registered_def)
  then show "kinv (asleep_with s obs cb t k)" using sched wait by (simp add: kinv_def k'_def)
  show "waiting_threads (asleep_with s obs cb t k) = ?W" using fr(2) by (simp add: k'_def)
  show "threads (asleep_with s obs cb t k) u = (threads k u)\<lparr>current_priority := current_priority (threads (asleep_with s obs cb t k) u)\<rparr>"
    if "u \<noteq> t" for u
  proof -
    have "threads ?f u = (threads k u)\<lparr>current_priority := current_priority (threads ?f u)\<rparr>"
      using conjunct1 [OF f(3) [unfolded only_prio_def], rule_format, of u] that by simp
    then show ?thesis using th [of u] that by (simp add: k'_def)
  qed
  have "status (threads k' u) = (if u = t then s else status (threads k u))" for u
    using d(1) [of u] by (simp add: th)
  then show "ShouldWait ob u (asleep_with s obs cb t k) \<longleftrightarrow> ShouldWait ob u k \<or> kind k ob = KThread t \<and> status (threads k t) = Dead" for u
    unfolding k'_def [symmetric] using d(11,12) [of ob] s by (auto simp: ShouldWait_def fr ipc split: object_kind.splits)
qed

lemmas asleep_inv = asleep_with_inv [where cb = "SyncCallback b" for b, simplified]

end
