(* ===== verification/Kernel_Sync.thy ===== *)
theory Kernel_Sync
  imports Wait_Object
begin

text \<open>
  What the synchronisation objects guarantee: the wake-up loop ends, wakes threads in the order of their
  priorities and leaves nobody behind; what releasing a semaphore or a mutex does; priority
  inheritance and its limits; and states that the code does not handle.
\<close>

section \<open>The wake-up loop\<close>

lemma WakeupAll_effect:
  assumes inv: "kinv k" and bound: "\<forall>m. lock_count (mutexes k m) + int (length (waiting_threads k ob)) < 2 ^ 31"
  shows "\<exists>ts k1 k'. WakeupAllWaitingThreads ob k = Some k' \<and> wake_run ob k ts k1 \<and> kinv k1 \<and> kinv k' \<and> all_woken ts k k' \<and>
    distinct ts \<and> set ts \<subseteq> set (waiting_threads k ob) \<and> (\<forall>t \<in> set (waiting_threads k' ob). \<not> can_wake ob k' t) \<and>
    threads k' = threads k1 \<and> mutexes k' = mutexes k1 \<and> semaphores k' = semaphores k1"
proof -
  obtain ts k1 where loop: "wakeup_loop ob k = Some k1" "wake_run ob k ts k1" "kinv k1" "all_woken ts k k1" "distinct ts"
      "set ts \<subseteq> set (waiting_threads k ob)" "\<forall>t \<in> set (waiting_threads k1 ob). \<not> can_wake ob k1 t"
    using wakeup_loop_spec [OF assms] by blast
  define k2 where "k2 = (if hle_notifier k1 ob then k1\<lparr>hle_notified := hle_notified k1 @ [ob]\<rparr> else k1)"
  define k' where "k' = (case kind k2 ob of
         KEvent \<Rightarrow> if ev_reset_type (events k2 ob) = Pulse then upd_event ob (\<lambda>x. x\<lparr>ev_signaled := False\<rparr>) k2 else k2
       | KTimer \<Rightarrow> if tm_reset_type (ktimers k2 ob) = Pulse then upd_timer ob (\<lambda>x. x\<lparr>tm_signaled := False\<rparr>) k2 else k2
       | _ \<Rightarrow> k2)"
  have eq: "WakeupAllWaitingThreads ob k = Some k'"
    unfolding WakeupAllWaitingThreads_def loop(1) Option.bind_lunit Let_def k'_def k2_def event_pulse_def timer_pulse_def ..
  have fr: "threads k' = threads k1" "thread_list k' = thread_list k1" "current_thread k' = current_thread k1"
    "ready_queue k' = ready_queue k1" "waiting_threads k' = waiting_threads k1" "mutexes k' = mutexes k1" "kind k' = kind k1"
    "semaphores k' = semaphores k1" "hle_notifier k' = hle_notifier k1" "arbiter_waiting k' = arbiter_waiting k1"
    by (auto simp: k'_def k2_def upd_event_def upd_timer_def split: object_kind.splits)
  have "sched_inv k'" using loop(3) by (intro sched_inv_cong [of k1 k']) (simp_all add: kinv_def fr)
  moreover have "wait_inv k'" "mutex_inv k'"
    using loop(3) by (simp_all add: kinv_def wait_inv_def mutex_inv_def registered_def fr)
  ultimately have "kinv k'" by (simp add: kinv_def)
  moreover have sw: "ShouldWait x t k1 \<Longrightarrow> ShouldWait x t k'" for x t
    by (auto simp: ShouldWait_def k'_def k2_def upd_event_def upd_timer_def split: object_kind.splits if_splits)
  have "\<not> can_wake ob k' t" if "t \<in> set (waiting_threads k' ob)" for t
    using loop(7) that sw unfolding can_wake_def fr by blast
  moreover have "all_woken ts k k'" using loop(4) by (simp add: all_woken_def fr)
  ultimately show ?thesis using eq loop fr by (intro exI [of _ ts] exI [of _ k1] exI [of _ k']) simp
qed

text \<open>
  Property (C4): \<^verbatim>\<open>WakeupAllWaitingThreads\<close>. On a well-formed kernel the loop ends without hitting an assertion and
  keeps the invariant. There is a list of threads, each of them woken exactly once, in this order: each is,
  at its turn, the first of the waiting threads with the best priority among those that the object, and
  all others it waits for, let pass. They are ready afterwards, on no waiting list, and have the
  result code \<^verbatim>\<open>ResultSuccess\<close>; all other threads keep waiting as they were; and none of those that still
  wait for the object could go on.
\<close>

theorem WakeupAllWaitingThreads_spec:
  assumes "kinv k" and "\<forall>m. lock_count (mutexes k m) + int (length (waiting_threads k ob)) < 2 ^ 31"
  shows "\<exists>ts k1 k'. WakeupAllWaitingThreads ob k = Some k' \<and> wake_run ob k ts k1 \<and> kinv k' \<and>
    distinct ts \<and> set ts \<subseteq> set (waiting_threads k ob) \<and>
    waiting_threads k' = (\<lambda>x. filter (\<lambda>u. u \<notin> set ts) (waiting_threads k x)) \<and>
    (\<forall>t \<in> set ts. status (threads k' t) = Ready \<and> wait_objects (threads k' t) = [] \<and>
       (\<forall>b. wakeup_callback (threads k t) = Some (SyncCallback b) \<longrightarrow> ctx (threads k' t) 0 = ResultSuccess)) \<and>
    (\<forall>t. t \<notin> set ts \<longrightarrow> status (threads k' t) = status (threads k t) \<and>
       wait_objects (threads k' t) = wait_objects (threads k t) \<and> ctx (threads k' t) = ctx (threads k t)) \<and>
    (\<forall>t \<in> set (waiting_threads k' ob). \<not> can_wake ob k' t)"
proof -
  obtain ts k1 k' where w: "WakeupAllWaitingThreads ob k = Some k'" "wake_run ob k ts k1" "kinv k'" "all_woken ts k k'"
      "distinct ts" "set ts \<subseteq> set (waiting_threads k ob)" "\<forall>t \<in> set (waiting_threads k' ob). \<not> can_wake ob k' t"
    using WakeupAll_effect [OF assms] by blast
  then show ?thesis by (intro exI [of _ ts] exI [of _ k1] exI [of _ k']) (simp add: all_woken_def)
qed

section \<open>Examples\<close>

text \<open>
  Three dormant threads of core 0 with priorities 30, 20 and 40, and object 10.
\<close>

definition sleeper :: "nat \<Rightarrow> nat \<Rightarrow> kernel \<Rightarrow> kernel" where
  "sleeper t p k = (case CreateThread 2 t 0x100000 p 0 0 0x10000000 7 Application False True (Inr 0x1FF82000) k of
     Ok k' _ \<Rightarrow> k' | Err k' _ \<Rightarrow> k' | Crash \<Rightarrow> k)"

definition three_threads :: kernel where
  "three_threads = sleeper 3 40 (sleeper 2 20 (sleeper 1 30 (fresh_kernel 2)))"

lemma sleeper_frame:
  assumes "p \<le> ThreadPrioLowest"
  shows "thread_list (sleeper t p k) = (thread_list k)(0 := thread_list k 0 @ [t])"
    "current_thread (sleeper t p k) = current_thread k" "u \<noteq> t \<Longrightarrow> threads (sleeper t p k) u = threads k u"
    "waiting_threads (sleeper t p k) = (waiting_threads k)(t := [])" "kind (sleeper t p k) = (kind k)(t := KThread t)"
    "mutexes (sleeper t p k) = mutexes k" "semaphores (sleeper t p k) = semaphores k" "events (sleeper t p k) = events k"
    "status (threads (sleeper t p k) t) = Dormant" "current_priority (threads (sleeper t p k) t) = p"
    "nominal_priority (threads (sleeper t p k) t) = p" "core_id (threads (sleeper t p k) t) = 0"
    "wait_objects (threads (sleeper t p k) t) = []" "held_mutexes (threads (sleeper t p k) t) = []"
    "wakeup_callback (threads (sleeper t p k) t) = None"
  using assms by (simp_all add: sleeper_def CreateThread_def Let_def)

lemma sleeper_inv:
  assumes "sched_inv k" "\<forall>c. t \<notin> set (thread_list k c) \<and> current_thread k c \<noteq> Some t" "p \<le> ThreadPrioLowest"
  shows "sched_inv (sleeper t p k)"
  using CreateThread_effect [OF assms, where c = 0 and n = 2 and entry = "0x100000" and arg = 0 and stack = "0x10000000"
      and process = 7 and category = Application and ready = False and tls = "Inr 0x1FF82000"] assms(3)
  by (auto simp: sleeper_def split: outcome.splits)

lemma three_threads_data:
  "thread_list three_threads = (\<lambda>_. [])(0 := [1, 2, 3])" "current_thread three_threads = (\<lambda>_. None)"
  "waiting_threads three_threads = (\<lambda>_. [])" "mutexes three_threads = mutexes (fresh_kernel 2)"
  "\<And>t. status (threads three_threads t) = Dormant" "\<And>t. wait_objects (threads three_threads t) = []"
  "\<And>t. held_mutexes (threads three_threads t) = []" "\<And>t. core_id (threads three_threads t) = 0"
  "\<And>t. nominal_priority (threads three_threads t) = (if t = 1 then 30 else if t = 2 then 20 else if t = 3 then 40 else 0)"
  "\<And>t. current_priority (threads three_threads t) = (if t = 1 then 30 else if t = 2 then 20 else if t = 3 then 40 else 0)"
  "kind three_threads = (\<lambda>_. KEvent)(1 := KThread 1, 2 := KThread 2, 3 := KThread 3)"
proof -
  have p: "30 \<le> ThreadPrioLowest" "20 \<le> ThreadPrioLowest" "40 \<le> ThreadPrioLowest" by (simp_all add: ThreadPrioLowest_def)
  show "thread_list three_threads = (\<lambda>_. [])(0 := [1, 2, 3])" "current_thread three_threads = (\<lambda>_. None)"
    "waiting_threads three_threads = (\<lambda>_. [])" "mutexes three_threads = mutexes (fresh_kernel 2)"
    "kind three_threads = (\<lambda>_. KEvent)(1 := KThread 1, 2 := KThread 2, 3 := KThread 3)"
    unfolding three_threads_def by (simp_all add: sleeper_frame p) (simp_all add: fresh_kernel_def fun_eq_iff)
  fix t :: nat
  consider "t = 1" | "t = 2" | "t = 3" | "t \<noteq> 1" "t \<noteq> 2" "t \<noteq> 3" by blast
  then show "status (threads three_threads t) = Dormant" "wait_objects (threads three_threads t) = []"
    "held_mutexes (threads three_threads t) = []" "core_id (threads three_threads t) = 0"
    "nominal_priority (threads three_threads t) = (if t = 1 then 30 else if t = 2 then 20 else if t = 3 then 40 else 0)"
    "current_priority (threads three_threads t) = (if t = 1 then 30 else if t = 2 then 20 else if t = 3 then 40 else 0)"
    unfolding three_threads_def
    by (cases; simp add: sleeper_frame p sleeper_frame [unfolded One_nat_def] p [unfolded One_nat_def]; simp add: fresh_kernel_def)+
qed

lemma three_threads_inv: "kinv three_threads"
proof -
  have p: "30 \<le> ThreadPrioLowest" "20 \<le> ThreadPrioLowest" "40 \<le> ThreadPrioLowest" by (simp_all add: ThreadPrioLowest_def)
  have "sched_inv three_threads"
    unfolding three_threads_def
    by (intro sleeper_inv sched_inv_fresh) (simp_all add: sleeper_frame p fresh_kernel_def)
  moreover have "wait_inv three_threads" by (simp add: wait_inv_def three_threads_data)
  moreover have "mutex_inv three_threads"
    by (simp add: mutex_inv_def three_threads_data ThreadPrioLowest_def fresh_kernel_def)
  ultimately show ?thesis by (simp add: kinv_def)
qed

section \<open>Runs\<close>

lemma wake_run_woken [consumes 3, case_names finish step]:
  assumes run: "wake_run ob k ts k'" and inv: "kinv k"
    and bound: "\<forall>m. lock_count (mutexes k m) + int (length (waiting_threads k ob)) < 2 ^ 31"
    and base: "\<And>k. kinv k \<Longrightarrow> \<forall>t \<in> set (waiting_threads k ob). \<not> can_wake ob k t \<Longrightarrow> P k [] k"
    and step: "\<And>k t k1 ts k2. kinv k \<Longrightarrow> highest ob k t \<Longrightarrow> woken ob t k k1 \<Longrightarrow> kinv k1 \<Longrightarrow> P k1 ts k2 \<Longrightarrow> P k (t # ts) k2"
  shows "P k ts k'"
  using run inv bound
proof (induction rule: wake_run.induct)
  case (finish k)
  then show ?case by (auto intro: base)
next
  case (step k t k1 ts k2)
  note hw = highest_waiting [OF step.hyps(1)]
  have "1 \<le> int (length (waiting_threads k ob))" using hw by (cases "waiting_threads k ob") auto
  then have "lock_count (mutexes k m) + 1 < 2 ^ 31" for m using step.prems(2) [rule_format, of m] by linarith
  then have k1: "kinv k1" "woken ob t k k1" using wake_one_spec [OF step.prems(1), of t ob] hw step.hyps(2) by auto
  have len: "length (waiting_threads k1 ob) + 1 \<le> length (waiting_threads k ob)"
    using hw length_removeAll_less [of t "waiting_threads k ob"] k1(2) by (simp add: woken_def)
  have "lock_count (mutexes k1 m) + int (length (waiting_threads k1 ob)) < 2 ^ 31" for m
  proof -
    have "lock_count (mutexes k1 m) \<le> lock_count (mutexes k m) + 1" using k1(2) by (simp add: woken_def)
    then show ?thesis using len step.prems(2) [rule_format, of m] by linarith
  qed
  then show ?case using assms(5) [OF step.prems(1) step.hyps(1) k1(2,1)] step.IH k1(1) by blast
qed

section \<open>Semaphores\<close>

lemma kinv_cong:
  assumes "kinv k" and fr: "threads k' = threads k" "thread_list k' = thread_list k" "current_thread k' = current_thread k"
    "ready_queue k' = ready_queue k" "mutexes k' = mutexes k" "kind k' = kind k" "waiting_threads k' = waiting_threads k"
  shows "kinv k'"
proof -
  have "sched_inv k'" by (rule sched_inv_cong [of k]) (use assms in \<open>simp_all add: kinv_def\<close>)
  moreover have "wait_inv k' \<longleftrightarrow> wait_inv k" unfolding wait_inv_def registered_def fr ..
  moreover have "mutex_inv k' \<longleftrightarrow> mutex_inv k" unfolding mutex_inv_def registered_def fr ..
  ultimately show ?thesis using assms(1) by (simp add: kinv_def)
qed

lemma upd_semaphore_inv: "kinv k \<Longrightarrow> kinv (upd_semaphore s f k)"
  by (erule kinv_cong) (simp_all add: upd_semaphore_def)

lemma s32_over: "2 ^ 31 \<le> x \<Longrightarrow> x < 2 ^ 32 \<Longrightarrow> s32 x = x - 2 ^ 32"
proof -
  assume x: "2 ^ 31 \<le> x" "x < 2 ^ 32"
  have "(x + 2 ^ 31) mod 2 ^ 32 = ((x - 2 ^ 31) + 2 ^ 32) mod 2 ^ 32" by (simp add: add.commute)
  also have "\<dots> = x - 2 ^ 31" using x by (simp only: mod_add_self2) simp
  finally show ?thesis by (simp add: s32_def)
qed

lemma wake_run_semaphore:
  assumes "wake_run s k ts k'" "kinv k" "\<forall>m. lock_count (mutexes k m) + int (length (waiting_threads k s)) < 2 ^ 31"
    "kind k s = KSemaphore"
  shows "available_count (semaphores k' s) = available_count (semaphores k s) - int (length ts) \<and>
    (0 \<le> available_count (semaphores k s) \<longrightarrow> 0 \<le> available_count (semaphores k' s))"
  using assms
proof (induction rule: wake_run_woken)
  case (step k t k1 ts k2)
  have "0 < available_count (semaphores k s)"
    using highest_waiting [OF step.hyps(2)] step.prems by (simp add: can_wake_def ShouldWait_def)
  then show ?case using step by (simp add: woken_def)
qed simp

text \<open>
  Property (C6): releasing a semaphore, when the sum of the counts fits an \<^verbatim>\<open>s32\<close>. More than the maximum is
  refused and nothing changes. Otherwise the previous count is returned and threads are woken in
  priority order, each taking one; the count left is the old one plus the released amount minus the number
  of threads woken, it is not negative, and when it is positive every thread that waited for the semaphore
  only, has been woken.
\<close>

theorem Semaphore_Release_spec:
  assumes inv: "kinv k" and s: "kind k s = KSemaphore"
    and bound: "\<forall>m. lock_count (mutexes k m) + int (length (waiting_threads k s)) < 2 ^ 31"
    and range: "0 \<le> available_count (semaphores k s)" "0 \<le> n" "available_count (semaphores k s) + n < 2 ^ 31"
  shows "if available_count (semaphores k s) + n > max_count (semaphores k s)
    then Semaphore_Release s n k = Some (ResultOutOfRangeKernel, None, k)
    else \<exists>ts k1 k'. Semaphore_Release s n k = Some (ResultSuccess, Some (available_count (semaphores k s)), k') \<and> kinv k' \<and>
      wake_run s (upd_semaphore s (\<lambda>x. x\<lparr>available_count := available_count x + n\<rparr>) k) ts k1 \<and>
      available_count (semaphores k' s) = available_count (semaphores k s) + n - int (length ts) \<and>
      0 \<le> available_count (semaphores k' s) \<and>
      (0 < available_count (semaphores k' s) \<longrightarrow>
         (\<forall>t \<in> set (waiting_threads k s). status (threads k t) = WaitSynchAny \<longrightarrow> t \<in> set ts \<and> status (threads k' t) = Ready))"
proof -
  have r: "s32 (n + available_count (semaphores k s)) = n + available_count (semaphores k s)"
      "s32 (available_count (semaphores k s) + n) = available_count (semaphores k s) + n"
    using range by (auto intro: s32_id)
  define k0 where "k0 = upd_semaphore s (\<lambda>x. x\<lparr>available_count := available_count x + n\<rparr>) k"
  have k0': "k0 = upd_semaphore s (\<lambda>x. x\<lparr>available_count := available_count (semaphores k s) + n\<rparr>) k"
    by (simp add: k0_def upd_semaphore_def)
  have k0: "kinv k0" using inv by (simp add: k0_def upd_semaphore_inv)
  have fr: "threads k0 = threads k" "mutexes k0 = mutexes k" "waiting_threads k0 = waiting_threads k" "kind k0 = kind k"
    "available_count (semaphores k0 s) = available_count (semaphores k s) + n" by (simp_all add: k0_def upd_semaphore_def)
  obtain ts k1 k' where w: "WakeupAllWaitingThreads s k0 = Some k'" "wake_run s k0 ts k1" "kinv k'" "all_woken ts k0 k'"
      "\<forall>t \<in> set (waiting_threads k' s). \<not> can_wake s k' t" "semaphores k' = semaphores k1"
    using WakeupAll_effect [OF k0, of s] bound fr by auto
  have a: "available_count (semaphores k' s) = available_count (semaphores k s) + n - int (length ts) \<and>
      0 \<le> available_count (semaphores k' s)"
    using wake_run_semaphore [OF w(2) k0] bound fr s w(6) range by simp
  have "t \<in> set ts \<and> status (threads k' t) = Ready"
    if "0 < available_count (semaphores k' s)" "t \<in> set (waiting_threads k s)" "status (threads k t) = WaitSynchAny" for t
  proof -
    have "\<not> ShouldWait s t k'" using that(1) s w(4) fr(4) by (simp add: ShouldWait_def all_woken_def)
    moreover have "status (threads k' t) = WaitSynchAny \<and> t \<in> set (waiting_threads k' s)" if "t \<notin> set ts"
      using that w(4) fr \<open>t \<in> set (waiting_threads k s)\<close> \<open>status (threads k t) = WaitSynchAny\<close> by (simp add: all_woken_def)
    ultimately have "t \<in> set ts" using bspec [OF w(5), of t] by (cases "t \<in> set ts") (simp_all add: can_wake_def)
    then show ?thesis using w(4) by (simp add: all_woken_def)
  qed
  then show ?thesis
    using w(1-3) a r k0' by (auto simp: Semaphore_Release_def Let_def k0_def [symmetric] intro!: exI [of _ ts] exI [of _ k1])
qed

text \<open>
  Property: the guard of \<^verbatim>\<open>Semaphore::Release\<close> adds two \<^verbatim>\<open>s32\<close> numbers. When the sum overflows, the release is
  accepted although it exceeds the maximum, no thread is woken, and the count becomes negative, so that every
  later wait blocks.
\<close>

theorem Semaphore_Release_overflow:
  assumes inv: "kinv k" and s: "kind k s = KSemaphore"
    and bound: "\<forall>m. lock_count (mutexes k m) + int (length (waiting_threads k s)) < 2 ^ 31"
    and range: "available_count (semaphores k s) < 2 ^ 31" "n < 2 ^ 31" "2 ^ 31 \<le> available_count (semaphores k s) + n"
      "0 \<le> max_count (semaphores k s)"
  shows "\<exists>k'. Semaphore_Release s n k = Some (ResultSuccess, Some (available_count (semaphores k s)), k') \<and>
    available_count (semaphores k' s) < 0 \<and> (\<forall>t. ShouldWait s t k') \<and> waiting_threads k' = waiting_threads k"
proof -
  let ?a = "available_count (semaphores k s)"
  have neg: "s32 (?a + n) < 0" "s32 (n + ?a) < 0" using range by (simp_all add: s32_over)
  define k0 where "k0 = upd_semaphore s (\<lambda>x. x\<lparr>available_count := s32 (?a + n)\<rparr>) k"
  have k0: "kinv k0" using inv by (simp add: k0_def upd_semaphore_inv)
  have fr: "mutexes k0 = mutexes k" "waiting_threads k0 = waiting_threads k" "kind k0 = kind k"
    "available_count (semaphores k0 s) = s32 (?a + n)" by (simp_all add: k0_def upd_semaphore_def)
  obtain ts k1 k' where w: "WakeupAllWaitingThreads s k0 = Some k'" "wake_run s k0 ts k1" "all_woken ts k0 k'"
      "semaphores k' = semaphores k1"
    using WakeupAll_effect [OF k0, of s] bound fr by auto
  have sw: "ShouldWait s t k0" for t using fr s neg(1) by (simp add: ShouldWait_def)
  have ts: "ts = []"
  proof (cases ts)
    case (Cons t ts')
    then have "highest s k0 t" using w(2) by (auto elim: wake_run_ConsE)
    then show ?thesis using sw highest_waiting by (auto simp: can_wake_def)
  qed
  then have "available_count (semaphores k' s) = s32 (?a + n)"
    using wake_run_semaphore [OF w(2) k0] bound fr s w(4) by simp
  moreover have "kind k' = kind k" "waiting_threads k' = waiting_threads k" using w(3) ts fr by (simp_all add: all_woken_def)
  ultimately show ?thesis
    using w(1) neg range(4) s by (auto simp: Semaphore_Release_def Let_def k0_def [symmetric] ShouldWait_def)
qed

section \<open>Mutexes\<close>

text \<open>The state in which the last lock of a mutex has been given up and the waiting threads are not yet woken.\<close>

definition unlocked :: "nat \<Rightarrow> nat \<Rightarrow> kernel \<Rightarrow> kernel" where
  "unlocked m t k = upd_mutex m (\<lambda>x. x\<lparr>holding_thread := None\<rparr>) (Thread_UpdatePriority t
     (upd_thread t (\<lambda>x. x\<lparr>held_mutexes := remove1 m (held_mutexes x)\<rparr>)
       (upd_mutex m (\<lambda>x. x\<lparr>lock_count := lock_count x - 1\<rparr>) k)))"

lemma unlocked_inv:
  assumes inv: "kinv k" and m: "kind k m = KMutex" "holding_thread (mutexes k m) = Some t" "lock_count (mutexes k m) = 1"
  shows "kinv (unlocked m t k)" "waiting_threads (unlocked m t k) = waiting_threads k" "kind (unlocked m t k) = kind k"
    "lock_count (mutexes (unlocked m t k) u) = (if u = m then 0 else lock_count (mutexes k u))"
    "holding_thread (mutexes (unlocked m t k) m) = None"
    "status (threads (unlocked m t k) u) = status (threads k u)"
proof -
  have k: "sched_inv k" "wait_inv k" "mutex_inv k" using inv by (simp_all add: kinv_def)
  note M = mutex_invD [OF k(3)]
  have t: "registered k t" using M(5) [OF m(1,2)] .
  define k1 where "k1 = upd_thread t (\<lambda>x. x\<lparr>held_mutexes := remove1 m (held_mutexes x)\<rparr>)
       (upd_mutex m (\<lambda>x. x\<lparr>lock_count := lock_count x - 1\<rparr>) k)"
  define k2 where "k2 = Thread_UpdatePriority t k1"
  define k' where "k' = unlocked m t k"
  have k': "k' = upd_mutex m (\<lambda>x. x\<lparr>holding_thread := None\<rparr>) k2" by (simp add: k'_def unlocked_def k2_def k1_def)
  note d = only_prioD [OF Thread_UpdatePriority_simps(3) [of k1 t], folded k2_def]
  have k1: "sched_inv k1" "registered k1 t" "nominal_priority (threads k1 t) \<le> ThreadPrioLowest"
    using sched_inv_cong [OF k(1), of k1] t M(1) [OF t] by (simp_all add: k1_def registered_def)
  have "sched_inv k2" unfolding k2_def using k1 by (rule Thread_UpdatePriority_inv)
  then have sched: "sched_inv k'" by (rule sched_inv_cong) (simp_all add: k')
  have sw: "same_waits k k'"
    using d by (simp add: same_waits_def k') (simp add: k1_def)
  have mt: "mutexes k' u = (if u = m then (mutexes k m)\<lparr>lock_count := 0, holding_thread := None\<rparr> else mutexes k u)" for u
    using m(3) by (simp add: k' k2_def Thread_UpdatePriority_simps k1_def)
  have held: "held_mutexes (threads k' u) = (if u = t then remove1 m (held_mutexes (threads k t)) else held_mutexes (threads k u))" for u
    using d(6) [of u] by (simp add: k') (simp add: k1_def)
  have knd: "kind k' = kind k" using sw by (simp add: same_waits_def)
  have "mutex_inv k'"
    unfolding mutex_inv_def same_waits_registered [OF sw] knd
  proof (intro conjI allI impI)
    show "registered k u \<Longrightarrow> nominal_priority (threads k' u) \<le> ThreadPrioLowest" for u
      using M(1) [of u] sw by (simp add: same_waits_def)
    show "u \<in> set (held_mutexes (threads k' x)) \<longleftrightarrow> kind k u = KMutex \<and> holding_thread (mutexes k' u) = Some x" for x u
      using M(6) [of u x] M(6) [of u t] M(7) [of t] m(1,2) by (auto simp: held mt)
    show "distinct (held_mutexes (threads k' u))" for u using M(7) by (simp add: held)
  qed (use M(2-5) t in \<open>auto simp: mt split: if_splits\<close>)
  then show "kinv (unlocked m t k)" using sched same_waits_inv [OF sw k(2)] by (simp add: kinv_def k'_def)
  show "waiting_threads (unlocked m t k) = waiting_threads k" "kind (unlocked m t k) = kind k"
    "status (threads (unlocked m t k) u) = status (threads k u)"
    using sw by (simp_all add: same_waits_def k'_def)
  show "lock_count (mutexes (unlocked m t k) u) = (if u = m then 0 else lock_count (mutexes k u))"
    "holding_thread (mutexes (unlocked m t k) m) = None" using mt by (simp_all add: k'_def)
qed

text \<open>A free mutex lets at most one thread pass.\<close>

lemma wake_run_locked:
  assumes "wake_run m k ts k'" "kind k m = KMutex" "0 < lock_count (mutexes k m)"
    "\<forall>t \<in> set (waiting_threads k m). holding_thread (mutexes k m) \<noteq> Some t"
  shows "ts = [] \<and> k' = k"
proof (cases ts)
  case Nil
  with assms(1) show ?thesis by (auto elim: wake_run_NilE)
next
  case (Cons t ts')
  then have "highest m k t" using assms(1) by (auto elim: wake_run_ConsE)
  then show ?thesis using highest_waiting [of m k t] assms by (auto simp: can_wake_def ShouldWait_def)
qed

lemma wake_run_mutex:
  assumes run: "wake_run m k ts k'" and inv: "kinv k"
    and bound: "\<forall>u. lock_count (mutexes k u) + int (length (waiting_threads k m)) < 2 ^ 31"
    and m: "kind k m = KMutex" "lock_count (mutexes k m) = 0"
  shows "ts = [] \<and> lock_count (mutexes k' m) = 0 \<or>
    (\<exists>w. ts = [w] \<and> highest m k w \<and> holding_thread (mutexes k' m) = Some w \<and> lock_count (mutexes k' m) = 1)"
proof (cases ts)
  case Nil
  with run m show ?thesis by (auto elim: wake_run_NilE)
next
  case (Cons w ts')
  obtain k1 where k1: "highest m k w" "wake_one m w k = Some k1" "wake_run m k1 ts' k'"
    using run Cons by (auto elim: wake_run_ConsE)
  note hw = highest_waiting [OF k1(1)]
  have "1 \<le> int (length (waiting_threads k m))" using hw by (cases "waiting_threads k m") auto
  then have "lock_count (mutexes k u) + 1 < 2 ^ 31" for u using bound [rule_format, of u] by linarith
  then have w: "woken m w k k1" using wake_one_spec [OF inv, of w m] hw k1(2) by auto
  then have "ts' = [] \<and> k' = k1" using m by (intro wake_run_locked [OF k1(3)]) (auto simp: woken_def)
  then show ?thesis using Cons k1(1) w m by (simp add: woken_def)
qed

text \<open>
  Property (C5): releasing a mutex. A thread that does not hold the mutex gets an error and changes nothing. A thread
  that holds it more than once gives up one lock. When it gives up the last one, either no waiting
  thread can go on and the mutex is free, or exactly one thread is woken and holds it, once: the first of those
  with the best priority that can go on. No assertion fails and the kernel stays well formed.
\<close>

theorem Mutex_Release_spec:
  assumes inv: "kinv k" and m: "kind k m = KMutex"
    and bound: "\<forall>u. lock_count (mutexes k u) + int (length (waiting_threads k m)) < 2 ^ 31"
  shows "if holding_thread (mutexes k m) \<noteq> Some t
    then \<exists>e. Mutex_Release m t k = Some (e, k) \<and> IsError e
    else if lock_count (mutexes k m) > 1
    then Mutex_Release m t k = Some (ResultSuccess, upd_mutex m (\<lambda>x. x\<lparr>lock_count := lock_count x - 1\<rparr>) k)
    else \<exists>k'. Mutex_Release m t k = Some (ResultSuccess, k') \<and> kinv k' \<and>
      ((\<forall>w \<in> set (waiting_threads k m). \<not> can_wake m (unlocked m t k) w) \<and>
          lock_count (mutexes k' m) = 0 \<and> holding_thread (mutexes k' m) = None \<and> waiting_threads k' = waiting_threads k
       \<or> (\<exists>w. highest m (unlocked m t k) w \<and> lock_count (mutexes k' m) = 1 \<and> holding_thread (mutexes k' m) = Some w \<and>
            status (threads k' w) = Ready \<and> waiting_threads k' = (\<lambda>x. removeAll w (waiting_threads k x))))"
proof (cases "holding_thread (mutexes k m) = Some t \<and> lock_count (mutexes k m) \<le> 1")
  case False
  have "IsError (MakeResultRaw WrongLockingThread EM_Kernel ES_InvalidArgument EL_Permanent)" by (simp add: IsError_Make)
  then show ?thesis using False by (auto simp: Mutex_Release_def Let_def)
next
  case True
  have mi: "mutex_inv k" using inv by (simp add: kinv_def)
  have h: "holding_thread (mutexes k m) = Some t" "lock_count (mutexes k m) = 1"
    using True mutex_invD(2,4) [OF mi m] by auto
  note u = unlocked_inv [OF inv m h]
  have b: "\<forall>x. lock_count (mutexes (unlocked m t k) x) + int (length (waiting_threads (unlocked m t k) m)) < 2 ^ 31"
  proof
    fix x
    have "lock_count (mutexes (unlocked m t k) x) \<le> lock_count (mutexes k x)" using h(2) by (simp add: u(4))
    then show "lock_count (mutexes (unlocked m t k) x) + int (length (waiting_threads (unlocked m t k) m)) < 2 ^ 31"
      using bound [rule_format, of x] u(2) by simp
  qed
  obtain ts k1 k' where w: "WakeupAllWaitingThreads m (unlocked m t k) = Some k'" "wake_run m (unlocked m t k) ts k1"
      "kinv k'" "all_woken ts (unlocked m t k) k'" "mutexes k' = mutexes k1"
      "\<forall>t \<in> set (waiting_threads k' m). \<not> can_wake m k' t"
    using WakeupAll_effect [OF u(1) b] by blast
  define k2 where "k2 = PrepareReschedule k'"
  have rel: "Mutex_Release m t k = Some (ResultSuccess, k2)"
    using h w(1) by (simp add: Mutex_Release_def Let_def unlocked_def k2_def)
  have fr: "threads k2 = threads k'" "mutexes k2 = mutexes k'" "waiting_threads k2 = waiting_threads k'" "kinv k2"
    using kinv_cong [OF w(3), of k2] by (simp_all add: k2_def)
  have "kind (unlocked m t k) m = KMutex" "lock_count (mutexes (unlocked m t k) m) = 0" using u(3,4) m by simp_all
  from wake_run_mutex [OF w(2) u(1) b this] show ?thesis
  proof (elim disjE exE conjE)
    assume n: "ts = []" "lock_count (mutexes k1 m) = 0"
    have "k1 = unlocked m t k" "\<forall>w \<in> set (waiting_threads k m). \<not> can_wake m (unlocked m t k) w"
      using w(2) n(1) u(2) by (auto elim: wake_run_NilE)
    then show ?thesis using rel fr h n(1) w(4,5) u(2,4,5) by (simp add: all_woken_def)
  next
    fix x assume n: "ts = [x]" "highest m (unlocked m t k) x" "holding_thread (mutexes k1 m) = Some x" "lock_count (mutexes k1 m) = 1"
    have "waiting_threads k' = (\<lambda>y. removeAll x (waiting_threads k y))" "status (threads k' x) = Ready"
      using w(4) n(1) u(2) by (auto simp: all_woken_def removeAll_filter_not_eq fun_eq_iff intro!: filter_cong)
    then show ?thesis using rel fr h n(2-4) w(5) by auto
  qed
qed

section \<open>Priority inheritance\<close>

text \<open>No thread has a worse priority than a mutex that it holds.\<close>

definition inherit_inv :: "kernel \<Rightarrow> bool" where
  "inherit_inv k \<longleftrightarrow> (\<forall>m h. kind k m = KMutex \<and> holding_thread (mutexes k m) = Some h \<longrightarrow>
     current_priority (threads k h) \<le> mtx_priority (mutexes k m))"

text \<open>
  Property (C28): when a thread starts to wait for a mutex, the priority of the holder becomes at least as good as that
  of every thread waiting for it, and no thread ends up with a worse priority than a mutex it holds. But the
  priority of no other thread changes: when the holder itself waits for a second mutex, the thread
  that holds that one is not raised.
\<close>

theorem priority_inheritance:
  assumes inv: "kinv k" "inherit_inv k" and m: "kind k m = KMutex" "holding_thread (mutexes k m) = Some h"
  shows "let k' = AddWaitingThread m w k in
    inherit_inv k' \<and>
    (\<forall>u \<in> set (waiting_threads k' m). u \<noteq> h \<longrightarrow> current_priority (threads k' h) \<le> current_priority (threads k' u)) \<and>
    (\<forall>u. u \<noteq> h \<longrightarrow> current_priority (threads k' u) = current_priority (threads k u))"
proof -
  have mi: "mutex_inv k" using inv(1) by (simp add: kinv_def)
  let ?W = "(waiting_threads k)(m := if w \<in> set (waiting_threads k m) then waiting_threads k m else waiting_threads k m @ [w])"
  define k1 where "k1 = upd_thread w (\<lambda>x. x\<lparr>pending_mutexes := set_insert m (pending_mutexes x)\<rparr>)
      (upd_waiting m (\<lambda>ws. if w \<in> set ws then ws else ws @ [w]) k)"
  have add: "AddWaitingThread m w k = Mutex_UpdatePriority m k1" using m(1) by (simp add: AddWaitingThread_def Let_def k1_def)
  define best where "best = best_of ThreadPrioLowest (map (\<lambda>t. current_priority (threads k1 t)) (waiting_threads k1 m))"
  have k1: "mutexes k1 = mutexes k" "kind k1 = kind k" "current_priority (threads k1 u) = current_priority (threads k u)"
      "held_mutexes (threads k1 u) = held_mutexes (threads k u)" for u by (simp_all add: k1_def)
  have le: "best \<le> current_priority (threads k u)" if "u \<in> set (waiting_threads k1 m)" for u
    unfolding best_def using that k1(3) by (intro best_of_le(2)) auto
  have held: "x \<in> set (held_mutexes (threads k h)) \<longleftrightarrow> kind k x = KMutex \<and> holding_thread (mutexes k x) = Some h" for x
    by (rule mutex_invD(6) [OF mi])
  show ?thesis
  proof (cases "best = mtx_priority (mutexes k m)")
    case True
    then have "AddWaitingThread m w k = k1" using m(2) add k1(1) by (simp add: Mutex_UpdatePriority_def best_def [symmetric])
    moreover have "current_priority (threads k h) \<le> best" using inv(2) m True unfolding inherit_inv_def by metis
    ultimately show ?thesis using inv(2) k1 le by (auto simp: inherit_inv_def intro: order_trans)
  next
    case False
    define k2 where "k2 = upd_mutex m (\<lambda>x. x\<lparr>mtx_priority := best\<rparr>) k1"
    have k': "AddWaitingThread m w k = Thread_UpdatePriority h k2"
      using m(2) add k1(1) False by (simp add: Mutex_UpdatePriority_def best_def [symmetric] k2_def)
    let ?k' = "Thread_UpdatePriority h k2"
    have mt: "mutexes ?k' x = (if x = m then (mutexes k m)\<lparr>mtx_priority := best\<rparr> else mutexes k x)" for x
      by (simp add: Thread_UpdatePriority_simps k2_def k1)
    have pr: "current_priority (threads ?k' u) = (if u = h then inherited k2 h else current_priority (threads k u))" for u
      by (simp add: Thread_UpdatePriority_simps k2_def k1(3))
    have kd: "kind ?k' = kind k" "waiting_threads ?k' = waiting_threads k1"
      using only_prioD(13,14) [OF Thread_UpdatePriority_simps(3) [of k2 h]] by (simp_all add: k2_def k1)
    have hle: "inherited k2 h \<le> mtx_priority (mutexes ?k' x)" if "kind k x = KMutex" "holding_thread (mutexes k x) = Some h" for x
      unfolding inherited_def using that held [of x]
      by (intro best_of_le(2)) (auto simp: k2_def k1 Thread_UpdatePriority_simps)
    have "inherit_inv ?k'"
      unfolding inherit_inv_def kd(1)
    proof (intro allI impI, elim conjE)
      fix x g assume x: "kind k x = KMutex" and "holding_thread (mutexes ?k' x) = Some g"
      then have g: "holding_thread (mutexes k x) = Some g" by (simp add: mt split: if_splits)
      show "current_priority (threads ?k' g) \<le> mtx_priority (mutexes ?k' x)"
      proof (cases "g = h")
        case True
        then show ?thesis using hle [OF x] g by (simp add: pr)
      next
        case False
        then have "x \<noteq> m" using g m(2) by auto
        then show ?thesis using False inv(2) x g by (simp add: pr mt inherit_inv_def)
      qed
    qed
    moreover have "inherited k2 h \<le> best" using hle [OF m] by (simp add: mt)
    ultimately show ?thesis
      using le order_trans by (auto simp: k' pr kd)
  qed
qed

section \<open>Witnesses\<close>

text \<open>A new object that nobody waits for.\<close>

lemma fresh_object_inv:
  assumes inv: "kinv k" and ob: "waiting_threads k ob = []" "kind k ob \<noteq> KMutex"
    and fr: "threads k' = threads k" "thread_list k' = thread_list k" "current_thread k' = current_thread k"
      "ready_queue k' = ready_queue k" "waiting_threads k' = waiting_threads k"
      "kind k' = (kind k)(ob := K)" "\<And>m. m \<noteq> ob \<Longrightarrow> mutexes k' m = mutexes k m"
      "K = KMutex \<Longrightarrow> lock_count (mutexes k' ob) = 0 \<and> holding_thread (mutexes k' ob) = None"
  shows "kinv k'"
proof -
  have k: "sched_inv k" "wait_inv k" "mutex_inv k" using inv by (simp_all add: kinv_def)
  have "sched_inv k'" using k(1) by (rule sched_inv_cong) (simp_all add: fr)
  moreover have "wait_inv k' \<longleftrightarrow> wait_inv k" unfolding wait_inv_def registered_def fr(1-5) ..
  moreover have "mutex_inv k'"
    unfolding mutex_inv_def registered_def fr(1,2,6)
  proof (intro conjI allI impI)
    note M = mutex_invD [OF k(3), unfolded registered_def]
    fix t m h
    show "t \<in> set (thread_list k (core_id (threads k t))) \<Longrightarrow> nominal_priority (threads k t) \<le> ThreadPrioLowest" by (rule M(1))
    show "m \<in> set (held_mutexes (threads k t)) \<longleftrightarrow> ((kind k)(ob := K)) m = KMutex \<and> holding_thread (mutexes k' m) = Some t"
      using M(6) [of m t] ob(2) fr(7) [of m] fr(8) by (cases "m = ob") auto
    show "distinct (held_mutexes (threads k t))" by (rule M(7))
    assume "((kind k)(ob := K)) m = KMutex"
    then have "m = ob \<and> K = KMutex \<or> m \<noteq> ob \<and> kind k m = KMutex" by (auto split: if_splits)
    then show "0 \<le> lock_count (mutexes k' m)" "lock_count (mutexes k' m) < 2 ^ 31"
      "lock_count (mutexes k' m) = 0 \<longleftrightarrow> holding_thread (mutexes k' m) = None"
      "holding_thread (mutexes k' m) = Some h \<Longrightarrow> h \<in> set (thread_list k (core_id (threads k h)))"
      using M(2-5) [of m] fr(7) [of m] fr(8) by auto
  qed
  ultimately show ?thesis using k(2) by (simp add: kinv_def)
qed

text \<open>Threads 1 and 2 wait for semaphore 10, with no slot available and room for five.\<close>

definition sem_kernel :: kernel where
  "sem_kernel = asleep WaitSynchAny [10] False 2 (asleep WaitSynchAny [10] False 1 (snd (CreateSemaphore 10 0 5 three_threads)))"

lemma created_semaphore_inv: "kinv (snd (CreateSemaphore 10 0 5 three_threads))"
  by (rule fresh_object_inv [OF three_threads_inv, where ob = 10 and K = KSemaphore])
    (simp_all add: CreateSemaphore_def upd_semaphore_def three_threads_data fun_eq_iff)

lemma sem_kernel_step:
  fixes k :: kernel
  defines "k \<equiv> snd (CreateSemaphore 10 0 5 three_threads)"
  shows "threads k = threads three_threads" "thread_list k = thread_list three_threads" "kind k 10 = KSemaphore"
    "waiting_threads k = (\<lambda>_. [])" "mutexes k = mutexes (fresh_kernel 2)"
    "semaphores k 10 = \<lparr>max_count = 5, available_count = 0\<rparr>"
  by (simp_all add: k_def CreateSemaphore_def upd_semaphore_def three_threads_data fun_eq_iff)

lemma asleep_single:
  "kind k ob \<noteq> KMutex \<Longrightarrow> asleep s [ob] b t k =
     upd_thread t (\<lambda>x. x\<lparr>status := s, wait_objects := [ob], wakeup_callback := Some (SyncCallback b)\<rparr>)
       (upd_waiting ob (\<lambda>ws. if t \<in> set ws then ws else ws @ [t]) k)"
  by (simp add: asleep_with_def AddWaitingThread_def)

lemma three_registered: "registered three_threads 1" "registered three_threads 2" "registered three_threads 3"
  by (simp_all add: registered_def three_threads_data)

lemma two_waiting_inv:
  assumes inv: "kinv k" and fr: "threads k = threads three_threads" "thread_list k = thread_list three_threads"
    and ob: "kind k ob \<noteq> KMutex"
  shows "kinv (asleep WaitSynchAny [ob] False 2 (asleep WaitSynchAny [ob] False 1 k))"
proof -
  let ?k = "asleep WaitSynchAny [ob] False 1 k"
  have 1: "kinv ?k"
    by (rule asleep_inv(1) [OF inv]) (simp_all add: fr three_threads_data registered_def)
  have "registered ?k 2" "status (threads ?k 2) = Dormant" "wait_objects (threads ?k 2) = []"
    by (simp_all add: asleep_single [OF ob] fr three_threads_data registered_def)
  then show ?thesis by (intro asleep_inv(1) [OF 1]) simp_all
qed

lemma sem_kernel_inv: "kinv sem_kernel"
  unfolding sem_kernel_def
  by (rule two_waiting_inv [OF created_semaphore_inv]) (simp_all add: sem_kernel_step)

lemma sem_kernel_data:
  "kind sem_kernel 10 = KSemaphore" "waiting_threads sem_kernel 10 = [1, 2]" "lock_count (mutexes sem_kernel m) = 0"
  "semaphores sem_kernel 10 = \<lparr>max_count = 5, available_count = 0\<rparr>"
  "status (threads sem_kernel 1) = WaitSynchAny" "status (threads sem_kernel 2) = WaitSynchAny"
  by (simp_all add: sem_kernel_def asleep_single sem_kernel_step) (simp add: fresh_kernel_def)

theorem WakeupAllWaitingThreads_spec_witness:
  "\<exists>k'. WakeupAllWaitingThreads 10 sem_kernel = Some k' \<and> kinv k' \<and> (\<forall>t \<in> set (waiting_threads k' 10). \<not> can_wake 10 k' t)"
  using WakeupAllWaitingThreads_spec [OF sem_kernel_inv, of 10] by (auto simp: sem_kernel_data)

theorem Semaphore_Release_spec_witness:
  "Semaphore_Release 10 6 sem_kernel = Some (ResultOutOfRangeKernel, None, sem_kernel) \<and>
   (\<exists>k'. Semaphore_Release 10 3 sem_kernel = Some (ResultSuccess, Some 0, k') \<and> kinv k' \<and>
      (0 < available_count (semaphores k' 10) \<longrightarrow> status (threads k' 1) = Ready \<and> status (threads k' 2) = Ready))"
  using Semaphore_Release_spec [OF sem_kernel_inv, of 10 6] Semaphore_Release_spec [OF sem_kernel_inv, of 10 3]
  by (auto simp: sem_kernel_data [unfolded One_nat_def])

theorem Semaphore_Release_overflow_witness:
  "\<exists>k'. Semaphore_Release 10 0x7FFFFFFF (upd_semaphore 10 (\<lambda>x. x\<lparr>available_count := 1\<rparr>) sem_kernel) =
      Some (ResultSuccess, Some 1, k') \<and> available_count (semaphores k' 10) < 0"
  using Semaphore_Release_overflow [OF upd_semaphore_inv [OF sem_kernel_inv], where s1 = 10 and s = 10
      and f1 = "\<lambda>x. x\<lparr>available_count := 1\<rparr>" and n = "0x7FFFFFFF"]
  by (auto simp: upd_semaphore_def sem_kernel_data)

text \<open>Mutex 10 is held by thread 3; threads 1 and 2 wait for it.\<close>

definition mutex_kernel :: kernel where
  "mutex_kernel = (the (Mutex_Acquire 10 3 (the (CreateMutex 10 0 False three_threads))))"

lemma mutex_kernel_inv:
  "kinv mutex_kernel" "kind mutex_kernel 10 = KMutex" "holding_thread (mutexes mutex_kernel 10) = Some 3"
  "lock_count (mutexes mutex_kernel 10) = 1" "lock_count (mutexes mutex_kernel m) \<le> 1"
  "waiting_threads mutex_kernel = (\<lambda>_. [])" "inherit_inv mutex_kernel" "current_priority (threads mutex_kernel t) = current_priority (threads three_threads t)"
proof -
  define k where "k = the (CreateMutex 10 0 False three_threads)"
  have k: "kinv k"
    by (rule fresh_object_inv [OF three_threads_inv, where ob = 10 and K = KMutex])
      (simp_all add: k_def CreateMutex_def upd_mutex_def three_threads_data fun_eq_iff)
  have fr: "threads k = threads three_threads" "thread_list k = thread_list three_threads" "kind k = (kind three_threads)(10 := KMutex)"
    "waiting_threads k = (\<lambda>_. [])" "m \<noteq> 10 \<Longrightarrow> mutexes k m = mutexes (fresh_kernel 2) m"
    "lock_count (mutexes k m) = 0" "holding_thread (mutexes k 10) = None" for m
    by (simp_all add: k_def CreateMutex_def three_threads_data fun_eq_iff upd_mutex_def) (simp_all add: fresh_kernel_def)
  have sw: "\<not> ShouldWait 10 3 k" by (simp add: ShouldWait_def fr)
  have acq: "Mutex_Acquire 10 3 k = Some mutex_kernel"
    using sw by (simp add: mutex_kernel_def k_def [symmetric] Mutex_Acquire_def)
  have "kinv k" "registered k 3" using k by (simp_all add: registered_def fr three_threads_data)
  then have a: "acquired k {10} 3 mutex_kernel"
    using Mutex_Acquire_spec [of k 3 10] acq sw by (auto simp: kinv_def fr)
  then show "kinv mutex_kernel" using k same_waits_inv by (auto simp: kinv_def acquired_def)
  show kd: "kind mutex_kernel 10 = KMutex" "waiting_threads mutex_kernel = (\<lambda>_. [])"
    using a by (simp_all add: acquired_def same_waits_def fr)
  show h: "holding_thread (mutexes mutex_kernel 10) = Some 3" "lock_count (mutexes mutex_kernel 10) = 1"
    using a by (simp_all add: acquired_def fr)
  show "lock_count (mutexes mutex_kernel m) \<le> 1" for m
    using a fr(6) by (auto simp: acquired_def dest: spec [of _ m] split: if_splits)
  let ?e = "upd_mutex 10 (\<lambda>x. x\<lparr>lock_count := s32 (lock_count x + 1)\<rparr>) (PrepareReschedule (Thread_UpdatePriority 3
      (upd_thread 3 (\<lambda>x. x\<lparr>held_mutexes := set_insert 10 (held_mutexes x)\<rparr>)
        (upd_mutex 10 (\<lambda>x. x\<lparr>mtx_priority := current_priority (threads k 3), holding_thread := Some 3\<rparr>) k))))"
  have e: "mutex_kernel = ?e" using acq sw fr(6) [of 10] by (simp add: Mutex_Acquire_def Let_def)
  have mk: "current_priority (threads mutex_kernel 3) = 40" "mtx_priority (mutexes mutex_kernel 10) = 40"
    unfolding e by (simp_all add: Thread_UpdatePriority_simps inherited_def fr(1) three_threads_data set_insert_def)
  show "current_priority (threads mutex_kernel t) = current_priority (threads three_threads t)" for t
    using a mk(1) by (cases "t = 3") (simp_all add: acquired_def fr three_threads_data)
  have "holding_thread (mutexes mutex_kernel m) = None" if "m \<noteq> 10" for m
    using a that fr(5) by (simp add: acquired_def fresh_kernel_def)
  then show "inherit_inv mutex_kernel"
    unfolding inherit_inv_def using h(1) mk by (metis option.distinct(1) option.inject order_refl)
qed

theorem Mutex_Release_spec_witness:
  "(\<exists>e. Mutex_Release 10 1 mutex_kernel = Some (e, mutex_kernel) \<and> IsError e) \<and>
   (\<exists>k'. Mutex_Release 10 3 mutex_kernel = Some (ResultSuccess, k') \<and> kinv k')"
proof -
  have "\<forall>u. lock_count (mutexes mutex_kernel u) + int (length (waiting_threads mutex_kernel 10)) < 2 ^ 31"
    using le_less_trans [OF mutex_kernel_inv(5), of "2 ^ 31"] by (simp add: mutex_kernel_inv(6))
  from Mutex_Release_spec [OF mutex_kernel_inv(1,2) this, of 1] Mutex_Release_spec [OF mutex_kernel_inv(1,2) this, of 3]
  show ?thesis by (auto simp: mutex_kernel_inv(3,4))
qed

theorem priority_inheritance_witness:
  "current_priority (threads mutex_kernel 3) = 40 \<and>
   current_priority (threads (AddWaitingThread 10 2 mutex_kernel) 3) \<le> 20"
proof -
  have k: "current_priority (threads mutex_kernel 3) = 40" "current_priority (threads mutex_kernel 2) = 20"
    by (simp_all add: mutex_kernel_inv(8) three_threads_data)
  have "2 \<in> set (waiting_threads (AddWaitingThread 10 2 mutex_kernel) 10)"
    using AddWaitingThread_spec [of mutex_kernel 10 2] mutex_kernel_inv(1,6) only_prioD(14)
    by (fastforce simp: kinv_def)
  then show ?thesis
    using priority_inheritance [OF mutex_kernel_inv(1,7,2,3), of 2] k by (auto simp: Let_def)
qed

end
