(* ===== verification/Address_Arbiter.thy ===== *)
theory Address_Arbiter
  imports Kernel_Sync
begin

text \<open>
  \<^verbatim>\<open>Kernel::AddressArbiter\<close> (\<^verbatim>\<open>src/core/hle/kernel/address_arbiter.cpp\<close>): threads wait for an address and are resumed
  by number, best priority first. What \<^verbatim>\<open>Read32\<close> returned at the address is an argument of
  \<open>ArbitrateAddress\<close>, and a value to be written there is part of its result.
\<close>

section \<open>Definitions\<close>

definition set_arbiter :: "nat \<Rightarrow> nat list \<Rightarrow> kernel \<Rightarrow> kernel" where
  "set_arbiter a ws k = k\<lparr>arbiter_waiting := (arbiter_waiting k)(a := ws)\<rparr>"

definition WaitThread :: "nat \<Rightarrow> nat \<Rightarrow> nat \<Rightarrow> kernel \<Rightarrow> kernel" where
  "WaitThread a t address k =
     set_arbiter a (arbiter_waiting k a @ [t]) (upd_thread t (\<lambda>x. x\<lparr>wait_address := address, status := WaitArb\<rparr>) k)"

fun resume_each :: "nat list \<Rightarrow> kernel \<Rightarrow> kernel option" where
  "resume_each [] k = Some k"
| "resume_each (t # ts) k = do { k1 \<leftarrow> ResumeFromWait t k; resume_each ts k1 }"

text \<open>
  \<^verbatim>\<open>stable_partition\<close> puts the threads that wait for another address first; its predicate asserts the status of
  each thread.
\<close>

definition matching :: "nat \<Rightarrow> nat \<Rightarrow> kernel \<Rightarrow> nat list" where
  "matching a address k = filter (\<lambda>t. wait_address (threads k t) = address) (arbiter_waiting k a)"

definition not_matching :: "nat \<Rightarrow> nat \<Rightarrow> kernel \<Rightarrow> nat list" where
  "not_matching a address k = filter (\<lambda>t. wait_address (threads k t) \<noteq> address) (arbiter_waiting k a)"

definition ResumeAllThreads :: "nat \<Rightarrow> nat \<Rightarrow> kernel \<Rightarrow> (nat \<times> kernel) option" where
  "ResumeAllThreads a address k =
     (if \<forall>t \<in> set (arbiter_waiting k a). status (threads k t) = WaitArb
      then do { k1 \<leftarrow> resume_each (matching a address k) k;
                Some (length (matching a address k), set_arbiter a (not_matching a address k) k1) }
      else None)"

text \<open>\<^verbatim>\<open>min_element\<close> returns the first of the smallest elements.\<close>

fun min_thread :: "(nat \<Rightarrow> nat) \<Rightarrow> nat list \<Rightarrow> nat option" where
  "min_thread p [] = None"
| "min_thread p (t # ts) = (case min_thread p ts of None \<Rightarrow> Some t | Some u \<Rightarrow> if p u < p t then Some u else Some t)"

definition ResumeHighestPriorityThread :: "nat \<Rightarrow> nat \<Rightarrow> kernel \<Rightarrow> (bool \<times> kernel) option" where
  "ResumeHighestPriorityThread a address k =
     (if \<forall>t \<in> set (arbiter_waiting k a). status (threads k t) = WaitArb
      then case min_thread (\<lambda>t. current_priority (threads k t)) (matching a address k) of
             None \<Rightarrow> Some (False, set_arbiter a (not_matching a address k @ matching a address k) k)
           | Some t \<Rightarrow>
               do { k1 \<leftarrow> ResumeFromWait t k;
                    Some (True, set_arbiter a (not_matching a address k @ remove1 t (matching a address k)) k1) }
      else None)"

fun resume_n :: "nat \<Rightarrow> nat \<Rightarrow> nat \<Rightarrow> kernel \<Rightarrow> (nat \<times> kernel) option" where
  "resume_n 0 a address k = Some (0, k)"
| "resume_n (Suc n) a address k =
     do { (b, k1) \<leftarrow> ResumeHighestPriorityThread a address k;
          (m, k2) \<leftarrow> resume_n n a address k1;
          Some (m + (if b then 1 else 0), k2) }"

datatype ArbitrationType =
  AT_Signal | AT_WaitIfLessThan | AT_DecrementAndWaitIfLessThan | AT_WaitIfLessThanWithTimeout
| AT_DecrementAndWaitIfLessThanWithTimeout | AT_Unknown

text \<open>\<open>memory_value\<close> is the number at the address, \<open>core\<close> the current core; the result has the value written, if any.\<close>

definition ArbitrateAddress ::
  "nat \<Rightarrow> nat \<Rightarrow> nat \<Rightarrow> ArbitrationType \<Rightarrow> nat \<Rightarrow> int \<Rightarrow> int \<Rightarrow> int \<Rightarrow> kernel \<Rightarrow> (u32 \<times> int option \<times> kernel) option" where
  "ArbitrateAddress core a t type address value nanoseconds memory_value k =
     (let timed = (\<lambda>k. WakeAfterDelay (s64 nanoseconds) False t
                     (upd_thread t (\<lambda>x. x\<lparr>wakeup_callback := Some (ArbiterCallback a)\<rparr>) k)) in
      case type of
        AT_Signal \<Rightarrow>
          do { (n, k1) \<leftarrow> (if value < 0 then ResumeAllThreads a address k else resume_n (nat value) a address k);
               Some (ResultSuccess, None,
                 if n = 0 \<and> current_priority (threads k1 t) \<ge> 49
                 then k1\<lparr>ktiming := on_timer core (AddTicks 1614) (ktiming k1)\<rparr> else k1) }
      | AT_WaitIfLessThan \<Rightarrow>
          Some (ResultSuccess, None, if memory_value < value then WaitThread a t address k else k)
      | AT_WaitIfLessThanWithTimeout \<Rightarrow>
          if memory_value < value
          then do { k1 \<leftarrow> timed k; Some (ResultTimeout, None, WaitThread a t address k1) }
          else Some (ResultTimeout, None, k)
      | AT_DecrementAndWaitIfLessThan \<Rightarrow>
          if memory_value < value
          then Some (ResultSuccess, Some (s32 (memory_value - 1)), WaitThread a t address k)
          else Some (ResultSuccess, None, k)
      | AT_DecrementAndWaitIfLessThanWithTimeout \<Rightarrow>
          if memory_value < value
          then do { k1 \<leftarrow> timed k; Some (ResultTimeout, Some (s32 (memory_value - 1)), WaitThread a t address k1) }
          else Some (ResultTimeout, None, k)
      | AT_Unknown \<Rightarrow> Some (ResultInvalidEnumValueFnd, None, k))"

section \<open>Resuming\<close>

definition arb_inv :: "nat \<Rightarrow> kernel \<Rightarrow> bool" where
  "arb_inv a k \<longleftrightarrow> distinct (arbiter_waiting k a) \<and>
     (\<forall>t \<in> set (arbiter_waiting k a). registered k t \<and> status (threads k t) = WaitArb \<and> wait_objects (threads k t) = [])"

lemma matching_partition:
  "set (matching a address k) \<subseteq> set (arbiter_waiting k a)" "set (not_matching a address k) \<subseteq> set (arbiter_waiting k a)"
  "distinct (arbiter_waiting k a) \<Longrightarrow> distinct (not_matching a address k @ matching a address k)"
  by (auto simp: matching_def not_matching_def)

text \<open>Resuming one thread that waits for an address.\<close>

lemma resume_arb:
  assumes inv: "sched_inv k" and t: "registered k t" "status (threads k t) = WaitArb" "wait_objects (threads k t) = []"
  shows "\<exists>k'. ResumeFromWait t k = Some k' \<and> sched_inv k' \<and>
    threads k' = (threads k)(t := (threads k t)\<lparr>wakeup_callback := None, status := Ready\<rparr>) \<and>
    thread_list k' = thread_list k \<and> arbiter_waiting k' = arbiter_waiting k"
  using ResumeFromWait_spec [OF inv t(1,3)] t(2) by auto

lemma min_thread_spec:
  "min_thread p ts = None \<longleftrightarrow> ts = []"
  "min_thread p ts = Some t \<Longrightarrow> \<exists>xs ys. ts = xs @ t # ys \<and> (\<forall>u \<in> set xs. p t < p u) \<and> (\<forall>u \<in> set ys. p t \<le> p u)"
proof -
  show n: "min_thread p ts = None \<longleftrightarrow> ts = []" for ts by (cases ts) (auto split: option.splits)
  show "min_thread p ts = Some t \<Longrightarrow> \<exists>xs ys. ts = xs @ t # ys \<and> (\<forall>u \<in> set xs. p t < p u) \<and> (\<forall>u \<in> set ys. p t \<le> p u)"
  proof (induction ts arbitrary: t)
    case (Cons x ts)
    show ?case
    proof (cases "min_thread p ts")
      case None
      then have "ts = []" using n by blast
      then show ?thesis using Cons.prems None by (auto intro!: exI [of _ "[]"])
    next
      case (Some u)
      obtain xs ys where u: "ts = xs @ u # ys" "\<forall>v \<in> set xs. p u < p v" "\<forall>v \<in> set ys. p u \<le> p v"
        using Cons.IH [OF Some] by blast
      show ?thesis
      proof (cases "p u < p x")
        case True
        then show ?thesis using Cons.prems Some u by (intro exI [of _ "x # xs"] exI [of _ ys]) auto
      next
        case False
        then have "t = x" using Cons.prems Some by simp
        moreover have "p x \<le> p v" if "v \<in> set ts" for v using that u False by (auto dest!: bspec)
        ultimately show ?thesis by (intro exI [of _ "[]"] exI [of _ ts]) simp
      qed
    qed
  qed simp
qed

lemma sort_key_min:
  assumes "min_thread p ts = Some t" "distinct ts"
  shows "sort_key p ts = t # sort_key p (remove1 t ts)"
proof -
  obtain xs ys where ts: "ts = xs @ t # ys" "\<forall>u \<in> set xs. p t < p u" "\<forall>u \<in> set ys. p t \<le> p u"
    using min_thread_spec(2) [OF assms(1)] by blast
  have r: "remove1 t ts = xs @ ys" using assms(2) ts(1) by (simp add: remove1_append)
  show ?thesis
    unfolding r
  proof (rule properties_for_sort_key)
    show "mset (t # sort_key p (xs @ ys)) = mset ts" by (simp add: ts(1))
    show "filter (\<lambda>x. p v = p x) (t # sort_key p (xs @ ys)) = filter (\<lambda>x. p v = p x) ts" for v
    proof -
      have s: "filter (\<lambda>x. p v = p x) (sort_key p (xs @ ys)) = filter (\<lambda>x. p v = p x) (xs @ ys)"
        using sort_key_stable [of p "p v" "xs @ ys"] by (simp add: eq_commute)
      have "filter (\<lambda>x. p v = p x) xs = []" if "p v = p t" using ts(2) that by (auto simp: filter_empty_conv)
      then show ?thesis using s by (cases "p v = p t") (simp_all add: ts(1))
    qed
    show "sorted (map p (t # sort_key p (xs @ ys)))" using ts(2,3) by (auto simp: less_imp_le)
  qed
qed

text \<open>\<open>resumed ts k k'\<close>: the threads \<open>ts\<close> have become ready and nothing else of any thread has changed.\<close>

definition resumed :: "nat set \<Rightarrow> kernel \<Rightarrow> kernel \<Rightarrow> bool" where
  "resumed ts k k' \<longleftrightarrow> sched_inv k' \<and> thread_list k' = thread_list k \<and>
     threads k' = (\<lambda>u. if u \<in> ts then (threads k u)\<lparr>wakeup_callback := None, status := Ready\<rparr> else threads k u)"

lemma resumed_trans: "resumed A k k1 \<Longrightarrow> resumed B k1 k2 \<Longrightarrow> A \<inter> B = {} \<Longrightarrow> resumed (A \<union> B) k k2"
  by (auto simp: resumed_def fun_eq_iff)

lemma resume_each_spec:
  assumes "sched_inv k" "distinct ts"
    "\<forall>t \<in> set ts. registered k t \<and> status (threads k t) = WaitArb \<and> wait_objects (threads k t) = []"
  shows "\<exists>k'. resume_each ts k = Some k' \<and> resumed (set ts) k k' \<and> arbiter_waiting k' = arbiter_waiting k"
  using assms
proof (induction ts arbitrary: k)
  case Nil
  then show ?case by (simp add: resumed_def)
next
  case (Cons t ts)
  obtain k1 where k1: "ResumeFromWait t k = Some k1" "sched_inv k1" "thread_list k1 = thread_list k"
      "threads k1 = (threads k)(t := (threads k t)\<lparr>wakeup_callback := None, status := Ready\<rparr>)" "arbiter_waiting k1 = arbiter_waiting k"
    using resume_arb [of k t] Cons.prems by auto
  have "\<forall>u \<in> set ts. registered k1 u \<and> status (threads k1 u) = WaitArb \<and> wait_objects (threads k1 u) = []"
    using Cons.prems(2,3) k1(3,4) by (auto simp: registered_def)
  then obtain k' where k': "resume_each ts k1 = Some k'" "resumed (set ts) k1 k'" "arbiter_waiting k' = arbiter_waiting k"
    using Cons.IH [OF k1(2)] Cons.prems(2) k1(5) by auto
  have "resumed {t} k k1" using k1 by (auto simp: resumed_def fun_eq_iff)
  then have "resumed (set (t # ts)) k k'" using resumed_trans [OF _ k'(2), of "{t}"] Cons.prems(2) by simp
  then show ?case using k1(1) k' by simp
qed

lemma arb_inv_resumed:
  assumes "arb_inv a k" "resumed ts k k'" "arbiter_waiting k' a = ws" "distinct ws" "set ws \<subseteq> set (arbiter_waiting k a) - ts"
  shows "arb_inv a k'"
  using assms by (auto simp: arb_inv_def resumed_def registered_def)

lemma set_arbiter_simps [simp]:
  "threads (set_arbiter a ws k) = threads k" "thread_list (set_arbiter a ws k) = thread_list k"
  "arbiter_waiting (set_arbiter a ws k) = (arbiter_waiting k)(a := ws)" "sched_inv (set_arbiter a ws k) = sched_inv k"
proof -
  show "threads (set_arbiter a ws k) = threads k" "thread_list (set_arbiter a ws k) = thread_list k"
    "arbiter_waiting (set_arbiter a ws k) = (arbiter_waiting k)(a := ws)" by (simp_all add: set_arbiter_def)
  show "sched_inv (set_arbiter a ws k) = sched_inv k"
  proof
    show "sched_inv k" if "sched_inv (set_arbiter a ws k)" using that by (rule sched_inv_cong) (simp_all add: set_arbiter_def)
    show "sched_inv (set_arbiter a ws k)" if "sched_inv k" using that by (rule sched_inv_cong) (simp_all add: set_arbiter_def)
  qed
qed

lemma resumed_set_arbiter [simp]: "resumed ts k (set_arbiter a ws k') = resumed ts k k'"
  by (simp add: resumed_def)

lemma ResumeHighest_spec:
  assumes inv: "sched_inv k" "arb_inv a k"
  shows "\<exists>b k'. ResumeHighestPriorityThread a address k = Some (b, k') \<and>
    (case sort_key (\<lambda>t. current_priority (threads k t)) (matching a address k) of
       [] \<Rightarrow> \<not> b \<and> resumed {} k k' \<and> arbiter_waiting k' a = not_matching a address k
     | t # ts \<Rightarrow> b \<and> resumed {t} k k' \<and> arbiter_waiting k' a = not_matching a address k @ remove1 t (matching a address k))"
proof -
  let ?p = "\<lambda>t. current_priority (threads k t)"
  have st: "\<forall>t \<in> set (arbiter_waiting k a). status (threads k t) = WaitArb" using inv(2) by (simp add: arb_inv_def)
  show ?thesis
  proof (cases "min_thread ?p (matching a address k)")
    case None
    then have "matching a address k = []" using min_thread_spec(1) by blast
    then show ?thesis using st inv(1) by (auto simp: ResumeHighestPriorityThread_def resumed_def)
  next
    case (Some t)
    then have "t \<in> set (matching a address k)" using min_thread_spec(2) [OF Some] by auto
    then have t: "t \<in> set (arbiter_waiting k a)" using matching_partition(1) [of a address k] by blast
    obtain k1 where k1: "ResumeFromWait t k = Some k1" "sched_inv k1" "thread_list k1 = thread_list k"
      "threads k1 = (threads k)(t := (threads k t)\<lparr>wakeup_callback := None, status := Ready\<rparr>)"
      using resume_arb [OF inv(1), of t] t inv(2) by (auto simp: arb_inv_def)
    have "distinct (matching a address k)" using inv(2) by (simp add: arb_inv_def matching_def)
    then have "sort_key ?p (matching a address k) = t # sort_key ?p (remove1 t (matching a address k))"
      by (rule sort_key_min [OF Some])
    moreover have "resumed {t} k k1" using k1 by (auto simp: resumed_def fun_eq_iff)
    ultimately show ?thesis
      using st Some k1(1) by (auto simp: ResumeHighestPriorityThread_def)
  qed
qed

lemma resume_n_spec:
  fixes n a address :: nat and k :: kernel
  assumes "sched_inv k" "arb_inv a k"
  defines "ts \<equiv> take n (sort_key (\<lambda>t. current_priority (threads k t)) (matching a address k))"
  shows "\<exists>k'. resume_n n a address k = Some (length ts, k') \<and> resumed (set ts) k k' \<and> arb_inv a k' \<and>
    set (arbiter_waiting k' a) = set (arbiter_waiting k a) - set ts"
  using assms(1,2) unfolding ts_def
proof (induction n arbitrary: k)
  case 0
  then show ?case by (simp add: resumed_def)
next
  case (Suc n)
  let ?p = "\<lambda>t. current_priority (threads k t)"
  let ?m = "matching a address k" let ?n = "not_matching a address k"
  have d: "distinct (arbiter_waiting k a)" using Suc.prems(2) by (simp add: arb_inv_def)
  have dm: "distinct ?m" "distinct ?n" using matching_partition(3) [OF d, of address] by simp_all
  have un: "set ?n \<union> set ?m = set (arbiter_waiting k a)" "set ?n \<inter> set ?m = {}" by (auto simp: matching_def not_matching_def)
  obtain b k1 where r: "ResumeHighestPriorityThread a address k = Some (b, k1)"
    "case sort_key ?p ?m of
       [] \<Rightarrow> \<not> b \<and> resumed {} k k1 \<and> arbiter_waiting k1 a = ?n
     | t # ts \<Rightarrow> b \<and> resumed {t} k k1 \<and> arbiter_waiting k1 a = ?n @ remove1 t ?m"
    using ResumeHighest_spec [OF Suc.prems] by blast
  show ?case
  proof (cases "sort_key ?p ?m")
    case Nil
    then have m: "?m = []" using set_sort [of ?p ?m] by simp
    have k1: "\<not> b" "resumed {} k k1" "arbiter_waiting k1 a = ?n" using r(2) Nil by simp_all
    have a1: "arb_inv a k1" by (rule arb_inv_resumed [OF Suc.prems(2) k1(2,3)]) (use dm un m in auto)
    have "matching a address k1 = []" using k1 by (auto simp: matching_def not_matching_def resumed_def filter_empty_conv)
    then have m1: "sort_key (\<lambda>t. current_priority (threads k1 t)) (matching a address k1) = []" by simp
    have s1: "sched_inv k1" using k1(2) by (simp add: resumed_def)
    from Suc.IH [OF s1 a1, unfolded m1] obtain k' where
      k': "resume_n n a address k1 = Some (0, k')" "resumed {} k1 k'" "arb_inv a k'" "set (arbiter_waiting k' a) = set (arbiter_waiting k1 a)"
      by auto
    then show ?thesis using r(1) k1 Nil m un resumed_trans [OF k1(2) k'(2)] by simp
  next
    case (Cons t ts)
    have k1: "b" "resumed {t} k k1" "arbiter_waiting k1 a = ?n @ remove1 t ?m" using r(2) Cons by simp_all
    have t: "t \<in> set ?m" "sort_key ?p (remove1 t ?m) = ts"
    proof -
      show "t \<in> set ?m" using set_sort [of ?p ?m] Cons by auto
      obtain u where u: "min_thread ?p ?m = Some u"
        using min_thread_spec(1) [of ?p ?m] \<open>t \<in> set ?m\<close> by (cases "min_thread ?p ?m") auto
      then show "sort_key ?p (remove1 t ?m) = ts" using sort_key_min [OF u dm(1)] Cons by simp
    qed
    have s1: "sched_inv k1" using k1(2) by (simp add: resumed_def)
    have a1: "arb_inv a k1" by (rule arb_inv_resumed [OF Suc.prems(2) k1(2,3)]) (use dm un t in auto)
    have th: "wait_address (threads k1 u) = wait_address (threads k u)" "current_priority (threads k1 u) = ?p u" for u
      using k1(2) by (simp_all add: resumed_def)
    have "matching a address k1 = remove1 t ?m"
      unfolding matching_def [of a address k1] k1(3) th(1)
      using set_remove1_subset [of t ?m] by (auto simp: not_matching_def matching_def filter_empty_conv intro!: filter_True)
    then have m1: "sort_key (\<lambda>t. current_priority (threads k1 t)) (matching a address k1) = ts" using t(2) th(2) by simp
    from Suc.IH [OF s1 a1, unfolded m1] obtain k' where
      k': "resume_n n a address k1 = Some (length (take n ts), k')" "resumed (set (take n ts)) k1 k'" "arb_inv a k'"
        "set (arbiter_waiting k' a) = set (arbiter_waiting k1 a) - set (take n ts)" by blast
    have "t \<notin> set ts" using t(2) dm(1) by (metis set_sort set_remove1_eq Diff_iff insertI1)
    then have "t \<notin> set (take n ts)" by (meson in_set_takeD)
    then have "resumed (set (t # take n ts)) k k'" using resumed_trans [OF k1(2) k'(2)] by simp
    moreover have "set (arbiter_waiting k' a) = set (arbiter_waiting k a) - set (t # take n ts)"
      using k'(4) k1(3) un t(1) dm(1) by auto
    ultimately show ?thesis using r(1) k1(1) k'(1,3) Cons by simp
  qed
qed

section \<open>Properties\<close>

text \<open>
  Property (C27): signalling an address. With a negative number all threads that wait for the address are resumed,
  otherwise as many as the number says: the first ones of the list sorted stably by priority. They are ready
  and off the list, all other threads are unchanged, and no assertion fails.
\<close>

theorem ArbitrateAddress_Signal:
  assumes inv: "sched_inv k" "arb_inv a k"
  shows "let ts = (if value < 0 then matching a address k
        else take (nat value) (sort_key (\<lambda>t. current_priority (threads k t)) (matching a address k))) in
    \<exists>k'. ArbitrateAddress core a t AT_Signal address value nanoseconds memory_value k = Some (ResultSuccess, None, k') \<and>
      arb_inv a k' \<and> sched_inv k' \<and> set (arbiter_waiting k' a) = set (arbiter_waiting k a) - set ts \<and>
      threads k' = (\<lambda>u. if u \<in> set ts then (threads k u)\<lparr>wakeup_callback := None, status := Ready\<rparr> else threads k u)"
proof -
  define ts where "ts = (if value < 0 then matching a address k
        else take (nat value) (sort_key (\<lambda>t. current_priority (threads k t)) (matching a address k)))"
  have d: "distinct (arbiter_waiting k a)" using inv(2) by (simp add: arb_inv_def)
  have w: "registered k u \<and> status (threads k u) = WaitArb \<and> wait_objects (threads k u) = []" if "u \<in> set (arbiter_waiting k a)" for u
    using that inv(2) by (simp add: arb_inv_def)
  have "\<exists>k1. (if value < 0 then ResumeAllThreads a address k else resume_n (nat value) a address k) = Some (length ts, k1) \<and>
      resumed (set ts) k k1 \<and> arb_inv a k1 \<and> set (arbiter_waiting k1 a) = set (arbiter_waiting k a) - set ts"
  proof (cases "value < 0")
    case True
    have "distinct (matching a address k)" using d by (simp add: matching_def)
    moreover have "\<forall>u \<in> set (matching a address k). registered k u \<and> status (threads k u) = WaitArb \<and> wait_objects (threads k u) = []"
      using w matching_partition(1) [of a address k] by blast
    ultimately obtain k1 where k1: "resume_each (matching a address k) k = Some k1" "resumed (set (matching a address k)) k k1"
      using resume_each_spec [OF inv(1)] by blast
    let ?k = "set_arbiter a (not_matching a address k) k1"
    have "arb_inv a ?k"
      by (rule arb_inv_resumed [where ts = "set (matching a address k)" and ws = "not_matching a address k", OF inv(2)])
        (use k1(2) d in \<open>auto simp: matching_def not_matching_def\<close>)
    then show ?thesis using True k1 w by (auto simp: ResumeAllThreads_def ts_def matching_def not_matching_def)
  next
    case False
    then show ?thesis using resume_n_spec [OF inv, of "nat value" address] by (simp add: ts_def)
  qed
  then obtain k1 where k1: "(if value < 0 then ResumeAllThreads a address k else resume_n (nat value) a address k) = Some (length ts, k1)"
      "resumed (set ts) k k1" "arb_inv a k1" "set (arbiter_waiting k1 a) = set (arbiter_waiting k a) - set ts" by blast
  define k' where "k' = (if length ts = 0 \<and> current_priority (threads k1 t) \<ge> 49
      then k1\<lparr>ktiming := on_timer core (AddTicks 1614) (ktiming k1)\<rparr> else k1)"
  have "ArbitrateAddress core a t AT_Signal address value nanoseconds memory_value k = Some (ResultSuccess, None, k')"
    using k1(1) by (auto simp: ArbitrateAddress_def k'_def Let_def split: if_splits)
  moreover have "threads k' = threads k1" "thread_list k' = thread_list k1" "arbiter_waiting k' = arbiter_waiting k1"
    by (simp_all add: k'_def)
  moreover have "sched_inv k'" using k1(2) by (intro sched_inv_cong [of k1 k']) (simp_all add: k'_def resumed_def)
  ultimately show ?thesis using k1 unfolding ts_def [symmetric] Let_def
    by (intro exI [of _ k']) (simp add: resumed_def arb_inv_def registered_def)
qed

text \<open>Threads 1 and 2, of priorities 30 and 20, wait for address 256 at arbiter 5.\<close>

definition arb_kernel :: kernel where
  "arb_kernel = WaitThread 5 2 256 (WaitThread 5 1 256 three_threads)"

lemma WaitThread_frame:
  "arbiter_waiting (WaitThread a t address k) = (arbiter_waiting k)(a := arbiter_waiting k a @ [t])"
  "threads (WaitThread a t address k) = (threads k)(t := (threads k t)\<lparr>wait_address := address, status := WaitArb\<rparr>)"
  "thread_list (WaitThread a t address k) = thread_list k"
  by (simp_all add: WaitThread_def)

lemma WaitThread_inv:
  assumes "sched_inv k" "status (threads k t) \<noteq> Ready"
  shows "sched_inv (WaitThread a t address k)"
  by (rule sleep_inv [OF assms, of WaitArb]) (auto simp: WaitThread_def set_arbiter_def)

lemma arb_kernel_inv: "sched_inv arb_kernel" "arb_inv 5 arb_kernel"
proof -
  show "sched_inv arb_kernel"
    unfolding arb_kernel_def using three_threads_inv
    by (intro WaitThread_inv) (simp_all add: kinv_def WaitThread_frame three_threads_data)
  have "arbiter_waiting three_threads = (\<lambda>_. [])"
    by (simp add: three_threads_def sleeper_def CreateThread_def Let_def ThreadPrioLowest_def fresh_kernel_def)
  then show "arb_inv 5 arb_kernel"
    by (simp add: arb_kernel_def arb_inv_def WaitThread_frame registered_def three_threads_data)
qed

theorem ArbitrateAddress_Signal_witness:
  "\<exists>k'. ArbitrateAddress 0 5 3 AT_Signal 256 1 0 0 arb_kernel = Some (ResultSuccess, None, k') \<and>
     arbiter_waiting arb_kernel 5 = [1, 2] \<and> set (arbiter_waiting k' 5) = {1} \<and> status (threads k' 2) = Ready"
proof -
  have a: "arbiter_waiting arb_kernel 5 = [1, 2]"
    by (simp add: arb_kernel_def WaitThread_frame) (simp add: three_threads_def sleeper_def CreateThread_def Let_def ThreadPrioLowest_def fresh_kernel_def)
  have "matching 5 256 arb_kernel = [1, 2]"
    unfolding matching_def a by (simp add: arb_kernel_def WaitThread_frame)
  moreover have "current_priority (threads arb_kernel 1) = 30" "current_priority (threads arb_kernel 2) = 20"
    by (simp_all add: arb_kernel_def WaitThread_frame three_threads_data)
  ultimately have "take 1 (sort_key (\<lambda>t. current_priority (threads arb_kernel t)) (matching 5 256 arb_kernel)) = [2]" by simp
  then show ?thesis
    using ArbitrateAddress_Signal [OF arb_kernel_inv, of 1 256 0 3 0 0] a by (auto simp: Let_def)
qed

lemma WakeupAll_none:
  assumes "waiting_threads k ob = []" "\<not> hle_notifier k ob" "kind k ob = KThread t"
  shows "WakeupAllWaitingThreads ob k = Some k"
proof -
  have "wakeup_loop ob k = Some k" by (subst wakeup_loop.simps) (simp add: GetHighestPriorityReadyThread_def assms)
  then show ?thesis by (simp add: WakeupAllWaitingThreads_def assms)
qed

lemma arbiter_stuck:
  assumes "u \<in> set (arbiter_waiting k a)" "status (threads k u) \<noteq> WaitArb" "value \<noteq> 0"
  shows "ArbitrateAddress core a t AT_Signal address value ns v k = None"
proof -
  have b: "\<not> (\<forall>t \<in> set (arbiter_waiting k a). status (threads k t) = WaitArb)" using assms(1,2) by blast
  show ?thesis
  proof (cases "value < 0")
    case True
    then show ?thesis using b by (auto simp: ArbitrateAddress_def ResumeAllThreads_def)
  next
    case False
    then obtain n where n: "nat value = Suc n" using assms(3) by (cases "nat value") auto
    have "ResumeHighestPriorityThread a address k = None" using b by (auto simp: ResumeHighestPriorityThread_def)
    then show ?thesis using False by (simp add: ArbitrateAddress_def n)
  qed
qed

text \<open>
  Property (C29): a thread that is stopped while it waits at an arbiter (and nothing waits for the thread, which holds
  no mutex) stays on the arbiter's list. It is dead, so that every later signal of the arbiter, for any address,
  fails the assertion on the status of the waiting threads.
\<close>

theorem stopped_waiter_breaks_arbiter:
  assumes t: "status (threads k t) = WaitArb" "wait_objects (threads k t) = []" "held_mutexes (threads k t) = []"
    and w: "waiting_threads k t = []" "\<not> hle_notifier k t" "kind k t = KThread t"
    and a: "t \<in> set (arbiter_waiting k a)" and v: "value \<noteq> 0"
  shows "\<exists>k'. Thread_Stop t k = Some k' \<and> t \<in> set (arbiter_waiting k' a) \<and> status (threads k' t) = Dead \<and>
    ArbitrateAddress core a u AT_Signal address value ns v k' = None"
proof -
  define k3 where "k3 = upd_thread t (\<lambda>x. x\<lparr>status := Dead\<rparr>)
      (k\<lparr>ktiming := UnscheduleEvent (wakeup_event (core_id (threads k t))) (thread_id (threads k t)) (ktiming k),
         wakeup_callback_table := (wakeup_callback_table k)(core_id (threads k t) :=
           (wakeup_callback_table k (core_id (threads k t)))(thread_id (threads k t) := None))\<rparr>)"
  have wk: "WakeupAllWaitingThreads t k3 = Some k3" by (rule WakeupAll_none) (simp_all add: k3_def w)
  obtain k5 where r: "ReleaseThreadMutexes t (clear_wait_objects t k3) = Some k5"
      "arbiter_waiting k5 = arbiter_waiting k" "status (threads k5 t) = Dead"
    by (simp add: ReleaseThreadMutexes_def clear_wait_objects_def k3_def t)
  then obtain k' where "Thread_Stop t k = Some k'" "arbiter_waiting k' = arbiter_waiting k" "status (threads k' t) = Dead"
    using t(1) wk by (cases "owner_process (threads k5 t)")
      (auto simp: Thread_Stop_def Let_def k3_def Release_def RL_Max_def split: option.splits)
  then show ?thesis using arbiter_stuck [of t k' a] a v by auto
qed

theorem stopped_waiter_breaks_arbiter_witness:
  "\<exists>k'. Thread_Stop 2 arb_kernel = Some k' \<and> ArbitrateAddress 0 5 3 AT_Signal 512 1 0 0 k' = None"
proof -
  have f: "\<not> hle_notifier arb_kernel 2" "2 \<in> set (arbiter_waiting arb_kernel 5)"
    by (simp_all add: arb_kernel_def WaitThread_def set_arbiter_def)
      (simp_all add: three_threads_def sleeper_def CreateThread_def Let_def ThreadPrioLowest_def fresh_kernel_def)
  have "\<exists>k'. Thread_Stop 2 arb_kernel = Some k' \<and> 2 \<in> set (arbiter_waiting k' 5) \<and> status (threads k' 2) = Dead \<and>
    ArbitrateAddress 0 5 3 AT_Signal 512 1 0 0 k' = None"
    by (rule stopped_waiter_breaks_arbiter)
      (use f in \<open>simp_all add: arb_kernel_def WaitThread_def set_arbiter_def three_threads_data\<close>)
  then show ?thesis by blast
qed

end
