(* ===== verification/Kernel_SVC.thy ===== *)
theory Kernel_SVC
  imports Address_Arbiter Handle_Table
begin

text \<open>
  The system calls of \<^verbatim>\<open>src/core/hle/kernel/svc.cpp\<close> on threads and synchronisation objects, as the current process
  issues them: handles are looked up in its handle table, reservations are made on its resource limit, and
  the calls of the components follow. A call returns its result code, its output value when it
  stores one, and the new state; \<open>None\<close> is a failed assertion. The theory also follows a wait to its end:
  by a signal, or by its timeout.
\<close>

section \<open>State\<close>

text \<open>
  The objects of a handle table: wait objects by number (the kernel knows their kind), address arbiters,
  processes, client ports, client sessions by the number of their session, and objects of other types.
\<close>

datatype kobject = KO_Wait nat | KO_Arbiter nat | KO_Process nat | KO_ClientPort nat | KO_ClientSession nat | KO_Other

record svc =
  svc_kernel :: kernel
  svc_handles :: "kobject handle_table"
  svc_core :: nat
  svc_process :: nat
  svc_category :: ResourceLimitCategory
  no_thread_restrictions :: bool
  ideal_processor :: int

type_synonym 'a svc_result = "(u32 \<times> 'a option \<times> svc) option"

definition svc_Get :: "svc \<Rightarrow> u32 \<Rightarrow> kobject option" where
  "svc_Get s handle =
     GetGeneric (map_option KO_Wait (current_thread (svc_kernel s) (svc_core s))) (Some (KO_Process (svc_process s)))
       (svc_handles s) handle"

definition Get_WaitObject :: "svc \<Rightarrow> u32 \<Rightarrow> nat option" where
  "Get_WaitObject s handle = (case svc_Get s handle of Some (KO_Wait ob) \<Rightarrow> Some ob | _ \<Rightarrow> None)"

text \<open>\<^verbatim>\<open>handle_table.Get<T>\<close> for the types of wait objects: the object when it has the type.\<close>

definition Get_kind :: "object_kind \<Rightarrow> svc \<Rightarrow> u32 \<Rightarrow> nat option" where
  "Get_kind kd s handle =
     (case Get_WaitObject s handle of
        Some ob \<Rightarrow> if kind (svc_kernel s) ob = kd then Some ob else None
      | None \<Rightarrow> None)"

definition Get_Thread :: "svc \<Rightarrow> u32 \<Rightarrow> nat option" where
  "Get_Thread s handle =
     (case Get_WaitObject s handle of
        Some ob \<Rightarrow> (case kind (svc_kernel s) ob of KThread t \<Rightarrow> Some t | _ \<Rightarrow> None)
      | None \<Rightarrow> None)"

definition cur_thread :: "svc \<Rightarrow> nat" where
  "cur_thread s = the (current_thread (svc_kernel s) (svc_core s))"

abbreviation on_kernel :: "kernel \<Rightarrow> svc \<Rightarrow> svc" where
  "on_kernel k s \<equiv> s\<lparr>svc_kernel := k\<rparr>"

section \<open>Waiting\<close>

definition WaitSynchronization1 :: "u32 \<Rightarrow> int \<Rightarrow> svc \<Rightarrow> unit svc_result" where
  "WaitSynchronization1 handle nano_seconds s =
     (let t = cur_thread s; k = svc_kernel s in
      case Get_WaitObject s handle of
        None \<Rightarrow> Some (ResultInvalidHandle, None, s)
      | Some ob \<Rightarrow>
          if ShouldWait ob t k
          then if nano_seconds = 0 then Some (ResultTimeout, None, s)
               else do { let k1 = upd_thread t (\<lambda>x. x\<lparr>wait_objects := [ob]\<rparr>) k;
                         let k2 = upd_thread t (\<lambda>x. x\<lparr>status := WaitSynchAny\<rparr>) (AddWaitingThread ob t k1);
                         k3 \<leftarrow> WakeAfterDelay nano_seconds False t k2;
                         let k4 = upd_thread t (\<lambda>x. x\<lparr>wakeup_callback := Some (SyncCallback False)\<rparr>) k3;
                         Some (ResultTimeout, None, on_kernel (PrepareReschedule k4) s) }
          else do { k1 \<leftarrow> Acquire ob t k; Some (ResultSuccess, None, on_kernel k1 s) })"

text \<open>The loop that reads the handles; \<open>None\<close> when one of them is not a wait object.\<close>

fun get_objects :: "svc \<Rightarrow> u32 list \<Rightarrow> nat list option" where
  "get_objects s [] = Some []"
| "get_objects s (h # hs) = do { ob \<leftarrow> Get_WaitObject s h; obs \<leftarrow> get_objects s hs; Some (ob # obs) }"

text \<open>Suspending the current thread, as both branches of \<^verbatim>\<open>WaitSynchronizationN\<close> do.\<close>

definition suspend :: "ThreadStatus \<Rightarrow> nat list \<Rightarrow> bool \<Rightarrow> int \<Rightarrow> nat \<Rightarrow> kernel \<Rightarrow> kernel option" where
  "suspend st objs do_output nano_seconds t k =
     do { let k1 = upd_thread t (\<lambda>x. x\<lparr>status := st\<rparr>) k;
          let k2 = upd_thread t (\<lambda>x. x\<lparr>wait_objects := objs\<rparr>) (fold (\<lambda>ob. AddWaitingThread ob t) objs k1);
          k3 \<leftarrow> WakeAfterDelay nano_seconds False t k2;
          Some (PrepareReschedule (upd_thread t (\<lambda>x. x\<lparr>wakeup_callback := Some (SyncCallback do_output)\<rparr>) k3)) }"

definition find_ready :: "nat \<Rightarrow> kernel \<Rightarrow> nat list \<Rightarrow> nat option" where
  "find_ready t k objs = find (\<lambda>i. \<not> ShouldWait (objs ! i) t k) [0..<length objs]"

text \<open>
  \<open>valid\<close>: whether \<^verbatim>\<open>handles_address\<close> is mapped; \<open>read i\<close>: what \<^verbatim>\<open>Read32\<close> returns for the handle of index \<open>i\<close>.
\<close>

definition WaitSynchronizationN ::
  "bool \<Rightarrow> (nat \<Rightarrow> u32) \<Rightarrow> int \<Rightarrow> bool \<Rightarrow> int \<Rightarrow> svc \<Rightarrow> int svc_result" where
  "WaitSynchronizationN valid read handle_count wait_all nano_seconds s =
     (let t = cur_thread s; k = svc_kernel s in
      if \<not> valid then Some (ResultInvalidPointer, None, s)
      else if handle_count < 0 then Some (ResultOutOfRange, None, s)
      else case get_objects s (map read [0..<nat handle_count]) of
        None \<Rightarrow> Some (ResultInvalidHandle, None, s)
      | Some objs \<Rightarrow>
          if wait_all
          then if \<forall>ob \<in> set objs. \<not> ShouldWait ob t k
               then do { k1 \<leftarrow> acquire_all objs t k; Some (ResultSuccess, None, on_kernel k1 s) }
               else if nano_seconds = 0 then Some (ResultTimeout, None, s)
               else do { k1 \<leftarrow> suspend WaitSynchAll objs False nano_seconds t k;
                         Some (ResultTimeout, Some (- 1), on_kernel k1 s) }
          else case find_ready t k objs of
                 Some i \<Rightarrow> do { k1 \<leftarrow> Acquire (objs ! i) t k; Some (ResultSuccess, Some (int i), on_kernel k1 s) }
               | None \<Rightarrow>
                   if nano_seconds = 0 then Some (ResultTimeout, None, s)
                   else do { k1 \<leftarrow> suspend WaitSynchAny objs True nano_seconds t k;
                             Some (ResultTimeout, Some (- 1), on_kernel k1 s) })"

section \<open>Creating objects\<close>

text \<open>
  Reserving one unit on the resource limit of the process, and what the destructor of an object that was
  not handed out does.
\<close>

definition reserve_one :: "ResourceLimitType \<Rightarrow> svc \<Rightarrow> (bool \<times> svc) option" where
  "reserve_one ty s =
     do { (ok, rl) \<leftarrow> Reserve (rl_index ty) 1 (resource_limits (svc_kernel s) (svc_category s));
          Some (ok, on_kernel ((svc_kernel s)\<lparr>resource_limits := (resource_limits (svc_kernel s))(svc_category s := rl)\<rparr>) s) }"

definition release_one :: "ResourceLimitType \<Rightarrow> svc \<Rightarrow> svc option" where
  "release_one ty s =
     do { (ok, rl) \<leftarrow> Release (rl_index ty) 1 (resource_limits (svc_kernel s) (svc_category s));
          Some (on_kernel ((svc_kernel s)\<lparr>resource_limits := (resource_limits (svc_kernel s))(svc_category s := rl)\<rparr>) s) }"

definition Timer_destroy :: "nat \<Rightarrow> svc \<Rightarrow> svc option" where
  "Timer_destroy tm s =
     (let k = Timer_Cancel tm (svc_kernel s)
      in release_one RL_Timer
           (on_kernel (k\<lparr>timer_callback_table := (timer_callback_table k)(callback_id (ktimers k tm) := None)\<rparr>) s))"

definition out_of :: "u32 \<Rightarrow> u32" where
  "out_of code = MakeResultRaw code EM_OS ES_OutOfResource EL_Status"

definition add_handle :: "kobject \<Rightarrow> (svc \<Rightarrow> svc option) \<Rightarrow> svc \<Rightarrow> u32 svc_result" where
  "add_handle ob destroy s =
     (case Create (svc_handles s) ob of
        Ok table handle \<Rightarrow> Some (ResultSuccess, Some handle, s\<lparr>svc_handles := table\<rparr>)
      | Err table code \<Rightarrow> do { s1 \<leftarrow> destroy (s\<lparr>svc_handles := table\<rparr>); Some (code, None, s1) }
      | Crash \<Rightarrow> None)"

definition svc_CreateMutex :: "nat \<Rightarrow> u32 \<Rightarrow> svc \<Rightarrow> u32 svc_result" where
  "svc_CreateMutex m initial_locked s =
     do { (ok, s1) \<leftarrow> reserve_one RL_Mutex s;
          if \<not> ok then Some (out_of 13, None, s1)
          else do { k \<leftarrow> CreateMutex m (svc_core s) (initial_locked \<noteq> 0) (svc_kernel s1);
                    add_handle (KO_Wait m) (if initial_locked \<noteq> 0 then Some else release_one RL_Mutex) (on_kernel k s1) } }"

definition svc_CreateSemaphore :: "nat \<Rightarrow> int \<Rightarrow> int \<Rightarrow> svc \<Rightarrow> u32 svc_result" where
  "svc_CreateSemaphore sem initial_count maximum s =
     do { (ok, s1) \<leftarrow> reserve_one RL_Semaphore s;
          if \<not> ok then Some (out_of 14, None, s1)
          else let (r, k) = CreateSemaphore sem initial_count maximum (svc_kernel s1)
               in if IsError r then Some (r, None, s1)
                  else add_handle (KO_Wait sem) (release_one RL_Semaphore) (on_kernel k s1) }"

text \<open>The reset type is cast from a number; one beyond the three values behaves like \<^verbatim>\<open>Sticky\<close>, since only the others are tested for.\<close>

definition to_ResetType :: "u32 \<Rightarrow> ResetType" where
  "to_ResetType n = (if n = 0 then OneShot else if n = 2 then Pulse else Sticky)"

definition svc_CreateEvent :: "nat \<Rightarrow> u32 \<Rightarrow> svc \<Rightarrow> u32 svc_result" where
  "svc_CreateEvent e reset_type s =
     do { (ok, s1) \<leftarrow> reserve_one RL_Event s;
          if \<not> ok then Some (out_of 15, None, s1)
          else add_handle (KO_Wait e) (release_one RL_Event)
                 (on_kernel (CreateEvent e (to_ResetType reset_type) (svc_kernel s1)) s1) }"

definition svc_CreateTimer :: "nat \<Rightarrow> u32 \<Rightarrow> svc \<Rightarrow> u32 svc_result" where
  "svc_CreateTimer tm reset_type s =
     do { (ok, s1) \<leftarrow> reserve_one RL_Timer s;
          if \<not> ok then Some (out_of 16, None, s1)
          else add_handle (KO_Wait tm) (Timer_destroy tm)
                 (on_kernel (CreateTimer tm (to_ResetType reset_type) (svc_kernel s1)) s1) }"

definition svc_CreateAddressArbiter :: "nat \<Rightarrow> svc \<Rightarrow> u32 svc_result" where
  "svc_CreateAddressArbiter a s =
     do { (ok, s1) \<leftarrow> reserve_one RL_AddressArbiter s;
          if \<not> ok then Some (out_of 51, None, s1)
          else add_handle (KO_Arbiter a) (release_one RL_AddressArbiter) (on_kernel (set_arbiter a [] (svc_kernel s1)) s1) }"

text \<open>
  \<^verbatim>\<open>svcCreateThread\<close>. Register 17 of a context is the floating-point status. \<open>num_cores\<close>, \<open>entry_valid\<close> and \<open>tls\<close>
  are as for \<open>CreateThread\<close>.
\<close>

definition svc_CreateThread ::
  "nat \<Rightarrow> bool \<Rightarrow> (u32 + nat) \<Rightarrow> nat \<Rightarrow> u32 \<Rightarrow> u32 \<Rightarrow> u32 \<Rightarrow> nat \<Rightarrow> int \<Rightarrow> svc \<Rightarrow> u32 svc_result" where
  "svc_CreateThread num_cores entry_valid tls t entry_point arg stack_top priority processor_id s =
     (if priority > ThreadPrioLowest then Some (ResultOutOfRange, None, s)
      else do {
        max_priority \<leftarrow> GetLimitValue (rl_index RL_Priority) (resource_limits (svc_kernel s) (svc_category s));
        if \<not> (max_priority mod 2 ^ 32 \<le> int priority \<or> no_thread_restrictions s) then Some (ResultNotAuthorized, None, s)
        else let processor = (if processor_id = - 2 then ideal_processor s else processor_id) in
          if processor_id = - 2 \<and> processor = - 2 then None
          else if processor \<notin> {- 1, 0, 1, 2, 3} then Some (ResultOutOfRange, None, s)
          else do {
            (ok, s1) \<leftarrow> reserve_one RL_Thread s;
            if \<not> ok then Some (out_of 12, None, s1)
            else case CreateThread num_cores t entry_point priority arg (if processor = - 1 then 0 else processor) stack_top
                        (svc_process s) (svc_category s) True entry_valid tls (svc_kernel s1) of
                   Ok k _ \<Rightarrow>
                     add_handle (KO_Wait t) Some
                       (on_kernel (PrepareReschedule (upd_thread t (\<lambda>x. x\<lparr>ctx := (ctx x)(17 := 0x03C00000)\<rparr>) k)) s1)
                 | Err k code \<Rightarrow> Some (code, None, on_kernel k s1)
                 | Crash \<Rightarrow> None } })"

section \<open>Using objects\<close>

definition ReleaseMutex :: "u32 \<Rightarrow> svc \<Rightarrow> unit svc_result" where
  "ReleaseMutex handle s =
     (case Get_kind KMutex s handle of
        None \<Rightarrow> Some (ResultInvalidHandle, None, s)
      | Some m \<Rightarrow> do { (r, k) \<leftarrow> Mutex_Release m (cur_thread s) (svc_kernel s); Some (r, None, on_kernel k s) })"

definition ReleaseSemaphore :: "u32 \<Rightarrow> int \<Rightarrow> svc \<Rightarrow> int svc_result" where
  "ReleaseSemaphore handle release_count s =
     (case Get_kind KSemaphore s handle of
        None \<Rightarrow> Some (ResultInvalidHandle, None, s)
      | Some sem \<Rightarrow> do { (r, count, k) \<leftarrow> Semaphore_Release sem release_count (svc_kernel s); Some (r, count, on_kernel k s) })"

definition SignalEvent :: "u32 \<Rightarrow> svc \<Rightarrow> unit svc_result" where
  "SignalEvent handle s =
     (case Get_kind KEvent s handle of
        None \<Rightarrow> Some (ResultInvalidHandle, None, s)
      | Some e \<Rightarrow> do { k \<leftarrow> Event_Signal e (svc_kernel s); Some (ResultSuccess, None, on_kernel k s) })"

definition ClearEvent :: "u32 \<Rightarrow> svc \<Rightarrow> unit svc_result" where
  "ClearEvent handle s =
     (case Get_kind KEvent s handle of
        None \<Rightarrow> Some (ResultInvalidHandle, None, s)
      | Some e \<Rightarrow> Some (ResultSuccess, None, on_kernel (Event_Clear e (svc_kernel s)) s))"

definition ClearTimer :: "u32 \<Rightarrow> svc \<Rightarrow> unit svc_result" where
  "ClearTimer handle s =
     (case Get_kind KTimer s handle of
        None \<Rightarrow> Some (ResultInvalidHandle, None, s)
      | Some tm \<Rightarrow> Some (ResultSuccess, None, on_kernel (Timer_Clear tm (svc_kernel s)) s))"

definition SetTimer :: "u32 \<Rightarrow> int \<Rightarrow> int \<Rightarrow> svc \<Rightarrow> unit svc_result" where
  "SetTimer handle initial interval s =
     (if \<not> (initial \<ge> 0 \<and> interval \<ge> 0) then Some (ResultOutOfRangeKernel, None, s)
      else case Get_kind KTimer s handle of
             None \<Rightarrow> Some (ResultInvalidHandle, None, s)
           | Some tm \<Rightarrow> do { k \<leftarrow> Timer_Set tm initial interval (svc_kernel s); Some (ResultSuccess, None, on_kernel k s) })"

definition CancelTimer :: "u32 \<Rightarrow> svc \<Rightarrow> unit svc_result" where
  "CancelTimer handle s =
     (case Get_kind KTimer s handle of
        None \<Rightarrow> Some (ResultInvalidHandle, None, s)
      | Some tm \<Rightarrow> Some (ResultSuccess, None, on_kernel (Timer_Cancel tm (svc_kernel s)) s))"

definition to_ArbitrationType :: "u32 \<Rightarrow> ArbitrationType" where
  "to_ArbitrationType n =
     (if n = 0 then AT_Signal else if n = 1 then AT_WaitIfLessThan else if n = 2 then AT_DecrementAndWaitIfLessThan
      else if n = 3 then AT_WaitIfLessThanWithTimeout else if n = 4 then AT_DecrementAndWaitIfLessThanWithTimeout
      else AT_Unknown)"

text \<open>The output is the number written to the address, if any.\<close>

definition svc_ArbitrateAddress :: "u32 \<Rightarrow> nat \<Rightarrow> u32 \<Rightarrow> u32 \<Rightarrow> int \<Rightarrow> u32 \<Rightarrow> svc \<Rightarrow> int svc_result" where
  "svc_ArbitrateAddress handle address type value nanoseconds memory_value s =
     (case svc_Get s handle of
        Some (KO_Arbiter a) \<Rightarrow>
          do { (r, out, k) \<leftarrow> ArbitrateAddress (svc_core s) a (cur_thread s) (to_ArbitrationType type) address
                 (sint value) nanoseconds (sint memory_value) (svc_kernel s);
               Some (r, out, on_kernel (PrepareReschedule k) s) }
      | _ \<Rightarrow> Some (ResultInvalidHandle, None, s))"

definition GetThreadPriority :: "u32 \<Rightarrow> svc \<Rightarrow> nat svc_result" where
  "GetThreadPriority handle s =
     (case Get_Thread s handle of
        None \<Rightarrow> Some (ResultInvalidHandle, None, s)
      | Some t \<Rightarrow> Some (ResultSuccess, Some (current_priority (threads (svc_kernel s) t)), s))"

definition SetThreadPriority :: "u32 \<Rightarrow> nat \<Rightarrow> svc \<Rightarrow> unit svc_result" where
  "SetThreadPriority handle priority s =
     (if \<not> priority \<le> ThreadPrioLowest then Some (ResultOutOfRange, None, s)
      else case Get_Thread s handle of
        None \<Rightarrow> Some (ResultInvalidHandle, None, s)
      | Some t \<Rightarrow> do {
          max_priority \<leftarrow> GetLimitValue (rl_index RL_Priority) (resource_limits (svc_kernel s) (svc_category s));
          if \<not> max_priority mod 2 ^ 32 \<le> int priority then Some (ResultNotAuthorized, None, s)
          else do {
            k1 \<leftarrow> SetPriority priority t (svc_kernel s);
            let k2 = Thread_UpdatePriority t k1;
            let k3 = fold Mutex_UpdatePriority (pending_mutexes (threads k2 t)) k2;
            Some (ResultSuccess, None, on_kernel (PrepareReschedule k3) s) } })"

definition GetThreadId :: "u32 \<Rightarrow> svc \<Rightarrow> nat svc_result" where
  "GetThreadId handle s =
     (case Get_Thread s handle of
        None \<Rightarrow> Some (ResultInvalidHandle, None, s)
      | Some t \<Rightarrow> Some (ResultSuccess, Some (thread_id (threads (svc_kernel s) t)), s))"

definition ExitThread :: "svc \<Rightarrow> svc option" where
  "ExitThread s =
     do { k \<leftarrow> ExitCurrentThread (svc_core s) (svc_kernel s); Some (on_kernel (PrepareReschedule k) s) }"

definition DuplicateHandle :: "u32 \<Rightarrow> svc \<Rightarrow> u32 svc_result" where
  "DuplicateHandle handle s =
     (case Duplicate (map_option KO_Wait (current_thread (svc_kernel s) (svc_core s))) (Some (KO_Process (svc_process s)))
             (svc_handles s) handle of
        Ok table out \<Rightarrow> Some (ResultSuccess, Some out, s\<lparr>svc_handles := table\<rparr>)
      | Err table code \<Rightarrow> Some (code, None, s\<lparr>svc_handles := table\<rparr>)
      | Crash \<Rightarrow> None)"

section \<open>Falling asleep\<close>

text \<open>The clock of a kernel in which thread \<open>t\<close> waits with a timeout.\<close>

definition wait_timing :: "int \<Rightarrow> nat \<Rightarrow> kernel \<Rightarrow> kcallback timing" where
  "wait_timing nano_seconds t k =
     (if nano_seconds = - 1 then ktiming k
      else the (ScheduleEvent (nsToCycles_s64 nano_seconds) (wakeup_event (core_id (threads k t)))
                  (thread_id (threads k t)) None False (ktiming k)))"

lemma ScheduleEvent_default: "ScheduleEvent c ty d None False tm \<noteq> None"
  by (simp add: ScheduleEvent_def Let_def)

lemma WakeAfterDelay_default:
  "WakeAfterDelay ns False t k = Some (k\<lparr>ktiming := wait_timing ns t k\<rparr>)"
  using ScheduleEvent_default [of "nsToCycles_s64 ns" "wakeup_event (core_id (threads k t))" "thread_id (threads k t)" "ktiming k"]
  by (auto simp: WakeAfterDelay_def wait_timing_def Let_def)

text \<open>An update of a thread's own waiting state commutes with its entering a list.\<close>

definition wait_update :: "nat \<Rightarrow> (thread \<Rightarrow> thread) \<Rightarrow> kernel \<Rightarrow> bool" where
  "wait_update t f k \<longleftrightarrow>
     (\<forall>x p. f (x\<lparr>current_priority := p\<rparr>) = (f x)\<lparr>current_priority := p\<rparr>) \<and>
     (\<forall>x p. f (x\<lparr>pending_mutexes := p\<rparr>) = (f x)\<lparr>pending_mutexes := p\<rparr>) \<and>
     (\<forall>x. core_id (f x) = core_id x \<and> current_priority (f x) = current_priority x \<and> nominal_priority (f x) = nominal_priority x \<and>
        held_mutexes (f x) = held_mutexes x \<and> pending_mutexes (f x) = pending_mutexes x) \<and>
     (status (f (threads k t)) = Ready \<longleftrightarrow> status (threads k t) = Ready)"

lemma BoostPriority_commute:
  assumes "wait_update t f k"
  shows "BoostPriority p h (upd_thread t f k) = upd_thread t f (BoostPriority p h k)"
proof (cases "h = t")
  case True
  then show ?thesis using assms by (simp add: BoostPriority_def Let_def upd_thread_def upd_queue_def wait_update_def)
next
  case False
  then show ?thesis by (simp add: BoostPriority_def Let_def upd_thread_def upd_queue_def fun_upd_twist)
qed

lemma Thread_UpdatePriority_commute:
  assumes "wait_update t f k"
  shows "Thread_UpdatePriority h (upd_thread t f k) = upd_thread t f (Thread_UpdatePriority h k)"
proof -
  have "best_of (nominal_priority (threads (upd_thread t f k) h)) (map (\<lambda>m. mtx_priority (mutexes (upd_thread t f k) m)) (held_mutexes (threads (upd_thread t f k) h))) =
      best_of (nominal_priority (threads k h)) (map (\<lambda>m. mtx_priority (mutexes k m)) (held_mutexes (threads k h)))"
    using assms by (simp add: upd_thread_def wait_update_def)
  then show ?thesis unfolding Thread_UpdatePriority_def by (simp add: BoostPriority_commute [OF assms])
qed

lemma Mutex_UpdatePriority_commute:
  assumes "wait_update t f k"
  shows "Mutex_UpdatePriority m (upd_thread t f k) = upd_thread t f (Mutex_UpdatePriority m k)"
proof -
  have p: "current_priority (threads (upd_thread t f k) u) = current_priority (threads k u)" for u
    using assms by (simp add: wait_update_def)
  have u: "upd_mutex m g (upd_thread t f k) = upd_thread t f (upd_mutex m g k)" "wait_update t f (upd_mutex m g k)" for g
    using assms by (simp_all add: upd_mutex_def upd_thread_def wait_update_def)
  show ?thesis
    unfolding Mutex_UpdatePriority_def p
    by (simp add: Let_def u(1) Thread_UpdatePriority_commute [OF u(2)] split: option.splits)
qed

lemma AddWaitingThread_commute:
  assumes "wait_update t f k"
  shows "AddWaitingThread ob t (upd_thread t f k) = upd_thread t f (AddWaitingThread ob t k)"
proof -
  let ?g = "\<lambda>x. x\<lparr>pending_mutexes := set_insert ob (pending_mutexes x)\<rparr>"
  let ?w = "upd_waiting ob (\<lambda>ws. if t \<in> set ws then ws else ws @ [t])"
  have "?w (upd_thread t f k) = upd_thread t f (?w k)" by (simp add: upd_waiting_def upd_thread_def)
  moreover have "upd_thread t ?g (upd_thread t f (?w k)) = upd_thread t f (upd_thread t ?g (?w k))"
    using assms by (simp add: upd_thread_def wait_update_def)
  moreover have "wait_update t f (upd_thread t ?g (?w k))"
    using assms by (simp add: wait_update_def upd_waiting_def)
  ultimately show ?thesis by (simp add: AddWaitingThread_def Let_def Mutex_UpdatePriority_commute)
qed

lemma fold_AddWaitingThread_commute:
  assumes "\<And>k. status (threads k t) = s \<Longrightarrow> wait_update t f k" "status (threads k t) = s"
  shows "fold (\<lambda>ob. AddWaitingThread ob t) obs (upd_thread t f k) = upd_thread t f (fold (\<lambda>ob. AddWaitingThread ob t) obs k)"
  using assms(2)
proof (induction obs arbitrary: k)
  case (Cons ob obs)
  have "status (threads (AddWaitingThread ob t k) t) = status (threads k t)"
    by (auto simp: AddWaitingThread_def Let_def only_prioD(1) [OF Mutex_UpdatePriority_only])
  then show ?case using Cons assms(1) by (simp add: AddWaitingThread_commute)
qed simp

lemma upd_thread_ktiming: "upd_thread t f (k\<lparr>ktiming := tm\<rparr>) = (upd_thread t f k)\<lparr>ktiming := tm\<rparr>"
  by (cases k) (simp add: upd_thread_def)

lemma upd_thread_twice: "upd_thread t f (upd_thread t g k) = upd_thread t (\<lambda>x. f (g x)) k"
  by (simp add: upd_thread_def)

lemma suspend_asleep:
  assumes "status (threads k t) \<noteq> Ready" "st \<noteq> Ready"
  shows "suspend st obs b ns t k = Some (PrepareReschedule ((asleep st obs b t k)\<lparr>ktiming := wait_timing ns t k\<rparr>))"
proof -
  let ?f = "\<lambda>x. x\<lparr>status := st\<rparr>"
  let ?k = "fold (\<lambda>ob. AddWaitingThread ob t) obs k"
  have "fold (\<lambda>ob. AddWaitingThread ob t) obs (upd_thread t ?f k) = upd_thread t ?f ?k"
    by (rule fold_AddWaitingThread_commute [where s = "status (threads k t)"]) (use assms in \<open>auto simp: wait_update_def\<close>)
  moreover have "core_id (threads ?k t) = core_id (threads k t) \<and> thread_id (threads ?k t) = thread_id (threads k t) \<and> ktiming ?k = ktiming k"
    by (induction obs arbitrary: k)
      (auto simp: AddWaitingThread_def Let_def only_prioD(4,10) [OF Mutex_UpdatePriority_only] Mutex_UpdatePriority_def
        Thread_UpdatePriority_def BoostPriority_def upd_thread_def upd_queue_def upd_mutex_def upd_waiting_def split: option.split)
  ultimately show ?thesis
    by (simp add: suspend_def Let_def WakeAfterDelay_default asleep_with_def wait_timing_def upd_thread_ktiming upd_thread_twice)
qed

text \<open>What falling asleep does to a kernel.\<close>

definition sleeps :: "ThreadStatus \<Rightarrow> nat list \<Rightarrow> bool \<Rightarrow> int \<Rightarrow> nat \<Rightarrow> kernel \<Rightarrow> kernel \<Rightarrow> bool" where
  "sleeps st obs b ns t k k' \<longleftrightarrow>
     status (threads k' t) = st \<and> wait_objects (threads k' t) = obs \<and> wakeup_callback (threads k' t) = Some (SyncCallback b) \<and>
     waiting_threads k' = (\<lambda>ob. if ob \<in> set obs then waiting_threads k ob @ [t] else waiting_threads k ob) \<and>
     (\<forall>u. u \<noteq> t \<longrightarrow> threads k' u = (threads k u)\<lparr>current_priority := current_priority (threads k' u)\<rparr>) \<and>
     ktiming k' = wait_timing ns t k \<and> reschedule_pending k'"

lemma suspend_spec:
  assumes inv: "kinv k" and t: "registered k t" "status (threads k t) = Running" "wait_objects (threads k t) = []"
    and s: "s = WaitSynchAny \<or> s = WaitSynchAll \<and> distinct obs"
  shows "\<exists>k'. suspend s obs b ns t k = Some k' \<and> kinv k' \<and> sleeps s obs b ns t k k' \<and> current_thread k' = current_thread k \<and> kind k' = kind k \<and> events k' = events k"
proof -
  let ?a = "asleep s obs b t k"
  have r: "status (threads k t) \<noteq> Ready" "s \<noteq> Ready" using t(2) s by auto
  note a = asleep_inv [OF inv t(1) r(1) t(3) s, where b = b]
  let ?k = "PrepareReschedule (?a\<lparr>ktiming := wait_timing ns t k\<rparr>)"
  have "kinv ?k" by (rule kinv_cong [OF a(1)]) (simp_all add: PrepareReschedule_def)
  moreover have "status (threads ?a t) = s" "wait_objects (threads ?a t) = obs" "wakeup_callback (threads ?a t) = Some (SyncCallback b)"
    by (simp_all add: asleep_with_def)
  then have "sleeps s obs b ns t k ?k"
    using a(2,3) unfolding sleeps_def by (auto simp: PrepareReschedule_def)
  moreover have "current_thread ?k = current_thread k" "kind ?k = kind k" "events ?k = events k"
  proof -
    have k: "sched_inv k" "mutex_inv k" "wait_inv k" using inv by (simp_all add: kinv_def)
    have "t \<notin> set (waiting_threads k ob)" for ob using wait_invD(5) [OF k(3), of ob t] t(3) by simp
    then obtain p W where "only_prio (leave t p W k) (fold (\<lambda>ob. AddWaitingThread ob t) obs k)"
      using fold_add_spec [OF k(1,2), of t UNIV obs] by auto
    then show "current_thread ?k = current_thread k" "kind ?k = kind k" "events ?k = events k"
      by (simp_all add: PrepareReschedule_def asleep_with_def only_prio_def)
  qed
  ultimately show ?thesis using suspend_asleep [OF r] by auto
qed

lemma acquired_kinv: "kinv k \<Longrightarrow> acquired k obs t k' \<Longrightarrow> kinv k'"
  using same_waits_inv by (auto simp: kinv_def acquired_def)

section \<open>Properties of waiting\<close>

text \<open>
  Property (C7): \<^verbatim>\<open>svcWaitSynchronizationN\<close> with valid handles. The running thread either gets what it asked for at once (all the
  objects, or the first that is free, whose index is returned), or the call times out at once without
  any effect when the timeout is zero, or the thread is asleep: at the end of the waiting list of each object and of no
  other, with its wake-up event scheduled unless it waits for ever, and a rescheduling requested. In each case no
  assertion fails and the kernel stays well formed.
\<close>

theorem WaitSynchronizationN_spec:
  assumes inv: "kinv k" and s: "svc_kernel s = k" "cur_thread s = t"
    and t: "registered k t" "status (threads k t) = Running" "wait_objects (threads k t) = []"
    and obs: "0 \<le> n" "get_objects s (map read [0..<nat n]) = Some obs" "wait_all \<longrightarrow> distinct obs"
    and bound: "\<forall>m. lock_count (mutexes k m) + 1 < 2 ^ 31"
  shows "\<exists>r out k'. WaitSynchronizationN True read n wait_all ns s = Some (r, out, on_kernel k' s) \<and> kinv k' \<and>
    (if wait_all \<and> (\<forall>ob \<in> set obs. \<not> ShouldWait ob t k)
     then r = ResultSuccess \<and> out = None \<and> acquired k (set obs) t k'
     else if \<not> wait_all \<and> (\<exists>ob \<in> set obs. \<not> ShouldWait ob t k)
     then r = ResultSuccess \<and> (\<exists>i < length obs. out = Some (int i) \<and> acquired k {obs ! i} t k' \<and>
            \<not> ShouldWait (obs ! i) t k \<and> (\<forall>j < i. ShouldWait (obs ! j) t k))
     else r = ResultTimeout \<and>
       (if ns = 0 then out = None \<and> k' = k
        else out = Some (- 1) \<and> sleeps (if wait_all then WaitSynchAll else WaitSynchAny) obs (\<not> wait_all) ns t k k'))"
proof -
  have k: "sched_inv k" "mutex_inv k" using inv by (simp_all add: kinv_def)
  have n: "\<not> n < 0" using obs(1) by simp
  note d = WaitSynchronizationN_def Let_def s n obs(2)
  consider "wait_all" "\<forall>ob \<in> set obs. \<not> ShouldWait ob t k" | "\<not> wait_all" "\<exists>ob \<in> set obs. \<not> ShouldWait ob t k"
    | "wait_all" "\<not> (\<forall>ob \<in> set obs. \<not> ShouldWait ob t k)" | "\<not> wait_all" "\<not> (\<exists>ob \<in> set obs. \<not> ShouldWait ob t k)" by blast
  then show ?thesis
  proof cases
    case 1
    obtain k' where "acquire_all obs t k = Some k'" "acquired k (set obs) t k'"
      using acquire_all_spec [OF k t(1) 1(2)] obs(3) 1(1) bound by auto
    then show ?thesis using 1 acquired_kinv [OF inv] obs(1) by (intro exI [of _ ResultSuccess] exI [of _ None] exI [of _ k']) (simp add: d)
  next
    case 2
    then have "\<exists>i. i \<in> set [0..<length obs] \<and> \<not> ShouldWait (obs ! i) t k" by (auto simp: in_set_conv_nth)
    then obtain i where i: "find_ready t k obs = Some i"
      unfolding find_ready_def by (metis (no_types, lifting) find_None_iff not_None_eq)
    then have i': "i < length obs" "\<not> ShouldWait (obs ! i) t k" "\<forall>j < i. ShouldWait (obs ! j) t k"
      by (auto simp: find_ready_def find_Some_iff)
    obtain k' where "Acquire (obs ! i) t k = Some k'" "acquired k {obs ! i} t k'"
      using Acquire_spec [OF k t(1) i'(2)] bound by auto
    then show ?thesis using 2 i i' acquired_kinv [OF inv] obs(1)
      by (intro exI [of _ ResultSuccess] exI [of _ "Some (int i)"] exI [of _ k']) (auto simp: d)
  next
    case 3
    obtain k' where "suspend WaitSynchAll obs False ns t k = Some k'" "kinv k'" "sleeps WaitSynchAll obs False ns t k k'"
      using suspend_spec [OF inv t, of WaitSynchAll obs False ns] obs(3) 3(1) by auto
    then show ?thesis using 3 inv obs(1) s(1)
      by (intro exI [of _ ResultTimeout] exI [of _ "if ns = 0 then None else Some (- 1)"] exI [of _ "if ns = 0 then k else k'"])
        (auto simp: d)
  next
    case 4
    then have "find_ready t k obs = None" by (auto simp: find_ready_def find_None_iff)
    moreover obtain k' where "suspend WaitSynchAny obs True ns t k = Some k'" "kinv k'" "sleeps WaitSynchAny obs True ns t k k'"
      using suspend_spec [OF inv t, of WaitSynchAny obs True ns] by auto
    ultimately show ?thesis using 4 inv obs(1) s(1)
      by (intro exI [of _ ResultTimeout] exI [of _ "if ns = 0 then None else Some (- 1)"] exI [of _ "if ns = 0 then k else k'"])
        (auto simp: d)
  qed
qed

section \<open>The end of a wait\<close>

lemma run_callback_timeout:
  assumes "wakeup_callback (threads k t) = Some (SyncCallback b)"
  shows "\<exists>k'. run_callback WR_Timeout t None k = Some k' \<and> only_ctx t k k' \<and> ctx (threads k' t) 0 = ResultTimeout"
  by (rule exI [of _ "SetWaitSynchronizationResult ResultTimeout t k"])
    (use assms in \<open>auto simp: run_callback_def SetWaitSynchronizationResult_def upd_thread_def intro!: only_ctxI\<close>)

text \<open>
  Property (C9): a wait that times out. When the wake-up event of a thread fires that sleeps in \<^verbatim>\<open>WaitSynchronization\<close>, the thread
  is ready afterwards with the result \<^verbatim>\<open>ResultTimeout\<close>, on no waiting list and without a callback, all other
  threads wait as before, and the kernel stays well formed.
\<close>

theorem wait_timeout:
  assumes inv: "kinv k" and tab: "wakeup_callback_table k c tid = Some t" and t: "registered k t"
    and st: "status (threads k t) \<in> {WaitSynchAny, WaitSynchAll}" and cb: "wakeup_callback (threads k t) = Some (SyncCallback b)"
  shows "\<exists>k'. ThreadWakeupCallback c tid k = Some k' \<and> kinv k' \<and> status (threads k' t) = Ready \<and>
    wait_objects (threads k' t) = [] \<and> wakeup_callback (threads k' t) = None \<and> ctx (threads k' t) 0 = ResultTimeout \<and>
    waiting_threads k' = (\<lambda>ob. removeAll t (waiting_threads k ob)) \<and>
    (\<forall>u. u \<noteq> t \<longrightarrow> status (threads k' u) = status (threads k u) \<and> wait_objects (threads k' u) = wait_objects (threads k u) \<and>
       ctx (threads k' u) = ctx (threads k u))"
proof -
  have k: "sched_inv k" "mutex_inv k" "wait_inv k" using inv by (simp_all add: kinv_def)
  obtain k1 where k1: "run_callback WR_Timeout t None k = Some k1" "only_ctx t k k1" "ctx (threads k1 t) 0 = ResultTimeout"
    using run_callback_timeout [OF cb] by blast
  note oc = only_ctx_inv [OF k1(2)]
  have sw: "same_waits k k1" by (rule oc(1))
  have i1: "sched_inv k1" "mutex_inv k1" "wait_inv k1" using oc(2,3) k same_waits_inv [OF sw] by simp_all
  define k2 where "k2 = clear_wait_objects t k1"
  note c = clear_wait_objects_spec [OF i1, where t = t, folded k2_def]
  have st2: "status (threads k2 t) = status (threads k t)" using c(6) [of t] sw by (simp add: same_waits_def)
  have r2: "registered k2 t" using t c(6) [of t] c(8) sw by (simp add: registered_def same_waits_def)
  define k3 where "k3 = PrepareReschedule (upd_thread t (\<lambda>x. x\<lparr>wakeup_callback := None, status := Ready\<rparr>)
                 (upd_queue (core_id (threads k2 t)) (push_back (current_priority (threads k2 t)) t) k2))"
  have r: "ResumeFromWait t k2 = Some k3" "sched_inv k3"
    using ResumeFromWait_spec [OF c(1) r2 c(3)] st st2 by (auto simp: k3_def)
  have fr: "threads k3 = (threads k2)(t := (threads k2 t)\<lparr>wakeup_callback := None, status := Ready\<rparr>)"
    "waiting_threads k3 = waiting_threads k2" "mutexes k3 = mutexes k2" "kind k3 = kind k2" "thread_list k3 = thread_list k2"
    by (simp_all add: k3_def PrepareReschedule_def)
  have reg: "registered k3 u = registered k u" for u
    using c(6) [of u] c(8) sw by (cases "u = t") (simp_all add: registered_def fr same_waits_def)
  have w3: "waiting_threads k3 = (\<lambda>ob. removeAll t (waiting_threads k ob))" using c(4) sw by (simp add: fr same_waits_def)
  have same: "status (threads k3 u) = status (threads k u)" "wait_objects (threads k3 u) = wait_objects (threads k u)"
      "wakeup_callback (threads k3 u) = wakeup_callback (threads k u)" "ctx (threads k3 u) = ctx (threads k u)" if "u \<noteq> t" for u
    using that c(5,6) [of u] oc(5) [of u] by (simp_all add: fr)
  have "wait_inv k3"
    unfolding wait_inv_def reg
  proof (intro conjI allI ballI impI)
    fix x u
    show "distinct (waiting_threads k3 x)" using wait_invD(1) [OF k(3)] by (simp add: w3 distinct_removeAll)
    show "x \<in> set (wait_objects (threads k3 u)) \<longleftrightarrow> u \<in> set (waiting_threads k3 x)"
      using wait_invD(5) [OF k(3), of x u] same(2) [of u] c(3) by (cases "u = t") (simp_all add: w3 fr)
    show "distinct (wait_objects (threads k3 u))" if "status (threads k3 u) = WaitSynchAll"
      using that wait_invD(6) [OF k(3), of u] same(1,2) [of u] by (cases "u = t") (auto simp: fr)
    assume "u \<in> set (waiting_threads k3 x)"
    then have "u \<noteq> t" "u \<in> set (waiting_threads k x)" by (auto simp: w3)
    then show "registered k u" "status (threads k3 u) \<in> {WaitSynchAny, WaitSynchAll, WaitHleEvent}"
      "wakeup_callback (threads k3 u) \<noteq> Some (ArbiterCallback a)"
      "wakeup_callback (threads k3 u) = Some IpcCallback \<Longrightarrow> status (threads k3 u) = WaitSynchAny" for a
      using wait_invD(2-4,7) [OF k(3), of u x] same [of u] by auto
  qed
  moreover have "mutex_inv k3" using c(2) by (simp add: mutex_inv_def registered_def fr)
  ultimately have "kinv k3" using r(2) by (simp add: kinv_def)
  moreover have "ThreadWakeupCallback c tid k = Some k3"
    using tab st k1(1) r(1) by (auto simp: ThreadWakeupCallback_def k2_def)
  moreover have "ctx (threads k3 t) 0 = ResultTimeout" using c(6) [of t] k1(3) by (simp add: fr)
  ultimately show ?thesis using same w3 c(3) by (intro exI [of _ k3]) (simp add: fr)
qed

lemma WaitSynchronization1_asleep:
  assumes ob: "Get_WaitObject s handle = Some ob" and k: "svc_kernel s = k" "cur_thread s = t"
    and w: "ShouldWait ob t k" "ns \<noteq> 0" "status (threads k t) \<noteq> Ready"
  shows "WaitSynchronization1 handle ns s = Some (ResultTimeout, None,
    on_kernel (PrepareReschedule ((asleep WaitSynchAny [ob] False t k)\<lparr>ktiming := wait_timing ns t k\<rparr>)) s)"
proof -
  let ?k = "AddWaitingThread ob t k"
  have "wait_update t (\<lambda>x. x\<lparr>wait_objects := [ob]\<rparr>) k" by (auto simp: wait_update_def)
  note c = AddWaitingThread_commute [OF this, of ob]
  have "core_id (threads ?k t) = core_id (threads k t) \<and> thread_id (threads ?k t) = thread_id (threads k t) \<and> ktiming ?k = ktiming k"
    by (auto simp: AddWaitingThread_def Let_def only_prioD(4,10) [OF Mutex_UpdatePriority_only] Mutex_UpdatePriority_def
        Thread_UpdatePriority_def BoostPriority_def upd_thread_def upd_queue_def upd_mutex_def upd_waiting_def split: option.split)
  moreover have "upd_thread t (\<lambda>x. x\<lparr>wait_objects := [ob], status := WaitSynchAny, wakeup_callback := Some (SyncCallback False)\<rparr>) ?k =
      upd_thread t (\<lambda>x. x\<lparr>status := WaitSynchAny, wait_objects := [ob], wakeup_callback := Some (SyncCallback False)\<rparr>) ?k"
    by (cases "threads ?k t") (simp add: upd_thread_def)
  ultimately show ?thesis
    using assms by (simp add: WaitSynchronization1_def Let_def c WakeAfterDelay_default asleep_with_def wait_timing_def
        upd_thread_ktiming upd_thread_twice)
qed

text \<open>An event that is not of the type \<^verbatim>\<open>OneShot\<close> stays signalled while threads are woken.\<close>

definition lasting :: "nat \<Rightarrow> kernel \<Rightarrow> kernel \<Rightarrow> bool" where
  "lasting e k k' \<longleftrightarrow> kind k' = kind k \<and> events k' e = events k e"

lemma Acquire_lasting:
  assumes "kind k e = KEvent" "ev_reset_type (events k e) \<noteq> OneShot" "Acquire ob t k = Some k'"
  shows "lasting e k k'"
  using assms
  by (cases "ob = e") (auto simp: lasting_def Acquire_def Mutex_Acquire_def Let_def PrepareReschedule_def Thread_UpdatePriority_def BoostPriority_def
      upd_event_def upd_timer_def upd_semaphore_def upd_mutex_def upd_thread_def upd_queue_def upd_session_def
      ServerSession_Acquire_def split: object_kind.splits if_splits)

lemma acquire_all_lasting:
  "kind k e = KEvent \<Longrightarrow> ev_reset_type (events k e) \<noteq> OneShot \<Longrightarrow> acquire_all obs t k = Some k' \<Longrightarrow> lasting e k k'"
proof (induction obs arbitrary: k)
  case (Cons ob obs)
  then obtain k1 where k1: "Acquire ob t k = Some k1" "acquire_all obs t k1 = Some k'" by (auto split: Option.bind_splits)
  then have "lasting e k k1" using Acquire_lasting Cons.prems by blast
  then show ?case using Cons.IH [of k1] Cons.prems k1(2) by (simp add: lasting_def)
qed (simp add: lasting_def)

lemma RemoveWaitingThread_lasting: "lasting e k (RemoveWaitingThread ob t k)"
  by (auto simp: lasting_def RemoveWaitingThread_def Let_def only_prioD(13,17) [OF Mutex_UpdatePriority_only])

lemma fold_lasting: "(\<And>x k. lasting e k (f x k)) \<Longrightarrow> lasting e k (fold f xs k)"
  by (induction xs arbitrary: k) (auto simp: lasting_def)

lemma wake_one_lasting:
  assumes e: "kind k e = KEvent" "ev_reset_type (events k e) \<noteq> OneShot" and w: "wake_one ob t k = Some k'"
  shows "lasting e k k'"
proof -
  obtain k1 k2 where k1: "(if \<not> IsSleepingOnWaitAll t k then Acquire ob t k else acquire_all (wait_objects (threads k t)) t k) = Some k1"
    and k2: "run_callback WR_Signal t (Some ob) k1 = Some k2" and k': "ResumeFromWait t (clear_wait_objects t k2) = Some k'"
    using w by (auto simp: wake_one_def split: Option.bind_splits)
  have "lasting e k k1" using k1 Acquire_lasting [OF e] acquire_all_lasting [OF e] by (auto split: if_splits)
  moreover have "lasting e k1 k2"
    using k2 by (cases "wakeup_callback (threads k1 t)") (auto simp: run_callback_def lasting_def SetWaitSynchronizationResult_def
        SetWaitSynchronizationOutput_def Let_def ipc_wakeup_def ReceiveIPCRequest_def elim!: WakeUp.elims
        split: if_splits Option.bind_splits option.splits)
  moreover have "lasting e k2 (clear_wait_objects t k2)"
    using fold_lasting [of e "\<lambda>ob. RemoveWaitingThread ob t", OF RemoveWaitingThread_lasting, of k2 "wait_objects (threads k2 t)"]
    by (simp add: clear_wait_objects_def lasting_def)
  moreover have "lasting e (clear_wait_objects t k2) k'"
    using k' by (auto simp: ResumeFromWait_def Let_def lasting_def PrepareReschedule_def split: ThreadStatus.splits if_splits)
  ultimately show ?thesis by (simp add: lasting_def)
qed

lemma wakeup_loop_lasting:
  assumes "wakeup_loop ob k = Some k'" "kind k e = KEvent" "ev_reset_type (events k e) \<noteq> OneShot"
  shows "lasting e k k'"
proof -
  have "kind k e = KEvent \<and> ev_reset_type (events k e) \<noteq> OneShot \<longrightarrow> lasting e k k'"
  proof (rule wakeup_loop.raw_induct [OF _ assms(1)])
    fix loop ob k k'
    assume IH: "\<And>ob k k'. loop ob k = Some k' \<Longrightarrow> kind k e = KEvent \<and> ev_reset_type (events k e) \<noteq> OneShot \<longrightarrow> lasting e k k'"
      and body: "(do { nx \<leftarrow> GetHighestPriorityReadyThread ob k;
          case nx of None \<Rightarrow> Some k | Some t \<Rightarrow> do { k1 \<leftarrow> wake_one ob t k; loop ob k1 } }) = Some k'"
    show "kind k e = KEvent \<and> ev_reset_type (events k e) \<noteq> OneShot \<longrightarrow> lasting e k k'"
    proof
      assume a: "kind k e = KEvent \<and> ev_reset_type (events k e) \<noteq> OneShot"
      then show "lasting e k k'"
        using body wake_one_lasting [of k e ob] IH [of ob _ k']
        by (auto simp: lasting_def split: Option.bind_splits option.splits)
    qed
  qed
  then show ?thesis using assms(2,3) by blast
qed

text \<open>
  Property (C8): waiting and signalling compose. A running thread that waits for a sticky event that is not signalled falls
  asleep; when the event is signalled afterwards through the same handle, the thread is ready with the result
  \<^verbatim>\<open>ResultSuccess\<close>, whatever else waits for the event. No assertion fails on the way.
\<close>

theorem wait_then_signal:
  assumes inv: "kinv (svc_kernel s)" and t: "cur_thread s = t" "registered (svc_kernel s) t"
      "status (threads (svc_kernel s) t) = Running" "wait_objects (threads (svc_kernel s) t) = []"
    and e: "Get_kind KEvent s handle = Some e" "\<not> ev_signaled (events (svc_kernel s) e)" "ev_reset_type (events (svc_kernel s) e) = Sticky"
    and ns: "ns \<noteq> 0" and bound: "\<forall>m. lock_count (mutexes (svc_kernel s) m) + int (length (waiting_threads (svc_kernel s) e)) + 1 < 2 ^ 31"
  shows "\<exists>s1 s2. WaitSynchronization1 handle ns s = Some (ResultTimeout, None, s1) \<and>
    status (threads (svc_kernel s1) t) = WaitSynchAny \<and>
    SignalEvent handle s1 = Some (ResultSuccess, None, s2) \<and> kinv (svc_kernel s2) \<and>
    status (threads (svc_kernel s2) t) = Ready \<and> ctx (threads (svc_kernel s2) t) 0 = ResultSuccess"
proof -
  define k where "k = svc_kernel s"
  have ge: "Get_WaitObject s handle = Some e" "kind k e = KEvent"
    using e(1) by (auto simp: Get_kind_def k_def split: option.splits if_splits)
  have nr: "status (threads k t) \<noteq> Ready" using t(3) by (simp add: k_def)
  define k1 where "k1 = PrepareReschedule ((asleep WaitSynchAny [e] False t k)\<lparr>ktiming := wait_timing ns t k\<rparr>)"
  define s1 where "s1 = on_kernel k1 s"
  have w: "WaitSynchronization1 handle ns s = Some (ResultTimeout, None, s1)"
    unfolding s1_def k1_def
    by (rule WaitSynchronization1_asleep [OF ge(1) k_def [symmetric] t(1) _ ns nr]) (use ge(2) e(2) in \<open>simp add: ShouldWait_def k_def\<close>)
  have kinv: "kinv k" "registered k t" "wait_objects (threads k t) = []" using inv t by (simp_all add: k_def)
  note a = asleep_inv [OF kinv(1,2) nr kinv(3), of WaitSynchAny "[e]", where b = False]
  have "kinv (asleep WaitSynchAny [e] False t k)" by (rule a(1)) simp
  then have i1: "kinv k1" by (rule kinv_cong) (simp_all add: k1_def PrepareReschedule_def)
  have f1: "kind k1 = kind k" "current_thread k1 = current_thread k" "events k1 = events k" "mutexes k1 = mutexes k"
      "waiting_threads k1 e = waiting_threads k e @ [t]" "status (threads k1 t) = WaitSynchAny"
      "wakeup_callback (threads k1 t) = Some (SyncCallback False)"
    using a(2) ge(2) by (simp_all add: k1_def PrepareReschedule_def asleep_with_def AddWaitingThread_def)
  define k2 where "k2 = upd_event e (\<lambda>x. x\<lparr>ev_signaled := True\<rparr>) k1"
  have i2: "kinv k2" by (rule kinv_cong [OF i1]) (simp_all add: k2_def upd_event_def)
  obtain ts k0 k3 where k3: "WakeupAllWaitingThreads e k2 = Some k3" "kinv k3" "all_woken ts k2 k3"
      "\<forall>u \<in> set (waiting_threads k3 e). \<not> can_wake e k3 u"
    using WakeupAll_effect [OF i2, of e] bound by (auto simp: k2_def f1 k_def algebra_simps upd_event_def)
  have "t \<in> set ts"
  proof (rule ccontr)
    assume n: "t \<notin> set ts"
    then have "t \<in> set (waiting_threads k3 e)" "status (threads k3 t) = WaitSynchAny"
      using k3(3) f1(5,6) by (simp_all add: all_woken_def k2_def upd_event_def)
    moreover have "\<not> ShouldWait e t k3"
    proof -
      obtain k0 where "wakeup_loop e k2 = Some k0" using k3(1) by (auto simp: WakeupAllWaitingThreads_def split: Option.bind_splits)
      then have "lasting e k2 k0" by (rule wakeup_loop_lasting) (use e(3) ge(2) f1 in \<open>simp_all add: k2_def upd_event_def k_def\<close>)
      then have "lasting e k2 k3" using k3(1) e(3) f1 ge(2) \<open>wakeup_loop e k2 = Some k0\<close>
        by (auto simp: WakeupAllWaitingThreads_def lasting_def k2_def k_def upd_event_def Let_def split: if_splits)
      then show ?thesis using ge(2) f1 by (simp add: ShouldWait_def lasting_def k2_def upd_event_def)
    qed
    ultimately show False using k3(4) by (auto simp: can_wake_def)
  qed
  then have "status (threads k3 t) = Ready" "ctx (threads k3 t) 0 = ResultSuccess"
    using k3(3) f1(7) by (auto simp: all_woken_def k2_def upd_event_def)
  moreover have "Get_kind KEvent s1 handle = Some e"
    using e(1) f1(1,2) by (simp add: Get_kind_def Get_WaitObject_def svc_Get_def s1_def k_def cong: option.case_cong)
  then have "SignalEvent handle s1 = Some (ResultSuccess, None, on_kernel k3 s1)"
    using k3(1) by (simp add: SignalEvent_def Event_Signal_def k2_def [symmetric] s1_def)
  ultimately show ?thesis using w k3(2) f1(6) by (intro exI [of _ s1] exI [of _ "on_kernel k3 s1"]) (simp add: s1_def)
qed

text \<open>
  Property: waiting for all of a list that names the same one-shot event twice, when the event is signalled: the objects
  are acquired one after the other, the first acquisition clears the event, and the second one fails the
  assertion that the object is available. The list of handles comes from the emulated program.
\<close>

theorem wait_all_twice_fails:
  assumes "cur_thread s = t" "svc_kernel s = k" "Get_WaitObject s (read 0) = Some e" "Get_WaitObject s (read 1) = Some e"
    and "kind k e = KEvent" "ev_signaled (events k e)" "ev_reset_type (events k e) = OneShot"
  shows "WaitSynchronizationN True read 2 True ns s = None"
proof -
  have n: "[0..<2] = [0, Suc 0]" by (simp add: upt_rec)
  show ?thesis
    using assms by (simp add: WaitSynchronizationN_def Let_def n ShouldWait_def Acquire_def upd_event_def)
qed

text \<open>
  Property: creating a semaphore with an initial count above the maximum is refused, and no semaphore
  is created; but the unit reserved on the resource limit for it is not given back.
\<close>

theorem CreateSemaphore_leaks_reservation:
  assumes "rl_inv (resource_limits (svc_kernel s) (svc_category s))" "maximum < initial"
  shows "\<exists>s1. svc_CreateSemaphore sem initial maximum s = Some (ResultInvalidCombinationKernel, None, s1) \<and>
    svc_handles s1 = svc_handles s \<and> kind (svc_kernel s1) = kind (svc_kernel s) \<and>
    m_current_values (resource_limits (svc_kernel s1) (svc_category s)) ! 5 =
      s32 (m_current_values (resource_limits (svc_kernel s) (svc_category s)) ! 5 + 1)"
proof -
  let ?rl = "resource_limits (svc_kernel s) (svc_category s)"
  have l: "5 < length (m_current_values ?rl)" using assms(1) by (simp add: rl_inv_def RL_Max_def)
  have e: "IsError ResultInvalidCombinationKernel" by (simp add: ResultInvalidCombinationKernel_def MakeResult_def IsError_Make)
  show ?thesis using assms(2) l e
    by (simp add: svc_CreateSemaphore_def reserve_one_def Reserve_def Let_def CreateSemaphore_def RL_Max_def)
qed

section \<open>An example\<close>

text \<open>
  Thread 1 of the three sample threads runs on core 0; the handle table of its process has one handle, to a sticky event.
\<close>

lemma run_inv:
  assumes inv: "kinv k" and t: "t \<in> set (thread_list k c)" "status (threads k t) = Dormant" "current_thread k c = None"
  shows "kinv ((upd_thread t (\<lambda>x. x\<lparr>status := Running\<rparr>) k)\<lparr>current_thread := (current_thread k)(c \<mapsto> t)\<rparr>)" (is "kinv ?k")
proof -
  have k: "sched_inv k" "wait_inv k" "mutex_inv k" using inv by (simp_all add: kinv_def)
  have c: "core_id (threads k t) = c" using core_invD(3) [OF sched_invD [OF k(1)] t(1)] .
  have nowhere: "t \<notin> set (waiting_threads k x)" for x using wait_invD(3) [OF k(2), of t x] t(2) by auto
  have "core_inv ?k d" for d
  proof (rule core_inv_change [OF sched_invD [OF k(1)], where t = t])
    note I = core_invD [OF sched_invD [OF k(1), of d]]
    show "tq_inv (ready_queue ?k d)" "length (queues (ready_queue ?k d)) = 64" "distinct (level (ready_queue ?k d) p)" for p
      using I(1,2,8) by simp_all
    show "t \<in> set (thread_list k d) \<Longrightarrow> prepared (ready_queue ?k d) (current_priority (threads ?k t))" using I(4) by simp
    show "t \<in> set (level (ready_queue ?k d) p) \<longleftrightarrow> t \<in> set (thread_list k d) \<and>
        status (threads ?k t) = Ready \<and> None \<noteq> Some t \<and> p = current_priority (threads ?k t)" for p
      using I(6) [of t p] t(2) by auto
    show "current_thread ?k d = Some u" if "u \<in> set (thread_list k d)" "status (threads ?k u) = Running" for u
      using that I(3,9) [of u] t(3) c by (cases "u = t") auto
    show "core_id (threads k u) = d" if "current_thread ?k d = Some u" for u
      using that I(11) [of u] c by (auto split: if_splits)
    show "u \<in> set (thread_list k d)" if "current_thread ?k d = Some u" "status (threads ?k u) = Running" for u
      using that I(10,11) [of u] t c by (auto split: if_splits)
  qed simp_all
  then have "sched_inv ?k" by (simp add: sched_inv_def)
  moreover have "wait_inv ?k"
    using k(2) nowhere t(2) unfolding wait_inv_def registered_def by (auto split: if_splits)
  moreover have "mutex_inv ?k" using k(3) by (simp add: mutex_inv_def registered_def)
  ultimately show ?thesis by (simp add: kinv_def)
qed

definition event_kernel :: kernel where
  "event_kernel = (let k = CreateEvent 10 Sticky three_threads in
     (upd_thread 1 (\<lambda>x. x\<lparr>status := Running\<rparr>) k)\<lparr>current_thread := (current_thread k)(0 \<mapsto> 1)\<rparr>)"

definition sample_svc :: svc where
  "sample_svc = \<lparr>svc_kernel = event_kernel, svc_handles = left_behind HandleTable (Create HandleTable (KO_Wait 10)),
     svc_core = 0, svc_process = 7, svc_category = Application, no_thread_restrictions = False, ideal_processor = 0\<rparr>"

lemma event_kernel_inv: "kinv event_kernel"
proof -
  have "kinv (CreateEvent 10 Sticky three_threads)"
    by (rule fresh_object_inv [OF three_threads_inv, where ob = 10 and K = KEvent])
      (simp_all add: CreateEvent_def upd_event_def three_threads_data fun_eq_iff)
  then show ?thesis
    unfolding event_kernel_def Let_def by (rule run_inv) (simp_all add: CreateEvent_def upd_event_def three_threads_data)
qed

lemma event_kernel_data:
  "thread_list event_kernel = thread_list three_threads" "current_thread event_kernel 0 = Some 1" "kind event_kernel 10 = KEvent"
  "events event_kernel 10 = \<lparr>ev_reset_type = Sticky, ev_signaled = False\<rparr>" "waiting_threads event_kernel = (\<lambda>_. [])"
  "mutexes event_kernel = mutexes (fresh_kernel 2)" "status (threads event_kernel 1) = Running"
  "wait_objects (threads event_kernel 1) = []" "core_id (threads event_kernel 1) = 0"
  by (simp_all add: event_kernel_def Let_def CreateEvent_def upd_event_def three_threads_data [unfolded One_nat_def] fun_eq_iff)

lemma sample_svc_handle: "svc_Get sample_svc 1 = Some (KO_Wait 10)"
proof -
  have "next_free_slot (HandleTable :: kobject handle_table) = 0" "next_generation (HandleTable :: kobject handle_table) = 1"
    by (simp_all add: HandleTable_def Clear_def)
  then show ?thesis
    by (simp add: sample_svc_def svc_Get_def GetGeneric_def CurrentThread_def CurrentProcess_def HandleTable_def Clear_def
        Create_def Let_def IsValid_def GetSlot_def GetGeneration_def MAX_COUNT_def)
qed

lemma sample_svc_data:
  "svc_kernel sample_svc = event_kernel" "cur_thread sample_svc = 1" "Get_WaitObject sample_svc 1 = Some 10"
  "Get_kind KEvent sample_svc 1 = Some 10" "registered event_kernel 1" "lock_count (mutexes event_kernel m) = 0"
proof -
  show "svc_kernel sample_svc = event_kernel" "cur_thread sample_svc = 1"
    by (simp_all add: sample_svc_def cur_thread_def event_kernel_data)
  show g: "Get_WaitObject sample_svc 1 = Some 10" by (simp add: Get_WaitObject_def sample_svc_handle)
  show "Get_kind KEvent sample_svc 1 = Some 10" by (simp add: Get_kind_def g) (simp add: sample_svc_def event_kernel_data)
  show "registered event_kernel 1" by (simp add: registered_def event_kernel_data [unfolded One_nat_def] three_threads_data)
  show "lock_count (mutexes event_kernel m) = 0" by (simp add: event_kernel_data) (simp add: fresh_kernel_def)
qed

theorem WaitSynchronizationN_spec_witness:
  "\<exists>k'. WaitSynchronizationN True (\<lambda>_. 1) 1 False 1000 sample_svc = Some (ResultTimeout, Some (- 1), on_kernel k' sample_svc) \<and>
     kinv k' \<and> waiting_threads k' 10 = [1] \<and> status (threads k' 1) = WaitSynchAny"
proof -
  have o: "get_objects sample_svc (map (\<lambda>_. 1) [0..<nat 1]) = Some [10]" by (simp add: sample_svc_data)
  have w: "ShouldWait 10 1 event_kernel" by (simp add: ShouldWait_def event_kernel_data)
  have b: "\<forall>m. lock_count (mutexes event_kernel m) + 1 < 2 ^ 31" by (simp add: sample_svc_data(6))
  from WaitSynchronizationN_spec [OF event_kernel_inv sample_svc_data(1,2,5) event_kernel_data(7,8) _ o _ b, of False 1000] w
  show ?thesis by (auto simp: sample_svc_data sleeps_def event_kernel_data(5) simp del: One_nat_def)
qed

theorem wait_then_signal_witness:
  "\<exists>s1 s2. WaitSynchronization1 1 1000 sample_svc = Some (ResultTimeout, None, s1) \<and> SignalEvent 1 s1 = Some (ResultSuccess, None, s2) \<and>
     status (threads (svc_kernel s2) 1) = Ready"
proof -
  have "lock_count (mutexes event_kernel m) + int (length (waiting_threads event_kernel 10)) + 1 < 2 ^ 31" for m
    by (simp add: sample_svc_data(6) event_kernel_data(5))
  then show ?thesis
    using wait_then_signal [of sample_svc 1 1 10 1000] event_kernel_inv event_kernel_data sample_svc_data(1-5)
    by (auto simp del: One_nat_def)
qed

theorem wait_timeout_witness:
  "\<exists>k'. ThreadWakeupCallback 0 9 (sem_kernel\<lparr>wakeup_callback_table := \<lambda>c i. if c = 0 \<and> i = 9 then Some 2 else None\<rparr>) = Some k' \<and>
     status (threads k' 2) = Ready \<and> ctx (threads k' 2) 0 = ResultTimeout"
proof -
  let ?k = "sem_kernel\<lparr>wakeup_callback_table := \<lambda>c i. if c = 0 \<and> i = 9 then Some 2 else None\<rparr>"
  have i: "kinv ?k" by (rule kinv_cong [OF sem_kernel_inv]) simp_all
  have "2 \<in> set (waiting_threads sem_kernel 10)" by (simp add: sem_kernel_data)
  then have r: "registered ?k 2"
    using wait_invD(2) [of sem_kernel 2 10] sem_kernel_inv by (simp add: kinv_def registered_def)
  have "wakeup_callback (threads ?k 2) = Some (SyncCallback False)" by (simp add: sem_kernel_def asleep_single sem_kernel_step)
  from wait_timeout [OF i _ r _ this, of 0 9] show ?thesis by (auto simp: sem_kernel_data)
qed

theorem wait_all_twice_fails_witness:
  "WaitSynchronizationN True (\<lambda>_. 1) 2 True 0
     (sample_svc\<lparr>svc_kernel := upd_event 10 (\<lambda>_. \<lparr>ev_reset_type = OneShot, ev_signaled = True\<rparr>) event_kernel\<rparr>) = None"
  (is "WaitSynchronizationN True _ 2 True 0 ?s = None")
proof -
  have "svc_Get ?s 1 = Some (KO_Wait 10)"
    using sample_svc_handle by (simp add: svc_Get_def sample_svc_data upd_event_def)
  then have "Get_WaitObject ?s 1 = Some 10" by (simp add: Get_WaitObject_def)
  then show ?thesis
    by (intro wait_all_twice_fails [where s = ?s and t = 1 and e = 10, OF _ refl])
      (simp_all add: cur_thread_def event_kernel_data sample_svc_def upd_event_def)
qed

theorem CreateSemaphore_leaks_reservation_witness:
  "\<exists>s1. svc_CreateSemaphore 11 6 5 (sample_svc\<lparr>svc_kernel := event_kernel\<lparr>resource_limits := ResourceLimitList False 0x4000000\<rparr>\<rparr>) =
      Some (ResultInvalidCombinationKernel, None, s1) \<and>
    m_current_values (resource_limits (svc_kernel s1) Application) ! 5 = 1"
  (is "\<exists>s1. svc_CreateSemaphore 11 6 5 ?s = _ \<and> _")
proof -
  have "m_current_values (ResourceLimitList False 0x4000000 Application) ! 5 = 0"
    by (simp add: ResourceLimitList_def fresh_limit_def ResourceLimit_Create_def RL_Max_def)
  then show ?thesis
    using fresh_limits_inv [of False "0x4000000" Application] CreateSemaphore_leaks_reservation [of ?s 5 6 11] by (auto simp: sample_svc_def s32_def)
qed

end
