(* ===== verification/Memory_Region.thy ===== *)
theory Memory_Region imports Emu_Prelude begin

text \<open>
  \<^verbatim>\<open>Kernel::MemoryRegionInfo\<close> (\<^verbatim>\<open>src/core/hle/kernel/memory.cpp\<close>): the allocator of a region of FCRAM. The free memory is a
  \<^verbatim>\<open>boost::icl::interval_set\<close>. That library is not part of the repository: its operations are a parameter
  \<open>I\<close> of the definitions, and the locale \<open>interval_set\<close> states what its documentation says of them. The laws are
  consistent: \<open>list_icl\<close> implements them.
\<close>

section \<open>Interval sets\<close>

text \<open>
  Intervals are pairs of a lower and an upper bound, the upper one excluded. \<open>icl_blocks\<close> is the iteration over a
  set, in ascending order.
\<close>

record 's icl =
  icl_empty :: 's
  icl_blocks :: "'s \<Rightarrow> (nat \<times> nat) list"
  icl_add :: "nat \<times> nat \<Rightarrow> 's \<Rightarrow> 's"
  icl_sub :: "nat \<times> nat \<Rightarrow> 's \<Rightarrow> 's"
  icl_plus :: "'s \<Rightarrow> 's \<Rightarrow> 's"
  icl_minus :: "'s \<Rightarrow> 's \<Rightarrow> 's"
  icl_contains :: "'s \<Rightarrow> nat \<times> nat \<Rightarrow> bool"
  icl_intersects :: "'s \<Rightarrow> nat \<times> nat \<Rightarrow> bool"

definition span :: "nat \<times> nat \<Rightarrow> nat set" where
  "span i = {fst i..<snd i}"

definition points :: "(nat \<times> nat) list \<Rightarrow> nat set" where
  "points bs = (\<Union>i \<in> set bs. span i)"

text \<open>Nonempty, ascending, and with a gap between neighbours: touching intervals are joined.\<close>

definition canonical :: "(nat \<times> nat) list \<Rightarrow> bool" where
  "canonical bs \<longleftrightarrow> sorted_wrt (\<lambda>i j. snd i < fst j) bs \<and> (\<forall>i \<in> set bs. fst i < snd i)"

lemma span_iff [simp]: "x \<in> span i \<longleftrightarrow> fst i \<le> x \<and> x < snd i"
  by (simp add: span_def)

lemma points_simps [simp]:
  "points [] = {}" "points (i # bs) = span i \<union> points bs" "points (bs @ cs) = points bs \<union> points cs"
  "points (rev bs) = points bs"
  by (auto simp: points_def)

lemma finite_points [simp]: "finite (points bs)" "finite (span i)"
  by (auto simp: points_def span_def)

lemma card_span [simp]: "card (span i) = snd i - fst i"
  by (simp add: span_def)

lemma canonical_Cons:
  "canonical (i # bs) \<longleftrightarrow> fst i < snd i \<and> (\<forall>j \<in> set bs. snd i < fst j) \<and> canonical bs"
  by (auto simp: canonical_def)

lemma canonical_append:
  "canonical (bs @ cs) \<longleftrightarrow> canonical bs \<and> canonical cs \<and> (\<forall>i \<in> set bs. \<forall>j \<in> set cs. snd i < fst j)"
  by (auto simp: canonical_def sorted_wrt_append)

locale interval_set =
  fixes I :: "'s icl"
  assumes blocks_canonical: "canonical (icl_blocks I s)"
    and empty_points: "points (icl_blocks I (icl_empty I)) = {}"
    and add_points: "points (icl_blocks I (icl_add I i s)) = points (icl_blocks I s) \<union> span i"
    and sub_points: "points (icl_blocks I (icl_sub I i s)) = points (icl_blocks I s) - span i"
    and plus_points: "points (icl_blocks I (icl_plus I s s')) = points (icl_blocks I s) \<union> points (icl_blocks I s')"
    and minus_points: "points (icl_blocks I (icl_minus I s s')) = points (icl_blocks I s) - points (icl_blocks I s')"
    and contains_iff: "icl_contains I s i \<longleftrightarrow> span i \<subseteq> points (icl_blocks I s)"
    and intersects_iff: "icl_intersects I s i \<longleftrightarrow> span i \<inter> points (icl_blocks I s) \<noteq> {}"

lemma find_split:
  "find P xs = Some x \<Longrightarrow> \<exists>as bs. xs = as @ x # bs \<and> (\<forall>y \<in> set as. \<not> P y) \<and> P x"
proof (induction xs)
  case (Cons y xs)
  show ?case
  proof (cases "P y")
    case True
    then show ?thesis using Cons.prems by (intro exI [of _ "[]"] exI [of _ xs]) simp
  next
    case False
    then obtain as bs where "xs = as @ x # bs" "\<forall>z \<in> set as. \<not> P z" "P x" using Cons by auto
    then show ?thesis using False by (intro exI [of _ "y # as"] exI [of _ bs]) simp
  qed
qed simp

text \<open>A run of free addresses lies inside one block.\<close>

lemma run_in_block:
  assumes c: "canonical bs" and run: "{a..<a + n} \<subseteq> points bs" "0 < n"
  shows "\<exists>i \<in> set bs. fst i \<le> a \<and> a + n \<le> snd i"
  using c run(1)
proof (induction bs)
  case Nil
  then show ?case using run(2) by auto
next
  case (Cons i bs)
  have gap: "\<forall>x \<in> points bs. snd i < x" using Cons.prems(1) by (auto simp: points_def canonical_Cons)
  have n: "snd i \<notin> points (i # bs)" using gap by auto
  show ?case
  proof (cases "a < snd i")
    case True
    have "a \<in> {a..<a + n}" using run(2) by simp
    then have "a \<in> points (i # bs)" using Cons.prems(2) by blast
    then have "fst i \<le> a" using True gap by auto
    moreover have "a + n \<le> snd i" using Cons.prems(2) n True by (metis atLeastLessThan_iff in_mono less_imp_le not_le)
    ultimately show ?thesis by auto
  next
    case False
    have "{a..<a + n} \<subseteq> points bs" using Cons.prems(2) False by auto
    then show ?thesis using Cons.IH Cons.prems(1) by (auto simp: canonical_Cons)
  qed
qed

section \<open>The allocator\<close>

record 's region =
  rg_base :: nat
  rg_size :: nat
  rg_used :: nat
  free_blocks :: 's
  rg_locked :: bool

text \<open>Every operation returns \<open>None\<close> when its assertion on the lock fails.\<close>

definition region_Reset :: "'s icl \<Rightarrow> nat \<Rightarrow> nat \<Rightarrow> 's region \<Rightarrow> 's region option" where
  "region_Reset I base sz r =
     (if rg_locked r then None
      else Some (r\<lparr>rg_base := base, rg_size := sz, rg_used := 0,
                   free_blocks := icl_add I (base, add32 base sz) (icl_empty I)\<rparr>))"

fun heap_loop :: "'s icl \<Rightarrow> (nat \<times> nat) list \<Rightarrow> 's \<Rightarrow> nat \<Rightarrow> 's \<times> nat" where
  "heap_loop I [] result rest = (result, rest)"
| "heap_loop I ((l, u) # bs) result rest =
     (if u - l \<ge> rest then (icl_add I (u - rest, u) result, 0)
      else heap_loop I bs (icl_add I (l, u) result) (rest - (u - l)))"

definition region_HeapAllocate :: "'s icl \<Rightarrow> nat \<Rightarrow> 's region \<Rightarrow> ('s \<times> 's region) option" where
  "region_HeapAllocate I sz r =
     (if rg_locked r then None
      else let (result, rest) = heap_loop I (rev (icl_blocks I (free_blocks r))) (icl_empty I) sz
           in if rest \<noteq> 0 then Some (icl_empty I, r)
              else Some (result, r\<lparr>free_blocks := icl_minus I (free_blocks r) result, rg_used := add32 (rg_used r) sz\<rparr>))"

definition region_LinearAllocate_at :: "'s icl \<Rightarrow> nat \<Rightarrow> nat \<Rightarrow> 's region \<Rightarrow> (bool \<times> 's region) option" where
  "region_LinearAllocate_at I offset sz r =
     (if rg_locked r then None
      else let interval = (offset, add32 offset sz)
           in if \<not> icl_contains I (free_blocks r) interval then Some (False, r)
              else Some (True, r\<lparr>free_blocks := icl_sub I interval (free_blocks r), rg_used := add32 (rg_used r) sz\<rparr>))"

definition region_LinearAllocate :: "'s icl \<Rightarrow> nat \<Rightarrow> 's region \<Rightarrow> (nat option \<times> 's region) option" where
  "region_LinearAllocate I sz r =
     (if rg_locked r then None
      else case find (\<lambda>i. snd i - fst i \<ge> sz) (icl_blocks I (free_blocks r)) of
             None \<Rightarrow> Some (None, r)
           | Some i \<Rightarrow> Some (Some (fst i), r\<lparr>free_blocks := icl_sub I (fst i, fst i + sz) (free_blocks r),
                                           rg_used := add32 (rg_used r) sz\<rparr>))"

definition region_RLinearAllocate :: "'s icl \<Rightarrow> nat \<Rightarrow> 's region \<Rightarrow> (nat option \<times> 's region) option" where
  "region_RLinearAllocate I sz r =
     (if rg_locked r then None
      else case find (\<lambda>i. snd i - fst i \<ge> sz) (rev (icl_blocks I (free_blocks r))) of
             None \<Rightarrow> Some (None, r)
           | Some i \<Rightarrow> Some (Some (snd i - sz), r\<lparr>free_blocks := icl_sub I (snd i - sz, snd i) (free_blocks r),
                                                   rg_used := add32 (rg_used r) sz\<rparr>))"

definition region_Free :: "'s icl \<Rightarrow> nat \<Rightarrow> nat \<Rightarrow> 's region \<Rightarrow> 's region option" where
  "region_Free I offset sz r =
     (if rg_locked r then Some r
      else let interval = (offset, add32 offset sz)
           in if icl_intersects I (free_blocks r) interval then None
              else Some (r\<lparr>free_blocks := icl_add I interval (free_blocks r), rg_used := sub32 (rg_used r) sz\<rparr>))"

definition region_Unlock :: "'s region \<Rightarrow> 's region" where
  "region_Unlock r = r\<lparr>rg_locked := False\<rparr>"

section \<open>Correctness\<close>

text \<open>The free offsets of a region; all of them lie in the region, and the rest of it is counted as used.\<close>

definition free_points :: "'s icl \<Rightarrow> 's region \<Rightarrow> nat set" where
  "free_points I r = points (icl_blocks I (free_blocks r))"

definition region_inv :: "'s icl \<Rightarrow> 's region \<Rightarrow> bool" where
  "region_inv I r \<longleftrightarrow> rg_base r + rg_size r < 2 ^ 32 \<and>
     free_points I r \<subseteq> {rg_base r..<rg_base r + rg_size r} \<and> rg_used r + card (free_points I r) = rg_size r"

lemma free_points_finite [simp]: "finite (free_points I r)"
  by (simp add: free_points_def)

text \<open>What changes when the free set and the counter change.\<close>

lemma region_inv_take:
  assumes inv: "region_inv I r" and A: "A \<subseteq> free_points I r" "card A = n"
    and r': "free_points I r' = free_points I r - A" "rg_used r' = add32 (rg_used r) n" "rg_base r' = rg_base r" "rg_size r' = rg_size r"
  shows "region_inv I r'" "rg_used r' = rg_used r + n"
proof -
  have le: "n \<le> card (free_points I r)" using A card_mono [OF free_points_finite] by blast
  have u: "add32 (rg_used r) n = rg_used r + n" using inv le by (simp add: region_inv_def add32_small)
  then show "rg_used r' = rg_used r + n" using r' by simp
  have "card (free_points I r') = card (free_points I r) - n"
    using A r'(1) card_Diff_subset [of A "free_points I r"] finite_subset [OF A(1)] by simp
  then show "region_inv I r'" using inv le r' u by (auto simp: region_inv_def)
qed

context interval_set
begin

lemma heap_loop_points:
  assumes "canonical (rev bs)"
  shows "\<exists>A. A \<subseteq> points bs \<and> points (icl_blocks I (fst (heap_loop I bs result rest))) = points (icl_blocks I result) \<union> A \<and>
    card A + snd (heap_loop I bs result rest) = rest \<and> (\<forall>x \<in> A. \<forall>y \<in> points bs - A. y < x) \<and>
    (snd (heap_loop I bs result rest) \<noteq> 0 \<longrightarrow> A = points bs)"
  using assms
proof (induction bs arbitrary: result rest)
  case Nil
  then show ?case by simp
next
  case (Cons i bs)
  obtain l u where i: "i = (l, u)" by fastforce
  have c: "canonical (rev bs)" "l < u" "\<forall>y \<in> points bs. y < l"
    using Cons.prems by (auto simp: i canonical_append canonical_Cons points_def)
  show ?case
  proof (cases "u - l \<ge> rest")
    case True
    let ?A = "{u - rest..<u}"
    have "?A \<subseteq> points (i # bs)" using True by (auto simp: i)
    moreover have "card ?A = rest" using True by simp
    moreover have "y < x" if "x \<in> ?A" "y \<in> points (i # bs) - ?A" for x y
    proof -
      have "y < u - rest" using that c True by (auto simp: i dest: bspec [of _ _ y])
      then show ?thesis using that by auto
    qed
    ultimately show ?thesis using True by (intro exI [of _ ?A]) (auto simp: i add_points span_def)
  next
    case False
    obtain A where A: "A \<subseteq> points bs" "card A + snd (heap_loop I bs (icl_add I (l, u) result) (rest - (u - l))) = rest - (u - l)"
      "points (icl_blocks I (fst (heap_loop I bs (icl_add I (l, u) result) (rest - (u - l))))) = points (icl_blocks I (icl_add I (l, u) result)) \<union> A"
      "\<forall>x \<in> A. \<forall>y \<in> points bs - A. y < x" "snd (heap_loop I bs (icl_add I (l, u) result) (rest - (u - l))) \<noteq> 0 \<longrightarrow> A = points bs"
      using Cons.IH [OF c(1), of "icl_add I (l, u) result" "rest - (u - l)"] by blast
    have fin: "finite A" using A(1) finite_points(1) finite_subset by blast
    have h: "heap_loop I (i # bs) result rest = heap_loop I bs (icl_add I (l, u) result) (rest - (u - l))" using False by (simp add: i)
    show ?thesis unfolding h
    proof (intro exI [of _ "A \<union> span (l, u)"] conjI)
      have "A \<inter> span (l, u) = {}" using A(1) c(3) by fastforce
      then have "card (A \<union> span (l, u)) = card A + (u - l)" using fin by (simp add: card_Un_disjoint)
      then show "card (A \<union> span (l, u)) + snd (heap_loop I bs (icl_add I (l, u) result) (rest - (u - l))) = rest"
        using A(2) False by simp
      show "points (icl_blocks I (fst (heap_loop I bs (icl_add I (l, u) result) (rest - (u - l))))) =
          points (icl_blocks I result) \<union> (A \<union> span (l, u))"
        unfolding A(3) add_points by blast
      show "A \<union> span (l, u) \<subseteq> points (i # bs)" using A(1) by (auto simp: i)
      show "\<forall>x \<in> A \<union> span (l, u). \<forall>y \<in> points (i # bs) - (A \<union> span (l, u)). y < x"
        using A(4) c(3) by (auto simp: i)
      show "snd (heap_loop I bs (icl_add I (l, u) result) (rest - (u - l))) \<noteq> 0 \<longrightarrow> A \<union> span (l, u) = points (i # bs)"
        using A(5) by (simp add: i Un_commute)
    qed
  qed
qed

lemma free_points_upd:
  "free_points I (r\<lparr>free_blocks := icl_minus I (free_blocks r) s, rg_used := u\<rparr>) = free_points I r - points (icl_blocks I s)"
  "free_points I (r\<lparr>free_blocks := icl_sub I i (free_blocks r), rg_used := u\<rparr>) = free_points I r - span i"
  "free_points I (r\<lparr>free_blocks := icl_add I i (free_blocks r), rg_used := u\<rparr>) = free_points I r \<union> span i"
  by (simp_all add: free_points_def minus_points sub_points add_points)

lemma free_canonical: "canonical (icl_blocks I (free_blocks r))" "canonical (rev (rev (icl_blocks I (free_blocks r))))"
  by (simp_all add: blocks_canonical)

lemma heap_allocate:
  assumes inv: "region_inv I r" and unl: "\<not> rg_locked r"
  shows "if sz \<le> card (free_points I r)
    then \<exists>s r'. region_HeapAllocate I sz r = Some (s, r') \<and> region_inv I r' \<and> rg_base r' = rg_base r \<and> rg_size r' = rg_size r \<and>
      \<not> rg_locked r' \<and> rg_used r' = rg_used r + sz \<and> points (icl_blocks I s) \<subseteq> free_points I r \<and>
      card (points (icl_blocks I s)) = sz \<and> free_points I r' = free_points I r - points (icl_blocks I s) \<and>
      (\<forall>x \<in> points (icl_blocks I s). \<forall>y \<in> free_points I r'. y < x)
    else region_HeapAllocate I sz r = Some (icl_empty I, r)"
proof -
  let ?bs = "rev (icl_blocks I (free_blocks r))"
  obtain s rest where h: "heap_loop I ?bs (icl_empty I) sz = (s, rest)" by fastforce
  obtain A where A: "A \<subseteq> points ?bs" "points (icl_blocks I s) = A" "card A + rest = sz" "\<forall>x \<in> A. \<forall>y \<in> points ?bs - A. y < x"
      "rest \<noteq> 0 \<longrightarrow> A = points ?bs"
    using heap_loop_points [OF free_canonical(2), of r "icl_empty I" sz] unfolding h fst_conv snd_conv empty_points Un_empty_left by blast
  have f: "points ?bs = free_points I r" by (simp add: free_points_def)
  have le: "card A \<le> card (free_points I r)" using A(1) f card_mono [OF free_points_finite] by metis
  show ?thesis
  proof (cases "rest = 0")
    case True
    let ?r = "r\<lparr>free_blocks := icl_minus I (free_blocks r) s, rg_used := add32 (rg_used r) sz\<rparr>"
    have "region_inv I ?r" "rg_used ?r = rg_used r + sz"
      by (rule region_inv_take [OF inv, of A sz]; use A f True in \<open>simp add: free_points_upd\<close>)+
    moreover have "region_HeapAllocate I sz r = Some (s, ?r)" using h True unl by (simp add: region_HeapAllocate_def)
    moreover have "free_points I ?r = free_points I r - A" using A(2) by (simp add: free_points_upd)
    moreover have "sz \<le> card (free_points I r)" "card A = sz" using le A(3) True by simp_all
    ultimately have "region_HeapAllocate I sz r = Some (s, ?r) \<and> region_inv I ?r \<and> rg_base ?r = rg_base r \<and> rg_size ?r = rg_size r \<and>
      \<not> rg_locked ?r \<and> rg_used ?r = rg_used r + sz \<and> points (icl_blocks I s) \<subseteq> free_points I r \<and>
      card (points (icl_blocks I s)) = sz \<and> free_points I ?r = free_points I r - points (icl_blocks I s) \<and>
      (\<forall>x \<in> points (icl_blocks I s). \<forall>y \<in> free_points I ?r. y < x)" "sz \<le> card (free_points I r)"
      using A(1,2,4) f unl by simp_all
    then show ?thesis by (simp only: if_True) blast
  next
    case False
    then have "\<not> sz \<le> card (free_points I r)" using A(3,5) f by auto
    then show ?thesis using False h unl by (simp add: region_HeapAllocate_def)
  qed
qed

lemma linear_allocate:
  assumes inv: "region_inv I r" and unl: "\<not> rg_locked r" and sz: "0 < sz"
  shows "case region_LinearAllocate I sz r of
      Some (Some a, r') \<Rightarrow> {a..<a + sz} \<subseteq> free_points I r \<and> (\<forall>b. {b..<b + sz} \<subseteq> free_points I r \<longrightarrow> a \<le> b) \<and>
        region_inv I r' \<and> free_points I r' = free_points I r - {a..<a + sz} \<and> rg_used r' = rg_used r + sz \<and>
        rg_base r' = rg_base r \<and> rg_size r' = rg_size r \<and> \<not> rg_locked r'
    | Some (None, r') \<Rightarrow> r' = r \<and> (\<forall>b. \<not> {b..<b + sz} \<subseteq> free_points I r)
    | None \<Rightarrow> False"
proof (cases "find (\<lambda>i. snd i - fst i \<ge> sz) (icl_blocks I (free_blocks r))")
  case None
  then have "\<not> {b..<b + sz} \<subseteq> free_points I r" for b
    using run_in_block [OF free_canonical(1) _ sz, of b r] by (fastforce simp: free_points_def find_None_iff)
  then show ?thesis using None unl by (simp add: region_LinearAllocate_def)
next
  case (Some i)
  then obtain n where n: "n < length (icl_blocks I (free_blocks r))" "icl_blocks I (free_blocks r) ! n = i" "snd i - fst i \<ge> sz"
    "\<forall>j < n. \<not> snd (icl_blocks I (free_blocks r) ! j) - fst (icl_blocks I (free_blocks r) ! j) \<ge> sz"
    by (auto simp: find_Some_iff)
  have "i \<in> set (icl_blocks I (free_blocks r))" using n(1,2) nth_mem by blast
  then have sub: "{fst i..<fst i + sz} \<subseteq> free_points I r" using n(3) sz unfolding free_points_def points_def by fastforce
  have low: "fst i \<le> b" if b: "{b..<b + sz} \<subseteq> free_points I r" for b
  proof -
    obtain j where j: "j \<in> set (icl_blocks I (free_blocks r))" "fst j \<le> b" "b + sz \<le> snd j"
      using run_in_block [OF free_canonical(1) b [unfolded free_points_def] sz] by blast
    then obtain m where m: "m < length (icl_blocks I (free_blocks r))" "icl_blocks I (free_blocks r) ! m = j"
      by (auto simp: in_set_conv_nth)
    have "snd j - fst j \<ge> sz" using j(2,3) by linarith
    then have "n \<le> m" using n(4) m(2) by (auto simp: not_less [symmetric])
    show ?thesis
    proof (cases "n = m")
      case False
      then have "snd i < fst j" "fst i < snd i"
        using \<open>n \<le> m\<close> free_canonical(1) [of r] m n(1,2) nth_mem [OF n(1)] by (auto simp: canonical_def sorted_wrt_iff_nth_less)
      then show ?thesis using j(2) by simp
    qed (use m n(2) j(2) in simp)
  qed
  let ?r = "r\<lparr>free_blocks := icl_sub I (fst i, fst i + sz) (free_blocks r), rg_used := add32 (rg_used r) sz\<rparr>"
  have "region_inv I ?r" "rg_used ?r = rg_used r + sz"
    by (rule region_inv_take [OF inv sub, of sz]; simp add: free_points_upd span_def)+
  then show ?thesis using Some unl sub low by (simp add: region_LinearAllocate_def free_points_upd span_def)
qed

lemma rlinear_allocate:
  assumes inv: "region_inv I r" and unl: "\<not> rg_locked r" and sz: "0 < sz"
  shows "case region_RLinearAllocate I sz r of
      Some (Some a, r') \<Rightarrow> {a..<a + sz} \<subseteq> free_points I r \<and> (\<forall>b. {b..<b + sz} \<subseteq> free_points I r \<longrightarrow> b \<le> a) \<and>
        region_inv I r' \<and> free_points I r' = free_points I r - {a..<a + sz} \<and> rg_used r' = rg_used r + sz \<and>
        rg_base r' = rg_base r \<and> rg_size r' = rg_size r \<and> \<not> rg_locked r'
    | Some (None, r') \<Rightarrow> r' = r \<and> (\<forall>b. \<not> {b..<b + sz} \<subseteq> free_points I r)
    | None \<Rightarrow> False"
proof (cases "find (\<lambda>i. snd i - fst i \<ge> sz) (rev (icl_blocks I (free_blocks r)))")
  case None
  then have "\<not> {b..<b + sz} \<subseteq> free_points I r" for b
    using run_in_block [OF free_canonical(1) _ sz, of b r] by (fastforce simp: free_points_def find_None_iff)
  then show ?thesis using None unl by (simp add: region_RLinearAllocate_def)
next
  case (Some i)
  obtain as bs where n: "rev (icl_blocks I (free_blocks r)) = as @ i # bs" "\<forall>j \<in> set as. \<not> snd j - fst j \<ge> sz" "snd i - fst i \<ge> sz"
    using find_split [OF Some] by blast
  have blocks: "icl_blocks I (free_blocks r) = rev bs @ i # rev as" using n(1) by (metis rev_append rev_rev_ident rev.simps(2) append.assoc append_Cons append_Nil)
  have le: "sz \<le> snd i" using n(3) by simp
  have sub: "{snd i - sz..<snd i} \<subseteq> free_points I r" using n(3) unfolding free_points_def blocks by fastforce
  have high: "b \<le> snd i - sz" if b: "{b..<b + sz} \<subseteq> free_points I r" for b
  proof -
    obtain j where j: "j \<in> set (icl_blocks I (free_blocks r))" "fst j \<le> b" "b + sz \<le> snd j"
      using run_in_block [OF free_canonical(1) b [unfolded free_points_def] sz] by blast
    then have "j \<notin> set as" using n(2) by fastforce
    then have "snd j \<le> snd i"
      using j(1) free_canonical(1) [of r] by (auto simp: blocks canonical_append canonical_Cons)
    then show ?thesis using j(3) by linarith
  qed
  let ?r = "r\<lparr>free_blocks := icl_sub I (snd i - sz, snd i) (free_blocks r), rg_used := add32 (rg_used r) sz\<rparr>"
  have "region_inv I ?r" "rg_used ?r = rg_used r + sz"
    by (rule region_inv_take [OF inv sub, of sz]; use le in \<open>simp add: free_points_upd span_def\<close>)+
  then show ?thesis using Some unl sub high le by (simp add: region_RLinearAllocate_def free_points_upd span_def)
qed

text \<open>A given range is taken exactly when all of it is free.\<close>

lemma linear_allocate_at:
  assumes inv: "region_inv I r" and unl: "\<not> rg_locked r" and fit: "a + sz < 2 ^ 32"
  shows "if {a..<a + sz} \<subseteq> free_points I r
    then \<exists>r'. region_LinearAllocate_at I a sz r = Some (True, r') \<and> region_inv I r' \<and> \<not> rg_locked r' \<and>
      free_points I r' = free_points I r - {a..<a + sz} \<and> rg_used r' = rg_used r + sz \<and> rg_base r' = rg_base r \<and> rg_size r' = rg_size r
    else region_LinearAllocate_at I a sz r = Some (False, r)"
proof (cases "{a..<a + sz} \<subseteq> free_points I r")
  case True
  let ?r = "r\<lparr>free_blocks := icl_sub I (a, a + sz) (free_blocks r), rg_used := add32 (rg_used r) sz\<rparr>"
  have "region_inv I ?r" "rg_used ?r = rg_used r + sz"
    by (rule region_inv_take [OF inv True, of sz]; simp add: free_points_upd span_def)+
  then show ?thesis using True unl fit
    by (simp add: region_LinearAllocate_at_def free_points_upd span_def contains_iff free_points_def [symmetric] add32_small Let_def)
next
  case False
  then show ?thesis using unl fit
    by (simp add: region_LinearAllocate_at_def contains_iff free_points_def span_def add32_small Let_def)
qed

text \<open>Giving a range back that is not free.\<close>

lemma free_range:
  assumes inv: "region_inv I r" and unl: "\<not> rg_locked r"
    and range: "{a..<a + sz} \<subseteq> {rg_base r..<rg_base r + rg_size r}" "{a..<a + sz} \<inter> free_points I r = {}" "0 < sz"
  shows "\<exists>r'. region_Free I a sz r = Some r' \<and> region_inv I r' \<and> \<not> rg_locked r' \<and>
    free_points I r' = free_points I r \<union> {a..<a + sz} \<and> rg_used r' + sz = rg_used r \<and> rg_base r' = rg_base r \<and> rg_size r' = rg_size r"
proof -
  let ?r = "r\<lparr>free_blocks := icl_add I (a, a + sz) (free_blocks r), rg_used := sub32 (rg_used r) sz\<rparr>"
  have all: "free_points I r \<union> {a..<a + sz} \<subseteq> {rg_base r..<rg_base r + rg_size r}" using inv range(1) by (simp add: region_inv_def)
  have c: "card (free_points I r \<union> {a..<a + sz}) = card (free_points I r) + sz"
    using range(2) by (subst card_Un_disjoint) auto
  have le: "card (free_points I r) + sz \<le> rg_size r" using card_mono [OF _ all] c by simp
  have "a + sz - 1 < rg_base r + rg_size r" using range(1,3) by fastforce
  then have fit: "a + sz < 2 ^ 32" using inv unfolding region_inv_def by linarith
  have u: "sub32 (rg_used r) sz = rg_used r - sz" "sz \<le> rg_used r" using inv le by (auto simp: region_inv_def sub32_small)
  have f: "free_points I ?r = free_points I r \<union> {a..<a + sz}" by (simp add: free_points_upd span_def)
  have "region_inv I ?r" using inv all c u le f by (simp add: region_inv_def)
  moreover have "region_Free I a sz r = Some ?r"
    using unl range(2) fit by (simp add: region_Free_def intersects_iff free_points_def [symmetric] span_def add32_small Let_def)
  ultimately show ?thesis using f u unl by simp
qed

text \<open>Allocation followed by release.\<close>

lemma free_taken:
  assumes "region_inv I r" "region_inv I r'" "\<not> rg_locked r'" "{a..<a + sz} \<subseteq> free_points I r" "0 < sz"
    "free_points I r' = free_points I r - {a..<a + sz}" "rg_used r' = rg_used r + sz" "rg_base r' = rg_base r" "rg_size r' = rg_size r"
  shows "\<exists>r''. region_Free I a sz r' = Some r'' \<and> region_inv I r'' \<and> free_points I r'' = free_points I r \<and> rg_used r'' = rg_used r"
proof -
  have "{a..<a + sz} \<subseteq> {rg_base r'..<rg_base r' + rg_size r'}" using assms(1,4,8,9) by (metis region_inv_def order_trans)
  then show ?thesis using free_range [of r' a sz] assms by (auto simp: Un_absorb2)
qed

end

section \<open>An implementation of interval sets\<close>

fun ins :: "nat \<times> nat \<Rightarrow> (nat \<times> nat) list \<Rightarrow> (nat \<times> nat) list" where
  "ins (l, u) [] = (if l < u then [(l, u)] else [])"
| "ins (l, u) ((a, b) # bs) =
     (if \<not> l < u then (a, b) # bs
      else if u < a then (l, u) # (a, b) # bs
      else if b < l then (a, b) # ins (l, u) bs
      else ins (min l a, max u b) bs)"

definition joined :: "(nat \<times> nat) list \<Rightarrow> (nat \<times> nat) list" where
  "joined s = foldr ins s []"

definition cut :: "nat \<times> nat \<Rightarrow> (nat \<times> nat) list \<Rightarrow> (nat \<times> nat) list" where
  "cut i s = (if fst i < snd i then concat (map (\<lambda>j. [(fst j, min (snd j) (fst i)), (max (fst j) (snd i), snd j)]) s) else s)"

definition list_icl :: "(nat \<times> nat) list icl" where
  "list_icl = \<lparr>icl_empty = [], icl_blocks = joined, icl_add = (#), icl_sub = cut, icl_plus = (@), icl_minus = (\<lambda>s t. foldr cut t s),
     icl_contains = (\<lambda>s i. snd i \<le> fst i \<or> list_ex (\<lambda>j. fst j \<le> fst i \<and> snd i \<le> snd j) (joined s)),
     icl_intersects = (\<lambda>s i. list_ex (\<lambda>j. max (fst i) (fst j) < min (snd i) (snd j)) s)\<rparr>"

lemma points_ins [simp]: "canonical bs \<Longrightarrow> points (ins i bs) = span i \<union> points bs"
  by (induction i bs rule: ins.induct) (auto simp: canonical_Cons min_def max_def split: if_splits)

lemma ins_bound: "x < fst i \<Longrightarrow> \<forall>j \<in> set bs. x < fst j \<Longrightarrow> j \<in> set (ins i bs) \<Longrightarrow> x < fst j"
  by (induction i bs rule: ins.induct) (auto split: if_splits)

lemma canonical_ins: "canonical bs \<Longrightarrow> canonical (ins i bs)"
proof (induction i bs rule: ins.induct)
  case (2 l u a b bs)
  then show ?case using ins_bound [of b "(l, u)" bs] by (auto simp: canonical_Cons)
qed (simp add: canonical_def)

lemma canonical_joined: "canonical (joined s)"
  unfolding joined_def by (induction s) (simp_all add: canonical_ins, simp add: canonical_def)

lemma points_joined [simp]: "points (joined s) = points s"
proof (induction s)
  case (Cons i s)
  then show ?case using canonical_joined [of s] by (simp add: joined_def)
qed (simp add: joined_def)

lemma points_cut [simp]: "points (cut i s) = points s - span i"
proof (induction s)
  case (Cons j s)
  have "span (fst j, min (snd j) (fst i)) \<union> span (max (fst j) (snd i), snd j) = span j - span i" if "fst i < snd i"
    using that by (auto simp: set_eq_iff)
  moreover have "points (cut i (j # s)) = span (fst j, min (snd j) (fst i)) \<union> span (max (fst j) (snd i), snd j) \<union> points (cut i s)"
    if "fst i < snd i" using that by (simp add: cut_def Un_assoc)
  moreover have "span i = {}" "cut i (j # s) = j # s" if "\<not> fst i < snd i" using that by (simp_all add: span_def cut_def)
  ultimately show ?case using Cons by (cases "fst i < snd i") (simp_all add: Un_Diff)
qed (simp add: cut_def)

lemma points_cuts: "points (foldr cut t s) = points s - points t"
  by (induction t) auto

interpretation list_icl: interval_set list_icl
proof
  fix s i
  show "icl_contains list_icl s i \<longleftrightarrow> span i \<subseteq> points (icl_blocks list_icl s)"
  proof (cases "fst i < snd i")
    case True
    then have "span i = {fst i..<fst i + (snd i - fst i)}" by (simp add: span_def)
    moreover have "span i \<subseteq> points (joined s)" if "j \<in> set (joined s)" "fst j \<le> fst i" "snd i \<le> snd j" for j
      using that unfolding points_def by fastforce
    ultimately show ?thesis
      using True run_in_block [OF canonical_joined [of s], of "fst i" "snd i - fst i"]
      by (auto simp: list_icl_def list_ex_iff simp del: points_joined)
  qed (simp add: list_icl_def span_def)
  show "icl_intersects list_icl s i \<longleftrightarrow> span i \<inter> points (icl_blocks list_icl s) \<noteq> {}"
  proof -
    have "span i \<inter> span j \<noteq> {} \<longleftrightarrow> max (fst i) (fst j) < min (snd i) (snd j)" for j
      by (auto simp: span_def Int_atLeastLessThan)
    moreover have "span i \<inter> points s \<noteq> {} \<longleftrightarrow> (\<exists>j \<in> set s. span i \<inter> span j \<noteq> {})" by (auto simp: points_def simp del: span_iff)
    ultimately show ?thesis by (simp add: list_icl_def list_ex_iff)
  qed
qed (auto simp: list_icl_def canonical_joined points_cuts)

section \<open>Properties of the allocator\<close>

text \<open>
  Property: \<^verbatim>\<open>MemoryRegionInfo::HeapAllocate\<close> takes exactly \<open>sz\<close> bytes when that many are free, scattered or not, and they are the
  highest free ones of the region; when fewer are free it returns the empty set and changes nothing. The invariant (the free set lies in the region and
  its complement is what the counter calls used) is kept.
\<close>

theorem region_HeapAllocate_spec:
  assumes "interval_set I" "region_inv I r" "\<not> rg_locked r"
  shows "if sz \<le> card (free_points I r)
    then \<exists>s r'. region_HeapAllocate I sz r = Some (s, r') \<and> region_inv I r' \<and> rg_base r' = rg_base r \<and> rg_size r' = rg_size r \<and>
      \<not> rg_locked r' \<and> rg_used r' = rg_used r + sz \<and> points (icl_blocks I s) \<subseteq> free_points I r \<and>
      card (points (icl_blocks I s)) = sz \<and> free_points I r' = free_points I r - points (icl_blocks I s) \<and>
      (\<forall>x \<in> points (icl_blocks I s). \<forall>y \<in> free_points I r'. y < x)
    else region_HeapAllocate I sz r = Some (icl_empty I, r)"
  using assms interval_set.heap_allocate by blast

text \<open>A region of 0x3000 bytes at 0x1000 with a hole in the middle.\<close>

definition sample_region :: "(nat \<times> nat) list region" where
  "sample_region = \<lparr>rg_base = 0x1000, rg_size = 0x3000, rg_used = 0x800, free_blocks = [(0x1000, 0x2000), (0x2800, 0x4000)], rg_locked = False\<rparr>"

lemma sample_region_free: "free_points list_icl sample_region = {0x1000..<0x2000} \<union> {0x2800..<0x4000}"
  by (simp add: free_points_def sample_region_def list_icl_def span_def)

lemma sample_region_card: "card (free_points list_icl sample_region) = 0x2800"
  unfolding sample_region_free by (subst card_Un_disjoint) auto

lemma sample_region_inv: "region_inv list_icl sample_region" "\<not> rg_locked sample_region"
  using sample_region_card by (auto simp: region_inv_def sample_region_free) (simp_all add: sample_region_def)

theorem region_HeapAllocate_spec_witness:
  "\<exists>s r'. region_HeapAllocate list_icl 0x2000 sample_region = Some (s, r') \<and> rg_used r' = rg_used sample_region + 0x2000 \<and>
     card (points (icl_blocks list_icl s)) = 0x2000"
  using region_HeapAllocate_spec [OF list_icl.interval_set_axioms sample_region_inv, of "0x2000"] unfolding sample_region_card
  by (simp only: if_True numeral_le_iff semiring_norm) blast

text \<open>
  Property: \<^verbatim>\<open>MemoryRegionInfo::LinearAllocate(size)\<close> is first fit and complete: it returns the lowest address at which \<open>sz\<close> contiguous bytes are
  free, takes exactly those and keeps the invariant, and it fails, without change, only when there is no such address.
\<close>

theorem region_LinearAllocate_spec:
  assumes "interval_set I" "region_inv I r" "\<not> rg_locked r" "0 < sz"
  shows "case region_LinearAllocate I sz r of
      Some (Some a, r') \<Rightarrow> {a..<a + sz} \<subseteq> free_points I r \<and> (\<forall>b. {b..<b + sz} \<subseteq> free_points I r \<longrightarrow> a \<le> b) \<and>
        region_inv I r' \<and> free_points I r' = free_points I r - {a..<a + sz} \<and> rg_used r' = rg_used r + sz \<and>
        rg_base r' = rg_base r \<and> rg_size r' = rg_size r \<and> \<not> rg_locked r'
    | Some (None, r') \<Rightarrow> r' = r \<and> (\<forall>b. \<not> {b..<b + sz} \<subseteq> free_points I r)
    | None \<Rightarrow> False"
  using assms interval_set.linear_allocate by blast

theorem region_LinearAllocate_spec_witness:
  "case region_LinearAllocate list_icl 0x1400 sample_region of Some (Some a, r') \<Rightarrow> a = 0x2800 \<and> region_inv list_icl r' | _ \<Rightarrow> False"
proof -
  have a: "\<exists>r'. region_LinearAllocate list_icl 0x1400 sample_region = Some (Some 0x2800, r')"
    by (simp add: region_LinearAllocate_def sample_region_def list_icl_def joined_def)
  show ?thesis
    using region_LinearAllocate_spec [OF list_icl.interval_set_axioms sample_region_inv, of "0x1400"] a by auto
qed

text \<open>
  Property: releasing what \<^verbatim>\<open>LinearAllocate\<close> or \<^verbatim>\<open>RLinearAllocate\<close> returned, with \<^verbatim>\<open>MemoryRegionInfo::Free\<close>, never fails its assertion and
  restores the set of free addresses and the counter of used bytes.
\<close>

theorem region_alloc_free:
  assumes "interval_set I" "region_inv I r" "\<not> rg_locked r" "0 < sz"
    and "region_LinearAllocate I sz r = Some (Some a, r') \<or> region_RLinearAllocate I sz r = Some (Some a, r')"
  shows "\<exists>r''. region_Free I a sz r' = Some r'' \<and> region_inv I r'' \<and> free_points I r'' = free_points I r \<and> rg_used r'' = rg_used r"
  using interval_set.linear_allocate [OF assms(1-4)] interval_set.rlinear_allocate [OF assms(1-4)] assms(5)
    interval_set.free_taken [OF assms(1,2) _ _ _ assms(4), of r' a] by auto

theorem region_alloc_free_witness:
  "case region_RLinearAllocate list_icl 0x1000 sample_region of Some (Some a, r') \<Rightarrow> a = 0x3000 \<and>
     (\<exists>r''. region_Free list_icl a 0x1000 r' = Some r'' \<and> free_points list_icl r'' = free_points list_icl sample_region) | _ \<Rightarrow> False"
proof -
  obtain r' where a: "region_RLinearAllocate list_icl 0x1000 sample_region = Some (Some 0x3000, r')"
    by (simp add: region_RLinearAllocate_def sample_region_def list_icl_def joined_def)
  show ?thesis
    using region_alloc_free [OF list_icl.interval_set_axioms sample_region_inv, of "0x1000" "0x3000" r'] a by auto
qed

end
