(* ===== verification/Process_Memory.thy ===== *)
theory Process_Memory imports Memory_Region Memory_System Resource_Limit begin

text \<open>
  The memory of a process (\<^verbatim>\<open>src/core/hle/kernel/process.cpp\<close>) and the layout of FCRAM (\<^verbatim>\<open>KernelSystem::MemoryInit\<close> and the special
  mappings, \<^verbatim>\<open>src/core/hle/kernel/memory.cpp\<close>). The operations combine the allocator of a region of FCRAM (\<open>Memory_Region\<close>), the address
  space of the process (\<open>VM_Manager\<close>), the host memory (\<open>Memory_System\<close>) and the resource limit (\<open>Resource_Limit\<close>). The interval sets are the
  parameter \<open>I\<close>, as in \<open>Memory_Region\<close>.
\<close>

section \<open>State\<close>

definition HEAP_VADDR :: nat where "HEAP_VADDR = 0x08000000"
definition HEAP_VADDR_END :: nat where "HEAP_VADDR_END = 0x10000000"
definition TLS_AREA_VADDR :: nat where "TLS_AREA_VADDR = 0x1FF82000"
definition TLS_ENTRY_SIZE :: nat where "TLS_ENTRY_SIZE = 0x200"

datatype memory_region_id = APPLICATION | SYSTEM | BASE

text \<open>
  The part of \<^verbatim>\<open>Process\<close> its memory operations use, with the kernel's regions and memory system. \<open>pr_region\<close> and \<open>pr_limit\<close> are pointers that are null
  until the process is set up; the limit object is held by value because the operations below are the only accesses to it here.
\<close>

record 's process =
  pr_vm :: vm_manager
  pr_mem :: mem_sys
  regions :: "memory_region_id \<Rightarrow> 's region"
  pr_region :: "memory_region_id option"
  holding_memory :: 's
  holding_tls_memory :: 's
  memory_used :: nat
  pr_limit :: "resource_limit option"
  tls_slots :: "bool list list"
  kernel_version :: nat

section \<open>Layout of FCRAM\<close>

definition memory_region_sizes :: "nat list list" where
  "memory_region_sizes =
     [[0x04000000, 0x02C00000, 0x01400000], [0, 0, 0], [0x06000000, 0x00C00000, 0x01400000], [0x05000000, 0x01C00000, 0x01400000],
      [0x04800000, 0x02400000, 0x01400000], [0x02000000, 0x04C00000, 0x01400000],
      [0x07C00000, 0x06400000, 0x02000000], [0x0B200000, 0x02E00000, 0x02000000]]"

fun init_regions :: "'s icl \<Rightarrow> nat list \<Rightarrow> nat \<Rightarrow> 's region list \<Rightarrow> (nat \<times> 's region list) option" where
  "init_regions I (sz # szs) base (r # rs) =
     Option.bind (region_Reset I base sz r) (\<lambda>r'.
     Option.bind (init_regions I szs (add32 base (rg_size r')) rs) (\<lambda>(e, rs'). Some (e, r' # rs')))"
| "init_regions I _ base rs = Some (base, rs)"

text \<open>\<open>None\<close>: an assertion failed, or \<open>mode\<close> is no row of the table.\<close>

definition MemoryInit :: "'s icl \<Rightarrow> bool \<Rightarrow> nat \<Rightarrow> 's region list \<Rightarrow> 's region list option" where
  "MemoryInit I is_new_3ds mode rs =
     (if mode < length memory_region_sizes
      then case init_regions I (memory_region_sizes ! mode) 0 rs of
             None \<Rightarrow> None
           | Some (base, rs') \<Rightarrow> if base = (if is_new_3ds then FCRAM_N3DS_SIZE else FCRAM_SIZE) then Some rs' else None
      else None)"

section \<open>Allocation\<close>

definition set_region :: "'s region \<Rightarrow> memory_region_id \<Rightarrow> 's process \<Rightarrow> 's process" where
  "set_region r k p = p\<lparr>regions := (regions p)(k := r)\<rparr>"

definition GetLinearHeapAreaAddress :: "'s process \<Rightarrow> nat" where
  "GetLinearHeapAreaAddress p = (if kernel_version p < 0x22C then LINEAR_HEAP_VADDR else NEW_LINEAR_HEAP_VADDR)"

definition GetLinearHeapBase :: "memory_region_id \<Rightarrow> 's process \<Rightarrow> nat" where
  "GetLinearHeapBase k p = add32 (GetLinearHeapAreaAddress p) (rg_base (regions p k))"

definition GetLinearHeapLimit :: "memory_region_id \<Rightarrow> 's process \<Rightarrow> nat" where
  "GetLinearHeapLimit k p = add32 (GetLinearHeapBase k p) (rg_size (regions p k))"

text \<open>\<^verbatim>\<open>MapBackingMemory\<close>, the assertion that it succeeded, and \<^verbatim>\<open>Reprotect\<close> of the area it returned.\<close>

definition map_protect :: "(nat \<Rightarrow> bool) \<Rightarrow> nat \<Rightarrow> memory_ref \<Rightarrow> nat \<Rightarrow> memory_state \<Rightarrow> u8 \<Rightarrow> vm_manager \<Rightarrow> vm_manager option" where
  "map_protect cached target mem sz state perms vm =
     (case MapBackingMemory cached target mem sz state vm of
        Ok vm1 i \<Rightarrow> (case Reprotect cached perms i vm1 of Ok vm2 _ \<Rightarrow> Some vm2 | _ \<Rightarrow> None)
      | _ \<Rightarrow> None)"

text \<open>\<^verbatim>\<open>std::fill\<close> of FCRAM from one offset to another.\<close>

definition clear_fcram :: "nat \<Rightarrow> nat \<Rightarrow> mem_sys \<Rightarrow> mem_sys option" where
  "clear_fcram l u ms =
     (case (GetFCRAMPointer ms l, GetFCRAMPointer ms u) of
        (Some s, Some e) \<Rightarrow> Some (host_write s (replicate (e - s) 0) ms)
      | _ \<Rightarrow> None)"

text \<open>The loop of \<^verbatim>\<open>HeapAllocate\<close> that maps the memory block by block.\<close>

fun map_blocks :: "(nat \<times> nat) list \<Rightarrow> nat \<Rightarrow> memory_state \<Rightarrow> u8 \<Rightarrow> vm_manager \<Rightarrow> mem_sys \<Rightarrow> (vm_manager \<times> mem_sys) option" where
  "map_blocks [] target state perms vm ms = Some (vm, ms)"
| "map_blocks ((l, u) # bs) target state perms vm ms =
     Option.bind (clear_fcram l u ms) (\<lambda>ms1.
     Option.bind (GetFCRAMRef ms1 l) (\<lambda>mem.
     Option.bind (map_protect (cached_pages ms1) target mem (u - l) state perms vm) (\<lambda>vm1.
     map_blocks bs (add32 target (u - l)) state perms vm1 ms1)))"

definition commit :: "(nat \<Rightarrow> int \<Rightarrow> resource_limit \<Rightarrow> (bool \<times> resource_limit) option) \<Rightarrow> nat \<Rightarrow> 's process \<Rightarrow> 's process option" where
  "commit change sz p =
     Option.bind (pr_limit p) (\<lambda>rl.
     Option.bind (change (rl_index RL_Commit) (s32 (int sz)) rl) (\<lambda>(_, rl'). Some (p\<lparr>pr_limit := Some rl'\<rparr>)))"

text \<open>A null pointer that is dereferenced and a failed assertion both end the program.\<close>

definition orCrash :: "'a option \<Rightarrow> ('a \<Rightarrow> ('s, 'b) outcome) \<Rightarrow> ('s, 'b) outcome" where
  "orCrash x f = (case x of None \<Rightarrow> Crash | Some a \<Rightarrow> f a)"

definition in_heap_area :: "nat \<Rightarrow> nat \<Rightarrow> bool" where
  "in_heap_area target sz \<longleftrightarrow> \<not> (target < HEAP_VADDR \<or> add32 target sz > HEAP_VADDR_END \<or> add32 target sz < target)"

text \<open>The check that a range lies in one free area; the end iterator of \<^verbatim>\<open>FindVMA\<close> is dereferenced unchecked.\<close>

definition check_unused :: "nat \<Rightarrow> nat \<Rightarrow> vm_manager \<Rightarrow> bool option" where
  "check_unused target sz vm =
     (let i = FindVMA (vma_map vm) target in
      if i < length (vma_map vm)
      then let v = vma_map vm ! i in
           Some (\<not> (vtype v \<noteq> VMAFree \<or> add32 (vbase v) (vsize v) < add32 target sz))
      else None)"

definition HeapAllocate ::
  "'s icl \<Rightarrow> nat \<Rightarrow> nat \<Rightarrow> u8 \<Rightarrow> memory_state \<Rightarrow> bool \<Rightarrow> 's process \<Rightarrow> ('s process, nat) outcome" where
  "HeapAllocate I target sz perms memory_state skip_range_check p =
     unlessO (in_heap_area target sz \<or> skip_range_check) p ResultInvalidAddress
       (orCrash (check_unused target sz (pr_vm p)) (\<lambda>unused.
        unlessO unused p ResultInvalidAddressState
          (orCrash (pr_region p) (\<lambda>k.
           orCrash (region_HeapAllocate I sz (regions p k)) (\<lambda>(allocated_fcram, r).
           let p1 = set_region r k p in
           unlessO (icl_blocks I allocated_fcram \<noteq> []) p1 ResultOutOfHeapMemory
             (orCrash (map_blocks (icl_blocks I allocated_fcram) target memory_state perms (pr_vm p1) (pr_mem p1)) (\<lambda>(vm, ms).
              orCrash (commit Reserve sz
                  (p1\<lparr>pr_vm := vm, pr_mem := ms, holding_memory := icl_plus I (holding_memory p1) allocated_fcram,
                      memory_used := add32 (memory_used p1) sz\<rparr>))
                (\<lambda>p2. Ok p2 target)))))))) "

text \<open>The loop of \<^verbatim>\<open>HeapFree\<close>, on the region and the set of held memory.\<close>

fun free_blocks_of :: "'s icl \<Rightarrow> mem_sys \<Rightarrow> (memory_ref \<times> nat) list \<Rightarrow> 's region \<Rightarrow> 's \<Rightarrow> ('s region \<times> 's) option" where
  "free_blocks_of I ms [] r held = Some (r, held)"
| "free_blocks_of I ms ((mem, n) # bs) r held =
     Option.bind (GetFCRAMOffset ms (GetPtr mem)) (\<lambda>off.
     Option.bind (region_Free I off n r) (\<lambda>r'.
     free_blocks_of I ms bs r' (icl_sub I (off, add32 off n) held)))"

definition HeapFree :: "'s icl \<Rightarrow> nat \<Rightarrow> nat \<Rightarrow> 's process \<Rightarrow> ('s process, unit) outcome" where
  "HeapFree I target sz p =
     unlessO (in_heap_area target sz) p ResultInvalidAddress
       (if sz = 0 then Ok p ()
        else case GetBackingBlocksForRange target sz (pr_vm p) of
               Crash \<Rightarrow> Crash
             | Err _ c \<Rightarrow> Err p c
             | Ok _ backing_blocks \<Rightarrow>
                 orCrash (pr_region p) (\<lambda>k.
                 orCrash (free_blocks_of I (pr_mem p) backing_blocks (regions p k) (holding_memory p)) (\<lambda>(r, held).
                 case UnmapRange (cached_pages (pr_mem p)) target sz (pr_vm p) of
                   Ok vm _ \<Rightarrow>
                     orCrash (commit Release sz
                         ((set_region r k p)\<lparr>pr_vm := vm, holding_memory := held, memory_used := sub32 (memory_used p) sz\<rparr>))
                       (\<lambda>p1. Ok p1 ())
                 | _ \<Rightarrow> Crash)))"

text \<open>The part of \<^verbatim>\<open>LinearAllocate\<close> after the memory has been found.\<close>

definition map_linear ::
  "'s icl \<Rightarrow> nat \<Rightarrow> nat \<Rightarrow> nat \<Rightarrow> u8 \<Rightarrow> 's process \<Rightarrow> ('s process, nat) outcome" where
  "map_linear I physical_offset target sz perms p =
     orCrash (GetFCRAMRef (pr_mem p) physical_offset) (\<lambda>backing_memory.
     let ms = host_write (GetPtr backing_memory) (replicate sz 0) (pr_mem p) in
     orCrash (map_protect (cached_pages ms) target backing_memory sz StContinuous perms (pr_vm p)) (\<lambda>vm.
     orCrash (commit Reserve sz
         (p\<lparr>pr_vm := vm, pr_mem := ms,
            holding_memory := icl_add I (physical_offset, add32 physical_offset sz) (holding_memory p),
            memory_used := add32 (memory_used p) sz\<rparr>))
       (\<lambda>p1. Ok p1 target)))"

definition in_linear_area :: "nat \<Rightarrow> nat \<Rightarrow> memory_region_id \<Rightarrow> 's process \<Rightarrow> bool" where
  "in_linear_area target sz k p \<longleftrightarrow>
     \<not> (target < GetLinearHeapBase k p \<or> add32 target sz > GetLinearHeapLimit k p \<or> add32 target sz < target)"

definition LinearAllocate :: "'s icl \<Rightarrow> nat \<Rightarrow> nat \<Rightarrow> u8 \<Rightarrow> 's process \<Rightarrow> ('s process, nat) outcome" where
  "LinearAllocate I target sz perms p =
     orCrash (pr_region p) (\<lambda>k.
     if target = 0
     then orCrash (region_LinearAllocate I sz (regions p k)) (\<lambda>(offset, r).
            case offset of
              None \<Rightarrow> Err (set_region r k p) ResultOutOfHeapMemory
            | Some physical_offset \<Rightarrow>
                map_linear I physical_offset (add32 physical_offset (GetLinearHeapAreaAddress p)) sz perms (set_region r k p))
     else unlessO (in_linear_area target sz k p) p ResultInvalidAddress
            (let physical_offset = sub32 target (GetLinearHeapAreaAddress p) in
             orCrash (region_LinearAllocate_at I physical_offset sz (regions p k)) (\<lambda>(taken, r).
             unlessO taken (set_region r k p) ResultInvalidAddressState
               (map_linear I physical_offset target sz perms (set_region r k p)))))"

definition LinearFree :: "'s icl \<Rightarrow> nat \<Rightarrow> nat \<Rightarrow> 's process \<Rightarrow> ('s process, unit) outcome" where
  "LinearFree I target sz p =
     orCrash (pr_region p) (\<lambda>k.
     unlessO (in_linear_area target sz k p) p ResultInvalidAddress
       (if sz = 0 then Ok p ()
        else case UnmapRange (cached_pages (pr_mem p)) target sz (pr_vm p) of
               Crash \<Rightarrow> Crash
             | Err vm c \<Rightarrow> Err (p\<lparr>pr_vm := vm\<rparr>) c
             | Ok vm _ \<Rightarrow>
                 let physical_offset = sub32 target (GetLinearHeapAreaAddress p) in
                 orCrash (region_Free I physical_offset sz (regions p k)) (\<lambda>r.
                 orCrash (commit Release sz
                     ((set_region r k p)\<lparr>pr_vm := vm,
                        holding_memory := icl_sub I (physical_offset, add32 physical_offset sz) (holding_memory p),
                        memory_used := sub32 (memory_used p) sz\<rparr>))
                   (\<lambda>p1. Ok p1 ()))))"

section \<open>Thread-local storage\<close>

text \<open>The search for the first unused slot, page by page.\<close>

fun find_tls_slot :: "bool list list \<Rightarrow> nat \<Rightarrow> (nat \<times> nat) option" where
  "find_tls_slot [] page = None"
| "find_tls_slot (slots # rest) page =
     (if list_all id slots then find_tls_slot rest (page + 1) else Some (page, length (takeWhile id slots)))"

definition new_tls_page :: "'s icl \<Rightarrow> 's process \<Rightarrow> ('s process, unit) outcome" where
  "new_tls_page I p =
     (let tls_page = length (tls_slots p) in
      orCrash (region_LinearAllocate I CITRA_PAGE_SIZE (regions p BASE)) (\<lambda>(offset, r).
      let p1 = set_region r BASE p in
      case offset of
        None \<Rightarrow> Err p1 ResultOutOfMemory
      | Some off \<Rightarrow>
          orCrash (GetFCRAMRef (pr_mem p1) off) (\<lambda>mem.
          let p2 = p1\<lparr>holding_tls_memory := icl_add I (off, add32 off CITRA_PAGE_SIZE) (holding_tls_memory p1),
                      memory_used := add32 (memory_used p1) CITRA_PAGE_SIZE,
                      tls_slots := tls_slots p1 @ [replicate 8 False]\<rparr>;
              tls_page_addr = add32 TLS_AREA_VADDR (tls_page * CITRA_PAGE_SIZE mod 2 ^ 32)
          in case MapBackingMemory (cached_pages (pr_mem p2)) tls_page_addr mem CITRA_PAGE_SIZE StLocked (pr_vm p2) of
               Crash \<Rightarrow> Crash
             | Err vm _ \<Rightarrow> Ok (p2\<lparr>pr_vm := vm\<rparr>) ()
             | Ok vm _ \<Rightarrow> Ok (p2\<lparr>pr_vm := vm\<rparr>) ())))"

definition tls_address_of :: "nat \<Rightarrow> nat \<Rightarrow> nat" where
  "tls_address_of page slot =
     add32 (add32 TLS_AREA_VADDR (page * CITRA_PAGE_SIZE mod 2 ^ 32)) (slot * TLS_ENTRY_SIZE mod 2 ^ 32)"

definition take_tls_slot :: "gpu \<Rightarrow> nat \<Rightarrow> nat \<Rightarrow> 's process \<Rightarrow> ('s process, nat) outcome" where
  "take_tls_slot gpu page slot p =
     (let tls_address = tls_address_of page slot;
          p1 = p\<lparr>tls_slots := (tls_slots p)[page := (tls_slots p ! page)[slot := True]]\<rparr>
      in case ZeroBlock gpu (vm_page_table (pr_vm p1)) tls_address TLS_ENTRY_SIZE (pr_mem p1) of
           Ok ms _ \<Rightarrow> Ok (p1\<lparr>pr_mem := ms\<rparr>) tls_address
         | _ \<Rightarrow> Crash)"

definition AllocateThreadLocalStorage :: "'s icl \<Rightarrow> gpu \<Rightarrow> 's process \<Rightarrow> ('s process, nat) outcome" where
  "AllocateThreadLocalStorage I gpu p =
     (case find_tls_slot (tls_slots p) 0 of
        Some (page, slot) \<Rightarrow> take_tls_slot gpu page slot p
      | None \<Rightarrow> bindO (new_tls_page I p) (\<lambda>p1 _. take_tls_slot gpu (length (tls_slots p)) 0 p1))"

section \<open>Aliases\<close>

text \<open>The loop of \<^verbatim>\<open>Map\<close>.\<close>

fun alias_blocks :: "(nat \<Rightarrow> bool) \<Rightarrow> (memory_ref \<times> nat) list \<Rightarrow> nat \<Rightarrow> memory_state \<Rightarrow> u8 \<Rightarrow> vm_manager \<Rightarrow> vm_manager option" where
  "alias_blocks cached [] target state perms vm = Some vm"
| "alias_blocks cached ((mem, n) # bs) target state perms vm =
     Option.bind (map_protect cached target mem n state perms vm)
       (alias_blocks cached bs (add32 target n) state perms)"

definition overlapping :: "nat \<Rightarrow> nat \<Rightarrow> nat \<Rightarrow> bool" where
  "overlapping target source sz \<longleftrightarrow> sub32 source target < sz \<or> sub32 target source < sz"

definition Process_Map :: "nat \<Rightarrow> nat \<Rightarrow> nat \<Rightarrow> u8 \<Rightarrow> bool \<Rightarrow> 's process \<Rightarrow> ('s process, unit) outcome" where
  "Process_Map target source sz perms privileged p =
     (let cached = cached_pages (pr_mem p); lift = (\<lambda>vm. p\<lparr>pr_vm := vm\<rparr>) in
      if \<not> privileged \<and> \<not> in_heap_area source sz then Err p ResultInvalidAddress
      else if overlapping target source sz
      then if privileged
           then if source = target
                then case ChangeMemoryState cached source sz StPrivate PermReadWrite StAliasCode perms (pr_vm p) of
                       Ok vm _ \<Rightarrow> Ok (lift vm) () | Err vm c \<Rightarrow> Err (lift vm) c | Crash \<Rightarrow> Crash
                else Err p ResultInvalidAddress
           else Err p ResultInvalidAddressState
      else orCrash (check_unused target sz (pr_vm p)) (\<lambda>unused.
           unlessO unused p ResultInvalidAddressState
             (case ChangeMemoryState cached source sz StPrivate PermReadWrite
                     (if privileged then StLocked else StAliased) (if privileged then PermNone else PermReadWrite) (pr_vm p) of
                Crash \<Rightarrow> Crash
              | Err vm c \<Rightarrow> Err (lift vm) c
              | Ok vm _ \<Rightarrow>
                  (case GetBackingBlocksForRange source sz vm of
                     Crash \<Rightarrow> Crash
                   | Err _ c \<Rightarrow> Err (lift vm) c
                   | Ok _ backing_blocks \<Rightarrow>
                       orCrash (alias_blocks cached backing_blocks target (if privileged then StAliasCode else StAlias) perms vm)
                         (\<lambda>vm'. Ok (lift vm') ())))))"

definition Process_Unmap :: "nat \<Rightarrow> nat \<Rightarrow> nat \<Rightarrow> u8 \<Rightarrow> bool \<Rightarrow> 's process \<Rightarrow> ('s process, unit) outcome" where
  "Process_Unmap target source sz perms privileged p =
     (let cached = cached_pages (pr_mem p); lift = (\<lambda>vm. p\<lparr>pr_vm := vm\<rparr>);
          change = (\<lambda>st vm. case ChangeMemoryState cached source sz st PermNone StPrivate perms vm of
             Ok vm' _ \<Rightarrow> Ok (lift vm') () | Err vm' c \<Rightarrow> Err (lift vm') c | Crash \<Rightarrow> Crash) in
      if \<not> privileged \<and> \<not> in_heap_area source sz then Err p ResultInvalidAddress
      else if overlapping target source sz
      then if privileged
           then if source = target then change StAliasCode (pr_vm p) else Err p ResultInvalidAddress
           else Err p ResultInvalidAddressState
      else case UnmapRange cached target sz (pr_vm p) of
             Crash \<Rightarrow> Crash
           | Err vm c \<Rightarrow> Err (lift vm) c
           | Ok vm _ \<Rightarrow> change (if privileged then StLocked else StAliased) vm)"

section \<open>Termination of a process\<close>

fun free_held :: "'s icl \<Rightarrow> (nat \<times> nat) list \<Rightarrow> memory_region_id \<Rightarrow> bool \<Rightarrow> 's process \<Rightarrow> 's process option" where
  "free_held I [] k counted p = Some p"
| "free_held I ((l, u) # bs) k counted p =
     Option.bind (region_Free I l (u - l) (regions p k)) (\<lambda>r.
     let p1 = (set_region r k p)\<lparr>memory_used := sub32 (memory_used p) (u - l)\<rparr> in
     Option.bind (if counted then commit Release (u - l) p1 else Some p1) (free_held I bs k counted))"

definition FreeAllMemory :: "'s icl \<Rightarrow> 's process \<Rightarrow> 's process option" where
  "FreeAllMemory I p =
     (case (pr_region p, pr_limit p) of
        (Some k, Some _) \<Rightarrow>
          Option.bind (free_held I (icl_blocks I (holding_memory p)) k True p) (\<lambda>p1.
          Option.bind (free_held I (icl_blocks I (holding_tls_memory p)) BASE False (p1\<lparr>holding_memory := icl_empty I\<rparr>)) (\<lambda>p2.
          Some (p2\<lparr>holding_tls_memory := icl_empty I, tls_slots := []\<rparr>)))
      | _ \<Rightarrow> Some p)"

section \<open>Special mappings\<close>

definition IO_AREA_VADDR :: nat where "IO_AREA_VADDR = 0x1EC00000"
definition IO_AREA_SIZE :: nat where "IO_AREA_SIZE = 0x00400000"
definition DSP_RAM_VADDR :: nat where "DSP_RAM_VADDR = 0x1FF00000"
definition N3DS_EXTRA_RAM_VADDR :: nat where "N3DS_EXTRA_RAM_VADDR = 0x1E800000"
definition CONFIG_MEMORY_VADDR :: nat where "CONFIG_MEMORY_VADDR = 0x1FF80000"
definition CONFIG_MEMORY_SIZE :: nat where "CONFIG_MEMORY_SIZE = 0x1000"
definition SHARED_PAGE_VADDR :: nat where "SHARED_PAGE_VADDR = 0x1FF81000"
definition SHARED_PAGE_SIZE :: nat where "SHARED_PAGE_SIZE = 0x1000"

record address_mapping =
  am_address :: nat
  am_size :: nat
  read_only :: bool
  unk_flag :: bool

definition special_areas :: "(nat \<times> nat \<times> nat) list" where
  "special_areas =
     [(VRAM_VADDR, VRAM_PADDR, VRAM_SIZE), (IO_AREA_VADDR, IO_AREA_PADDR, IO_AREA_SIZE),
      (DSP_RAM_VADDR, DSP_RAM_PADDR, DSP_RAM_SIZE),
      (N3DS_EXTRA_RAM_VADDR, N3DS_EXTRA_RAM_PADDR, N3DS_EXTRA_RAM_SIZE - 0x20000)]"

text \<open>\<open>cache\<close> is the last region that \<^verbatim>\<open>GetPhysicalRef\<close> found. \<open>None\<close>: the mapping failed and its result was unwrapped.\<close>

definition HandleSpecialMapping :: "mem_sys \<Rightarrow> region_info \<Rightarrow> address_mapping \<Rightarrow> vm_manager \<Rightarrow> vm_manager option" where
  "HandleSpecialMapping ms cache m vm =
     (let mapping_limit = add32 (am_address m) (am_size m) in
      if mapping_limit < am_address m then Some vm
      else case find (\<lambda>(v, _, sz). am_address m \<ge> v \<and> mapping_limit \<le> v + sz) special_areas of
             None \<Rightarrow> Some vm
           | Some (vaddr_base, paddr_base, _) \<Rightarrow>
               let offset_into_region = am_address m - vaddr_base in
               if paddr_base = IO_AREA_PADDR then Some vm
               else map_protect (cached_pages ms) (am_address m) (GetPhysicalRef ms cache (paddr_base + offset_into_region))
                      (am_size m) (if unk_flag m then StStatic else StIO) (if read_only m then PermRead else PermReadWrite) vm)"

text \<open>\<open>cfg\<close> and \<open>page\<close> refer to the pages of the configuration memory and of the shared page.\<close>

definition MapSharedPages :: "mem_sys \<Rightarrow> memory_ref \<Rightarrow> memory_ref \<Rightarrow> vm_manager \<Rightarrow> vm_manager option" where
  "MapSharedPages ms cfg page vm =
     Option.bind (map_protect (cached_pages ms) CONFIG_MEMORY_VADDR cfg CONFIG_MEMORY_SIZE StShared PermRead vm)
       (map_protect (cached_pages ms) SHARED_PAGE_VADDR page SHARED_PAGE_SIZE StShared PermRead)"

section \<open>Mapping and protecting\<close>

text \<open>
  \<^verbatim>\<open>MapBackingMemory\<close> returns the area after merging it with its neighbours, so that the \<^verbatim>\<open>Reprotect\<close> that follows reaches the neighbours it was
  merged with. \<open>kept\<close> says what may happen outside of the range.
\<close>

definition kept :: "memory_state \<Rightarrow> u8 \<Rightarrow> attrs option \<Rightarrow> attrs option \<Rightarrow> bool" where
  "kept state perms old new \<longleftrightarrow> new = old \<or>
     (\<exists>h. old = Some (BackingMemory, PermReadWrite, state, h) \<and> new = Some (BackingMemory, perms, state, h))"

lemma kept_refl [simp]: "kept state perms x x"
  by (simp add: kept_def)

lemma kept_read_write [simp]: "kept state PermReadWrite x y \<longleftrightarrow> y = x"
  by (auto simp: kept_def)

lemma kept_free: "kept state perms x y \<Longrightarrow> map_option fst x = map_option fst y"
  by (auto simp: kept_def)

lemma kept_trans: "kept state perms x y \<Longrightarrow> kept state perms y z \<Longrightarrow> kept state perms x z"
  by (auto simp: kept_def)

lemma kept_done: "kept state perms (Some (BackingMemory, perms, state, h)) z \<Longrightarrow> z = Some (BackingMemory, perms, state, h)"
  by (auto simp: kept_def)

lemma Reprotect_area:
  assumes hl: "host_layout H" and inv: "vm_inv H cached vm" and unl: "\<not> is_locked vm" and i: "i < length (vma_map vm)"
    and v: "vtype (vma_map vm ! i) = BackingMemory"
  obtains vm' j where "Reprotect cached perms i vm = Ok vm' j" "vm_inv H cached vm'" "\<not> is_locked vm'"
    "contents vm' = (\<lambda>a. if inside a (vma_map vm ! i) then map_option (\<lambda>(t, _, s, h). (t, perms, s, h)) (contents vm a) else contents vm a)"
proof -
  let ?v = "vma_map vm ! i" and ?xs = "take i (vma_map vm)" and ?ys = "drop (Suc i) (vma_map vm)"
  have vs: "vma_map vm = ?xs @ ?v # ?ys" using i by (simp add: id_take_nth_drop)
  have ok: "vma_ok H (?v\<lparr>vperms := perms\<rparr>)" using tiles_ok [OF vm_inv_tiles [OF inv] nth_mem [OF i]] v by (simp add: vma_ok_def)
  have "successively (\<lambda>v w. \<not> both_free v w) (?xs @ ?v # ?ys)" using inv vs by (simp add: vm_inv_def)
  then have free: "successively (\<lambda>v w. \<not> both_free v w) ?xs" "successively (\<lambda>v w. \<not> both_free v w) ?ys"
    by (auto simp: successively_append_iff successively_Cons)
  obtain vm' xs' v1 v' ys' where "change_vma cached (\<lambda>v. v\<lparr>vperms := perms\<rparr>) (length ?xs) vm = Ok vm' (length xs')"
    "vma_map vm' = xs' @ v' # ys'" "merge_r (?v\<lparr>vperms := perms\<rparr>) ?ys = (v1, ys')" "merge_l ?xs v1 = (xs', v')"
    "vm_inv H cached vm'" "is_locked vm' = is_locked vm"
    and con: "\<And>a. contents vm' a = (if inside a ?v then Some (vattr (?v\<lparr>vperms := perms\<rparr>) a) else contents vm a)"
    by (rule change_vma_spec [OF hl vm_inv_tiles [OF inv] vs, of "\<lambda>v. v\<lparr>vperms := perms\<rparr>", OF ok _ _ free]) simp_all
  moreover have "contents vm a = Some (vattr ?v a)" if "inside a ?v" for a
    using attr_map_in [OF tiles_covers [OF vm_inv_tiles [OF inv]] nth_mem [OF i] that] .
  ultimately show thesis using that [of vm' "length xs'"] unl i v by (simp add: Reprotect_def vattr_def fun_eq_iff)
qed

lemma map_protect_spec:
  assumes hl: "host_layout H" and inv: "vm_inv H cached vm" and unl: "\<not> is_locked vm"
    and al: "CITRA_PAGE_SIZE dvd target" "CITRA_PAGE_SIZE dvd sz" and sz: "0 < sz"
    and mem: "ref_covers H mem sz" and free: "free_range vm target sz"
  obtains vm' where "map_protect cached target mem sz state perms vm = Some vm'" "vm_inv H cached vm'" "\<not> is_locked vm'"
    "\<forall>a. target \<le> a \<and> a < target + sz \<longrightarrow> contents vm' a = Some (BackingMemory, perms, state, GetPtr mem + (a - target))"
    "\<forall>a. \<not> (target \<le> a \<and> a < target + sz) \<longrightarrow> kept state perms (contents vm a) (contents vm' a)"
    "contents vm (target + sz) = Some (BackingMemory, PermReadWrite, state, GetPtr mem + sz) \<longrightarrow>
       contents vm' (target + sz) = Some (BackingMemory, perms, state, GetPtr mem + sz)"
proof -
  obtain vm1 i where m: "MapBackingMemory cached target mem sz state vm = Ok vm1 i" "vm_inv H cached vm1" "\<not> is_locked vm1"
    and con: "contents vm1 = (\<lambda>a. if target \<le> a \<and> a < target + sz
      then Some (BackingMemory, PermReadWrite, state, GetPtr mem + (a - target)) else contents vm a)"
    and v: "i < length (vma_map vm1)" "vbase (vma_map vm1 ! i) \<le> target" "target + sz \<le> vend (vma_map vm1 ! i)"
      "vtype (vma_map vm1 ! i) = BackingMemory" "vperms (vma_map vm1 ! i) = PermReadWrite" "vstate (vma_map vm1 ! i) = state"
      "contents vm (target + sz) = Some (BackingMemory, PermReadWrite, state, GetPtr mem + sz) \<longrightarrow> target + sz < vend (vma_map vm1 ! i)"
    by (rule MapBackingMemory_area [OF assms])
  obtain vm' j where r: "Reprotect cached perms i vm1 = Ok vm' j" "vm_inv H cached vm'" "\<not> is_locked vm'"
    and con': "contents vm' = (\<lambda>a. if inside a (vma_map vm1 ! i) then map_option (\<lambda>(t, _, s, h). (t, perms, s, h)) (contents vm1 a) else contents vm1 a)"
    by (rule Reprotect_area [OF hl m(2,3) v(1,4), where perms = perms])
  have area: "\<exists>h. contents vm1 a = Some (BackingMemory, PermReadWrite, state, h)" if "inside a (vma_map vm1 ! i)" for a
    using attr_map_in [OF tiles_covers [OF vm_inv_tiles [OF m(2)]] nth_mem [OF v(1)] that] v(4-6) by (simp add: vattr_def)
  show thesis
  proof (rule that)
    show "map_protect cached target mem sz state perms vm = Some vm'" using m(1) r(1) by (simp add: map_protect_def)
    show "\<forall>a. target \<le> a \<and> a < target + sz \<longrightarrow> contents vm' a = Some (BackingMemory, perms, state, GetPtr mem + (a - target))"
      using v(2,3) by (simp add: con' con inside_def)
    have "kept state perms (contents vm a) (contents vm' a)" if "\<not> (target \<le> a \<and> a < target + sz)" for a
    proof (cases "inside a (vma_map vm1 ! i)")
      case True
      then show ?thesis using area [OF True] that by (auto simp: con' con kept_def)
    next
      case False
      then show ?thesis using that by (auto simp: con' con)
    qed
    then show "\<forall>a. \<not> (target \<le> a \<and> a < target + sz) \<longrightarrow> kept state perms (contents vm a) (contents vm' a)" by blast
    show "contents vm (target + sz) = Some (BackingMemory, PermReadWrite, state, GetPtr mem + sz) \<longrightarrow>
       contents vm' (target + sz) = Some (BackingMemory, perms, state, GetPtr mem + sz)"
      using v(2,7) by (auto simp: con' con inside_def)
  qed (rule r)+
qed

section \<open>Mapping the blocks of an allocation\<close>

text \<open>The blocks of an allocation, laid end to end.\<close>

definition total_size :: "(nat \<times> nat) list \<Rightarrow> nat" where
  "total_size bs = sum_list (map (\<lambda>i. snd i - fst i) bs)"

fun block_offset :: "(nat \<times> nat) list \<Rightarrow> nat \<Rightarrow> nat" where
  "block_offset [] k = 0"
| "block_offset ((l, u) # bs) k = (if k < u - l then l + k else block_offset bs (k - (u - l)))"

text \<open>Blocks of whole pages of FCRAM.\<close>

definition fcram_blocks :: "(nat \<times> nat) list \<Rightarrow> bool" where
  "fcram_blocks bs \<longleftrightarrow>
     (\<forall>i \<in> set bs. CITRA_PAGE_SIZE dvd fst i \<and> CITRA_PAGE_SIZE dvd snd i \<and> fst i < snd i \<and> snd i \<le> FCRAM_N3DS_SIZE)"

text \<open>FCRAM is an allocation of the host of the largest size.\<close>

definition fcram_in :: "backing_mem set \<Rightarrow> mem_sys \<Rightarrow> bool" where
  "fcram_in H ms \<longleftrightarrow> host_layout H \<and> fcram_mem ms \<in> H \<and> bm_size (fcram_mem ms) = FCRAM_N3DS_SIZE"

definition cleared :: "nat set \<Rightarrow> mem_sys \<Rightarrow> mem_sys" where
  "cleared A ms = ms\<lparr>host := \<lambda>q. if bm_ptr (fcram_mem ms) \<le> q \<and> q - bm_ptr (fcram_mem ms) \<in> A then 0 else host ms q\<rparr>"

lemma total_size_simps [simp]: "total_size [] = 0" "total_size (i # bs) = snd i - fst i + total_size bs"
  by (simp_all add: total_size_def)

lemma fcram_blocks_simps [simp]:
  "fcram_blocks []"
  "fcram_blocks (i # bs) \<longleftrightarrow> CITRA_PAGE_SIZE dvd fst i \<and> CITRA_PAGE_SIZE dvd snd i \<and> fst i < snd i \<and> snd i \<le> FCRAM_N3DS_SIZE \<and> fcram_blocks bs"
  by (auto simp: fcram_blocks_def)

lemma cleared_simps [simp]:
  "cleared {} ms = ms" "fcram_mem (cleared A ms) = fcram_mem ms" "cached_pages (cleared A ms) = cached_pages ms"
  "cleared A (cleared B ms) = cleared (B \<union> A) ms" "fcram_in H (cleared A ms) \<longleftrightarrow> fcram_in H ms"
  by (auto simp: cleared_def fun_eq_iff cached_pages_def IsCached_def fcram_in_def intro!: mem_sys.equality)

lemma put_bytes_zero: "put_bytes h p (replicate n 0) = (\<lambda>q. if p \<le> q \<and> q < p + n then 0 else h q)"
  by (induction n arbitrary: h p) (auto simp: fun_eq_iff)

lemma clear_fcram_cleared: "l \<le> u \<Longrightarrow> u \<le> FCRAM_N3DS_SIZE \<Longrightarrow> clear_fcram l u ms = Some (cleared (span (l, u)) ms)"
  by (auto simp: clear_fcram_def GetFCRAMPointer_def host_write_def put_bytes_zero cleared_def fun_eq_iff intro!: mem_sys.equality)

lemma free_range_kept:
  assumes "free_range vm target (m + n)"
    and "\<forall>a. \<not> (target \<le> a \<and> a < target + m) \<longrightarrow> kept state perms (contents vm a) (contents vm' a)"
  shows "free_range vm' (target + m) n"
  unfolding free_range_def
proof (intro allI impI)
  fix a assume a: "target + m \<le> a \<and> a < target + m + n"
  then have "kept state perms (contents vm a) (contents vm' a)" using assms(2) by simp
  moreover have "type_at vm a = Some VMAFree" using assms(1) a by (simp add: free_range_def)
  ultimately show "type_at vm' a = Some VMAFree" using kept_free by (fastforce simp: type_at_def)
qed

lemma free_range_bound: "vm_inv H cached vm \<Longrightarrow> free_range vm target n \<Longrightarrow> 0 < n \<Longrightarrow> target + n \<le> MAX_ADDRESS"
proof (rule ccontr)
  assume v: "vm_inv H cached vm" "free_range vm target n" "0 < n" and out: "\<not> target + n \<le> MAX_ADDRESS"
  have "contents vm (target + n - 1) = None"
    using attr_map_outside [OF tiles_covers [OF vm_inv_tiles [OF v(1)]], of "target + n - 1"] out by simp
  moreover have "type_at vm (target + n - 1) = Some VMAFree" using v(2,3) by (simp add: free_range_def)
  ultimately show False by (simp add: type_at_def)
qed

lemma map_blocks_spec:
  assumes "fcram_in H ms" "vm_inv H (cached_pages ms) vm" "\<not> is_locked vm" "CITRA_PAGE_SIZE dvd target" "fcram_blocks bs"
    "free_range vm target (total_size bs)"
  shows "\<exists>vm'. map_blocks bs target state perms vm ms = Some (vm', cleared (points bs) ms) \<and>
    vm_inv H (cached_pages ms) vm' \<and> \<not> is_locked vm' \<and>
    (\<forall>k < total_size bs. contents vm' (target + k) = Some (BackingMemory, perms, state, bm_ptr (fcram_mem ms) + block_offset bs k)) \<and>
    (\<forall>a. \<not> (target \<le> a \<and> a < target + total_size bs) \<longrightarrow> kept state perms (contents vm a) (contents vm' a))"
  using assms
proof (induction bs arbitrary: target vm ms)
  case (Cons i bs)
  obtain l u where i: "i = (l, u)" by fastforce
  let ?n = "u - l" and ?ms = "cleared (span (l, u)) ms"
  let ?mem = "\<lparr>mr_backing = Some (fcram_mem ms), mr_offset = l\<rparr>"
  have b: "CITRA_PAGE_SIZE dvd l" "CITRA_PAGE_SIZE dvd u" "l < u" "u \<le> FCRAM_N3DS_SIZE" "fcram_blocks bs"
    using Cons.prems(5) by (simp_all add: i)
  have hl: "host_layout H" using Cons.prems(1) by (simp add: fcram_in_def)
  have al: "CITRA_PAGE_SIZE dvd ?n" "0 < ?n" using b by (simp_all add: dvd_diff_nat)
  have ref: "ref_covers H ?mem ?n" using b(3,4) Cons.prems(1) by (auto simp: ref_covers_def fcram_in_def)
  have fr: "free_range vm target ?n" using Cons.prems(6) by (auto simp: free_range_def i)
  obtain vm1 where m: "map_protect (cached_pages ms) target ?mem ?n state perms vm = Some vm1" "vm_inv H (cached_pages ms) vm1" "\<not> is_locked vm1"
    and c1: "\<forall>a. target \<le> a \<and> a < target + ?n \<longrightarrow> contents vm1 a = Some (BackingMemory, perms, state, GetPtr ?mem + (a - target))"
    and k1: "\<forall>a. \<not> (target \<le> a \<and> a < target + ?n) \<longrightarrow> kept state perms (contents vm a) (contents vm1 a)"
    by (rule map_protect_spec [OF hl Cons.prems(2-4) al ref fr, where state = state and perms = perms]) blast
  have bound: "target + total_size (i # bs) \<le> MAX_ADDRESS" using free_range_bound [OF Cons.prems(2,6)] al by (simp add: i)
  then have add: "add32 target ?n = target + ?n" by (simp add: add32_small i MAX_ADDRESS_def)
  have "free_range vm1 (target + ?n) (total_size bs)" using free_range_kept [OF _ k1, of "total_size bs"] Cons.prems(6) by (simp add: i)
  then obtain vm' where t: "map_blocks bs (target + ?n) state perms vm1 ?ms = Some (vm', cleared (points bs) ?ms)"
      "vm_inv H (cached_pages ms) vm'" "\<not> is_locked vm'"
    and c2: "\<forall>k < total_size bs. contents vm' (target + ?n + k) = Some (BackingMemory, perms, state, bm_ptr (fcram_mem ms) + block_offset bs k)"
    and k2: "\<forall>a. \<not> (target + ?n \<le> a \<and> a < target + ?n + total_size bs) \<longrightarrow> kept state perms (contents vm1 a) (contents vm' a)"
    using Cons.IH [of ?ms vm1 "target + ?n"] Cons.prems(1,4) m(2,3) b(5) al(1) by auto
  have "map_blocks (i # bs) target state perms vm ms = Some (vm', cleared (points (i # bs)) ms)"
    using t(1) m(1) b(3,4) add by (simp add: i clear_fcram_cleared GetFCRAMRef_def)
  moreover have "contents vm' (target + k) = Some (BackingMemory, perms, state, bm_ptr (fcram_mem ms) + block_offset (i # bs) k)"
    if k: "k < total_size (i # bs)" for k
  proof (cases "k < ?n")
    case True
    then have "contents vm1 (target + k) = Some (BackingMemory, perms, state, bm_ptr (fcram_mem ms) + (l + k))"
      using c1 by (simp add: GetPtr_def)
    moreover have "kept state perms (contents vm1 (target + k)) (contents vm' (target + k))" using k2 True by simp
    ultimately show ?thesis using True by (auto simp: i dest: kept_done)
  next
    case False
    then show ?thesis using c2 [rule_format, of "k - ?n"] k by (simp add: i)
  qed
  moreover have "kept state perms (contents vm a) (contents vm' a)" if "\<not> (target \<le> a \<and> a < target + total_size (i # bs))" for a
  proof -
    have "\<not> (target \<le> a \<and> a < target + ?n)" "\<not> (target + ?n \<le> a \<and> a < target + ?n + total_size bs)" using that by (auto simp: i)
    then show ?thesis using k1 k2 kept_trans by blast
  qed
  ultimately show ?case using t(2,3) by blast
qed simp

section \<open>Sets of whole pages\<close>

definition paged :: "nat set \<Rightarrow> bool" where
  "paged A \<longleftrightarrow> (\<forall>x. x \<in> A \<longleftrightarrow> x div CITRA_PAGE_SIZE * CITRA_PAGE_SIZE \<in> A)"

lemma paged_same: "paged A \<Longrightarrow> x div CITRA_PAGE_SIZE = y div CITRA_PAGE_SIZE \<Longrightarrow> x \<in> A \<longleftrightarrow> y \<in> A"
  unfolding paged_def by metis

lemma paged_ops [simp]: "paged {}" "paged A \<Longrightarrow> paged B \<Longrightarrow> paged (A \<union> B)" "paged A \<Longrightarrow> paged B \<Longrightarrow> paged (A - B)"
  unfolding paged_def by blast+

lemma paged_range: "CITRA_PAGE_SIZE dvd l \<Longrightarrow> CITRA_PAGE_SIZE dvd u \<Longrightarrow> paged {l..<u}"
proof -
  assume "CITRA_PAGE_SIZE dvd l" "CITRA_PAGE_SIZE dvd u"
  then obtain a b where "l = CITRA_PAGE_SIZE * a" "u = CITRA_PAGE_SIZE * b" unfolding dvd_def by blast
  then show ?thesis unfolding paged_def
    by (simp add: mult.commute [of CITRA_PAGE_SIZE] less_eq_div_iff_mult_less_eq div_less_iff_less_mult)
qed

lemma pred_page: "\<not> CITRA_PAGE_SIZE dvd x \<Longrightarrow> 0 < x \<and> (x - 1) div CITRA_PAGE_SIZE = x div CITRA_PAGE_SIZE"
  by (cases x) (auto simp: div_Suc dvd_eq_mod_eq_0)

lemma canonical_gap:
  assumes "canonical bs" "i \<in> set bs"
  shows "snd i \<notin> points bs" "0 < fst i \<Longrightarrow> fst i - 1 \<notin> points bs"
proof -
  obtain xs ys where "bs = xs @ i # ys" using assms(2) by (meson split_list)
  then show "snd i \<notin> points bs" "0 < fst i \<Longrightarrow> fst i - 1 \<notin> points bs"
    using assms(1) by (fastforce simp: canonical_append canonical_Cons points_def)+
qed

lemma paged_blocks:
  assumes c: "canonical bs" and p: "paged (points bs)" and i: "i \<in> set bs"
  shows "CITRA_PAGE_SIZE dvd fst i" "CITRA_PAGE_SIZE dvd snd i"
proof -
  have lt: "fst i < snd i" using c i by (simp add: canonical_def)
  have ins: "x \<in> points bs" if "fst i \<le> x" "x < snd i" for x using i that by (auto simp: points_def)
  show "CITRA_PAGE_SIZE dvd fst i"
    using pred_page [of "fst i"] canonical_gap(2) [OF c i] paged_same [OF p, of "fst i - 1" "fst i"] ins [of "fst i"] lt by blast
  show "CITRA_PAGE_SIZE dvd snd i"
    using pred_page [of "snd i"] canonical_gap(1) [OF c i] paged_same [OF p, of "snd i - 1" "snd i"] ins [of "snd i - 1"] lt by fastforce
qed

lemma set_spans: "set (concat (map (\<lambda>i. [fst i..<snd i]) bs)) = points bs"
  by (auto simp: points_def)

lemma sorted_spans:
  "canonical bs \<Longrightarrow> sorted_wrt (<) (concat (map (\<lambda>i. [fst i..<snd i]) bs))"
  by (induction bs) (fastforce simp: canonical_Cons sorted_wrt_append)+

text \<open>The addresses of a canonical list of blocks in ascending order.\<close>

lemma sorted_points:
  "canonical bs \<Longrightarrow> sorted_list_of_set (points bs) = concat (map (\<lambda>i. [fst i..<snd i]) bs)"
  using sorted_spans [of bs] sorted_list_of_set.idem_if_sorted_distinct [of "concat (map (\<lambda>i. [fst i..<snd i]) bs)"]
  unfolding set_spans by (simp add: strict_sorted_iff)

lemma block_offset_nth:
  "k < total_size bs \<Longrightarrow> block_offset bs k = concat (map (\<lambda>i. [fst i..<snd i]) bs) ! k"
  by (induction bs k rule: block_offset.induct) (auto simp: nth_append)

lemma length_spans: "length (concat (map (\<lambda>i. [fst i..<snd i]) bs)) = total_size bs"
  by (induction bs) simp_all

lemma block_offset_sorted:
  assumes "canonical bs"
  shows "total_size bs = card (points bs)" "k < total_size bs \<Longrightarrow> block_offset bs k = sorted_list_of_set (points bs) ! k"
  using length_spans [of bs] block_offset_nth [of k bs] sorted_points [OF assms] length_sorted_list_of_set [of "points bs"] by simp_all

section \<open>Well-formed processes\<close>

abbreviation held :: "'s icl \<Rightarrow> 's process \<Rightarrow> nat set" where
  "held I p \<equiv> points (icl_blocks I (holding_memory p))"

abbreviation tls_held :: "'s icl \<Rightarrow> 's process \<Rightarrow> nat set" where
  "tls_held I p \<equiv> points (icl_blocks I (holding_tls_memory p))"

definition region_ok :: "'s icl \<Rightarrow> 's region \<Rightarrow> bool" where
  "region_ok I r \<longleftrightarrow> region_inv I r \<and> \<not> rg_locked r \<and> rg_base r + rg_size r \<le> FCRAM_N3DS_SIZE \<and> paged (free_points I r)"

text \<open>A set of addresses that a process holds in a region.\<close>

definition held_in :: "'s icl \<Rightarrow> 's region \<Rightarrow> nat set \<Rightarrow> bool" where
  "held_in I r A \<longleftrightarrow> A \<subseteq> {rg_base r..<rg_base r + rg_size r} \<and> A \<inter> free_points I r = {} \<and> paged A"

definition proc_inv :: "'s icl \<Rightarrow> backing_mem set \<Rightarrow> memory_region_id \<Rightarrow> 's process \<Rightarrow> bool" where
  "proc_inv I H k p \<longleftrightarrow>
     fcram_in H (pr_mem p) \<and> vm_inv H (cached_pages (pr_mem p)) (pr_vm p) \<and> \<not> is_locked (pr_vm p) \<and>
     pr_region p = Some k \<and> (\<exists>rl. pr_limit p = Some rl \<and> rl_inv rl) \<and>
     (\<forall>j. region_ok I (regions p j)) \<and> held_in I (regions p k) (held I p) \<and> held_in I (regions p BASE) (tls_held I p) \<and>
     (k = BASE \<longrightarrow> held I p \<inter> tls_held I p = {}) \<and> memory_used p = card (held I p) + card (tls_held I p)"

text \<open>The committed memory that the resource limit of the process records.\<close>

definition committed :: "'s process \<Rightarrow> int" where
  "committed p = (case pr_limit p of None \<Rightarrow> 0 | Some rl \<Rightarrow> m_current_values rl ! rl_index RL_Commit)"

lemma proc_inv_regions: "proc_inv I H k p \<Longrightarrow> region_inv I (regions p j) \<and> \<not> rg_locked (regions p j) \<and>
    rg_base (regions p j) + rg_size (regions p j) \<le> FCRAM_N3DS_SIZE \<and> paged (free_points I (regions p j))"
  by (simp add: proc_inv_def region_ok_def)

lemma held_in_card: "held_in I r A \<Longrightarrow> region_inv I r \<Longrightarrow> card A \<le> rg_used r"
proof -
  assume h: "held_in I r A" and inv: "region_inv I r"
  have "A \<union> free_points I r \<subseteq> {rg_base r..<rg_base r + rg_size r}" using h inv by (auto simp: held_in_def region_inv_def)
  then have "card (A \<union> free_points I r) \<le> rg_size r" using card_mono [of "{rg_base r..<rg_base r + rg_size r}"] by simp
  moreover have "finite A" using h finite_subset by (auto simp: held_in_def)
  then have "card (A \<union> free_points I r) = card A + card (free_points I r)"
    using h by (intro card_Un_disjoint) (auto simp: held_in_def)
  ultimately show ?thesis using inv by (simp add: region_inv_def)
qed

lemma memory_used_bound: "proc_inv I H k p \<Longrightarrow> memory_used p \<le> 2 * FCRAM_N3DS_SIZE"
proof -
  assume inv: "proc_inv I H k p"
  have "card (held I p) \<le> rg_used (regions p k)" "card (tls_held I p) \<le> rg_used (regions p BASE)"
    using inv held_in_card proc_inv_regions [OF inv] by (auto simp: proc_inv_def)
  moreover have "rg_used (regions p j) \<le> FCRAM_N3DS_SIZE" for j
    using proc_inv_regions [OF inv, of j] by (simp add: region_inv_def)
  ultimately show ?thesis using inv by (simp add: proc_inv_def) (metis add_mono le_trans mult_2)
qed

text \<open>The bookkeeping on the resource limit never fails and is undone by the opposite operation.\<close>

lemma commit_Reserve:
  assumes "pr_limit p = Some rl" "rl_inv rl"
  obtains rl' where "commit Reserve sz p = Some (p\<lparr>pr_limit := Some rl'\<rparr>)" "rl_inv rl'"
    "m_current_values rl' ! rl_index RL_Commit = s32 (m_current_values rl ! rl_index RL_Commit + int sz)"
    "\<And>q. pr_limit q = Some rl' \<Longrightarrow> commit Release sz q = Some (q\<lparr>pr_limit := Some rl\<rparr>)"
proof -
  have s: "s32 (a + s32 b) = s32 (a + b)" for a b unfolding s32_def by (simp add: algebra_simps mod_simps)
  obtain rl' where "Reserve (rl_index RL_Commit) (s32 (int sz)) rl = Some (True, rl')" "rl_inv rl'"
    "GetCurrentValue (rl_index RL_Commit) rl' = Some (s32 (m_current_values rl ! rl_index RL_Commit + s32 (int sz)))"
    "Release (rl_index RL_Commit) (s32 (int sz)) rl' = Some (True, rl)"
    using Reserve_effect [OF assms(2), of RL_Commit "s32 (int sz)"] by blast
  then show thesis using that [of rl'] assms(1) by (simp add: commit_def GetCurrentValue_def s RL_Max_def)
qed

lemma check_unused_free:
  assumes inv: "vm_inv H cached vm" and b: "target < MAX_ADDRESS" "0 < sz" "target + sz < 2 ^ 32"
  shows "check_unused target sz vm = Some (free_range vm target sz)"
proof -
  note t = vm_inv_tiles [OF inv]
  obtain xs v ys where v: "vma_map vm = xs @ v # ys" "inside target v" "FindVMA (vma_map vm) target = length xs"
    using FindVMA_obtain [OF tiles_covers [OF t] b(1)] by blast
  have e: "vend v \<le> MAX_ADDRESS" using covers_mem [OF tiles_covers [OF t], of v] v(1) by simp
  have "free_range vm target sz \<longleftrightarrow> vtype v = VMAFree \<and> target + sz \<le> vend v"
  proof
    assume "vtype v = VMAFree \<and> target + sz \<le> vend v"
    then have "type_at vm a = Some VMAFree" if "target \<le> a" "a < target + sz" for a
      using type_at_in [OF t, of v a] v(1,2) that by (simp add: inside_def)
    then show "free_range vm target sz" by (simp add: free_range_def)
  qed (use free_range_one_area [OF inv v(1,2) _ b(2)] in blast)
  then show ?thesis using v e b(3) by (auto simp: check_unused_def vend_def add32_small MAX_ADDRESS_def Let_def)
qed

lemma in_heap_area_iff: "target < 2 ^ 32 \<Longrightarrow> sz < 2 ^ 32 \<Longrightarrow> in_heap_area target sz \<longleftrightarrow> HEAP_VADDR \<le> target \<and> target + sz \<le> HEAP_VADDR_END"
  by (auto simp: in_heap_area_def HEAP_VADDR_def HEAP_VADDR_END_def add32_def mod_if)

context interval_set
begin

text \<open>What a successful allocation does to the invariant, whichever way the memory was found.\<close>

lemma proc_inv_take:
  assumes inv: "proc_inv I H k p" and A: "A \<subseteq> free_points I (regions p k)" "paged A"
    and r: "region_inv I r" "\<not> rg_locked r" "free_points I r = free_points I (regions p k) - A"
      "rg_base r = rg_base (regions p k)" "rg_size r = rg_size (regions p k)"
    and p': "pr_mem p' = cleared A (pr_mem p)" "vm_inv H (cached_pages (pr_mem p)) (pr_vm p')" "\<not> is_locked (pr_vm p')"
      "pr_region p' = Some k" "pr_limit p' = Some rl" "rl_inv rl" "regions p' = (regions p)(k := r)" "held I p' = held I p \<union> A"
      "tls_held I p' = tls_held I p" "memory_used p' = add32 (memory_used p) (card A)"
  shows "proc_inv I H k p'" "memory_used p' = memory_used p + card A"
proof -
  note reg = proc_inv_regions [OF inv]
  have fin: "finite A" using A(1) finite_subset free_points_finite by blast
  have dis: "held I p \<inter> A = {}" using inv A(1) by (auto simp: proc_inv_def held_in_def)
  have sub: "A \<subseteq> {rg_base (regions p k)..<rg_base (regions p k) + rg_size (regions p k)}" using reg [of k] A(1) by (auto simp: region_inv_def)
  have "card A \<le> FCRAM_N3DS_SIZE" using card_mono [OF _ sub] reg [of k] by simp
  then have mu: "add32 (memory_used p) (card A) = memory_used p + card A"
    using memory_used_bound [OF inv] by (simp add: add32_small FCRAM_N3DS_SIZE_def)
  then show "memory_used p' = memory_used p + card A" using p'(10) by simp
  have ok: "\<forall>j. region_ok I (regions p' j)" using inv r A(2) reg [of k] p'(7) by (auto simp: proc_inv_def region_ok_def)
  have h: "held_in I (regions p' k) (held I p \<union> A)" using inv A sub r(3-5) p'(7) by (auto simp: proc_inv_def held_in_def)
  have t: "held_in I (regions p' BASE) (tls_held I p)" "k = BASE \<longrightarrow> A \<inter> tls_held I p = {}"
    using inv A(1) r(3-5) p'(7) by (auto simp: proc_inv_def held_in_def)
  have "card (held I p \<union> A) = card (held I p) + card A" using dis fin by (simp add: card_Un_disjoint)
  then show "proc_inv I H k p'"
    unfolding proc_inv_def p'(8,9) using ok h t inv mu p' by (auto simp: proc_inv_def Int_Un_distrib2)
qed

lemma heap_loop_paged:
  assumes "\<forall>i \<in> set bs. CITRA_PAGE_SIZE dvd fst i \<and> CITRA_PAGE_SIZE dvd snd i" "CITRA_PAGE_SIZE dvd rest" "paged (points (icl_blocks I result))"
  shows "paged (points (icl_blocks I (fst (heap_loop I bs result rest))))"
  using assms
proof (induction bs arbitrary: result rest)
  case (Cons i bs)
  obtain l u where i: "i = (l, u)" by fastforce
  have "paged (span (l, u))" "u - l \<ge> rest \<Longrightarrow> paged (span (u - rest, u))"
    using Cons.prems(1,2) by (simp_all add: i span_def paged_range dvd_diff_nat)
  then show ?case using Cons by (simp add: i add_points dvd_diff_nat)
qed simp

lemma region_HeapAllocate_paged:
  assumes "paged (free_points I r)" "CITRA_PAGE_SIZE dvd sz" "region_HeapAllocate I sz r = Some (s, r')"
  shows "paged (points (icl_blocks I s))"
proof -
  have "\<forall>i \<in> set (rev (icl_blocks I (free_blocks r))). CITRA_PAGE_SIZE dvd fst i \<and> CITRA_PAGE_SIZE dvd snd i"
    using paged_blocks [OF free_canonical(1), of r] assms(1) by (simp add: free_points_def)
  then show ?thesis
    using heap_loop_paged [of "rev (icl_blocks I (free_blocks r))" sz "icl_empty I"] assms(2,3) empty_points
    by (auto simp: region_HeapAllocate_def split: if_splits prod.splits)
qed

lemma fcram_blocks_in:
  assumes "paged (points bs)" "canonical bs" "points bs \<subseteq> {b..<b + n}" "b + n \<le> FCRAM_N3DS_SIZE"
  shows "fcram_blocks bs"
  unfolding fcram_blocks_def
proof
  fix i assume i: "i \<in> set bs"
  have lt: "fst i < snd i" using assms(2) i by (simp add: canonical_def)
  then have "snd i - 1 \<in> points bs" using i by (force simp: points_def)
  then have "snd i - 1 < b + n" using assms(3) by auto
  then show "CITRA_PAGE_SIZE dvd fst i \<and> CITRA_PAGE_SIZE dvd snd i \<and> fst i < snd i \<and> snd i \<le> FCRAM_N3DS_SIZE"
    using paged_blocks [OF assms(2,1) i] lt assms(4) by linarith
qed

lemma HeapAllocate_found:
  assumes inv: "proc_inv I H k p" and al: "CITRA_PAGE_SIZE dvd target" "CITRA_PAGE_SIZE dvd sz" "0 < sz"
    and b: "target < MAX_ADDRESS" "target + sz < 2 ^ 32" "in_heap_area target sz \<or> skip"
    and free: "free_range (pr_vm p) target sz" and enough: "sz \<le> card (free_points I (regions p k))"
  shows "\<exists>p' A. HeapAllocate I target sz perms state skip p = Ok p' target \<and> proc_inv I H k p' \<and>
    A \<subseteq> free_points I (regions p k) \<and> card A = sz \<and> (\<forall>x \<in> A. \<forall>y \<in> free_points I (regions p k) - A. y < x) \<and>
    free_points I (regions p' k) = free_points I (regions p k) - A \<and> held I p' = held I p \<union> A \<and>
    pr_mem p' = cleared A (pr_mem p) \<and> memory_used p' = memory_used p + sz \<and> committed p' = s32 (committed p + int sz) \<and>
    (\<forall>n < sz. contents (pr_vm p') (target + n) =
      Some (BackingMemory, perms, state, bm_ptr (fcram_mem (pr_mem p)) + sorted_list_of_set A ! n)) \<and>
    (\<forall>a. \<not> (target \<le> a \<and> a < target + sz) \<longrightarrow> kept state perms (contents (pr_vm p) a) (contents (pr_vm p') a))"
proof -
  obtain rl where p: "pr_region p = Some k" "pr_limit p = Some rl" "rl_inv rl" "fcram_in H (pr_mem p)"
    "vm_inv H (cached_pages (pr_mem p)) (pr_vm p)" "\<not> is_locked (pr_vm p)" using inv by (auto simp: proc_inv_def)
  obtain s r where s: "region_HeapAllocate I sz (regions p k) = Some (s, r)" "region_inv I r" "rg_base r = rg_base (regions p k)"
    "rg_size r = rg_size (regions p k)" "\<not> rg_locked r" "points (icl_blocks I s) \<subseteq> free_points I (regions p k)"
    "card (points (icl_blocks I s)) = sz" "free_points I r = free_points I (regions p k) - points (icl_blocks I s)"
    "\<forall>x \<in> points (icl_blocks I s). \<forall>y \<in> free_points I r. y < x"
    using heap_allocate [of "regions p k" sz] proc_inv_regions [OF inv, of k] enough by auto
  let ?A = "points (icl_blocks I s)"
  have pg: "paged ?A" using region_HeapAllocate_paged [OF _ al(2) s(1)] proc_inv_regions [OF inv, of k] by blast
  have "?A \<subseteq> {rg_base (regions p k)..<rg_base (regions p k) + rg_size (regions p k)}"
    using s(6) proc_inv_regions [OF inv, of k] by (auto simp: region_inv_def)
  then have fb: "fcram_blocks (icl_blocks I s)"
    using fcram_blocks_in [OF pg blocks_canonical] proc_inv_regions [OF inv, of k] by blast
  note so = block_offset_sorted [OF blocks_canonical [of s], unfolded s(7)]
  obtain vm where vm: "map_blocks (icl_blocks I s) target state perms (pr_vm p) (pr_mem p) = Some (vm, cleared ?A (pr_mem p))"
    "vm_inv H (cached_pages (pr_mem p)) vm" "\<not> is_locked vm"
    "\<forall>n < sz. contents vm (target + n) = Some (BackingMemory, perms, state, bm_ptr (fcram_mem (pr_mem p)) + block_offset (icl_blocks I s) n)"
    "\<forall>a. \<not> (target \<le> a \<and> a < target + sz) \<longrightarrow> kept state perms (contents (pr_vm p) a) (contents vm a)"
    using map_blocks_spec [OF p(4-6) al(1) fb, of state perms] free unfolding so(1) by blast
  let ?p = "(set_region r k p)\<lparr>pr_vm := vm, pr_mem := cleared ?A (pr_mem p), holding_memory := icl_plus I (holding_memory p) s,
      memory_used := add32 (memory_used p) sz\<rparr>"
  obtain rl' where rl': "commit Reserve sz ?p = Some (?p\<lparr>pr_limit := Some rl'\<rparr>)" "rl_inv rl'"
    "m_current_values rl' ! rl_index RL_Commit = s32 (m_current_values rl ! rl_index RL_Commit + int sz)"
    by (rule commit_Reserve [of ?p rl sz]) (use p in \<open>simp_all add: set_region_def\<close>)
  let ?q = "?p\<lparr>pr_limit := Some rl'\<rparr>"
  have ne: "icl_blocks I s \<noteq> []" using s(7) al(3) by auto
  have "HeapAllocate I target sz perms state skip p = Ok ?q target"
    using b(3) check_unused_free [OF p(5) b(1) al(3) b(2)] free p(1) s(1) ne vm(1) rl'(1)
    by (auto simp: HeapAllocate_def orCrash_def set_region_def Let_def)
  moreover have "proc_inv I H k ?q" "memory_used ?q = memory_used p + card ?A"
    by (rule proc_inv_take [OF inv s(6) pg s(2,5,8,3,4), of ?q rl'];
        use vm rl' p s(7) in \<open>simp add: set_region_def plus_points\<close>)+
  moreover have "committed ?q = s32 (committed p + int sz)" using p(2) rl'(3) by (simp add: committed_def)
  moreover have "held I ?q = held I p \<union> ?A" "free_points I (regions ?q k) = free_points I (regions p k) - ?A"
    using s(8) by (simp_all add: plus_points set_region_def)
  moreover have "\<forall>n < sz. contents (pr_vm ?q) (target + n) =
      Some (BackingMemory, perms, state, bm_ptr (fcram_mem (pr_mem p)) + sorted_list_of_set ?A ! n)"
    using vm(4) so by simp
  ultimately show ?thesis using s(6,7,9) vm(5) unfolding s(8)
    by (intro exI [of _ ?q] exI [of _ ?A]) simp
qed

end

section \<open>Releasing memory\<close>

text \<open>The offsets in FCRAM of the memory behind a range.\<close>

definition offsets_of :: "'s process \<Rightarrow> nat \<Rightarrow> nat \<Rightarrow> nat list" where
  "offsets_of p target sz = map (\<lambda>a. host_ptr (pr_vm p) a - bm_ptr (fcram_mem (pr_mem p))) [target..<target + sz]"

lemma GetBackingBlocks_good:
  assumes "vm_inv H cached vm" "CITRA_PAGE_SIZE dvd target" "CITRA_PAGE_SIZE dvd sz" "target + sz \<le> MAX_ADDRESS"
    "GetBackingBlocksForRange target sz vm = Ok () bs"
  shows "\<forall>b \<in> set bs. good_block H b"
proof -
  have e: "add32 target sz = target + sz" using assms(4) by (simp add: add32_small MAX_ADDRESS_def)
  show ?thesis
    using backing_blocks_good [OF vm_inv_tiles [OF assms(1)] assms(4), of "loop_fuel vm" target "[]" bs] assms(2,3,5)
    by (simp add: GetBackingBlocksForRange_def e)
qed

context interval_set
begin

lemma free_blocks_of_spec:
  assumes "region_inv I r" "\<not> rg_locked r" "rg_base r + rg_size r \<le> FCRAM_N3DS_SIZE" "\<forall>b \<in> set bs. 0 < snd b" "distinct (expand bs)"
    "\<forall>h \<in> set (expand bs). bm_ptr (fcram_mem ms) \<le> h \<and> h - bm_ptr (fcram_mem ms) \<in> {rg_base r..<rg_base r + rg_size r} - free_points I r"
  shows "\<exists>r' s'. free_blocks_of I ms bs r s = Some (r', s') \<and> region_inv I r' \<and> \<not> rg_locked r' \<and> rg_base r' = rg_base r \<and> rg_size r' = rg_size r \<and>
    free_points I r' = free_points I r \<union> (\<lambda>h. h - bm_ptr (fcram_mem ms)) ` set (expand bs) \<and>
    points (icl_blocks I s') = points (icl_blocks I s) - (\<lambda>h. h - bm_ptr (fcram_mem ms)) ` set (expand bs)"
  using assms
proof (induction bs arbitrary: r s)
  case Nil
  then show ?case by (simp add: expand_def)
next
  case (Cons b bs)
  obtain mem n where b: "b = (mem, n)" by fastforce
  let ?ptr = "bm_ptr (fcram_mem ms)" and ?off = "GetPtr mem - bm_ptr (fcram_mem ms)"
  let ?S = "set (map (\<lambda>k. GetPtr mem + k) [0..<n])"
  have n: "0 < n" using Cons.prems(4) by (simp add: b)
  have ex: "set (expand (b # bs)) = ?S \<union> set (expand bs)" by (simp add: b expand_Cons)
  have "GetPtr mem \<in> ?S" using n by force
  then have ge: "?ptr \<le> GetPtr mem" using Cons.prems(6) unfolding ex by blast
  have img: "(\<lambda>h. h - ?ptr) ` ?S = {?off..<?off + n}"
  proof -
    have "(\<lambda>h. h - ?ptr) ` ?S = (\<lambda>k. ?off + k) ` {0..<n}" 
      unfolding set_map image_image set_upt by (rule image_cong) (use ge in auto)
    then show ?thesis by (simp add: add.commute)
  qed
  have rng: "{?off..<?off + n} \<subseteq> {rg_base r..<rg_base r + rg_size r}" "{?off..<?off + n} \<inter> free_points I r = {}"
    using Cons.prems(6) unfolding img [symmetric] ex by blast+
  obtain r1 where r1: "region_Free I ?off n r = Some r1" "region_inv I r1" "\<not> rg_locked r1"
    "free_points I r1 = free_points I r \<union> {?off..<?off + n}" "rg_base r1 = rg_base r" "rg_size r1 = rg_size r"
    using free_range [OF Cons.prems(1,2) rng n] by blast
  have "?off + n - 1 \<in> {?off..<?off + n}" using n by simp
  then have le: "?off + n \<le> FCRAM_N3DS_SIZE" using rng(1) Cons.prems(3) by fastforce
  then have off: "GetFCRAMOffset ms (GetPtr mem) = Some ?off" "add32 ?off n = ?off + n"
    using ge by (auto simp: GetFCRAMOffset_def add32_small FCRAM_N3DS_SIZE_def)
  have dis: "distinct (expand bs)" "?S \<inter> set (expand bs) = {}" using Cons.prems(5) by (auto simp: b expand_Cons)
  have rest: "?ptr \<le> h \<and> h - ?ptr \<in> {rg_base r1..<rg_base r1 + rg_size r1} - free_points I r1" if h: "h \<in> set (expand bs)" for h
  proof -
    have hp: "?ptr \<le> h" "h - ?ptr \<in> {rg_base r..<rg_base r + rg_size r} - free_points I r" using Cons.prems(6) h unfolding ex by blast+
    have "h - ?ptr \<notin> {?off..<?off + n}"
    proof
      assume "h - ?ptr \<in> {?off..<?off + n}"
      then have "h = GetPtr mem + (h - ?ptr - ?off)" "h - ?ptr - ?off < n" using hp(1) ge by auto
      then have "h \<in> ?S" by force
      then show False using dis(2) h by blast
    qed
    then show ?thesis using hp by (simp add: r1(4-6))
  qed
  obtain r' s' where t: "free_blocks_of I ms bs r1 (icl_sub I (?off, ?off + n) s) = Some (r', s')" "region_inv I r'" "\<not> rg_locked r'"
    "rg_base r' = rg_base r1" "rg_size r' = rg_size r1"
    "free_points I r' = free_points I r1 \<union> (\<lambda>h. h - ?ptr) ` set (expand bs)"
    "points (icl_blocks I s') = points (icl_blocks I (icl_sub I (?off, ?off + n) s)) - (\<lambda>h. h - ?ptr) ` set (expand bs)"
    using Cons.IH [OF r1(2,3) _ _ dis(1), of "icl_sub I (?off, ?off + n) s"] Cons.prems(3,4) rest r1(5,6) by auto
  have "free_blocks_of I ms (b # bs) r s = Some (r', s')" using r1(1) off t(1) by (simp add: b)
  moreover have "(\<lambda>h. h - ?ptr) ` set (expand (b # bs)) = {?off..<?off + n} \<union> (\<lambda>h. h - ?ptr) ` set (expand bs)"
    unfolding ex image_Un img ..
  ultimately show ?case using t(2-7) r1(4-6) by (auto simp: sub_points span_def)
qed

text \<open>What a release does to the invariant.\<close>

lemma proc_inv_give:
  assumes inv: "proc_inv I H k p" and A: "A \<subseteq> held I p" "paged A"
    and r: "region_inv I r" "\<not> rg_locked r" "free_points I r = free_points I (regions p k) \<union> A"
      "rg_base r = rg_base (regions p k)" "rg_size r = rg_size (regions p k)"
    and p': "pr_mem p' = pr_mem p" "vm_inv H (cached_pages (pr_mem p)) (pr_vm p')" "\<not> is_locked (pr_vm p')"
      "pr_region p' = Some k" "pr_limit p' = Some rl" "rl_inv rl" "regions p' = (regions p)(k := r)" "held I p' = held I p - A"
      "tls_held I p' = tls_held I p" "memory_used p' = sub32 (memory_used p) (card A)"
  shows "proc_inv I H k p'" "memory_used p' + card A = memory_used p"
proof -
  note reg = proc_inv_regions [OF inv]
  have le: "card A \<le> card (held I p)" using A(1) card_mono finite_points(1) by blast
  then have c: "card (held I p - A) = card (held I p) - card A" using A(1) card_Diff_subset finite_subset finite_points(1) by metis
  have mu: "sub32 (memory_used p) (card A) = memory_used p - card A" "card A \<le> memory_used p"
    using memory_used_bound [OF inv] inv le by (auto simp: sub32_small FCRAM_N3DS_SIZE_def proc_inv_def)
  then show "memory_used p' + card A = memory_used p" using p'(10) by simp
  have ok: "\<forall>j. region_ok I (regions p' j)" using inv r A(2) reg [of k] p'(7) by (auto simp: proc_inv_def region_ok_def)
  have h: "held_in I (regions p' k) (held I p - A)" using inv A r(3-5) p'(7) by (auto simp: proc_inv_def held_in_def)
  have t: "held_in I (regions p' BASE) (tls_held I p)"
    using inv A(1) r(3-5) p'(7) by (auto simp: proc_inv_def held_in_def)
  then show "proc_inv I H k p'"
    unfolding proc_inv_def p'(8,9) using ok h inv mu p' c le by (auto simp: proc_inv_def)
qed

lemma commit_Release:
  assumes "pr_limit p = Some rl" "rl_inv rl"
  obtains rl' where "commit Release sz p = Some (p\<lparr>pr_limit := Some rl'\<rparr>)" "rl_inv rl'"
    "m_current_values rl' ! rl_index RL_Commit = s32 (m_current_values rl ! rl_index RL_Commit - int sz)"
proof -
  have s: "s32 (a - s32 b) = s32 (a - b)" for a b unfolding s32_def by (simp add: algebra_simps mod_simps)
  let ?rl = "rl\<lparr>m_current_values := (m_current_values rl)[rl_index RL_Commit := s32 (m_current_values rl ! rl_index RL_Commit - int sz)]\<rparr>"
  have "rl_inv ?rl" using assms(2) set_update_subset_insert [of "m_current_values rl"] s32_range unfolding rl_inv_def by fastforce
  moreover have "commit Release sz p = Some (p\<lparr>pr_limit := Some ?rl\<rparr>)"
    using assms(1) by (simp add: commit_def Release_def s RL_Max_def Let_def)
  ultimately show thesis using that [of ?rl] assms(2) by (simp add: rl_inv_def RL_Max_def)
qed

text \<open>\<^verbatim>\<open>HeapFree\<close> on a range whose memory the process holds, each byte of it mapped once in the range.\<close>

lemma HeapFree_held:
  assumes inv: "proc_inv I H k p" and al: "CITRA_PAGE_SIZE dvd target" "CITRA_PAGE_SIZE dvd sz" "0 < sz"
    and b: "target < 2 ^ 32" "sz < 2 ^ 32" "in_heap_area target sz" and nf: "no_free_in (pr_vm p) target sz"
    and own: "distinct (offsets_of p target sz)" "set (offsets_of p target sz) \<subseteq> held I p"
      "\<forall>a. target \<le> a \<and> a < target + sz \<longrightarrow> bm_ptr (fcram_mem (pr_mem p)) \<le> host_ptr (pr_vm p) a"
    and pg: "paged (set (offsets_of p target sz))"
  shows "\<exists>p'. HeapFree I target sz p = Ok p' () \<and> proc_inv I H k p' \<and> pr_mem p' = pr_mem p \<and>
    free_points I (regions p' k) = free_points I (regions p k) \<union> set (offsets_of p target sz) \<and>
    held I p' = held I p - set (offsets_of p target sz) \<and> memory_used p' + sz = memory_used p \<and>
    committed p' = s32 (committed p - int sz) \<and>
    contents (pr_vm p') = (\<lambda>a. if target \<le> a \<and> a < target + sz then Some (VMAFree, PermNone, StFree, 0) else contents (pr_vm p) a)"
proof -
  let ?A = "set (offsets_of p target sz)" and ?ptr = "bm_ptr (fcram_mem (pr_mem p))"
  obtain rl where p: "pr_region p = Some k" "pr_limit p = Some rl" "rl_inv rl" "fcram_in H (pr_mem p)"
    "vm_inv H (cached_pages (pr_mem p)) (pr_vm p)" "\<not> is_locked (pr_vm p)" using inv by (auto simp: proc_inv_def)
  have hl: "host_layout H" using p(4) by (simp add: fcram_in_def)
  have rng: "target + sz \<le> MAX_ADDRESS" using b by (simp add: in_heap_area_iff HEAP_VADDR_END_def MAX_ADDRESS_def)
  obtain bs where bs: "GetBackingBlocksForRange target sz (pr_vm p) = Ok () bs" "expand bs = map (host_ptr (pr_vm p)) [target..<target + sz]"
    using GetBackingBlocksForRange_effect [OF p(5) al(3) rng] nf by auto
  have pos: "\<forall>b \<in> set bs. 0 < snd b" using GetBackingBlocks_good [OF p(5) al(1,2) rng bs(1)] by (auto simp: good_block_def)
  have img: "(\<lambda>h. h - ?ptr) ` set (expand bs) = ?A" by (auto simp: bs(2) offsets_of_def)
  have "map (\<lambda>h. h - ?ptr) (expand bs) = offsets_of p target sz" by (simp add: bs(2) offsets_of_def)
  then have dis: "distinct (expand bs)" using own(1) by (metis distinct_map)
  have "?A \<subseteq> {rg_base (regions p k)..<rg_base (regions p k) + rg_size (regions p k)} - free_points I (regions p k)"
    using own(2) inv by (auto simp: proc_inv_def held_in_def)
  moreover have "\<forall>h \<in> set (expand bs). ?ptr \<le> h" using own(3) by (auto simp: bs(2))
  ultimately have inr: "\<forall>h \<in> set (expand bs). ?ptr \<le> h \<and> h - ?ptr \<in> {rg_base (regions p k)..<rg_base (regions p k) + rg_size (regions p k)} - free_points I (regions p k)"
    unfolding img [symmetric] by blast
  note reg = proc_inv_regions [OF inv, of k]
  obtain r s where f: "free_blocks_of I (pr_mem p) bs (regions p k) (holding_memory p) = Some (r, s)" "region_inv I r" "\<not> rg_locked r"
    "rg_base r = rg_base (regions p k)" "rg_size r = rg_size (regions p k)" "free_points I r = free_points I (regions p k) \<union> ?A"
    "points (icl_blocks I s) = held I p - ?A"
    using free_blocks_of_spec [OF _ _ _ pos dis inr, of "holding_memory p"] reg unfolding img by blast
  obtain vm where vm: "UnmapRange (cached_pages (pr_mem p)) target sz (pr_vm p) = Ok vm ()" "vm_inv H (cached_pages (pr_mem p)) vm" "\<not> is_locked vm"
    "contents vm = (\<lambda>a. if target \<le> a \<and> a < target + sz then Some (VMAFree, PermNone, StFree, 0) else contents (pr_vm p) a)"
    using UnmapRange_effect [OF hl p(5,6) al rng] nf by auto
  have cA: "card ?A = sz" using own(1) distinct_card [of "offsets_of p target sz"] by (simp add: offsets_of_def)
  let ?p = "(set_region r k p)\<lparr>pr_vm := vm, holding_memory := s, memory_used := sub32 (memory_used p) sz\<rparr>"
  obtain rl' where rl': "commit Release sz ?p = Some (?p\<lparr>pr_limit := Some rl'\<rparr>)" "rl_inv rl'"
    "m_current_values rl' ! rl_index RL_Commit = s32 (m_current_values rl ! rl_index RL_Commit - int sz)"
    by (rule commit_Release [of ?p rl sz]) (use p in \<open>simp_all add: set_region_def\<close>)
  let ?q = "?p\<lparr>pr_limit := Some rl'\<rparr>"
  have "HeapFree I target sz p = Ok ?q ()"
    using b(3) al(3) bs(1) p(1) f(1) vm(1) rl'(1) by (simp add: HeapFree_def orCrash_def)
  moreover have "proc_inv I H k ?q" "memory_used ?q + card ?A = memory_used p"
    by (rule proc_inv_give [OF inv own(2) pg f(2,3,6,4,5), of ?q rl'];
        use vm rl' p f(7) cA in \<open>simp add: set_region_def\<close>)+
  moreover have "committed ?q = s32 (committed p - int sz)" using p(2) rl'(3) by (simp add: committed_def)
  ultimately show ?thesis using f(6,7) vm(4) cA by (intro exI [of _ ?q]) (simp add: set_region_def)
qed

end

section \<open>Properties\<close>

lemma set_region_same [simp]: "set_region (regions p k) k p = p"
  by (simp add: set_region_def)

lemma distinct_nth_offsets:
  assumes A: "finite A" and host: "\<forall>n < card A. host_ptr (pr_vm p) (target + n) = bm_ptr (fcram_mem (pr_mem p)) + sorted_list_of_set A ! n"
  shows "offsets_of p target (card A) = sorted_list_of_set A"
  using host by (intro nth_equalityI) (simp_all add: offsets_of_def)

lemma free_contents:
  assumes inv: "vm_inv H cached vm" and free: "free_range vm target sz" and a: "target \<le> a" "a < target + sz"
  shows "contents vm a = Some (VMAFree, PermNone, StFree, 0)"
proof -
  note t = vm_inv_tiles [OF inv]
  have ty: "type_at vm a = Some VMAFree" using free a by (simp add: free_range_def)
  then have "contents vm a \<noteq> None" by (auto simp: type_at_def)
  then obtain v where v: "v \<in> set (vma_map vm)" "inside a v" by (auto simp: attr_map_None_iff)
  then show ?thesis using tiles_ok [OF t v(1)] attr_map_in [OF tiles_covers [OF t] v] type_at_in [OF t v] ty
    by (simp add: vattr_def vma_ok_def)
qed

context interval_set
begin

lemma allocate_then_free:
  assumes inv: "proc_inv I H k p" and al: "CITRA_PAGE_SIZE dvd target" "CITRA_PAGE_SIZE dvd sz" "0 < sz"
    and b: "HEAP_VADDR \<le> target" "target + sz \<le> HEAP_VADDR_END" and free: "free_range (pr_vm p) target sz"
    and enough: "sz \<le> card (free_points I (regions p k))"
  shows "\<exists>p1 p2. HeapAllocate I target sz perms state False p = Ok p1 target \<and> HeapFree I target sz p1 = Ok p2 () \<and> proc_inv I H k p2 \<and>
    free_points I (regions p2 k) = free_points I (regions p k) \<and> held I p2 = held I p \<and> memory_used p2 = memory_used p \<and>
    committed p2 = committed p \<and> (\<forall>a. kept state perms (contents (pr_vm p) a) (contents (pr_vm p2) a))"
proof -
  have b': "target < 2 ^ 32" "sz < 2 ^ 32" "target < MAX_ADDRESS" "target + sz < 2 ^ 32"
    using b(2) al(3) by (simp_all add: HEAP_VADDR_END_def MAX_ADDRESS_def)
  have area: "in_heap_area target sz" using b b' by (simp add: in_heap_area_iff)
  obtain p1 A where h: "HeapAllocate I target sz perms state False p = Ok p1 target" "proc_inv I H k p1"
      "A \<subseteq> free_points I (regions p k)" "card A = sz"
      "free_points I (regions p1 k) = free_points I (regions p k) - A" "held I p1 = held I p \<union> A" "pr_mem p1 = cleared A (pr_mem p)"
      "memory_used p1 = memory_used p + sz" "committed p1 = s32 (committed p + int sz)"
    and con: "\<forall>n < sz. contents (pr_vm p1) (target + n) =
      Some (BackingMemory, perms, state, bm_ptr (fcram_mem (pr_mem p)) + sorted_list_of_set A ! n)"
    and out: "\<forall>a. \<not> (target \<le> a \<and> a < target + sz) \<longrightarrow> kept state perms (contents (pr_vm p) a) (contents (pr_vm p1) a)"
    using HeapAllocate_found [OF inv al b'(3,4) disjI1 [OF area] free enough, of perms state] by blast
  have fin: "finite A" using h(3) finite_subset free_points_finite by blast
  have host: "\<forall>n < card A. host_ptr (pr_vm p1) (target + n) = bm_ptr (fcram_mem (pr_mem p1)) + sorted_list_of_set A ! n"
    using con h(4,7) by (simp add: host_ptr_def)
  note off = distinct_nth_offsets [OF fin host, unfolded h(4)]
  have type: "type_at (pr_vm p1) a = Some BackingMemory \<and> bm_ptr (fcram_mem (pr_mem p1)) \<le> host_ptr (pr_vm p1) a"
    if "target \<le> a" "a < target + sz" for a
    using con [rule_format, of "a - target"] host [rule_format, of "a - target"] that h(4) by (simp add: type_at_def)
  then have nf: "no_free_in (pr_vm p1) target sz" by (simp add: no_free_in_def)
  have "A = free_points I (regions p k) - free_points I (regions p1 k)" using h(3,5) by blast
  then have pg: "paged A" using proc_inv_regions [OF inv, of k] proc_inv_regions [OF h(2), of k] by (metis paged_ops(3))
  obtain p2 where f: "HeapFree I target sz p1 = Ok p2 ()" "proc_inv I H k p2"
    "free_points I (regions p2 k) = free_points I (regions p1 k) \<union> A" "held I p2 = held I p1 - A" "memory_used p2 + sz = memory_used p1"
    "committed p2 = s32 (committed p1 - int sz)"
    "contents (pr_vm p2) = (\<lambda>a. if target \<le> a \<and> a < target + sz then Some (VMAFree, PermNone, StFree, 0) else contents (pr_vm p1) a)"
    using HeapFree_held [OF h(2) al b'(1,2) area nf, unfolded off] type h(6) fin pg by auto
  obtain rl where "pr_limit p = Some rl" "rl_inv rl" using inv by (auto simp: proc_inv_def)
  then have "- (2 ^ 31) \<le> committed p \<and> committed p < 2 ^ 31"
    unfolding rl_inv_def committed_def by (auto simp: RL_Max_def)
  then have "committed p2 = committed p" using h(9) f(6) s32_cancel by simp
  moreover have "free_points I (regions p2 k) = free_points I (regions p k)" using f(3) h(3,5) by blast
  moreover have "held I p \<inter> A = {}" using inv h(3) by (auto simp: proc_inv_def held_in_def)
  then have "held I p2 = held I p" using f(4) h(6) by blast
  moreover have "kept state perms (contents (pr_vm p) a) (contents (pr_vm p2) a)" for a
    using out f(7) free_contents [OF _ free, of H "cached_pages (pr_mem p)" a] inv by (auto simp: proc_inv_def)
  ultimately show ?thesis using h(1,8) f(1,2,5) by (intro exI [of _ p1] exI [of _ p2]) simp
qed

end

text \<open>
  Property (C19): \<^verbatim>\<open>Process::HeapAllocate\<close> on an aligned nonempty request of a well-formed process. A range outside the heap area, a range that is not
  free, and a request for more than the region has free give the three documented errors and change nothing. Otherwise the call succeeds without failing
  any assertion: it takes the highest free bytes of the region, clears exactly those bytes of FCRAM, maps them in ascending order at the target with the
  requested state and permissions, and accounts for them in the process and its resource limit. Outside the range no mapping changes, except
  for read-write areas of the same state, whose permissions may become the requested ones (see the example below).
\<close>

theorem HeapAllocate_spec:
  assumes "interval_set I" "proc_inv I H k p" "CITRA_PAGE_SIZE dvd target" "CITRA_PAGE_SIZE dvd sz" "0 < sz" "target < 2 ^ 32" "sz < 2 ^ 32"
  shows "if \<not> (HEAP_VADDR \<le> target \<and> target + sz \<le> HEAP_VADDR_END) then HeapAllocate I target sz perms state False p = Err p ResultInvalidAddress
    else if \<not> free_range (pr_vm p) target sz then HeapAllocate I target sz perms state False p = Err p ResultInvalidAddressState
    else if card (free_points I (regions p k)) < sz then HeapAllocate I target sz perms state False p = Err p ResultOutOfHeapMemory
    else \<exists>p' A. HeapAllocate I target sz perms state False p = Ok p' target \<and> proc_inv I H k p' \<and>
      A \<subseteq> free_points I (regions p k) \<and> card A = sz \<and> (\<forall>x \<in> A. \<forall>y \<in> free_points I (regions p k) - A. y < x) \<and>
      free_points I (regions p' k) = free_points I (regions p k) - A \<and> held I p' = held I p \<union> A \<and>
      pr_mem p' = cleared A (pr_mem p) \<and> memory_used p' = memory_used p + sz \<and> committed p' = s32 (committed p + int sz) \<and>
      (\<forall>n < sz. contents (pr_vm p') (target + n) =
        Some (BackingMemory, perms, state, bm_ptr (fcram_mem (pr_mem p)) + sorted_list_of_set A ! n)) \<and>
      (\<forall>a. \<not> (target \<le> a \<and> a < target + sz) \<longrightarrow> kept state perms (contents (pr_vm p) a) (contents (pr_vm p') a))"
proof (cases "HEAP_VADDR \<le> target \<and> target + sz \<le> HEAP_VADDR_END")
  case False
  then have "\<not> in_heap_area target sz" using in_heap_area_iff [OF assms(6,7)] by simp
  then show ?thesis using False by (simp add: HeapAllocate_def)
next
  case True
  then have b: "target < MAX_ADDRESS" "target + sz < 2 ^ 32" "in_heap_area target sz"
    using in_heap_area_iff [OF assms(6,7)] assms(5) by (simp_all add: HEAP_VADDR_END_def MAX_ADDRESS_def)
  have p: "vm_inv H (cached_pages (pr_mem p)) (pr_vm p)" "pr_region p = Some k" using assms(2) by (auto simp: proc_inv_def)
  note chk = check_unused_free [OF p(1) b(1) assms(5) b(2)]
  consider "\<not> free_range (pr_vm p) target sz" | "free_range (pr_vm p) target sz" "card (free_points I (regions p k)) < sz"
    | "free_range (pr_vm p) target sz" "sz \<le> card (free_points I (regions p k))" by linarith
  then show ?thesis
  proof cases
    case 1
    then show ?thesis using True b(3) chk by (simp add: HeapAllocate_def orCrash_def)
  next
    case 2
    have "region_HeapAllocate I sz (regions p k) = Some (icl_empty I, regions p k)"
      using interval_set.heap_allocate [OF assms(1), of "regions p k" sz] proc_inv_regions [OF assms(2), of k] 2(2) by simp
    moreover have "icl_blocks I (icl_empty I) = []"
      using interval_set.empty_points [OF assms(1)] interval_set.blocks_canonical [OF assms(1), of "icl_empty I"]
      by (cases "icl_blocks I (icl_empty I)") (auto simp: canonical_Cons span_def)
    ultimately show ?thesis using True b(3) chk 2 p(2) by (simp add: HeapAllocate_def orCrash_def Let_def)
  next
    case 3
    then have "\<not> card (free_points I (regions p k)) < sz" by simp
    with True 3(1) interval_set.HeapAllocate_found [OF assms(1-5) b(1,2) disjI1 [OF b(3)] 3, of perms state False] show ?thesis
      by (simp only: simp_thms if_False)
  qed
qed


text \<open>A process with an empty address space, 0x4000000 bytes of application memory and 0x1400000 bytes of base memory.\<close>

definition big_fcram :: backing_mem where
  "big_fcram = \<lparr>bm_ptr = 0x10000, bm_size = FCRAM_N3DS_SIZE\<rparr>"

definition big_mem :: mem_sys where
  "big_mem = \<lparr>host = (\<lambda>_. 7), fcram_mem = big_fcram, vram_mem = big_fcram, n3ds_extra_ram_mem = big_fcram,
     dsp_mem = big_fcram, plugin_fb_address = 0, cache_marks = (\<lambda>_. False)\<rparr>"

definition full_region :: "nat \<Rightarrow> nat \<Rightarrow> (nat \<times> nat) list region" where
  "full_region b n = \<lparr>rg_base = b, rg_size = n, rg_used = 0, free_blocks = [(b, b + n)], rg_locked = False\<rparr>"

definition sample_process :: "(nat \<times> nat) list process" where
  "sample_process = \<lparr>pr_vm = fresh_vm, pr_mem = big_mem,
     regions = (\<lambda>k. case k of APPLICATION \<Rightarrow> full_region 0 0x4000000 | SYSTEM \<Rightarrow> full_region 0x4000000 0x2C00000
                             | BASE \<Rightarrow> full_region 0x6C00000 0x1400000),
     pr_region = Some APPLICATION, holding_memory = [], holding_tls_memory = [], memory_used = 0,
     pr_limit = Some (ResourceLimitList False 0 Application), tls_slots = [], kernel_version = 0x21F\<rparr>"

lemma full_region_free: "free_points list_icl (full_region b n) = {b..<b + n}"
  by (simp add: full_region_def free_points_def list_icl_def span_def)

lemma full_region_ok:
  "CITRA_PAGE_SIZE dvd b \<Longrightarrow> CITRA_PAGE_SIZE dvd n \<Longrightarrow> b + n \<le> FCRAM_N3DS_SIZE \<Longrightarrow> region_ok list_icl (full_region b n)"
  using full_region_free [of b n] by (simp add: region_ok_def region_inv_def paged_range) (simp add: full_region_def FCRAM_N3DS_SIZE_def)

lemma sample_process_free: "free_points list_icl (regions sample_process APPLICATION) = {0..<0x4000000}"
  by (simp add: sample_process_def full_region_free)

lemma empty_blocks: "points (icl_blocks list_icl []) = {}"
  by (simp add: list_icl_def)

lemma sample_process_inv: "proc_inv list_icl {big_fcram} APPLICATION sample_process"
proof -
  have "region_ok list_icl (regions sample_process j)" for j
    by (cases j) (simp_all add: sample_process_def full_region_ok CITRA_PAGE_SIZE_def FCRAM_N3DS_SIZE_def)
  moreover have "fcram_in {big_fcram} big_mem" by (simp add: fcram_in_def big_mem_def big_fcram_def host_layout_def)
  ultimately show ?thesis
    using fresh_vm_facts(1,2) fresh_limits_inv empty_blocks by (simp add: proc_inv_def held_in_def) (simp add: sample_process_def empty_blocks)
qed

lemma sample_process_unused: "target + sz \<le> MAX_ADDRESS \<Longrightarrow> free_range (pr_vm sample_process) target sz"
  by (simp add: sample_process_def fresh_vm_facts)

theorem HeapAllocate_spec_witness:
  "\<exists>p' A. HeapAllocate list_icl 0x8000000 0x3000 PermReadWrite StPrivate False sample_process = Ok p' 0x8000000 \<and>
     card A = 0x3000 \<and> held list_icl p' = held list_icl sample_process \<union> A"
  using HeapAllocate_spec [OF list_icl.interval_set_axioms sample_process_inv, of "0x8000000" "0x3000" PermReadWrite StPrivate]
    sample_process_unused [of "0x8000000" "0x3000"] sample_process_free
  by (simp add: CITRA_PAGE_SIZE_def HEAP_VADDR_def HEAP_VADDR_END_def MAX_ADDRESS_def) blast


text \<open>
  Property (C23): mapping memory can take permissions away from memory outside of the range that is mapped. \<^verbatim>\<open>MapBackingMemory\<close> merges the new area
  with its neighbours and returns the merged one; the \<^verbatim>\<open>Reprotect\<close> that \<^verbatim>\<open>HeapAllocate\<close>, \<^verbatim>\<open>LinearAllocate\<close> and \<^verbatim>\<open>Map\<close> apply to it changes all
  of it. Whenever the memory directly above the range is mapped read-write, with the same state, to the host memory that follows the new memory, it gets the
  permissions of the new mapping.
\<close>

theorem map_protect_spreads:
  assumes "host_layout H" "vm_inv H cached vm" "\<not> is_locked vm" "CITRA_PAGE_SIZE dvd target" "CITRA_PAGE_SIZE dvd sz" "0 < sz"
    "ref_covers H mem sz" "free_range vm target sz"
    "contents vm (target + sz) = Some (BackingMemory, PermReadWrite, state, GetPtr mem + sz)"
  shows "\<exists>vm'. map_protect cached target mem sz state perms vm = Some vm' \<and>
    contents vm' (target + sz) = Some (BackingMemory, perms, state, GetPtr mem + sz)"
proof -
  obtain vm' where "map_protect cached target mem sz state perms vm = Some vm'"
    "contents vm' (target + sz) = Some (BackingMemory, perms, state, GetPtr mem + sz)"
    by (rule map_protect_spec [OF assms(1-8), where state = state and perms = perms]) (use assms(9) in blast)
  then show ?thesis by blast
qed

theorem map_protect_spreads_witness:
  "\<exists>vm vm'. contents vm 0x8001000 = Some (BackingMemory, PermReadWrite, StPrivate, 0x12000) \<and>
     map_protect no_cache 0x8000000 \<lparr>mr_backing = Some big_fcram, mr_offset = 0x1000\<rparr> 0x1000 StPrivate PermRead vm = Some vm' \<and>
     contents vm' 0x8001000 = Some (BackingMemory, PermRead, StPrivate, 0x12000)"
proof -
  have H: "host_layout {big_fcram}" by (simp add: host_layout_def big_fcram_def)
  have r: "ref_covers {big_fcram} \<lparr>mr_backing = Some big_fcram, mr_offset = off\<rparr> 0x1000" if "off + 0x1000 \<le> FCRAM_N3DS_SIZE" for off
    using that by (simp add: ref_covers_def big_fcram_def)
  obtain vm i where vm: "vm_inv {big_fcram} no_cache vm" "\<not> is_locked vm"
    "contents vm = (\<lambda>a. if 0x8001000 \<le> a \<and> a < 0x8001000 + 0x1000
       then Some (BackingMemory, PermReadWrite, StPrivate, GetPtr \<lparr>mr_backing = Some big_fcram, mr_offset = 0x2000\<rparr> + (a - 0x8001000))
       else contents fresh_vm a)"
    by (rule MapBackingMemory_free [where target = "0x8001000" and sz = "0x1000" and mem = "\<lparr>mr_backing = Some big_fcram, mr_offset = 0x2000\<rparr>"
          and state = StPrivate, OF H fresh_vm_facts(1,2)])
      (simp_all add: r fresh_vm_facts CITRA_PAGE_SIZE_def MAX_ADDRESS_def FCRAM_N3DS_SIZE_def)
  have "free_range vm 0x8000000 0x1000"
    using fresh_vm_facts(3) [of "0x8000000" "0x1000"] vm(3) by (auto simp: free_range_def type_at_def MAX_ADDRESS_def)
  moreover have c: "contents vm (0x8000000 + 0x1000) = Some (BackingMemory, PermReadWrite, StPrivate, 0x12000)"
    by (simp add: vm(3) GetPtr_def big_fcram_def)
  ultimately show ?thesis
    using map_protect_spreads [OF H vm(1,2), of "0x8000000" "0x1000" "\<lparr>mr_backing = Some big_fcram, mr_offset = 0x1000\<rparr>" StPrivate PermRead]
      r [of "0x1000"] c by (simp add: CITRA_PAGE_SIZE_def FCRAM_N3DS_SIZE_def GetPtr_def big_fcram_def) blast
qed

section \<open>The linear heap\<close>

lemma linear_area_bound: "GetLinearHeapAreaAddress p + FCRAM_N3DS_SIZE \<le> MAX_ADDRESS" "CITRA_PAGE_SIZE dvd GetLinearHeapAreaAddress p"
  by (simp_all add: GetLinearHeapAreaAddress_def LINEAR_HEAP_VADDR_def NEW_LINEAR_HEAP_VADDR_def FCRAM_N3DS_SIZE_def MAX_ADDRESS_def CITRA_PAGE_SIZE_def)

context interval_set
begin

lemma region_LinearAllocate_aligned:
  assumes "paged (free_points I r)" "region_LinearAllocate I sz r = Some (Some a, r')"
  shows "CITRA_PAGE_SIZE dvd a"
proof -
  obtain i where i: "find (\<lambda>i. snd i - fst i \<ge> sz) (icl_blocks I (free_blocks r)) = Some i" "a = fst i"
    using assms(2) by (auto simp: region_LinearAllocate_def split: if_splits option.splits)
  then have "i \<in> set (icl_blocks I (free_blocks r))" using find_split [OF i(1)] by auto
  then show ?thesis using paged_blocks(1) [OF free_canonical(1)] assms(1) i(2) by (simp add: free_points_def)
qed

lemma map_linear_spec:
  assumes inv: "proc_inv I H k p" and al: "CITRA_PAGE_SIZE dvd off" "CITRA_PAGE_SIZE dvd sz" "0 < sz"
    and A: "{off..<off + sz} \<subseteq> free_points I (regions p k)"
    and r: "region_inv I r" "\<not> rg_locked r" "free_points I r = free_points I (regions p k) - {off..<off + sz}"
      "rg_base r = rg_base (regions p k)" "rg_size r = rg_size (regions p k)"
    and t: "CITRA_PAGE_SIZE dvd target" "free_range (pr_vm p) target sz"
  shows "\<exists>p'. map_linear I off target sz perms (set_region r k p) = Ok p' target \<and> proc_inv I H k p' \<and>
    free_points I (regions p' k) = free_points I (regions p k) - {off..<off + sz} \<and> held I p' = held I p \<union> {off..<off + sz} \<and>
    pr_mem p' = cleared {off..<off + sz} (pr_mem p) \<and> memory_used p' = memory_used p + sz \<and> committed p' = s32 (committed p + int sz) \<and>
    kernel_version p' = kernel_version p \<and> rg_base (regions p' k) = rg_base (regions p k) \<and> rg_size (regions p' k) = rg_size (regions p k) \<and>
    (\<forall>n < sz. contents (pr_vm p') (target + n) = Some (BackingMemory, perms, StContinuous, bm_ptr (fcram_mem (pr_mem p)) + off + n)) \<and>
    (\<forall>a. \<not> (target \<le> a \<and> a < target + sz) \<longrightarrow> kept StContinuous perms (contents (pr_vm p) a) (contents (pr_vm p') a))"
proof -
  let ?A = "{off..<off + sz}" and ?mem = "\<lparr>mr_backing = Some (fcram_mem (pr_mem p)), mr_offset = off\<rparr>"
  obtain rl where p: "pr_region p = Some k" "pr_limit p = Some rl" "rl_inv rl" "fcram_in H (pr_mem p)"
    "vm_inv H (cached_pages (pr_mem p)) (pr_vm p)" "\<not> is_locked (pr_vm p)" using inv by (auto simp: proc_inv_def)
  have hl: "host_layout H" using p(4) by (simp add: fcram_in_def)
  have "off + sz - 1 \<in> ?A" using al(3) by simp
  then have "off + sz - 1 < rg_base (regions p k) + rg_size (regions p k)" using A proc_inv_regions [OF inv, of k] unfolding region_inv_def by fastforce
  then have le: "off + sz \<le> FCRAM_N3DS_SIZE" using proc_inv_regions [OF inv, of k] by linarith
  then have words: "add32 off sz = off + sz" "off \<le> FCRAM_N3DS_SIZE" by (simp_all add: add32_small FCRAM_N3DS_SIZE_def)
  have ref: "ref_covers H ?mem sz" using le p(4) by (auto simp: ref_covers_def fcram_in_def)
  have fill: "host_write (GetPtr ?mem) (replicate sz 0) (pr_mem p) = cleared ?A (pr_mem p)"
    by (auto simp: host_write_def put_bytes_zero cleared_def GetPtr_def fun_eq_iff intro!: mem_sys.equality)
  obtain vm where vm: "map_protect (cached_pages (pr_mem p)) target ?mem sz StContinuous perms (pr_vm p) = Some vm"
    "vm_inv H (cached_pages (pr_mem p)) vm" "\<not> is_locked vm"
    "\<forall>a. target \<le> a \<and> a < target + sz \<longrightarrow> contents vm a = Some (BackingMemory, perms, StContinuous, GetPtr ?mem + (a - target))"
    "\<forall>a. \<not> (target \<le> a \<and> a < target + sz) \<longrightarrow> kept StContinuous perms (contents (pr_vm p) a) (contents vm a)"
    by (rule map_protect_spec [OF hl p(5,6) t(1) al(2,3) ref t(2), where state = StContinuous and perms = perms]) blast
  let ?p = "(set_region r k p)\<lparr>pr_vm := vm, pr_mem := cleared ?A (pr_mem p), holding_memory := icl_add I (off, off + sz) (holding_memory p),
      memory_used := add32 (memory_used p) sz\<rparr>"
  obtain rl' where rl': "commit Reserve sz ?p = Some (?p\<lparr>pr_limit := Some rl'\<rparr>)" "rl_inv rl'"
    "m_current_values rl' ! rl_index RL_Commit = s32 (m_current_values rl ! rl_index RL_Commit + int sz)"
    by (rule commit_Reserve [of ?p rl sz]) (use p in \<open>simp_all add: set_region_def\<close>)
  let ?q = "?p\<lparr>pr_limit := Some rl'\<rparr>"
  have "map_linear I off target sz perms (set_region r k p) = Ok ?q target"
    using words vm(1) rl'(1) fill by (simp add: map_linear_def orCrash_def set_region_def GetFCRAMRef_def Let_def)
  moreover have pg: "paged ?A" using al(1,2) by (simp add: paged_range)
  moreover have "proc_inv I H k ?q" "memory_used ?q = memory_used p + card ?A"
    by (rule proc_inv_take [OF inv A pg r(1-5), of ?q rl'];
        use vm rl' p in \<open>simp add: set_region_def add_points span_def\<close>)+
  moreover have "committed ?q = s32 (committed p + int sz)" using p(2) rl'(3) by (simp add: committed_def)
  moreover have "held I ?q = held I p \<union> ?A" by (simp add: add_points span_def)
  ultimately show ?thesis using vm(4,5) r(3-5) by (intro exI [of _ ?q]) (simp add: set_region_def GetPtr_def add.assoc)
qed

lemma linear_alloc_zero:
  assumes inv: "proc_inv I H k p" and al: "CITRA_PAGE_SIZE dvd sz" "0 < sz"
  shows "if \<forall>b. \<not> {b..<b + sz} \<subseteq> free_points I (regions p k) then LinearAllocate I 0 sz perms p = Err p ResultOutOfHeapMemory
    else \<exists>off. {off..<off + sz} \<subseteq> free_points I (regions p k) \<and> CITRA_PAGE_SIZE dvd off \<and>
      (\<forall>b. {b..<b + sz} \<subseteq> free_points I (regions p k) \<longrightarrow> off \<le> b) \<and>
      (free_range (pr_vm p) (GetLinearHeapAreaAddress p + off) sz \<longrightarrow>
        (\<exists>p'. LinearAllocate I 0 sz perms p = Ok p' (GetLinearHeapAreaAddress p + off) \<and> proc_inv I H k p' \<and>
        free_points I (regions p' k) = free_points I (regions p k) - {off..<off + sz} \<and> held I p' = held I p \<union> {off..<off + sz} \<and>
        pr_mem p' = cleared {off..<off + sz} (pr_mem p) \<and> memory_used p' = memory_used p + sz \<and> committed p' = s32 (committed p + int sz) \<and>
        kernel_version p' = kernel_version p \<and> rg_base (regions p' k) = rg_base (regions p k) \<and> rg_size (regions p' k) = rg_size (regions p k) \<and>
        (\<forall>n < sz. contents (pr_vm p') (GetLinearHeapAreaAddress p + off + n) =
          Some (BackingMemory, perms, StContinuous, bm_ptr (fcram_mem (pr_mem p)) + off + n)) \<and>
        (\<forall>a. \<not> (GetLinearHeapAreaAddress p + off \<le> a \<and> a < GetLinearHeapAreaAddress p + off + sz) \<longrightarrow>
          kept StContinuous perms (contents (pr_vm p) a) (contents (pr_vm p') a))))"
proof -
  have p: "pr_region p = Some k" using inv by (simp add: proc_inv_def)
  note reg = proc_inv_regions [OF inv, of k]
  obtain o' r where l: "region_LinearAllocate I sz (regions p k) = Some (o', r)"
    using linear_allocate [of "regions p k" sz] reg al(2) by (cases "region_LinearAllocate I sz (regions p k)") auto
  show ?thesis
  proof (cases o')
    case None
    then show ?thesis using linear_allocate [of "regions p k" sz] reg al(2) l p by (simp add: LinearAllocate_def orCrash_def)
  next
    case (Some off)
    have a: "{off..<off + sz} \<subseteq> free_points I (regions p k)" "\<forall>b. {b..<b + sz} \<subseteq> free_points I (regions p k) \<longrightarrow> off \<le> b"
        "region_inv I r" "\<not> rg_locked r" "free_points I r = free_points I (regions p k) - {off..<off + sz}"
        "rg_base r = rg_base (regions p k)" "rg_size r = rg_size (regions p k)"
      using linear_allocate [of "regions p k" sz] reg al(2) l Some by simp_all
    have d: "CITRA_PAGE_SIZE dvd off" using region_LinearAllocate_aligned [of "regions p k" sz off r] reg l Some by simp
    have "off \<in> free_points I (regions p k)" using a(1) al(2) by auto
    then have "off < FCRAM_N3DS_SIZE" using reg by (auto simp: region_inv_def)
    then have w: "add32 off (GetLinearHeapAreaAddress p) = GetLinearHeapAreaAddress p + off"
      using linear_area_bound(1) [of p] by (simp add: add32_small MAX_ADDRESS_def)
    have eq: "LinearAllocate I 0 sz perms p = map_linear I off (GetLinearHeapAreaAddress p + off) sz perms (set_region r k p)"
      using l Some p w by (simp add: LinearAllocate_def orCrash_def)
    have "CITRA_PAGE_SIZE dvd GetLinearHeapAreaAddress p + off" using d linear_area_bound(2) [of p] by (intro dvd_add)
    then show ?thesis
      using map_linear_spec [OF inv d al a(1,3-7), of "GetLinearHeapAreaAddress p + off" perms] a(1,2) d unfolding eq by auto
  qed
qed

lemma LinearFree_held:
  assumes inv: "proc_inv I H k p" and al: "CITRA_PAGE_SIZE dvd off" "CITRA_PAGE_SIZE dvd sz" "0 < sz"
    and A: "{off..<off + sz} \<subseteq> held I p" and nf: "no_free_in (pr_vm p) (GetLinearHeapAreaAddress p + off) sz"
  shows "\<exists>p'. LinearFree I (GetLinearHeapAreaAddress p + off) sz p = Ok p' () \<and> proc_inv I H k p' \<and> pr_mem p' = pr_mem p \<and>
    free_points I (regions p' k) = free_points I (regions p k) \<union> {off..<off + sz} \<and> held I p' = held I p - {off..<off + sz} \<and>
    memory_used p' + sz = memory_used p \<and> committed p' = s32 (committed p - int sz) \<and>
    contents (pr_vm p') = (\<lambda>a. if GetLinearHeapAreaAddress p + off \<le> a \<and> a < GetLinearHeapAreaAddress p + off + sz
      then Some (VMAFree, PermNone, StFree, 0) else contents (pr_vm p) a)"
proof -
  let ?A = "{off..<off + sz}" and ?t = "GetLinearHeapAreaAddress p + off"
  obtain rl where p: "pr_region p = Some k" "pr_limit p = Some rl" "rl_inv rl" "fcram_in H (pr_mem p)"
    "vm_inv H (cached_pages (pr_mem p)) (pr_vm p)" "\<not> is_locked (pr_vm p)" using inv by (auto simp: proc_inv_def)
  have hl: "host_layout H" using p(4) by (simp add: fcram_in_def)
  note reg = proc_inv_regions [OF inv, of k]
  have sub: "?A \<subseteq> {rg_base (regions p k)..<rg_base (regions p k) + rg_size (regions p k)}" "?A \<inter> free_points I (regions p k) = {}"
    using A inv unfolding proc_inv_def held_in_def by blast+
  have "off \<in> ?A" "off + sz - 1 \<in> ?A" using al(3) by simp_all
  then have "off \<in> {rg_base (regions p k)..<rg_base (regions p k) + rg_size (regions p k)}"
    "off + sz - 1 \<in> {rg_base (regions p k)..<rg_base (regions p k) + rg_size (regions p k)}" using sub(1) by blast+
  then have ends: "rg_base (regions p k) \<le> off" "off + sz \<le> rg_base (regions p k) + rg_size (regions p k)" by auto
  then have le: "off + sz \<le> FCRAM_N3DS_SIZE" using reg by linarith
  then have rng: "?t + sz \<le> MAX_ADDRESS" using linear_area_bound(1) [of p] by linarith
  have "GetLinearHeapAreaAddress p + (rg_base (regions p k) + rg_size (regions p k)) \<le> MAX_ADDRESS"
    using linear_area_bound(1) [of p] reg by linarith
  then have area: "in_linear_area ?t sz k p"
    using ends rng by (simp add: in_linear_area_def GetLinearHeapBase_def GetLinearHeapLimit_def add32_small MAX_ADDRESS_def)
  have w: "sub32 ?t (GetLinearHeapAreaAddress p) = off" "add32 off sz = off + sz"
    using rng by (simp_all add: sub32_small add32_small MAX_ADDRESS_def)
  have alt: "CITRA_PAGE_SIZE dvd ?t" using al(1) linear_area_bound(2) [of p] by (intro dvd_add)
  obtain vm where vm: "UnmapRange (cached_pages (pr_mem p)) ?t sz (pr_vm p) = Ok vm ()" "vm_inv H (cached_pages (pr_mem p)) vm" "\<not> is_locked vm"
    "contents vm = (\<lambda>a. if ?t \<le> a \<and> a < ?t + sz then Some (VMAFree, PermNone, StFree, 0) else contents (pr_vm p) a)"
    using UnmapRange_effect [OF hl p(5,6) alt al(2,3) rng] nf by auto
  obtain r where r: "region_Free I off sz (regions p k) = Some r" "region_inv I r" "\<not> rg_locked r"
    "free_points I r = free_points I (regions p k) \<union> ?A" "rg_base r = rg_base (regions p k)" "rg_size r = rg_size (regions p k)"
    using free_range [of "regions p k" off sz] reg sub al(3) by blast
  let ?p = "(set_region r k p)\<lparr>pr_vm := vm, holding_memory := icl_sub I (off, off + sz) (holding_memory p), memory_used := sub32 (memory_used p) sz\<rparr>"
  obtain rl' where rl': "commit Release sz ?p = Some (?p\<lparr>pr_limit := Some rl'\<rparr>)" "rl_inv rl'"
    "m_current_values rl' ! rl_index RL_Commit = s32 (m_current_values rl ! rl_index RL_Commit - int sz)"
    by (rule commit_Release [of ?p rl sz]) (use p in \<open>simp_all add: set_region_def\<close>)
  let ?q = "?p\<lparr>pr_limit := Some rl'\<rparr>"
  have "LinearFree I ?t sz p = Ok ?q ()"
    using area al(3) p(1) vm(1) r(1) w rl'(1) by (simp add: LinearFree_def orCrash_def Let_def)
  moreover have pg: "paged ?A" using al(1,2) by (simp add: paged_range)
  moreover have "proc_inv I H k ?q" "memory_used ?q + card ?A = memory_used p"
    by (rule proc_inv_give [OF inv A pg r(2-6), of ?q rl']; use vm rl' p in \<open>simp add: set_region_def sub_points span_def\<close>)+
  moreover have "committed ?q = s32 (committed p - int sz)" using p(2) rl'(3) by (simp add: committed_def)
  ultimately show ?thesis using r(4) vm(4) by (intro exI [of _ ?q]) (simp add: set_region_def sub_points span_def)
qed

lemma committed_range: "proc_inv I H k p \<Longrightarrow> - (2 ^ 31) \<le> committed p \<and> committed p < 2 ^ 31"
  unfolding proc_inv_def rl_inv_def committed_def by (auto simp: RL_Max_def)

lemma linear_then_free:
  assumes inv: "proc_inv I H k p" and al: "CITRA_PAGE_SIZE dvd sz" "0 < sz" and fits: "{b..<b + sz} \<subseteq> free_points I (regions p k)"
    and window: "\<forall>x \<in> free_points I (regions p k). type_at (pr_vm p) (GetLinearHeapAreaAddress p + x) = Some VMAFree"
  shows "\<exists>off p1 p2. LinearAllocate I 0 sz perms p = Ok p1 (GetLinearHeapAreaAddress p + off) \<and>
    LinearFree I (GetLinearHeapAreaAddress p + off) sz p1 = Ok p2 () \<and> proc_inv I H k p2 \<and>
    free_points I (regions p2 k) = free_points I (regions p k) \<and> held I p2 = held I p \<and> memory_used p2 = memory_used p \<and>
    committed p2 = committed p \<and> (\<forall>a. kept StContinuous perms (contents (pr_vm p) a) (contents (pr_vm p2) a))"
proof -
  let ?area = "GetLinearHeapAreaAddress p"
  have "\<not> (\<forall>b. \<not> {b..<b + sz} \<subseteq> free_points I (regions p k))" using fits by blast
  then obtain off where off: "{off..<off + sz} \<subseteq> free_points I (regions p k)" "CITRA_PAGE_SIZE dvd off"
    and ok: "free_range (pr_vm p) (?area + off) sz \<longrightarrow> (\<exists>p'. LinearAllocate I 0 sz perms p = Ok p' (?area + off) \<and> proc_inv I H k p' \<and>
        free_points I (regions p' k) = free_points I (regions p k) - {off..<off + sz} \<and> held I p' = held I p \<union> {off..<off + sz} \<and>
        memory_used p' = memory_used p + sz \<and> committed p' = s32 (committed p + int sz) \<and> kernel_version p' = kernel_version p \<and>
        (\<forall>n < sz. contents (pr_vm p') (?area + off + n) = Some (BackingMemory, perms, StContinuous, bm_ptr (fcram_mem (pr_mem p)) + off + n)) \<and>
        (\<forall>a. \<not> (?area + off \<le> a \<and> a < ?area + off + sz) \<longrightarrow> kept StContinuous perms (contents (pr_vm p) a) (contents (pr_vm p') a)))"
    using linear_alloc_zero [OF inv al, of perms] unfolding if_not_P [OF \<open>\<not> (\<forall>b. \<not> {b..<b + sz} \<subseteq> free_points I (regions p k))\<close>] by blast
  have fr: "free_range (pr_vm p) (?area + off) sz"
    unfolding free_range_def
  proof (intro allI impI)
    fix a assume a: "?area + off \<le> a \<and> a < ?area + off + sz"
    then have "a - ?area \<in> free_points I (regions p k)" using off(1) by (intro subsetD [OF off(1)]) auto
    then show "type_at (pr_vm p) a = Some VMAFree" using window a by (metis add.commute add_leD1 le_add_diff_inverse2)
  qed
  then obtain p1 where h: "LinearAllocate I 0 sz perms p = Ok p1 (?area + off)" "proc_inv I H k p1"
      "free_points I (regions p1 k) = free_points I (regions p k) - {off..<off + sz}" "held I p1 = held I p \<union> {off..<off + sz}"
      "memory_used p1 = memory_used p + sz" "committed p1 = s32 (committed p + int sz)" "kernel_version p1 = kernel_version p"
    and con: "\<forall>n < sz. contents (pr_vm p1) (?area + off + n) = Some (BackingMemory, perms, StContinuous, bm_ptr (fcram_mem (pr_mem p)) + off + n)"
    and out: "\<forall>a. \<not> (?area + off \<le> a \<and> a < ?area + off + sz) \<longrightarrow> kept StContinuous perms (contents (pr_vm p) a) (contents (pr_vm p1) a)"
    using ok by blast
  have same: "GetLinearHeapAreaAddress p1 = ?area" using h(7) by (simp add: GetLinearHeapAreaAddress_def)
  have "type_at (pr_vm p1) a = Some BackingMemory" if "?area + off \<le> a" "a < ?area + off + sz" for a
    using con [rule_format, of "a - (?area + off)"] that by (simp add: type_at_def)
  then have nf: "no_free_in (pr_vm p1) (?area + off) sz" by (simp add: no_free_in_def)
  obtain p2 where f: "LinearFree I (?area + off) sz p1 = Ok p2 ()" "proc_inv I H k p2"
    "free_points I (regions p2 k) = free_points I (regions p1 k) \<union> {off..<off + sz}" "held I p2 = held I p1 - {off..<off + sz}"
    "memory_used p2 + sz = memory_used p1" "committed p2 = s32 (committed p1 - int sz)"
    "contents (pr_vm p2) = (\<lambda>a. if ?area + off \<le> a \<and> a < ?area + off + sz then Some (VMAFree, PermNone, StFree, 0) else contents (pr_vm p1) a)"
    using LinearFree_held [OF h(2) off(2) al, unfolded same, OF _ nf] h(4) by auto
  have "committed p2 = committed p" using h(6) f(6) s32_cancel committed_range [OF inv] by simp
  moreover have "free_points I (regions p2 k) = free_points I (regions p k)" using f(3) h(3) off(1) by blast
  moreover have "held I p \<inter> {off..<off + sz} = {}" using inv off(1) by (auto simp: proc_inv_def held_in_def)
  then have "held I p2 = held I p" using f(4) h(4) by blast
  moreover have "kept StContinuous perms (contents (pr_vm p) a) (contents (pr_vm p2) a)" for a
    using out f(7) free_contents [OF _ fr, of H "cached_pages (pr_mem p)" a] inv by (auto simp: proc_inv_def)
  ultimately show ?thesis using h(1,5) f(1,2,5) by (intro exI [of _ off] exI [of _ p1] exI [of _ p2]) simp
qed

end

text \<open>
  Property: when the region has \<open>sz\<close> contiguous free bytes and the linear window shows no memory that is free in the region, \<^verbatim>\<open>LinearAllocate\<close> without a
  target succeeds, returning an address of the window, and \<^verbatim>\<open>LinearFree\<close> of what it returned succeeds and restores the free memory, the held memory, both
  counters and the mappings (up to the permissions of merged areas).
\<close>

theorem LinearAllocate_LinearFree:
  assumes "interval_set I" "proc_inv I H k p" "CITRA_PAGE_SIZE dvd sz" "0 < sz" "{b..<b + sz} \<subseteq> free_points I (regions p k)"
    "\<forall>x \<in> free_points I (regions p k). type_at (pr_vm p) (GetLinearHeapAreaAddress p + x) = Some VMAFree"
  shows "\<exists>off p1 p2. LinearAllocate I 0 sz perms p = Ok p1 (GetLinearHeapAreaAddress p + off) \<and>
    LinearFree I (GetLinearHeapAreaAddress p + off) sz p1 = Ok p2 () \<and> proc_inv I H k p2 \<and>
    free_points I (regions p2 k) = free_points I (regions p k) \<and> held I p2 = held I p \<and> memory_used p2 = memory_used p \<and>
    committed p2 = committed p \<and> (\<forall>a. kept StContinuous perms (contents (pr_vm p) a) (contents (pr_vm p2) a))"
  by (rule interval_set.linear_then_free [OF assms])

theorem LinearAllocate_LinearFree_witness:
  "\<exists>off p1 p2. LinearAllocate list_icl 0 0x2000 PermReadWrite sample_process = Ok p1 (0x14000000 + off) \<and>
     LinearFree list_icl (0x14000000 + off) 0x2000 p1 = Ok p2 () \<and> memory_used p2 = memory_used sample_process"
proof -
  have area: "GetLinearHeapAreaAddress sample_process = 0x14000000" by (simp add: GetLinearHeapAreaAddress_def sample_process_def LINEAR_HEAP_VADDR_def)
  have "free_range (pr_vm sample_process) 0x14000000 0x4000000" by (rule sample_process_unused) (simp add: MAX_ADDRESS_def)
  then have "\<forall>x \<in> free_points list_icl (regions sample_process APPLICATION). type_at (pr_vm sample_process) (GetLinearHeapAreaAddress sample_process + x) = Some VMAFree"
    by (simp add: sample_process_free area free_range_def)
  then show ?thesis
    using LinearAllocate_LinearFree [OF list_icl.interval_set_axioms sample_process_inv, of "0x2000" 0 PermReadWrite]
      sample_process_free area by (simp add: CITRA_PAGE_SIZE_def) blast
qed

section \<open>Releasing everything\<close>

context interval_set
begin

lemma free_held_spec:
  assumes "region_inv I (regions p k)" "\<not> rg_locked (regions p k)" "canonical bs"
    "points bs \<subseteq> {rg_base (regions p k)..<rg_base (regions p k) + rg_size (regions p k)} - free_points I (regions p k)"
    "card (points bs) \<le> memory_used p" "memory_used p < 2 ^ 32" "pr_limit p = Some rl" "rl_inv rl"
  shows "\<exists>r rl'. free_held I bs k counted p =
      Some (p\<lparr>regions := (regions p)(k := r), memory_used := memory_used p - card (points bs), pr_limit := Some rl'\<rparr>) \<and>
    region_inv I r \<and> \<not> rg_locked r \<and> rg_base r = rg_base (regions p k) \<and> rg_size r = rg_size (regions p k) \<and>
    free_points I r = free_points I (regions p k) \<union> points bs \<and> rl_inv rl' \<and>
    m_current_values rl' ! rl_index RL_Commit =
      (if counted then s32 (m_current_values rl ! rl_index RL_Commit - int (card (points bs))) else m_current_values rl ! rl_index RL_Commit)"
  using assms
proof (induction bs arbitrary: p rl)
  case Nil
  have "s32 (m_current_values rl ! rl_index RL_Commit) = m_current_values rl ! rl_index RL_Commit"
    using Nil.prems(8) by (intro s32_id) (auto simp: rl_inv_def RL_Max_def)
  then show ?case using Nil by (intro exI [of _ "regions p k"] exI [of _ rl]) simp
next
  case (Cons i bs)
  obtain l u where i: "i = (l, u)" by fastforce
  have lu: "l < u" "canonical bs" using Cons.prems(3) by (simp_all add: i canonical_Cons)
  have gap: "span (l, u) \<inter> points bs = {}" using Cons.prems(3) by (fastforce simp: i canonical_Cons points_def)
  have c: "card (points (i # bs)) = u - l + card (points bs)" using gap by (simp add: i card_Un_disjoint)
  have rng: "{l..<l + (u - l)} = span (l, u)" using lu(1) by (simp add: span_def)
  have sub: "span (l, u) \<subseteq> {rg_base (regions p k)..<rg_base (regions p k) + rg_size (regions p k)}" "span (l, u) \<inter> free_points I (regions p k) = {}"
    using Cons.prems(4) by (auto simp: i simp del: span_iff)
  obtain r where r: "region_Free I l (u - l) (regions p k) = Some r" "region_inv I r" "\<not> rg_locked r"
    "free_points I r = free_points I (regions p k) \<union> span (l, u)" "rg_base r = rg_base (regions p k)" "rg_size r = rg_size (regions p k)"
    using free_range [of "regions p k" l "u - l"] Cons.prems(1,2) sub lu(1) unfolding rng by auto
  let ?p1 = "(set_region r k p)\<lparr>memory_used := sub32 (memory_used p) (u - l)\<rparr>"
  have mu: "sub32 (memory_used p) (u - l) = memory_used p - (u - l)" using Cons.prems(5,6) c by (simp add: sub32_small)
  obtain rl1 where rl1: "(if counted then commit Release (u - l) ?p1 else Some ?p1) = Some (?p1\<lparr>pr_limit := Some rl1\<rparr>)" "rl_inv rl1"
    "m_current_values rl1 ! rl_index RL_Commit = (if counted then s32 (m_current_values rl ! rl_index RL_Commit - int (u - l)) else m_current_values rl ! rl_index RL_Commit)"
  proof (cases counted)
    case True
    show thesis by (rule commit_Release [of ?p1 rl "u - l"]) (use Cons.prems(7,8) True that in \<open>simp_all add: set_region_def\<close>)
  next
    case False
    then show thesis using that [of rl] Cons.prems(7,8) by (simp add: set_region_def)
  qed
  let ?p2 = "?p1\<lparr>pr_limit := Some rl1\<rparr>"
  have rest: "points bs \<subseteq> {rg_base r..<rg_base r + rg_size r} - free_points I r"
    using Cons.prems(4) gap unfolding r(4-6) by (auto simp: i simp del: span_iff)
  have q: "regions ?p2 k = r" "memory_used ?p2 = memory_used p - (u - l)" "pr_limit ?p2 = Some rl1" by (simp_all add: set_region_def mu)
  have left: "card (points bs) \<le> memory_used p - (u - l)" "memory_used p - (u - l) < 2 ^ 32" using Cons.prems(5,6) c by simp_all
  obtain r' rl' where t: "free_held I bs k counted ?p2 =
      Some (?p2\<lparr>regions := (regions ?p2)(k := r'), memory_used := memory_used ?p2 - card (points bs), pr_limit := Some rl'\<rparr>)"
    "region_inv I r'" "\<not> rg_locked r'" "rg_base r' = rg_base r" "rg_size r' = rg_size r" "free_points I r' = free_points I r \<union> points bs" "rl_inv rl'"
    "m_current_values rl' ! rl_index RL_Commit =
      (if counted then s32 (m_current_values rl1 ! rl_index RL_Commit - int (card (points bs))) else m_current_values rl1 ! rl_index RL_Commit)"
    using Cons.IH [of ?p2 rl1, unfolded q(1), OF r(2,3) lu(2) rest _ _ q(3) rl1(2)] left unfolding q(2) by blast
  have "s32 (s32 (a - b) - d) = s32 (a - (b + d))" for a b d unfolding s32_def by (simp add: algebra_simps mod_simps)
  then have com: "m_current_values rl' ! rl_index RL_Commit =
      (if counted then s32 (m_current_values rl ! rl_index RL_Commit - int (card (points (i # bs)))) else m_current_values rl ! rl_index RL_Commit)"
    unfolding t(8) rl1(3) c by simp
  have "free_held I (i # bs) k counted p = free_held I bs k counted ?p2" using r(1) rl1(1) by (simp add: i Let_def)
  moreover have "?p2\<lparr>regions := (regions ?p2)(k := r'), memory_used := memory_used ?p2 - card (points bs), pr_limit := Some rl'\<rparr> =
      p\<lparr>regions := (regions p)(k := r'), memory_used := memory_used p - card (points (i # bs)), pr_limit := Some rl'\<rparr>"
    unfolding c q(2) by (simp add: set_region_def)
  moreover have "free_points I r' = free_points I (regions p k) \<union> points (i # bs)" unfolding t(6) r(4) by (simp add: i Un_assoc)
  ultimately show ?case using t(1-3,7) com unfolding t(4,5) r(5,6) by (intro exI [of _ r'] exI [of _ rl'] conjI) (simp_all only: t(4,5) r(5,6) not_False_eq_True)
qed

lemma free_all:
  assumes inv: "proc_inv I H k p"
  shows "\<exists>p'. FreeAllMemory I p = Some p' \<and> memory_used p' = 0 \<and> held I p' = {} \<and> tls_held I p' = {} \<and> tls_slots p' = [] \<and>
    committed p' = s32 (committed p - int (card (held I p))) \<and>
    (\<forall>j. region_inv I (regions p' j) \<and> free_points I (regions p' j) =
      free_points I (regions p j) \<union> (if j = k then held I p else {}) \<union> (if j = BASE then tls_held I p else {}))"
proof -
  obtain rl where p: "pr_region p = Some k" "pr_limit p = Some rl" "rl_inv rl" using inv by (auto simp: proc_inv_def)
  have used: "memory_used p = card (held I p) + card (tls_held I p)" using inv by (simp add: proc_inv_def)
  have lim: "memory_used p < 2 ^ 32" using memory_used_bound [OF inv] by (simp add: FCRAM_N3DS_SIZE_def)
  note reg = proc_inv_regions [OF inv]
  have h: "held I p \<subseteq> {rg_base (regions p k)..<rg_base (regions p k) + rg_size (regions p k)} - free_points I (regions p k)"
    and t: "tls_held I p \<subseteq> {rg_base (regions p BASE)..<rg_base (regions p BASE) + rg_size (regions p BASE)} - free_points I (regions p BASE)"
    and apart: "k = BASE \<longrightarrow> held I p \<inter> tls_held I p = {}"
    using inv unfolding proc_inv_def held_in_def by blast+
  obtain r rl1 where f: "free_held I (icl_blocks I (holding_memory p)) k True p =
      Some (p\<lparr>regions := (regions p)(k := r), memory_used := memory_used p - card (held I p), pr_limit := Some rl1\<rparr>)"
    "region_inv I r" "\<not> rg_locked r" "rg_base r = rg_base (regions p k)" "rg_size r = rg_size (regions p k)"
    "free_points I r = free_points I (regions p k) \<union> held I p" "rl_inv rl1"
    "m_current_values rl1 ! rl_index RL_Commit = s32 (m_current_values rl ! rl_index RL_Commit - int (card (held I p)))"
    using free_held_spec [OF _ _ blocks_canonical h _ lim p(2,3), of True] reg [of k] used by auto
  let ?p1 = "p\<lparr>regions := (regions p)(k := r), memory_used := memory_used p - card (held I p), pr_limit := Some rl1, holding_memory := icl_empty I\<rparr>"
  have t': "tls_held I p \<subseteq> {rg_base (regions ?p1 BASE)..<rg_base (regions ?p1 BASE) + rg_size (regions ?p1 BASE)} - free_points I (regions ?p1 BASE)"
    using t apart f(4-6) by auto
  have base: "region_inv I (regions ?p1 BASE)" "\<not> rg_locked (regions ?p1 BASE)" using f(2,3) reg [of BASE] by simp_all
  obtain r' rl2 where g: "free_held I (icl_blocks I (holding_tls_memory p)) BASE False ?p1 =
      Some (?p1\<lparr>regions := (regions ?p1)(BASE := r'), memory_used := memory_used ?p1 - card (tls_held I p), pr_limit := Some rl2\<rparr>)"
    "region_inv I r'" "free_points I r' = free_points I (regions ?p1 BASE) \<union> tls_held I p"
    "m_current_values rl2 ! rl_index RL_Commit = m_current_values rl1 ! rl_index RL_Commit"
    using free_held_spec [OF base blocks_canonical t' _ _ _ f(7), of False] used lim by auto
  let ?q = "?p1\<lparr>regions := (regions ?p1)(BASE := r'), memory_used := memory_used ?p1 - card (tls_held I p), pr_limit := Some rl2,
      holding_tls_memory := icl_empty I, tls_slots := []\<rparr>"
  have "FreeAllMemory I p = Some ?q" using p f(1) g(1) by (simp add: FreeAllMemory_def)
  moreover have "region_inv I (regions ?q j) \<and> free_points I (regions ?q j) =
      free_points I (regions p j) \<union> (if j = k then held I p else {}) \<union> (if j = BASE then tls_held I p else {})" for j
    using g(2,3) f(2,6) reg [of j] by auto
  moreover have "committed ?q = s32 (committed p - int (card (held I p)))" using p(2) f(8) g(4) by (simp add: committed_def)
  ultimately show ?thesis using used by (intro exI [of _ ?q]) (simp add: empty_points)
qed

end



section \<open>Aliases\<close>

lemma alias_blocks_spec:
  assumes "host_layout H" "vm_inv H cached vm" "\<not> is_locked vm" "CITRA_PAGE_SIZE dvd target" "\<forall>b \<in> set bs. good_block H b"
    "free_range vm target (length (expand bs))"
  shows "\<exists>vm'. alias_blocks cached bs target state perms vm = Some vm' \<and> vm_inv H cached vm' \<and> \<not> is_locked vm' \<and>
    (\<forall>n < length (expand bs). contents vm' (target + n) = Some (BackingMemory, perms, state, expand bs ! n)) \<and>
    (\<forall>a. \<not> (target \<le> a \<and> a < target + length (expand bs)) \<longrightarrow> kept state perms (contents vm a) (contents vm' a))"
  using assms
proof (induction bs arbitrary: target vm)
  case Nil
  then show ?case by (simp add: expand_def)
next
  case (Cons b bs)
  obtain mem n where b: "b = (mem, n)" by fastforce
  have g: "0 < n" "CITRA_PAGE_SIZE dvd n" "ref_covers H mem n" using Cons.prems(5) by (simp_all add: b good_block_def)
  have len: "length (expand (b # bs)) = n + length (expand bs)" by (simp add: b expand_Cons)
  have fr: "free_range vm target n" using Cons.prems(6) by (auto simp: free_range_def len)
  obtain vm1 where m: "map_protect cached target mem n state perms vm = Some vm1" "vm_inv H cached vm1" "\<not> is_locked vm1"
    and c1: "\<forall>a. target \<le> a \<and> a < target + n \<longrightarrow> contents vm1 a = Some (BackingMemory, perms, state, GetPtr mem + (a - target))"
    and k1: "\<forall>a. \<not> (target \<le> a \<and> a < target + n) \<longrightarrow> kept state perms (contents vm a) (contents vm1 a)"
    by (rule map_protect_spec [OF Cons.prems(1-4) g(2,1,3) fr, where state = state and perms = perms]) blast
  have "target + length (expand (b # bs)) \<le> MAX_ADDRESS" using free_range_bound [OF Cons.prems(2,6)] g(1) by (simp add: len)
  then have add: "add32 target n = target + n" by (simp add: add32_small len MAX_ADDRESS_def)
  have "free_range vm1 (target + n) (length (expand bs))" using free_range_kept [OF _ k1] Cons.prems(6) by (simp add: len)
  then obtain vm' where t: "alias_blocks cached bs (target + n) state perms vm1 = Some vm'" "vm_inv H cached vm'" "\<not> is_locked vm'"
    and c2: "\<forall>k < length (expand bs). contents vm' (target + n + k) = Some (BackingMemory, perms, state, expand bs ! k)"
    and k2: "\<forall>a. \<not> (target + n \<le> a \<and> a < target + n + length (expand bs)) \<longrightarrow> kept state perms (contents vm1 a) (contents vm' a)"
    using Cons.IH [of vm1 "target + n"] Cons.prems(1,4,5) m(2,3) g(2) by auto
  have "alias_blocks cached (b # bs) target state perms vm = Some vm'" using t(1) m(1) add by (simp add: b)
  moreover have "contents vm' (target + k) = Some (BackingMemory, perms, state, expand (b # bs) ! k)" if k: "k < length (expand (b # bs))" for k
  proof (cases "k < n")
    case True
    then have "contents vm1 (target + k) = Some (BackingMemory, perms, state, GetPtr mem + k)" using c1 by simp
    moreover have "kept state perms (contents vm1 (target + k)) (contents vm' (target + k))" using k2 True by simp
    ultimately show ?thesis using True kept_done by (fastforce simp: b expand_Cons nth_append)
  next
    case False
    then show ?thesis using c2 [rule_format, of "k - n"] k by (simp add: b expand_Cons nth_append)
  qed
  moreover have "kept state perms (contents vm a) (contents vm' a)" if "\<not> (target \<le> a \<and> a < target + length (expand (b # bs)))" for a
  proof -
    have "\<not> (target \<le> a \<and> a < target + n)" "\<not> (target + n \<le> a \<and> a < target + n + length (expand bs))" using that by (auto simp: len)
    then show ?thesis using k1 k2 kept_trans by blast
  qed
  ultimately show ?case using t(2,3) by blast
qed

lemma not_overlapping:
  assumes "target + sz \<le> source \<or> source + sz \<le> target" "target + sz \<le> MAX_ADDRESS" "source + sz \<le> MAX_ADDRESS" "0 < sz"
  shows "\<not> overlapping target source sz"
  using assms by (auto simp: overlapping_def sub32_def MAX_ADDRESS_def mod_if)

lemma Map_effect:
  assumes inv: "proc_inv I H k p" and al: "CITRA_PAGE_SIZE dvd target" "CITRA_PAGE_SIZE dvd source" "CITRA_PAGE_SIZE dvd sz" "0 < sz"
    and src: "HEAP_VADDR \<le> source" "source + sz \<le> HEAP_VADDR_END" and tgt: "target + sz \<le> MAX_ADDRESS" "free_range (pr_vm p) target sz"
    and apart: "target + sz \<le> source \<or> source + sz \<le> target"
    and own: "\<forall>a. source \<le> a \<and> a < source + sz \<longrightarrow> contents (pr_vm p) a = Some (BackingMemory, PermReadWrite, StPrivate, host_ptr (pr_vm p) a)"
  obtains vm where "Process_Map target source sz perms False p = Ok (p\<lparr>pr_vm := vm\<rparr>) ()"
    "vm_inv H (cached_pages (pr_mem p)) vm" "\<not> is_locked vm"
    "\<forall>n < sz. contents vm (target + n) = Some (BackingMemory, perms, StAlias, host_ptr (pr_vm p) (source + n))"
    "\<forall>n < sz. contents vm (source + n) = Some (BackingMemory, PermReadWrite, StAliased, host_ptr (pr_vm p) (source + n))"
    "\<forall>a. \<not> (target \<le> a \<and> a < target + sz) \<and> \<not> (source \<le> a \<and> a < source + sz) \<longrightarrow> kept StAlias perms (contents (pr_vm p) a) (contents vm a)"
proof -
  have p: "fcram_in H (pr_mem p)" "vm_inv H (cached_pages (pr_mem p)) (pr_vm p)" "\<not> is_locked (pr_vm p)" using inv by (auto simp: proc_inv_def)
  have hl: "host_layout H" using p(1) by (simp add: fcram_in_def)
  have rng: "source + sz \<le> MAX_ADDRESS" using src(2) by (simp add: HEAP_VADDR_END_def MAX_ADDRESS_def)
  have area: "in_heap_area source sz" using src in_heap_area_iff [of source sz] al(4) by (simp add: HEAP_VADDR_END_def)
  have b: "target < MAX_ADDRESS" "target + sz < 2 ^ 32" using tgt(1) al(4) by (simp_all add: MAX_ADDRESS_def)
  have nf: "no_free_in (pr_vm p) source sz" using own by (simp add: no_free_in_def type_at_def)
  obtain vm1 where c: "ChangeMemoryState (cached_pages (pr_mem p)) source sz StPrivate PermReadWrite StAliased PermReadWrite (pr_vm p) = Ok vm1 ()"
      "vm_inv H (cached_pages (pr_mem p)) vm1" "\<not> is_locked vm1"
    and con: "contents vm1 = (\<lambda>a. if source \<le> a \<and> a < source + sz
      then map_option (\<lambda>(t, _, _, h). (t, PermReadWrite, StAliased, h)) (contents (pr_vm p) a) else contents (pr_vm p) a)"
    using ChangeMemoryState_effect [OF hl p(2,3) al(2-4) rng, of StPrivate PermReadWrite StAliased PermReadWrite] nf own by auto
  have at_source: "contents vm1 a = Some (BackingMemory, PermReadWrite, StAliased, host_ptr (pr_vm p) a)" if "source \<le> a" "a < source + sz" for a
    using own that by (simp add: con)
  then have hp: "host_ptr vm1 a = host_ptr (pr_vm p) a" if "source \<le> a" "a < source + sz" for a using that by (simp add: host_ptr_def)
  have nf1: "no_free_in vm1 source sz" using at_source by (simp add: no_free_in_def type_at_def)
  obtain bs where bs: "GetBackingBlocksForRange source sz vm1 = Ok () bs" "expand bs = map (host_ptr vm1) [source..<source + sz]"
    using GetBackingBlocksForRange_effect [OF c(2) al(4) rng] nf1 by auto
  have len: "length (expand bs) = sz" by (simp add: bs(2))
  have "free_range vm1 target sz" using tgt(2) apart by (auto simp: free_range_def type_at_def con)
  then obtain vm where t: "alias_blocks (cached_pages (pr_mem p)) bs target StAlias perms vm1 = Some vm" "vm_inv H (cached_pages (pr_mem p)) vm" "\<not> is_locked vm"
    and c2: "\<forall>n < sz. contents vm (target + n) = Some (BackingMemory, perms, StAlias, expand bs ! n)"
    and k2: "\<forall>a. \<not> (target \<le> a \<and> a < target + sz) \<longrightarrow> kept StAlias perms (contents vm1 a) (contents vm a)"
    using alias_blocks_spec [OF hl c(2,3) al(1) GetBackingBlocks_good [OF c(2) al(2,3) rng bs(1)], of StAlias perms] unfolding len by blast
  show thesis
  proof (rule that)
    show "Process_Map target source sz perms False p = Ok (p\<lparr>pr_vm := vm\<rparr>) ()"
      using area not_overlapping [OF apart tgt(1) rng al(4)] check_unused_free [OF p(2) b(1) al(4) b(2)] tgt(2) c(1) bs(1) t(1)
      by (simp add: Process_Map_def orCrash_def)
    show "\<forall>n < sz. contents vm (target + n) = Some (BackingMemory, perms, StAlias, host_ptr (pr_vm p) (source + n))"
      using c2 hp by (simp add: bs(2))
    show "\<forall>n < sz. contents vm (source + n) = Some (BackingMemory, PermReadWrite, StAliased, host_ptr (pr_vm p) (source + n))"
    proof (intro allI impI)
      fix n assume n: "n < sz"
      then have "kept StAlias perms (contents vm1 (source + n)) (contents vm (source + n))" using k2 apart by auto
      then show "contents vm (source + n) = Some (BackingMemory, PermReadWrite, StAliased, host_ptr (pr_vm p) (source + n))"
        using at_source [of "source + n"] n by (auto simp: kept_def)
    qed
    show "\<forall>a. \<not> (target \<le> a \<and> a < target + sz) \<and> \<not> (source \<le> a \<and> a < source + sz) \<longrightarrow> kept StAlias perms (contents (pr_vm p) a) (contents vm a)"
    proof (intro allI impI)
      fix a assume a: "\<not> (target \<le> a \<and> a < target + sz) \<and> \<not> (source \<le> a \<and> a < source + sz)"
      then have "contents vm1 a = contents (pr_vm p) a" by (simp only: con) argo
      then show "kept StAlias perms (contents (pr_vm p) a) (contents vm a)" using k2 a by metis
    qed
  qed (rule t)+
qed



section \<open>Thread-local storage\<close>

definition used_slots :: "bool list list \<Rightarrow> (nat \<times> nat) set" where
  "used_slots ss = {(pg, sl). pg < length ss \<and> sl < 8 \<and> ss ! pg ! sl}"

lemma find_tls_slot_Some:
  "find_tls_slot ss n = Some (pg, sl) \<Longrightarrow> \<forall>s \<in> set ss. length s = 8 \<Longrightarrow> n \<le> pg \<and> pg - n < length ss \<and> sl < 8 \<and> \<not> ss ! (pg - n) ! sl"
proof (induction ss n rule: find_tls_slot.induct)
  case (2 slots rest page)
  show ?case
  proof (cases "list_all id slots")
    case True
    then show ?thesis using 2 by (auto simp: nth_Cons' Suc_diff_le)
  next
    case False
    then have "length (takeWhile id slots) < length slots"
      by (metis length_takeWhile_le list_all_iff nat_less_le takeWhile_eq_all_conv takeWhile_eq_take take_all)
    then show ?thesis using 2 False nth_length_takeWhile [of id slots] by auto
  qed
qed simp

lemma find_tls_slot_None: "find_tls_slot ss n = None \<Longrightarrow> \<forall>s \<in> set ss. list_all id s"
  by (induction ss n rule: find_tls_slot.induct) (auto split: if_splits)

lemma used_slots_set:
  assumes "pg < length ss" "sl < 8" "\<forall>s \<in> set ss. length s = 8"
  shows "used_slots (ss[pg := (ss ! pg)[sl := True]]) = insert (pg, sl) (used_slots ss)"
    "\<forall>s \<in> set (ss[pg := (ss ! pg)[sl := True]]). length s = 8"
proof -
  have l: "length (ss ! pg) = 8" using assms by simp
  show "used_slots (ss[pg := (ss ! pg)[sl := True]]) = insert (pg, sl) (used_slots ss)"
    using assms(1,2) l by (auto simp: used_slots_def nth_list_update split: if_splits)
  show "\<forall>s \<in> set (ss[pg := (ss ! pg)[sl := True]]). length s = 8"
    using assms l set_update_subset_insert [of ss pg "(ss ! pg)[sl := True]"] by auto
qed

lemma used_slots_new: "used_slots (ss @ [replicate 8 False]) = used_slots ss"
  by (auto simp: used_slots_def nth_append less_Suc_eq)

lemma tls_address: "pg \<le> 0x10000 \<Longrightarrow> sl < 8 \<Longrightarrow> tls_address_of pg sl = TLS_AREA_VADDR + pg * 0x1000 + sl * 0x200"
  by (simp add: tls_address_of_def TLS_AREA_VADDR_def CITRA_PAGE_SIZE_def TLS_ENTRY_SIZE_def add32_small)

lemma proc_inv_host: "proc_inv I H k p \<Longrightarrow> proc_inv I H k (p\<lparr>pr_mem := (pr_mem p)\<lparr>host := h\<rparr>, tls_slots := ss\<rparr>)"
  by (simp add: proc_inv_def fcram_in_def cached_pages_def [abs_def] IsCached_def)

lemma take_tls_slot_ok:
  assumes inv: "proc_inv I H k p" and pg: "pg < length (tls_slots p)" "pg \<le> 0x10000" "sl < 8" "\<forall>s \<in> set (tls_slots p). length s = 8"
  shows "\<exists>p'. take_tls_slot gpu pg sl p = Ok p' (TLS_AREA_VADDR + pg * 0x1000 + sl * 0x200) \<and> proc_inv I H k p' \<and>
    used_slots (tls_slots p') = insert (pg, sl) (used_slots (tls_slots p)) \<and> (\<forall>s \<in> set (tls_slots p'). length s = 8)"
proof -
  let ?a = "TLS_AREA_VADDR + pg * 0x1000 + sl * 0x200"
  have "plain (vm_page_table (pr_vm p)) x" if x: "?a \<le> x" "x < ?a + 0x200" for x
  proof (rule vm_byte_ptr(1))
    show "vm_inv H (cached_pages (pr_mem p)) (pr_vm p)" using inv by (simp add: proc_inv_def)
    show "x < MAX_ADDRESS" using x pg by (simp add: TLS_AREA_VADDR_def MAX_ADDRESS_def)
    have b: "0x1FF82000 \<le> x" "x < 0x30000000" using x pg by (simp_all add: TLS_AREA_VADDR_def)
    then have "0x1FF82 \<le> x div 0x1000" "x div 0x1000 < 0x30000" by (simp_all add: less_mult_imp_div_less div_le_mono [of "0x1FF82000" x "0x1000", simplified])
    then show "\<not> cached_pages (pr_mem p) (x div CITRA_PAGE_SIZE)"
      by (simp add: cached_pages_def IsCached_def marker_tracks_def in_region_def region_defs CITRA_PAGE_SIZE_def)
  qed
  then have "plain_range (vm_page_table (pr_vm p)) ?a 0x200" by (simp add: plain_range_def)
  note z = ZeroBlock_poke [OF this]
  let ?p = "p\<lparr>pr_mem := (pr_mem p)\<lparr>host := poke (vm_page_table (pr_vm p)) ?a (replicate 0x200 0) (host (pr_mem p))\<rparr>,
      tls_slots := (tls_slots p)[pg := (tls_slots p ! pg)[sl := True]]\<rparr>"
  have "take_tls_slot gpu pg sl p = Ok ?p ?a"
    using z tls_address [OF pg(2,3)] by (simp add: take_tls_slot_def TLS_ENTRY_SIZE_def Let_def)
  then show ?thesis using proc_inv_host [OF inv] used_slots_set [OF pg(1,3,4)] by (intro exI [of _ ?p]) simp
qed

context interval_set
begin

lemma new_tls_page_ok:
  assumes inv: "proc_inv I H k p" and n: "length (tls_slots p) \<le> 0x10000"
  shows "if \<forall>b. \<not> {b..<b + CITRA_PAGE_SIZE} \<subseteq> free_points I (regions p BASE) then new_tls_page I p = Err p ResultOutOfMemory
    else \<exists>p'. new_tls_page I p = Ok p' () \<and> proc_inv I H k p' \<and> tls_slots p' = tls_slots p @ [replicate 8 False]"
proof -
  note reg = proc_inv_regions [OF inv, of BASE]
  obtain o' r where l: "region_LinearAllocate I CITRA_PAGE_SIZE (regions p BASE) = Some (o', r)"
    using linear_allocate [of "regions p BASE" CITRA_PAGE_SIZE] reg by (cases "region_LinearAllocate I CITRA_PAGE_SIZE (regions p BASE)") auto
  show ?thesis
  proof (cases o')
    case None
    then show ?thesis using linear_allocate [of "regions p BASE" CITRA_PAGE_SIZE] reg l by (simp add: new_tls_page_def orCrash_def)
  next
    case (Some off)
    let ?A = "{off..<off + CITRA_PAGE_SIZE}"
    have a: "?A \<subseteq> free_points I (regions p BASE)"
        "region_inv I r" "\<not> rg_locked r" "free_points I r = free_points I (regions p BASE) - ?A"
        "rg_base r = rg_base (regions p BASE)" "rg_size r = rg_size (regions p BASE)"
      using linear_allocate [of "regions p BASE" CITRA_PAGE_SIZE] reg l Some by simp_all
    have d: "CITRA_PAGE_SIZE dvd off" using region_LinearAllocate_aligned [of "regions p BASE" CITRA_PAGE_SIZE off r] reg l Some by simp
    have p: "fcram_in H (pr_mem p)" "vm_inv H (cached_pages (pr_mem p)) (pr_vm p)" "\<not> is_locked (pr_vm p)" using inv by (auto simp: proc_inv_def)
    have hl: "host_layout H" using p(1) by (simp add: fcram_in_def)
    have sub: "?A \<subseteq> {rg_base (regions p BASE)..<rg_base (regions p BASE) + rg_size (regions p BASE)}" using a(1) reg unfolding region_inv_def by blast
    have "off + CITRA_PAGE_SIZE - 1 \<in> ?A" by (simp add: CITRA_PAGE_SIZE_def)
    then have "off + CITRA_PAGE_SIZE - 1 \<in> {rg_base (regions p BASE)..<rg_base (regions p BASE) + rg_size (regions p BASE)}" using sub by blast
    then have le: "off + CITRA_PAGE_SIZE \<le> FCRAM_N3DS_SIZE" using reg by auto
    let ?mem = "\<lparr>mr_backing = Some (fcram_mem (pr_mem p)), mr_offset = off\<rparr>" and ?t = "TLS_AREA_VADDR + length (tls_slots p) * CITRA_PAGE_SIZE"
    have ref: "ref_covers H ?mem CITRA_PAGE_SIZE" using le p(1) by (auto simp: ref_covers_def fcram_in_def)
    have t: "add32 TLS_AREA_VADDR (length (tls_slots p) * CITRA_PAGE_SIZE mod 2 ^ 32) = ?t" "?t < MAX_ADDRESS" "?t + CITRA_PAGE_SIZE < 4294967296"
      "CITRA_PAGE_SIZE dvd ?t"
      using n by (simp_all add: TLS_AREA_VADDR_def CITRA_PAGE_SIZE_def add32_small MAX_ADDRESS_def)
    have "\<exists>vm. vm_inv H (cached_pages (pr_mem p)) vm \<and> \<not> is_locked vm \<and>
      (MapBackingMemory (cached_pages (pr_mem p)) ?t ?mem CITRA_PAGE_SIZE StLocked (pr_vm p) = Err vm ResultInvalidAddressState \<or>
       (\<exists>i. MapBackingMemory (cached_pages (pr_mem p)) ?t ?mem CITRA_PAGE_SIZE StLocked (pr_vm p) = Ok vm i))"
    proof (cases "VM_Manager.free_range (pr_vm p) ?t CITRA_PAGE_SIZE")
      case True
      show ?thesis by (rule MapBackingMemory_free [OF hl p(2,3) t(4) dvd_refl page_pos ref True]) blast
    next
      case False
      then show ?thesis
        using MapBackingMemory_errors(2) [OF hl p(2,3) t(4) dvd_refl page_pos t(3) ref t(2) False, of StLocked] p(2,3) by blast
    qed
    then obtain vm where vm: "vm_inv H (cached_pages (pr_mem p)) vm" "\<not> is_locked vm"
      "MapBackingMemory (cached_pages (pr_mem p)) ?t ?mem CITRA_PAGE_SIZE StLocked (pr_vm p) = Err vm ResultInvalidAddressState \<or>
       (\<exists>i. MapBackingMemory (cached_pages (pr_mem p)) ?t ?mem CITRA_PAGE_SIZE StLocked (pr_vm p) = Ok vm i)" by blast
    have w: "add32 off CITRA_PAGE_SIZE = off + CITRA_PAGE_SIZE" "add32 (memory_used p) CITRA_PAGE_SIZE = memory_used p + CITRA_PAGE_SIZE"
      using le memory_used_bound [OF inv] by (simp_all add: add32_small FCRAM_N3DS_SIZE_def CITRA_PAGE_SIZE_def)
    let ?p = "p\<lparr>regions := (regions p)(BASE := r), pr_vm := vm, holding_tls_memory := icl_add I (off, off + CITRA_PAGE_SIZE) (holding_tls_memory p),
        memory_used := memory_used p + CITRA_PAGE_SIZE, tls_slots := tls_slots p @ [replicate 8 False]\<rparr>"
    have "new_tls_page I p = Ok ?p ()"
      using l Some le vm(3) t(1) w by (auto simp: new_tls_page_def orCrash_def set_region_def GetFCRAMRef_def Let_def)
    moreover have "proc_inv I H k ?p"
    proof -
      have th: "tls_held I ?p = tls_held I p \<union> ?A" by (simp add: add_points span_def)
      have tls: "held_in I (regions p BASE) (tls_held I p)" "held_in I (regions p k) (held I p)"
        "k = BASE \<longrightarrow> held I p \<inter> tls_held I p = {}" "memory_used p = card (held I p) + card (tls_held I p)"
        using inv by (simp_all add: proc_inv_def)
      have pg: "paged ?A" using d by (simp add: paged_range)
      have 1: "held_in I r (tls_held I p \<union> ?A)" using tls(1) sub pg unfolding held_in_def a(4-6) by auto
      have 2: "held_in I (regions ?p k) (held I p)" using tls(2) unfolding held_in_def by (auto simp: a(4-6))
      have 3: "k = BASE \<longrightarrow> held I p \<inter> (tls_held I p \<union> ?A) = {}" using tls(2,3) a(1) unfolding held_in_def by blast
      have "tls_held I p \<inter> ?A = {}" using tls(1) a(1) unfolding held_in_def by blast
      then have 4: "card (tls_held I p \<union> ?A) = card (tls_held I p) + CITRA_PAGE_SIZE" by (simp add: card_Un_disjoint)
      have 5: "\<forall>j. region_ok I (regions ?p j)" using inv a(2-6) reg pg by (auto simp: proc_inv_def region_ok_def)
      show ?thesis using inv 1 2 3 4 5 vm(1,2) tls(4) unfolding proc_inv_def th by simp
    qed
    ultimately show ?thesis using a(1) by auto
  qed
qed

lemma allocate_tls:
  assumes inv: "proc_inv I H k p" and n: "length (tls_slots p) \<le> 0x10000" and s: "\<forall>s \<in> set (tls_slots p). length s = 8"
  shows "if (\<forall>s \<in> set (tls_slots p). list_all id s) \<and> (\<forall>b. \<not> {b..<b + CITRA_PAGE_SIZE} \<subseteq> free_points I (regions p BASE))
    then AllocateThreadLocalStorage I gpu p = Err p ResultOutOfMemory
    else \<exists>p' pg sl. AllocateThreadLocalStorage I gpu p = Ok p' (TLS_AREA_VADDR + pg * 0x1000 + sl * 0x200) \<and> proc_inv I H k p' \<and>
      sl < 8 \<and> pg \<le> length (tls_slots p) \<and> (pg, sl) \<notin> used_slots (tls_slots p) \<and>
      used_slots (tls_slots p') = insert (pg, sl) (used_slots (tls_slots p)) \<and> (\<forall>s \<in> set (tls_slots p'). length s = 8)"
proof (cases "find_tls_slot (tls_slots p) 0")
  case (Some x)
  then obtain pg sl where f: "find_tls_slot (tls_slots p) 0 = Some (pg, sl)" by (cases x) simp
  note f' = find_tls_slot_Some [OF f s, simplified]
  have "\<not> (\<forall>s \<in> set (tls_slots p). list_all id s)" using f' s by (auto simp: list_all_length)
  moreover have "(pg, sl) \<notin> used_slots (tls_slots p)" using f' by (simp add: used_slots_def)
  ultimately show ?thesis using take_tls_slot_ok [OF inv, of pg sl gpu] f f' s n by (simp add: AllocateThreadLocalStorage_def) fastforce
next
  case None
  let ?n = "length (tls_slots p)"
  note full = find_tls_slot_None [OF None]
  show ?thesis
  proof (cases "\<forall>b. \<not> {b..<b + CITRA_PAGE_SIZE} \<subseteq> free_points I (regions p BASE)")
    case True
    then show ?thesis using new_tls_page_ok [OF inv n] full None by (simp add: AllocateThreadLocalStorage_def)
  next
    case False
    then obtain p1 where p1: "new_tls_page I p = Ok p1 ()" "proc_inv I H k p1" "tls_slots p1 = tls_slots p @ [replicate 8 False]"
      using new_tls_page_ok [OF inv n] unfolding if_not_P [OF False] by blast
    have "?n < length (tls_slots p1)" "\<forall>s \<in> set (tls_slots p1). length s = 8" using p1(3) s by simp_all
    then obtain p' where t: "take_tls_slot gpu ?n 0 p1 = Ok p' (TLS_AREA_VADDR + ?n * 0x1000 + 0 * 0x200)" "proc_inv I H k p'"
      "used_slots (tls_slots p') = insert (?n, 0) (used_slots (tls_slots p))" "\<forall>s \<in> set (tls_slots p'). length s = 8"
      using take_tls_slot_ok [OF p1(2) _ n, of 0 gpu] unfolding p1(3) used_slots_new by force
    have "AllocateThreadLocalStorage I gpu p = Ok p' (TLS_AREA_VADDR + ?n * 0x1000 + 0 * 0x200)"
      using None p1(1) t(1) by (simp add: AllocateThreadLocalStorage_def)
    moreover have "(?n, 0) \<notin> used_slots (tls_slots p)" by (simp add: used_slots_def)
    moreover have no: "\<not> ((\<forall>s \<in> set (tls_slots p). list_all id s) \<and> (\<forall>b. \<not> {b..<b + CITRA_PAGE_SIZE} \<subseteq> free_points I (regions p BASE)))"
      using False by blast
    ultimately show ?thesis using t(2-4) unfolding if_not_P [OF no] by (intro exI [of _ p'] exI [of _ ?n] exI [of _ 0]) simp
  qed
qed

end

text \<open>
  Property: \<^verbatim>\<open>AllocateThreadLocalStorage\<close> fails, without change, only when every slot of every page is in use and the base region has no free page;
  otherwise it fails no assertion and returns the address of a slot that was not in use, which is then the only slot that becomes used, and the process stays well
  formed. So no two threads of a process are given overlapping storage.
\<close>

theorem AllocateThreadLocalStorage_spec:
  assumes "interval_set I" "proc_inv I H k p" "length (tls_slots p) \<le> 0x10000" "\<forall>s \<in> set (tls_slots p). length s = 8"
  shows "if (\<forall>s \<in> set (tls_slots p). list_all id s) \<and> (\<forall>b. \<not> {b..<b + CITRA_PAGE_SIZE} \<subseteq> free_points I (regions p BASE))
    then AllocateThreadLocalStorage I gpu p = Err p ResultOutOfMemory
    else \<exists>p' pg sl. AllocateThreadLocalStorage I gpu p = Ok p' (TLS_AREA_VADDR + pg * 0x1000 + sl * 0x200) \<and> proc_inv I H k p' \<and>
      sl < 8 \<and> pg \<le> length (tls_slots p) \<and> (pg, sl) \<notin> used_slots (tls_slots p) \<and>
      used_slots (tls_slots p') = insert (pg, sl) (used_slots (tls_slots p)) \<and> (\<forall>s \<in> set (tls_slots p'). length s = 8)"
  by (rule interval_set.allocate_tls [OF assms])

theorem AllocateThreadLocalStorage_spec_witness:
  "\<exists>p' pg sl. AllocateThreadLocalStorage list_icl (\<lambda>_ _ _ h. h) sample_process = Ok p' (TLS_AREA_VADDR + pg * 0x1000 + sl * 0x200) \<and>
     (pg, sl) \<in> used_slots (tls_slots p')"
proof -
  have "{0x6C00000..<0x6C00000 + CITRA_PAGE_SIZE} \<subseteq> free_points list_icl (regions sample_process BASE)"
    by (auto simp: sample_process_def full_region_free CITRA_PAGE_SIZE_def)
  then have "\<not> (\<forall>b. \<not> {b..<b + CITRA_PAGE_SIZE} \<subseteq> free_points list_icl (regions sample_process BASE))" by blast
  moreover have "tls_slots sample_process = []" by (simp add: sample_process_def)
  ultimately have no: "\<not> ((\<forall>s \<in> set (tls_slots sample_process). list_all id s) \<and>
      (\<forall>b. \<not> {b..<b + CITRA_PAGE_SIZE} \<subseteq> free_points list_icl (regions sample_process BASE)))"
    and e: "tls_slots sample_process = []" by blast+
  show ?thesis
    using e AllocateThreadLocalStorage_spec [OF list_icl.interval_set_axioms sample_process_inv, of "\<lambda>_ _ _ h. h"]
    unfolding if_not_P [OF no] by (simp only: list.set list.size) (metis all_not_in_conv insertI1 le0)
qed

section \<open>The layout of FCRAM\<close>

text \<open>
  Property: for the memory modes of the old model and for those of the new one, \<^verbatim>\<open>MemoryInit\<close> succeeds on unlocked regions and divides FCRAM: the three
  regions follow each other from offset 0, each is entirely free and unused, and they end with FCRAM. For the other model, and for mode 1, its assertion fails.
\<close>

theorem MemoryInit_spec:
  assumes "interval_set I" "\<not> rg_locked a" "\<not> rg_locked s" "\<not> rg_locked b" "mode < 8"
  shows "if (if is_new_3ds then mode \<in> {6, 7} else mode \<in> {0, 2, 3, 4, 5})
    then \<exists>a' s' b'. MemoryInit I is_new_3ds mode [a, s, b] = Some [a', s', b'] \<and>
      (\<forall>r \<in> {a', s', b'}. region_ok I r \<and> rg_used r = 0 \<and> free_points I r = {rg_base r..<rg_base r + rg_size r}) \<and>
      rg_base a' = 0 \<and> rg_base s' = rg_size a' \<and> rg_base b' = rg_base s' + rg_size s' \<and>
      rg_base b' + rg_size b' = (if is_new_3ds then FCRAM_N3DS_SIZE else FCRAM_SIZE)
    else MemoryInit I is_new_3ds mode [a, s, b] = None"
proof -
  have fp: "free_points I (r\<lparr>rg_base := x, rg_size := n, rg_used := 0, free_blocks := icl_add I (x, y) (icl_empty I)\<rparr>) = {x..<y}" for r x y n
    by (simp add: free_points_def interval_set.add_points [OF assms(1)] interval_set.empty_points [OF assms(1)] span_def)
  have ok: "region_ok I (r\<lparr>rg_base := x, rg_size := n, rg_used := 0, free_blocks := icl_add I (x, y) (icl_empty I)\<rparr>)"
    if "y = x + n" "CITRA_PAGE_SIZE dvd x" "CITRA_PAGE_SIZE dvd n" "x + n \<le> FCRAM_N3DS_SIZE" "\<not> rg_locked r" for r x y n
    using that fp [where r = r and x = x and n = n and y = "x + n"] by (simp add: region_ok_def region_inv_def paged_range FCRAM_N3DS_SIZE_def)
  consider "mode = 0" | "mode = 1" | "mode = 2" | "mode = 3" | "mode = 4" | "mode = 5" | "mode = 6" | "mode = 7" using assms(5) by linarith
  then show ?thesis
    by cases (use assms(2-4) in \<open>auto simp: ok fp MemoryInit_def memory_region_sizes_def region_Reset_def add32_def FCRAM_SIZE_def FCRAM_N3DS_SIZE_def CITRA_PAGE_SIZE_def\<close>)
qed

theorem MemoryInit_spec_witness:
  "\<exists>a' s' b'. MemoryInit list_icl False 0 [full_region 0 0, full_region 0 0, full_region 0 0] = Some [a', s', b'] \<and>
     rg_base b' + rg_size b' = FCRAM_SIZE"
  using MemoryInit_spec [OF list_icl.interval_set_axioms, of "full_region 0 0" "full_region 0 0" "full_region 0 0" 0 False]
  by (simp add: full_region_def) blast

end
