(* ===== verification/Process_Caps.thy ===== *)
theory Process_Caps imports Process_Memory begin

text \<open>
  Kernel capabilities of a process: \<^verbatim>\<open>Process::ParseKernelCaps\<close> and \<^verbatim>\<open>Set3dsxKernelCaps\<close> (\<^verbatim>\<open>src/core/hle/kernel/process.cpp\<close>), the decoder of the
  descriptors of an extended header. The list of mappings is a \<^verbatim>\<open>boost::container::static_vector\<close> of capacity 8, whose \<^verbatim>\<open>push_back\<close> throws when it is
  full: the result is then \<open>None\<close>.
\<close>

unbundle bit_operations_syntax

section \<open>Model\<close>

record process_caps =
  svc_access_mask :: "bool list"
  handle_table_size :: nat
  flags_raw :: nat
  address_mappings :: "address_mapping list"
  caps_kernel_version :: nat

definition NewCaps :: process_caps where
  "NewCaps = \<lparr>svc_access_mask = replicate 0x80 False, handle_table_size = 0x200, flags_raw = 0, address_mappings = [], caps_kernel_version = 0\<rparr>"

definition MAX_MAPPINGS :: nat where "MAX_MAPPINGS = 8"

function set_svcs :: "nat \<Rightarrow> nat \<Rightarrow> bool list \<Rightarrow> bool list" where
  "set_svcs bits index allowed =
     (if bits \<noteq> 0 \<and> index < length allowed then set_svcs (bits div 2) (index + 1) (allowed[index := odd bits]) else allowed)"
  by pat_completeness auto
termination by (relation "measure fst") auto

declare set_svcs.simps [simp del]

definition push_mapping :: "address_mapping \<Rightarrow> process_caps \<Rightarrow> process_caps option" where
  "push_mapping m c =
     (if length (address_mappings c) < MAX_MAPPINGS then Some (c\<lparr>address_mappings := address_mappings c @ [m]\<rparr>) else None)"

definition range_mapping :: "u32 \<Rightarrow> u32 \<Rightarrow> address_mapping" where
  "range_mapping descriptor end_desc =
     (let address = unat (push_bit 12 descriptor); end_address = unat (push_bit 12 end_desc) in
      \<lparr>am_address = address, am_size = (if address < end_address then end_address - address else 0),
       read_only = bit descriptor 20, unk_flag = bit end_desc 20\<rparr>)"

definition page_mapping :: "u32 \<Rightarrow> address_mapping" where
  "page_mapping descriptor =
     \<lparr>am_address = unat (push_bit 12 descriptor), am_size = CITRA_PAGE_SIZE, read_only = False, unk_flag = False\<rparr>"

definition is_svc_mask :: "u32 \<Rightarrow> bool" where
  "is_svc_mask descriptor \<longleftrightarrow> drop_bit 20 descriptor AND 0xF80 = 0xF00"

definition is_interrupt_list :: "u32 \<Rightarrow> bool" where
  "is_interrupt_list descriptor \<longleftrightarrow> drop_bit 20 descriptor AND 0xF00 = 0xE00"

definition is_handle_table_size :: "u32 \<Rightarrow> bool" where
  "is_handle_table_size descriptor \<longleftrightarrow> drop_bit 20 descriptor AND 0xFF0 = 0xFE0"

definition is_misc_flags :: "u32 \<Rightarrow> bool" where
  "is_misc_flags descriptor \<longleftrightarrow> drop_bit 20 descriptor AND 0xFF8 = 0xFF0"

definition is_range :: "u32 \<Rightarrow> bool" where
  "is_range descriptor \<longleftrightarrow> drop_bit 20 descriptor AND 0xFFE = 0xFF8"

definition is_page :: "u32 \<Rightarrow> bool" where
  "is_page descriptor \<longleftrightarrow> drop_bit 20 descriptor AND 0xFFF = 0xFFE"

definition is_kernel_version :: "u32 \<Rightarrow> bool" where
  "is_kernel_version descriptor \<longleftrightarrow> drop_bit 20 descriptor AND 0xFE0 = 0xFC0"

definition svc_group :: "u32 \<Rightarrow> nat" where
  "svc_group descriptor = unat (drop_bit 24 descriptor AND 7)"

definition set_svc_mask :: "u32 \<Rightarrow> bool list \<Rightarrow> bool list" where
  "set_svc_mask descriptor allowed = set_svcs (unat (descriptor AND 0xFFFFFF)) (svc_group descriptor * 24) allowed"

fun ParseKernelCaps :: "u32 list \<Rightarrow> process_caps \<Rightarrow> process_caps option" where
  "ParseKernelCaps [] c = Some c"
| "ParseKernelCaps (descriptor # rest) c =
     (if descriptor = 0xFFFFFFFF then ParseKernelCaps rest c
      else if is_interrupt_list descriptor then ParseKernelCaps rest c
      else if is_svc_mask descriptor
      then ParseKernelCaps rest (c\<lparr>svc_access_mask := set_svc_mask descriptor (svc_access_mask c)\<rparr>)
      else if is_handle_table_size descriptor
      then ParseKernelCaps rest (c\<lparr>handle_table_size := unat (descriptor AND 0x3FF)\<rparr>)
      else if is_misc_flags descriptor then ParseKernelCaps rest (c\<lparr>flags_raw := unat (descriptor AND 0xFFFF)\<rparr>)
      else if is_range descriptor
      then (case rest of
              [] \<Rightarrow> Some c
            | end_desc # rest' \<Rightarrow>
                if \<not> is_range end_desc then ParseKernelCaps rest c
                else Option.bind (push_mapping (range_mapping descriptor end_desc) c) (ParseKernelCaps rest'))
      else if is_page descriptor then Option.bind (push_mapping (page_mapping descriptor) c) (ParseKernelCaps rest)
      else if is_kernel_version descriptor
      then ParseKernelCaps rest (c\<lparr>caps_kernel_version := unat (descriptor AND 0xFFFF)\<rparr>)
      else ParseKernelCaps rest c)"

definition Set3dsxKernelCaps :: "process_caps \<Rightarrow> process_caps" where
  "Set3dsxKernelCaps c =
     c\<lparr>svc_access_mask := replicate (length (svc_access_mask c)) True,
       address_mappings := [\<lparr>am_address = 0x1FF50000, am_size = 0x8000, read_only = True, unk_flag = False\<rparr>,
         \<lparr>am_address = 0x1FF70000, am_size = 0x8000, read_only = True, unk_flag = False\<rparr>,
         \<lparr>am_address = 0x1F000000, am_size = 0x600000, read_only = False, unk_flag = False\<rparr>],
       caps_kernel_version := 0x23a\<rparr>"

section \<open>Correctness\<close>

lemma length_set_svcs [simp]: "length (set_svcs bits index allowed) = length allowed"
  by (induction bits index allowed rule: set_svcs.induct) (subst set_svcs.simps, simp)

lemma nth_set_svcs:
  "n < length allowed \<Longrightarrow> set_svcs bits index allowed ! n =
     (if index \<le> n \<and> bits div 2 ^ (n - index) \<noteq> 0 then bit bits (n - index) else allowed ! n)"
proof (induction bits index allowed rule: set_svcs.induct)
  case (1 bits index allowed)
  show ?case
  proof (cases "bits \<noteq> 0 \<and> index < length allowed")
    case True
    have "set_svcs bits index allowed ! n = set_svcs (bits div 2) (index + 1) (allowed[index := odd bits]) ! n"
      using True by (subst set_svcs.simps) simp
    also have "\<dots> = (if index + 1 \<le> n \<and> bits div 2 div 2 ^ (n - (index + 1)) \<noteq> 0 then bit (bits div 2) (n - (index + 1)) else allowed[index := odd bits] ! n)"
      using 1 True by simp
    also have "\<dots> = (if index \<le> n \<and> bits div 2 ^ (n - index) \<noteq> 0 then bit bits (n - index) else allowed ! n)"
    proof (cases "n = index")
      case False
      then show ?thesis
        by (cases "n < index") (auto simp: not_less Suc_le_eq div_mult2_eq [symmetric] bit_Suc [symmetric] power_Suc [symmetric] Suc_diff_Suc simp del: power_Suc)
    qed (use True in \<open>auto simp: bit_0\<close>)
    finally show ?thesis .
  next
    case False
    then show ?thesis using 1(2) by (subst set_svcs.simps) auto
  qed
qed

text \<open>Descriptors that are skipped over as the second half of a range never carry a mask.\<close>

lemma not_svc_mask:
  "\<not> is_svc_mask 0xFFFFFFFF"
  "is_interrupt_list d \<Longrightarrow> \<not> is_svc_mask d"
  "is_range d \<Longrightarrow> \<not> is_svc_mask d"
proof -
  have "drop_bit 20 d AND 0xF00 = (drop_bit 20 d AND 0xF80) AND 0xF00" by (simp add: and.assoc)
  then show "is_interrupt_list d \<Longrightarrow> \<not> is_svc_mask d" unfolding is_svc_mask_def is_interrupt_list_def by force
  have "drop_bit 20 d AND 0xF80 = (drop_bit 20 d AND 0xFFE) AND 0xF80" by (simp add: and.assoc)
  then show "is_range d \<Longrightarrow> \<not> is_svc_mask d" unfolding is_svc_mask_def is_range_def by force
qed (simp add: is_svc_mask_def)

lemma push_mapping_mask: "push_mapping m c = Some c' \<Longrightarrow> svc_access_mask c' = svc_access_mask c"
  by (auto simp: push_mapping_def split: if_splits)

declare ParseKernelCaps.simps(2) [simp del]

lemma ParseKernelCaps_step:
  assumes "ParseKernelCaps (d # rest) c = Some c'"
  shows "\<exists>rest1 c1. ParseKernelCaps rest1 c1 = Some c' \<and> length rest1 \<le> length rest \<and> filter is_svc_mask rest1 = filter is_svc_mask rest \<and>
    svc_access_mask c1 = (if is_svc_mask d then set_svc_mask d (svc_access_mask c) else svc_access_mask c)"
proof (cases "is_range d \<and> d \<noteq> 0xFFFFFFFF \<and> \<not> is_interrupt_list d \<and> \<not> is_handle_table_size d \<and> \<not> is_misc_flags d")
  case True
  then show ?thesis
    using assms [unfolded ParseKernelCaps.simps(2)] not_svc_mask(3)
    by (cases rest) (force simp: bind_eq_Some_conv push_mapping_mask split: if_splits)+
next
  case False
  then show ?thesis
    using assms [unfolded ParseKernelCaps.simps(2)] not_svc_mask by (intro exI [of _ rest]) (auto simp: bind_eq_Some_conv push_mapping_mask split: if_splits)
qed

lemma ParseKernelCaps_mask:
  "ParseKernelCaps ds c = Some c' \<Longrightarrow> svc_access_mask c' = fold set_svc_mask (filter is_svc_mask ds) (svc_access_mask c)"
proof (induction ds arbitrary: c rule: length_induct)
  case (1 ds)
  show ?case
  proof (cases ds)
    case (Cons d rest)
    obtain rest1 c1 where s: "ParseKernelCaps rest1 c1 = Some c'" "length rest1 \<le> length rest" "filter is_svc_mask rest1 = filter is_svc_mask rest"
      "svc_access_mask c1 = (if is_svc_mask d then set_svc_mask d (svc_access_mask c) else svc_access_mask c)"
      using ParseKernelCaps_step 1(2) Cons by blast
    then have "svc_access_mask c' = fold set_svc_mask (filter is_svc_mask rest1) (svc_access_mask c1)" 
      using 1(1) [rule_format, of rest1 c1] Cons by (simp add: le_imp_less_Suc)
    then show ?thesis using s(3,4) Cons by simp
  qed (use 1 in simp)
qed

lemma low_bits: "unat ((d :: u32) AND 0xFFFFFF) < 2 ^ 24" "k < 24 \<Longrightarrow> bit (unat (d AND 0xFFFFFF)) k \<longleftrightarrow> bit d k"
proof -
  have m: "(0xFFFFFF :: u32) = mask 24" by (simp add: mask_eq_exp_minus_1)
  have e: "unat (d AND 0xFFFFFF) = take_bit 24 (unat d)" unfolding m by (simp add: take_bit_eq_mask [symmetric] unsigned_take_bit_eq)
  show "unat (d AND 0xFFFFFF) < 2 ^ 24" unfolding e by (rule take_bit_nat_less_exp)
  show "k < 24 \<Longrightarrow> bit (unat (d AND 0xFFFFFF)) k \<longleftrightarrow> bit d k" unfolding e by (simp add: bit_take_bit_iff bit_unsigned_iff)
qed

lemma nth_set_svc_mask:
  assumes n: "n < length allowed"
  shows "set_svc_mask d allowed ! n =
    (if n div 24 = svc_group d \<and> unat (d AND 0xFFFFFF) div 2 ^ (n mod 24) \<noteq> 0 then bit d (n mod 24) else allowed ! n)"
proof (cases "n div 24 = svc_group d")
  case True
  have "n = svc_group d * 24 + n mod 24" using True div_mult_mod_eq [of n 24] by simp
  then have "svc_group d * 24 \<le> n" "n - svc_group d * 24 = n mod 24" by linarith+
  then show ?thesis using True low_bits(2) [of "n mod 24" d] nth_set_svcs [OF n] by (simp add: set_svc_mask_def)
next
  case False
  show ?thesis
  proof (cases "svc_group d * 24 \<le> n")
    case True
    then have "svc_group d < n div 24" using False by (metis div_le_mono le_neq_implies_less nonzero_mult_div_cancel_right zero_neq_numeral)
    then have "(svc_group d + 1) * 24 \<le> n div 24 * 24" by (intro mult_right_mono) simp_all
    then have "24 \<le> n - svc_group d * 24" using div_times_less_eq_dividend [of n 24] by (simp add: algebra_simps)
    then have "(2 :: nat) ^ 24 \<le> 2 ^ (n - svc_group d * 24)" by (intro power_increasing) simp_all
    then have "unat (d AND 0xFFFFFF) div 2 ^ (n - svc_group d * 24) = 0" using low_bits(1) [of d] by (intro div_less) linarith
    then show ?thesis using False nth_set_svcs [OF n] by (simp add: set_svc_mask_def)
  qed (use False nth_set_svcs [OF n] in \<open>simp add: set_svc_mask_def\<close>)
qed

lemma nth_svc_masks:
  assumes "distinct (map svc_group ds)" "n < length allowed" "(\<exists>d \<in> set ds. svc_group d = n div 24) \<longrightarrow> \<not> allowed ! n"
  shows "fold set_svc_mask ds allowed ! n \<longleftrightarrow> allowed ! n \<or> (\<exists>d \<in> set ds. svc_group d = n div 24 \<and> bit d (n mod 24))"
  using assms
proof (induction ds arbitrary: allowed)
  case (Cons d ds)
  have len: "length (set_svc_mask d allowed) = length allowed" by (simp add: set_svc_mask_def)
  have zero: "unat (d AND 0xFFFFFF) div 2 ^ (n mod 24) \<noteq> 0" if "bit d (n mod 24)"
  proof -
    have "bit (unat (d AND 0xFFFFFF)) (n mod 24)" using that low_bits(2) [of "n mod 24" d] by simp
    then show ?thesis by (metis bit_iff_odd even_zero)
  qed
  have step: "set_svc_mask d allowed ! n \<longleftrightarrow> allowed ! n \<or> (svc_group d = n div 24 \<and> bit d (n mod 24))"
    using nth_set_svc_mask [OF Cons.prems(2), of d] zero Cons.prems(3) by auto
  have "(\<exists>d' \<in> set ds. svc_group d' = n div 24) \<longrightarrow> \<not> set_svc_mask d allowed ! n"
    using Cons.prems(1,3) unfolding step by (force simp: image_iff)
  then show ?case using Cons.IH [of "set_svc_mask d allowed"] Cons.prems(1,2) len step by auto
qed simp



text \<open>
  Property: a header with nine mapped pages is not parsed: the ninth overflows the vector of mappings, and the exception of its \<^verbatim>\<open>push_back\<close> is not caught.
\<close>

theorem ParseKernelCaps_nine_pages: "ParseKernelCaps (replicate 9 0xFFE1F000) NewCaps = None"
proof -
  have k: "is_page 0xFFE1F000" "\<not> is_interrupt_list 0xFFE1F000" "\<not> is_svc_mask 0xFFE1F000" "\<not> is_handle_table_size 0xFFE1F000"
    "\<not> is_misc_flags 0xFFE1F000" "\<not> is_range 0xFFE1F000"
    by (simp_all add: is_page_def is_interrupt_list_def is_svc_mask_def is_handle_table_size_def is_misc_flags_def is_range_def)
  have "ParseKernelCaps (replicate m 0xFFE1F000) c = None" if "length (address_mappings c) + m > MAX_MAPPINGS" "length (address_mappings c) \<le> MAX_MAPPINGS" for m c
    using that by (induction m arbitrary: c) (auto simp: ParseKernelCaps.simps k push_mapping_def)
  then show ?thesis by (simp add: NewCaps_def MAX_MAPPINGS_def)
qed

end
