(* ===== verification/Shared_Memory.thy ===== *)
theory Shared_Memory
  imports Process_Memory Handle_Table
begin

text \<open>
  Shared memory blocks (\<^verbatim>\<open>src/core/hle/kernel/shared_memory.cpp\<close>) and the system calls on memory (\<^verbatim>\<open>ControlMemory\<close>, \<^verbatim>\<open>CreateMemoryBlock\<close>,
  \<^verbatim>\<open>MapMemoryBlock\<close>, \<^verbatim>\<open>UnmapMemoryBlock\<close>, \<^verbatim>\<open>CloseHandle\<close> of \<^verbatim>\<open>svc.cpp\<close>), for any number of processes. The regions of FCRAM, the host memory and the
  resource limits belong to the kernel; what \<open>Process_Memory\<close> says of one process is applied to the view of that process, in which they
  are fields.
\<close>

section \<open>Processes that share the kernel's memory\<close>

definition PROCESS_IMAGE_VADDR :: nat where "PROCESS_IMAGE_VADDR = 0x00100000"
definition SHARED_MEMORY_VADDR_END :: nat where "SHARED_MEMORY_VADDR_END = 0x14000000"

definition MP_ReadWrite :: u32 where "MP_ReadWrite = 3"
definition MP_ReadWriteExecute :: u32 where "MP_ReadWriteExecute = 7"
definition MP_DontCare :: u32 where "MP_DontCare = 0x10000000"

text \<open>The block, with the owner by process number; \<^verbatim>\<open>memory_region\<close> is set by both functions that create blocks.\<close>

record 's shared_memory =
  linear_heap_phys_offset :: nat
  backing_blocks :: "(memory_ref \<times> nat) list"
  sm_size :: nat
  sm_region :: memory_region_id
  sm_permissions :: u32
  sm_other_permissions :: u32
  owner_process :: "nat option"
  base_address :: nat
  sm_holding_memory :: 's

datatype mem_object = MO_SharedMemory nat | MO_Other

record 's mem_kernel =
  mk_regions :: "memory_region_id \<Rightarrow> 's region"
  mk_mem :: mem_sys
  mk_limits :: "ResourceLimitCategory \<Rightarrow> resource_limit"
  mk_procs :: "nat \<Rightarrow> 's process option"
  mk_category :: "nat \<Rightarrow> ResourceLimitCategory option"
  mk_device_mem :: "nat \<Rightarrow> bool"
  mk_flag_region :: "nat \<Rightarrow> memory_region_id"
  mk_handles :: "nat \<Rightarrow> mem_object handle_table"
  mk_blocks :: "nat \<Rightarrow> 's shared_memory"
  mk_current :: nat

text \<open>A process as \<open>Process_Memory\<close> has it, \<open>None\<close> when it has been destroyed; and the kernel after an operation on it.\<close>

definition proc_view :: "nat \<Rightarrow> 's mem_kernel \<Rightarrow> 's process option" where
  "proc_view pid k =
     map_option (\<lambda>p. p\<lparr>regions := mk_regions k, pr_mem := mk_mem k, pr_limit := map_option (mk_limits k) (mk_category k pid)\<rparr>)
       (mk_procs k pid)"

definition put_limit :: "nat \<Rightarrow> resource_limit option \<Rightarrow> 's mem_kernel \<Rightarrow> ResourceLimitCategory \<Rightarrow> resource_limit" where
  "put_limit pid l k =
     (case (mk_category k pid, l) of (Some c, Some rl) \<Rightarrow> (mk_limits k)(c := rl) | _ \<Rightarrow> mk_limits k)"

definition proc_put :: "nat \<Rightarrow> 's process \<Rightarrow> 's mem_kernel \<Rightarrow> 's mem_kernel" where
  "proc_put pid p k =
     k\<lparr>mk_regions := regions p, mk_mem := pr_mem p, mk_limits := put_limit pid (pr_limit p) k,
       mk_procs := (mk_procs k)(pid := Some p)\<rparr>"

definition on_process :: "nat \<Rightarrow> ('s process \<Rightarrow> ('s process, 'a) outcome) \<Rightarrow> 's mem_kernel \<Rightarrow> ('s mem_kernel, 'a) outcome" where
  "on_process pid f k =
     orCrash (proc_view pid k) (\<lambda>p.
     case f p of
       Ok p' a \<Rightarrow> Ok (proc_put pid p' k) a
     | Err p' c \<Rightarrow> Err (proc_put pid p' k) c
     | Crash \<Rightarrow> Crash)"

definition count_shared ::
  "(nat \<Rightarrow> int \<Rightarrow> resource_limit \<Rightarrow> (bool \<times> resource_limit) option) \<Rightarrow> 's process \<Rightarrow> (bool \<times> 's process) option" where
  "count_shared change p =
     Option.bind (pr_limit p) (\<lambda>rl.
     Option.bind (change (rl_index RL_SharedMemory) 1 rl) (\<lambda>(ok, rl'). Some (ok, p\<lparr>pr_limit := Some rl'\<rparr>)))"

section \<open>Shared memory blocks\<close>

definition ConvertPermissions :: "u32 \<Rightarrow> u8" where
  "ConvertPermissions permission = ucast (permission AND MP_ReadWriteExecute)"

fun free_each :: "'s icl \<Rightarrow> (nat \<times> nat) list \<Rightarrow> 's region \<Rightarrow> 's region option" where
  "free_each I [] r = Some r"
| "free_each I ((l, u) # bs) r = Option.bind (region_Free I l (u - l) r) (free_each I bs)"

text \<open>What the destructor does to the owner, when it still exists. The result of \<^verbatim>\<open>ChangeMemoryState\<close> is ignored.\<close>

definition forget_block :: "'s shared_memory \<Rightarrow> 's process \<Rightarrow> 's process option" where
  "forget_block sm p =
     Option.bind (count_shared Release p) (\<lambda>(_, p1).
     if base_address sm \<noteq> 0
     then case ChangeMemoryState (cached_pages (pr_mem p1)) (base_address sm) (sm_size sm) StLocked PermNone StPrivate PermReadWrite (pr_vm p1) of
            Ok vm _ \<Rightarrow> Some (p1\<lparr>pr_vm := vm\<rparr>)
          | Err vm _ \<Rightarrow> Some (p1\<lparr>pr_vm := vm\<rparr>)
          | Crash \<Rightarrow> None
     else Some (p1\<lparr>memory_used := sub32 (memory_used p1) (sm_size sm)\<rparr>))"

definition SharedMemory_destroy :: "'s icl \<Rightarrow> 's shared_memory \<Rightarrow> 's mem_kernel \<Rightarrow> 's mem_kernel option" where
  "SharedMemory_destroy I sm k =
     Option.bind (free_each I (icl_blocks I (sm_holding_memory sm)) (mk_regions k (sm_region sm))) (\<lambda>r.
     let k1 = k\<lparr>mk_regions := (mk_regions k)(sm_region sm := r)\<rparr> in
     case owner_process sm of
       None \<Rightarrow> Some k1
     | Some pid \<Rightarrow>
         (case proc_view pid k1 of
            None \<Rightarrow> Some k1
          | Some p \<Rightarrow> map_option (\<lambda>p1. proc_put pid p1 k1) (forget_block sm p)))"

definition new_block :: "'s icl \<Rightarrow> nat option \<Rightarrow> nat \<Rightarrow> u32 \<Rightarrow> u32 \<Rightarrow> memory_region_id \<Rightarrow> 's shared_memory" where
  "new_block I owner sz permissions other_permissions region =
     \<lparr>linear_heap_phys_offset = 0, backing_blocks = [], sm_size = sz, sm_region = region, sm_permissions = permissions,
      sm_other_permissions = other_permissions, owner_process = owner, base_address = 0, sm_holding_memory = icl_empty I\<rparr>"

text \<open>The branch that allocates from the linear heap of the region.\<close>

definition allocate_block :: "'s icl \<Rightarrow> 's shared_memory \<Rightarrow> 's mem_kernel \<Rightarrow> ('s mem_kernel, 's shared_memory) outcome" where
  "allocate_block I sm k =
     (let sz = sm_size sm in
      orCrash (region_LinearAllocate I sz (mk_regions k (sm_region sm))) (\<lambda>(offset, r).
      orCrash offset (\<lambda>off.
      orCrash (clear_fcram off (add32 off sz) (mk_mem k)) (\<lambda>ms.
      orCrash (GetFCRAMRef ms off) (\<lambda>mem.
      let k1 = k\<lparr>mk_regions := (mk_regions k)(sm_region sm := r), mk_mem := ms\<rparr>;
          k2 = (case owner_process sm of
                  None \<Rightarrow> k1
                | Some pid \<Rightarrow> k1\<lparr>mk_procs := (mk_procs k1)(pid := map_option (\<lambda>p. p\<lparr>memory_used := add32 (memory_used p) sz\<rparr>) (mk_procs k1 pid))\<rparr>)
      in Ok k2 (sm\<lparr>backing_blocks := [(mem, sz)],
                   sm_holding_memory := icl_add I (off, add32 off sz) (sm_holding_memory sm),
                   linear_heap_phys_offset := off\<rparr>))))))"

text \<open>
  The branch that shares memory of the owner. A failure destroys the block, whose \<^verbatim>\<open>base_address\<close> is not set yet.
\<close>

definition lock_block :: "'s icl \<Rightarrow> nat \<Rightarrow> 's shared_memory \<Rightarrow> 's mem_kernel \<Rightarrow> ('s mem_kernel, 's shared_memory) outcome" where
  "lock_block I address sm k =
     orCrash (owner_process sm) (\<lambda>pid.
     orCrash (proc_view pid k) (\<lambda>p.
     case ChangeMemoryState (cached_pages (pr_mem p)) address (sm_size sm) StPrivate PermReadWrite StLocked
            (ConvertPermissions (sm_permissions sm)) (pr_vm p) of
       Crash \<Rightarrow> Crash
     | Err vm c \<Rightarrow> orCrash (SharedMemory_destroy I sm (proc_put pid (p\<lparr>pr_vm := vm\<rparr>) k)) (\<lambda>k1. Err k1 c)
     | Ok vm _ \<Rightarrow>
         (case GetBackingBlocksForRange address (sm_size sm) vm of
            Ok _ blocks \<Rightarrow> Ok (proc_put pid (p\<lparr>pr_vm := vm\<rparr>) k) (sm\<lparr>backing_blocks := blocks\<rparr>)
          | _ \<Rightarrow> Crash)))"

definition CreateSharedMemory ::
  "'s icl \<Rightarrow> nat option \<Rightarrow> nat \<Rightarrow> u32 \<Rightarrow> u32 \<Rightarrow> nat \<Rightarrow> memory_region_id \<Rightarrow> 's mem_kernel \<Rightarrow> ('s mem_kernel, 's shared_memory) outcome" where
  "CreateSharedMemory I owner sz permissions other_permissions address region k =
     (let sm = new_block I owner sz permissions other_permissions region in
      bindO (if address = 0 then allocate_block I sm k else lock_block I address sm k)
        (\<lambda>k1 sm1. Ok k1 (sm1\<lparr>base_address := address\<rparr>)))"

text \<open>The loop of \<^verbatim>\<open>CreateSharedMemoryForApplet\<close>.\<close>

fun take_blocks :: "(nat \<times> nat) list \<Rightarrow> mem_sys \<Rightarrow> ((memory_ref \<times> nat) list \<times> mem_sys) option" where
  "take_blocks [] ms = Some ([], ms)"
| "take_blocks ((l, u) # bs) ms =
     Option.bind (GetFCRAMRef ms l) (\<lambda>mem.
     Option.bind (clear_fcram l u ms) (\<lambda>ms1.
     Option.bind (take_blocks bs ms1) (\<lambda>(blocks, ms2). Some ((mem, u - l) # blocks, ms2))))"

definition CreateSharedMemoryForApplet ::
  "'s icl \<Rightarrow> nat \<Rightarrow> nat \<Rightarrow> u32 \<Rightarrow> u32 \<Rightarrow> 's mem_kernel \<Rightarrow> ('s shared_memory \<times> 's mem_kernel) option" where
  "CreateSharedMemoryForApplet I offset sz permissions other_permissions k =
     Option.bind (region_HeapAllocate I sz (mk_regions k SYSTEM)) (\<lambda>(allocated, r).
     if icl_blocks I allocated = [] then None
     else Option.bind (take_blocks (icl_blocks I allocated) (mk_mem k)) (\<lambda>(blocks, ms).
       Some ((new_block I None sz permissions other_permissions SYSTEM)
               \<lparr>sm_holding_memory := allocated, backing_blocks := blocks, base_address := add32 HEAP_VADDR offset\<rparr>,
             k\<lparr>mk_regions := (mk_regions k)(SYSTEM := r), mk_mem := ms\<rparr>)))"

text \<open>\<^verbatim>\<open>SharedMemory::Map\<close> into the process \<open>pid\<close>, on the view of that process.\<close>

definition SharedMemory_Map :: "nat \<Rightarrow> nat \<Rightarrow> u32 \<Rightarrow> u32 \<Rightarrow> 's shared_memory \<Rightarrow> 's process \<Rightarrow> ('s process, unit) outcome" where
  "SharedMemory_Map pid address permissions other_permissions sm p =
     (let own_other_permissions = (if owner_process sm = Some pid then sm_permissions sm else sm_other_permissions sm);
          sz = sm_size sm in
      if base_address sm = 0 \<and> other_permissions \<noteq> MP_DontCare then Err p ResultInvalidCombination
      else if permissions AND NOT own_other_permissions \<noteq> 0 then Err p ResultInvalidCombination
      else if base_address sm \<noteq> 0 \<and> other_permissions = MP_DontCare then Err p ResultInvalidCombination
      else if other_permissions \<noteq> MP_DontCare \<and> sm_permissions sm AND NOT other_permissions \<noteq> 0 then Err p ResultWrongPermission
      else if address \<noteq> 0 \<and> (address < HEAP_VADDR \<or> add32 address sz \<ge> SHARED_MEMORY_VADDR_END) then Err p ResultInvalidAddress
      else let target_address = (if base_address sm = 0 \<and> address = 0 then add32 (linear_heap_phys_offset sm) LINEAR_HEAP_VADDR else address)
           in orCrash (check_unused target_address sz (pr_vm p)) (\<lambda>unused.
              unlessO unused p ResultInvalidAddressState
                (orCrash (alias_blocks (cached_pages (pr_mem p)) (backing_blocks sm) target_address StShared (ConvertPermissions permissions) (pr_vm p))
                   (\<lambda>vm. Ok (p\<lparr>pr_vm := vm\<rparr>) ()))))"

definition SharedMemory_Unmap :: "nat \<Rightarrow> 's shared_memory \<Rightarrow> 's process \<Rightarrow> ('s process, unit) outcome" where
  "SharedMemory_Unmap address sm p =
     (case UnmapRange (cached_pages (pr_mem p)) address (sm_size sm) (pr_vm p) of
        Ok vm _ \<Rightarrow> Ok (p\<lparr>pr_vm := vm\<rparr>) ()
      | Err vm c \<Rightarrow> Err (p\<lparr>pr_vm := vm\<rparr>) c
      | Crash \<Rightarrow> Crash)"

section \<open>System calls\<close>

definition Get_SharedMemory :: "u32 \<Rightarrow> 's mem_kernel \<Rightarrow> nat option" where
  "Get_SharedMemory handle k =
     (case GetGeneric (Some MO_Other) (Some MO_Other) (mk_handles k (mk_current k)) handle of
        Some (MO_SharedMemory n) \<Rightarrow> Some n
      | _ \<Rightarrow> None)"

text \<open>
  The object of a handle is destroyed with its last reference; the references of this model are the entries of the handle tables of the processes.
\<close>

definition referenced :: "nat \<Rightarrow> nat set \<Rightarrow> 's mem_kernel \<Rightarrow> bool" where
  "referenced n pids k \<longleftrightarrow> (\<exists>pid \<in> pids. Some (MO_SharedMemory n) \<in> set (objects (mk_handles k pid)))"

definition drop_reference :: "'s icl \<Rightarrow> nat set \<Rightarrow> mem_object option \<Rightarrow> 's mem_kernel \<Rightarrow> 's mem_kernel option" where
  "drop_reference I pids ob k =
     (case ob of
        Some (MO_SharedMemory n) \<Rightarrow> if referenced n pids k then Some k else SharedMemory_destroy I (mk_blocks k n) k
      | _ \<Rightarrow> Some k)"

definition mem_CloseHandle :: "'s icl \<Rightarrow> nat set \<Rightarrow> u32 \<Rightarrow> 's mem_kernel \<Rightarrow> ('s mem_kernel, unit) outcome" where
  "mem_CloseHandle I pids handle k =
     (let pid = mk_current k in
      case Close (mk_handles k pid) handle of
        Ok t _ \<Rightarrow> orCrash (drop_reference I pids (lookup (mk_handles k pid) handle) (k\<lparr>mk_handles := (mk_handles k)(pid := t)\<rparr>)) (\<lambda>k1. Ok k1 ())
      | Err t c \<Rightarrow> Err (k\<lparr>mk_handles := (mk_handles k)(pid := t)\<rparr>) c
      | Crash \<Rightarrow> Crash)"

definition VerifyPermissions :: "u32 \<Rightarrow> bool" where
  "VerifyPermissions permission \<longleftrightarrow> permission \<in> {0, 1, 2, 3, MP_DontCare}"

definition ResultOutOfSharedMems :: u32 where
  "ResultOutOfSharedMems = MakeResultRaw 11 EM_OS ES_OutOfResource EL_Status"

text \<open>\<open>n\<close> is the number of the new object.\<close>

definition CreateMemoryBlock :: "'s icl \<Rightarrow> nat \<Rightarrow> nat \<Rightarrow> nat \<Rightarrow> u32 \<Rightarrow> u32 \<Rightarrow> 's mem_kernel \<Rightarrow> ('s mem_kernel, u32) outcome" where
  "CreateMemoryBlock I n addr sz my_permission other_permission k =
     (let pid = mk_current k in
      unlessO (sz mod CITRA_PAGE_SIZE = 0) k ResultMisalignedSize
      (unlessO (VerifyPermissions my_permission) k ResultInvalidCombination
      (unlessO (VerifyPermissions other_permission) k ResultInvalidCombination
      (unlessO (\<not> ((addr < PROCESS_IMAGE_VADDR \<or> add32 addr sz > SHARED_MEMORY_VADDR_END) \<and> addr \<noteq> 0)) k ResultInvalidAddress
      (orCrash (proc_view pid k) (\<lambda>p.
       orCrash (count_shared Reserve p) (\<lambda>(ok, p1).
       let k1 = proc_put pid p1 k in
       unlessO ok k1 ResultOutOfSharedMems
         (bindO (CreateSharedMemory I (Some pid) sz my_permission other_permission addr
                   (if addr = 0 \<and> mk_device_mem k1 pid then mk_flag_region k1 pid else BASE) k1)
            (\<lambda>k2 sm.
             case Create (mk_handles k2 pid) (MO_SharedMemory n) of
               Ok t handle \<Rightarrow> Ok (k2\<lparr>mk_blocks := (mk_blocks k2)(n := sm), mk_handles := (mk_handles k2)(pid := t)\<rparr>) handle
             | Err t c \<Rightarrow> orCrash (SharedMemory_destroy I sm k2) (\<lambda>k3. Err k3 c)
             | Crash \<Rightarrow> Crash)))))))))"

definition MapMemoryBlock :: "u32 \<Rightarrow> nat \<Rightarrow> u32 \<Rightarrow> u32 \<Rightarrow> 's mem_kernel \<Rightarrow> ('s mem_kernel, unit) outcome" where
  "MapMemoryBlock handle addr permissions other_permissions k =
     (case Get_SharedMemory handle k of
        None \<Rightarrow> Err k ResultInvalidHandle
      | Some n \<Rightarrow>
          if permissions \<in> {1, 2, 3, 4, 5, 6, 7, MP_DontCare}
          then on_process (mk_current k) (SharedMemory_Map (mk_current k) addr permissions other_permissions (mk_blocks k n)) k
          else Err k ResultInvalidCombination)"

definition UnmapMemoryBlock :: "u32 \<Rightarrow> nat \<Rightarrow> 's mem_kernel \<Rightarrow> ('s mem_kernel, unit) outcome" where
  "UnmapMemoryBlock handle addr k =
     (case Get_SharedMemory handle k of
        None \<Rightarrow> Err k ResultInvalidHandle
      | Some n \<Rightarrow> on_process (mk_current k) (SharedMemory_Unmap addr (mk_blocks k n)) k)"

text \<open>\<^verbatim>\<open>ControlMemory\<close> on the current process; the output address is stored by the operations that allocate and free.\<close>

definition stores :: "('s, 'a) outcome \<Rightarrow> ('a \<Rightarrow> 'b) \<Rightarrow> ('s, 'b) outcome" where
  "stores x f = bindO x (\<lambda>s a. Ok s (f a))"

definition ReprotectRange_of :: "nat \<Rightarrow> nat \<Rightarrow> u8 \<Rightarrow> 's process \<Rightarrow> ('s process, unit) outcome" where
  "ReprotectRange_of addr sz perms p =
     (case ReprotectRange (cached_pages (pr_mem p)) addr sz perms (pr_vm p) of
        Ok vm _ \<Rightarrow> Ok (p\<lparr>pr_vm := vm\<rparr>) ()
      | Err vm c \<Rightarrow> Err (p\<lparr>pr_vm := vm\<rparr>) c
      | Crash \<Rightarrow> Crash)"

definition in_linear_heap :: "nat \<Rightarrow> 's process \<Rightarrow> bool option" where
  "in_linear_heap addr p = map_option (\<lambda>k. addr \<ge> GetLinearHeapBase k p \<and> addr < GetLinearHeapLimit k p) (pr_region p)"

definition ControlMemory_free :: "'s icl \<Rightarrow> nat \<Rightarrow> nat \<Rightarrow> 's process \<Rightarrow> ('s process, nat option) outcome" where
  "ControlMemory_free I addr0 sz p =
     (if addr0 \<ge> HEAP_VADDR \<and> addr0 < HEAP_VADDR_END then stores (HeapFree I addr0 sz p) (\<lambda>_. Some addr0)
      else orCrash (in_linear_heap addr0 p) (\<lambda>linear.
           unlessO linear p ResultInvalidAddress (stores (LinearFree I addr0 sz p) (\<lambda>_. Some addr0))))"

definition ControlMemory :: "'s icl \<Rightarrow> nat \<Rightarrow> nat \<Rightarrow> nat \<Rightarrow> u32 \<Rightarrow> u32 \<Rightarrow> 's process \<Rightarrow> ('s process, nat option) outcome" where
  "ControlMemory I addr0 addr1 sz operation permissions p =
     unlessO (addr0 mod CITRA_PAGE_SIZE = 0) p ResultMisalignedAddress
     (unlessO (addr1 mod CITRA_PAGE_SIZE = 0) p ResultMisalignedAddress
     (unlessO (sz mod CITRA_PAGE_SIZE = 0) p ResultMisalignedSize
     (unlessO (permissions AND MP_ReadWrite = permissions) p ResultInvalidCombination
     (let vma_permissions = ucast permissions :: u8;
          op = operation AND NOT 0xF00;
          code = op AND 0xFF in
      if code = 1 then ControlMemory_free I addr0 sz p
      else if code = 3
      then if op AND 0x10000 \<noteq> 0 then stores (LinearAllocate I addr0 sz vma_permissions p) Some
           else stores (HeapAllocate I addr0 sz vma_permissions StPrivate False p) Some
      else if code = 4 then stores (Process_Map addr0 addr1 sz vma_permissions False p) (\<lambda>_. None)
      else if code = 5 then stores (Process_Unmap addr0 addr1 sz vma_permissions False p) (\<lambda>_. None)
      else if code = 6 then stores (ReprotectRange_of addr0 sz vma_permissions p) (\<lambda>_. None)
      else Err p ResultInvalidCombination))))"

section \<open>Mapping a block\<close>

text \<open>Where a block is mapped, and which requests its owner allows, permission bit by permission bit.\<close>

definition map_target :: "nat \<Rightarrow> 's shared_memory \<Rightarrow> nat" where
  "map_target address sm = (if base_address sm = 0 \<and> address = 0 then linear_heap_phys_offset sm + LINEAR_HEAP_VADDR else address)"

definition may_map :: "nat \<Rightarrow> nat \<Rightarrow> u32 \<Rightarrow> u32 \<Rightarrow> 's shared_memory \<Rightarrow> bool" where
  "may_map pid address permissions other_permissions sm \<longleftrightarrow>
     (base_address sm = 0 \<longleftrightarrow> other_permissions = MP_DontCare) \<and>
     (\<forall>n. bit permissions n \<longrightarrow> bit (if owner_process sm = Some pid then sm_permissions sm else sm_other_permissions sm) n) \<and>
     (other_permissions \<noteq> MP_DontCare \<longrightarrow> (\<forall>n. bit (sm_permissions sm) n \<longrightarrow> bit other_permissions n)) \<and>
     (address = 0 \<or> HEAP_VADDR \<le> address \<and> address + sm_size sm < SHARED_MEMORY_VADDR_END)"

text \<open>A block that refers to whole pages of host memory, as many as its size says.\<close>

definition block_ok :: "backing_mem set \<Rightarrow> 's shared_memory \<Rightarrow> bool" where
  "block_ok H sm \<longleftrightarrow> (\<forall>b \<in> set (backing_blocks sm). good_block H b) \<and> length (expand (backing_blocks sm)) = sm_size sm \<and>
     0 < sm_size sm \<and> sm_size sm \<le> FCRAM_N3DS_SIZE \<and> CITRA_PAGE_SIZE dvd linear_heap_phys_offset sm \<and> linear_heap_phys_offset sm + sm_size sm \<le> FCRAM_N3DS_SIZE"

definition vm_ok :: "backing_mem set \<Rightarrow> 's process \<Rightarrow> bool" where
  "vm_ok H p \<longleftrightarrow> host_layout H \<and> vm_inv H (cached_pages (pr_mem p)) (pr_vm p) \<and> \<not> is_locked (pr_vm p)"

lemma and_not_zero_iff: "(a :: u32) AND NOT b = 0 \<longleftrightarrow> (\<forall>n. bit a n \<longrightarrow> bit b n)"
proof -
  have "n < 32" if "bit a n" for n using bit_imp_le_length [OF that] by simp
  then show ?thesis by (auto simp: bit_eq_iff bit_simps)
qed

lemma SharedMemory_Map_effect:
  assumes vm: "vm_ok H p" and b: "block_ok H sm" and a: "CITRA_PAGE_SIZE dvd address" "address + sm_size sm < 2 ^ 32"
  shows "if may_map pid address permissions other_permissions sm \<and> free_range (pr_vm p) (map_target address sm) (sm_size sm)
    then \<exists>vm. SharedMemory_Map pid address permissions other_permissions sm p = Ok (p\<lparr>pr_vm := vm\<rparr>) () \<and> vm_ok H (p\<lparr>pr_vm := vm\<rparr>) \<and>
      (\<forall>n < sm_size sm. contents vm (map_target address sm + n) =
        Some (BackingMemory, ConvertPermissions permissions, StShared, expand (backing_blocks sm) ! n)) \<and>
      (\<forall>x. \<not> (map_target address sm \<le> x \<and> x < map_target address sm + sm_size sm) \<longrightarrow>
        kept StShared (ConvertPermissions permissions) (contents (pr_vm p) x) (contents vm x))
    else \<exists>c \<in> {ResultInvalidCombination, ResultWrongPermission, ResultInvalidAddress, ResultInvalidAddressState}.
      SharedMemory_Map pid address permissions other_permissions sm p = Err p c"
proof (cases "may_map pid address permissions other_permissions sm")
  case False
  have "add32 address (sm_size sm) = address + sm_size sm" using a(2) by (simp add: add32_small)
  then show ?thesis using False
    by (auto simp: SharedMemory_Map_def may_map_def Let_def and_not_zero_iff)
next
  case True
  let ?t = "map_target address sm" and ?c = "cached_pages (pr_mem p)" and ?perms = "ConvertPermissions permissions"
  have bl: "\<forall>b \<in> set (backing_blocks sm). good_block H b" "length (expand (backing_blocks sm)) = sm_size sm" "0 < sm_size sm"
    "linear_heap_phys_offset sm + sm_size sm \<le> FCRAM_N3DS_SIZE" "CITRA_PAGE_SIZE dvd linear_heap_phys_offset sm" "sm_size sm \<le> FCRAM_N3DS_SIZE"
    using b by (simp_all add: block_ok_def)
  have v: "host_layout H" "vm_inv H ?c (pr_vm p)" "\<not> is_locked (pr_vm p)" using vm by (simp_all add: vm_ok_def)
  have t: "?t < MAX_ADDRESS" "?t + sm_size sm < 2 ^ 32" "CITRA_PAGE_SIZE dvd ?t"
    using True bl(3-6) a by (auto simp: map_target_def may_map_def MAX_ADDRESS_def LINEAR_HEAP_VADDR_def FCRAM_N3DS_SIZE_def SHARED_MEMORY_VADDR_END_def CITRA_PAGE_SIZE_def)
  have ta: "(if base_address sm = 0 \<and> address = 0 then add32 (linear_heap_phys_offset sm) LINEAR_HEAP_VADDR else address) = ?t"
    using bl(4) by (simp add: map_target_def add32_small LINEAR_HEAP_VADDR_def FCRAM_N3DS_SIZE_def)
  have "add32 address (sm_size sm) = address + sm_size sm" using a(2) by (simp add: add32_small)
  then have eq: "SharedMemory_Map pid address permissions other_permissions sm p =
      unlessO (free_range (pr_vm p) ?t (sm_size sm)) p ResultInvalidAddressState
        (orCrash (alias_blocks ?c (backing_blocks sm) ?t StShared ?perms (pr_vm p)) (\<lambda>vm. Ok (p\<lparr>pr_vm := vm\<rparr>) ()))"
    using True check_unused_free [OF v(2) t(1) bl(3) t(2)] ta
    by (auto simp: SharedMemory_Map_def may_map_def Let_def and_not_zero_iff orCrash_def)
  show ?thesis
  proof (cases "free_range (pr_vm p) ?t (sm_size sm)")
    case f: True
    with alias_blocks_spec [OF v t(3) bl(1), of StShared ?perms] obtain vm where
      "alias_blocks ?c (backing_blocks sm) ?t StShared ?perms (pr_vm p) = Some vm" "vm_inv H ?c vm" "\<not> is_locked vm"
      "\<forall>n < sm_size sm. contents vm (?t + n) = Some (BackingMemory, ?perms, StShared, expand (backing_blocks sm) ! n)"
      "\<forall>a. \<not> (?t \<le> a \<and> a < ?t + sm_size sm) \<longrightarrow> kept StShared ?perms (contents (pr_vm p) a) (contents vm a)"
      unfolding bl(2) by blast
    with f True v(1) show ?thesis by (simp add: eq orCrash_def vm_ok_def) (intro exI [of _ vm], simp)
  next
    case False
    then show ?thesis by (simp add: eq unlessO_def)
  qed
qed

lemma peek_shift: "(\<And>i. i < n \<Longrightarrow> byte_ptr pt (a + i) = byte_ptr pt' (b + i)) \<Longrightarrow> peek pt a n h = peek pt' b n h"
  by (auto simp: peek_def intro!: nth_equalityI)

text \<open>The addresses of an application, below the linear heap, are never cached by the renderer.\<close>

lemma heap_not_cached: "HEAP_VADDR \<le> a \<Longrightarrow> a < SHARED_MEMORY_VADDR_END \<Longrightarrow> \<not> cached_pages ms (a div CITRA_PAGE_SIZE)"
proof -
  assume "HEAP_VADDR \<le> a" "a < SHARED_MEMORY_VADDR_END"
  then have "0x8000 \<le> a div 0x1000" "a div 0x1000 < 0x14000"
    by (simp_all add: HEAP_VADDR_def SHARED_MEMORY_VADDR_END_def less_mult_imp_div_less div_le_mono [of "0x8000000" a "0x1000", simplified])
  then show ?thesis by (simp add: cached_pages_def IsCached_def marker_tracks_def in_region_def region_defs CITRA_PAGE_SIZE_def)
qed

lemma block_bytes:
  assumes vm: "vm_ok H p" and b: "block_ok H sm" and a: "CITRA_PAGE_SIZE dvd address" "address \<noteq> 0" "address + sm_size sm < 2 ^ 32"
    and m: "SharedMemory_Map pid address permissions other_permissions sm p = Ok p' ()" and n: "n < sm_size sm"
  shows "plain (vm_page_table (pr_vm p')) (address + n) \<and> byte_ptr (vm_page_table (pr_vm p')) (address + n) = Some (expand (backing_blocks sm) ! n)"
proof -
  note s = SharedMemory_Map_effect [OF vm b a(1,3), of pid permissions other_permissions]
  have ok: "may_map pid address permissions other_permissions sm \<and> free_range (pr_vm p) (map_target address sm) (sm_size sm)"
    using s m by (auto split: if_splits)
  have t: "map_target address sm = address" using a(2) by (simp add: map_target_def)
  obtain vm where vm': "p' = p\<lparr>pr_vm := vm\<rparr>" "vm_ok H p'" "contents vm (address + n) = Some (BackingMemory, ConvertPermissions permissions, StShared, expand (backing_blocks sm) ! n)"
    using s m n unfolding if_P [OF ok] unfolding t by auto
  have r: "HEAP_VADDR \<le> address + n" "address + n < SHARED_MEMORY_VADDR_END" "address + n < MAX_ADDRESS"
    using ok n a(2) by (auto simp: may_map_def SHARED_MEMORY_VADDR_END_def MAX_ADDRESS_def)
  have i: "vm_inv H (cached_pages (pr_mem p)) vm" using vm'(1,2) by (simp add: vm_ok_def)
  show ?thesis using vm_byte_ptr [OF i r(3) heap_not_cached [OF r(1,2)]] vm'(1,3) by (simp add: type_at_def host_ptr_def)
qed

lemma mapped_onceI:
  assumes "distinct xs" "off + n \<le> length xs" "\<And>i. i < n \<Longrightarrow> byte_ptr pt (a + i) = Some (xs ! (off + i))"
  shows "mapped_once pt a n"
proof -
  have at: "byte_ptr pt x = Some (xs ! (off + (x - a)))" if "a \<le> x" "x < a + n" for x using assms(3) [of "x - a"] that by simp
  have "inj_on (byte_ptr pt) {a..<a + n}"
  proof (rule inj_onI)
    fix x y assume xy: "x \<in> {a..<a + n}" "y \<in> {a..<a + n}" "byte_ptr pt x = byte_ptr pt y"
    then have "xs ! (off + (x - a)) = xs ! (off + (y - a))" using at by simp
    moreover have "off + (x - a) < length xs" "off + (y - a) < length xs" using xy(1,2) assms(2) by (simp_all only: atLeastLessThan_iff) linarith+
    ultimately have "off + (x - a) = off + (y - a)" using nth_eq_iff_index_eq [OF assms(1)] by blast
    then show "x = y" using xy by auto
  qed
  then show ?thesis using at by (simp add: mapped_once_def)
qed

text \<open>
  Property (C16): a block mapped into two processes is shared memory. Bytes that one process writes through its mapping are the bytes the other
  reads through its own, at the same offsets, wherever in the block and whatever pages the range spans.
\<close>

theorem shared_block_is_shared:
  assumes "vm_ok H p" "vm_ok H q" "block_ok H sm" "distinct (expand (backing_blocks sm))"
    and a: "CITRA_PAGE_SIZE dvd a" "a \<noteq> 0" "a + sm_size sm < 2 ^ 32" and b: "CITRA_PAGE_SIZE dvd b" "b \<noteq> 0" "b + sm_size sm < 2 ^ 32"
    and m: "SharedMemory_Map pid1 a perms1 other1 sm p = Ok p' ()" "SharedMemory_Map pid2 b perms2 other2 sm q = Ok q' ()"
    and l: "off + length bs \<le> sm_size sm"
  shows "\<exists>ms'. WriteBlock gpu (vm_page_table (pr_vm p')) (a + off) bs ms = Ok ms' () \<and>
    ReadBlock gpu (vm_page_table (pr_vm q')) (b + off) (length bs) ms' = Ok ms' bs"
proof -
  let ?p = "vm_page_table (pr_vm p')" and ?q = "vm_page_table (pr_vm q')" and ?n = "length bs"
  note pb = block_bytes [OF assms(1,3) a m(1)] and qb = block_bytes [OF assms(2,3) b m(2)]
  have at: "byte_ptr ?p (a + off + i) = Some (expand (backing_blocks sm) ! (off + i))" "byte_ptr ?q (b + off + i) = byte_ptr ?p (a + off + i)" if "i < ?n" for i
    using pb [of "off + i"] qb [of "off + i"] l that by (simp_all add: add.assoc)
  have plain: "plain_range ?p (a + off) ?n" "plain_range ?q (b + off) ?n"
    unfolding plain_range_def using pb [of "x - a" for x] qb [of "x - b" for x] l
    by (metis add_leD1 add_le_mono1 le_add_diff_inverse less_le_trans nat_add_left_cancel_less add.assoc)+
  have "mapped_once ?p (a + off) ?n"
    by (rule mapped_onceI [OF assms(4), of off]) (use assms(3) l at in \<open>simp_all add: block_ok_def\<close>)
  note pp = peek_poke [OF this]
  let ?h = "poke ?p (a + off) bs (host ms)"
  have "peek ?q (b + off) ?n ?h = bs" using peek_shift [of ?n ?q "b + off" ?p "a + off" ?h] at(2) pp by simp
  then show ?thesis using WriteBlock_poke [OF plain(1)] ReadBlock_peek [OF plain(2)] by (intro exI [of _ "ms\<lparr>host := ?h\<rparr>"]) simp
qed

section \<open>Views of a process\<close>

text \<open>
  What the operations on one process rely on: a process that has been put back is the process that is seen, and only the last update counts.
\<close>

locale process_views =
  fixes view :: "'k \<Rightarrow> 'p option" and put :: "'p \<Rightarrow> 'k \<Rightarrow> 'k" and fits :: "'p \<Rightarrow> 'k \<Rightarrow> bool"
  assumes view_fits: "view k = Some p \<Longrightarrow> fits p k"
    and view_put: "fits p k \<Longrightarrow> view (put p k) = Some p"
    and fits_put: "fits p (put q k) = fits p k"
    and put_put: "fits p k \<Longrightarrow> put p (put q k) = put p k"
begin

lemma view_put_put: "fits p k \<Longrightarrow> view (put p (put q k)) = Some p \<and> put p (put q k) = put p k"
  by (simp add: view_put put_put)

end

definition limit_fits :: "nat \<Rightarrow> 's process \<Rightarrow> 's mem_kernel \<Rightarrow> bool" where
  "limit_fits pid p k \<longleftrightarrow> (pr_limit p = None \<longleftrightarrow> mk_category k pid = None)"

interpretation pv: process_views "proc_view pid" "proc_put pid" "limit_fits pid" for pid
proof
  fix p q :: "'a process" and k :: "'a mem_kernel"
  show "proc_view pid k = Some p \<Longrightarrow> limit_fits pid p k" by (auto simp: proc_view_def limit_fits_def)
  show "limit_fits pid p k \<Longrightarrow> proc_view pid (proc_put pid p k) = Some p"
    by (cases "mk_category k pid"; cases "pr_limit p") (simp_all add: limit_fits_def proc_view_def proc_put_def put_limit_def)
  show "limit_fits pid p (proc_put pid q k) = limit_fits pid p k" by (simp add: limit_fits_def proc_put_def)
  show "limit_fits pid p k \<Longrightarrow> proc_put pid p (proc_put pid q k) = proc_put pid p k"
    by (cases "mk_category k pid"; cases "pr_limit p"; cases "pr_limit q") (simp_all add: limit_fits_def proc_put_def put_limit_def)
qed

lemma proc_viewD:
  assumes "proc_view pid k = Some p"
  shows "regions p = mk_regions k" "pr_mem p = mk_mem k" "pr_limit p = map_option (mk_limits k) (mk_category k pid)"
  using assms by (auto simp: proc_view_def)

lemma proc_put_simps [simp]:
  "mk_regions (proc_put pid p k) = regions p" "mk_mem (proc_put pid p k) = pr_mem p" "mk_handles (proc_put pid p k) = mk_handles k"
  "mk_blocks (proc_put pid p k) = mk_blocks k" "mk_current (proc_put pid p k) = mk_current k" "mk_category (proc_put pid p k) = mk_category k"
  "mk_device_mem (proc_put pid p k) = mk_device_mem k" "mk_flag_region (proc_put pid p k) = mk_flag_region k"
  by (simp_all add: proc_put_def)

lemma proc_put_limits: "mk_category k pid = Some c \<Longrightarrow> pr_limit p = Some rl \<Longrightarrow> mk_limits (proc_put pid p k) = (mk_limits k)(c := rl)"
  by (simp add: proc_put_def put_limit_def)

lemma proc_view_upd [simp]:
  "proc_view pid (k\<lparr>mk_handles := t\<rparr>) = proc_view pid k" "proc_view pid (k\<lparr>mk_blocks := b\<rparr>) = proc_view pid k"
  by (simp_all add: proc_view_def)

lemma count_shared_Reserve:
  fixes p :: "'s process"
  assumes "pr_limit p = Some rl" "rl_inv rl"
  obtains rl' where "count_shared Reserve p = Some (True, p\<lparr>pr_limit := Some rl'\<rparr>)" "rl_inv rl'"
    "\<forall>q :: 's process. pr_limit q = Some rl' \<longrightarrow> count_shared Release q = Some (True, q\<lparr>pr_limit := Some rl\<rparr>)"
proof -
  obtain rl' where "Reserve (rl_index RL_SharedMemory) 1 rl = Some (True, rl')" "rl_inv rl'"
    "Release (rl_index RL_SharedMemory) 1 rl' = Some (True, rl)"
    using Reserve_effect [OF assms(2), of RL_SharedMemory 1] by blast
  then show thesis using that [of rl'] assms(1) by (simp add: count_shared_def)
qed

section \<open>Creating and closing a block\<close>

lemma canonical_single:
  assumes "canonical bs" "points bs = {l..<u}" "l < u"
  shows "bs = [(l, u)]"
proof (cases bs)
  case Nil
  then show ?thesis using assms(2,3) by simp
next
  case (Cons i rest)
  have ne: "fst i < snd i" and gap: "\<forall>x \<in> points rest. snd i < x"
    using assms(1) by (auto simp: Cons canonical_Cons points_def canonical_def)
  have "snd i \<notin> points bs" using gap by (auto simp: Cons)
  then have "snd i \<notin> {l..<u}" using assms(2) by simp
  moreover have "fst i \<in> {l..<u}" "snd i - 1 \<in> {l..<u}" using ne by (auto simp: assms(2) [symmetric] Cons)
  ultimately have s: "snd i = u" using ne by auto
  have "x \<notin> points rest" for x
  proof
    assume x: "x \<in> points rest"
    then have "x \<in> {l..<u}" unfolding assms(2) [symmetric] Cons by simp
    then show False using gap x s by auto
  qed
  then have "points rest = {}" by blast
  then have r: "rest = []" using assms(1) by (cases rest) (auto simp: Cons canonical_Cons canonical_def)
  have "{fst i..<snd i} = {l..<u}" using assms(2) r Cons by (auto simp: set_eq_iff)
  then have "fst i = l" by (rule atLeastLessThan_inj(1)) (rule ne, rule assms(3))
  then show ?thesis using r Cons s by (metis prod.collapse)
qed

lemma not_referenced_after_close:
  assumes inv: "ht_inv_with t (x # fs)" and no: "v \<notin> set (objects t)" and h: "h = make_handle x (next_generation t)"
  shows "Close (created t w) h = Ok (closed (created t w) x) ()" "v \<noteq> None \<Longrightarrow> v \<notin> set (objects (closed (created t w) x))"
    "lookup (created t w) h = Some w" "lookup (closed (created t w) x) = lookup t" "ht_inv (closed (created t w) x)"
proof -
  have x: "next_free_slot t = x" "unat x < MAX_COUNT" "gen_ok (next_generation t)" using inv by (simp_all add: ht_inv_with_def)
  have s: "GetSlot h = x" using x h by simp
  show l: "lookup (created t w) h = Some w" using created_lookup [OF inv] by (simp add: h same_entry_def)
  then show "Close (created t w) h = Ok (closed (created t w) x) ()" using Close_valid [of "created t w" h] s by simp
  have "objects (closed (created t w) x) = (objects t)[unat x := None]" by (simp add: closed_def created_def x(1) Let_def)
  then show "v \<noteq> None \<Longrightarrow> v \<notin> set (objects (closed (created t w) x))" using no set_update_subset_insert [of "objects t" "unat x" None] by auto
  have i: "ht_inv_with (created t w) fs" by (rule created_inv [OF inv])
  show "lookup (closed (created t w) x) = lookup t"
  proof
    fix h'
    have "lookup (closed (created t w) x) h' = (if same_entry h' h then None else lookup (created t w) h')"
      using closed_lookup [OF i, of h h'] l s by simp
    then show "lookup (closed (created t w) x) h' = lookup t h'"
      using created_lookup [OF inv, of w h'] lookup_fresh [OF inv] lookup_same_entry [of h' h t] by (simp add: h split: if_splits)
  qed
  show "ht_inv (closed (created t w) x)" using closed_inv [OF i, of h] l by (auto simp: s ht_inv_def)
qed

text \<open>A process that can create blocks: it exists, has a well-formed resource limit and a free handle, and the object is new.\<close>

definition can_create :: "nat set \<Rightarrow> nat \<Rightarrow> ResourceLimitCategory \<Rightarrow> 's process \<Rightarrow> 's mem_kernel \<Rightarrow> bool" where
  "can_create pids n c p k \<longleftrightarrow>
     proc_view (mk_current k) k = Some p \<and> mk_category k (mk_current k) = Some c \<and> rl_inv (mk_limits k c) \<and> memory_used p < 2 ^ 32 \<and>
     (\<exists>x fs. ht_inv_with (mk_handles k (mk_current k)) (x # fs)) \<and> mk_current k \<in> pids \<and> \<not> referenced n pids k"

definition block_region :: "nat \<Rightarrow> 's mem_kernel \<Rightarrow> memory_region_id" where
  "block_region addr k = (if addr = 0 \<and> mk_device_mem k (mk_current k) then mk_flag_region k (mk_current k) else BASE)"

text \<open>The part of \<^verbatim>\<open>CreateMemoryBlock\<close> after the checks and the reservation.\<close>

definition finish_block :: "'s icl \<Rightarrow> nat \<Rightarrow> nat \<Rightarrow> 's mem_kernel \<Rightarrow> 's shared_memory \<Rightarrow> ('s mem_kernel, u32) outcome" where
  "finish_block I n pid k sm =
     (case Create (mk_handles k pid) (MO_SharedMemory n) of
        Ok t handle \<Rightarrow> Ok (k\<lparr>mk_blocks := (mk_blocks k)(n := sm), mk_handles := (mk_handles k)(pid := t)\<rparr>) handle
      | Err t c \<Rightarrow> orCrash (SharedMemory_destroy I sm k) (\<lambda>k3. Err k3 c)
      | Crash \<Rightarrow> Crash)"

lemma CreateMemoryBlock_checked:
  assumes "proc_view (mk_current k) k = Some p" "count_shared Reserve p = Some (True, p1)" "CITRA_PAGE_SIZE dvd sz"
    "VerifyPermissions my_permission" "VerifyPermissions other_permission"
    "addr = 0 \<or> PROCESS_IMAGE_VADDR \<le> addr \<and> add32 addr sz \<le> SHARED_MEMORY_VADDR_END"
  shows "CreateMemoryBlock I n addr sz my_permission other_permission k =
    bindO (CreateSharedMemory I (Some (mk_current k)) sz my_permission other_permission addr (block_region addr k) (proc_put (mk_current k) p1 k))
      (finish_block I n (mk_current k))"
proof -
  have g: "\<not> ((addr < PROCESS_IMAGE_VADDR \<or> add32 addr sz > SHARED_MEMORY_VADDR_END) \<and> addr \<noteq> 0)" using assms(6) by auto
  have f: "finish_block I n (mk_current k) = (\<lambda>k2 sm. case Create (mk_handles k2 (mk_current k)) (MO_SharedMemory n) of
        Ok t handle \<Rightarrow> Ok (k2\<lparr>mk_blocks := (mk_blocks k2)(n := sm), mk_handles := (mk_handles k2)(mk_current k := t)\<rparr>) handle
      | Err t c \<Rightarrow> orCrash (SharedMemory_destroy I sm k2) (\<lambda>k3. Err k3 c)
      | Crash \<Rightarrow> Crash)"
    by (intro ext) (simp add: finish_block_def)
  have m: "sz mod CITRA_PAGE_SIZE = 0" using assms(3) by (simp add: dvd_eq_mod_eq_0)
  show ?thesis unfolding CreateMemoryBlock_def Let_def f unlessO_def if_P [OF m] if_P [OF assms(4)] if_P [OF assms(5)] if_P [OF g]
    using assms(1,2) by (simp add: orCrash_def block_region_def)
qed

context interval_set
begin

lemma proc_view_regions: "proc_view pid (k\<lparr>mk_regions := R\<rparr>) = map_option (\<lambda>p. p\<lparr>regions := R\<rparr>) (proc_view pid k)"
  by (cases "mk_procs k pid") (simp_all add: proc_view_def)

lemma single_block: "0 < sz \<Longrightarrow> icl_blocks I (icl_add I (off, off + sz) (icl_empty I)) = [(off, off + sz)]"
  by (rule canonical_single) (simp_all add: blocks_canonical add_points empty_points span_def)

lemma allocate_block_effect:
  assumes v: "proc_view pid k = Some p" and cat: "mk_category k pid = Some c"
    and r: "region_ok I (mk_regions k rg)" and sz: "0 < sz" "{b..<b + sz} \<subseteq> free_points I (mk_regions k rg)"
    and sm: "owner_process sm = Some pid" "sm_size sm = sz" "sm_region sm = rg" "sm_holding_memory sm = icl_empty I"
  obtains off r k' where
    "allocate_block I sm k = Ok k' (sm\<lparr>backing_blocks := [(\<lparr>mr_backing = Some (fcram_mem (mk_mem k)), mr_offset = off\<rparr>, sz)],
       sm_holding_memory := icl_add I (off, off + sz) (icl_empty I), linear_heap_phys_offset := off\<rparr>)"
    "proc_view pid k' = Some (p\<lparr>regions := (mk_regions k)(rg := r), pr_mem := cleared {off..<off + sz} (mk_mem k), memory_used := add32 (memory_used p) sz\<rparr>)"
    "mk_handles k' = mk_handles k" "mk_current k' = mk_current k" "mk_category k' = mk_category k" "mk_limits k' = mk_limits k"
    "mk_regions k' = (mk_regions k)(rg := r)" "mk_blocks k' = mk_blocks k"
    "{off..<off + sz} \<subseteq> free_points I (mk_regions k rg)" "region_inv I r" "\<not> rg_locked r"
    "free_points I r = free_points I (mk_regions k rg) - {off..<off + sz}" "rg_used r = rg_used (mk_regions k rg) + sz"
    "rg_base r = rg_base (mk_regions k rg)" "rg_size r = rg_size (mk_regions k rg)"
proof -
  have reg: "region_inv I (mk_regions k rg)" "\<not> rg_locked (mk_regions k rg)"
    "rg_base (mk_regions k rg) + rg_size (mk_regions k rg) \<le> FCRAM_N3DS_SIZE" using r by (simp_all add: region_ok_def)
  note la = linear_allocate [OF reg(1,2) sz(1)]
  obtain off r where l: "region_LinearAllocate I sz (mk_regions k rg) = Some (Some off, r)"
    using la sz(2) by (auto split: option.splits prod.splits)
  note la' = la [unfolded l, simplified]
  have "off + sz - 1 \<in> {off..<off + sz}" using sz(1) by simp
  then have "off + sz - 1 < rg_base (mk_regions k rg) + rg_size (mk_regions k rg)" using la' reg(1) unfolding region_inv_def by (metis atLeastLessThan_iff subsetD)
  then have le: "off + sz \<le> FCRAM_N3DS_SIZE" using reg(3) by linarith
  have w: "add32 off sz = off + sz" using le by (simp add: add32_small FCRAM_N3DS_SIZE_def)
  have cf: "clear_fcram off (off + sz) (mk_mem k) = Some (cleared {off..<off + sz} (mk_mem k))"
    using clear_fcram_cleared [of off "off + sz" "mk_mem k"] le by (simp add: span_def)
  have ref: "GetFCRAMRef (cleared {off..<off + sz} (mk_mem k)) off = Some \<lparr>mr_backing = Some (fcram_mem (mk_mem k)), mr_offset = off\<rparr>"
    using le by (simp add: GetFCRAMRef_def cleared_def)
  let ?k = "k\<lparr>mk_regions := (mk_regions k)(rg := r), mk_mem := cleared {off..<off + sz} (mk_mem k),
      mk_procs := (mk_procs k)(pid := map_option (\<lambda>p. p\<lparr>memory_used := add32 (memory_used p) sz\<rparr>) (mk_procs k pid))\<rparr>"
  show thesis
  proof (rule that [of ?k off r])
    show "allocate_block I sm k = Ok ?k (sm\<lparr>backing_blocks := [(\<lparr>mr_backing = Some (fcram_mem (mk_mem k)), mr_offset = off\<rparr>, sz)],
       sm_holding_memory := icl_add I (off, off + sz) (icl_empty I), linear_heap_phys_offset := off\<rparr>)"
      using l cf ref w by (simp add: allocate_block_def orCrash_def sm Let_def)
    show "proc_view pid ?k = Some (p\<lparr>regions := (mk_regions k)(rg := r), pr_mem := cleared {off..<off + sz} (mk_mem k), memory_used := add32 (memory_used p) sz\<rparr>)"
      using v by (auto simp: proc_view_def)
  qed (use la' in simp_all)
qed

lemma create_close_allocated:
  assumes ok: "can_create pids n c p k" and r: "region_ok I (mk_regions k (block_region 0 k))"
    and sz: "0 < sz" "sz < 2 ^ 32" "CITRA_PAGE_SIZE dvd sz" "{b..<b + sz} \<subseteq> free_points I (mk_regions k (block_region 0 k))"
    and perms: "VerifyPermissions my_permission" "VerifyPermissions other_permission"
  shows "\<exists>k1 h p1 k2 p2. CreateMemoryBlock I n 0 sz my_permission other_permission k = Ok k1 h \<and>
    lookup (mk_handles k1 (mk_current k)) h = Some (MO_SharedMemory n) \<and> proc_view (mk_current k) k1 = Some p1 \<and>
    memory_used p1 = add32 (memory_used p) sz \<and>
    mem_CloseHandle I pids h k1 = Ok k2 () \<and> proc_view (mk_current k) k2 = Some p2 \<and> memory_used p2 = memory_used p \<and> pr_vm p2 = pr_vm p \<and>
    mk_limits k2 = mk_limits k \<and> lookup (mk_handles k2 (mk_current k)) = lookup (mk_handles k (mk_current k)) \<and>
    free_points I (mk_regions k2 (block_region 0 k)) = free_points I (mk_regions k (block_region 0 k)) \<and>
    (\<forall>g. g \<noteq> block_region 0 k \<longrightarrow> mk_regions k2 g = mk_regions k g)"
proof -
  let ?pid = "mk_current k" and ?rg = "block_region 0 k" and ?rl = "mk_limits k c"
  obtain x fs where v: "proc_view ?pid k = Some p" and cat: "mk_category k ?pid = Some c" and rl: "rl_inv ?rl" and mu: "memory_used p < 2 ^ 32"
    and ht: "ht_inv_with (mk_handles k ?pid) (x # fs)" and pids: "?pid \<in> pids" "\<not> referenced n pids k"
    using ok by (auto simp: can_create_def)
  note pd = proc_viewD [OF v]
  have lim: "pr_limit p = Some ?rl" using pd(3) cat by simp
  obtain rl' where rl': "count_shared Reserve p = Some (True, p\<lparr>pr_limit := Some rl'\<rparr>)" "rl_inv rl'"
    "\<forall>q :: 's process. pr_limit q = Some rl' \<longrightarrow> count_shared Release q = Some (True, q\<lparr>pr_limit := Some ?rl\<rparr>)"
    by (rule count_shared_Reserve [OF lim rl])
  let ?p1 = "p\<lparr>pr_limit := Some rl'\<rparr>"
  let ?k1 = "proc_put ?pid ?p1 k" and ?sm = "new_block I (Some ?pid) sz my_permission other_permission ?rg"
  have v1: "proc_view ?pid ?k1 = Some ?p1" by (rule pv.view_put) (simp add: limit_fits_def cat)
  have reg1: "mk_regions ?k1 = mk_regions k" "mk_mem ?k1 = mk_mem k" using pd by simp_all
  have l1: "mk_limits ?k1 = (mk_limits k)(c := rl')" using cat by (simp add: proc_put_limits)
  obtain off r k2 where a: "allocate_block I ?sm ?k1 = Ok k2 (?sm\<lparr>backing_blocks := [(\<lparr>mr_backing = Some (fcram_mem (mk_mem ?k1)), mr_offset = off\<rparr>, sz)],
       sm_holding_memory := icl_add I (off, off + sz) (icl_empty I), linear_heap_phys_offset := off\<rparr>)"
    and v2: "proc_view ?pid k2 = Some (?p1\<lparr>regions := (mk_regions ?k1)(?rg := r), pr_mem := cleared {off..<off + sz} (mk_mem ?k1), memory_used := add32 (memory_used ?p1) sz\<rparr>)"
    and k2: "mk_handles k2 = mk_handles ?k1" "mk_current k2 = mk_current ?k1" "mk_category k2 = mk_category ?k1" "mk_limits k2 = mk_limits ?k1"
      "mk_regions k2 = (mk_regions ?k1)(?rg := r)" "mk_blocks k2 = mk_blocks ?k1"
    and o: "{off..<off + sz} \<subseteq> free_points I (mk_regions ?k1 ?rg)" "region_inv I r" "\<not> rg_locked r"
      "free_points I r = free_points I (mk_regions ?k1 ?rg) - {off..<off + sz}" "rg_used r = rg_used (mk_regions ?k1 ?rg) + sz"
      "rg_base r = rg_base (mk_regions ?k1 ?rg)" "rg_size r = rg_size (mk_regions ?k1 ?rg)"
    by (rule allocate_block_effect [OF v1, of c ?rg sz b ?sm]) (use cat r sz in \<open>simp_all add: pd new_block_def\<close>)
  define sm where "sm = ?sm\<lparr>backing_blocks := [(\<lparr>mr_backing = Some (fcram_mem (mk_mem ?k1)), mr_offset = off\<rparr>, sz)],
       sm_holding_memory := icl_add I (off, off + sz) (icl_empty I), linear_heap_phys_offset := off, base_address := 0\<rparr>"
  let ?t = "mk_handles k ?pid" let ?h = "make_handle x (next_generation ?t)"
  let ?k3 = "k2\<lparr>mk_blocks := (mk_blocks k2)(n := sm), mk_handles := (mk_handles k2)(?pid := created ?t (MO_SharedMemory n))\<rparr>"
  have cr: "CreateMemoryBlock I n 0 sz my_permission other_permission k = Ok ?k3 ?h"
    using CreateMemoryBlock_checked [OF v rl'(1) sz(3) perms, of 0 I n] a k2(1) Create_free [OF ht]
    by (simp add: CreateSharedMemory_def finish_block_def sm_def Let_def)
  have nr: "Some (MO_SharedMemory n) \<notin> set (objects ?t)" using pids by (auto simp: referenced_def)
  note cl = not_referenced_after_close [OF ht nr refl, of "MO_SharedMemory n"]
  let ?k4 = "?k3\<lparr>mk_handles := (mk_handles ?k3)(?pid := closed (created ?t (MO_SharedMemory n)) x)\<rparr>"
  have nr4: "\<not> referenced n pids ?k4" using pids(2) cl(2) by (auto simp: referenced_def k2)
  have sm: "icl_blocks I (sm_holding_memory sm) = [(off, off + sz)]" "sm_region sm = ?rg" "owner_process sm = Some ?pid" "base_address sm = 0" "sm_size sm = sz"
    using single_block [OF sz(1)] by (simp_all add: sm_def new_block_def)
  obtain r'' where r'': "region_Free I off sz r = Some r''" "free_points I r'' = free_points I (mk_regions k ?rg)"
    using free_taken [of "mk_regions ?k1 ?rg" r off sz] o r sz(1) unfolding reg1 by (auto simp: region_ok_def)
  let ?k5 = "?k4\<lparr>mk_regions := (mk_regions ?k4)(?rg := r'')\<rparr>"
  let ?p5 = "?p1\<lparr>regions := (mk_regions k)(?rg := r''), pr_mem := cleared {off..<off + sz} (mk_mem k), memory_used := add32 (memory_used p) sz\<rparr>"
  have v5: "proc_view ?pid ?k5 = Some ?p5" using v2 by (simp add: proc_view_regions k2 pd)
  have su: "sub32 (add32 (memory_used p) sz) sz = memory_used p" using mu sz(2) by (auto simp: sub32_def add32_def mod_if)
  let ?p6 = "?p5\<lparr>pr_limit := Some ?rl, memory_used := memory_used p\<rparr>"
  have f: "forget_block sm ?p5 = Some ?p6" using rl'(3) su by (simp add: forget_block_def sm)
  have des: "SharedMemory_destroy I sm ?k4 = Some (proc_put ?pid ?p6 ?k5)"
    using r''(1) v5 f by (simp add: SharedMemory_destroy_def sm k2 Let_def)
  have cl2: "mem_CloseHandle I pids ?h ?k3 = Ok (proc_put ?pid ?p6 ?k5) ()"
    using cl(1,3) nr4 des by (simp add: mem_CloseHandle_def k2 drop_reference_def orCrash_def Let_def)
  have fin: "proc_view ?pid (proc_put ?pid ?p6 ?k5) = Some ?p6" by (rule pv.view_put) (simp add: limit_fits_def k2 cat)
  have lims: "mk_limits (proc_put ?pid ?p6 ?k5) = mk_limits k" using cat by (simp add: proc_put_limits [of _ _ c] k2 l1)
  have v3: "proc_view ?pid ?k3 = Some (?p1\<lparr>regions := (mk_regions ?k1)(?rg := r), pr_mem := cleared {off..<off + sz} (mk_mem ?k1), memory_used := add32 (memory_used ?p1) sz\<rparr>)"
    using v2 by simp
  show ?thesis
    by (rule exI [of _ ?k3], rule exI [of _ ?h], rule exI [of _ "the (proc_view ?pid ?k3)"], rule exI [of _ "proc_put ?pid ?p6 ?k5"], rule exI [of _ ?p6])
      (use cr cl2 fin lims v3 cl(3,4) r''(2) in simp)
qed

end

text \<open>The addresses of a range that a process may share: its own private memory, readable and writable.\<close>

definition shareable :: "vm_manager \<Rightarrow> nat \<Rightarrow> nat \<Rightarrow> bool" where
  "shareable vm addr sz \<longleftrightarrow> no_free_in vm addr sz \<and>
     (\<forall>a. addr \<le> a \<and> a < addr + sz \<longrightarrow> (\<exists>t p s h. contents vm a = Some (t, p, s, h) \<and> s = StPrivate \<and> p AND PermReadWrite = PermReadWrite))"

context interval_set
begin

lemma no_blocks: "icl_blocks I (icl_empty I) = []"
proof (cases "icl_blocks I (icl_empty I)")
  case (Cons i bs)
  then have "fst i < snd i" using blocks_canonical [of "icl_empty I"] by (simp add: canonical_def)
  then have "fst i \<in> points (icl_blocks I (icl_empty I))" by (simp add: Cons)
  then show ?thesis using empty_points by simp
qed

lemma destroy_unheld:
  assumes "sm_holding_memory sm = icl_empty I" "owner_process sm = Some pid" "proc_view pid k = Some p" "forget_block sm p = Some p'"
  shows "SharedMemory_destroy I sm k = Some (proc_put pid p' k)"
proof -
  have "k\<lparr>mk_regions := (mk_regions k)(sm_region sm := mk_regions k (sm_region sm))\<rparr> = k" by simp
  then show ?thesis using assms no_blocks by (simp add: SharedMemory_destroy_def Let_def)
qed

lemma create_locked_fails:
  assumes ok: "can_create pids n c p k" and vm: "vm_ok H p"
    and sz: "0 < sz" "CITRA_PAGE_SIZE dvd sz" "CITRA_PAGE_SIZE dvd addr" "PROCESS_IMAGE_VADDR \<le> addr" "addr + sz \<le> SHARED_MEMORY_VADDR_END"
    and perms: "VerifyPermissions my_permission" "VerifyPermissions other_permission"
    and no: "\<not> shareable (pr_vm p) addr sz"
  shows "\<exists>k1. CreateMemoryBlock I n addr sz my_permission other_permission k = Err k1 ResultInvalidAddressState \<and>
    proc_view (mk_current k) k1 = Some (p\<lparr>memory_used := sub32 (memory_used p) sz\<rparr>) \<and> mk_limits k1 = mk_limits k \<and> mk_handles k1 = mk_handles k"
proof -
  let ?pid = "mk_current k" and ?rl = "mk_limits k c" and ?rg = "block_region addr k"
  have v: "proc_view ?pid k = Some p" and cat: "mk_category k ?pid = Some c" and rl: "rl_inv ?rl" using ok by (auto simp: can_create_def)
  note pd = proc_viewD [OF v]
  have lim: "pr_limit p = Some ?rl" using pd(3) cat by simp
  obtain rl' where rl': "count_shared Reserve p = Some (True, p\<lparr>pr_limit := Some rl'\<rparr>)" "rl_inv rl'"
    "\<forall>q :: 's process. pr_limit q = Some rl' \<longrightarrow> count_shared Release q = Some (True, q\<lparr>pr_limit := Some ?rl\<rparr>)"
    by (rule count_shared_Reserve [OF lim rl])
  let ?p1 = "p\<lparr>pr_limit := Some rl'\<rparr>"
  let ?k1 = "proc_put ?pid ?p1 k" and ?sm = "new_block I (Some ?pid) sz my_permission other_permission ?rg"
  have f1: "limit_fits ?pid ?p1 k" by (simp add: limit_fits_def cat)
  have v1: "proc_view ?pid ?k1 = Some ?p1" by (rule pv.view_put [OF f1])
  have g: "addr = 0 \<or> PROCESS_IMAGE_VADDR \<le> addr \<and> add32 addr sz \<le> SHARED_MEMORY_VADDR_END" "addr + sz \<le> MAX_ADDRESS" "addr \<noteq> 0"
    using sz by (auto simp: add32_small SHARED_MEMORY_VADDR_END_def MAX_ADDRESS_def PROCESS_IMAGE_VADDR_def)
  have vi: "host_layout H" "vm_inv H (cached_pages (pr_mem p)) (pr_vm p)" "\<not> is_locked (pr_vm p)" using vm by (simp_all add: vm_ok_def)
  have "ChangeMemoryState (cached_pages (pr_mem p)) addr sz StPrivate PermReadWrite StLocked (ConvertPermissions my_permission) (pr_vm p) =
      Err (pr_vm p) ResultInvalidAddressState"
    using ChangeMemoryState_effect [OF vi sz(3,2,1) g(2)] no unfolding shareable_def by (metis (no_types, lifting))
  moreover have "forget_block ?sm ?p1 = Some (p\<lparr>memory_used := sub32 (memory_used p) sz\<rparr>)"
    using rl'(3) lim by (simp add: forget_block_def new_block_def)
  then have "SharedMemory_destroy I ?sm ?k1 = Some (proc_put ?pid (p\<lparr>memory_used := sub32 (memory_used p) sz\<rparr>) ?k1)"
    using v1 by (intro destroy_unheld) (simp_all add: new_block_def)
  moreover have "proc_put ?pid (?p1\<lparr>pr_vm := pr_vm p\<rparr>) ?k1 = ?k1" using pv.put_put [OF f1, of ?p1] by simp
  ultimately have "lock_block I addr ?sm ?k1 = Err (proc_put ?pid (p\<lparr>memory_used := sub32 (memory_used p) sz\<rparr>) ?k1) ResultInvalidAddressState"
    using v1 by (simp add: lock_block_def orCrash_def new_block_def)
  then have "CreateMemoryBlock I n addr sz my_permission other_permission k =
      Err (proc_put ?pid (p\<lparr>memory_used := sub32 (memory_used p) sz\<rparr>) ?k1) ResultInvalidAddressState"
    using CreateMemoryBlock_checked [OF v rl'(1) sz(2) perms g(1), of I n] g(3) by (simp add: CreateSharedMemory_def Let_def)
  moreover have "proc_view ?pid (proc_put ?pid (p\<lparr>memory_used := sub32 (memory_used p) sz\<rparr>) ?k1) = Some (p\<lparr>memory_used := sub32 (memory_used p) sz\<rparr>)"
    by (rule pv.view_put) (simp add: limit_fits_def cat lim)
  moreover have "mk_limits (proc_put ?pid (p\<lparr>memory_used := sub32 (memory_used p) sz\<rparr>) ?k1) = mk_limits k"
    using cat lim by (simp add: proc_put_limits [of _ _ c])
  ultimately show ?thesis by (intro exI [of _ "proc_put ?pid (p\<lparr>memory_used := sub32 (memory_used p) sz\<rparr>) ?k1"]) simp
qed

lemma create_close_locked:
  assumes ok: "can_create pids n c p k" and vm: "vm_ok H p"
    and sz: "0 < sz" "CITRA_PAGE_SIZE dvd sz" "CITRA_PAGE_SIZE dvd addr" "PROCESS_IMAGE_VADDR \<le> addr" "addr + sz \<le> SHARED_MEMORY_VADDR_END"
    and perms: "VerifyPermissions my_permission" "VerifyPermissions other_permission"
    and sh: "shareable (pr_vm p) addr sz"
  shows "\<exists>k1 h p1 k2 p2. CreateMemoryBlock I n addr sz my_permission other_permission k = Ok k1 h \<and>
    lookup (mk_handles k1 (mk_current k)) h = Some (MO_SharedMemory n) \<and> proc_view (mk_current k) k1 = Some p1 \<and>
    expand (backing_blocks (mk_blocks k1 n)) = map (host_ptr (pr_vm p)) [addr..<addr + sz] \<and>
    contents (pr_vm p1) = (\<lambda>a. if addr \<le> a \<and> a < addr + sz
      then map_option (\<lambda>(t, _, _, h). (t, ConvertPermissions my_permission, StLocked, h)) (contents (pr_vm p) a) else contents (pr_vm p) a) \<and>
    mem_CloseHandle I pids h k1 = Ok k2 () \<and> proc_view (mk_current k) k2 = Some p2 \<and> memory_used p2 = memory_used p \<and>
    contents (pr_vm p2) = (\<lambda>a. if addr \<le> a \<and> a < addr + sz
      then map_option (\<lambda>(t, _, _, h). (t, PermReadWrite, StPrivate, h)) (contents (pr_vm p) a) else contents (pr_vm p) a) \<and>
    mk_limits k2 = mk_limits k \<and> lookup (mk_handles k2 (mk_current k)) = lookup (mk_handles k (mk_current k)) \<and> mk_regions k2 = mk_regions k"
proof -
  let ?pid = "mk_current k" and ?rl = "mk_limits k c" and ?rg = "block_region addr k" and ?c = "cached_pages (pr_mem p)"
  obtain x fs where v: "proc_view ?pid k = Some p" and cat: "mk_category k ?pid = Some c" and rl: "rl_inv ?rl"
    and ht: "ht_inv_with (mk_handles k ?pid) (x # fs)" and pids: "?pid \<in> pids" "\<not> referenced n pids k"
    using ok by (auto simp: can_create_def)
  note pd = proc_viewD [OF v]
  have lim: "pr_limit p = Some ?rl" using pd(3) cat by simp
  obtain rl' where rl': "count_shared Reserve p = Some (True, p\<lparr>pr_limit := Some rl'\<rparr>)" "rl_inv rl'"
    "\<forall>q :: 's process. pr_limit q = Some rl' \<longrightarrow> count_shared Release q = Some (True, q\<lparr>pr_limit := Some ?rl\<rparr>)"
    by (rule count_shared_Reserve [OF lim rl])
  let ?p1 = "p\<lparr>pr_limit := Some rl'\<rparr>"
  let ?k1 = "proc_put ?pid ?p1 k" and ?sm = "new_block I (Some ?pid) sz my_permission other_permission ?rg"
  have v1: "proc_view ?pid ?k1 = Some ?p1" by (rule pv.view_put) (simp add: limit_fits_def cat)
  have g: "addr = 0 \<or> PROCESS_IMAGE_VADDR \<le> addr \<and> add32 addr sz \<le> SHARED_MEMORY_VADDR_END" "addr + sz \<le> MAX_ADDRESS" "addr \<noteq> 0"
    using sz by (auto simp: add32_small SHARED_MEMORY_VADDR_END_def MAX_ADDRESS_def PROCESS_IMAGE_VADDR_def)
  have vi: "host_layout H" "vm_inv H ?c (pr_vm p)" "\<not> is_locked (pr_vm p)" using vm by (simp_all add: vm_ok_def)
  have priv: "no_free_in (pr_vm p) addr sz"
    "\<exists>t h pp. contents (pr_vm p) a = Some (t, pp, StPrivate, h) \<and> t \<noteq> VMAFree" if "addr \<le> a" "a < addr + sz" for a
    using sh that by (force simp: shareable_def no_free_in_def type_at_def)+
  obtain vm1 where c1: "ChangeMemoryState ?c addr sz StPrivate PermReadWrite StLocked (ConvertPermissions my_permission) (pr_vm p) = Ok vm1 ()"
      "vm_inv H ?c vm1" "\<not> is_locked vm1"
    and con1: "contents vm1 = (\<lambda>a. if addr \<le> a \<and> a < addr + sz
      then map_option (\<lambda>(t, _, _, h). (t, ConvertPermissions my_permission, StLocked, h)) (contents (pr_vm p) a) else contents (pr_vm p) a)"
    using ChangeMemoryState_effect [OF vi sz(3,2,1) g(2), of StPrivate PermReadWrite StLocked "ConvertPermissions my_permission"] sh
    unfolding shareable_def by (metis (no_types, lifting))
  have at1: "\<exists>t h. contents vm1 a = Some (t, ConvertPermissions my_permission, StLocked, h) \<and> t \<noteq> VMAFree \<and> host_ptr vm1 a = host_ptr (pr_vm p) a"
    if "addr \<le> a" "a < addr + sz" for a
    using priv(2) [OF that] that by (auto simp: con1 host_ptr_def)
  have nf1: "no_free_in vm1 addr sz" using at1 by (fastforce simp: no_free_in_def type_at_def)
  obtain bs where bs: "GetBackingBlocksForRange addr sz vm1 = Ok () bs" "expand bs = map (host_ptr vm1) [addr..<addr + sz]"
    using GetBackingBlocksForRange_effect [OF c1(2) sz(1) g(2)] nf1 by auto
  have ex: "expand bs = map (host_ptr (pr_vm p)) [addr..<addr + sz]" unfolding bs(2) using at1 by (intro map_cong refl) (metis atLeastLessThan_iff set_upt)
  let ?p2 = "?p1\<lparr>pr_vm := vm1\<rparr>" let ?k2 = "proc_put ?pid ?p2 k"
  have v2: "proc_view ?pid ?k2 = Some ?p2" by (rule pv.view_put) (simp add: limit_fits_def cat)
  have pp: "proc_put ?pid ?p2 ?k1 = ?k2" by (rule pv.put_put) (simp add: limit_fits_def cat)
  have lb: "lock_block I addr ?sm ?k1 = Ok ?k2 (?sm\<lparr>backing_blocks := bs\<rparr>)"
    using v1 c1(1) bs(1) pp by (simp add: lock_block_def orCrash_def new_block_def)
  define sm where "sm = ?sm\<lparr>backing_blocks := bs, base_address := addr\<rparr>"
  let ?t = "mk_handles k ?pid" let ?h = "make_handle x (next_generation ?t)"
  let ?k3 = "?k2\<lparr>mk_blocks := (mk_blocks ?k2)(n := sm), mk_handles := (mk_handles ?k2)(?pid := created ?t (MO_SharedMemory n))\<rparr>"
  have cr: "CreateMemoryBlock I n addr sz my_permission other_permission k = Ok ?k3 ?h"
    using CreateMemoryBlock_checked [OF v rl'(1) sz(2) perms g(1), of I n] lb g(3) Create_free [OF ht]
    by (simp add: CreateSharedMemory_def finish_block_def sm_def Let_def)
  have nr: "Some (MO_SharedMemory n) \<notin> set (objects ?t)" using pids by (auto simp: referenced_def)
  note cl = not_referenced_after_close [OF ht nr refl, of "MO_SharedMemory n"]
  let ?k4 = "?k3\<lparr>mk_handles := (mk_handles ?k3)(?pid := closed (created ?t (MO_SharedMemory n)) x)\<rparr>"
  have nr4: "\<not> referenced n pids ?k4" using pids(2) cl(2) by (auto simp: referenced_def)
  have "pp AND PermNone = PermNone" for pp :: u8 by (simp add: PermNone_def)
  then have cond: "no_free_in vm1 addr sz \<and> (\<forall>a. addr \<le> a \<and> a < addr + sz \<longrightarrow>
      (\<exists>t p s h. contents vm1 a = Some (t, p, s, h) \<and> s = StLocked \<and> p AND PermNone = PermNone))" using nf1 at1 by blast
  obtain vm2 where c2: "ChangeMemoryState ?c addr sz StLocked PermNone StPrivate PermReadWrite vm1 = Ok vm2 ()"
    and con2: "contents vm2 = (\<lambda>a. if addr \<le> a \<and> a < addr + sz
      then map_option (\<lambda>(t, _, _, h). (t, PermReadWrite, StPrivate, h)) (contents vm1 a) else contents vm1 a)"
    using ChangeMemoryState_effect [OF vi(1) c1(2,3) sz(3,2,1) g(2), of StLocked PermNone StPrivate PermReadWrite]
    unfolding if_P [OF cond] by blast
  let ?p5 = "?p2\<lparr>pr_limit := Some ?rl, pr_vm := vm2\<rparr>"
  have f: "forget_block sm ?p2 = Some ?p5" using rl'(3) c2 g(3) by (simp add: forget_block_def sm_def new_block_def)
  have v4: "proc_view ?pid ?k4 = Some ?p2" using v2 by simp
  have des: "SharedMemory_destroy I sm ?k4 = Some (proc_put ?pid ?p5 ?k4)"
    by (rule destroy_unheld [OF _ _ v4 f]) (simp_all add: sm_def new_block_def)
  have cl2: "mem_CloseHandle I pids ?h ?k3 = Ok (proc_put ?pid ?p5 ?k4) ()"
    using cl(1,3) nr4 des by (simp add: mem_CloseHandle_def drop_reference_def orCrash_def Let_def)
  have fin: "proc_view ?pid (proc_put ?pid ?p5 ?k4) = Some ?p5" by (rule pv.view_put) (simp add: limit_fits_def cat)
  have lims: "mk_limits (proc_put ?pid ?p5 ?k4) = mk_limits k" using cat by (simp add: proc_put_limits [of _ _ c])
  have con: "contents vm2 = (\<lambda>a. if addr \<le> a \<and> a < addr + sz
      then map_option (\<lambda>(t, _, _, h). (t, PermReadWrite, StPrivate, h)) (contents (pr_vm p) a) else contents (pr_vm p) a)"
    by (auto simp: con2 con1 fun_eq_iff option.map_comp comp_def split_def)
  have v3: "proc_view ?pid ?k3 = Some ?p2" using v2 by simp
  show ?thesis
    by (rule exI [of _ ?k3], rule exI [of _ ?h], rule exI [of _ ?p2], rule exI [of _ "proc_put ?pid ?p5 ?k4"], rule exI [of _ ?p5], intro conjI)
      (use cr cl2 fin lims v3 cl(3,4) con con1 ex pd(1) in \<open>simp_all add: sm_def\<close>)
qed

end

text \<open>
  Property (C17): the life of a block that the kernel allocates. When the region of the process has a free run of the requested size, \<^verbatim>\<open>CreateMemoryBlock\<close> with
  address 0 fails no assertion and returns a handle of the new block; closing that handle, the only reference, destroys the block and restores the free memory of
  every region, the counters of the resource limit, the handles and the memory use of the process.
\<close>

theorem CreateMemoryBlock_CloseHandle:
  assumes "interval_set I" "can_create pids n c p k" "region_ok I (mk_regions k (block_region 0 k))"
    "0 < sz" "sz < 2 ^ 32" "CITRA_PAGE_SIZE dvd sz" "{b..<b + sz} \<subseteq> free_points I (mk_regions k (block_region 0 k))"
    "VerifyPermissions my_permission" "VerifyPermissions other_permission"
  shows "\<exists>k1 h p1 k2 p2. CreateMemoryBlock I n 0 sz my_permission other_permission k = Ok k1 h \<and>
    lookup (mk_handles k1 (mk_current k)) h = Some (MO_SharedMemory n) \<and> proc_view (mk_current k) k1 = Some p1 \<and>
    memory_used p1 = add32 (memory_used p) sz \<and>
    mem_CloseHandle I pids h k1 = Ok k2 () \<and> proc_view (mk_current k) k2 = Some p2 \<and> memory_used p2 = memory_used p \<and> pr_vm p2 = pr_vm p \<and>
    mk_limits k2 = mk_limits k \<and> lookup (mk_handles k2 (mk_current k)) = lookup (mk_handles k (mk_current k)) \<and>
    free_points I (mk_regions k2 (block_region 0 k)) = free_points I (mk_regions k (block_region 0 k)) \<and>
    (\<forall>g. g \<noteq> block_region 0 k \<longrightarrow> mk_regions k2 g = mk_regions k g)"
  by (rule interval_set.create_close_allocated [OF assms])

text \<open>
  Property: the life of a block of the owner's own memory. \<^verbatim>\<open>CreateMemoryBlock\<close> on private, readable and writable memory locks exactly that range with
  the requested permissions and gives the block the host bytes of the range; closing the only handle makes the range private, readable and writable again and
  restores counters, handles and regions.
\<close>

theorem CreateMemoryBlock_locks:
  assumes "interval_set I" "can_create pids n c p k" "vm_ok H p"
    "0 < sz" "CITRA_PAGE_SIZE dvd sz" "CITRA_PAGE_SIZE dvd addr" "PROCESS_IMAGE_VADDR \<le> addr" "addr + sz \<le> SHARED_MEMORY_VADDR_END"
    "VerifyPermissions my_permission" "VerifyPermissions other_permission" "shareable (pr_vm p) addr sz"
  shows "\<exists>k1 h p1 k2 p2. CreateMemoryBlock I n addr sz my_permission other_permission k = Ok k1 h \<and>
    lookup (mk_handles k1 (mk_current k)) h = Some (MO_SharedMemory n) \<and> proc_view (mk_current k) k1 = Some p1 \<and>
    expand (backing_blocks (mk_blocks k1 n)) = map (host_ptr (pr_vm p)) [addr..<addr + sz] \<and>
    contents (pr_vm p1) = (\<lambda>a. if addr \<le> a \<and> a < addr + sz
      then map_option (\<lambda>(t, _, _, h). (t, ConvertPermissions my_permission, StLocked, h)) (contents (pr_vm p) a) else contents (pr_vm p) a) \<and>
    mem_CloseHandle I pids h k1 = Ok k2 () \<and> proc_view (mk_current k) k2 = Some p2 \<and> memory_used p2 = memory_used p \<and>
    contents (pr_vm p2) = (\<lambda>a. if addr \<le> a \<and> a < addr + sz
      then map_option (\<lambda>(t, _, _, h). (t, PermReadWrite, StPrivate, h)) (contents (pr_vm p) a) else contents (pr_vm p) a) \<and>
    mk_limits k2 = mk_limits k \<and> lookup (mk_handles k2 (mk_current k)) = lookup (mk_handles k (mk_current k)) \<and> mk_regions k2 = mk_regions k"
  by (rule interval_set.create_close_locked [OF assms])

text \<open>
  Property (C40): a request to share memory that is not private, or not readable and writable, is refused with \<^verbatim>\<open>ResultInvalidAddressState\<close>; handles, mappings and
  resource limit stay as they were, but the memory use of the process is decreased by the size of the block that was never counted, modulo \<open>2\<^sup>3\<^sup>2\<close>: the
  destructor of the unfinished block takes it for one that the kernel allocated.
\<close>

theorem refused_block_underflows:
  assumes "interval_set I" "can_create pids n c p k" "vm_ok H p"
    "0 < sz" "CITRA_PAGE_SIZE dvd sz" "CITRA_PAGE_SIZE dvd addr" "PROCESS_IMAGE_VADDR \<le> addr" "addr + sz \<le> SHARED_MEMORY_VADDR_END"
    "VerifyPermissions my_permission" "VerifyPermissions other_permission" "\<not> shareable (pr_vm p) addr sz"
  shows "\<exists>k1. CreateMemoryBlock I n addr sz my_permission other_permission k = Err k1 ResultInvalidAddressState \<and>
    proc_view (mk_current k) k1 = Some (p\<lparr>memory_used := sub32 (memory_used p) sz\<rparr>) \<and> mk_limits k1 = mk_limits k \<and> mk_handles k1 = mk_handles k"
  by (rule interval_set.create_locked_fails [OF assms])

section \<open>Examples\<close>

text \<open>A kernel with one process.\<close>

definition kernel_of :: "(nat \<times> nat) list process \<Rightarrow> (nat \<times> nat) list mem_kernel" where
  "kernel_of p = \<lparr>mk_regions = regions p, mk_mem = pr_mem p, mk_limits = (\<lambda>_. ResourceLimitList False 0 Application), mk_procs = [1 \<mapsto> p],
     mk_category = [1 \<mapsto> Application], mk_device_mem = (\<lambda>_. False), mk_flag_region = (\<lambda>_. APPLICATION), mk_handles = (\<lambda>_. HandleTable),
     mk_blocks = (\<lambda>_. new_block list_icl None 0 0 0 BASE), mk_current = 1\<rparr>"

definition limited :: "(nat \<times> nat) list process \<Rightarrow> (nat \<times> nat) list process" where
  "limited p = p\<lparr>pr_limit := Some (ResourceLimitList False 0 Application)\<rparr>"

lemma fresh_table: "\<exists>x fs. ht_inv_with (HandleTable :: 'o handle_table) (x # fs)" "Some v \<notin> set (objects (HandleTable :: 'o handle_table))"
proof -
  have "0 < MAX_COUNT" by (simp add: MAX_COUNT_def)
  then have "map of_nat [0..<MAX_COUNT] = (of_nat 0 :: u16) # map of_nat [Suc 0..<MAX_COUNT]" by (simp only: upt_conv_Cons list.map)
  then show "\<exists>x fs. ht_inv_with (HandleTable :: 'o handle_table) (x # fs)" using HandleTable_inv by metis
  show "Some v \<notin> set (objects (HandleTable :: 'o handle_table))" by (simp add: HandleTable_def Clear_def)
qed

lemma kernel_of_can_create: "memory_used p < 2 ^ 32 \<Longrightarrow> can_create {1} 5 Application (limited p) (kernel_of p)"
  using fresh_table(1) [where 'o = mem_object] fresh_table(2) [of "MO_SharedMemory 5"] fresh_limits_inv
  by (simp add: can_create_def kernel_of_def proc_view_def limited_def referenced_def)

theorem CreateMemoryBlock_CloseHandle_witness:
  "\<exists>k1 h k2. CreateMemoryBlock list_icl 5 0 0x2000 3 MP_DontCare (kernel_of sample_process) = Ok k1 h \<and>
     mem_CloseHandle list_icl {1} h k1 = Ok k2 () \<and> mk_limits k2 = mk_limits (kernel_of sample_process)"
proof -
  have r: "block_region 0 (kernel_of sample_process) = BASE" "mk_regions (kernel_of sample_process) BASE = full_region 0x6C00000 0x1400000"
    by (simp_all add: block_region_def kernel_of_def sample_process_def)
  have "region_ok list_icl (full_region 0x6C00000 0x1400000)" by (rule full_region_ok) (simp_all add: CITRA_PAGE_SIZE_def FCRAM_N3DS_SIZE_def)
  then show ?thesis
    using CreateMemoryBlock_CloseHandle [OF list_icl.interval_set_axioms kernel_of_can_create, of sample_process "0x2000" "0x6C00000" 3 MP_DontCare] r
    by (auto simp: sample_process_def full_region_free CITRA_PAGE_SIZE_def VerifyPermissions_def)
qed

theorem refused_block_underflows_witness:
  "\<exists>k1. CreateMemoryBlock list_icl 5 0x8000000 0x1000 3 3 (kernel_of sample_process) = Err k1 ResultInvalidAddressState \<and>
     map_option memory_used (proc_view 1 k1) = Some 0xFFFFF000"
proof -
  have vm: "vm_ok {big_fcram} (limited sample_process)" using sample_process_inv by (simp add: vm_ok_def limited_def proc_inv_def fcram_in_def)
  have "contents (pr_vm sample_process) 0x8000000 = Some (VMAFree, PermNone, StFree, 0)"
    using free_contents [of "{big_fcram}" "cached_pages (pr_mem sample_process)" "pr_vm sample_process" "0x8000000" "0x1000" "0x8000000"]
      sample_process_inv sample_process_unused [of "0x8000000" "0x1000"] by (simp add: proc_inv_def MAX_ADDRESS_def)
  then have no: "\<not> shareable (pr_vm (limited sample_process)) 0x8000000 0x1000"
    by (auto simp: shareable_def limited_def no_free_in_def type_at_def intro!: exI [of _ "0x8000000"])
  have m: "memory_used sample_process < 2 ^ 32" "memory_used (limited sample_process) = 0" "mk_current (kernel_of sample_process) = 1"
    by (simp_all add: sample_process_def limited_def kernel_of_def)
  have "(3 :: u32) \<in> {0, 1, 2, 3, MP_DontCare}" by simp
  then show ?thesis
    using refused_block_underflows [OF list_icl.interval_set_axioms kernel_of_can_create [OF m(1)] vm, of "0x1000" "0x8000000" 3 3] no m(2,3)
    by (auto simp: CITRA_PAGE_SIZE_def VerifyPermissions_def PROCESS_IMAGE_VADDR_def SHARED_MEMORY_VADDR_END_def sub32_def)
qed

theorem CreateMemoryBlock_locks_witness:
  "\<exists>p k1 h k2. CreateMemoryBlock list_icl 5 0x8000000 0x1000 1 3 (kernel_of p) = Ok k1 h \<and> mem_CloseHandle list_icl {1} h k1 = Ok k2 ()"
proof -
  obtain p A where h: "proc_inv list_icl {big_fcram} APPLICATION p" "memory_used p = memory_used sample_process + 0x1000"
    "\<forall>n < 0x1000. contents (pr_vm p) (0x8000000 + n) =
      Some (BackingMemory, PermReadWrite, StPrivate, bm_ptr (fcram_mem (pr_mem sample_process)) + sorted_list_of_set A ! n)"
    using list_icl.HeapAllocate_found [OF sample_process_inv, of "0x8000000" "0x1000" True PermReadWrite StPrivate]
      sample_process_unused [of "0x8000000" "0x1000"] sample_process_free
    by (simp add: CITRA_PAGE_SIZE_def MAX_ADDRESS_def) blast
  have vm: "vm_ok {big_fcram} (limited p)" using h(1) by (simp add: vm_ok_def limited_def proc_inv_def fcram_in_def)
  have c: "contents (pr_vm p) a = Some (BackingMemory, PermReadWrite, StPrivate, bm_ptr (fcram_mem (pr_mem sample_process)) + sorted_list_of_set A ! (a - 0x8000000))"
    if "0x8000000 \<le> a" "a < 0x8001000" for a using h(3) [rule_format, of "a - 0x8000000"] that by simp
  have sh: "shareable (pr_vm (limited p)) 0x8000000 0x1000"
    unfolding shareable_def limited_def no_free_in_def type_at_def by (simp add: c)
  have m: "memory_used p < 2 ^ 32" using h(2) by (simp add: sample_process_def)
  have c: "(0 :: nat) < 0x1000" "CITRA_PAGE_SIZE dvd 0x1000" "CITRA_PAGE_SIZE dvd 0x8000000" "PROCESS_IMAGE_VADDR \<le> 0x8000000"
    "0x8000000 + 0x1000 \<le> SHARED_MEMORY_VADDR_END" "VerifyPermissions 1" "VerifyPermissions 3"
    by (simp_all add: CITRA_PAGE_SIZE_def VerifyPermissions_def PROCESS_IMAGE_VADDR_def SHARED_MEMORY_VADDR_END_def)
  show ?thesis using CreateMemoryBlock_locks [OF list_icl.interval_set_axioms kernel_of_can_create [OF m] vm c sh] by blast
qed


text \<open>A block of one page in FCRAM.\<close>

definition page_block :: "(nat \<times> nat) list shared_memory" where
  "page_block = (new_block list_icl None 0x1000 3 3 BASE)
     \<lparr>backing_blocks := [(\<lparr>mr_backing = Some big_fcram, mr_offset = 0x6C00000\<rparr>, 0x1000)], linear_heap_phys_offset := 0x6C00000\<rparr>"

lemma page_block_ok: "block_ok {big_fcram} page_block" "distinct (expand (backing_blocks page_block))" "sm_size page_block = 0x1000"
  by (simp_all add: block_ok_def page_block_def new_block_def good_block_def ref_covers_def big_fcram_def expand_def CITRA_PAGE_SIZE_def
      FCRAM_N3DS_SIZE_def distinct_map inj_on_def)

lemma sample_vm_ok: "vm_ok {big_fcram} sample_process"
  using sample_process_inv by (simp add: vm_ok_def proc_inv_def fcram_in_def)

lemma page_block_may_map: "HEAP_VADDR \<le> a \<Longrightarrow> a + 0x1000 < SHARED_MEMORY_VADDR_END \<Longrightarrow> may_map pid a 3 MP_DontCare page_block"
  by (simp add: may_map_def page_block_def new_block_def)

lemma sample_free: "a + 0x1000 < SHARED_MEMORY_VADDR_END \<Longrightarrow> a \<noteq> 0 \<Longrightarrow> free_range (pr_vm sample_process) (map_target a page_block) 0x1000"
  using sample_process_unused [of a "0x1000"] by (simp add: map_target_def SHARED_MEMORY_VADDR_END_def MAX_ADDRESS_def)


theorem shared_block_is_shared_witness:
  "\<exists>p' q' ms'. SharedMemory_Map 1 0x10000000 3 MP_DontCare page_block sample_process = Ok p' () \<and>
     SharedMemory_Map 2 0x11000000 3 MP_DontCare page_block sample_process = Ok q' () \<and>
     WriteBlock (\<lambda>_ _ _ h. h) (vm_page_table (pr_vm p')) 0x10000010 [1, 2] (pr_mem sample_process) = Ok ms' () \<and>
     ReadBlock (\<lambda>_ _ _ h. h) (vm_page_table (pr_vm q')) 0x11000010 2 ms' = Ok ms' [1, 2]"
proof -
  have ex: "\<exists>p'. SharedMemory_Map pid a 3 MP_DontCare page_block sample_process = Ok p' ()" if a: "a \<in> {0x10000000, 0x11000000}" for pid a
  proof -
    have ok: "may_map pid a 3 MP_DontCare page_block \<and> free_range (pr_vm sample_process) (map_target a page_block) (sm_size page_block)"
      using a page_block_may_map [of a pid] sample_free [of a] unfolding page_block_ok(3) HEAP_VADDR_def SHARED_MEMORY_VADDR_END_def
      by (elim insertE emptyE) simp_all
    have "a = 0x10000000 \<or> a = 0x11000000" using a by simp
    then have "CITRA_PAGE_SIZE dvd a" "a + sm_size page_block < 2 ^ 32" by (elim disjE; simp add: page_block_ok(3) CITRA_PAGE_SIZE_def)+
    from SharedMemory_Map_effect [OF sample_vm_ok page_block_ok(1) this, of pid 3 MP_DontCare] show ?thesis unfolding if_P [OF ok] by blast
  qed
  obtain p' q' where m: "SharedMemory_Map 1 0x10000000 3 MP_DontCare page_block sample_process = Ok p' ()"
    "SharedMemory_Map 2 0x11000000 3 MP_DontCare page_block sample_process = Ok q' ()"
    using ex [OF insertI1, of 1] ex [OF insertI2 [OF insertI1], of 2] by blast
  have c: "CITRA_PAGE_SIZE dvd 0x10000000" "(0x10000000 :: nat) \<noteq> 0" "0x10000000 + sm_size page_block < 2 ^ 32"
    "CITRA_PAGE_SIZE dvd 0x11000000" "(0x11000000 :: nat) \<noteq> 0" "0x11000000 + sm_size page_block < 2 ^ 32" "0x10 + length [1 :: u8, 2] \<le> sm_size page_block"
    by (simp_all add: page_block_ok(3) CITRA_PAGE_SIZE_def)
  show ?thesis
    using shared_block_is_shared [OF sample_vm_ok sample_vm_ok page_block_ok(1,2) c(1-6) m c(7), where gpu = "\<lambda>_ _ _ h. h" and ms = "pr_mem sample_process"] m
    by (simp add: numeral_2_eq_2)
qed

text \<open>
  Property: the bounds check of \<^verbatim>\<open>SharedMemory::Map\<close> adds size and address modulo \<open>2\<^sup>3\<^sup>2\<close>. An address so high that the sum wraps around passes it,
  and the search for the area at that address returns the end iterator, which the code dereferences.
\<close>

theorem MapMemoryBlock_wraps:
  assumes "Get_SharedMemory handle k = Some n" "sm = mk_blocks k n" "mk_procs k (mk_current k) = Some p"
    "base_address sm = 0" "sm_permissions sm = 3" "sm_other_permissions sm = 3" "2 ^ 32 \<le> addr + sm_size sm" "addr < 2 ^ 32" "sm_size sm < SHARED_MEMORY_VADDR_END"
  shows "MapMemoryBlock handle addr 3 MP_DontCare k = Crash"
proof -
  have a: "addr \<noteq> 0" "HEAP_VADDR \<le> addr" "MAX_ADDRESS \<le> addr" using assms(7,9) by (simp_all add: SHARED_MEMORY_VADDR_END_def HEAP_VADDR_def MAX_ADDRESS_def)
  have "add32 addr (sm_size sm) < SHARED_MEMORY_VADDR_END" using assms(7-9) by (auto simp: add32_def mod_if SHARED_MEMORY_VADDR_END_def)
  then have "SharedMemory_Map (mk_current k) addr 3 MP_DontCare sm q = Crash" for q
    using a assms(4-6) by (simp add: SharedMemory_Map_def orCrash_def check_unused_def FindVMA_def Let_def MP_DontCare_def)
  then show ?thesis using assms(1-3) by (simp add: MapMemoryBlock_def on_process_def proc_view_def orCrash_def)
qed

theorem MapMemoryBlock_wraps_witness:
  "\<exists>k :: (nat \<times> nat) list mem_kernel. Get_SharedMemory 1 k = Some 5 \<and> MapMemoryBlock 1 0xFFFFF000 3 MP_DontCare k = Crash"
proof -
  obtain x fs where t: "ht_inv_with (HandleTable :: mem_object handle_table) (x # fs)" using fresh_table(1) by blast
  let ?t = "created HandleTable (MO_SharedMemory 5)"
  have x: "x = 0" "next_generation (HandleTable :: mem_object handle_table) = 1" using t by (simp_all add: ht_inv_with_def HandleTable_def Clear_def)
  have "make_handle 0 1 = 1" by (simp add: make_handle_def)
  then have l: "lookup ?t 1 = Some (MO_SharedMemory 5)" using created_lookup [OF t, of "MO_SharedMemory 5" 1] x by (simp add: same_entry_def)
  let ?k = "(kernel_of sample_process)\<lparr>mk_handles := (\<lambda>_. ?t), mk_blocks := (\<lambda>_. page_block)\<rparr>"
  have g: "Get_SharedMemory 1 ?k = Some 5" using l by (simp add: Get_SharedMemory_def kernel_of_def GetGeneric_lookup CurrentThread_def CurrentProcess_def)
  have "MapMemoryBlock 1 0xFFFFF000 3 MP_DontCare ?k = Crash"
    by (rule MapMemoryBlock_wraps [OF g refl, of sample_process])
      (simp_all add: kernel_of_def page_block_def new_block_def SHARED_MEMORY_VADDR_END_def)
  then show ?thesis using g by blast
qed

text \<open>
  Property: \<^verbatim>\<open>ControlMemory\<close> that commits heap memory with permissions of reading and writing, followed by one that frees it, both succeed, return the address
  and leave the process with the memory it had.
\<close>

theorem ControlMemory_commit_free:
  assumes "interval_set I" "proc_inv I H k p" "CITRA_PAGE_SIZE dvd target" "CITRA_PAGE_SIZE dvd sz" "0 < sz"
    "HEAP_VADDR \<le> target" "target + sz \<le> HEAP_VADDR_END" "free_range (pr_vm p) target sz" "sz \<le> card (free_points I (regions p k))"
    "permissions \<in> {0, 1, 2, 3}"
  shows "\<exists>p1 p2. ControlMemory I target 0 sz 3 permissions p = Ok p1 (Some target) \<and> ControlMemory I target 0 sz 1 0 p1 = Ok p2 (Some target) \<and>
    proc_inv I H k p2 \<and> free_points I (regions p2 k) = free_points I (regions p k) \<and> memory_used p2 = memory_used p \<and> committed p2 = committed p"
proof -
  obtain p1 p2 where a: "HeapAllocate I target sz (ucast permissions) StPrivate False p = Ok p1 target" "HeapFree I target sz p1 = Ok p2 ()"
    "proc_inv I H k p2" "free_points I (regions p2 k) = free_points I (regions p k)" "memory_used p2 = memory_used p" "committed p2 = committed p"
    using interval_set.allocate_then_free [OF assms(1-9)] by blast
  have al: "target mod CITRA_PAGE_SIZE = 0" "sz mod CITRA_PAGE_SIZE = 0" using assms(3,4) by (simp_all add: dvd_eq_mod_eq_0)
  have "target < HEAP_VADDR_END" using assms(5,7) by simp
  then have "ControlMemory I target 0 sz 1 0 p1 = Ok p2 (Some target)" using a(2) al assms(6) by (simp add: ControlMemory_def ControlMemory_free_def stores_def Let_def)
  moreover have "ControlMemory I target 0 sz 3 permissions p = Ok p1 (Some target)"
    using a(1) al assms(10) by (auto simp: ControlMemory_def stores_def Let_def MP_ReadWrite_def)
  ultimately show ?thesis using a(3-6) by blast
qed

end
