(* ===== verification/Ports_Sessions.thy ===== *)
theory Ports_Sessions
  imports Kernel_SVC IPC_Descriptors
begin

text \<open>
  Ports and sessions (\<^verbatim>\<open>client_port.cpp\<close>, \<^verbatim>\<open>server_port.cpp\<close>, \<^verbatim>\<open>client_session.cpp\<close>, \<^verbatim>\<open>server_session.cpp\<close> of \<^verbatim>\<open>src/core/hle/kernel\<close>), with the
  connection of the services of the host (\<^verbatim>\<open>SessionRequestHandler\<close> of \<^verbatim>\<open>hle_ipc.cpp\<close>) and the system calls on them. A session has the number of its server
  endpoint, which is a wait object; a client endpoint is the object \<open>KO_ClientSession\<close> of a handle table. A client thread that sends a request sleeps
  with the status \<^verbatim>\<open>WaitIPC\<close> until a server thread answers it. The command buffers lie in the memory of the processes, which is no part of
  the kernel of this theory: a copy between two threads is recorded in \<open>ipc_translations\<close> (the copy itself is the subject of \<open>IPC_Translate\<close>), and
  the runs in which it fails, which end in a failed assertion, are left out. What a service of the host does with a request is an argument.
\<close>

section \<open>Definitions\<close>

definition ResultNoPendingSessions :: u32 where
  "ResultNoPendingSessions = MakeResultRaw 35 EM_OS ES_WouldBlock EL_Permanent"

definition upd_port :: "nat \<Rightarrow> (client_port \<Rightarrow> client_port) \<Rightarrow> kernel \<Rightarrow> kernel" where
  "upd_port cp f k = k\<lparr>client_ports := (client_ports k)(cp := f (client_ports k cp))\<rparr>"

definition set_pending :: "nat \<Rightarrow> nat list \<Rightarrow> kernel \<Rightarrow> kernel" where
  "set_pending sp ss k = k\<lparr>pending_sessions := (pending_sessions k)(sp := ss)\<rparr>"

subsection \<open>Services of the host\<close>

definition ClientConnected :: "nat \<Rightarrow> nat \<Rightarrow> kernel \<Rightarrow> kernel" where
  "ClientConnected h s k =
     (upd_session s (\<lambda>x. x\<lparr>hle_handler := Some h\<rparr>) k)
       \<lparr>connected_sessions := (connected_sessions k)(h := connected_sessions k h @ [s])\<rparr>"

definition ClientDisconnected :: "nat \<Rightarrow> nat \<Rightarrow> kernel \<Rightarrow> kernel" where
  "ClientDisconnected h s k =
     (upd_session s (\<lambda>x. x\<lparr>hle_handler := None\<rparr>) k)
       \<lparr>connected_sessions := (connected_sessions k)(h := filter (\<lambda>x. x \<noteq> s) (connected_sessions k h))\<rparr>"

subsection \<open>Creation\<close>

definition CreatePortPair :: "nat \<Rightarrow> nat \<Rightarrow> nat \<Rightarrow> kernel \<Rightarrow> kernel" where
  "CreatePortPair sp cp max_sess k =
     k\<lparr>kind := (kind k)(sp := KServerPort), waiting_threads := (waiting_threads k)(sp := []),
       pending_sessions := (pending_sessions k)(sp := []), port_handler := (port_handler k)(sp := None),
       client_ports := (client_ports k)(cp := \<lparr>cp_server_port = sp, max_sessions = max_sess, active_sessions = 0\<rparr>)\<rparr>"

text \<open>\<^verbatim>\<open>ServerPort::SetHleHandler\<close> and \<^verbatim>\<open>KernelSystem::AddNamedPort\<close>; \<^verbatim>\<open>emplace\<close> keeps an entry that exists.\<close>

definition SetHleHandler :: "nat \<Rightarrow> nat option \<Rightarrow> kernel \<Rightarrow> kernel" where
  "SetHleHandler sp h k = k\<lparr>port_handler := (port_handler k)(sp := h)\<rparr>"

definition AddNamedPort :: "string \<Rightarrow> nat \<Rightarrow> kernel \<Rightarrow> kernel" where
  "AddNamedPort name cp k =
     (if named_ports k name = None then k\<lparr>named_ports := (named_ports k)(name := Some cp)\<rparr> else k)"

definition CreateSessionPair :: "nat \<Rightarrow> nat option \<Rightarrow> kernel \<Rightarrow> kernel" where
  "CreateSessionPair s port k =
     k\<lparr>kind := (kind k)(s := KServerSession), waiting_threads := (waiting_threads k)(s := []),
       ksessions := (ksessions k)(s := \<lparr>ses_client = True, ses_server = True, ses_port = port, hle_handler = None,
         pending_requesting_threads = [], currently_handling = None\<rparr>)\<rparr>"

subsection \<open>Ports\<close>

text \<open>\<^verbatim>\<open>ClientPort::Connect\<close>; \<open>s\<close> is the number of the new session.\<close>

definition Connect :: "nat \<Rightarrow> nat \<Rightarrow> kernel \<Rightarrow> (u32 \<times> nat option \<times> kernel) option" where
  "Connect s cp k =
     (if \<not> active_sessions (client_ports k cp) < max_sessions (client_ports k cp) then Some (ResultMaxConnectionsReached, None, k)
      else let k1 = CreateSessionPair s (Some cp) (upd_port cp (\<lambda>x. x\<lparr>active_sessions := active_sessions x + 1\<rparr>) k);
               sp = cp_server_port (client_ports k cp);
               k2 = (case port_handler k1 sp of
                       Some h \<Rightarrow> ClientConnected h s k1
                     | None \<Rightarrow> set_pending sp (pending_sessions k1 sp @ [s]) k1)
           in do { k3 \<leftarrow> WakeupAllWaitingThreads sp k2; Some (ResultSuccess, Some s, k3) })"

definition ConnectionClosed :: "nat \<Rightarrow> kernel \<Rightarrow> kernel option" where
  "ConnectionClosed cp k =
     (if active_sessions (client_ports k cp) > 0
      then Some (upd_port cp (\<lambda>x. x\<lparr>active_sessions := active_sessions x - 1\<rparr>) k) else None)"

definition Accept :: "nat \<Rightarrow> kernel \<Rightarrow> u32 \<times> nat option \<times> kernel" where
  "Accept sp k =
     (if pending_sessions k sp = [] then (ResultNoPendingSessions, None, k)
      else (ResultSuccess, Some (last (pending_sessions k sp)), set_pending sp (butlast (pending_sessions k sp)) k))"

subsection \<open>Sessions\<close>

definition IPCDelayNanoseconds :: int where "IPCDelayNanoseconds = 39000"

text \<open>
  \<^verbatim>\<open>ServerSession::HandleSyncRequest\<close>. \<open>request h s t k\<close>: what the method \<^verbatim>\<open>HandleSyncRequest\<close> of the service \<open>h\<close> does to the kernel.
\<close>

definition HandleSyncRequest ::
  "(nat \<Rightarrow> nat \<Rightarrow> nat \<Rightarrow> kernel \<Rightarrow> kernel option) \<Rightarrow> nat \<Rightarrow> nat \<Rightarrow> kernel \<Rightarrow> (u32 \<times> kernel) option" where
  "HandleSyncRequest request s t k =
     do { k1 \<leftarrow> (case hle_handler (ksessions k s) of
                  None \<Rightarrow> Some k
                | Some h \<Rightarrow>
                    if owner_process (threads k t) = None then None
                    else do { k' \<leftarrow> request h s t k;
                              if status (threads k' t) \<in> {Running, WaitHleEvent} then Some k' else None });
          k2 \<leftarrow> (if status (threads k1 t) = Running
                then let k' = upd_thread t (\<lambda>x. x\<lparr>status := WaitIPC\<rparr>) k1 in
                     if hle_handler (ksessions k1 s) \<noteq> None then WakeAfterDelay IPCDelayNanoseconds False t k'
                     else Some (upd_session s (\<lambda>x. x\<lparr>pending_requesting_threads := pending_requesting_threads x @ [t]\<rparr>) k')
                else Some k1);
          k3 \<leftarrow> WakeupAllWaitingThreads s k2;
          Some (ResultSuccess, k3) }"

definition SendSyncRequest ::
  "(nat \<Rightarrow> nat \<Rightarrow> nat \<Rightarrow> kernel \<Rightarrow> kernel option) \<Rightarrow> nat \<Rightarrow> nat \<Rightarrow> kernel \<Rightarrow> (u32 \<times> kernel) option" where
  "SendSyncRequest request s t k =
     (if \<not> ses_server (ksessions k s) then Some (ResultSessionClosed, k) else HandleSyncRequest request s t k)"

text \<open>The destructors.\<close>

definition ServerSession_destroy :: "nat \<Rightarrow> kernel \<Rightarrow> kernel option" where
  "ServerSession_destroy s k =
     do { k1 \<leftarrow> (case ses_port (ksessions k s) of Some cp \<Rightarrow> ConnectionClosed cp k | None \<Rightarrow> Some k);
          Some (upd_session s (\<lambda>x. x\<lparr>ses_server := False\<rparr>) k1) }"

definition ClientSession_destroy :: "nat \<Rightarrow> kernel \<Rightarrow> kernel option" where
  "ClientSession_destroy s k =
     (let server = ses_server (ksessions k s);
          k1 = (if server
                then upd_session s (\<lambda>x. x\<lparr>pending_requesting_threads := [], currently_handling := None\<rparr>)
                       (case hle_handler (ksessions k s) of Some h \<Rightarrow> ClientDisconnected h s k | None \<Rightarrow> k)
                else k);
          k2 = upd_session s (\<lambda>x. x\<lparr>ses_client := False\<rparr>) k1
      in if server then WakeupAllWaitingThreads s k2 else Some k2)"

subsection \<open>System calls\<close>

text \<open>
  The last reference to an object is dropped. A server session is referenced by the handle tables, by the threads that wait for it, by the port at
  which it is pending and by the service that handles it; \<open>elsewhere\<close> tells of the references outside this state, those of other processes among them.
  The client destructor keeps the server endpoint alive until it is through. \<open>destroy\<close>: what the destructors of the other types of objects do.
\<close>

definition ServerSession_referenced :: "(kobject \<Rightarrow> bool) \<Rightarrow> nat \<Rightarrow> svc \<Rightarrow> bool" where
  "ServerSession_referenced elsewhere ss s \<longleftrightarrow>
     (let k = svc_kernel s in
      elsewhere (KO_Wait ss) \<or> Some (KO_Wait ss) \<in> set (objects (svc_handles s)) \<or> waiting_threads k ss \<noteq> [] \<or>
      (case ses_port (ksessions k ss) of
         Some cp \<Rightarrow> ss \<in> set (pending_sessions k (cp_server_port (client_ports k cp))) | None \<Rightarrow> False) \<or>
      (case hle_handler (ksessions k ss) of Some h \<Rightarrow> ss \<in> set (connected_sessions k h) | None \<Rightarrow> False))"

definition drop_server :: "(kobject \<Rightarrow> bool) \<Rightarrow> nat \<Rightarrow> svc \<Rightarrow> svc option" where
  "drop_server elsewhere ss s =
     (if \<not> ses_server (ksessions (svc_kernel s) ss) \<or> ServerSession_referenced elsewhere ss s then Some s
      else do { k \<leftarrow> ServerSession_destroy ss (svc_kernel s); Some (on_kernel k s) })"

definition drop_client :: "(kobject \<Rightarrow> bool) \<Rightarrow> nat \<Rightarrow> svc \<Rightarrow> svc option" where
  "drop_client elsewhere ss s =
     (if elsewhere (KO_ClientSession ss) \<or> Some (KO_ClientSession ss) \<in> set (objects (svc_handles s)) then Some s
      else do { k \<leftarrow> ClientSession_destroy ss (svc_kernel s); drop_server elsewhere ss (on_kernel k s) })"

definition drop_object :: "(kobject \<Rightarrow> bool) \<Rightarrow> (kobject \<Rightarrow> svc \<Rightarrow> svc option) \<Rightarrow> kobject \<Rightarrow> svc \<Rightarrow> svc option" where
  "drop_object elsewhere destroy ob s =
     (case ob of
        KO_ClientSession ss \<Rightarrow> drop_client elsewhere ss s
      | KO_Wait w \<Rightarrow> if kind (svc_kernel s) w = KServerSession then drop_server elsewhere w s else destroy ob s
      | _ \<Rightarrow> destroy ob s)"

definition svc_CloseHandle ::
  "(kobject \<Rightarrow> bool) \<Rightarrow> (kobject \<Rightarrow> svc \<Rightarrow> svc option) \<Rightarrow> u32 \<Rightarrow> svc \<Rightarrow> unit svc_result" where
  "svc_CloseHandle elsewhere destroy handle s =
     (case Close (svc_handles s) handle of
        Ok table _ \<Rightarrow>
          do { ob \<leftarrow> objects (svc_handles s) ! unat (GetSlot handle);
               s1 \<leftarrow> drop_object elsewhere destroy ob (s\<lparr>svc_handles := table\<rparr>);
               Some (ResultSuccess, None, s1) }
      | Err table code \<Rightarrow> Some (code, None, s\<lparr>svc_handles := table\<rparr>)
      | Crash \<Rightarrow> None)"

text \<open>The end of \<^verbatim>\<open>ConnectToPort\<close> and of \<^verbatim>\<open>CreateSessionToPort\<close>. \<open>ss\<close> is the number of the new session.\<close>

definition connect_handle :: "(kobject \<Rightarrow> bool) \<Rightarrow> nat \<Rightarrow> nat \<Rightarrow> svc \<Rightarrow> u32 svc_result" where
  "connect_handle elsewhere ss cp s =
     do { (r, out, k) \<leftarrow> Connect ss cp (svc_kernel s);
          if IsError r then Some (r, None, on_kernel k s)
          else add_handle (KO_ClientSession ss) (drop_client elsewhere ss) (on_kernel k s) }"

text \<open>\<open>valid\<close>: whether the address of the name is mapped; \<open>port_name\<close>: what \<^verbatim>\<open>ReadCString\<close> returned for it, at most 12 characters.\<close>

definition PortNameMaxLength :: nat where "PortNameMaxLength = 11"

definition ConnectToPort :: "(kobject \<Rightarrow> bool) \<Rightarrow> bool \<Rightarrow> string \<Rightarrow> nat \<Rightarrow> svc \<Rightarrow> u32 svc_result" where
  "ConnectToPort elsewhere valid port_name ss s =
     (if \<not> valid then Some (ResultNotFound, None, s)
      else if \<not> length port_name \<le> PortNameMaxLength then Some (ResultPortNameTooLong, None, s)
      else case named_ports (svc_kernel s) port_name of
             None \<Rightarrow> Some (ResultNotFound, None, s)
           | Some cp \<Rightarrow> connect_handle elsewhere ss cp s)"

definition CreateSessionToPort :: "(kobject \<Rightarrow> bool) \<Rightarrow> nat \<Rightarrow> u32 \<Rightarrow> svc \<Rightarrow> u32 svc_result" where
  "CreateSessionToPort elsewhere ss client_port_handle s =
     (case svc_Get s client_port_handle of
        Some (KO_ClientPort cp) \<Rightarrow> connect_handle elsewhere ss cp s
      | _ \<Rightarrow> Some (ResultInvalidHandle, None, s))"

text \<open>The two results of \<^verbatim>\<open>CreatePort\<close> are the handles of the server and of the client port.\<close>

definition CreatePort :: "nat \<Rightarrow> nat \<Rightarrow> u32 \<Rightarrow> nat \<Rightarrow> svc \<Rightarrow> (u32 option \<times> u32 option) svc_result" where
  "CreatePort sp cp name_address max_sess s =
     (if name_address \<noteq> 0 then None
      else do { (r, client, s1) \<leftarrow> add_handle (KO_ClientPort cp) Some (on_kernel (CreatePortPair sp cp max_sess (svc_kernel s)) s);
                if IsError r then Some (r, Some (None, client), s1)
                else do { (r2, server, s2) \<leftarrow> add_handle (KO_Wait sp) Some s1; Some (r2, Some (server, client), s2) } })"

definition CreateSession :: "(kobject \<Rightarrow> bool) \<Rightarrow> nat \<Rightarrow> svc \<Rightarrow> (u32 option \<times> u32 option) svc_result" where
  "CreateSession elsewhere ss s =
     do { (r, server, s1) \<leftarrow> add_handle (KO_Wait ss) (drop_server elsewhere ss) (on_kernel (CreateSessionPair ss None (svc_kernel s)) s);
          if IsError r then do { s2 \<leftarrow> drop_client elsewhere ss s1; Some (r, Some (server, None), s2) }
          else do { (r2, client, s2) \<leftarrow> add_handle (KO_ClientSession ss) (drop_client elsewhere ss) s1; Some (r2, Some (server, client), s2) } }"

definition AcceptSession :: "(kobject \<Rightarrow> bool) \<Rightarrow> u32 \<Rightarrow> svc \<Rightarrow> u32 svc_result" where
  "AcceptSession elsewhere server_port_handle s =
     (case Get_kind KServerPort s server_port_handle of
        None \<Rightarrow> Some (ResultInvalidHandle, None, s)
      | Some sp \<Rightarrow>
          (case Accept sp (svc_kernel s) of
             (r, Some ss, k) \<Rightarrow> add_handle (KO_Wait ss) (drop_server elsewhere ss) (on_kernel k s)
           | (r, None, k) \<Rightarrow> Some (r, None, on_kernel k s)))"

definition svc_SendSyncRequest ::
  "(nat \<Rightarrow> nat \<Rightarrow> nat \<Rightarrow> kernel \<Rightarrow> kernel option) \<Rightarrow> u32 \<Rightarrow> svc \<Rightarrow> unit svc_result" where
  "svc_SendSyncRequest request handle s =
     (case svc_Get s handle of
        Some (KO_ClientSession ss) \<Rightarrow>
          do { (r, k) \<leftarrow> SendSyncRequest request ss (cur_thread s) (PrepareReschedule (svc_kernel s)); Some (r, None, on_kernel k s) }
      | _ \<Rightarrow> Some (ResultInvalidHandle, None, s))"

text \<open>
  \<^verbatim>\<open>svcReplyAndReceive\<close>. \<open>valid\<close> and \<open>read\<close> are as for \<open>WaitSynchronizationN\<close>; \<open>header\<close> is the first word of the command buffer of the thread. The
  reply and the wait for the next request are two definitions.
\<close>

definition receive :: "bool \<Rightarrow> nat list \<Rightarrow> nat \<Rightarrow> kernel \<Rightarrow> (u32 \<times> int \<times> kernel) option" where
  "receive replied objs t k =
     (if objs = [] then Some (if replied then ResultSuccess else 0xE7E3FFFF, 0, k)
      else case find_ready t k objs of
        Some i \<Rightarrow>
          do { k1 \<leftarrow> Acquire (objs ! i) t k;
               if kind k (objs ! i) \<noteq> KServerSession then Some (ResultSuccess, int i, k1)
               else do { (r, k2) \<leftarrow> ReceiveIPCRequest (objs ! i) t k1; Some (r, int i, k2) } }
      | None \<Rightarrow>
          let k1 = upd_thread t (\<lambda>x. x\<lparr>status := WaitSynchAny\<rparr>) k;
              k2 = fold (\<lambda>ob. AddWaitingThread ob t) objs k1;
              k3 = upd_thread t (\<lambda>x. x\<lparr>wait_objects := objs\<rparr>) k2;
              k4 = upd_thread t (\<lambda>x. x\<lparr>wakeup_callback := Some IpcCallback\<rparr>) k3
          in Some (ResultSuccess, - 1, PrepareReschedule k4))"

text \<open>The reply: \<open>None\<close> as the first component when there is nobody to reply to.\<close>

definition send_reply :: "nat \<Rightarrow> nat \<Rightarrow> kernel \<Rightarrow> (bool \<times> kernel) option" where
  "send_reply ss t k =
     (let request_thread = currently_handling (ksessions k ss);
          k1 = upd_session ss (\<lambda>x. x\<lparr>currently_handling := None\<rparr>) k
      in case request_thread of
           Some c \<Rightarrow>
             if ses_client (ksessions k1 ss)
             then do { k2 \<leftarrow> ResumeFromWait c (k1\<lparr>ipc_translations := ipc_translations k1 @ [(ss, t, c, True)]\<rparr>); Some (True, k2) }
             else Some (False, k1)
         | None \<Rightarrow> Some (False, k1))"

definition ReplyAndReceive :: "bool \<Rightarrow> (nat \<Rightarrow> u32) \<Rightarrow> int \<Rightarrow> u32 \<Rightarrow> u32 \<Rightarrow> svc \<Rightarrow> int svc_result" where
  "ReplyAndReceive valid read handle_count reply_target header s =
     (let t = cur_thread s; replying = (reply_target \<noteq> 0 \<and> header_command_id header \<noteq> 0xFFFF) in
      if \<not> valid then Some (ResultInvalidPointer, None, s)
      else if \<not> handle_count \<ge> 0 then Some (ResultOutOfRange, None, s)
      else case get_objects s (map read [0..<nat handle_count]) of
        None \<Rightarrow> Some (ResultInvalidHandle, None, s)
      | Some objs \<Rightarrow>
          if replying
          then (case Get_kind KServerSession s reply_target of
                  None \<Rightarrow> Some (ResultInvalidHandle, None, s)
                | Some ss \<Rightarrow>
                    do { (ok, k) \<leftarrow> send_reply ss t (svc_kernel s);
                         if \<not> ok then Some (ResultSessionClosed, Some (- 1), on_kernel k s)
                         else do { (r, i, k1) \<leftarrow> receive True objs t k; Some (r, Some i, on_kernel k1 s) } })
          else do { (r, i, k1) \<leftarrow> receive False objs t (svc_kernel s); Some (r, Some i, on_kernel k1 s) })"

section \<open>Invariants\<close>

text \<open>The threads whose requests a session has, pending or handled.\<close>

definition requests :: "session \<Rightarrow> nat list" where
  "requests x = pending_requesting_threads x @ (case currently_handling x of Some c \<Rightarrow> [c] | None \<Rightarrow> [])"

definition ipc_inv :: "kernel \<Rightarrow> bool" where
  "ipc_inv k \<longleftrightarrow>
     (\<forall>s. kind k s = KServerSession \<longrightarrow> distinct (requests (ksessions k s)) \<and>
        (\<not> ses_client (ksessions k s) \<and> ses_server (ksessions k s) \<longrightarrow> requests (ksessions k s) = []) \<and>
        (\<forall>c \<in> set (requests (ksessions k s)). registered k c \<and> status (threads k c) \<in> {WaitIPC, Dead} \<and> wait_objects (threads k c) = [])) \<and>
     (\<forall>s s'. kind k s = KServerSession \<longrightarrow> kind k s' = KServerSession \<longrightarrow> s \<noteq> s' \<longrightarrow>
        set (requests (ksessions k s)) \<inter> set (requests (ksessions k s')) = {})"

text \<open>The sessions that count for a client port, and the count of every port.\<close>

definition open_sessions :: "kernel \<Rightarrow> nat \<Rightarrow> nat set" where
  "open_sessions k cp = {s. kind k s = KServerSession \<and> ses_server (ksessions k s) \<and> ses_port (ksessions k s) = Some cp}"

definition port_inv :: "kernel \<Rightarrow> bool" where
  "port_inv k \<longleftrightarrow> (\<forall>cp. finite (open_sessions k cp) \<and> card (open_sessions k cp) = active_sessions (client_ports k cp) \<and>
     active_sessions (client_ports k cp) \<le> max_sessions (client_ports k cp))"

lemma kinvD: "kinv k \<Longrightarrow> sched_inv k" "kinv k \<Longrightarrow> wait_inv k" "kinv k \<Longrightarrow> mutex_inv k"
  by (simp_all add: kinv_def)

lemma requests_simps [simp]:
  "requests (x\<lparr>ses_client := b\<rparr>) = requests x" "requests (x\<lparr>ses_server := b\<rparr>) = requests x"
  "requests (x\<lparr>hle_handler := h\<rparr>) = requests x" "requests (x\<lparr>pending_requesting_threads := [], currently_handling := None\<rparr>) = []"
  by (simp_all add: requests_def)

lemma requests_popped:
  "ses_client x \<longrightarrow> pending_requesting_threads x \<noteq> [] \<and> currently_handling x = None \<Longrightarrow> requests (popped x) = requests x"
  by (simp add: requests_def popped_def)

lemma popped_simps [simp]:
  "ses_client (popped x) = ses_client x" "ses_server (popped x) = ses_server x" "ses_port (popped x) = ses_port x"
  "hle_handler (popped x) = hle_handler x"
  by (simp_all add: popped_def)

lemma ShouldWait_session:
  "kind k s = KServerSession \<Longrightarrow> ShouldWait s t k \<longleftrightarrow>
     ses_client (ksessions k s) \<and> (pending_requesting_threads (ksessions k s) = [] \<or> currently_handling (ksessions k s) \<noteq> None)"
  by (simp add: ShouldWait_def)

lemma ShouldWait_port: "kind k p = KServerPort \<Longrightarrow> ShouldWait p t k \<longleftrightarrow> pending_sessions k p = []"
  by (simp add: ShouldWait_def)

text \<open>What the waking of threads keeps of ports, sessions and the threads that wait for a reply.\<close>

definition ipc_kept :: "kernel \<Rightarrow> kernel \<Rightarrow> bool" where
  "ipc_kept k k' \<longleftrightarrow> kind k' = kind k \<and> pending_sessions k' = pending_sessions k \<and> client_ports k' = client_ports k \<and>
     (\<forall>s. ses_client (ksessions k' s) = ses_client (ksessions k s) \<and> ses_server (ksessions k' s) = ses_server (ksessions k s) \<and>
        ses_port (ksessions k' s) = ses_port (ksessions k s) \<and> hle_handler (ksessions k' s) = hle_handler (ksessions k s) \<and>
        requests (ksessions k' s) = requests (ksessions k s)) \<and>
     (\<forall>c. registered k' c = registered k c) \<and>
     (\<forall>c. status (threads k c) \<in> {WaitIPC, Dead} \<longrightarrow> status (threads k' c) = status (threads k c) \<and>
        wait_objects (threads k' c) = wait_objects (threads k c))"

lemma ipc_kept_refl [simp]: "ipc_kept k k"
  by (simp add: ipc_kept_def)

lemma ipc_kept_trans: "ipc_kept k k1 \<Longrightarrow> ipc_kept k1 k2 \<Longrightarrow> ipc_kept k k2"
  by (simp add: ipc_kept_def)

lemma ipc_kept_inv: "ipc_kept k k' \<Longrightarrow> ipc_inv k \<Longrightarrow> ipc_inv k'"
  unfolding ipc_inv_def by (fastforce simp: ipc_kept_def)

lemma ipc_kept_port_inv: "ipc_kept k k' \<Longrightarrow> port_inv k \<Longrightarrow> port_inv k'"
  unfolding port_inv_def open_sessions_def by (simp add: ipc_kept_def)

lemma can_wake_taken:
  assumes "can_wake ob k t" "s \<in> taken_for ob t k"
  shows "\<not> ShouldWait s t k"
  using assms by (auto simp: can_wake_def taken_for_def split: if_splits)

lemma woken_ipc_kept:
  assumes w: "woken ob t k k'" and inv: "wait_inv k" and t: "t \<in> set (waiting_threads k ob)" and can: "can_wake ob k t"
  shows "ipc_kept k k'"
proof -
  have st: "status (threads k t) \<notin> {WaitIPC, Dead}" using wait_invD(3) [OF inv t] by auto
  have ses: "ksessions k' s = (if s \<in> taken_for ob t k \<and> kind k s = KServerSession then popped (ksessions k s) else ksessions k s)" for s
    using w by (simp add: woken_def)
  have "requests (ksessions k' s) = requests (ksessions k s)" for s
  proof (cases "s \<in> taken_for ob t k \<and> kind k s = KServerSession")
    case True
    then have "\<not> ShouldWait s t k" using can_wake_taken [OF can] by simp
    then show ?thesis using True requests_popped [of "ksessions k s"] ShouldWait_session [of k s] by (auto simp: ses)
  qed (auto simp: ses)
  moreover have "status (threads k' c) = status (threads k c) \<and> wait_objects (threads k' c) = wait_objects (threads k c)"
    if "status (threads k c) \<in> {WaitIPC, Dead}" for c
    using w that st by (cases "c = t") (auto simp: woken_def)
  moreover have "registered k' c = registered k c" for c using w by (simp add: woken_def registered_def)
  ultimately show ?thesis using w by (simp add: ipc_kept_def woken_def)
qed

lemma woken_room:
  assumes "woken ob t k k'" "t \<in> set (waiting_threads k ob)"
    and "\<forall>m. lock_count (mutexes k m) + int (length (waiting_threads k ob)) < 2 ^ 31"
  shows "\<forall>m. lock_count (mutexes k' m) + int (length (waiting_threads k' ob)) < 2 ^ 31"
proof
  fix m
  have "length (removeAll t (waiting_threads k ob)) < length (waiting_threads k ob)" using assms(2) by (rule length_removeAll_less)
  moreover have "waiting_threads k' ob = removeAll t (waiting_threads k ob)" "lock_count (mutexes k' m) \<le> lock_count (mutexes k m) + 1"
    using assms(1) by (simp_all add: woken_def)
  ultimately show "lock_count (mutexes k' m) + int (length (waiting_threads k' ob)) < 2 ^ 31"
    using spec [OF assms(3), of m] by simp
qed

text \<open>One step of the loop that wakes the threads.\<close>

lemma wake_run_step:
  assumes "highest ob k t" "wake_one ob t k = Some k1" "kinv k"
    "\<forall>m. lock_count (mutexes k m) + int (length (waiting_threads k ob)) < 2 ^ 31"
  shows "t \<in> set (waiting_threads k ob)" "can_wake ob k t" "woken ob t k k1" "kinv k1" "ipc_kept k k1"
    "\<forall>m. lock_count (mutexes k1 m) + int (length (waiting_threads k1 ob)) < 2 ^ 31"
proof -
  show t: "t \<in> set (waiting_threads k ob)" "can_wake ob k t" using assms(1) by (auto simp: highest_def)
  then have "0 < length (waiting_threads k ob)" by auto
  then have "\<forall>m. lock_count (mutexes k m) + 1 < 2 ^ 31" using assms(4) by (smt (verit, best) of_nat_0_less_iff)
  from wake_one_spec [OF assms(3) t this] assms(2) show w: "woken ob t k k1" "kinv k1" by auto
  show "ipc_kept k k1" by (rule woken_ipc_kept [OF w(1) kinvD(2) [OF assms(3)] t])
  show "\<forall>m. lock_count (mutexes k1 m) + int (length (waiting_threads k1 ob)) < 2 ^ 31" by (rule woken_room [OF w(1) t(1) assms(4)])
qed

lemma wake_run_ipc_kept:
  assumes "wake_run ob k ts k'" "kinv k" "\<forall>m. lock_count (mutexes k m) + int (length (waiting_threads k ob)) < 2 ^ 31"
  shows "ipc_kept k k'"
  using assms
proof (induction rule: wake_run.induct)
  case (step k t k1 ts k2)
  note w = wake_run_step [OF step.hyps(1,2) step.prems]
  show ?case using ipc_kept_trans [OF w(5) step.IH [OF w(4,6)]] .
qed simp


text \<open>\<^verbatim>\<open>WakeupAllWaitingThreads\<close> of a server port or a server session.\<close>

lemma WakeupAll_run:
  assumes inv: "kinv k" "\<forall>m. lock_count (mutexes k m) + int (length (waiting_threads k ob)) < 2 ^ 31"
    and ob: "kind k ob = KServerPort \<or> kind k ob = KServerSession"
  obtains ts k1 where "wake_run ob k ts k1" "kinv k1" "ipc_kept k k1" "all_woken ts k k1"
    "WakeupAllWaitingThreads ob k = Some (if hle_notifier k1 ob then k1\<lparr>hle_notified := hle_notified k1 @ [ob]\<rparr> else k1)"
    "set ts \<subseteq> set (waiting_threads k ob)" "distinct ts" "\<forall>t \<in> set (waiting_threads k1 ob). \<not> can_wake ob k1 t"
proof -
  obtain ts k1 where r: "wakeup_loop ob k = Some k1" "wake_run ob k ts k1" "kinv k1" "all_woken ts k k1"
      "set ts \<subseteq> set (waiting_threads k ob)" "distinct ts" "\<forall>t \<in> set (waiting_threads k1 ob). \<not> can_wake ob k1 t"
    using wakeup_loop_spec [OF inv] by blast
  have "kind k1 ob = kind k ob" using r(4) by (simp add: all_woken_def)
  then have "WakeupAllWaitingThreads ob k = Some (if hle_notifier k1 ob then k1\<lparr>hle_notified := hle_notified k1 @ [ob]\<rparr> else k1)"
    using r(1) ob by (auto simp: WakeupAllWaitingThreads_def Let_def)
  then show thesis using that r wake_run_ipc_kept [OF r(2) inv] by blast
qed

lemma ipc_kept_notify [simp]: "ipc_kept k (k1\<lparr>hle_notified := x\<rparr>) = ipc_kept k k1"
  by (simp add: ipc_kept_def registered_def)

lemma kinv_notify [simp]: "kinv (k\<lparr>hle_notified := x\<rparr>) = kinv k"
  using kinv_cong [of k "k\<lparr>hle_notified := x\<rparr>"] kinv_cong [of "k\<lparr>hle_notified := x\<rparr>" k] by auto

lemma WakeupAll_ipc:
  assumes "kinv k" "\<forall>m. lock_count (mutexes k m) + int (length (waiting_threads k ob)) < 2 ^ 31"
    "kind k ob = KServerPort \<or> kind k ob = KServerSession"
  shows "\<exists>k'. WakeupAllWaitingThreads ob k = Some k' \<and> kinv k' \<and> ipc_kept k k'"
  by (rule WakeupAll_run [OF assms]) (auto split: if_splits)

text \<open>A session that has a request to hand out wakes one of the threads that can be woken, the best one, and no other.\<close>

lemma session_wakes_one:
  assumes inv: "kinv k" "\<forall>m. lock_count (mutexes k m) + int (length (waiting_threads k s)) < 2 ^ 31"
    and s: "kind k s = KServerSession" "ses_client (ksessions k s)"
    and run: "wake_run s k ts k'"
  shows "if \<exists>t \<in> set (waiting_threads k s). can_wake s k t then \<exists>t. ts = [t] \<and> highest s k t \<and> woken s t k k' else ts = [] \<and> k' = k"
  using run
proof cases
  case finish
  then show ?thesis by auto
next
  case (step t k1 ts')
  note w = wake_run_step [OF step(2,3) inv]
  have "s \<in> taken_for s t k" using wait_invD(5) [OF kinvD(2) [OF inv(1)], of s t] w(1) by (simp add: taken_for_def)
  then have ses: "ksessions k1 s = popped (ksessions k s)" "kind k1 s = KServerSession" using w(3) s by (simp_all add: woken_def)
  then have no: "\<not> can_wake s k1 u" for u using s(2) ShouldWait_session [OF ses(2)] by (simp add: can_wake_def popped_def)
  from step(4) have "ts' = [] \<and> k' = k1"
  proof cases
    case (step t' k1' ts'')
    then show ?thesis using no by (auto simp: highest_def)
  qed simp
  then show ?thesis using step w by auto
qed

text \<open>The invariant of the kernel does not depend on the data of ports and sessions.\<close>

lemma kinv_ipc_simps [simp]:
  "kinv k \<Longrightarrow> kinv (upd_session s f k)" "kinv k \<Longrightarrow> kinv (upd_port cp g k)" "kinv k \<Longrightarrow> kinv (set_pending sp ss k)"
  "kinv k \<Longrightarrow> kinv (PrepareReschedule k)" "kinv k \<Longrightarrow> kinv (k\<lparr>ipc_translations := tr\<rparr>)"
  "kinv k \<Longrightarrow> kinv (k\<lparr>connected_sessions := cs\<rparr>)"
  by (rule kinv_cong; simp add: upd_session_def upd_port_def set_pending_def PrepareReschedule_def)+

lemma upd_session_simps [simp]:
  "threads (upd_session s f k) = threads k" "kind (upd_session s f k) = kind k" "waiting_threads (upd_session s f k) = waiting_threads k"
  "mutexes (upd_session s f k) = mutexes k" "ksessions (upd_session s f k) = (ksessions k)(s := f (ksessions k s))"
  "pending_sessions (upd_session s f k) = pending_sessions k" "client_ports (upd_session s f k) = client_ports k"
  "ipc_translations (upd_session s f k) = ipc_translations k" "thread_list (upd_session s f k) = thread_list k"
  "hle_notifier (upd_session s f k) = hle_notifier k" "current_thread (upd_session s f k) = current_thread k"
  "ready_queue (upd_session s f k) = ready_queue k" "port_handler (upd_session s f k) = port_handler k"
  "connected_sessions (upd_session s f k) = connected_sessions k"
  by (simp_all add: upd_session_def)

text \<open>A change of one thread that waits for no object.\<close>

lemma wait_inv_idle:
  assumes inv: "wait_inv k" and fr: "waiting_threads k' = waiting_threads k" "thread_list k' = thread_list k"
      "\<And>u. u \<noteq> t \<Longrightarrow> threads k' u = threads k u" "core_id (threads k' t) = core_id (threads k t)"
    and t: "wait_objects (threads k t) = []" "wait_objects (threads k' t) = []"
  shows "wait_inv k'"
proof -
  note w = wait_invD [OF inv]
  have no: "t \<notin> set (waiting_threads k ob)" for ob using w(5) [of ob t] t(1) by simp
  have reg: "registered k' u = registered k u" for u using fr(2,4) fr(3) [of u] by (cases "u = t") (simp_all add: registered_def)
  show ?thesis
    unfolding wait_inv_def reg fr(1)
  proof (intro conjI allI ballI impI)
    fix ob u assume u: "u \<in> set (waiting_threads k ob)"
    then have "threads k' u = threads k u" using no fr(3) by metis
    then show "registered k u" "status (threads k' u) \<in> {WaitSynchAny, WaitSynchAll, WaitHleEvent}"
      "wakeup_callback (threads k' u) \<noteq> Some (ArbiterCallback a)"
      "wakeup_callback (threads k' u) = Some IpcCallback \<Longrightarrow> status (threads k' u) = WaitSynchAny" for a
      using w(2-4,7) [OF u] by simp_all
  next
    show "distinct (wait_objects (threads k' u))" if "status (threads k' u) = WaitSynchAll" for u
      using that w(6) [of u] t(2) fr(3) [of u] by (cases "u = t") simp_all
    show "ob \<in> set (wait_objects (threads k' u)) \<longleftrightarrow> u \<in> set (waiting_threads k ob)" for ob u
      using w(5) [of ob u] t(2) no fr(3) [of u] by (cases "u = t") simp_all
  qed (rule w(1))
qed

text \<open>A thread that waits for no object falls asleep.\<close>

lemma kinv_sleep:
  assumes inv: "kinv k" and t: "status (threads k t) \<noteq> Ready" "wait_objects (threads k t) = []" and s: "s \<noteq> Ready" "s \<noteq> Running"
  shows "kinv (upd_thread t (\<lambda>x. x\<lparr>status := s\<rparr>) k)"
proof -
  let ?k = "upd_thread t (\<lambda>x. x\<lparr>status := s\<rparr>) k"
  have "sched_inv ?k" by (rule sleep_inv [OF kinvD(1) [OF inv] t(1) s]) simp_all
  moreover have "wait_inv ?k" by (rule wait_inv_idle [OF kinvD(2) [OF inv], where t = t]) (simp_all add: t(2))
  moreover have "mutex_inv ?k" using kinvD(3) [OF inv] by (simp add: mutex_inv_def registered_def)
  ultimately show ?thesis by (simp add: kinv_def)
qed

section \<open>Requests\<close>

text \<open>The state in which \<^verbatim>\<open>HandleSyncRequest\<close> wakes the server.\<close>

definition requested :: "nat \<Rightarrow> nat \<Rightarrow> kernel \<Rightarrow> kernel" where
  "requested s t k =
     upd_session s (\<lambda>x. x\<lparr>pending_requesting_threads := pending_requesting_threads x @ [t]\<rparr>)
       (upd_thread t (\<lambda>x. x\<lparr>status := WaitIPC\<rparr>) k)"

lemma HandleSyncRequest_requested:
  "hle_handler (ksessions k s) = None \<Longrightarrow> status (threads k t) = Running \<Longrightarrow>
   HandleSyncRequest request s t k = do { k1 \<leftarrow> WakeupAllWaitingThreads s (requested s t k); Some (ResultSuccess, k1) }"
  by (simp add: HandleSyncRequest_def requested_def)

lemma requested_kinv:
  assumes "kinv k" "status (threads k t) = Running" "wait_objects (threads k t) = []"
  shows "kinv (requested s t k)"
  unfolding requested_def using assms by (intro kinv_ipc_simps kinv_sleep) simp_all

lemma ipc_invD:
  assumes "ipc_inv k" "kind k s = KServerSession"
  shows "distinct (requests (ksessions k s))" "\<not> ses_client (ksessions k s) \<Longrightarrow> ses_server (ksessions k s) \<Longrightarrow> requests (ksessions k s) = []"
    "c \<in> set (requests (ksessions k s)) \<Longrightarrow> registered k c \<and> status (threads k c) \<in> {WaitIPC, Dead} \<and> wait_objects (threads k c) = []"
    "kind k s' = KServerSession \<Longrightarrow> s \<noteq> s' \<Longrightarrow> set (requests (ksessions k s)) \<inter> set (requests (ksessions k s')) = {}"
  using assms by (simp_all add: ipc_inv_def)

lemma requested_ipc_inv:
  assumes inv: "ipc_inv k" and s: "kind k s = KServerSession" "ses_client (ksessions k s)"
    and t: "registered k t" "status (threads k t) = Running" "wait_objects (threads k t) = []"
  shows "ipc_inv (requested s t k)"
proof -
  let ?k = "requested s t k"
  have new: "t \<notin> set (requests (ksessions k x))" if "kind k x = KServerSession" for x
    using ipc_invD(3) [OF inv that, of t] t(2) by auto
  have mem: "set (requests (ksessions ?k x)) = (if x = s then insert t (set (requests (ksessions k s))) else set (requests (ksessions k x)))"
    "distinct (requests (ksessions ?k x)) \<longleftrightarrow> (if x = s then t \<notin> set (requests (ksessions k s)) \<and> distinct (requests (ksessions k s))
       else distinct (requests (ksessions k x)))" for x
    by (auto simp: requested_def requests_def split: option.splits)
  have fr: "kind ?k = kind k" "registered ?k c = registered k c" "ses_client (ksessions ?k x) = ses_client (ksessions k x)"
    "ses_server (ksessions ?k x) = ses_server (ksessions k x)"
    "status (threads ?k c) = (if c = t then WaitIPC else status (threads k c))" "wait_objects (threads ?k c) = wait_objects (threads k c)" for c x
    by (simp_all add: requested_def registered_def)
  show ?thesis
    unfolding ipc_inv_def fr
  proof (intro conjI allI impI ballI)
    fix x assume x: "kind k x = KServerSession"
    note I = ipc_invD [OF inv x]
    show "distinct (requests (ksessions ?k x))" using I(1) new [OF s(1)] by (auto simp: mem)
    show "requests (ksessions ?k x) = []" if "\<not> ses_client (ksessions k x) \<and> ses_server (ksessions k x)"
      using that s(2) I(2) by (cases "x = s") (auto simp: requested_def)
    show "registered k c" "(if c = t then WaitIPC else status (threads k c)) \<in> {WaitIPC, Dead}" "wait_objects (threads k c) = []"
      if "c \<in> set (requests (ksessions ?k x))" for c
      using that I(3) [of c] t by (auto simp: mem split: if_splits)
    show "set (requests (ksessions ?k x)) \<inter> set (requests (ksessions ?k y)) = {}" if "kind k y = KServerSession" "x \<noteq> y" for y
      using I(4) [OF that] new [OF x] new [OF that(1)] that(2) by (auto simp: mem)
  qed
qed

lemma requested_port_inv [simp]: "port_inv (requested s t k) \<longleftrightarrow> port_inv k"
proof -
  have "open_sessions (requested s t k) = open_sessions k" by (auto simp: fun_eq_iff open_sessions_def requested_def)
  then show ?thesis by (simp add: port_inv_def) (simp add: requested_def)
qed

text \<open>The first of the threads with the best priority that wait for an object.\<close>

definition best_waiter :: "nat \<Rightarrow> kernel \<Rightarrow> nat \<Rightarrow> bool" where
  "best_waiter ob k t \<longleftrightarrow> (\<exists>xs ys. waiting_threads k ob = xs @ t # ys \<and>
     (\<forall>u \<in> set xs. current_priority (threads k t) < current_priority (threads k u)) \<and>
     (\<forall>u \<in> set ys. current_priority (threads k t) \<le> current_priority (threads k u)))"

lemma highest_best_waiter:
  assumes "highest ob k t" "\<forall>u \<in> set (waiting_threads k ob). can_wake ob k u"
  shows "best_waiter ob k t"
proof -
  obtain xs ys where "waiting_threads k ob = xs @ t # ys"
     "\<forall>u \<in> set xs. can_wake ob k u \<longrightarrow> current_priority (threads k t) < current_priority (threads k u)"
     "\<forall>u \<in> set ys. can_wake ob k u \<longrightarrow> current_priority (threads k t) \<le> current_priority (threads k u)"
    using assms(1) by (auto simp: highest_def)
  then show ?thesis using assms(2) unfolding best_waiter_def by (intro exI [of _ xs] exI [of _ ys]) auto
qed

text \<open>
  What the arrival of a request does when all threads that wait for the session are in \<^verbatim>\<open>svcReplyAndReceive\<close>: it is handed to the best of them, or
  it is pending.
\<close>

definition request_outcome :: "nat \<Rightarrow> nat \<Rightarrow> kernel \<Rightarrow> kernel \<Rightarrow> bool" where
  "request_outcome s t k k' \<longleftrightarrow>
     status (threads k' t) = WaitIPC \<and> ctx (threads k' t) = ctx (threads k t) \<and>
     (if currently_handling (ksessions k s) = None \<and> waiting_threads k s \<noteq> []
      then \<exists>v. best_waiter s k v \<and> status (threads k' v) = Ready \<and> ctx (threads k' v) 0 = ResultSuccess \<and>
             ctx (threads k' v) 1 = word_of_int (last_index (wait_objects (threads k v)) s) \<and>
             currently_handling (ksessions k' s) = Some t \<and>
             pending_requesting_threads (ksessions k' s) = pending_requesting_threads (ksessions k s) \<and>
             ipc_translations k' = ipc_translations k @ [(s, t, v, False)] \<and>
             (\<forall>u. u \<noteq> t \<and> u \<noteq> v \<longrightarrow> status (threads k' u) = status (threads k u) \<and> ctx (threads k' u) = ctx (threads k u))
      else currently_handling (ksessions k' s) = currently_handling (ksessions k s) \<and>
           pending_requesting_threads (ksessions k' s) = pending_requesting_threads (ksessions k s) @ [t] \<and>
           ipc_translations k' = ipc_translations k \<and>
           (\<forall>u. u \<noteq> t \<longrightarrow> status (threads k' u) = status (threads k u) \<and> ctx (threads k' u) = ctx (threads k u)))"

lemma requested_simps:
  "waiting_threads (requested s t k) = waiting_threads k" "kind (requested s t k) = kind k" "mutexes (requested s t k) = mutexes k"
  "ipc_translations (requested s t k) = ipc_translations k"
  "current_priority (threads (requested s t k) u) = current_priority (threads k u)"
  "wait_objects (threads (requested s t k) u) = wait_objects (threads k u)"
  "wakeup_callback (threads (requested s t k) u) = wakeup_callback (threads k u)"
  "ctx (threads (requested s t k) u) = ctx (threads k u)"
  "status (threads (requested s t k) u) = (if u = t then WaitIPC else status (threads k u))"
  "ksessions (requested s t k) s = (ksessions k s)\<lparr>pending_requesting_threads := pending_requesting_threads (ksessions k s) @ [t]\<rparr>"
  "hle_notifier (requested s t k) = hle_notifier k"
  by (simp_all add: requested_def)

lemma best_waiter_requested [simp]: "best_waiter s (requested s t k) v = best_waiter s k v"
  by (simp add: best_waiter_def requested_simps)

lemma request_can_wake:
  assumes inv: "kinv k" and s: "kind k s = KServerSession" "ses_client (ksessions k s)"
    and servers: "\<forall>u \<in> set (waiting_threads k s). wakeup_callback (threads k u) = Some IpcCallback" and t: "wait_objects (threads k t) = []"
    and u: "u \<in> set (waiting_threads k s)"
  shows "can_wake s (requested s t k) u \<longleftrightarrow> currently_handling (ksessions k s) = None"
proof -
  have "status (threads k u) = WaitSynchAny" using wait_invD(7) [OF kinvD(2) [OF inv] u] servers u by simp
  moreover have "u \<noteq> t" using wait_invD(5) [OF kinvD(2) [OF inv], of s u] u t by auto
  ultimately show ?thesis
    using s ShouldWait_session [of "requested s t k" s] by (simp add: can_wake_def requested_simps)
qed

lemma SendSyncRequest_effect:
  assumes inv: "kinv k" "ipc_inv k" and s: "kind k s = KServerSession" "ses_client (ksessions k s)" "ses_server (ksessions k s)"
      "hle_handler (ksessions k s) = None"
    and t: "registered k t" "status (threads k t) = Running" "wait_objects (threads k t) = []"
    and servers: "\<forall>u \<in> set (waiting_threads k s). wakeup_callback (threads k u) = Some IpcCallback"
    and room: "\<forall>m. lock_count (mutexes k m) + int (length (waiting_threads k s)) < 2 ^ 31"
  shows "\<exists>k'. SendSyncRequest request s t k = Some (ResultSuccess, k') \<and> kinv k' \<and> ipc_inv k' \<and> request_outcome s t k k' \<and> kind k' = kind k"
proof -
  let ?k = "requested s t k"
  have k: "kinv ?k" "ipc_inv ?k" using requested_kinv [OF inv(1) t(2,3)] requested_ipc_inv [OF inv(2) s(1,2) t] by simp_all
  have r: "\<forall>m. lock_count (mutexes ?k m) + int (length (waiting_threads ?k s)) < 2 ^ 31" using room by (simp add: requested_simps)
  have ks: "kind ?k s = KServerSession" "ses_client (ksessions ?k s)" using s by (simp_all add: requested_simps)
  obtain ts k1 where run: "wake_run s ?k ts k1" "kinv k1" "ipc_kept ?k k1"
      "WakeupAllWaitingThreads s ?k = Some (if hle_notifier k1 s then k1\<lparr>hle_notified := hle_notified k1 @ [s]\<rparr> else k1)"
    by (rule WakeupAll_run [OF k(1) r disjI2 [OF ks(1)]]) simp
  let ?k' = "if hle_notifier k1 s then k1\<lparr>hle_notified := hle_notified k1 @ [s]\<rparr> else k1"
  have nt: "t \<notin> set (waiting_threads k s)" using wait_invD(5) [OF kinvD(2) [OF inv(1)], of s t] t(3) by auto
  note can = request_can_wake [OF inv(1) s(1,2) servers t(3)]
  have "request_outcome s t k k1"
  proof (cases "currently_handling (ksessions k s) = None \<and> waiting_threads k s \<noteq> []")
    case True
    then have all: "\<forall>u \<in> set (waiting_threads ?k s). can_wake s ?k u" using can by (simp add: requested_simps)
    then have "\<exists>u \<in> set (waiting_threads ?k s). can_wake s ?k u" using True by (auto simp: requested_simps intro: hd_in_set)
    then obtain v where v: "highest s ?k v" "woken s v ?k k1" using session_wakes_one [OF k(1) r ks run(1)] by auto
    have b: "best_waiter s k v" using highest_best_waiter [OF v(1) all] by simp
    then have vs: "v \<in> set (waiting_threads k s)" by (auto simp: best_waiter_def)
    then have ipc: "wakeup_callback (threads k v) = Some IpcCallback" "v \<noteq> t" using servers nt by auto
    have "s \<in> taken_for s v ?k" using wait_invD(5) [OF kinvD(2) [OF inv(1)], of s v] vs by (simp add: taken_for_def requested_simps)
    then have "ksessions k1 s = popped (ksessions ?k s)" using v(2) ks by (simp add: woken_def)
    then have "currently_handling (ksessions k1 s) = Some t" "pending_requesting_threads (ksessions k1 s) = pending_requesting_threads (ksessions k s)"
      using s(2) by (simp_all add: popped_def requested_simps)
    moreover have "ipc_translations k1 = ipc_translations k @ [(s, t, v, False)]"
      using v(2) ipc ks by (simp add: woken_def handed_over_def requested_simps)
    moreover have "status (threads k1 v) = Ready" "ctx (threads k1 v) 0 = ResultSuccess"
        "ctx (threads k1 v) 1 = word_of_int (last_index (wait_objects (threads k v)) s)"
      using v(2) ipc ks by (simp_all add: woken_def requested_simps)
    moreover have "status (threads k1 u) = (if u = t then WaitIPC else status (threads k u)) \<and> ctx (threads k1 u) = ctx (threads k u)" if "u \<noteq> v" for u
      using v(2) that by (simp add: woken_def requested_simps)
    ultimately show ?thesis using True b ipc(2) by (auto simp: request_outcome_def)
  next
    case False
    then have "\<not> (\<exists>u \<in> set (waiting_threads ?k s). can_wake s ?k u)" using can by (auto simp: requested_simps)
    then have "k1 = ?k" using session_wakes_one [OF k(1) r ks run(1)] by auto
    then show ?thesis using False by (auto simp: request_outcome_def requested_simps)
  qed
  then have "request_outcome s t k ?k'" by (auto simp: request_outcome_def)
  moreover have "kinv ?k'" "ipc_inv ?k'" using run(2) ipc_kept_inv [of ?k ?k'] run(3) k(2) by auto
  moreover have "SendSyncRequest request s t k = Some (ResultSuccess, ?k')"
    using s(3) run(4) by (simp add: SendSyncRequest_def HandleSyncRequest_requested [OF s(4) t(2)])
  moreover have "kind ?k' = kind k" using run(3) by (simp add: ipc_kept_def requested_simps)
  ultimately show ?thesis by blast
qed

section \<open>Replies\<close>

text \<open>Resuming a thread that waits for no object.\<close>

lemma kinv_resume:
  assumes inv: "kinv k" and t: "registered k t" "wait_objects (threads k t) = []" "status (threads k t) \<in> {WaitIPC, Dead}"
  obtains k' where "ResumeFromWait t k = Some k'" "kinv k'"
    "threads k' = (if status (threads k t) = Dead then threads k
       else (threads k)(t := (threads k t)\<lparr>wakeup_callback := None, status := Ready\<rparr>))"
    "same_ipc k k'" "waiting_threads k' = waiting_threads k" "kind k' = kind k" "mutexes k' = mutexes k" "thread_list k' = thread_list k"
    "events k' = events k" "semaphores k' = semaphores k" "ktimers k' = ktimers k" "current_thread k' = current_thread k"
proof -
  obtain k' where r: "ResumeFromWait t k = Some k'" "sched_inv k'"
      "k' = (if status (threads k t) \<in> {Ready, Running, Dead} then k
          else PrepareReschedule (upd_thread t (\<lambda>x. x\<lparr>wakeup_callback := None, status := Ready\<rparr>)
                 (upd_queue (core_id (threads k t)) (push_back (current_priority (threads k t)) t) k)))"
    using ResumeFromWait_spec [OF kinvD(1) [OF inv] t(1,2)] t(3) by auto
  have fr: "same_ipc k k'" "waiting_threads k' = waiting_threads k" "kind k' = kind k" "mutexes k' = mutexes k" "thread_list k' = thread_list k"
    "events k' = events k" "semaphores k' = semaphores k" "ktimers k' = ktimers k" "current_thread k' = current_thread k"
    by (simp_all add: r(3) same_ipc_def PrepareReschedule_def)
  have th: "threads k' = (if status (threads k t) = Dead then threads k
       else (threads k)(t := (threads k t)\<lparr>wakeup_callback := None, status := Ready\<rparr>))"
    using t(3) by (auto simp: r(3) PrepareReschedule_def upd_thread_def upd_queue_def)
  have reg: "registered k' u = registered k u" for u by (simp add: registered_def fr th)
  have "wait_inv k'" by (rule wait_inv_idle [OF kinvD(2) [OF inv], where t = t]) (simp_all add: fr th t(2))
  moreover have "mutex_inv k'"
    using kinvD(3) [OF inv] unfolding mutex_inv_def reg fr by (simp add: th)
  ultimately have "kinv k'" using r(2) by (simp add: kinv_def)
  then show thesis using that r(1) th fr by blast
qed

text \<open>The reply to the request of thread \<open>c\<close>.\<close>

definition reply_outcome :: "nat \<Rightarrow> nat \<Rightarrow> nat \<Rightarrow> kernel \<Rightarrow> kernel \<Rightarrow> bool" where
  "reply_outcome s t c k k' \<longleftrightarrow>
     status (threads k' c) = (if status (threads k c) = Dead then Dead else Ready) \<and> ctx (threads k' c) = ctx (threads k c) \<and>
     (\<forall>u. u \<noteq> c \<longrightarrow> threads k' u = threads k u) \<and>
     ksessions k' = (ksessions k)(s := (ksessions k s)\<lparr>currently_handling := None\<rparr>) \<and>
     ipc_translations k' = ipc_translations k @ [(s, t, c, True)] \<and> waiting_threads k' = waiting_threads k \<and> kind k' = kind k"

lemma requests_handled: "currently_handling x = Some c \<Longrightarrow> c \<in> set (requests x)"
  by (simp add: requests_def)

lemma ipc_inv_subset:
  assumes inv: "ipc_inv k" and k': "kind k' = kind k"
    and s: "\<And>s. kind k s = KServerSession \<Longrightarrow> set (requests (ksessions k' s)) \<subseteq> set (requests (ksessions k s)) \<and>
        distinct (requests (ksessions k' s)) \<and> (ses_server (ksessions k' s) \<longrightarrow> ses_server (ksessions k s)) \<and>
        (ses_client (ksessions k s) \<and> ses_server (ksessions k' s) \<longrightarrow> ses_client (ksessions k' s) \<or> requests (ksessions k' s) = [])"
    and c: "\<And>s c. kind k s = KServerSession \<Longrightarrow> c \<in> set (requests (ksessions k' s)) \<Longrightarrow> registered k' c = registered k c \<and>
        status (threads k' c) = status (threads k c) \<and> wait_objects (threads k' c) = wait_objects (threads k c)"
  shows "ipc_inv k'"
  unfolding ipc_inv_def k'
proof (intro conjI allI impI ballI)
  fix x assume x: "kind k x = KServerSession"
  note I = ipc_invD [OF inv x] and S = s [OF x]
  show "distinct (requests (ksessions k' x))" using S by simp
  show "requests (ksessions k' x) = []" if "\<not> ses_client (ksessions k' x) \<and> ses_server (ksessions k' x)"
    using that S I(2) by (cases "ses_client (ksessions k x)") auto
  show "registered k' u" "status (threads k' u) \<in> {WaitIPC, Dead}" "wait_objects (threads k' u) = []"
    if "u \<in> set (requests (ksessions k' x))" for u
    using I(3) [of u] c [OF x that] S that by auto
  show "set (requests (ksessions k' x)) \<inter> set (requests (ksessions k' y)) = {}" if "kind k y = KServerSession" "x \<noteq> y" for y
    using I(4) [OF that] S s [OF that(1)] by blast
qed

lemma send_reply_effect:
  assumes inv: "kinv k" "ipc_inv k" and s: "kind k s = KServerSession" "ses_server (ksessions k s)" and c: "currently_handling (ksessions k s) = Some c"
  shows "\<exists>k'. send_reply s t k = Some (True, k') \<and> kinv k' \<and> ipc_inv k' \<and> reply_outcome s t c k k' \<and> mutexes k' = mutexes k \<and>
    thread_list k' = thread_list k \<and> client_ports k' = client_ports k \<and> current_thread k' = current_thread k"
proof -
  note I = ipc_invD [OF inv(2) s(1)]
  have cs: "c \<in> set (requests (ksessions k s))" using c by (rule requests_handled)
  then have cl: "ses_client (ksessions k s)" using I(2) s(2) by (cases "ses_client (ksessions k s)") auto
  let ?k = "(upd_session s (\<lambda>x. x\<lparr>currently_handling := None\<rparr>) k)\<lparr>ipc_translations := ipc_translations k @ [(s, t, c, True)]\<rparr>"
  have k: "kinv ?k" using inv(1) by simp
  have C: "registered ?k c" "wait_objects (threads ?k c) = []" "status (threads ?k c) \<in> {WaitIPC, Dead}"
    using I(3) [OF cs] by (simp_all add: registered_def)
  obtain k' where r: "ResumeFromWait c ?k = Some k'" "kinv k'"
    "threads k' = (if status (threads ?k c) = Dead then threads ?k
       else (threads ?k)(c := (threads ?k c)\<lparr>wakeup_callback := None, status := Ready\<rparr>))"
    "same_ipc ?k k'" "waiting_threads k' = waiting_threads ?k" "kind k' = kind ?k" "mutexes k' = mutexes ?k"
    "thread_list k' = thread_list ?k" "current_thread k' = current_thread ?k"
    by (rule kinv_resume [OF k C])
  have ses: "ksessions k' = (ksessions k)(s := (ksessions k s)\<lparr>currently_handling := None\<rparr>)"
      "ipc_translations k' = ipc_translations k @ [(s, t, c, True)]" "client_ports k' = client_ports k"
    using r(4) by (simp_all add: same_ipc_def)
  have o: "reply_outcome s t c k k'" using r(3,5,6) by (simp add: reply_outcome_def ses)
  have req: "requests ((ksessions k s)\<lparr>currently_handling := None\<rparr>) = pending_requesting_threads (ksessions k s)"
      "requests (ksessions k s) = pending_requesting_threads (ksessions k s) @ [c]"
    using c by (simp_all add: requests_def)
  have "ipc_inv k'"
  proof (rule ipc_inv_subset [OF inv(2)])
    show "kind k' = kind k" using r(6) by simp
  next
    fix x assume x: "kind k x = KServerSession"
    show "set (requests (ksessions k' x)) \<subseteq> set (requests (ksessions k x)) \<and> distinct (requests (ksessions k' x)) \<and>
        (ses_server (ksessions k' x) \<longrightarrow> ses_server (ksessions k x)) \<and>
        (ses_client (ksessions k x) \<and> ses_server (ksessions k' x) \<longrightarrow> ses_client (ksessions k' x) \<or> requests (ksessions k' x) = [])"
      using ipc_invD(1) [OF inv(2) x] req by (cases "x = s") (auto simp: ses)
    fix d assume d: "d \<in> set (requests (ksessions k' x))"
    have "d \<noteq> c"
    proof (cases "x = s")
      case True then show ?thesis using d I(1) req by (auto simp: ses)
    next
      case False then show ?thesis using d I(4) [OF x] cs by (auto simp: ses)
    qed
    then show "registered k' d = registered k d \<and> status (threads k' d) = status (threads k d) \<and> wait_objects (threads k' d) = wait_objects (threads k d)"
      using r(3,8) by (simp add: registered_def)
  qed
  moreover have "send_reply s t k = Some (True, k')" using c cl r(1) by (simp add: send_reply_def Let_def)
  ultimately show ?thesis using r o ses(3) by auto
qed

section \<open>Waiting for requests\<close>

lemma acquired_ipc_kept:
  assumes "acquired k obs t k'" "\<forall>s \<in> obs. \<not> ShouldWait s t k"
  shows "ipc_kept k k'"
proof -
  have ses: "ksessions k' s = (if s \<in> obs \<and> kind k s = KServerSession then popped (ksessions k s) else ksessions k s)" for s
    using assms(1) by (simp add: acquired_def)
  have "requests (ksessions k' s) = requests (ksessions k s)" for s
  proof (cases "s \<in> obs \<and> kind k s = KServerSession")
    case True
    then show ?thesis using assms(2) requests_popped [of "ksessions k s"] ShouldWait_session [of k s] by (auto simp: ses)
  qed (auto simp: ses)
  moreover have sw: "same_waits k k'" using assms(1) by (simp add: acquired_def)
  moreover have "pending_sessions k' = pending_sessions k" "client_ports k' = client_ports k" using assms(1) by (simp_all add: acquired_def)
  ultimately show ?thesis
    using same_waits_registered [OF sw] by (simp add: ipc_kept_def ses) (simp add: same_waits_def)
qed

text \<open>Entering waiting lists touches no port and no session.\<close>

lemma AddWaitingThread_ipc: "same_ipc k (AddWaitingThread ob t k)" "kind (AddWaitingThread ob t k) = kind k" "thread_list (AddWaitingThread ob t k) = thread_list k"
  "core_id (threads (AddWaitingThread ob t k) u) = core_id (threads k u)"
  using only_prioD(4,13,20,24) [OF Mutex_UpdatePriority_only]
  by (auto simp: AddWaitingThread_def Let_def mutex_pend_def same_ipc_def)

lemma fold_AddWaitingThread_ipc:
  "same_ipc k (fold (\<lambda>ob. AddWaitingThread ob t) obs k) \<and> kind (fold (\<lambda>ob. AddWaitingThread ob t) obs k) = kind k \<and>
   thread_list (fold (\<lambda>ob. AddWaitingThread ob t) obs k) = thread_list k \<and>
   core_id (threads (fold (\<lambda>ob. AddWaitingThread ob t) obs k) u) = core_id (threads k u)"
proof (induction obs arbitrary: k)
  case (Cons ob obs)
  from Cons [of "AddWaitingThread ob t k"] AddWaitingThread_ipc [where k = k and ob = ob and t = t] show ?case by (simp add: same_ipc_def)
qed simp

lemma asleep_ipc_kept:
  assumes inv: "kinv k" and t: "registered k t" "status (threads k t) = Running" "wait_objects (threads k t) = []"
  shows "ipc_kept k (asleep_with WaitSynchAny obs IpcCallback t k)" "kinv (asleep_with WaitSynchAny obs IpcCallback t k)"
    "same_ipc k (asleep_with WaitSynchAny obs IpcCallback t k)"
    "waiting_threads (asleep_with WaitSynchAny obs IpcCallback t k) = (\<lambda>ob. if ob \<in> set obs then waiting_threads k ob @ [t] else waiting_threads k ob)"
proof -
  let ?k = "asleep_with WaitSynchAny obs IpcCallback t k"
  have nr: "status (threads k t) \<noteq> Ready" using t(2) by simp
  note a = asleep_with_inv [OF inv t(1) nr t(3), of WaitSynchAny obs IpcCallback, simplified]
  note f = fold_AddWaitingThread_ipc [of k t obs]
  show s: "same_ipc k ?k" using f by (simp add: asleep_with_def same_ipc_def)
  have "registered ?k c = registered k c" for c using f [of c] by (cases "c = t") (simp_all add: asleep_with_def registered_def)
  moreover have "status (threads ?k c) = status (threads k c) \<and> wait_objects (threads ?k c) = wait_objects (threads k c)"
    if "status (threads k c) \<in> {WaitIPC, Dead}" for c
  proof -
    have "c \<noteq> t" using that t(2) by auto
    show ?thesis by (subst (1 2) a(3) [OF \<open>c \<noteq> t\<close>]) simp
  qed
  moreover have "kind ?k = kind k" using f by (simp add: asleep_with_def)
  ultimately show "ipc_kept k ?k" using s by (simp add: ipc_kept_def same_ipc_def)
  show "kinv ?k" "waiting_threads ?k = (\<lambda>ob. if ob \<in> set obs then waiting_threads k ob @ [t] else waiting_threads k ob)" using a(1,2) by simp_all
qed

lemma receive_sleeps:
  assumes "status (threads k t) \<noteq> Ready" "objs \<noteq> []" "find_ready t k objs = None"
  shows "receive replied objs t k = Some (ResultSuccess, - 1, PrepareReschedule (asleep_with WaitSynchAny objs IpcCallback t k))"
proof -
  let ?f = "\<lambda>x. x\<lparr>status := WaitSynchAny\<rparr>"
  have "fold (\<lambda>ob. AddWaitingThread ob t) objs (upd_thread t ?f k) = upd_thread t ?f (fold (\<lambda>ob. AddWaitingThread ob t) objs k)"
    by (rule fold_AddWaitingThread_commute [where s = "status (threads k t)"]) (use assms in \<open>auto simp: wait_update_def\<close>)
  then show ?thesis using assms(2,3) by (simp add: receive_def asleep_with_def upd_thread_twice)
qed

text \<open>The outcome of the second half of \<^verbatim>\<open>svcReplyAndReceive\<close>.\<close>

definition receive_outcome :: "bool \<Rightarrow> nat list \<Rightarrow> nat \<Rightarrow> kernel \<Rightarrow> u32 \<Rightarrow> int \<Rightarrow> kernel \<Rightarrow> bool" where
  "receive_outcome replied objs t k r i k' \<longleftrightarrow>
     (if objs = [] then r = (if replied then ResultSuccess else 0xE7E3FFFF) \<and> i = 0 \<and> k' = k
      else if \<forall>ob \<in> set objs. ShouldWait ob t k
      then r = ResultSuccess \<and> i = - 1 \<and> status (threads k' t) = WaitSynchAny \<and> wait_objects (threads k' t) = objs \<and>
           wakeup_callback (threads k' t) = Some IpcCallback \<and>
           waiting_threads k' = (\<lambda>ob. if ob \<in> set objs then waiting_threads k ob @ [t] else waiting_threads k ob) \<and>
           ksessions k' = ksessions k \<and> ipc_translations k' = ipc_translations k
      else \<exists>j < length objs. i = int j \<and> \<not> ShouldWait (objs ! j) t k \<and> (\<forall>l < j. ShouldWait (objs ! l) t k) \<and>
           status (threads k' t) = status (threads k t) \<and> waiting_threads k' = waiting_threads k \<and>
           (let s = objs ! j; x = ksessions k s in
            if kind k s = KServerSession \<and> ses_client x
            then r = ResultSuccess \<and> pending_requesting_threads x \<noteq> [] \<and>
                 ksessions k' = (ksessions k)(s := x\<lparr>currently_handling := Some (last (pending_requesting_threads x)),
                   pending_requesting_threads := butlast (pending_requesting_threads x)\<rparr>) \<and>
                 ipc_translations k' = ipc_translations k @ [(s, last (pending_requesting_threads x), t, False)]
            else r = (if kind k s = KServerSession then ResultSessionClosed else ResultSuccess) \<and>
                 ksessions k' = ksessions k \<and> ipc_translations k' = ipc_translations k))"

lemma find_ready_cases:
  "if \<forall>ob \<in> set objs. ShouldWait ob t k then find_ready t k objs = None
   else \<exists>j < length objs. find_ready t k objs = Some j \<and> \<not> ShouldWait (objs ! j) t k \<and> (\<forall>l < j. ShouldWait (objs ! l) t k)"
proof (cases "find_ready t k objs")
  case None
  then show ?thesis by (auto simp: find_ready_def find_None_iff in_set_conv_nth)
next
  case (Some j)
  then have "j < length objs" "\<not> ShouldWait (objs ! j) t k" "\<forall>l < j. ShouldWait (objs ! l) t k"
    by (auto simp: find_ready_def find_Some_iff)
  then show ?thesis using Some by auto
qed

lemma receive_ready:
  assumes inv: "kinv k" "ipc_inv k" and t: "registered k t" and bound: "\<forall>m. lock_count (mutexes k m) + 1 < 2 ^ 31"
    and j: "j < length objs" "find_ready t k objs = Some j" "\<not> ShouldWait (objs ! j) t k" "\<forall>l < j. ShouldWait (objs ! l) t k"
  shows "\<exists>r i k'. receive replied objs t k = Some (r, i, k') \<and> kinv k' \<and> ipc_kept k k' \<and> receive_outcome replied objs t k r i k'"
proof -
  let ?s = "objs ! j" let ?x = "ksessions k ?s"
  obtain k1 where k1: "Acquire ?s t k = Some k1" "acquired k {?s} t k1"
    using Acquire_spec [OF kinvD(1,3) [OF inv(1)] t j(3)] bound by auto
  have k1': "kinv k1" "ipc_kept k k1" using acquired_kinv [OF inv(1) k1(2)] acquired_ipc_kept [OF k1(2)] j(3) by simp_all
  have ses: "ksessions k1 = (\<lambda>s. if s \<in> {?s} \<and> kind k s = KServerSession then popped (ksessions k s) else ksessions k s)"
      "ipc_translations k1 = ipc_translations k" "status (threads k1 t) = status (threads k t)" "waiting_threads k1 = waiting_threads k"
    using k1(2) by (simp_all add: acquired_def same_waits_def)
  have ne: "objs \<noteq> []" "\<not> (\<forall>ob \<in> set objs. ShouldWait ob t k)" using j by auto
  show ?thesis
  proof (cases "kind k ?s = KServerSession \<and> ses_client ?x")
    case True
    then have p: "pending_requesting_threads ?x \<noteq> []" "ksessions k1 = (ksessions k)(?s := popped ?x)"
      using j(3) ShouldWait_session [of k ?s] by (auto simp: ses(1) fun_eq_iff)
    define k' where "k' = k1\<lparr>ipc_translations := ipc_translations k @ [(?s, last (pending_requesting_threads ?x), t, False)]\<rparr>"
    have "receive replied objs t k = Some (ResultSuccess, int j, k')"
      using True ne(1) j(2) k1(1) by (simp add: receive_def ReceiveIPCRequest_def p(2) popped_def k'_def ses(2))
    moreover have "kinv k'" "ipc_kept k k'"
      using k1' by (simp_all add: k'_def) (simp add: ipc_kept_def registered_def)
    moreover have "receive_outcome replied objs t k ResultSuccess (int j) k'"
      unfolding receive_outcome_def if_not_P [OF ne(1)] if_not_P [OF ne(2)]
      using True j p ses by (intro exI [of _ j]) (simp add: k'_def popped_def)
    ultimately show ?thesis by blast
  next
    case False
    then have k: "ksessions k1 = ksessions k" by (auto simp: ses(1) fun_eq_iff popped_def)
    let ?r = "if kind k ?s = KServerSession then ResultSessionClosed else ResultSuccess"
    have "receive replied objs t k = Some (?r, int j, k1)"
      using False ne(1) j(2) k1(1) by (auto simp: receive_def ReceiveIPCRequest_def k)
    moreover have "receive_outcome replied objs t k ?r (int j) k1"
      unfolding receive_outcome_def if_not_P [OF ne(1)] if_not_P [OF ne(2)]
      using False j k ses(2-4) by (intro exI [of _ j]) (simp add: Let_def)
    ultimately show ?thesis using k1' by blast
  qed
qed

lemma receive_effect:
  assumes inv: "kinv k" "ipc_inv k" and t: "registered k t" "status (threads k t) = Running" "wait_objects (threads k t) = []"
    and bound: "\<forall>m. lock_count (mutexes k m) + 1 < 2 ^ 31"
  shows "\<exists>r i k'. receive replied objs t k = Some (r, i, k') \<and> kinv k' \<and> ipc_kept k k' \<and> receive_outcome replied objs t k r i k'"
proof (cases "objs = []")
  case True
  then show ?thesis using inv by (simp add: receive_def receive_outcome_def)
next
  case ne: False
  show ?thesis
  proof (cases "\<forall>ob \<in> set objs. ShouldWait ob t k")
    case True
    let ?a = "asleep_with WaitSynchAny objs IpcCallback t k"
    note a = asleep_ipc_kept [OF inv(1) t, of objs]
    have "receive replied objs t k = Some (ResultSuccess, - 1, PrepareReschedule ?a)"
      using True find_ready_cases [of objs t k] t(2) ne by (intro receive_sleeps) simp_all
    moreover have "receive_outcome replied objs t k ResultSuccess (- 1) (PrepareReschedule ?a)"
      unfolding receive_outcome_def if_not_P [OF ne] if_P [OF True]
      using a(3,4) by (simp add: same_ipc_def PrepareReschedule_def) (simp add: asleep_with_def)
    moreover have "ipc_kept k (PrepareReschedule ?a)" using a(1) by (simp add: ipc_kept_def PrepareReschedule_def registered_def)
    ultimately show ?thesis using a(2) by auto
  next
    case False
    then obtain j where "j < length objs" "find_ready t k objs = Some j" "\<not> ShouldWait (objs ! j) t k" "\<forall>l < j. ShouldWait (objs ! l) t k"
      using find_ready_cases [of objs t k] by (simp only: if_False) blast
    then show ?thesis by (rule receive_ready [OF inv t(1) bound])
  qed
qed

section \<open>The other operations\<close>

text \<open>A number under which no object is in use, and for whose session no thread waits any more.\<close>

definition unused :: "kernel \<Rightarrow> nat \<Rightarrow> bool" where
  "unused k ob \<longleftrightarrow> waiting_threads k ob = [] \<and> kind k ob \<notin> {KMutex, KServerPort} \<and>
     (kind k ob = KServerSession \<longrightarrow> \<not> ses_server (ksessions k ob) \<and> requests (ksessions k ob) = [])"

lemma CreateSessionPair_inv:
  assumes "kinv k" "ipc_inv k" "unused k s"
  shows "kinv (CreateSessionPair s port k)" "ipc_inv (CreateSessionPair s port k)"
    "open_sessions (CreateSessionPair s port k) cp = (if port = Some cp then insert s (open_sessions k cp) else open_sessions k cp)"
    "s \<notin> open_sessions k cp"
proof -
  show "kinv (CreateSessionPair s port k)"
    by (rule fresh_object_inv [OF assms(1), where ob = s and K = KServerSession])
      (use assms(3) in \<open>auto simp: CreateSessionPair_def unused_def fun_eq_iff\<close>)
  show "ipc_inv (CreateSessionPair s port k)"
    using assms(2) by (auto simp: ipc_inv_def CreateSessionPair_def requests_def registered_def)
  show "open_sessions (CreateSessionPair s port k) cp = (if port = Some cp then insert s (open_sessions k cp) else open_sessions k cp)"
    using assms(3) by (auto simp: open_sessions_def CreateSessionPair_def unused_def)
  show "s \<notin> open_sessions k cp" using assms(3) by (auto simp: open_sessions_def unused_def)
qed

lemma port_invD:
  assumes "port_inv k"
  shows "finite (open_sessions k cp)" "card (open_sessions k cp) = active_sessions (client_ports k cp)"
    "active_sessions (client_ports k cp) \<le> max_sessions (client_ports k cp)"
  using assms by (simp_all add: port_inv_def)

lemma CreatePortPair_inv:
  assumes "kinv k" "ipc_inv k" "port_inv k" "unused k sp" "open_sessions k cp = {}"
  shows "kinv (CreatePortPair sp cp n k) \<and> ipc_inv (CreatePortPair sp cp n k) \<and> port_inv (CreatePortPair sp cp n k)"
proof (intro conjI)
  show "kinv (CreatePortPair sp cp n k)"
    by (rule fresh_object_inv [OF assms(1), where ob = sp and K = KServerPort])
      (use assms(4) in \<open>auto simp: CreatePortPair_def unused_def fun_eq_iff\<close>)
  show "ipc_inv (CreatePortPair sp cp n k)"
    using assms(2) by (auto simp: ipc_inv_def CreatePortPair_def registered_def)
  have "open_sessions (CreatePortPair sp cp n k) = open_sessions k"
    using assms(4) by (auto simp: open_sessions_def CreatePortPair_def unused_def fun_eq_iff)
  then show "port_inv (CreatePortPair sp cp n k)"
    using port_invD [OF assms(3)] port_invD(2) [OF assms(3), of cp, symmetric] assms(5) unfolding port_inv_def by (simp add: CreatePortPair_def)
qed

lemma upd_port_simps [simp]:
  "client_ports (upd_port cp f k) = (client_ports k)(cp := f (client_ports k cp))" "ksessions (upd_port cp f k) = ksessions k"
  "kind (upd_port cp f k) = kind k" "threads (upd_port cp f k) = threads k" "waiting_threads (upd_port cp f k) = waiting_threads k"
  "thread_list (upd_port cp f k) = thread_list k" "pending_sessions (upd_port cp f k) = pending_sessions k"
  "mutexes (upd_port cp f k) = mutexes k" "port_handler (upd_port cp f k) = port_handler k"
  by (simp_all add: upd_port_def)

lemma ipc_inv_cong:
  "ipc_inv k \<Longrightarrow> kind k' = kind k \<Longrightarrow> threads k' = threads k \<Longrightarrow> thread_list k' = thread_list k \<Longrightarrow>
   (\<And>s. requests (ksessions k' s) = requests (ksessions k s) \<and> ses_client (ksessions k' s) = ses_client (ksessions k s) \<and>
      (ses_server (ksessions k' s) \<longrightarrow> ses_server (ksessions k s))) \<Longrightarrow> ipc_inv k'"
  by (simp add: ipc_inv_def registered_def)

lemma port_inv_cong:
  "port_inv k \<Longrightarrow> kind k' = kind k \<Longrightarrow> client_ports k' = client_ports k \<Longrightarrow>
   (\<And>s. ses_server (ksessions k' s) = ses_server (ksessions k s) \<and> ses_port (ksessions k' s) = ses_port (ksessions k s)) \<Longrightarrow> port_inv k'"
  by (simp add: port_inv_def open_sessions_def)

lemma Accept_inv:
  assumes "kinv k" "ipc_inv k" "port_inv k" "Accept sp k = (r, out, k')"
  shows "kinv k' \<and> ipc_inv k' \<and> port_inv k'"
  using assms(4) assms(1-3) ipc_inv_cong [OF assms(2), of k'] port_inv_cong [OF assms(3), of k']
  by (auto simp: Accept_def split: if_splits) (auto simp: set_pending_def)

text \<open>The state in which \<^verbatim>\<open>Connect\<close> wakes the threads that wait for the server port.\<close>

definition connected :: "nat \<Rightarrow> nat \<Rightarrow> kernel \<Rightarrow> kernel" where
  "connected s cp k =
     (let k1 = CreateSessionPair s (Some cp) (upd_port cp (\<lambda>x. x\<lparr>active_sessions := active_sessions x + 1\<rparr>) k);
          sp = cp_server_port (client_ports k cp)
      in case port_handler k1 sp of Some h \<Rightarrow> ClientConnected h s k1 | None \<Rightarrow> set_pending sp (pending_sessions k1 sp @ [s]) k1)"

lemma Connect_connected:
  "active_sessions (client_ports k cp) < max_sessions (client_ports k cp) \<Longrightarrow>
   Connect s cp k = do { k1 \<leftarrow> WakeupAllWaitingThreads (cp_server_port (client_ports k cp)) (connected s cp k); Some (ResultSuccess, Some s, k1) }"
  by (simp add: Connect_def connected_def Let_def)

lemma connected_inv:
  assumes inv: "kinv k" "ipc_inv k" "port_inv k" and s: "unused k s"
    and room: "active_sessions (client_ports k cp) < max_sessions (client_ports k cp)"
  shows "kinv (connected s cp k)" "ipc_inv (connected s cp k)" "port_inv (connected s cp k)"
    "kind (connected s cp k) = (kind k)(s := KServerSession)" "waiting_threads (connected s cp k) = waiting_threads k"
    "mutexes (connected s cp k) = mutexes k" "active_sessions (client_ports (connected s cp k) cp) = active_sessions (client_ports k cp) + 1"
proof -
  let ?k0 = "upd_port cp (\<lambda>x. x\<lparr>active_sessions := active_sessions x + 1\<rparr>) k"
  let ?k1 = "CreateSessionPair s (Some cp) ?k0"
  have k0: "kinv ?k0" "ipc_inv ?k0" "unused ?k0 s" "open_sessions ?k0 = open_sessions k"
    using inv s ipc_inv_cong [OF inv(2), of ?k0] by (simp_all add: unused_def open_sessions_def fun_eq_iff)
  note c = CreateSessionPair_inv [OF k0(1-3)]
  have p: "port_inv ?k1"
    unfolding port_inv_def c(3) k0(4)
    using port_invD [OF inv(3)] room c(4) [unfolded k0(4)] by (auto simp: CreateSessionPair_def)
  have eq: "kind (connected s cp k) = kind ?k1" "client_ports (connected s cp k) = client_ports ?k1" "threads (connected s cp k) = threads ?k1"
      "thread_list (connected s cp k) = thread_list ?k1" "waiting_threads (connected s cp k) = waiting_threads ?k1"
      "mutexes (connected s cp k) = mutexes ?k1" "current_thread (connected s cp k) = current_thread ?k1" "ready_queue (connected s cp k) = ready_queue ?k1"
    and ses: "requests (ksessions (connected s cp k) x) = requests (ksessions ?k1 x) \<and> ses_client (ksessions (connected s cp k) x) = ses_client (ksessions ?k1 x) \<and>
       ses_server (ksessions (connected s cp k) x) = ses_server (ksessions ?k1 x) \<and> ses_port (ksessions (connected s cp k) x) = ses_port (ksessions ?k1 x)" for x
    by (simp_all add: connected_def Let_def ClientConnected_def set_pending_def split: option.split)
  show "kinv (connected s cp k)" by (rule kinv_cong [OF c(1)]) (simp_all only: eq)
  show "ipc_inv (connected s cp k)" using ses by (intro ipc_inv_cong [OF c(2)]) (simp_all only: eq, blast)
  show "port_inv (connected s cp k)" by (rule port_inv_cong [OF p]) (simp_all add: eq ses)
  show "kind (connected s cp k) = (kind k)(s := KServerSession)" "waiting_threads (connected s cp k) = waiting_threads k"
    "mutexes (connected s cp k) = mutexes k" "active_sessions (client_ports (connected s cp k) cp) = active_sessions (client_ports k cp) + 1"
    unfolding eq using s by (auto simp: CreateSessionPair_def unused_def)
qed

abbreviation room :: "kernel \<Rightarrow> nat \<Rightarrow> bool" where
  "room k ob \<equiv> \<forall>m. lock_count (mutexes k m) + int (length (waiting_threads k ob)) < 2 ^ 31"

lemma Connect_inv:
  assumes inv: "kinv k" "ipc_inv k" "port_inv k" and s: "unused k s"
    and sp: "kind k (cp_server_port (client_ports k cp)) = KServerPort" "room k (cp_server_port (client_ports k cp))"
  obtains k' where
    "Connect s cp k = (if card (open_sessions k cp) < max_sessions (client_ports k cp) then Some (ResultSuccess, Some s, k')
       else Some (ResultMaxConnectionsReached, None, k))"
    "kinv k'" "ipc_inv k'" "port_inv k'"
    "card (open_sessions k cp) < max_sessions (client_ports k cp) \<Longrightarrow> card (open_sessions k' cp) = card (open_sessions k cp) + 1"
proof (cases "active_sessions (client_ports k cp) < max_sessions (client_ports k cp)")
  case True
  let ?sp = "cp_server_port (client_ports k cp)"
  note c = connected_inv [OF inv s True]
  have "?sp \<noteq> s" using s sp(1) by (auto simp: unused_def)
  then have "kind (connected s cp k) ?sp = KServerPort" "room (connected s cp k) ?sp" using sp by (simp_all add: c)
  then obtain k' where k': "WakeupAllWaitingThreads ?sp (connected s cp k) = Some k'" "kinv k'" "ipc_kept (connected s cp k) k'"
    using WakeupAll_ipc [OF c(1), of ?sp] by auto
  have "Connect s cp k = Some (ResultSuccess, Some s, k')" using True k'(1) by (simp add: Connect_connected)
  moreover have p: "port_inv k'" by (rule ipc_kept_port_inv [OF k'(3) c(3)])
  moreover have "active_sessions (client_ports k' cp) = active_sessions (client_ports k cp) + 1"
    using k'(3) by (simp add: ipc_kept_def c(7))
  ultimately show thesis
    using that [of k'] True k'(2) ipc_kept_inv [OF k'(3) c(2)] port_invD(2) [OF inv(3), of cp] port_invD(2) [OF p, of cp] by simp
next
  case False
  then show thesis using that [of k] inv port_invD(2) [OF inv(3), of cp] by (simp add: Connect_def)
qed

lemma ServerSession_destroy_inv:
  assumes inv: "kinv k" "ipc_inv k" "port_inv k" and s: "kind k s = KServerSession" "ses_server (ksessions k s)"
  obtains k' where "ServerSession_destroy s k = Some k'" "kinv k'" "ipc_inv k'" "port_inv k'" "\<not> ses_server (ksessions k' s)"
    "threads k' = threads k" "requests (ksessions k' s) = requests (ksessions k s)"
    "\<And>cp. open_sessions k' cp = open_sessions k cp - {s}"
proof -
  let ?f = "\<lambda>x. x\<lparr>ses_server := False\<rparr>"
  let ?g = "\<lambda>x. x\<lparr>active_sessions := active_sessions x - 1\<rparr>"
  define k' where "k' = upd_session s ?f (case ses_port (ksessions k s) of Some cp \<Rightarrow> upd_port cp ?g k | None \<Rightarrow> k)"
  have in_port: "s \<in> open_sessions k cp \<longleftrightarrow> ses_port (ksessions k s) = Some cp" for cp using s by (simp add: open_sessions_def)
  have pos: "0 < active_sessions (client_ports k cp)" if "ses_port (ksessions k s) = Some cp" for cp
    using port_invD(1,2) [OF inv(3), of cp] in_port [of cp] that by (metis card_gt_0_iff empty_iff)
  have eq: "ServerSession_destroy s k = Some k'"
    using pos by (auto simp: ServerSession_destroy_def ConnectionClosed_def k'_def split: option.split)
  have os: "open_sessions k' cp = open_sessions k cp - {s}" for cp
    by (auto simp: open_sessions_def k'_def split: option.splits if_splits)
  have cp: "client_ports k' cp = (if ses_port (ksessions k s) = Some cp then ?g (client_ports k cp) else client_ports k cp)" for cp
    by (auto simp: k'_def split: option.split)
  have "port_inv k'"
    unfolding port_inv_def os cp
  proof (intro allI conjI)
    fix cp
    note P = port_invD [OF inv(3), of cp]
    show "finite (open_sessions k cp - {s})" using P(1) by simp
    show "card (open_sessions k cp - {s}) = active_sessions (if ses_port (ksessions k s) = Some cp then ?g (client_ports k cp) else client_ports k cp)"
      using P(1,2) in_port [of cp] by (simp add: card_Diff_singleton_if)
    show "active_sessions (if ses_port (ksessions k s) = Some cp then ?g (client_ports k cp) else client_ports k cp) \<le>
        max_sessions (if ses_port (ksessions k s) = Some cp then ?g (client_ports k cp) else client_ports k cp)" using P(3) by auto
  qed
  moreover have "kinv k'" using inv(1) by (auto simp: k'_def split: option.split)
  moreover have "ipc_inv k'" by (rule ipc_inv_cong [OF inv(2)]) (auto simp: k'_def split: option.split)
  ultimately show thesis using that [OF eq] os by (simp add: k'_def split: option.split)
qed

text \<open>A run of wake-ups for a session whose client endpoint is closed.\<close>

lemma closed_session_run:
  assumes "wake_run s k ts k'" "kinv k" "room k s" "kind k s = KServerSession" "\<not> ses_client (ksessions k s)"
  shows "set ts \<subseteq> set (waiting_threads k s) \<and> (\<forall>u. u \<notin> set ts \<longrightarrow> ctx (threads k' u) = ctx (threads k u)) \<and>
    (\<forall>u \<in> set ts. status (threads k' u) = Ready \<and> (wakeup_callback (threads k u) = Some IpcCallback \<longrightarrow> ctx (threads k' u) 0 = ResultSessionClosed \<and>
       ctx (threads k' u) 1 = word_of_int (last_index (wait_objects (threads k u)) s))) \<and>
    (\<forall>u. u \<notin> set (waiting_threads k s) \<longrightarrow> status (threads k' u) = status (threads k u)) \<and> ipc_translations k' = ipc_translations k"
  using assms
proof (induction rule: wake_run.induct)
  case (step k t k1 ts k2)
  note w = wake_run_step [OF step.hyps(1,2) step.prems(1,2)]
  have k1: "kind k1 s = KServerSession" "\<not> ses_client (ksessions k1 s)" using w(5) step.prems(3,4) by (simp_all add: ipc_kept_def)
  note I = step.IH [OF w(4,6) k1]
  have wt: "waiting_threads k1 s = removeAll t (waiting_threads k s)" and st: "status (threads k1 t) = Ready"
    and tr: "ipc_translations k1 = ipc_translations k"
    and oth: "\<And>u. u \<noteq> t \<Longrightarrow> status (threads k1 u) = status (threads k u) \<and> ctx (threads k1 u) = ctx (threads k u) \<and>
        wakeup_callback (threads k1 u) = wakeup_callback (threads k u) \<and> wait_objects (threads k1 u) = wait_objects (threads k u)"
    using w(3) step.prems(4) by (simp_all add: woken_def handed_over_def)
  have ipc: "wakeup_callback (threads k t) = Some IpcCallback \<longrightarrow> ctx (threads k1 t) 0 = ResultSessionClosed \<and>
       ctx (threads k1 t) 1 = word_of_int (last_index (wait_objects (threads k t)) s)"
    using w(3) step.prems(3,4) by (simp add: woken_def)
  have nt: "t \<notin> set (waiting_threads k1 s)" "t \<notin> set ts" using I by (auto simp: wt)
  show ?case
  proof (intro conjI ballI allI impI)
    show "set (t # ts) \<subseteq> set (waiting_threads k s)" using I w(1) by (auto simp: wt)
    show "ipc_translations k2 = ipc_translations k" using I tr by simp
    fix u
    show "ctx (threads k2 u) = ctx (threads k u)" if "u \<notin> set (t # ts)" using I oth [of u] that by auto
    show "status (threads k2 u) = status (threads k u)" if "u \<notin> set (waiting_threads k s)"
      using I oth [of u] that w(1) by (auto simp: wt)
    assume u: "u \<in> set (t # ts)"
    have "t = u \<or> u \<in> set ts \<and> u \<noteq> t" using u nt(2) by auto
    then show "status (threads k2 u) = Ready"
      "wakeup_callback (threads k u) = Some IpcCallback \<Longrightarrow> ctx (threads k2 u) 0 = ResultSessionClosed"
      "wakeup_callback (threads k u) = Some IpcCallback \<Longrightarrow> ctx (threads k2 u) 1 = word_of_int (last_index (wait_objects (threads k u)) s)"
      using I nt st ipc oth [of u] by auto
  qed
qed simp


text \<open>The state in which the destructor of a client session wakes the server.\<close>

definition client_gone :: "nat \<Rightarrow> kernel \<Rightarrow> kernel" where
  "client_gone s k =
     upd_session s (\<lambda>x. x\<lparr>ses_client := False\<rparr>)
       (upd_session s (\<lambda>x. x\<lparr>pending_requesting_threads := [], currently_handling := None\<rparr>)
          (case hle_handler (ksessions k s) of Some h \<Rightarrow> ClientDisconnected h s k | None \<Rightarrow> k))"

lemma ClientDisconnected_simps [simp]:
  "threads (ClientDisconnected h s k) = threads k" "kind (ClientDisconnected h s k) = kind k" "thread_list (ClientDisconnected h s k) = thread_list k"
  "waiting_threads (ClientDisconnected h s k) = waiting_threads k" "mutexes (ClientDisconnected h s k) = mutexes k"
  "client_ports (ClientDisconnected h s k) = client_ports k" "ipc_translations (ClientDisconnected h s k) = ipc_translations k"
  "ksessions (ClientDisconnected h s k) = (ksessions k)(s := (ksessions k s)\<lparr>hle_handler := None\<rparr>)"
  "kinv k \<Longrightarrow> kinv (ClientDisconnected h s k)"
  by (simp_all add: ClientDisconnected_def)

lemma client_gone_simps:
  "threads (client_gone s k) = threads k" "kind (client_gone s k) = kind k" "thread_list (client_gone s k) = thread_list k"
  "waiting_threads (client_gone s k) = waiting_threads k" "mutexes (client_gone s k) = mutexes k" "client_ports (client_gone s k) = client_ports k"
  "ipc_translations (client_gone s k) = ipc_translations k" "ses_client (ksessions (client_gone s k) s) = False" "kinv k \<Longrightarrow> kinv (client_gone s k)"
  "ses_server (ksessions (client_gone s k) x) = ses_server (ksessions k x)" "ses_port (ksessions (client_gone s k) x) = ses_port (ksessions k x)"
  "requests (ksessions (client_gone s k) x) = (if x = s then [] else requests (ksessions k x))"
  "ses_client (ksessions (client_gone s k) x) = (x \<noteq> s \<and> ses_client (ksessions k x))"
  by (auto simp: client_gone_def split: option.split)

lemma client_gone_inv:
  assumes "ipc_inv k" "port_inv k"
  shows "ipc_inv (client_gone s k)" "port_inv (client_gone s k)"
proof -
  show "ipc_inv (client_gone s k)"
    by (rule ipc_inv_subset [OF assms(1)]) (use ipc_invD(1) [OF assms(1)] in \<open>auto simp: client_gone_simps registered_def\<close>)
  show "port_inv (client_gone s k)" by (rule port_inv_cong [OF assms(2)]) (simp_all add: client_gone_simps)
qed

text \<open>
  What the threads learn that wait for the session: those in \<^verbatim>\<open>svcReplyAndReceive\<close> return \<^verbatim>\<open>ResultSessionClosed\<close> with the index of the session, and nobody who waits
  for the session alone sleeps on.
\<close>

lemma ClientSession_destroy_effect:
  assumes inv: "kinv k" "ipc_inv k" "port_inv k" and s: "kind k s = KServerSession" "ses_server (ksessions k s)" and r: "room k s"
  shows "\<exists>k'. ClientSession_destroy s k = Some k' \<and> kinv k' \<and> ipc_inv k' \<and> port_inv k' \<and> requests (ksessions k' s) = [] \<and>
    \<not> ses_client (ksessions k' s) \<and>
    (\<forall>u \<in> set (waiting_threads k s). status (threads k u) \<noteq> WaitSynchAll \<longrightarrow> status (threads k' u) = Ready \<and>
       (wakeup_callback (threads k u) = Some IpcCallback \<longrightarrow> ctx (threads k' u) 0 = ResultSessionClosed \<and>
          ctx (threads k' u) 1 = word_of_int (last_index (wait_objects (threads k u)) s))) \<and>
    (\<forall>u. u \<notin> set (waiting_threads k s) \<longrightarrow> status (threads k' u) = status (threads k u) \<and> ctx (threads k' u) = ctx (threads k u))"
proof -
  let ?g = "client_gone s k"
  have g: "kinv ?g" "room ?g s" "kind ?g s = KServerSession" "\<not> ses_client (ksessions ?g s)"
    using inv r s by (simp_all add: client_gone_simps)
  obtain ts k1 where run: "wake_run s ?g ts k1" "kinv k1" "ipc_kept ?g k1"
      "WakeupAllWaitingThreads s ?g = Some (if hle_notifier k1 s then k1\<lparr>hle_notified := hle_notified k1 @ [s]\<rparr> else k1)"
      "all_woken ts ?g k1" "\<forall>t \<in> set (waiting_threads k1 s). \<not> can_wake s k1 t"
    by (rule WakeupAll_run [OF g(1,2) disjI2 [OF g(3)]]) simp
  let ?k' = "if hle_notifier k1 s then k1\<lparr>hle_notified := hle_notified k1 @ [s]\<rparr> else k1"
  note R = closed_session_run [OF run(1) g, unfolded client_gone_simps]
  have K: "kind k1 s = KServerSession" "\<not> ses_client (ksessions k1 s)" "requests (ksessions k1 s) = []"
    using run(3) g(3,4) by (simp_all add: ipc_kept_def client_gone_simps)
  have all: "u \<in> set ts" if u: "u \<in> set (waiting_threads k s)" "status (threads k u) \<noteq> WaitSynchAll" for u
  proof (rule ccontr)
    assume no: "u \<notin> set ts"
    then have "u \<in> set (waiting_threads k1 s)" "status (threads k1 u) = status (threads k u)"
      using run(5) u by (simp_all add: all_woken_def client_gone_simps)
    then show False using run(6) u(2) ShouldWait_session [OF K(1)] K(2) by (auto simp: can_wake_def)
  qed
  have i: "ipc_inv k1" "port_inv k1"
    using ipc_kept_inv [OF run(3)] ipc_kept_port_inv [OF run(3)] client_gone_inv [OF inv(2,3)] by simp_all
  have "ipc_inv ?k'" using ipc_inv_cong [OF i(1), of ?k'] by simp
  moreover have "port_inv ?k'" using port_inv_cong [OF i(2), of ?k'] by simp
  moreover have "ClientSession_destroy s k = Some ?k'"
    using s(2) run(4) by (simp add: ClientSession_destroy_def client_gone_def Let_def)
  moreover have "kinv ?k'" using run(2) by simp
  moreover have "threads ?k' = threads k1" "ksessions ?k' = ksessions k1" by simp_all
  moreover have "u \<notin> set ts" if "u \<notin> set (waiting_threads k s)" for u using R that by auto
  ultimately show ?thesis using R all K by (intro exI [of _ ?k']) auto
qed

section \<open>Reachable states\<close>

lemma SendSyncRequest_inv:
  assumes inv: "kinv k" "ipc_inv k" "port_inv k" and s: "kind k s = KServerSession" "ses_client (ksessions k s)" "hle_handler (ksessions k s) = None"
    and t: "registered k t" "status (threads k t) = Running" "wait_objects (threads k t) = []" and r: "room k s"
  obtains k' where "SendSyncRequest request s t k = Some (if ses_server (ksessions k s) then ResultSuccess else ResultSessionClosed, k')"
    "kinv k'" "ipc_inv k'" "port_inv k'"
proof (cases "ses_server (ksessions k s)")
  case True
  let ?k = "requested s t k"
  have k: "kinv ?k" "ipc_inv ?k" "port_inv ?k" "room ?k s" "kind ?k s = KServerSession"
    using requested_kinv [OF inv(1) t(2,3)] requested_ipc_inv [OF inv(2) s(1,2) t] inv(3) r s(1) by (simp_all add: requested_simps)
  then obtain k' where k': "WakeupAllWaitingThreads s ?k = Some k'" "kinv k'" "ipc_kept ?k k'"
    using WakeupAll_ipc [of ?k s] by auto
  show thesis
    using that [of k'] True k'(1,2) ipc_kept_inv [OF k'(3) k(2)] ipc_kept_port_inv [OF k'(3) k(3)]
    by (simp add: SendSyncRequest_def HandleSyncRequest_requested [OF s(3) t(2)])
next
  case False
  then show thesis using that inv by (simp add: SendSyncRequest_def)
qed

text \<open>
  The operations on ports and sessions as steps of the kernel; \<open>calls k t\<close>: the thread \<open>t\<close> can issue a system call. Everything else that the kernel does is the
  step \<open>other\<close>: it keeps the invariant of the kernel, leaves ports and sessions alone except that a request may be taken up, and a thread
  whose request a session has waits on or is stopped.
\<close>

definition calls :: "kernel \<Rightarrow> nat \<Rightarrow> bool" where
  "calls k t \<longleftrightarrow> registered k t \<and> status (threads k t) = Running \<and> wait_objects (threads k t) = []"

definition leaves_ipc :: "kernel \<Rightarrow> kernel \<Rightarrow> bool" where
  "leaves_ipc k k' \<longleftrightarrow> client_ports k' = client_ports k \<and>
     (\<forall>s. (kind k' s = KServerSession \<longleftrightarrow> kind k s = KServerSession) \<and> ses_client (ksessions k' s) = ses_client (ksessions k s) \<and>
        ses_server (ksessions k' s) = ses_server (ksessions k s) \<and> ses_port (ksessions k' s) = ses_port (ksessions k s) \<and>
        requests (ksessions k' s) = requests (ksessions k s)) \<and>
     (\<forall>s c. kind k s = KServerSession \<and> c \<in> set (requests (ksessions k s)) \<longrightarrow>
        registered k' c \<and> status (threads k' c) \<in> {WaitIPC, Dead} \<and> wait_objects (threads k' c) = [])"

inductive ipc_step :: "kernel \<Rightarrow> kernel \<Rightarrow> bool" where
  port: "unused k sp \<Longrightarrow> open_sessions k cp = {} \<Longrightarrow> ipc_step k (CreatePortPair sp cp n k)"
| session: "unused k s \<Longrightarrow> ipc_step k (CreateSessionPair s None k)"
| connect: "unused k s \<Longrightarrow> kind k (cp_server_port (client_ports k cp)) = KServerPort \<Longrightarrow> room k (cp_server_port (client_ports k cp)) \<Longrightarrow>
    Connect s cp k = Some (r, out, k') \<Longrightarrow> ipc_step k k'"
| accept: "Accept sp k = (r, out, k') \<Longrightarrow> ipc_step k k'"
| request: "calls k t \<Longrightarrow> kind k s = KServerSession \<Longrightarrow> ses_client (ksessions k s) \<Longrightarrow> hle_handler (ksessions k s) = None \<Longrightarrow> room k s \<Longrightarrow>
    SendSyncRequest handler s t k = Some (r, k') \<Longrightarrow> ipc_step k k'"
| reply: "kind k s = KServerSession \<Longrightarrow> ses_server (ksessions k s) \<Longrightarrow> send_reply s t k = Some (ok, k') \<Longrightarrow> ipc_step k k'"
| receive: "calls k t \<Longrightarrow> \<forall>m. lock_count (mutexes k m) + 1 < 2 ^ 31 \<Longrightarrow> receive replied objs t k = Some (r, i, k') \<Longrightarrow> ipc_step k k'"
| close_client: "kind k s = KServerSession \<Longrightarrow> room k s \<Longrightarrow> ClientSession_destroy s k = Some k' \<Longrightarrow> ipc_step k k'"
| close_server: "kind k s = KServerSession \<Longrightarrow> ses_server (ksessions k s) \<Longrightarrow> ServerSession_destroy s k = Some k' \<Longrightarrow> ipc_step k k'"
| other: "leaves_ipc k k' \<Longrightarrow> kinv k' \<Longrightarrow> ipc_step k k'"

lemma leaves_ipc_inv:
  assumes "leaves_ipc k k'" "ipc_inv k" "port_inv k"
  shows "ipc_inv k' \<and> port_inv k'"
proof
  have k': "kind k' s = KServerSession \<longleftrightarrow> kind k s = KServerSession" "ses_client (ksessions k' s) = ses_client (ksessions k s)"
    "ses_server (ksessions k' s) = ses_server (ksessions k s)" "ses_port (ksessions k' s) = ses_port (ksessions k s)"
    "requests (ksessions k' s) = requests (ksessions k s)" "client_ports k' = client_ports k" for s
    using assms(1) by (simp_all add: leaves_ipc_def)
  show "port_inv k'" using assms(3) by (simp add: port_inv_def open_sessions_def k')
  have "\<forall>c \<in> set (requests (ksessions k s)). registered k' c \<and> status (threads k' c) \<in> {WaitIPC, Dead} \<and> wait_objects (threads k' c) = []"
    if "kind k s = KServerSession" for s
    using assms(1) that unfolding leaves_ipc_def by blast
  then show "ipc_inv k'" using assms(2) unfolding ipc_inv_def k' by blast
qed

lemma send_reply_inv:
  assumes inv: "kinv k" "ipc_inv k" "port_inv k" and s: "kind k s = KServerSession" "ses_server (ksessions k s)" and r: "send_reply s t k = Some (ok, k')"
  shows "kinv k' \<and> ipc_inv k' \<and> port_inv k'"
proof (cases "currently_handling (ksessions k s)")
  case None
  then have k': "k' = upd_session s (\<lambda>x. x\<lparr>currently_handling := None\<rparr>) k" using r by (simp add: send_reply_def)
  have "ipc_inv k'" by (rule ipc_inv_cong [OF inv(2)]) (use None in \<open>auto simp: k' requests_def\<close>)
  moreover have "port_inv k'" by (rule port_inv_cong [OF inv(3)]) (auto simp: k')
  ultimately show ?thesis using inv(1) by (simp add: k')
next
  case (Some c)
  from send_reply_effect [OF inv(1,2) s Some, of t] r
  have o: "kinv k'" "ipc_inv k'" "reply_outcome s t c k k'" "client_ports k' = client_ports k" by auto
  have "port_inv k'" by (rule port_inv_cong [OF inv(3)]) (use o(3,4) in \<open>auto simp: reply_outcome_def\<close>)
  then show ?thesis using o by simp
qed

lemma ClientSession_destroy_inv:
  assumes inv: "kinv k" "ipc_inv k" "port_inv k" and s: "kind k s = KServerSession" "room k s" "ClientSession_destroy s k = Some k'"
  shows "kinv k' \<and> ipc_inv k' \<and> port_inv k'"
proof (cases "ses_server (ksessions k s)")
  case True
  then show ?thesis using ClientSession_destroy_effect [OF inv s(1) True s(2)] s(3) by auto
next
  case False
  then have k': "k' = upd_session s (\<lambda>x. x\<lparr>ses_client := False\<rparr>) k" using s(3) by (simp add: ClientSession_destroy_def)
  have "ipc_inv k'" by (rule ipc_inv_subset [OF inv(2)]) (use ipc_invD(1) [OF inv(2)] False in \<open>auto simp: k' registered_def\<close>)
  moreover have "port_inv k'" by (rule port_inv_cong [OF inv(3)]) (auto simp: k')
  ultimately show ?thesis using inv(1) by (simp add: k')
qed

lemma receive_inv:
  assumes inv: "kinv k" "ipc_inv k" "port_inv k" and t: "calls k t" and b: "\<forall>m. lock_count (mutexes k m) + 1 < 2 ^ 31"
    and r: "receive replied objs t k = Some (r, i, k')"
  shows "kinv k' \<and> ipc_inv k' \<and> port_inv k' \<and> ipc_kept k k'"
proof -
  have "kinv k'" "ipc_kept k k'"
    using receive_effect [OF inv(1,2) _ _ _ b, of t replied objs] t r by (auto simp: calls_def)
  then show ?thesis using ipc_kept_inv [OF _ inv(2)] ipc_kept_port_inv [OF _ inv(3)] by blast
qed

lemma CreateSessionPair_port_inv:
  assumes "kinv k" "ipc_inv k" "port_inv k" "unused k s"
  shows "port_inv (CreateSessionPair s None k)"
  using assms(3) CreateSessionPair_inv(3) [OF assms(1,2,4), of None] by (simp add: port_inv_def) (simp add: CreateSessionPair_def)

lemma ipc_step_inv:
  assumes "ipc_step k k'" "kinv k" "ipc_inv k" "port_inv k"
  shows "kinv k' \<and> ipc_inv k' \<and> port_inv k'"
  using assms
proof (induction rule: ipc_step.induct)
  case (port k sp cp n)
  then show ?case by (intro CreatePortPair_inv)
next
  case (session k s)
  then show ?case using CreateSessionPair_inv(1,2) CreateSessionPair_port_inv by blast
next
  case (connect k s cp r out k')
  show ?case by (rule Connect_inv [OF connect.prems connect.hyps(1-3)]) (use connect in \<open>auto split: if_splits\<close>)
next
  case (accept sp k r out k')
  then show ?case by (intro Accept_inv)
next
  case (request k t s handler r k')
  then have c: "registered k t" "status (threads k t) = Running" "wait_objects (threads k t) = []" by (simp_all add: calls_def)
  show ?case by (rule SendSyncRequest_inv [OF request.prems request.hyps(2-4) c request.hyps(5), of handler]) (use request.hyps(6) in auto)
next
  case (close_server k s k')
  show ?case by (rule ServerSession_destroy_inv [OF close_server.prems close_server.hyps(1,2)]) (use close_server.hyps(3) in auto)
next
  case (reply k s t ok k')
  then show ?case by (intro send_reply_inv)
next
  case (receive k t replied objs r i k')
  then show ?case using receive_inv by blast
next
  case (close_client k s k')
  then show ?case by (intro ClientSession_destroy_inv)
next
  case (other k k')
  then show ?case using leaves_ipc_inv by blast
qed

lemma ipc_steps_inv:
  assumes "ipc_step\<^sup>*\<^sup>* k k'" "kinv k" "ipc_inv k" "port_inv k"
  shows "kinv k' \<and> ipc_inv k' \<and> port_inv k'"
  using assms by (induction rule: rtranclp_induct) (auto dest: ipc_step_inv)

lemma fresh_kernel_ipc: "kinv (fresh_kernel n)" "ipc_inv (fresh_kernel n)" "port_inv (fresh_kernel n)"
proof -
  show "kinv (fresh_kernel n)"
    using sched_inv_fresh [of n] by (simp add: kinv_def wait_inv_def mutex_inv_def registered_def) (simp add: fresh_kernel_def)
  show "ipc_inv (fresh_kernel n)" by (simp add: ipc_inv_def fresh_kernel_def)
  show "port_inv (fresh_kernel n)" by (simp add: port_inv_def open_sessions_def fresh_kernel_def)
qed


text \<open>
  Property (C13): the number of sessions of a port. In every reachable state \<^verbatim>\<open>active_sessions\<close> is the number of the sessions to the port whose server endpoint exists,
  and it is at most \<^verbatim>\<open>max_sessions\<close>. \<^verbatim>\<open>Connect\<close> opens a session when there are fewer and returns \<^verbatim>\<open>ResultMaxConnectionsReached\<close> without an effect
  otherwise, and the assertion of \<^verbatim>\<open>ConnectionClosed\<close> never fails when a server endpoint is destroyed.
\<close>

theorem port_capacity:
  assumes "ipc_step\<^sup>*\<^sup>* (fresh_kernel n) k"
  shows "card (open_sessions k cp) = active_sessions (client_ports k cp) \<and>
    card (open_sessions k cp) \<le> max_sessions (client_ports k cp) \<and>
    (unused k s \<and> kind k (cp_server_port (client_ports k cp)) = KServerPort \<and> room k (cp_server_port (client_ports k cp)) \<longrightarrow>
       (if card (open_sessions k cp) < max_sessions (client_ports k cp)
        then \<exists>k'. Connect s cp k = Some (ResultSuccess, Some s, k') \<and> card (open_sessions k' cp) = card (open_sessions k cp) + 1
        else Connect s cp k = Some (ResultMaxConnectionsReached, None, k))) \<and>
    (\<forall>x \<in> open_sessions k cp. \<exists>k'. ServerSession_destroy x k = Some k' \<and> card (open_sessions k' cp) = card (open_sessions k cp) - 1)"
proof (intro conjI impI ballI)
  have inv: "kinv k" "ipc_inv k" "port_inv k" using ipc_steps_inv [OF assms fresh_kernel_ipc] by simp_all
  note P = port_invD [OF inv(3), of cp]
  show "card (open_sessions k cp) = active_sessions (client_ports k cp)" "card (open_sessions k cp) \<le> max_sessions (client_ports k cp)"
    using P by simp_all
  show "if card (open_sessions k cp) < max_sessions (client_ports k cp)
        then \<exists>k'. Connect s cp k = Some (ResultSuccess, Some s, k') \<and> card (open_sessions k' cp) = card (open_sessions k cp) + 1
        else Connect s cp k = Some (ResultMaxConnectionsReached, None, k)"
    if "unused k s \<and> kind k (cp_server_port (client_ports k cp)) = KServerPort \<and> room k (cp_server_port (client_ports k cp))"
    by (rule Connect_inv [OF inv, of s cp]) (use that in auto)
  fix x assume x: "x \<in> open_sessions k cp"
  then have s: "kind k x = KServerSession" "ses_server (ksessions k x)" by (simp_all add: open_sessions_def)
  show "\<exists>k'. ServerSession_destroy x k = Some k' \<and> card (open_sessions k' cp) = card (open_sessions k cp) - 1"
    by (rule ServerSession_destroy_inv [OF inv s]) (use x in \<open>simp add: card_Diff_singleton\<close>)
qed

text \<open>A thread whose request lies at a session without a server endpoint.\<close>

definition stranded :: "nat \<Rightarrow> nat \<Rightarrow> kernel \<Rightarrow> bool" where
  "stranded s c k \<longleftrightarrow> kind k s = KServerSession \<and> \<not> ses_server (ksessions k s) \<and> c \<in> set (requests (ksessions k s))"

lemma stranded_kept: "stranded s c k \<Longrightarrow> ipc_kept k k' \<Longrightarrow> stranded s c k'"
  by (simp add: stranded_def ipc_kept_def)

lemma stranded_new: "stranded s c k \<Longrightarrow> unused k x \<Longrightarrow> x \<noteq> s"
  by (auto simp: stranded_def unused_def)

lemma stranded_connect:
  assumes inv: "kinv k" "ipc_inv k" "port_inv k" "stranded s c k" and x: "unused k x"
    and sp: "kind k (cp_server_port (client_ports k cp)) = KServerPort" "room k (cp_server_port (client_ports k cp))"
    and r: "Connect x cp k = Some (r, out, k')"
  shows "stranded s c k'"
proof (cases "active_sessions (client_ports k cp) < max_sessions (client_ports k cp)")
  case True
  let ?sp = "cp_server_port (client_ports k cp)"
  note c = connected_inv [OF inv(1-3) x True]
  have "?sp \<noteq> x" using x sp(1) by (auto simp: unused_def)
  then have "kind (connected x cp k) ?sp = KServerPort" "room (connected x cp k) ?sp" using sp by (simp_all add: c)
  then have "ipc_kept (connected x cp k) k'"
    using WakeupAll_ipc [OF c(1), of ?sp] r True by (auto simp: Connect_connected)
  moreover have "stranded s c (connected x cp k)"
    using inv(4) stranded_new [OF inv(4) x]
    by (auto simp: stranded_def connected_def Let_def ClientConnected_def set_pending_def CreateSessionPair_def split: option.splits)
  ultimately show ?thesis using stranded_kept by blast
next
  case False
  then show ?thesis using inv(4) r by (simp add: Connect_def)
qed

lemma stranded_request:
  assumes inv: "kinv k" "stranded s c k" and t: "calls k t" and x: "kind k x = KServerSession" "hle_handler (ksessions k x) = None" "room k x"
    and r: "SendSyncRequest handler x t k = Some (r, k')"
  shows "stranded s c k'"
proof (cases "ses_server (ksessions k x)")
  case True
  let ?k = "requested x t k"
  have st: "status (threads k t) = Running" "wait_objects (threads k t) = []" using t by (simp_all add: calls_def)
  have "kinv ?k" "room ?k x" "kind ?k x = KServerSession"
    using requested_kinv [OF inv(1) st] x by (simp_all add: requested_simps)
  then have "ipc_kept ?k k'"
    using WakeupAll_ipc [of ?k x] r True by (auto simp: SendSyncRequest_def HandleSyncRequest_requested [OF x(2) st(1)])
  moreover have "stranded s c ?k" using inv(2) True by (auto simp: stranded_def requested_def)
  ultimately show ?thesis using stranded_kept by blast
next
  case False
  then show ?thesis using inv(2) r by (simp add: SendSyncRequest_def)
qed

lemma stranded_reply:
  assumes inv: "kinv k" "ipc_inv k" "stranded s c k" and x: "kind k x = KServerSession" "ses_server (ksessions k x)"
    and r: "send_reply x t k = Some (ok, k')"
  shows "stranded s c k'"
proof -
  have ne: "x \<noteq> s" using inv(3) x by (auto simp: stranded_def)
  show ?thesis
  proof (cases "currently_handling (ksessions k x)")
    case None
    then have "k' = upd_session x (\<lambda>y. y\<lparr>currently_handling := None\<rparr>) k" using r by (simp add: send_reply_def)
    then show ?thesis using inv(3) ne by (auto simp: stranded_def)
  next
    case (Some d)
    then have "reply_outcome x t d k k'" using send_reply_effect [OF inv(1,2) x Some, of t] r by auto
    then show ?thesis using inv(3) ne by (simp add: stranded_def reply_outcome_def)
  qed
qed

lemma stranded_close_client:
  assumes inv: "kinv k" "stranded s c k" and x: "kind k x = KServerSession" "room k x" and r: "ClientSession_destroy x k = Some k'"
  shows "stranded s c k'"
proof (cases "ses_server (ksessions k x)")
  case True
  let ?g = "client_gone x k"
  have "kinv ?g" "room ?g x" "kind ?g x = KServerSession" using inv x by (simp_all add: client_gone_simps)
  then have "ipc_kept ?g k'"
    using WakeupAll_ipc [of ?g x] r True by (auto simp: ClientSession_destroy_def client_gone_def Let_def)
  moreover have "stranded s c ?g" using inv(2) True by (auto simp: stranded_def client_gone_simps)
  ultimately show ?thesis using stranded_kept by blast
next
  case False
  then have "k' = upd_session x (\<lambda>y. y\<lparr>ses_client := False\<rparr>) k" using r by (simp add: ClientSession_destroy_def)
  then show ?thesis using inv(2) by (auto simp: stranded_def)
qed

lemma stranded_step:
  assumes "ipc_step k k'" "kinv k" "ipc_inv k" "port_inv k" "stranded s c k"
  shows "stranded s c k'"
  using assms
proof (induction rule: ipc_step.induct)
  case (port k sp cp n)
  then show ?case using stranded_new [of s c k sp] by (auto simp: stranded_def CreatePortPair_def)
next
  case (session k x)
  then show ?case using stranded_new [of s c k x] by (auto simp: stranded_def CreateSessionPair_def)
next
  case (accept sp k r out k')
  then show ?case by (auto simp: stranded_def Accept_def set_pending_def split: if_splits)
next
  case (receive k t replied objs r i k')
  then show ?case using receive_inv stranded_kept by blast
next
  case (close_server k x k')
  then have "x \<noteq> s" by (auto simp: stranded_def)
  then show ?case using close_server
    by (auto simp: stranded_def ServerSession_destroy_def ConnectionClosed_def split: option.splits if_splits Option.bind_splits)
next
  case (other k k')
  then show ?case by (simp add: stranded_def leaves_ipc_def)
qed (blast intro: stranded_connect stranded_request stranded_reply stranded_close_client)+


text \<open>Signalling an event is an instance of the step \<open>other\<close>, also when it wakes threads that take up requests.\<close>

lemma ipc_kept_leaves: "ipc_inv k \<Longrightarrow> ipc_kept k k' \<Longrightarrow> leaves_ipc k k'"
  unfolding leaves_ipc_def ipc_kept_def using ipc_invD(3) [of k] by fastforce

lemma Event_Signal_step:
  assumes inv: "kinv k" "ipc_inv k" and e: "kind k e = KEvent" "room k e"
  shows "\<exists>k'. Event_Signal e k = Some k' \<and> ipc_step k k'"
proof -
  let ?k = "upd_event e (\<lambda>x. x\<lparr>ev_signaled := True\<rparr>) k"
  have k: "kinv ?k" "room ?k e" "ipc_kept k ?k"
    using e(2) kinv_cong [OF inv(1), of ?k] by (simp_all add: upd_event_def ipc_kept_def registered_def)
  obtain ts k1 where r: "wakeup_loop e ?k = Some k1" "wake_run e ?k ts k1" "kinv k1" using wakeup_loop_spec [OF k(1,2)] by blast
  have kept: "ipc_kept k k1" using ipc_kept_trans [OF k(3) wake_run_ipc_kept [OF r(2) k(1,2)]] .
  then have kd: "kind k1 e = KEvent" using e(1) by (simp add: ipc_kept_def)
  define k2 where "k2 = (if hle_notifier k1 e then k1\<lparr>hle_notified := hle_notified k1 @ [e]\<rparr> else k1)"
  have "Event_Signal e k = Some (event_pulse e k2)"
    using r(1) kd by (simp add: Event_Signal_def WakeupAllWaitingThreads_def k2_def del: event_pulse_def)
  moreover have "kinv (event_pulse e k2)" by (rule kinv_cong [OF r(3)]) (simp_all add: k2_def upd_event_def)
  moreover have "ipc_kept k (event_pulse e k2)" using kept by (simp add: k2_def upd_event_def ipc_kept_def registered_def)
  ultimately show ?thesis using ipc_step.other [OF ipc_kept_leaves [OF inv(2)]] by blast
qed

section \<open>System calls\<close>


lemma reply_then_receive:
  assumes inv: "kinv k" "ipc_inv k" and s: "kind k ss = KServerSession" "ses_server (ksessions k ss)" "currently_handling (ksessions k ss) = Some c"
    and t: "registered k t" "status (threads k t) = Running" "wait_objects (threads k t) = []" and bound: "\<forall>m. lock_count (mutexes k m) + 1 < 2 ^ 31"
  shows "\<exists>k1 r i k'. send_reply ss t k = Some (True, k1) \<and> receive True objs t k1 = Some (r, i, k') \<and> kinv k' \<and> ipc_inv k' \<and>
    reply_outcome ss t c k k1 \<and> receive_outcome True objs t k1 r i k'"
proof -
  obtain k1 where k1: "send_reply ss t k = Some (True, k1)" "kinv k1" "ipc_inv k1" "reply_outcome ss t c k k1" "mutexes k1 = mutexes k"
      "thread_list k1 = thread_list k"
    using send_reply_effect [OF inv s, of t] by blast
  have "c \<noteq> t" using ipc_invD(3) [OF inv(2) s(1) requests_handled [OF s(3)]] t(2) by auto
  then have "threads k1 t = threads k t" using k1(4) by (simp add: reply_outcome_def)
  then have t1: "registered k1 t" "status (threads k1 t) = Running" "wait_objects (threads k1 t) = []"
    using t k1(6) by (simp_all add: registered_def)
  obtain r i k' where rec: "receive True objs t k1 = Some (r, i, k')" "kinv k'" "ipc_kept k1 k'" "receive_outcome True objs t k1 r i k'"
    using receive_effect [OF k1(2,3) t1, of True objs] bound k1(5) by auto
  then show ?thesis using k1(1,4) ipc_kept_inv [OF rec(3) k1(3)] by blast
qed


text \<open>
  Property (C14): closing the last handle of a client session. The requests of the session are dropped; every thread that waits for the session, other than one that waits
  for several objects at once, is ready afterwards, and those in \<^verbatim>\<open>svcReplyAndReceive\<close> return \<^verbatim>\<open>ResultSessionClosed\<close> with the index of the
  session. No other thread changes, and the kernel, its sessions and its ports stay well formed.
\<close>

theorem client_close_wakes_servers:
  assumes inv: "kinv k" "ipc_inv k" "port_inv k" and k: "svc_kernel s = k"
    and h: "Close (svc_handles s) handle = Ok table ()" "objects (svc_handles s) ! unat (GetSlot handle) = Some (KO_ClientSession ss)"
    and last: "Some (KO_ClientSession ss) \<notin> set (objects table)" "\<not> elsewhere (KO_ClientSession ss)" "elsewhere (KO_Wait ss)"
    and ses: "kind k ss = KServerSession" "ses_server (ksessions k ss)" and r: "room k ss"
  shows "\<exists>k'. svc_CloseHandle elsewhere destroy handle s = Some (ResultSuccess, None, (on_kernel k' s)\<lparr>svc_handles := table\<rparr>) \<and>
    kinv k' \<and> ipc_inv k' \<and> port_inv k' \<and> requests (ksessions k' ss) = [] \<and> \<not> ses_client (ksessions k' ss) \<and>
    (\<forall>u \<in> set (waiting_threads k ss). status (threads k u) \<noteq> WaitSynchAll \<longrightarrow> status (threads k' u) = Ready \<and>
       (wakeup_callback (threads k u) = Some IpcCallback \<longrightarrow> ctx (threads k' u) 0 = ResultSessionClosed \<and>
          ctx (threads k' u) 1 = word_of_int (last_index (wait_objects (threads k u)) ss))) \<and>
    (\<forall>u. u \<notin> set (waiting_threads k ss) \<longrightarrow> status (threads k' u) = status (threads k u) \<and> ctx (threads k' u) = ctx (threads k u))"
proof -
  from ClientSession_destroy_effect [OF inv ses r] obtain k' where k': "ClientSession_destroy ss k = Some k'" and rest:
    "kinv k' \<and> ipc_inv k' \<and> port_inv k' \<and> requests (ksessions k' ss) = [] \<and> \<not> ses_client (ksessions k' ss) \<and>
     (\<forall>u \<in> set (waiting_threads k ss). status (threads k u) \<noteq> WaitSynchAll \<longrightarrow> status (threads k' u) = Ready \<and>
       (wakeup_callback (threads k u) = Some IpcCallback \<longrightarrow> ctx (threads k' u) 0 = ResultSessionClosed \<and>
          ctx (threads k' u) 1 = word_of_int (last_index (wait_objects (threads k u)) ss))) \<and>
     (\<forall>u. u \<notin> set (waiting_threads k ss) \<longrightarrow> status (threads k' u) = status (threads k u) \<and> ctx (threads k' u) = ctx (threads k u))"
    by blast
  have "drop_object elsewhere destroy (KO_ClientSession ss) (s\<lparr>svc_handles := table\<rparr>) = Some ((on_kernel k' s)\<lparr>svc_handles := table\<rparr>)"
    using last k k' by (simp add: drop_object_def drop_client_def drop_server_def ServerSession_referenced_def Let_def)
  then have "svc_CloseHandle elsewhere destroy handle s = Some (ResultSuccess, None, (on_kernel k' s)\<lparr>svc_handles := table\<rparr>)"
    using h by (simp add: svc_CloseHandle_def)
  then show ?thesis using rest by blast
qed

text \<open>
  Property (C39): a reply leaves a server asleep that could take up the next request. A thread replies without waiting for the session again while another request of
  the session is pending and another server thread waits for it. The call succeeds, and afterwards the session has a request to hand out that nobody
  handles, and the waiting thread, which could be woken, still sleeps.
\<close>

theorem reply_forgets_waiter:
  assumes inv: "kinv k" "ipc_inv k" and k: "svc_kernel s = k" "cur_thread s = t"
    and h: "Get_kind KServerSession s target = Some ss" "target \<noteq> 0" "header_command_id header \<noteq> 0xFFFF"
    and ses: "ses_server (ksessions k ss)" "currently_handling (ksessions k ss) = Some c" "pending_requesting_threads (ksessions k ss) \<noteq> []"
    and v: "v \<in> set (waiting_threads k ss)" "wakeup_callback (threads k v) = Some IpcCallback"
  shows "\<exists>k'. ReplyAndReceive True read 0 target header s = Some (ResultSuccess, Some 0, on_kernel k' s) \<and> reply_outcome ss t c k k' \<and>
    currently_handling (ksessions k' ss) = None \<and> pending_requesting_threads (ksessions k' ss) \<noteq> [] \<and>
    v \<in> set (waiting_threads k' ss) \<and> status (threads k' v) = WaitSynchAny \<and> can_wake ss k' v"
proof -
  have kd: "kind k ss = KServerSession" using h(1) k(1) by (auto simp: Get_kind_def split: option.splits if_splits)
  obtain k' where k': "send_reply ss t k = Some (True, k')" "reply_outcome ss t c k k'"
    using send_reply_effect [OF inv kd ses(1,2), of t] by blast
  have st: "status (threads k v) = WaitSynchAny" using wait_invD(7) [OF kinvD(2) [OF inv(1)] v(1)] v(2) by simp
  have "c \<noteq> v" using ipc_invD(3) [OF inv(2) kd requests_handled [OF ses(2)]] st by auto
  then have sv: "status (threads k' v) = WaitSynchAny" using k'(2) st by (simp add: reply_outcome_def)
  have s': "ksessions k' ss = (ksessions k ss)\<lparr>currently_handling := None\<rparr>" "kind k' ss = KServerSession" "waiting_threads k' = waiting_threads k"
    using k'(2) kd by (simp_all add: reply_outcome_def)
  have "can_wake ss k' v" using sv ShouldWait_session [OF s'(2)] s'(1) ses(3) by (simp add: can_wake_def)
  moreover have "ReplyAndReceive True read 0 target header s = Some (ResultSuccess, Some 0, on_kernel k' s)"
    using h k k'(1) by (simp add: ReplyAndReceive_def receive_def)
  ultimately show ?thesis using k'(2) s' v(1) sv ses(3) by auto
qed

section \<open>An example\<close>

text \<open>
  Thread 1 runs on core 0 and has the only handle of the client session 20; threads 2 and 3 wait for the session in \<^verbatim>\<open>svcReplyAndReceive\<close>.
\<close>

definition session_kernel :: kernel where
  "session_kernel =
     asleep_with WaitSynchAny [20] IpcCallback 3 (asleep_with WaitSynchAny [20] IpcCallback 2 (CreateSessionPair 20 None three_threads))"

definition client_kernel :: kernel where
  "client_kernel = (upd_thread 1 (\<lambda>x. x\<lparr>status := Running\<rparr>) session_kernel)\<lparr>current_thread := (current_thread session_kernel)(0 \<mapsto> 1)\<rparr>"

definition client_svc :: svc where
  "client_svc = sample_svc\<lparr>svc_kernel := client_kernel, svc_handles := left_behind HandleTable (Create HandleTable (KO_ClientSession 20))\<rparr>"

lemma sleeper_ipc:
  assumes "p \<le> ThreadPrioLowest"
  shows "ksessions (sleeper t p k) = ksessions k" "client_ports (sleeper t p k) = client_ports k"
    "port_handler (sleeper t p k) = port_handler k" "pending_sessions (sleeper t p k) = pending_sessions k"
  using assms by (simp_all add: sleeper_def CreateThread_def Let_def upd_queue_def upd_thread_def)

lemma three_threads_ipc:
  "ksessions three_threads = ksessions (fresh_kernel 2)" "client_ports three_threads = client_ports (fresh_kernel 2)"
  "port_handler three_threads = port_handler (fresh_kernel 2)" "pending_sessions three_threads = pending_sessions (fresh_kernel 2)"
  unfolding three_threads_def by (simp_all add: sleeper_ipc ThreadPrioLowest_def)

lemma three_threads_unused: "ob \<notin> {1, 2, 3} \<Longrightarrow> unused three_threads ob"
  by (simp add: unused_def three_threads_data [unfolded One_nat_def])

lemma asleep_with_single:
  "kind k ob \<noteq> KMutex \<Longrightarrow> asleep_with s [ob] cb t k =
     upd_thread t (\<lambda>x. x\<lparr>status := s, wait_objects := [ob], wakeup_callback := Some cb\<rparr>)
       (upd_waiting ob (\<lambda>ws. if t \<in> set ws then ws else ws @ [t]) k)"
  by (simp add: asleep_with_def AddWaitingThread_def)

lemma first_step: "ipc_step\<^sup>*\<^sup>* (fresh_kernel 2) three_threads"
  by (rule r_into_rtranclp, rule ipc_step.other [OF _ three_threads_inv])
    (simp add: leaves_ipc_def three_threads_data three_threads_ipc, simp add: fresh_kernel_def)

lemma three_threads_ipc_inv: "ipc_inv three_threads" "port_inv three_threads"
  using ipc_steps_inv [OF first_step fresh_kernel_ipc] by simp_all

lemma session_pair_data:
  fixes k :: kernel
  defines "k \<equiv> CreateSessionPair 20 None three_threads"
  shows "kinv k" "kind k 20 = KServerSession" "threads k = threads three_threads" "thread_list k = thread_list three_threads"
    "waiting_threads k = (\<lambda>_. [])" "mutexes k = mutexes (fresh_kernel 2)" "current_thread k = (\<lambda>_. None)"
    "ksessions k 20 = \<lparr>ses_client = True, ses_server = True, ses_port = None, hle_handler = None, pending_requesting_threads = [], currently_handling = None\<rparr>"
    "kind k = (kind three_threads)(20 := KServerSession)"
  unfolding k_def using CreateSessionPair_inv(1) [OF three_threads_inv three_threads_ipc_inv(1) three_threads_unused, of 20 None]
  by (auto simp: CreateSessionPair_def three_threads_data fun_eq_iff)

lemma session_kernel_inv: "kinv session_kernel"
proof -
  let ?k = "CreateSessionPair 20 None three_threads"
  let ?k1 = "asleep_with WaitSynchAny [20] IpcCallback 2 ?k"
  have 1: "kinv ?k1"
    by (rule asleep_with_inv(1) [OF session_pair_data(1)]) (simp_all add: session_pair_data three_threads_data registered_def)
  show ?thesis
    unfolding session_kernel_def
    by (rule asleep_with_inv(1) [OF 1])
      (simp_all add: asleep_with_single session_pair_data three_threads_data registered_def)
qed

lemma session_kernel_data:
  "thread_list session_kernel = thread_list three_threads" "current_thread session_kernel = (\<lambda>_. None)" "waiting_threads session_kernel 20 = [2, 3]"
  "kind session_kernel = (kind three_threads)(20 := KServerSession)" "mutexes session_kernel = mutexes (fresh_kernel 2)"
  "ksessions session_kernel = ksessions (CreateSessionPair 20 None three_threads)"
  "client_ports session_kernel = client_ports (CreateSessionPair 20 None three_threads)"
  "status (threads session_kernel 1) = Dormant" "wait_objects (threads session_kernel 1) = []" "core_id (threads session_kernel t) = 0"
  "wakeup_callback (threads session_kernel 2) = Some IpcCallback" "wakeup_callback (threads session_kernel 3) = Some IpcCallback"
  "current_priority (threads session_kernel 2) = 20" "current_priority (threads session_kernel 3) = 40"
  "wait_objects (threads session_kernel 2) = [20]"
  by (simp_all add: session_kernel_def asleep_with_single session_pair_data three_threads_data)

lemma client_kernel_inv: "kinv client_kernel"
  unfolding client_kernel_def
  by (rule run_inv [OF session_kernel_inv]) (simp_all add: session_kernel_data [unfolded One_nat_def] three_threads_data)

lemma client_kernel_data:
  "thread_list client_kernel = thread_list three_threads" "current_thread client_kernel 0 = Some 1" "waiting_threads client_kernel 20 = [2, 3]"
  "kind client_kernel = (kind three_threads)(20 := KServerSession)" "lock_count (mutexes client_kernel m) = 0"
  "ksessions client_kernel = ksessions (CreateSessionPair 20 None three_threads)"
  "client_ports client_kernel = client_ports (CreateSessionPair 20 None three_threads)"
  "status (threads client_kernel 1) = Running" "wait_objects (threads client_kernel 1) = []" "registered client_kernel t \<longleftrightarrow> t \<in> {1, 2, 3}"
  "wakeup_callback (threads client_kernel 2) = Some IpcCallback" "wakeup_callback (threads client_kernel 3) = Some IpcCallback"
  "current_priority (threads client_kernel 2) = 20" "current_priority (threads client_kernel 3) = 40"
  "wait_objects (threads client_kernel 2) = [20]"
  by (simp_all add: client_kernel_def session_kernel_data [unfolded One_nat_def] registered_def three_threads_data) (simp add: fresh_kernel_def)

lemma client_kernel_steps: "ipc_step\<^sup>*\<^sup>* (fresh_kernel 2) client_kernel"
proof -
  have "ipc_step three_threads (CreateSessionPair 20 None three_threads)"
    by (rule ipc_step.session [OF three_threads_unused]) simp
  moreover have "requests (ksessions (CreateSessionPair 20 None three_threads) s) = []" for s
    by (simp add: CreateSessionPair_def requests_def three_threads_ipc) (simp add: fresh_kernel_def)
  then have "leaves_ipc (CreateSessionPair 20 None three_threads) client_kernel"
    by (simp add: leaves_ipc_def client_kernel_data session_pair_data)
  then have "ipc_step (CreateSessionPair 20 None three_threads) client_kernel" by (rule ipc_step.other [OF _ client_kernel_inv])
  ultimately show ?thesis using first_step by (meson rtranclp.rtrancl_into_rtrancl)
qed

lemma client_kernel_ipc_inv: "ipc_inv client_kernel" "port_inv client_kernel"
  using ipc_steps_inv [OF client_kernel_steps fresh_kernel_ipc] by simp_all

lemma client_svc_data:
  "svc_kernel client_svc = client_kernel" "cur_thread client_svc = 1" "svc_Get client_svc 1 = Some (KO_ClientSession 20)"
  "Close (svc_handles client_svc) 1 = Ok (left_behind HandleTable (Close (svc_handles client_svc) 1)) ()"
  "objects (svc_handles client_svc) ! unat (GetSlot 1) = Some (KO_ClientSession 20)"
  "Some (KO_ClientSession 20) \<notin> set (objects (left_behind HandleTable (Close (svc_handles client_svc) 1)))"
proof -
  have ht: "next_free_slot (HandleTable :: kobject handle_table) = 0" "next_generation (HandleTable :: kobject handle_table) = 1"
    by (simp_all add: HandleTable_def Clear_def)
  note defs = client_svc_def HandleTable_def Clear_def Create_def Close_def Let_def IsValid_def GetSlot_def GetGeneration_def MAX_COUNT_def
  show "svc_kernel client_svc = client_kernel" "cur_thread client_svc = 1"
    by (simp_all add: client_svc_def cur_thread_def client_kernel_data sample_svc_def)
  show "svc_Get client_svc 1 = Some (KO_ClientSession 20)"
    using ht by (simp add: defs svc_Get_def GetGeneric_def CurrentThread_def CurrentProcess_def)
  show "Close (svc_handles client_svc) 1 = Ok (left_behind HandleTable (Close (svc_handles client_svc) 1)) ()"
    "objects (svc_handles client_svc) ! unat (GetSlot 1) = Some (KO_ClientSession 20)"
    "Some (KO_ClientSession 20) \<notin> set (objects (left_behind HandleTable (Close (svc_handles client_svc) 1)))"
    using ht by (auto simp: defs dest!: set_update_subset_insert [THEN subsetD])
qed


theorem client_close_wakes_servers_witness:
  "\<exists>k' table. svc_CloseHandle (\<lambda>ob. ob = KO_Wait 20) (\<lambda>ob. Some) 1 client_svc = Some (ResultSuccess, None, (on_kernel k' client_svc)\<lparr>svc_handles := table\<rparr>) \<and>
     status (threads k' 2) = Ready \<and> ctx (threads k' 2) 0 = ResultSessionClosed \<and> status (threads k' 3) = Ready \<and> status (threads k' 1) = Running"
proof -
  have "status (threads client_kernel u) \<noteq> WaitSynchAll" if "u \<in> {2, 3}" for u
    using wait_invD(7) [OF kinvD(2) [OF client_kernel_inv], of u 20] that by (auto simp: client_kernel_data)
  then show ?thesis
    using client_close_wakes_servers [OF client_kernel_inv client_kernel_ipc_inv client_svc_data(1,4-6), of "\<lambda>ob. ob = KO_Wait 20" "\<lambda>ob. Some"]
    by (auto simp: client_kernel_data session_pair_data simp del: One_nat_def)
qed


text \<open>A port for one session, and a connection to it.\<close>

lemma port_kernel_steps: "ipc_step\<^sup>*\<^sup>* (fresh_kernel 2) (CreatePortPair 21 30 1 three_threads)"
proof -
  have "open_sessions three_threads 30 = {}" by (auto simp: open_sessions_def three_threads_ipc) (simp add: fresh_kernel_def)
  then have "ipc_step three_threads (CreatePortPair 21 30 1 three_threads)" by (intro ipc_step.port three_threads_unused) simp_all
  then show ?thesis using first_step by simp
qed

theorem port_capacity_witness:
  "\<exists>k'. Connect 22 30 (CreatePortPair 21 30 1 three_threads) = Some (ResultSuccess, Some 22, k') \<and> card (open_sessions k' 30) = 1"
proof -
  let ?k = "CreatePortPair 21 30 1 three_threads"
  have p: "client_ports ?k 30 = \<lparr>cp_server_port = 21, max_sessions = 1, active_sessions = 0\<rparr>" "kind ?k 21 = KServerPort" "unused ?k 22" "room ?k 21"
    by (simp_all add: CreatePortPair_def unused_def three_threads_data fresh_kernel_def)
  then show ?thesis using port_capacity [OF port_kernel_steps, of 30 22] by auto
qed


text \<open>
  Thread 1 runs and has the handle of the server session 20, for which thread 4 waits; the request of thread 2 is being handled and that of thread 3 is pending.
\<close>

definition four_threads :: kernel where
  "four_threads = sleeper 4 50 three_threads"

definition reply_kernel :: kernel where
  "reply_kernel =
    (let k1 = asleep_with WaitSynchAny [20] IpcCallback 4 (CreateSessionPair 20 None four_threads);
         k2 = upd_thread 3 (\<lambda>x. x\<lparr>status := WaitIPC\<rparr>) (upd_thread 2 (\<lambda>x. x\<lparr>status := WaitIPC\<rparr>) k1);
         k3 = upd_session 20 (\<lambda>x. x\<lparr>pending_requesting_threads := [3], currently_handling := Some 2\<rparr>) k2
     in (upd_thread 1 (\<lambda>x. x\<lparr>status := Running\<rparr>) k3)\<lparr>current_thread := (current_thread k3)(0 \<mapsto> 1)\<rparr>)"

definition reply_svc :: svc where
  "reply_svc = sample_svc\<lparr>svc_kernel := reply_kernel, svc_handles := left_behind HandleTable (Create HandleTable (KO_Wait 20))\<rparr>"

lemma four_threads_data:
  "thread_list four_threads = (\<lambda>_. [])(0 := [1, 2, 3, 4])" "current_thread four_threads = (\<lambda>_. None)"
  "waiting_threads four_threads = (\<lambda>_. [])" "mutexes four_threads = mutexes (fresh_kernel 2)"
  "\<And>t. status (threads four_threads t) = Dormant" "\<And>t. wait_objects (threads four_threads t) = []"
  "\<And>t. held_mutexes (threads four_threads t) = []" "\<And>t. core_id (threads four_threads t) = 0"
  "\<And>t. nominal_priority (threads four_threads t) \<le> ThreadPrioLowest"
  "kind four_threads = (\<lambda>_. KEvent)(1 := KThread 1, 2 := KThread 2, 3 := KThread 3, 4 := KThread 4)"
  "ksessions four_threads = ksessions (fresh_kernel 2)"
proof -
  have p: "50 \<le> ThreadPrioLowest" by (simp add: ThreadPrioLowest_def)
  show "thread_list four_threads = (\<lambda>_. [])(0 := [1, 2, 3, 4])" "current_thread four_threads = (\<lambda>_. None)"
    "waiting_threads four_threads = (\<lambda>_. [])" "mutexes four_threads = mutexes (fresh_kernel 2)"
    "kind four_threads = (\<lambda>_. KEvent)(1 := KThread 1, 2 := KThread 2, 3 := KThread 3, 4 := KThread 4)"
    "ksessions four_threads = ksessions (fresh_kernel 2)"
    unfolding four_threads_def by (simp_all add: sleeper_frame [OF p] sleeper_ipc [OF p] three_threads_data three_threads_ipc fun_eq_iff)
  show "status (threads four_threads t) = Dormant" "wait_objects (threads four_threads t) = []"
    "held_mutexes (threads four_threads t) = []" "core_id (threads four_threads t) = 0"
    "nominal_priority (threads four_threads t) \<le> ThreadPrioLowest" for t
    unfolding four_threads_def using p
    by (cases "t = 4"; simp add: sleeper_frame [OF p] three_threads_data ThreadPrioLowest_def)+
qed

lemma four_threads_inv: "kinv four_threads"
proof -
  have "sched_inv four_threads"
    unfolding four_threads_def
    by (rule sleeper_inv [OF kinvD(1) [OF three_threads_inv]]) (simp_all add: three_threads_data ThreadPrioLowest_def)
  moreover have "wait_inv four_threads" by (simp add: wait_inv_def four_threads_data)
  moreover have "mutex_inv four_threads" by (simp add: mutex_inv_def four_threads_data fresh_kernel_def)
  ultimately show ?thesis by (simp add: kinv_def)
qed

lemma reply_kernel_data:
  "thread_list reply_kernel = thread_list four_threads" "current_thread reply_kernel 0 = Some 1" "waiting_threads reply_kernel 20 = [4]"
  "kind reply_kernel = (kind four_threads)(20 := KServerSession)" "lock_count (mutexes reply_kernel m) = 0"
  "ksessions reply_kernel 20 = \<lparr>ses_client = True, ses_server = True, ses_port = None, hle_handler = None, pending_requesting_threads = [3], currently_handling = Some 2\<rparr>"
  "status (threads reply_kernel 1) = Running" "wait_objects (threads reply_kernel 1) = []" "core_id (threads reply_kernel t) = 0"
  "status (threads reply_kernel 2) = WaitIPC" "status (threads reply_kernel 3) = WaitIPC"
  "wait_objects (threads reply_kernel 2) = []" "wait_objects (threads reply_kernel 3) = []"
  "wakeup_callback (threads reply_kernel 4) = Some IpcCallback"
  by (simp_all add: reply_kernel_def Let_def asleep_with_single CreateSessionPair_def four_threads_data [unfolded One_nat_def]) (simp add: fresh_kernel_def)

lemma reply_kernel_inv: "kinv reply_kernel" "ipc_inv reply_kernel"
proof -
  let ?k0 = "CreateSessionPair 20 None four_threads"
  let ?k1 = "asleep_with WaitSynchAny [20] IpcCallback 4 ?k0"
  have "kinv ?k0"
    by (rule fresh_object_inv [OF four_threads_inv, where ob = 20 and K = KServerSession]) (simp_all add: CreateSessionPair_def four_threads_data fun_eq_iff)
  then have "kinv ?k1"
    by (rule asleep_with_inv(1)) (simp_all add: CreateSessionPair_def four_threads_data registered_def)
  then have "kinv (upd_thread 2 (\<lambda>x. x\<lparr>status := WaitIPC\<rparr>) ?k1)"
    by (rule kinv_sleep) (simp_all add: asleep_with_single CreateSessionPair_def four_threads_data)
  then have "kinv (upd_thread 3 (\<lambda>x. x\<lparr>status := WaitIPC\<rparr>) (upd_thread 2 (\<lambda>x. x\<lparr>status := WaitIPC\<rparr>) ?k1))"
    by (rule kinv_sleep) (simp_all add: asleep_with_single CreateSessionPair_def four_threads_data)
  then show "kinv reply_kernel"
    unfolding reply_kernel_def Let_def
    by (intro run_inv kinv_ipc_simps(1)) (simp_all add: asleep_with_single CreateSessionPair_def four_threads_data [unfolded One_nat_def])
  show "ipc_inv reply_kernel"
    by (simp add: ipc_inv_def reply_kernel_data requests_def registered_def four_threads_data)
qed

lemma reply_svc_data:
  "svc_kernel reply_svc = reply_kernel" "cur_thread reply_svc = 1" "Get_WaitObject reply_svc 1 = Some 20" "Get_kind KServerSession reply_svc 1 = Some 20"
proof -
  show k: "svc_kernel reply_svc = reply_kernel" "cur_thread reply_svc = 1"
    by (simp_all add: reply_svc_def cur_thread_def reply_kernel_data sample_svc_def)
  have "next_free_slot (HandleTable :: kobject handle_table) = 0" "next_generation (HandleTable :: kobject handle_table) = 1"
    by (simp_all add: HandleTable_def Clear_def)
  then have "svc_Get reply_svc 1 = Some (KO_Wait 20)"
    by (simp add: reply_svc_def HandleTable_def Clear_def Create_def Let_def IsValid_def GetSlot_def GetGeneration_def MAX_COUNT_def
        svc_Get_def GetGeneric_def CurrentThread_def CurrentProcess_def)
  then show g: "Get_WaitObject reply_svc 1 = Some 20" by (simp add: Get_WaitObject_def)
  show "Get_kind KServerSession reply_svc 1 = Some 20" by (simp add: Get_kind_def g k(1) reply_kernel_data)
qed


theorem reply_forgets_waiter_witness:
  "\<exists>k'. ReplyAndReceive True (\<lambda>_. 1) 0 1 0 reply_svc = Some (ResultSuccess, Some 0, on_kernel k' reply_svc) \<and>
     pending_requesting_threads (ksessions k' 20) \<noteq> [] \<and> status (threads k' 4) = WaitSynchAny \<and> can_wake 20 k' 4"
proof -
  have id: "header_command_id 0 \<noteq> 0xFFFF" by (simp add: header_command_id_def ExtractValue_def)
  show ?thesis
    using reply_forgets_waiter [OF reply_kernel_inv reply_svc_data(1,2,4) _ id, of 2 4 "\<lambda>_. 1"] by (auto simp: reply_kernel_data simp del: One_nat_def)
qed

end
