(* ===== verification/File_Patches.thy ===== *)
theory File_Patches
  imports Emu_Prelude "HOL-Library.Monad_Syntax"
begin

unbundle bit_operations_syntax

text \<open>
  Patches of program code (\<^verbatim>\<open>src/core/file_sys/patch.cpp\<close>): the formats IPS and BPS. A file and a buffer are lists of bytes; \<open>None\<close> is an access outside of
  a buffer or the value of an empty \<^verbatim>\<open>optional\<close>, which the source does not check. A \<^verbatim>\<open>std::size_t\<close> is a natural where no sum can wrap around, because files
  are much smaller than \<open>2\<^sup>6\<^sup>4\<close> bytes and numbers are below \<open>2\<^sup>3\<^sup>2\<close>, and a 64-bit word where it can. The checksum (\<^verbatim>\<open>boost::crc_32_type\<close>) is an argument.

  Both formats are compared with what they mean: an IPS patch is a list of records that replace bytes, a BPS patch a list of commands that
  append bytes to the target.
\<close>

datatype ResultStatus = Success | ErrorPatches | ErrorPatchesInvalidTitle

section \<open>IPS\<close>

subsection \<open>Definitions\<close>

definition byte_at :: "u8 list \<Rightarrow> nat \<Rightarrow> nat option" where
  "byte_at xs i = (if i < length xs then Some (unat (xs ! i)) else None)"

definition range_at :: "u8 list \<Rightarrow> nat \<Rightarrow> nat \<Rightarrow> u8 list option" where
  "range_at xs i n = (if i + n \<le> length xs then Some (take n (drop i xs)) else None)"

text \<open>\<^verbatim>\<open>memcpy\<close>, or the loop of a record with one repeated byte.\<close>

definition put_at :: "nat \<Rightarrow> u8 list \<Rightarrow> u8 list \<Rightarrow> u8 list" where
  "put_at i bs buffer = take i buffer @ bs @ drop (i + length bs) buffer"

definition ips_EOF :: "u8 list" where "ips_EOF = [0x45, 0x4F, 0x46]"
definition ips_PATCH :: "u8 list" where "ips_PATCH = [0x50, 0x41, 0x54, 0x43, 0x48]"

text \<open>The loop; \<open>patch_length\<close> is the position of the last three bytes.\<close>

function ips_loop :: "u8 list \<Rightarrow> nat \<Rightarrow> nat \<Rightarrow> u8 list \<Rightarrow> (ResultStatus \<times> u8 list) option" where
  "ips_loop ips patch_length cursor buffer =
     (if \<not> cursor < patch_length then Some (Success, buffer)
      else do {
        eof_check \<leftarrow> range_at ips cursor 3;
        if eof_check = ips_EOF then Some (Success, buffer)
        else do {
          b0 \<leftarrow> byte_at ips cursor; b1 \<leftarrow> byte_at ips (cursor + 1); b2 \<leftarrow> byte_at ips (cursor + 2);
          b3 \<leftarrow> byte_at ips (cursor + 3); b4 \<leftarrow> byte_at ips (cursor + 4);
          let offset = b0 * 0x10000 + b1 * 0x100 + b2;
          let size = b3 * 0x100 + b4;
          if size = 0
          then do {
            b5 \<leftarrow> byte_at ips (cursor + 5); b6 \<leftarrow> byte_at ips (cursor + 6);
            let size = b5 * 0x100 + b6;
            if length buffer < offset + size then Some (ErrorPatches, buffer)
            else do {
              buffer1 \<leftarrow> (if size = 0 then Some buffer
                          else do { b7 \<leftarrow> byte_at ips (cursor + 7); Some (put_at offset (replicate size (of_nat b7)) buffer) });
              ips_loop ips patch_length (cursor + 8) buffer1 } }
          else if length buffer < offset + size then Some (ErrorPatches, buffer)
          else do {
            bs \<leftarrow> range_at ips (cursor + 5) size;
            ips_loop ips patch_length (cursor + (size + 5)) (put_at offset bs buffer) } } })"
  by pat_completeness auto
termination by (relation "measure (\<lambda>(ips, l, c, b). l - c)") auto

definition ApplyIpsPatch :: "u8 list \<Rightarrow> u8 list \<Rightarrow> (ResultStatus \<times> u8 list) option" where
  "ApplyIpsPatch ips buffer =
     do { ips_header \<leftarrow> range_at ips 0 5;
          if ips_header \<noteq> ips_PATCH then Some (ErrorPatches, buffer)
          else ips_loop ips (length ips - 3) 5 buffer }"

subsection \<open>What a patch means\<close>

datatype ips_record = IpsData nat "u8 list" | IpsRun nat nat u8

fun ips_bytes :: "ips_record \<Rightarrow> u8 list" where
  "ips_bytes (IpsData i bs) = bs"
| "ips_bytes (IpsRun i n b) = replicate n b"

fun ips_offset :: "ips_record \<Rightarrow> nat" where
  "ips_offset (IpsData i bs) = i"
| "ips_offset (IpsRun i n b) = i"

text \<open>The records are applied in their order until one reaches beyond the buffer.\<close>

fun apply_records :: "ips_record list \<Rightarrow> u8 list \<Rightarrow> ResultStatus \<times> u8 list" where
  "apply_records [] buffer = (Success, buffer)"
| "apply_records (r # rs) buffer =
     (if length buffer < ips_offset r + length (ips_bytes r) then (ErrorPatches, buffer)
      else apply_records rs (put_at (ips_offset r) (ips_bytes r) buffer))"

text \<open>Encoding; the offset that spells \<^verbatim>\<open>EOF\<close> has no encoding.\<close>

definition be :: "nat \<Rightarrow> nat \<Rightarrow> u8" where
  "be shift n = of_nat (n div 2 ^ shift)"

fun encode_record :: "ips_record \<Rightarrow> u8 list" where
  "encode_record (IpsData i bs) = [be 16 i, be 8 i, be 0 i, be 8 (length bs), be 0 (length bs)] @ bs"
| "encode_record (IpsRun i n b) = [be 16 i, be 8 i, be 0 i, 0, 0, be 8 n, be 0 n, b]"

definition encode_ips :: "ips_record list \<Rightarrow> u8 list" where
  "encode_ips rs = ips_PATCH @ concat (map encode_record rs) @ ips_EOF"

fun ips_record_ok :: "ips_record \<Rightarrow> bool" where
  "ips_record_ok (IpsData i bs) \<longleftrightarrow> i < 2 ^ 24 \<and> i \<noteq> 0x454F46 \<and> bs \<noteq> [] \<and> length bs < 2 ^ 16"
| "ips_record_ok (IpsRun i n b) \<longleftrightarrow> i < 2 ^ 24 \<and> i \<noteq> 0x454F46 \<and> n < 2 ^ 16"

subsection \<open>Proofs\<close>

lemma byte_at_append [simp]: "byte_at (xs @ ys) (length xs + i) = byte_at ys i" "byte_at (xs @ ys) (length xs) = byte_at ys 0"
  by (simp_all add: byte_at_def nth_append)

lemma range_at_append [simp]: "range_at (xs @ ys) (length xs + i) n = range_at ys i n" "range_at (xs @ ys) (length xs) n = range_at ys 0 n"
  by (simp_all add: range_at_def)

lemma byte_at_Cons [simp]: "byte_at (x # xs) 0 = Some (unat x)" "byte_at (x # xs) (Suc i) = byte_at xs i"
  "byte_at (x # xs) (numeral n) = byte_at xs (pred_numeral n)"
  by (simp_all add: byte_at_def numeral_eq_Suc)

lemma unat_be: "unat (be k n) = n div 2 ^ k mod 256"
  by (simp add: be_def unat_of_nat)

lemma be_value:
  "i < 2 ^ 24 \<Longrightarrow> unat (be 16 i) * 0x10000 + unat (be 8 i) * 0x100 + unat (be 0 i) = i"
  "n < 2 ^ 16 \<Longrightarrow> unat (be 8 n) * 0x100 + unat (be 0 n) = n"
proof -
  assume i: "i < 2 ^ 24"
  have "i div 2 ^ 16 = i div 256 div 256" by (simp add: div_mult2_eq [symmetric])
  then have "unat (be 16 i) = i div 256 div 256" "unat (be 8 i) = i div 256 mod 256" "unat (be 0 i) = i mod 256"
    using i by (simp_all add: unat_be)
  then show "unat (be 16 i) * 0x10000 + unat (be 8 i) * 0x100 + unat (be 0 i) = i"
    using div_mult_mod_eq [of "i div 256" 256] div_mult_mod_eq [of i 256] by linarith
qed (simp add: unat_be)

lemma be_EOF: "i < 2 ^ 24 \<Longrightarrow> [be 16 i, be 8 i, be 0 i] = ips_EOF \<longleftrightarrow> i = 0x454F46"
proof
  assume i: "i < 2 ^ 24" and "[be 16 i, be 8 i, be 0 i] = ips_EOF"
  then show "i = 0x454F46" using be_value(1) [OF i] by (simp add: ips_EOF_def)
qed (simp add: be_def ips_EOF_def)

declare ips_loop.simps [simp del]

lemma ips_loop_end:
  "ips_loop (pre @ ips_EOF) (length pre) (length pre) buffer = Some (Success, buffer)"
  by (subst ips_loop.simps) simp

text \<open>One record at the cursor.\<close>

lemma record_head:
  assumes "ips = pre @ be 16 i # be 8 i # be 0 i # x # y # xs" "i < 2 ^ 24"
  shows "range_at ips (length pre) 3 = Some [be 16 i, be 8 i, be 0 i]"
    "byte_at ips (length pre) = Some (unat (be 16 i))" "byte_at ips (length pre + 1) = Some (unat (be 8 i))"
    "byte_at ips (length pre + 2) = Some (unat (be 0 i))" "byte_at ips (length pre + 3) = Some (unat x)" "byte_at ips (length pre + 4) = Some (unat y)"
    "unat (be 16 i) * 0x10000 + unat (be 8 i) * 0x100 + unat (be 0 i) = i" "[be 16 i, be 8 i, be 0 i] = ips_EOF \<longleftrightarrow> i = 0x454F46"
  using be_value(1) [OF assms(2)] be_EOF [OF assms(2)] unfolding assms(1) byte_at_append range_at_append
  by (simp_all add: range_at_def numeral_3_eq_3)

lemma ips_loop_data:
  assumes ips: "ips = pre @ encode_record (IpsData i bs) @ rest" and ok: "ips_record_ok (IpsData i bs)" and l: "length pre < l"
  shows "ips_loop ips l (length pre) buffer =
    (if length buffer < i + length bs then Some (ErrorPatches, buffer)
     else ips_loop ips l (length pre + (length bs + 5)) (put_at i bs buffer))"
proof -
  have i: "i < 2 ^ 24" "i \<noteq> 0x454F46" "bs \<noteq> []" "length bs < 2 ^ 16" using ok by simp_all
  note h = record_head [OF ips [unfolded encode_record.simps append.simps] i(1)]
  have n: "unat (be 8 (length bs)) * 0x100 + unat (be 0 (length bs)) = length bs" using be_value(2) [OF i(4)] .
  have d: "range_at ips (length pre + 5) (length bs) = Some bs" unfolding ips range_at_append by (simp add: range_at_def)
  show ?thesis
    by (subst ips_loop.simps) (use l i(2,3) in \<open>simp only: h n d not_not if_False if_True bind.bind_lunit Let_def length_0_conv simp_thms\<close>)
qed


lemma ips_loop_rle:
  assumes ips: "ips = pre @ encode_record (IpsRun i n b) @ rest" and ok: "ips_record_ok (IpsRun i n b)" and l: "length pre < l"
  shows "ips_loop ips l (length pre) buffer =
    (if length buffer < i + n then Some (ErrorPatches, buffer)
     else ips_loop ips l (length pre + 8) (put_at i (replicate n b) buffer))"
proof -
  have i: "i < 2 ^ 24" "i \<noteq> 0x454F46" "n < 2 ^ 16" using ok by simp_all
  note h = record_head [OF ips [unfolded encode_record.simps append.simps] i(1)]
  have n: "unat (be 8 n) * 0x100 + unat (be 0 n) = n" using be_value(2) [OF i(3)] .
  have d: "byte_at ips (length pre + 5) = Some (unat (be 8 n))" "byte_at ips (length pre + 6) = Some (unat (be 0 n))"
      "byte_at ips (length pre + 7) = Some (unat b)"
    unfolding ips byte_at_append by simp_all
  have z: "unat (0 :: u8) * 0x100 + unat (0 :: u8) = 0" by simp
  have p: "put_at i [] buffer = buffer" by (simp add: put_at_def)
  have w: "(of_nat (unat b) :: u8) = b" by simp
  show ?thesis
  proof (cases "n = 0")
    case True
    then show ?thesis
      by (subst ips_loop.simps)
        (use l i(2) in \<open>simp only: h n [unfolded True] d [unfolded True] z p not_not if_False if_True bind.bind_lunit Let_def replicate_0 simp_thms\<close>)
  next
    case False
    then show ?thesis
      by (subst ips_loop.simps) (use l i(2) in \<open>simp only: h n d z w not_not if_False if_True if_cancel bind.bind_lunit Let_def simp_thms\<close>)
  qed
qed

lemma ips_loop_records:
  assumes "\<forall>r \<in> set rs. ips_record_ok r" "ips = pre @ concat (map encode_record rs) @ ips_EOF"
  shows "ips_loop ips (length ips - 3) (length pre) buffer = Some (apply_records rs buffer)"
  using assms
proof (induction rs arbitrary: pre buffer)
  case Nil
  then show ?case by (subst ips_loop.simps) (simp add: ips_EOF_def)
next
  case (Cons r rs)
  have ok: "ips_record_ok r" using Cons.prems(1) by simp
  have ips: "ips = pre @ encode_record r @ concat (map encode_record rs) @ ips_EOF" using Cons.prems(2) by simp
  have l: "length pre < length ips - 3" unfolding ips by (cases r) (simp_all add: ips_EOF_def)
  have IH: "ips_loop ips (length ips - 3) (length pre + length (encode_record r)) b = Some (apply_records rs b)" for b
    using Cons.IH [of "pre @ encode_record r" b] Cons.prems by simp
  show ?case
  proof (cases r)
    case (IpsData i bs)
    moreover have "length (encode_record (IpsData i bs)) = length bs + 5" by simp
    ultimately show ?thesis
      using ips_loop_data [OF ips [unfolded IpsData] ok [unfolded IpsData] l] IH by (simp del: encode_record.simps)
  next
    case (IpsRun i n b)
    moreover have "length (encode_record (IpsRun i n b)) = 8" by simp
    ultimately show ?thesis
      using ips_loop_rle [OF ips [unfolded IpsRun] ok [unfolded IpsRun] l] IH by (simp del: encode_record.simps)
  qed
qed

text \<open>
  Property (C0): an IPS patch does what its records say. Applying the encoding of a list of records to a buffer replaces the bytes of each record in turn; when a record
  reaches beyond the end of the buffer, the call stops with \<^verbatim>\<open>ErrorPatches\<close>, with the records before it applied.
\<close>

theorem ApplyIpsPatch_records:
  assumes "\<forall>r \<in> set rs. ips_record_ok r"
  shows "ApplyIpsPatch (encode_ips rs) buffer = Some (apply_records rs buffer)"
proof -
  have "range_at (encode_ips rs) 0 5 = Some ips_PATCH" by (simp add: encode_ips_def ips_PATCH_def range_at_def)
  moreover have "ips_loop (encode_ips rs) (length (encode_ips rs) - 3) (length ips_PATCH) buffer = Some (apply_records rs buffer)"
    by (rule ips_loop_records [OF assms]) (simp add: encode_ips_def)
  moreover have "length ips_PATCH = 5" by (simp add: ips_PATCH_def)
  ultimately show ?thesis by (simp add: ApplyIpsPatch_def)
qed

theorem ApplyIpsPatch_records_witness:
  "ApplyIpsPatch (encode_ips [IpsRun 1 2 7, IpsData 0 [9]]) [0, 0, 0, 0] = Some (Success, [9, 7, 7, 0])"
proof -
  have "\<forall>r \<in> set [IpsRun 1 2 7, IpsData 0 [9]]. ips_record_ok r" by simp
  from ApplyIpsPatch_records [OF this, of "[0, 0, 0, 0]"] show ?thesis by (simp add: put_at_def numeral_2_eq_2)
qed

text \<open>
  Property (C0): the end of a patch is not checked against the data of a record. A patch whose last record announces more bytes than follow, and which fits the buffer, makes
  the copy read behind the end of the patch.
\<close>

theorem ips_truncated_overruns:
  assumes "i < 2 ^ 24" "i \<noteq> 0x454F46" "n < 2 ^ 16" "length bs < n" "3 \<le> length bs" "i + n \<le> length buffer"
  shows "ApplyIpsPatch (ips_PATCH @ [be 16 i, be 8 i, be 0 i, be 8 n, be 0 n] @ bs) buffer = None"
proof -
  let ?ips = "ips_PATCH @ [be 16 i, be 8 i, be 0 i, be 8 n, be 0 n] @ bs"
  have "?ips = ips_PATCH @ be 16 i # be 8 i # be 0 i # be 8 n # be 0 n # bs" by simp
  note h = record_head [OF this assms(1)]
  have n: "unat (be 8 n) * 0x100 + unat (be 0 n) = n" using be_value(2) [OF assms(3)] .
  have l: "length ips_PATCH < length ?ips - 3" using assms(5) by (simp add: ips_PATCH_def)
  have d: "range_at ?ips (length ips_PATCH + 5) n = None" unfolding range_at_append using assms(4) by (simp add: range_at_def)
  have "n \<noteq> 0" "\<not> length buffer < i + n" using assms(4,6) by simp_all
  then have "ips_loop ?ips (length ?ips - 3) (length ips_PATCH) buffer = None"
    by (subst ips_loop.simps) (use l assms(2) in \<open>simp only: h n d not_not if_False if_True bind.bind_lunit bind.bind_lzero Let_def simp_thms\<close>)
  moreover have "range_at ?ips 0 5 = Some ips_PATCH" by (simp add: ips_PATCH_def range_at_def)
  moreover have "length ips_PATCH = 5" by (simp add: ips_PATCH_def)
  ultimately show ?thesis by (simp add: ApplyIpsPatch_def)
qed

theorem ips_truncated_overruns_witness:
  "ApplyIpsPatch (ips_PATCH @ [be 16 0, be 8 0, be 0 0, be 8 4, be 0 4] @ [1, 2, 3]) [0, 0, 0, 0, 0] = None"
  by (rule ips_truncated_overruns) simp_all

section \<open>BPS\<close>

subsection \<open>Definitions\<close>

text \<open>\<^verbatim>\<open>Bps::Stream\<close>: the bytes and the offset, which never exceeds their number.\<close>

record bps_stream =
  st_data :: "u8 list"
  st_offset :: nat

definition stream_Read :: "nat \<Rightarrow> bps_stream \<Rightarrow> (u8 list \<times> bps_stream) option" where
  "stream_Read n s =
     (if length (st_data s) < st_offset s + n then None
      else Some (take n (drop (st_offset s) (st_data s)), s\<lparr>st_offset := st_offset s + n\<rparr>))"

text \<open>\<open>CopyFrom self other n\<close>: both streams advance, or neither and the result is \<^verbatim>\<open>false\<close>.\<close>

definition stream_CopyFrom :: "bps_stream \<Rightarrow> bps_stream \<Rightarrow> nat \<Rightarrow> bool \<times> bps_stream \<times> bps_stream" where
  "stream_CopyFrom self other n =
     (if length (st_data self) < st_offset self + n then (False, self, other)
      else case stream_Read n other of
        None \<Rightarrow> (False, self, other)
      | Some (bs, other') \<Rightarrow>
          (True, self\<lparr>st_data := put_at (st_offset self) bs (st_data self), st_offset := st_offset self + n\<rparr>, other'))"

definition stream_Seek :: "nat \<Rightarrow> bps_stream \<Rightarrow> bool \<times> bps_stream" where
  "stream_Seek offset s = (if length (st_data s) < offset then (False, s) else (True, s\<lparr>st_offset := offset\<rparr>))"

function ReadNumber_loop :: "u32 \<Rightarrow> u32 \<Rightarrow> bps_stream \<Rightarrow> u32 \<times> bps_stream" where
  "ReadNumber_loop data shift s =
     (if length (st_data s) < st_offset s + 1 then (data, s)
      else let x = st_data s ! st_offset s;
               s1 = s\<lparr>st_offset := st_offset s + 1\<rparr>;
               data1 = data + ucast (x AND 0x7F) * shift
           in if x AND 0x80 \<noteq> 0 then (data1, s1)
              else let shift1 = push_bit 7 shift in ReadNumber_loop (data1 + shift1) shift1 s1)"
  by pat_completeness auto
termination by (relation "measure (\<lambda>(d, h, s). length (st_data s) - st_offset s)") auto

definition ReadNumber :: "bps_stream \<Rightarrow> u32 \<times> bps_stream" where
  "ReadNumber s = ReadNumber_loop 0 1 s"

text \<open>\<^verbatim>\<open>Bps::PatchApplier\<close>. The relative offsets are \<^verbatim>\<open>std::size_t\<close> and wrap around.\<close>

record PatchApplier =
  m_source_relative_offset :: u64
  m_target_relative_offset :: u64
  m_source :: bps_stream
  m_target :: bps_stream
  m_patch :: bps_stream

definition SourceRead :: "nat \<Rightarrow> PatchApplier \<Rightarrow> bool \<times> PatchApplier" where
  "SourceRead n a =
     (let (ok, source) = stream_Seek (st_offset (m_target a)) (m_source a)
      in if \<not> ok then (False, a)
         else let (ok, target, source) = stream_CopyFrom (m_target a) source n
              in (ok, a\<lparr>m_source := source, m_target := target\<rparr>))"

definition TargetRead :: "nat \<Rightarrow> PatchApplier \<Rightarrow> bool \<times> PatchApplier" where
  "TargetRead n a =
     (let (ok, target, patch) = stream_CopyFrom (m_target a) (m_patch a) n
      in (ok, a\<lparr>m_target := target, m_patch := patch\<rparr>))"

text \<open>\<^verbatim>\<open>(data & 1 ? -1 : +1) * int(data >> 1)\<close>, added to a \<^verbatim>\<open>std::size_t\<close>.\<close>

definition relative_step :: "u32 \<Rightarrow> u64" where
  "relative_step data = (if data AND 1 \<noteq> 0 then - ucast (drop_bit 1 data) else ucast (drop_bit 1 data))"

definition SourceCopy :: "nat \<Rightarrow> PatchApplier \<Rightarrow> bool \<times> PatchApplier" where
  "SourceCopy n a =
     (let (data, patch) = ReadNumber (m_patch a);
          rel = m_source_relative_offset a + relative_step data;
          a = a\<lparr>m_patch := patch, m_source_relative_offset := rel\<rparr>;
          (ok, source) = stream_Seek (unat rel) (m_source a)
      in if \<not> ok then (False, a)
         else let (ok, target, source) = stream_CopyFrom (m_target a) source n;
                  a = a\<lparr>m_source := source, m_target := target\<rparr>
              in if \<not> ok then (False, a) else (True, a\<lparr>m_source_relative_offset := rel + of_nat n\<rparr>))"

text \<open>The byte by byte copy inside of the target: the position written, the position read and the number of bytes left. It fails at a position outside of the buffer.\<close>

fun copy_bytes :: "nat \<Rightarrow> u64 \<Rightarrow> nat \<Rightarrow> u8 list \<Rightarrow> u8 list option" where
  "copy_bytes w r 0 xs = Some xs"
| "copy_bytes w r (Suc n) xs =
     (if w < length xs \<and> unat r < length xs then copy_bytes (w + 1) (r + 1) n (xs[w := xs ! unat r]) else None)"

definition TargetCopy :: "nat \<Rightarrow> PatchApplier \<Rightarrow> (bool \<times> PatchApplier) option" where
  "TargetCopy n a =
     (let (data, patch) = ReadNumber (m_patch a);
          rel = m_target_relative_offset a + relative_step data;
          a = a\<lparr>m_patch := patch, m_target_relative_offset := rel\<rparr>;
          t = m_target a
      in if length (st_data t) < st_offset t + n then Some (False, a)
         else if length (st_data t) < unat (rel + of_nat n) then Some (False, a)
         else do {
           bytes \<leftarrow> copy_bytes (st_offset t) rel n (st_data t);
           Some (True, a\<lparr>m_target_relative_offset := rel + of_nat n,
                         m_target := snd (stream_Seek (st_offset t + n) (t\<lparr>st_data := bytes\<rparr>))\<rparr>) })"

definition HandleCommand :: "PatchApplier \<Rightarrow> (bool \<times> PatchApplier) option" where
  "HandleCommand a =
     (let (data, patch) = ReadNumber (m_patch a);
          a = a\<lparr>m_patch := patch\<rparr>;
          command = data AND 3;
          n = unat (drop_bit 2 data + 1)
      in if command = 0 then Some (SourceRead n a)
         else if command = 1 then Some (TargetRead n a)
         else if command = 2 then Some (SourceCopy n a)
         else if command = 3 then TargetCopy n a
         else Some (False, a))"

text \<open>Every successful command advances the target, whose size is fixed: this is what ends the loop over the commands.\<close>

lemma put_at_length [simp]: "i + length bs \<le> length xs \<Longrightarrow> length (put_at i bs xs) = length xs"
  by (simp add: put_at_def)

lemma copy_bytes_length: "copy_bytes w r n xs = Some ys \<Longrightarrow> length ys = length xs"
  by (induction w r n xs rule: copy_bytes.induct) (auto split: if_splits)

lemma stream_CopyFrom_advances:
  "stream_CopyFrom self other n = (True, self', other') \<Longrightarrow>
     length (st_data self') = length (st_data self) \<and> st_offset self' = st_offset self + n \<and> st_offset self' \<le> length (st_data self')"
  by (auto simp: stream_CopyFrom_def stream_Read_def split: if_splits option.splits)

definition advances :: "nat \<Rightarrow> PatchApplier \<Rightarrow> PatchApplier \<Rightarrow> bool" where
  "advances n a b \<longleftrightarrow> length (st_data (m_target b)) = length (st_data (m_target a)) \<and>
     st_offset (m_target b) = st_offset (m_target a) + n \<and> st_offset (m_target b) \<le> length (st_data (m_target b))"

lemma commands_advance:
  "SourceRead n a = (True, b) \<Longrightarrow> advances n a b"
  "TargetRead n a = (True, b) \<Longrightarrow> advances n a b"
  "SourceCopy n a = (True, b) \<Longrightarrow> advances n a b"
  "TargetCopy n a = Some (True, b) \<Longrightarrow> advances n a b"
  by (auto simp: SourceRead_def TargetRead_def SourceCopy_def TargetCopy_def Let_def advances_def stream_Seek_def bind_eq_Some_conv copy_bytes_length
      dest: stream_CopyFrom_advances split: prod.splits if_splits)

lemma command_length_pos: "0 < unat (drop_bit 2 (data :: u32) + 1)"
proof -
  have "unat (drop_bit 2 data) < 2 ^ 30" using unsigned_less [of data, where 'a = nat] by (simp add: drop_bit_eq_div unat_div)
  then show ?thesis by (simp add: unat_word_ariths)
qed

lemma HandleCommand_advances:
  assumes "HandleCommand a = Some (True, b)"
  obtains n where "0 < n" "advances n a b"
proof -
  obtain data patch where r: "ReadNumber (m_patch a) = (data, patch)" by fastforce
  let ?n = "unat (drop_bit 2 data + 1)"
  have "advances ?n (a\<lparr>m_patch := patch\<rparr>) b"
    using assms by (auto simp: HandleCommand_def r Let_def split: if_splits intro: commands_advance)
  then have "advances ?n a b" by (simp add: advances_def)
  with command_length_pos show thesis by (rule that)
qed

function apply_commands :: "nat \<Rightarrow> PatchApplier \<Rightarrow> (bool \<times> PatchApplier) option" where
  "apply_commands command_end_offset a =
     (if \<not> st_offset (m_patch a) < command_end_offset then Some (True, a)
      else case HandleCommand a of
        None \<Rightarrow> None
      | Some (ok, b) \<Rightarrow> if ok then apply_commands command_end_offset b else Some (False, b))"
  by pat_completeness auto
termination
proof (relation "measure (\<lambda>(e, a). length (st_data (m_target a)) - st_offset (m_target a))")
  fix e a p ok b
  assume "HandleCommand a = Some p" "(ok, b) = p" ok
  then have "HandleCommand a = Some (True, b)" by auto
  then show "((e, b), (e, a)) \<in> measure (\<lambda>(e, a). length (st_data (m_target a)) - st_offset (m_target a))"
    by (rule HandleCommand_advances) (auto simp: advances_def)
qed simp

text \<open>\<^verbatim>\<open>*m_patch.Read<u32>()\<close>: four bytes, the least significant first.\<close>

definition read_u32 :: "bps_stream \<Rightarrow> (u32 \<times> bps_stream) option" where
  "read_u32 s =
     do { (bs, s1) \<leftarrow> stream_Read 4 s;
          Some (ucast (bs ! 0) OR push_bit 8 (ucast (bs ! 1)) OR push_bit 16 (ucast (bs ! 2)) OR push_bit 24 (ucast (bs ! 3)), s1) }"

definition bps_magic :: "u8 list" where "bps_magic = [0x42, 0x50, 0x53, 0x31]"

text \<open>The argument \<open>crc32\<close> is the checksum. The result is the status and the bytes of the target.\<close>

definition PatchApplier_Apply :: "(u8 list \<Rightarrow> u32) \<Rightarrow> PatchApplier \<Rightarrow> (ResultStatus \<times> u8 list) option" where
  "PatchApplier_Apply crc32 a =
     do { (magic, patch) \<leftarrow> stream_Read 4 (m_patch a);
          if magic \<noteq> bps_magic then Some (ErrorPatches, st_data (m_target a))
          else let (source_size, patch) = ReadNumber patch;
                   (target_size, patch) = ReadNumber patch;
                   (metadata_size, patch) = ReadNumber patch
          in if length (st_data (m_source a)) < unat source_size \<or> length (st_data (m_target a)) < unat target_size \<or> metadata_size \<noteq> 0
             then Some (ErrorPatches, st_data (m_target a))
          else let command_start_offset = st_offset patch;
                   command_end_offset = unat (of_nat (length (st_data patch)) - 12 :: u64);
                   patch = snd (stream_Seek command_end_offset patch)
          in do {
            (source_crc32, patch) \<leftarrow> read_u32 patch;
            (target_crc32, patch) \<leftarrow> read_u32 patch;
            let patch = snd (stream_Seek command_start_offset patch);
            if crc32 (take (unat source_size) (st_data (m_source a))) \<noteq> source_crc32
            then Some (ErrorPatchesInvalidTitle, st_data (m_target a))
            else do {
              (ok, b) \<leftarrow> apply_commands command_end_offset
                 (a\<lparr>m_patch := patch, m_target := (m_target a)\<lparr>st_data := replicate (length (st_data (m_target a))) 0\<rparr>\<rparr>);
              if \<not> ok then Some (ErrorPatches, st_data (m_target b))
              else if crc32 (take (unat target_size) (st_data (m_target b))) \<noteq> target_crc32
              then Some (ErrorPatches, st_data (m_target b))
              else Some (Success, st_data (m_target b)) } } }"

text \<open>\<^verbatim>\<open>std::vector::resize\<close>: cut off, or filled up with zeros.\<close>

definition vector_resize :: "nat \<Rightarrow> u8 list \<Rightarrow> u8 list" where
  "vector_resize n xs = take n xs @ replicate (n - length xs) 0"

definition ApplyBpsPatch :: "(u8 list \<Rightarrow> u32) \<Rightarrow> u8 list \<Rightarrow> u8 list \<Rightarrow> (ResultStatus \<times> u8 list) option" where
  "ApplyBpsPatch crc32 patch buffer =
     (let patch_stream = snd (stream_Seek 4 \<lparr>st_data = patch, st_offset = 0\<rparr>);
          (source_size, patch_stream) = ReadNumber patch_stream;
          (target_size, patch_stream) = ReadNumber patch_stream;
          buffer = (if source_size < target_size then vector_resize (unat target_size) buffer else buffer);
          patch_stream = snd (stream_Seek 0 patch_stream)
      in PatchApplier_Apply crc32
           \<lparr>m_source_relative_offset = 0, m_target_relative_offset = 0,
            m_source = \<lparr>st_data = buffer, st_offset = 0\<rparr>, m_target = \<lparr>st_data = buffer, st_offset = 0\<rparr>, m_patch = patch_stream\<rparr>)"

subsection \<open>What a patch means\<close>

text \<open>The commands of the format on lists: what has been written so far, and the two positions that copies are relative to. A copy from the target may run into the bytes
  it writes, which repeats them.\<close>

datatype bps_command = SrcRead nat | TgtRead "u8 list" | SrcCopy int nat | TgtCopy int nat

record bps_state =
  bps_out :: "u8 list"
  bps_src :: nat
  bps_tgt :: nat

fun repeat_from :: "nat \<Rightarrow> nat \<Rightarrow> u8 list \<Rightarrow> u8 list" where
  "repeat_from t 0 out = out"
| "repeat_from t (Suc n) out = repeat_from (t + 1) n (out @ [out ! t])"

fun run_command :: "u8 list \<Rightarrow> bps_command \<Rightarrow> bps_state \<Rightarrow> bps_state option" where
  "run_command source (SrcRead n) s =
     (if length (bps_out s) + n \<le> length source then Some (s\<lparr>bps_out := bps_out s @ take n (drop (length (bps_out s)) source)\<rparr>) else None)"
| "run_command source (TgtRead bs) s = Some (s\<lparr>bps_out := bps_out s @ bs\<rparr>)"
| "run_command source (SrcCopy d n) s =
     (let p = int (bps_src s) + d
      in if 0 \<le> p \<and> nat p + n \<le> length source
         then Some (s\<lparr>bps_out := bps_out s @ take n (drop (nat p) source), bps_src := nat p + n\<rparr>) else None)"
| "run_command source (TgtCopy d n) s =
     (let p = int (bps_tgt s) + d
      in if 0 \<le> p \<and> nat p < length (bps_out s)
         then Some (s\<lparr>bps_out := repeat_from (nat p) n (bps_out s), bps_tgt := nat p + n\<rparr>) else None)"

fun run_commands :: "u8 list \<Rightarrow> bps_command list \<Rightarrow> bps_state \<Rightarrow> bps_state option" where
  "run_commands source [] s = Some s"
| "run_commands source (c # cs) s = do { s1 \<leftarrow> run_command source c s; run_commands source cs s1 }"

definition bps_meaning :: "u8 list \<Rightarrow> bps_command list \<Rightarrow> u8 list option" where
  "bps_meaning source cs = map_option bps_out (run_commands source cs \<lparr>bps_out = [], bps_src = 0, bps_tgt = 0\<rparr>)"

text \<open>The encoding. A number is written in groups of seven bits, the last one marked.\<close>

fun encode_number :: "nat \<Rightarrow> u8 list" where
  "encode_number n = (if n < 128 then [of_nat (n + 128)] else of_nat (n mod 128) # encode_number (n div 128 - 1))"

definition step_code :: "int \<Rightarrow> nat" where
  "step_code d = 2 * nat \<bar>d\<bar> + (if d < 0 then 1 else 0)"

definition encode_step :: "int \<Rightarrow> u8 list" where
  "encode_step d = encode_number (step_code d)"

definition encode_head :: "nat \<Rightarrow> nat \<Rightarrow> u8 list" where
  "encode_head k n = encode_number (4 * (n - 1) + k)"

fun encode_command :: "bps_command \<Rightarrow> u8 list" where
  "encode_command (SrcRead n) = encode_head 0 n"
| "encode_command (TgtRead bs) = encode_head 1 (length bs) @ bs"
| "encode_command (SrcCopy d n) = encode_head 2 n @ encode_step d"
| "encode_command (TgtCopy d n) = encode_head 3 n @ encode_step d"

definition le32 :: "u32 \<Rightarrow> u8 list" where
  "le32 w = [ucast w, ucast (drop_bit 8 w), ucast (drop_bit 16 w), ucast (drop_bit 24 w)]"

definition encode_bps :: "(u8 list \<Rightarrow> u32) \<Rightarrow> u8 list \<Rightarrow> u8 list \<Rightarrow> bps_command list \<Rightarrow> u32 \<Rightarrow> u8 list" where
  "encode_bps crc32 source target cs patch_crc =
     bps_magic @ encode_number (length source) @ encode_number (length target) @ encode_number 0 @ concat (map encode_command cs) @
     le32 (crc32 source) @ le32 (crc32 target) @ le32 patch_crc"

text \<open>What can be written: a positive length of at most \<open>2\<^sup>3\<^sup>0\<close> and a step of fewer than 32 bits.\<close>

definition length_ok :: "nat \<Rightarrow> bool" where "length_ok n \<longleftrightarrow> 0 < n \<and> n \<le> 2 ^ 30"

fun command_ok :: "bps_command \<Rightarrow> bool" where
  "command_ok (SrcRead n) \<longleftrightarrow> length_ok n"
| "command_ok (TgtRead bs) \<longleftrightarrow> length_ok (length bs)"
| "command_ok (SrcCopy d n) \<longleftrightarrow> length_ok n \<and> \<bar>d\<bar> < 2 ^ 31"
| "command_ok (TgtCopy d n) \<longleftrightarrow> length_ok n \<and> \<bar>d\<bar> < 2 ^ 31"

subsection \<open>Numbers\<close>

declare ReadNumber_loop.simps [simp del] encode_number.simps [simp del]

lemma byte_parts:
  "(x :: u8) AND 0x7F = take_bit 7 x" "(x :: u8) AND 0x80 \<noteq> 0 \<longleftrightarrow> bit x 7"
proof -
  show "x AND 0x7F = take_bit 7 x" by (simp add: take_bit_eq_mask mask_eq_exp_minus_1)
  show "x AND 0x80 \<noteq> 0 \<longleftrightarrow> bit x 7" using bit_iff_and_push_bit_not_eq_0 [of x 7] by (simp add: push_bit_eq_mult)
qed

lemma byte_of_nat: "(of_nat m :: u8) AND 0x7F = of_nat (m mod 128)" "(of_nat m :: u8) AND 0x80 \<noteq> 0 \<longleftrightarrow> odd (m div 128)"
  by (simp_all add: byte_parts take_bit_of_nat take_bit_eq_mod [where 'a = nat] bit_of_nat_iff bit_iff_odd [where 'a = nat])

lemma marked_byte: "n < 128 \<Longrightarrow> (of_nat (n + 128) :: u8) AND 0x7F = of_nat n \<and> (of_nat (n + 128) :: u8) AND 0x80 \<noteq> 0"
proof -
  assume "n < 128"
  then have "(n + 128) div 128 = 1" "(n + 128) mod 128 = n" by simp_all
  then show ?thesis using byte_of_nat [of "n + 128"] by (simp del: of_nat_add)
qed

lemma unmarked_byte: "n < 128 \<Longrightarrow> (of_nat n :: u8) AND 0x7F = of_nat n \<and> (of_nat n :: u8) AND 0x80 = 0"
  using byte_of_nat [of n] by simp

lemma ucast_small: "n < 128 \<Longrightarrow> (ucast (of_nat n :: u8) :: u32) = of_nat n"
  by (simp add: unsigned_of_nat take_bit_nat_eq_self)

text \<open>The loop of \<^verbatim>\<open>ReadNumber\<close> inverts the encoding, whatever has been added up.\<close>

lemma ReadNumber_loop_encode:
  "ReadNumber_loop d h \<lparr>st_data = pre @ encode_number n @ rest, st_offset = length pre\<rparr> =
   (d + of_nat n * h, \<lparr>st_data = pre @ encode_number n @ rest, st_offset = length pre + length (encode_number n)\<rparr>)"
proof (induction n arbitrary: d h pre rule: encode_number.induct)
  case (1 n)
  show ?case
  proof (cases "n < 128")
    case True
    then show ?thesis
      using marked_byte [OF True] ucast_small [OF True] by (subst ReadNumber_loop.simps) (simp add: encode_number.simps [of n] Let_def)
  next
    case False
    define m where "m = n div 128 - 1"
    let ?b = "of_nat (n mod 128) :: u8"
    have e: "encode_number n = ?b # encode_number m" using False by (simp add: encode_number.simps [of n] m_def)
    have IH: "ReadNumber_loop d h \<lparr>st_data = pre @ ?b # encode_number m @ rest, st_offset = Suc (length pre)\<rparr> =
      (d + of_nat m * h, \<lparr>st_data = pre @ ?b # encode_number m @ rest, st_offset = Suc (length pre + length (encode_number m))\<rparr>)" for d h
      using "1.IH" [OF False, of d h "pre @ [?b]", folded m_def] by simp
    have "n = n mod 128 + 128 + m * 128" using False div_mult_mod_eq [of n 128] by (simp add: diff_mult_distrib m_def)
    then have "(of_nat n :: u32) = of_nat (n mod 128) + 128 + of_nat m * 128" by (metis of_nat_add of_nat_mult of_nat_numeral)
    then have "d + of_nat (n mod 128) * h + 128 * h + of_nat m * (128 * h) = d + of_nat n * h" for d by (simp add: algebra_simps)
    then show ?thesis
      using unmarked_byte [of "n mod 128"] ucast_small [of "n mod 128"] False
      by (subst ReadNumber_loop.simps) (simp add: e IH Let_def push_bit_eq_mult mult.commute)
  qed
qed

lemma ReadNumber_encode:
  assumes "st_data s = pre @ encode_number n @ rest" "st_offset s = length pre"
  shows "ReadNumber s = (of_nat n, s\<lparr>st_offset := length pre + length (encode_number n)\<rparr>)"
proof -
  have "s = \<lparr>st_data = pre @ encode_number n @ rest, st_offset = length pre\<rparr>" using assms by simp
  then show ?thesis using ReadNumber_loop_encode [of 0 1 pre n rest] by (simp add: ReadNumber_def)
qed

lemma word_of_small_nat:
  assumes "n < 2 ^ 32"
  shows "drop_bit k (of_nat n :: u32) = of_nat (n div 2 ^ k)" "(of_nat n :: u32) AND mask k = of_nat (n mod 2 ^ k)"
proof -
  show "drop_bit k (of_nat n :: u32) = of_nat (n div 2 ^ k)"
  proof -
    have "n div 2 ^ k < 2 ^ 32" using assms div_le_dividend le_less_trans by blast
    then show ?thesis
      using assms by (simp add: word_unat_eq_iff unat_drop_bit_eq unat_of_nat drop_bit_eq_div [where 'a = nat])
  qed
  show "(of_nat n :: u32) AND mask k = of_nat (n mod 2 ^ k)"
    by (simp add: take_bit_eq_mask [symmetric] take_bit_of_nat take_bit_eq_mod [where 'a = nat])
qed

lemma ucast_u64_of_nat: "n < 2 ^ 31 \<Longrightarrow> (ucast (of_nat n :: u32) :: u64) = of_nat n"
  by (simp add: unsigned_of_nat take_bit_nat_eq_self)

lemma relative_step_encode:
  assumes "\<bar>d\<bar> < 2 ^ 31"
  shows "relative_step (of_nat (step_code d)) = of_int d"
proof -
  let ?n = "2 * nat \<bar>d\<bar> + (if d < 0 then 1 else 0)"
  have n: "?n < 2 ^ 32" "?n div 2 = nat \<bar>d\<bar>" "?n mod 2 = (if d < 0 then 1 else 0)" using assms by auto
  have "drop_bit 1 (of_nat ?n :: u32) = of_nat (nat \<bar>d\<bar>)" using word_of_small_nat(1) [OF n(1), of 1] n(2) by simp
  moreover have "(of_nat ?n :: u32) AND 1 = of_nat (if d < 0 then 1 else 0)" using word_of_small_nat(2) [OF n(1), of 1] n(3) by (simp add: mask_eq_exp_minus_1)
  moreover have "(ucast (of_nat (nat \<bar>d\<bar>) :: u32) :: u64) = of_nat (nat \<bar>d\<bar>)"
    using assms by (intro ucast_u64_of_nat) auto
  moreover have "d < 0 \<Longrightarrow> - (of_nat (nat \<bar>d\<bar>) :: u64) = of_int d" "\<not> d < 0 \<Longrightarrow> (of_nat (nat \<bar>d\<bar>) :: u64) = of_int d"
    by (simp_all add: of_nat_nat)
  ultimately show ?thesis unfolding relative_step_def step_code_def by (simp split: if_splits)
qed

lemma head_parts:
  assumes "length_ok n" "k < 4"
  shows "(of_nat (4 * (n - 1) + k) :: u32) AND 3 = of_nat k" "unat (drop_bit 2 (of_nat (4 * (n - 1) + k) :: u32) + 1) = n"
proof -
  let ?n = "4 * (n - 1) + k"
  have n: "?n < 2 ^ 32" "?n div 4 = n - 1" "?n mod 4 = k" using assms by (auto simp: length_ok_def)
  show "(of_nat ?n :: u32) AND 3 = of_nat k" using word_of_small_nat(2) [OF n(1), of 2] n(3) by (simp add: mask_eq_exp_minus_1)
  have "drop_bit 2 (of_nat ?n :: u32) + 1 = of_nat (n - 1 + 1)" using word_of_small_nat(1) [OF n(1), of 2] n(2) by simp
  then show "unat (drop_bit 2 (of_nat ?n :: u32) + 1) = n" using assms(1) by (simp add: unat_of_nat length_ok_def)
qed

lemma le32_value:
  "ucast (ucast (w :: u32) :: u8) OR push_bit 8 (ucast (ucast (drop_bit 8 w) :: u8)) OR push_bit 16 (ucast (ucast (drop_bit 16 w) :: u8)) OR
   push_bit 24 (ucast (ucast (drop_bit 24 w) :: u8)) = w" (is "?l = w")
proof (rule bit_word_eqI)
  fix n assume n: "n < LENGTH(32)"
  consider "n < 8" | "8 \<le> n" "n < 16" | "16 \<le> n" "n < 24" | "24 \<le> n" "n < 32" using n by fastforce
  then show "bit ?l n = bit w n"
    by cases (auto simp: bit_simps)
qed

lemma read_u32_le32:
  assumes "st_data s = pre @ le32 w @ rest" "st_offset s = length pre"
  shows "read_u32 s = Some (w, s\<lparr>st_offset := length pre + 4\<rparr>)"
  using le32_value [of w] by (simp add: read_u32_def stream_Read_def assms le32_def)

subsection \<open>Commands\<close>

text \<open>The streams of a patch whose commands have written \<open>out\<close> so far: the target has zeros behind it.\<close>

definition target_of :: "nat \<Rightarrow> u8 list \<Rightarrow> bps_stream" where
  "target_of tsize out = \<lparr>st_data = out @ replicate (tsize - length out) 0, st_offset = length out\<rparr>"

definition applier_of :: "u8 list \<Rightarrow> nat \<Rightarrow> nat \<Rightarrow> u8 list \<Rightarrow> nat \<Rightarrow> bps_state \<Rightarrow> PatchApplier" where
  "applier_of xs j tsize patch i s =
     \<lparr>m_source_relative_offset = of_nat (bps_src s), m_target_relative_offset = of_nat (bps_tgt s),
      m_source = \<lparr>st_data = xs, st_offset = j\<rparr>, m_target = target_of tsize (bps_out s), m_patch = \<lparr>st_data = patch, st_offset = i\<rparr>\<rparr>"

lemma CopyFrom_target:
  assumes "stream_Read n other = Some (bs, other')" "length bs = n" "length out + n \<le> tsize"
  shows "stream_CopyFrom (target_of tsize out) other n = (True, target_of tsize (out @ bs), other')"
  using assms by (simp add: stream_CopyFrom_def target_of_def put_at_def)

lemma Read_part:
  "i + n \<le> length xs \<Longrightarrow> stream_Read n \<lparr>st_data = xs, st_offset = i\<rparr> = Some (take n (drop i xs), \<lparr>st_data = xs, st_offset = i + n\<rparr>)"
  by (simp add: stream_Read_def)

lemma repeat_from_length [simp]: "length (repeat_from t n out) = length out + n"
  by (induction t n out rule: repeat_from.induct) auto

lemma copy_bytes_repeat:
  assumes "t < length out" "n \<le> k" "length out + k < 2 ^ 32"
  shows "copy_bytes (length out) (of_nat t) n (out @ replicate k 0) = Some (repeat_from t n out @ replicate (k - n) 0)"
  using assms
proof (induction n arbitrary: t out k)
  case (Suc n)
  then obtain m where k: "k = Suc m" by (cases k) auto
  have t: "unat (of_nat t :: u64) = t" using Suc.prems by (simp add: unat_of_nat)
  have "copy_bytes (length (out @ [out ! t])) (of_nat (t + 1)) n ((out @ [out ! t]) @ replicate m 0) =
      Some (repeat_from (t + 1) n (out @ [out ! t]) @ replicate (m - n) 0)"
    using Suc.prems k by (intro Suc.IH) auto
  then show ?case using Suc.prems k t by (simp add: nth_append list_update_append add.commute)
qed simp

text \<open>Each command of the source does what the command of the format means.\<close>

lemma HandleCommand_head:
  assumes "patch = pre @ encode_head k n @ rest" "length_ok n" "k < 4"
  shows "HandleCommand (applier_of xs j tsize patch (length pre) s) =
    (let a = applier_of xs j tsize patch (length pre + length (encode_head k n)) s
     in if k = 0 then Some (SourceRead n a) else if k = 1 then Some (TargetRead n a)
        else if k = 2 then Some (SourceCopy n a) else TargetCopy n a)"
proof -
  define data :: u32 where "data = of_nat (4 * (n - 1) + k)"
  have r: "ReadNumber \<lparr>st_data = patch, st_offset = length pre\<rparr> = (data, \<lparr>st_data = patch, st_offset = length pre + length (encode_head k n)\<rparr>)"
    using ReadNumber_encode [of "\<lparr>st_data = patch, st_offset = length pre\<rparr>" pre "4 * (n - 1) + k" rest, folded data_def] assms(1)
    by (simp add: encode_head_def)
  have d: "data AND 3 = of_nat k" "unat (drop_bit 2 data + 1) = n" using head_parts [OF assms(2,3)] by (simp_all only: data_def)
  consider "k = 0" | "k = 1" | "k = 2" | "k = 3" using assms(3) by linarith
  then show ?thesis by cases (simp_all add: HandleCommand_def applier_of_def Let_def r d)
qed

lemma ReadNumber_step:
  assumes "patch = pre @ encode_step d @ rest"
  shows "ReadNumber \<lparr>st_data = patch, st_offset = length pre\<rparr> =
    (of_nat (step_code d), \<lparr>st_data = patch, st_offset = length pre + length (encode_step d)\<rparr>)"
  using ReadNumber_encode [of "\<lparr>st_data = patch, st_offset = length pre\<rparr>" pre "step_code d" rest] assms by (simp add: encode_step_def)

lemma SourceRead_run:
  assumes "length (bps_out s) + n \<le> length source" "length (bps_out s) + n \<le> tsize"
  shows "SourceRead n (applier_of (source @ ys) j tsize patch i s) =
    (True, applier_of (source @ ys) (length (bps_out s) + n) tsize patch i (s\<lparr>bps_out := bps_out s @ take n (drop (length (bps_out s)) source)\<rparr>))"
proof -
  let ?o = "length (bps_out s)"
  have "stream_CopyFrom (target_of tsize (bps_out s)) \<lparr>st_data = source @ ys, st_offset = ?o\<rparr> n =
      (True, target_of tsize (bps_out s @ take n (drop ?o source)), \<lparr>st_data = source @ ys, st_offset = ?o + n\<rparr>)"
    using assms by (intro CopyFrom_target) (simp_all add: Read_part)
  then show ?thesis using assms by (simp add: SourceRead_def applier_of_def stream_Seek_def target_of_def)
qed

lemma TargetRead_run:
  assumes "patch = pre @ bs @ rest" "length (bps_out s) + length bs \<le> tsize"
  shows "TargetRead (length bs) (applier_of xs j tsize patch (length pre) s) =
    (True, applier_of xs j tsize patch (length pre + length bs) (s\<lparr>bps_out := bps_out s @ bs\<rparr>))"
proof -
  have "stream_CopyFrom (target_of tsize (bps_out s)) \<lparr>st_data = patch, st_offset = length pre\<rparr> (length bs) =
      (True, target_of tsize (bps_out s @ bs), \<lparr>st_data = patch, st_offset = length pre + length bs\<rparr>)"
    using assms by (intro CopyFrom_target) (simp_all add: Read_part)
  then show ?thesis by (simp add: TargetRead_def applier_of_def)
qed

lemma SourceCopy_run:
  assumes "patch = pre @ encode_step d @ rest" "\<bar>d\<bar> < 2 ^ 31" "int (bps_src s) + d = int p"
    and "p + n \<le> length source" "length source < 2 ^ 32" "length (bps_out s) + n \<le> tsize"
  shows "SourceCopy n (applier_of (source @ ys) j tsize patch (length pre) s) =
    (True, applier_of (source @ ys) (p + n) tsize patch (length pre + length (encode_step d))
       (s\<lparr>bps_out := bps_out s @ take n (drop p source), bps_src := p + n\<rparr>))"
proof -
  have rel: "of_nat (bps_src s) + relative_step (of_nat (step_code d)) = (of_nat p :: u64)"
    unfolding relative_step_encode [OF assms(2)] using arg_cong [OF assms(3), of "of_int :: int \<Rightarrow> u64"] by simp
  have p: "unat (of_nat p :: u64) = p" using assms(4,5) by (simp add: unat_of_nat)
  have "stream_CopyFrom (target_of tsize (bps_out s)) \<lparr>st_data = source @ ys, st_offset = p\<rparr> n =
      (True, target_of tsize (bps_out s @ take n (drop p source)), \<lparr>st_data = source @ ys, st_offset = p + n\<rparr>)"
    using assms by (intro CopyFrom_target) (simp_all add: Read_part)
  then show ?thesis
    using assms(4) by (simp add: SourceCopy_def applier_of_def ReadNumber_step [OF assms(1)] rel p stream_Seek_def Let_def)
qed

lemma TargetCopy_run:
  assumes "patch = pre @ encode_step d @ rest" "\<bar>d\<bar> < 2 ^ 31" "int (bps_tgt s) + d = int p"
    and "p < length (bps_out s)" "length (bps_out s) + n \<le> tsize" "tsize < 2 ^ 32"
  shows "TargetCopy n (applier_of xs j tsize patch (length pre) s) =
    Some (True, applier_of xs j tsize patch (length pre + length (encode_step d))
       (s\<lparr>bps_out := repeat_from p n (bps_out s), bps_tgt := p + n\<rparr>))"
proof -
  let ?out = "bps_out s"
  have rel: "of_nat (bps_tgt s) + relative_step (of_nat (step_code d)) = (of_nat p :: u64)"
    unfolding relative_step_encode [OF assms(2)] using arg_cong [OF assms(3), of "of_int :: int \<Rightarrow> u64"] by simp
  have pn: "unat (of_nat (p + n) :: u64) = p + n" using assms(4-6) by (simp add: unat_of_nat del: of_nat_add)
  have c: "copy_bytes (length ?out) (of_nat p) n (?out @ replicate (tsize - length ?out) 0) =
      Some (repeat_from p n ?out @ replicate (tsize - (length ?out + n)) 0)"
    using copy_bytes_repeat [OF assms(4), of n "tsize - length ?out"] assms(5,6) by simp
  show ?thesis
    using assms(4,5) pn
    by (simp add: TargetCopy_def applier_of_def ReadNumber_step [OF assms(1)] rel c target_of_def stream_Seek_def Let_def)
qed


lemma HandleCommand_run:
  assumes patch: "patch = pre @ encode_command c @ rest" and ok: "command_ok c" and run: "run_command source c s = Some s'"
    and fits: "length (bps_out s') \<le> tsize" "tsize < 2 ^ 32" "length source < 2 ^ 32"
  obtains j' where "HandleCommand (applier_of (source @ ys) j tsize patch (length pre) s) =
    Some (True, applier_of (source @ ys) j' tsize patch (length pre + length (encode_command c)) s')"
proof (cases c)
  case (SrcRead n)
  then show thesis
    using that HandleCommand_head [of patch pre 0 n rest] SourceRead_run [of s n source tsize] patch ok run fits by (auto split: if_splits)
next
  case (TgtRead bs)
  then have "patch = (pre @ encode_head 1 (length bs)) @ bs @ rest" using patch by simp
  from TargetRead_run [OF this, of s tsize] show thesis
    using that TgtRead HandleCommand_head [of patch pre 1 "length bs" "bs @ rest"] patch ok run fits by (auto simp: add.assoc)
next
  case (SrcCopy d n)
  let ?p = "nat (int (bps_src s) + d)"
  have p: "int (bps_src s) + d = int ?p" "?p + n \<le> length source"
      "s' = s\<lparr>bps_out := bps_out s @ take n (drop ?p source), bps_src := ?p + n\<rparr>"
    using run SrcCopy by (auto simp: Let_def split: if_splits)
  have "patch = (pre @ encode_head 2 n) @ encode_step d @ rest" using patch SrcCopy by simp
  from SourceCopy_run [OF this _ p(1,2), of tsize] show thesis
    using that SrcCopy HandleCommand_head [of patch pre 2 n "encode_step d @ rest"] patch ok fits p(2,3) by (auto simp: add.assoc)
next
  case (TgtCopy d n)
  let ?p = "nat (int (bps_tgt s) + d)"
  have p: "int (bps_tgt s) + d = int ?p" "?p < length (bps_out s)"
      "s' = s\<lparr>bps_out := repeat_from ?p n (bps_out s), bps_tgt := ?p + n\<rparr>"
    using run TgtCopy by (auto simp: Let_def split: if_splits)
  have "patch = (pre @ encode_head 3 n) @ encode_step d @ rest" using patch TgtCopy by simp
  from TargetCopy_run [OF this _ p(1,2), of n tsize] show thesis
    using that TgtCopy HandleCommand_head [of patch pre 3 n "encode_step d @ rest"] patch ok fits p(3) by (auto simp: add.assoc)
qed

lemma encode_number_nonempty [simp]: "encode_number n \<noteq> []"
  by (simp add: encode_number.simps [of n])

lemma encode_command_nonempty [simp]: "encode_command c \<noteq> []"
  by (cases c) (simp_all add: encode_head_def)

lemma run_commands_length: "run_commands source cs s = Some s' \<Longrightarrow> length (bps_out s) \<le> length (bps_out s')"
proof (induction cs arbitrary: s)
  case (Cons c cs)
  then obtain s1 where "run_command source c s = Some s1" "run_commands source cs s1 = Some s'" by (auto simp: bind_eq_Some_conv)
  moreover from this(1) have "length (bps_out s) \<le> length (bps_out s1)" by (cases c) (auto simp: Let_def split: if_splits)
  ultimately show ?case using Cons.IH by fastforce
qed simp

declare apply_commands.simps [simp del]

lemma apply_commands_run:
  assumes "\<forall>c \<in> set cs. command_ok c" "run_commands source cs s = Some s'" "patch = pre @ concat (map encode_command cs) @ rest"
    and "e = length pre + length (concat (map encode_command cs))"
    and "length (bps_out s') \<le> tsize" "tsize < 2 ^ 32" "length source < 2 ^ 32"
  shows "\<exists>j'. apply_commands e (applier_of (source @ ys) j tsize patch (length pre) s) =
    Some (True, applier_of (source @ ys) j' tsize patch e s')"
  using assms
proof (induction cs arbitrary: s j pre)
  case Nil
  then show ?case by (subst apply_commands.simps) (auto simp: applier_of_def)
next
  case (Cons c cs)
  obtain s1 where s1: "run_command source c s = Some s1" "run_commands source cs s1 = Some s'"
    using Cons.prems(2) by (auto simp: bind_eq_Some_conv)
  have patch: "patch = pre @ encode_command c @ concat (map encode_command cs) @ rest" using Cons.prems(3) by simp
  have "length (bps_out s1) \<le> tsize" using run_commands_length [OF s1(2)] Cons.prems(5) by simp
  then obtain j1 where h: "HandleCommand (applier_of (source @ ys) j tsize patch (length pre) s) =
      Some (True, applier_of (source @ ys) j1 tsize patch (length pre + length (encode_command c)) s1)"
    using HandleCommand_run [OF patch _ s1(1)] Cons.prems by (metis list.set_intros(1))
  have "st_offset (m_patch (applier_of (source @ ys) j tsize patch (length pre) s)) < e"
    using Cons.prems(4) by (simp add: applier_of_def)
  then have "apply_commands e (applier_of (source @ ys) j tsize patch (length pre) s) =
      apply_commands e (applier_of (source @ ys) j1 tsize patch (length pre + length (encode_command c)) s1)"
    by (subst apply_commands.simps) (simp add: h)
  then show ?case
    using Cons.IH [of s1 "pre @ encode_command c" j1] Cons.prems s1(2) by simp
qed

text \<open>The header and the footer of an encoded patch.\<close>

lemma read_header:
  assumes "patch = bps_magic @ encode_number n @ encode_number m @ encode_number k @ rest"
  shows "stream_Read 4 \<lparr>st_data = patch, st_offset = 0\<rparr> = Some (bps_magic, \<lparr>st_data = patch, st_offset = 4\<rparr>)"
    "ReadNumber \<lparr>st_data = patch, st_offset = 4\<rparr> = (of_nat n, \<lparr>st_data = patch, st_offset = 4 + length (encode_number n)\<rparr>)"
    "ReadNumber \<lparr>st_data = patch, st_offset = 4 + length (encode_number n)\<rparr> =
       (of_nat m, \<lparr>st_data = patch, st_offset = 4 + length (encode_number n) + length (encode_number m)\<rparr>)"
    "ReadNumber \<lparr>st_data = patch, st_offset = 4 + length (encode_number n) + length (encode_number m)\<rparr> =
       (of_nat k, \<lparr>st_data = patch, st_offset = 4 + length (encode_number n) + length (encode_number m) + length (encode_number k)\<rparr>)"
proof -
  have l: "length bps_magic = 4" by (simp add: bps_magic_def)
  show "stream_Read 4 \<lparr>st_data = patch, st_offset = 0\<rparr> = Some (bps_magic, \<lparr>st_data = patch, st_offset = 4\<rparr>)"
    using assms l by (simp add: stream_Read_def)
  show "ReadNumber \<lparr>st_data = patch, st_offset = 4\<rparr> = (of_nat n, \<lparr>st_data = patch, st_offset = 4 + length (encode_number n)\<rparr>)"
    using ReadNumber_encode [of "\<lparr>st_data = patch, st_offset = 4\<rparr>" bps_magic n] assms l by simp
  show "ReadNumber \<lparr>st_data = patch, st_offset = 4 + length (encode_number n)\<rparr> =
       (of_nat m, \<lparr>st_data = patch, st_offset = 4 + length (encode_number n) + length (encode_number m)\<rparr>)"
    using ReadNumber_encode [of "\<lparr>st_data = patch, st_offset = 4 + length (encode_number n)\<rparr>" "bps_magic @ encode_number n" m] assms l by simp
  show "ReadNumber \<lparr>st_data = patch, st_offset = 4 + length (encode_number n) + length (encode_number m)\<rparr> =
       (of_nat k, \<lparr>st_data = patch, st_offset = 4 + length (encode_number n) + length (encode_number m) + length (encode_number k)\<rparr>)"
    using ReadNumber_encode [of "\<lparr>st_data = patch, st_offset = 4 + length (encode_number n) + length (encode_number m)\<rparr>"
        "bps_magic @ encode_number n @ encode_number m" k] assms l by simp
qed

lemma read_footer:
  assumes "patch = pre @ le32 u @ le32 v @ le32 w" "length patch < 2 ^ 64"
  shows "unat (of_nat (length patch) - 12 :: u64) = length pre"
    "read_u32 \<lparr>st_data = patch, st_offset = length pre\<rparr> = Some (u, \<lparr>st_data = patch, st_offset = length pre + 4\<rparr>)"
    "read_u32 \<lparr>st_data = patch, st_offset = length pre + 4\<rparr> = Some (v, \<lparr>st_data = patch, st_offset = length pre + 8\<rparr>)"
proof -
  have l: "length (le32 x) = 4" for x by (simp add: le32_def)
  have "of_nat (length patch) - 12 = (of_nat (length pre) :: u64)" using assms(1) by (simp add: l)
  moreover have "unat (of_nat (length pre) :: u64) = length pre" using assms by (simp add: unat_of_nat)
  ultimately show "unat (of_nat (length patch) - 12 :: u64) = length pre" by (simp only:)
  show "read_u32 \<lparr>st_data = patch, st_offset = length pre\<rparr> = Some (u, \<lparr>st_data = patch, st_offset = length pre + 4\<rparr>)"
    using read_u32_le32 [of "\<lparr>st_data = patch, st_offset = length pre\<rparr>" pre u] assms(1) by simp
  show "read_u32 \<lparr>st_data = patch, st_offset = length pre + 4\<rparr> = Some (v, \<lparr>st_data = patch, st_offset = length pre + 8\<rparr>)"
    using read_u32_le32 [of "\<lparr>st_data = patch, st_offset = length pre + 4\<rparr>" "pre @ le32 u" v] assms(1) by (simp add: l add.assoc)
qed


lemma of_nat_u32: "n < 2 ^ 32 \<Longrightarrow> unat (of_nat n :: u32) = n"
  by (simp add: unat_of_nat)

lemma PatchApplier_Apply_encoded:
  assumes cs: "\<forall>c \<in> set cs. command_ok c" "bps_meaning source cs = Some target"
    and l: "length source < 2 ^ 32" "length target < 2 ^ 32" "length (encode_bps crc32 source target cs w) < 2 ^ 64"
    and buf: "buf = source @ replicate (length target - length source) 0"
  shows "PatchApplier_Apply crc32
      \<lparr>m_source_relative_offset = 0, m_target_relative_offset = 0, m_source = \<lparr>st_data = buf, st_offset = 0\<rparr>,
       m_target = \<lparr>st_data = buf, st_offset = 0\<rparr>, m_patch = \<lparr>st_data = encode_bps crc32 source target cs w, st_offset = 0\<rparr>\<rparr> =
    Some (Success, target @ replicate (length source - length target) 0)"
proof -
  define patch where "patch = encode_bps crc32 source target cs w"
  define pre where "pre = bps_magic @ encode_number (length source) @ encode_number (length target) @ encode_number 0"
  let ?cs = "concat (map encode_command cs)" and ?f = "le32 (crc32 source) @ le32 (crc32 target) @ le32 w"
  have "patch = bps_magic @ encode_number (length source) @ encode_number (length target) @ encode_number 0 @ ?cs @ ?f"
    by (simp add: patch_def encode_bps_def)
  note h = read_header [OF this]
  have p: "patch = pre @ ?cs @ ?f" by (simp add: patch_def encode_bps_def pre_def)
  have "patch = (pre @ ?cs) @ le32 (crc32 source) @ le32 (crc32 target) @ le32 w" using p by simp
  note f = read_footer [OF this l(3) [folded patch_def]]
  have i: "4 + length (encode_number (length source)) + length (encode_number (length target)) + length (encode_number 0) = length pre"
    by (simp add: pre_def bps_magic_def)
  let ?s = "\<lparr>bps_out = [], bps_src = 0, bps_tgt = 0\<rparr>"
  obtain s' where s': "run_commands source cs ?s = Some s'" "bps_out s' = target" using cs(2) by (auto simp: bps_meaning_def)
  have tl: "length (bps_out s') \<le> length buf" "length buf < 2 ^ 32" using buf s'(2) l(1,2) by auto
  obtain j where a: "apply_commands (length (pre @ ?cs)) (applier_of buf 0 (length buf) patch (length pre) ?s) =
      Some (True, applier_of buf j (length buf) patch (length (pre @ ?cs)) s')"
    using apply_commands_run [OF cs(1) s'(1) p refl tl l(1), of "replicate (length target - length source) 0" 0] unfolding buf [symmetric]
    by auto
  have a0: "applier_of buf 0 (length buf) patch (length pre) ?s =
      \<lparr>m_source_relative_offset = 0, m_target_relative_offset = 0, m_source = \<lparr>st_data = buf, st_offset = 0\<rparr>,
       m_target = \<lparr>st_data = replicate (length buf) 0, st_offset = 0\<rparr>, m_patch = \<lparr>st_data = patch, st_offset = length pre\<rparr>\<rparr>"
    by (simp add: applier_of_def target_of_def)
  have t: "st_data (m_target (applier_of buf j (length buf) patch e s')) = target @ replicate (length source - length target) 0" for e
    using s'(2) buf by (simp add: applier_of_def target_of_def)
  have seek: "snd (stream_Seek k \<lparr>st_data = patch, st_offset = m\<rparr>) = \<lparr>st_data = patch, st_offset = k\<rparr>" if "k \<le> length patch" for k m
    using that by (simp add: stream_Seek_def)
  have k: "length (pre @ ?cs) \<le> length patch" "length pre \<le> length patch" using p by simp_all
  have b: "\<not> length buf < length source" "\<not> length buf < length target" "take (length source) buf = source" using buf by auto
  show ?thesis
    unfolding patch_def [symmetric] PatchApplier_Apply_def
    using h f i a [unfolded a0] t l(1,2) b
    by (simp add: Let_def of_nat_u32 seek [OF k(1)] seek [OF k(2)] del: length_append)
qed

text \<open>
  Property (C0): a BPS patch does what its commands mean. Take commands that turn the buffer into a target, by the meaning of the format on lists, with checksums for the
  two: applying their encoding succeeds and leaves the target in the buffer, which is enlarged for a longer target and filled up with zeros behind a shorter one. Numbers,
  lengths, steps and both kinds of copy survive the variable-length encoding and the arithmetic on 32 and 64 bits.
\<close>

theorem ApplyBpsPatch_encoded:
  assumes "\<forall>c \<in> set cs. command_ok c" "bps_meaning source cs = Some target"
    and "length source < 2 ^ 32" "length target < 2 ^ 32" "length (encode_bps crc32 source target cs w) < 2 ^ 64"
  shows "ApplyBpsPatch crc32 (encode_bps crc32 source target cs w) source =
    Some (Success, target @ replicate (length source - length target) 0)"
proof -
  let ?patch = "encode_bps crc32 source target cs w"
  have "?patch = bps_magic @ encode_number (length source) @ encode_number (length target) @ encode_number 0 @
      concat (map encode_command cs) @ le32 (crc32 source) @ le32 (crc32 target) @ le32 w" by (simp add: encode_bps_def)
  note h = read_header [OF this]
  have four: "stream_Seek 4 \<lparr>st_data = ?patch, st_offset = 0\<rparr> = (True, \<lparr>st_data = ?patch, st_offset = 4\<rparr>)"
    by (simp add: stream_Seek_def encode_bps_def bps_magic_def)
  have zero: "snd (stream_Seek 0 \<lparr>st_data = ?patch, st_offset = k\<rparr>) = \<lparr>st_data = ?patch, st_offset = 0\<rparr>" for k
    by (simp add: stream_Seek_def)
  have "(of_nat (length source) :: u32) < of_nat (length target) \<longleftrightarrow> length source < length target"
    using assms(3,4) by (simp add: word_less_nat_alt of_nat_u32)
  then have buf: "(if (of_nat (length source) :: u32) < of_nat (length target) then vector_resize (unat (of_nat (length target) :: u32)) source else source) =
      source @ replicate (length target - length source) 0"
    using assms(4) by (simp add: vector_resize_def of_nat_u32)
  show ?thesis
    unfolding ApplyBpsPatch_def four h zero buf snd_conv Let_def prod.case
    by (rule PatchApplier_Apply_encoded [OF assms refl])
qed

theorem ApplyBpsPatch_encoded_witness:
  "ApplyBpsPatch (\<lambda>bs. of_nat (length bs))
     (encode_bps (\<lambda>bs. of_nat (length bs)) [1, 2, 3] [1, 7, 1, 7, 1, 3] [SrcRead 1, TgtRead [7], TgtCopy 0 3, SrcCopy 2 1] 0) [1, 2, 3] =
   Some (Success, [1, 7, 1, 7, 1, 3])"
proof -
  let ?cs = "[SrcRead 1, TgtRead [7], TgtCopy 0 3, SrcCopy 2 1]"
  have "\<forall>c \<in> set ?cs. command_ok c" by (simp add: length_ok_def)
  moreover have "bps_meaning [1, 2, 3] ?cs = Some [1, 7, 1, 7, 1, 3]" by (simp add: bps_meaning_def numeral_3_eq_3)
  moreover have "length (encode_bps (\<lambda>bs. of_nat (length bs)) [1, 2, 3] [1, 7, 1, 7, 1, 3] ?cs 0) < 2 ^ 64"
    by (simp add: encode_bps_def bps_magic_def le32_def encode_number.simps encode_head_def encode_step_def step_code_def)
  ultimately show ?thesis
    using ApplyBpsPatch_encoded [of ?cs "[1, 2, 3]" "[1, 7, 1, 7, 1, 3]" "\<lambda>bs. of_nat (length bs)" 0] by simp
qed

subsection \<open>A copy from before the target\<close>

lemma copy_bytes_in_bounds: "\<lbrakk>w + n \<le> length xs; unat r + n \<le> length xs; length xs < 2 ^ 32\<rbrakk> \<Longrightarrow> copy_bytes w r n xs \<noteq> None"
proof (induction w r n xs rule: copy_bytes.induct)
  case (2 w r n xs)
  have "unat (r + 1) = unat r + 1" using "2.prems" by (simp add: unat_word_ariths)
  then show ?case using 2 by simp
qed simp

text \<open>
  Property (C0): exactly when a copy inside of the target leaves the buffer. The command checks the end of the range it reads, with a sum that can wrap around: when the
  relative position has become negative by at most the length of the copy, the check passes and the copy reads bytes that lie before the buffer. In every other
  case all the bytes are inside, or the command is refused.
\<close>

theorem TargetCopy_unsafe_iff:
  assumes "0 < n" "n \<le> 2 ^ 30" "length (st_data (m_target a)) < 2 ^ 32"
  shows "TargetCopy n a = None \<longleftrightarrow>
    st_offset (m_target a) + n \<le> length (st_data (m_target a)) \<and>
    2 ^ 64 \<le> unat (m_target_relative_offset a + relative_step (fst (ReadNumber (m_patch a)))) + n"
proof -
  obtain data patch where r: "ReadNumber (m_patch a) = (data, patch)" by fastforce
  define rel where "rel = m_target_relative_offset a + relative_step data"
  let ?t = "m_target a" and ?xs = "st_data (m_target a)"
  have u: "TargetCopy n a = None \<longleftrightarrow> st_offset ?t + n \<le> length ?xs \<and> unat (rel + of_nat n) \<le> length ?xs \<and> copy_bytes (st_offset ?t) rel n ?xs = None"
    by (auto simp: TargetCopy_def r rel_def [symmetric] Let_def bind_eq_None_conv)
  have n: "unat (of_nat n :: u64) = n" using assms(2) by (simp add: unat_of_nat)
  have s: "unat (rel + of_nat n) = (unat rel + n) mod 2 ^ 64" using n by (simp add: unat_word_ariths)
  have b: "unat rel < 2 ^ 64" using unsigned_less [of rel, where 'a = nat] by simp
  show ?thesis
  proof (cases "2 ^ 64 \<le> unat rel + n")
    case True
    then have "(unat rel + n) mod 2 ^ 64 = unat rel + n - 2 ^ 64" using b assms(2) by (simp add: mod_if)
    then have w: "unat (rel + of_nat n) < n" using s b True assms(1) by linarith
    have "length ?xs \<le> unat rel" using True assms(2,3) by simp
    then have "copy_bytes (st_offset ?t) rel n ?xs = None" using assms(1) by (cases n) auto
    then show ?thesis using u w True by (auto simp: r rel_def)
  next
    case False
    then have "unat (rel + of_nat n) = unat rel + n" using s by simp
    then have "\<not> (st_offset ?t + n \<le> length ?xs \<and> unat (rel + of_nat n) \<le> length ?xs \<and> copy_bytes (st_offset ?t) rel n ?xs = None)"
      using copy_bytes_in_bounds [of "st_offset ?t" n ?xs rel] assms(3) by auto
    then show ?thesis using u False by (simp add: r rel_def)
  qed
qed

text \<open>The first command of a patch can do it: its step is one back.\<close>

theorem TargetCopy_unsafe_iff_witness:
  "TargetCopy 2 \<lparr>m_source_relative_offset = 0, m_target_relative_offset = 0, m_source = \<lparr>st_data = [0, 0], st_offset = 0\<rparr>,
      m_target = \<lparr>st_data = [0, 0], st_offset = 0\<rparr>, m_patch = \<lparr>st_data = [0x83], st_offset = 0\<rparr>\<rparr> = None"
proof -
  let ?a = "\<lparr>m_source_relative_offset = 0, m_target_relative_offset = 0, m_source = \<lparr>st_data = [0, 0], st_offset = 0\<rparr>,
      m_target = \<lparr>st_data = [0, 0 :: u8], st_offset = 0\<rparr>, m_patch = \<lparr>st_data = [0x83], st_offset = 0\<rparr>\<rparr>"
  have r: "ReadNumber \<lparr>st_data = [0x83], st_offset = 0\<rparr> = (3, \<lparr>st_data = [0x83], st_offset = 1\<rparr>)"
    by (simp add: ReadNumber_def ReadNumber_loop.simps Let_def)
  show ?thesis
    using TargetCopy_unsafe_iff [of 2 ?a] by (simp add: r relative_step_def unsigned_minus_1_eq_mask mask_eq_exp_minus_1)
qed

end
