(* ===== verification/Code_LZSS.thy ===== *)
theory Code_LZSS
  imports File_Patches
begin

unbundle bit_operations_syntax

text \<open>
  The compression of program code (\<^verbatim>\<open>src/core/file_sys/ncch_container.cpp\<close>): \<^verbatim>\<open>LZSS_Decompress\<close> works from the end of a file to its beginning. The model keeps the index into the compressed
  bytes, the position in the output and the output as the source has them; \<open>None\<close> is an access outside of a buffer. It is compared with the meaning of a list of
  tokens, and its accesses are characterised for every input.
\<close>

section \<open>Definitions\<close>

definition u32_at :: "u8 list \<Rightarrow> nat \<Rightarrow> u32 option" where
  "u32_at xs i = map_option fst (read_u32 \<lparr>st_data = xs, st_offset = i\<rparr>)"

definition LZSS_GetDecompressedSize :: "u8 list \<Rightarrow> nat option" where
  "LZSS_GetDecompressedSize buffer =
     (if length buffer < 4 then None else do { offset_size \<leftarrow> u32_at buffer (length buffer - 4); Some (unat offset_size + length buffer) })"

text \<open>The loop over the bytes of a segment, for the number of bytes left; \<^verbatim>\<open>out\<close> is at least that number.\<close>

fun segment_loop :: "nat \<Rightarrow> nat \<Rightarrow> nat \<Rightarrow> u8 list \<Rightarrow> bool \<times> nat \<times> u8 list" where
  "segment_loop segment_offset 0 out decompressed = (True, out, decompressed)"
| "segment_loop segment_offset (Suc n) out decompressed =
     (if length decompressed \<le> out + segment_offset then (False, out, decompressed)
      else segment_loop segment_offset n (out - 1) (decompressed[out - 1 := decompressed ! (out + segment_offset)]))"

text \<open>The loop over the bits of a control byte, for the number of iterations left.\<close>

fun control_loop :: "u8 list \<Rightarrow> nat \<Rightarrow> nat \<Rightarrow> u8 \<Rightarrow> nat \<Rightarrow> nat \<Rightarrow> u8 list \<Rightarrow> (bool \<times> nat \<times> nat \<times> u8 list) option" where
  "control_loop compressed stop_index 0 control index out decompressed = Some (True, index, out, decompressed)"
| "control_loop compressed stop_index (Suc i) control index out decompressed =
     (if index \<le> stop_index \<or> index \<le> 0 \<or> out \<le> 0 then Some (True, index, out, decompressed)
      else if control AND 0x80 \<noteq> 0
      then if index < 2 then Some (False, index, out, decompressed)
           else do {
             let index = index - 2;
             lo \<leftarrow> byte_at compressed index;
             hi \<leftarrow> byte_at compressed (index + 1);
             let segment = lo + hi * 0x100;
             let segment_size = segment div 0x1000 mod 16 + 3;
             let segment_offset = segment mod 0x1000 + 2;
             if out < segment_size then Some (False, index, out, decompressed)
             else case segment_loop segment_offset segment_size out decompressed of
               (ok, out, decompressed) \<Rightarrow>
                 if \<not> ok then Some (False, index, out, decompressed)
                 else control_loop compressed stop_index i (push_bit 1 control) index out decompressed }
      else if out < 1 then Some (False, index, out, decompressed)
      else do {
        b \<leftarrow> byte_at compressed (index - 1);
        if length decompressed \<le> out - 1 then None
        else control_loop compressed stop_index i (push_bit 1 control) (index - 1) (out - 1) (decompressed[out - 1 := of_nat b]) })"

text \<open>The index only decreases, which is why the outer loop ends.\<close>

lemma control_loop_index:
  "control_loop compressed stop_index i control index out decompressed = Some (ok, index', out', decompressed') \<Longrightarrow> index' \<le> index"
proof (induction i arbitrary: control index out decompressed)
  case (Suc i)
  note IH = Suc.IH
  show ?case
    using Suc.prems
    by (auto simp: Let_def bind_eq_Some_conv split: if_splits prod.splits dest!: IH)
qed simp

function decompress_loop :: "u8 list \<Rightarrow> nat \<Rightarrow> nat \<Rightarrow> nat \<Rightarrow> u8 list \<Rightarrow> (bool \<times> u8 list) option" where
  "decompress_loop compressed stop_index index out decompressed =
     (if \<not> stop_index < index then Some (True, decompressed)
      else case byte_at compressed (index - 1) of
        None \<Rightarrow> None
      | Some control \<Rightarrow>
          (case control_loop compressed stop_index 8 (of_nat control) (index - 1) out decompressed of
             None \<Rightarrow> None
           | Some (ok, index', out', decompressed') \<Rightarrow>
               if \<not> ok then Some (False, decompressed') else decompress_loop compressed stop_index index' out' decompressed'))"
  by pat_completeness auto
termination
proof (relation "measure (\<lambda>(c, s, i, out, d). i)")
  fix compressed :: "u8 list" and stop_index index out decompressed x xa ok r index' r' out' decompressed'
  assume "\<not> \<not> stop_index < index" and eq: "control_loop compressed stop_index 8 (of_nat x) (index - 1) out decompressed = Some xa"
    "(ok, r) = xa" "(index', r') = r"
  obtain a b where "r' = (a, b)" by fastforce
  then have "index' \<le> index - 1" using control_loop_index [of compressed stop_index 8 "of_nat x" "index - 1" out decompressed ok index' a b] eq by simp
  then show "((compressed, stop_index, index', out', decompressed'), compressed, stop_index, index, out, decompressed) \<in> measure (\<lambda>(c, s, i, out, d). i)"
    using \<open>\<not> \<not> stop_index < index\<close> by simp
qed simp

text \<open>\<^verbatim>\<open>decompressed\<close> has the given size; it is cleared and gets a copy of the compressed bytes.\<close>

definition LZSS_Decompress :: "u8 list \<Rightarrow> nat \<Rightarrow> (bool \<times> u8 list) option" where
  "LZSS_Decompress compressed decompressed_size =
     (if length compressed < 8 then None
      else do {
        buffer_top_and_bottom \<leftarrow> u32_at compressed (length compressed - 8);
        let index = unat (of_nat (length compressed) - ucast (drop_bit 24 buffer_top_and_bottom AND 0xFF) :: u64);
        let stop_index = unat (of_nat (length compressed) - ucast (buffer_top_and_bottom AND 0xFFFFFF) :: u64);
        if decompressed_size < length compressed then None
        else decompress_loop compressed stop_index index decompressed_size
               (compressed @ replicate (decompressed_size - length compressed) 0) })"

text \<open>What \<^verbatim>\<open>LoadSectionExeFS\<close> does with a compressed section.\<close>

definition decompress_code :: "u8 list \<Rightarrow> (bool \<times> u8 list) option" where
  "decompress_code temp_buffer = do { n \<leftarrow> LZSS_GetDecompressedSize temp_buffer; LZSS_Decompress temp_buffer n }"

section \<open>What a compressed file means\<close>

text \<open>The tokens in the order in which they are read; each one extends the output at its front. A reference repeats bytes that are \<open>off\<close> behind the front.\<close>

datatype lz_token = LzLit u8 | LzRef nat nat

fun back_copy :: "nat \<Rightarrow> nat \<Rightarrow> u8 list \<Rightarrow> u8 list" where
  "back_copy off 0 acc = acc"
| "back_copy off (Suc n) acc = back_copy off n (acc ! off # acc)"

fun run_token :: "lz_token \<Rightarrow> u8 list \<Rightarrow> u8 list option" where
  "run_token (LzLit b) acc = Some (b # acc)"
| "run_token (LzRef off n) acc = (if off < length acc then Some (back_copy off n acc) else None)"

fun run_tokens :: "lz_token list \<Rightarrow> u8 list \<Rightarrow> u8 list option" where
  "run_tokens [] acc = Some acc"
| "run_tokens (t # ts) acc = do { acc' \<leftarrow> run_token t acc; run_tokens ts acc' }"

fun token_ok :: "lz_token \<Rightarrow> bool" where
  "token_ok (LzLit b) \<longleftrightarrow> True"
| "token_ok (LzRef off n) \<longleftrightarrow> 2 \<le> off \<and> off < 2 + 0x1000 \<and> 3 \<le> n \<and> n < 3 + 16"

fun is_ref :: "lz_token \<Rightarrow> bool" where
  "is_ref (LzLit b) \<longleftrightarrow> False"
| "is_ref (LzRef off n) \<longleftrightarrow> True"

text \<open>The encoding, as the bytes are met from the end of the file: a control byte for eight tokens, then their bytes.\<close>

fun token_bytes :: "lz_token \<Rightarrow> u8 list" where
  "token_bytes (LzLit b) = [b]"
| "token_bytes (LzRef off n) = [be 8 ((n - 3) * 0x1000 + (off - 2)), be 0 ((n - 3) * 0x1000 + (off - 2))]"

fun control_byte :: "lz_token list \<Rightarrow> u8" where
  "control_byte [] = 0"
| "control_byte (t # ts) = (if is_ref t then 0x80 else 0) OR drop_bit 1 (control_byte ts)"

fun encode_tokens :: "lz_token list \<Rightarrow> u8 list" where
  "encode_tokens [] = []"
| "encode_tokens (t # ts) =
     control_byte (take 8 (t # ts)) # concat (map token_bytes (take 8 (t # ts))) @ encode_tokens (drop 8 (t # ts))"

text \<open>A file: bytes that are kept, the tokens backwards, padding, and the two numbers at the end.\<close>

definition encode_code :: "u8 list \<Rightarrow> lz_token list \<Rightarrow> u8 list \<Rightarrow> nat \<Rightarrow> u8 list" where
  "encode_code kept ts pad extra =
     kept @ rev (encode_tokens ts) @ pad @
     le32 (of_nat ((length pad + 8) * 2 ^ 24 + (length (encode_tokens ts) + length pad + 8))) @ le32 (of_nat extra)"

section \<open>Tokens\<close>

lemma put_front: "\<lbrakk>0 < out; out \<le> length ini\<rbrakk> \<Longrightarrow> (take out ini @ acc)[out - 1 := b] = take (out - 1) ini @ b # acc"
proof -
  assume "0 < out" "out \<le> length ini"
  then have "take out ini = take (out - 1) ini @ [ini ! (out - 1)]" by (metis Suc_pred' Suc_le_eq take_Suc_conv_app_nth)
  then show ?thesis using \<open>out \<le> length ini\<close> \<open>0 < out\<close> by (simp add: list_update_append)
qed

lemma back_copy_length [simp]: "length (back_copy off n acc) = length acc + n"
  by (induction off n acc rule: back_copy.induct) auto

lemma segment_loop_copy:
  "\<lbrakk>n \<le> out; out \<le> length ini; off < length acc\<rbrakk> \<Longrightarrow>
     segment_loop off n out (take out ini @ acc) = (True, out - n, take (out - n) ini @ back_copy off n acc)"
proof (induction n arbitrary: out acc)
  case (Suc n)
  have "(take out ini @ acc) ! (out + off) = acc ! off" using Suc.prems by (simp add: nth_append)
  then show ?case using Suc.IH [of "out - 1" "acc ! off # acc"] Suc.prems put_front [of out ini acc "acc ! off"] by simp
qed simp

text \<open>The bit of a control byte for each token that is still to be read.\<close>

definition control_ok :: "u8 \<Rightarrow> lz_token list \<Rightarrow> bool" where
  "control_ok control ts \<longleftrightarrow> length ts \<le> 8 \<and> (\<forall>j < length ts. bit control (7 - j) = is_ref (ts ! j))"

lemma control_ok_byte: "length ts \<le> 8 \<Longrightarrow> control_ok (control_byte ts) ts"
proof (induction ts)
  case (Cons t ts)
  have b: "bit (0x80 :: u8) k \<longleftrightarrow> k = 7" for k
    using bit_exp_iff [of 7 k, where 'a = u8] bit_imp_le_length [of "0x80 :: u8" k] by (auto simp: possible_bit_def)
  have IH: "bit (control_byte ts) (7 - j) = is_ref (ts ! j)" if "j < length ts" for j using Cons that by (simp add: control_ok_def)
  have "bit (control_byte (t # ts)) (7 - j) = is_ref ((t # ts) ! j)" if "j < length (t # ts)" for j
  proof (cases j)
    case 0
    have "\<not> bit (control_byte ts) 8" using bit_imp_le_length [of "control_byte ts" 8] by auto
    then show ?thesis using 0 by (simp add: bit_or_iff bit_drop_bit_eq b)
  next
    case (Suc i)
    then have "Suc (7 - Suc i) = 7 - i" using that Cons.prems by simp
    moreover have "\<not> bit (0x80 :: u8) (7 - Suc i)" unfolding b by simp
    ultimately show ?thesis using Suc that IH [of i] by (auto simp: bit_or_iff bit_drop_bit_eq)
  qed
  then show ?case using Cons.prems by (simp add: control_ok_def)
qed (simp add: control_ok_def)

lemma control_ok_Cons:
  assumes "control_ok control (t # ts)"
  shows "control AND 0x80 \<noteq> 0 \<longleftrightarrow> is_ref t" "control_ok (push_bit 1 control) ts"
proof -
  show "control AND 0x80 \<noteq> 0 \<longleftrightarrow> is_ref t" using assms by (auto simp: byte_parts control_ok_def)
  have "bit (push_bit 1 control) (7 - j) = is_ref (ts ! j)" if "j < length ts" for j
  proof -
    have "bit control (7 - Suc j) = is_ref ((t # ts) ! Suc j)" using assms that by (auto simp: control_ok_def)
    moreover have "7 - j - 1 = 7 - Suc j" "1 \<le> 7 - j" using that assms by (auto simp: control_ok_def)
    moreover have "bit (push_bit 1 control) (7 - j) \<longleftrightarrow> 1 \<le> 7 - j \<and> bit control (7 - j - 1)"
      unfolding bit_push_bit_iff by (auto simp: possible_bit_def)
    ultimately show ?thesis by (simp only: simp_thms nth_Cons_Suc)
  qed
  then show "control_ok (push_bit 1 control) ts" using assms by (simp add: control_ok_def)
qed

lemma run_token_length: "\<lbrakk>run_token t acc = Some acc'; token_ok t\<rbrakk> \<Longrightarrow> length acc < length acc'"
  by (cases t) (auto split: if_splits)

lemma run_tokens_length: "\<lbrakk>run_tokens ts acc = Some acc'; \<forall>t \<in> set ts. token_ok t\<rbrakk> \<Longrightarrow> length acc \<le> length acc'"
  by (induction ts arbitrary: acc) (fastforce simp: bind_eq_Some_conv dest: run_token_length)+

lemma token_bytes_nonempty [simp]: "token_bytes t \<noteq> []"
  by (cases t) simp_all

lemma back_byte: "byte_at (pre @ rev (x # xs) @ post) (length pre + length xs) = Some (unat x)"
  by (simp add: byte_at_def nth_append)

lemma segment_word:
  assumes "2 \<le> off" "off < 2 + 0x1000" "3 \<le> n" "n < 3 + 16" and v: "v = (n - 3) * 0x1000 + (off - 2)"
  shows "unat (be 0 v) + unat (be 8 v) * 0x100 = v" "v div 0x1000 mod 16 + 3 = n" "v mod 0x1000 + 2 = off"
proof -
  have "v < 2 ^ 16" using assms by simp
  from be_value(2) [OF this] show "unat (be 0 v) + unat (be 8 v) * 0x100 = v" by simp
  obtain m p where "n = m + 3" "m < 16" "off = p + 2" "p < 0x1000"
    using assms(1-4) by (metis add.commute add_less_cancel_left le_Suc_ex)
  then show "v div 0x1000 mod 16 + 3 = n" "v mod 0x1000 + 2 = off" using v by simp_all
qed

text \<open>One token at the index.\<close>

lemma control_loop_token:
  assumes cmp: "cmp = pre @ rev (token_bytes t @ E) @ post" and ok: "token_ok t" "control AND 0x80 \<noteq> 0 \<longleftrightarrow> is_ref t"
    and run: "run_token t acc = Some acc'" and out: "out' + length acc' = out + length acc" "out \<le> length ini"
  shows "control_loop cmp (length pre) (Suc i) control (length pre + length (token_bytes t @ E)) out (take out ini @ acc) =
    control_loop cmp (length pre) i (push_bit 1 control) (length pre + length E) out' (take out' ini @ acc')"
proof (cases t)
  case (LzLit b)
  have "byte_at cmp (length pre + length E) = Some (unat b)" using back_byte [of pre b E post] cmp LzLit by simp
  moreover have "acc' = b # acc" "out = Suc out'" using run LzLit out by auto
  moreover have "(take (Suc out') ini @ acc)[out' := b] = take out' ini @ b # acc" using put_front [of "Suc out'" ini acc b] \<open>out = Suc out'\<close> out(2) by simp
  ultimately show ?thesis using LzLit ok out(2) by simp
next
  case (LzRef off n)
  define v where "v = (n - 3) * 0x1000 + (off - 2)"
  have "2 \<le> off" "off < 2 + 0x1000" "3 \<le> n" "n < 3 + 16" using ok(1) LzRef by auto
  note w = segment_word [OF this v_def]
  have b: "byte_at cmp (length pre + length E) = Some (unat (be 0 v))" "byte_at cmp (length pre + length E + 1) = Some (unat (be 8 v))"
    using back_byte [of pre "be 0 v" E "be 8 v # post"] back_byte [of pre "be 8 v" "be 0 v # E" post] cmp LzRef by (simp_all add: v_def)
  have r: "off < length acc" "acc' = back_copy off n acc" using run LzRef by (auto split: if_splits)
  then have n: "n \<le> out" "out' = out - n" using out(1) by auto
  have "0 < n" using \<open>3 \<le> n\<close> by simp
  then show ?thesis
    using LzRef ok(2) b w n segment_loop_copy [OF n(1) out(2) r(1)] r(2) by (simp add: Let_def)
qed

lemma control_loop_tokens:
  assumes "cmp = pre @ rev (concat (map token_bytes ts) @ E) @ post" "\<forall>t \<in> set ts. token_ok t" "control_ok control ts"
    and "run_tokens ts acc = Some acc'" "out' + length acc' = out + length acc" "out \<le> length ini" "length ts \<le> k" "k = length ts \<or> E = []"
  shows "control_loop cmp (length pre) k control (length pre + length (concat (map token_bytes ts) @ E)) out (take out ini @ acc) =
    Some (True, length pre + length E, out', take out' ini @ acc')"
  using assms
proof (induction ts arbitrary: control acc out k post)
  case Nil
  then show ?case by (cases k) auto
next
  case (Cons t ts)
  obtain i where k: "k = Suc i" using Cons.prems(7) by (cases k) auto
  obtain acc1 where acc1: "run_token t acc = Some acc1" "run_tokens ts acc1 = Some acc'" using Cons.prems(4) by (auto simp: bind_eq_Some_conv)
  define E1 where "E1 = concat (map token_bytes ts) @ E"
  define out1 where "out1 = out + length acc - length acc1"
  have l: "length acc < length acc1" "length acc1 \<le> length acc'"
    using run_token_length [OF acc1(1)] run_tokens_length [OF acc1(2)] Cons.prems(2) by auto
  have o1: "out1 + length acc1 = out + length acc" "out1 \<le> length ini" using l Cons.prems(5,6) by (auto simp: out1_def)
  note c = control_ok_Cons [OF Cons.prems(3)]
  have "cmp = pre @ rev (token_bytes t @ E1) @ post" using Cons.prems(1) by (simp add: E1_def)
  then have "control_loop cmp (length pre) (Suc i) control (length pre + length (token_bytes t @ E1)) out (take out ini @ acc) =
      control_loop cmp (length pre) i (push_bit 1 control) (length pre + length E1) out1 (take out1 ini @ acc1)"
    using control_loop_token [OF _ _ c(1) acc1(1) o1(1) Cons.prems(6)] Cons.prems(2) by simp
  also have "\<dots> = Some (True, length pre + length E, out', take out' ini @ acc')"
    unfolding E1_def using Cons.prems k o1 c(2) acc1(2) by (intro Cons.IH [where post = "rev (token_bytes t) @ post"]) auto
  finally show ?case by (simp add: k E1_def add.assoc)
qed

end
