(* ===== verification/Spec2Isabelle.thy ===== *)
theory Spec2Isabelle
  imports Emu_Prelude Bit_Field Result_Code Handle_Table Thread_Queue_List Page_Table VM_Manager
    Memory_System ARM_Support Std_Heap Core_Timing IPC_Descriptors IPC_Translate Resource_Limit Kernel_Thread
    Wait_Object Kernel_Sync Address_Arbiter Kernel_SVC Memory_Region Process_Memory Process_Caps Shared_Memory Ports_Sessions File_Patches Code_LZSS
begin

text \<open>
  A verification library for the emulated operating-system kernel of a 3DS emulator: its guest memory, its scheduler and
  synchronisation objects, its inter-process communication and its timing. Source paths are relative to
  \<^verbatim>\<open>src/src\<close>.

  \<^bold>\<open>The program.\<close> The emulator runs guest code on up to four emulated cores. Guest code reaches the kernel through
  system calls (\<^verbatim>\<open>core/hle/kernel/svc.cpp\<close>), which find kernel objects in the handle table of the process and act on threads,
  synchronisation objects, memory and IPC buffers. The kernel keeps time with an event queue (\<^verbatim>\<open>core/core_timing.cpp\<close>), whose
  events wake sleeping threads. A process owns an address space (\<^verbatim>\<open>vm_manager.cpp\<close>), which is a list of areas and a page table that
  the CPU and the block operations of \<^verbatim>\<open>core/memory.cpp\<close> read; the physical memory behind it is allocated from three regions
  of FCRAM (\<^verbatim>\<open>memory.cpp\<close>).

  \<^bold>\<open>Theories.\<close>

  \<^item> \<open>Emu_Prelude\<close>: 32-bit arithmetic on naturals, the result type \<open>outcome\<close> (a value, an error code, or \<open>Crash\<close> for a
    failed assertion or an undefined access), list lemmas.
  \<^item> \<open>Bit_Field\<close> (\<^verbatim>\<open>common/bit_field.h\<close>), \<open>Result_Code\<close> (\<^verbatim>\<open>core/hle/result.h\<close>, \<^verbatim>\<open>errors.h\<close>): bit fields as a locale, result codes.
  \<^item> \<open>Handle_Table\<close> (\<^verbatim>\<open>handle_table.cpp\<close>): slots, generations and the free list; creation is exact, stale handles stay invalid.
  \<^item> \<open>Thread_Queue_List\<close> (\<^verbatim>\<open>common/thread_queue_list.h\<close>): the 64-level ready queue with its linked list of nonempty levels, and the
    locale of a priority queue that the scheduler relies on.
  \<^item> \<open>Page_Table\<close>, \<open>VM_Manager\<close> (\<^verbatim>\<open>vm_manager.cpp\<close>, \<^verbatim>\<open>common/memory_ref.h\<close>): host memory, pages and areas. \<open>contents\<close> abstracts an
    address space to a function from addresses to attributes; each operation is shown to be an update of that function,
    or an error without change, and to keep the invariant \<open>vm_inv\<close>, page table included.
  \<^item> \<open>Memory_System\<close> (\<^verbatim>\<open>core/memory.cpp\<close>): block operations and single accesses against a byte-level reference, watchpoints.
  \<^item> \<open>ARM_Support\<close> (\<^verbatim>\<open>core/arm/skyeye_common/armsupp.cpp\<close>): saturating arithmetic and flags on 32-bit words.
  \<^item> \<open>Std_Heap\<close>, \<open>Core_Timing\<close> (\<^verbatim>\<open>core_timing.cpp\<close>): the binary heap of the standard library as the event queue uses it, scheduling
    and \<^verbatim>\<open>Advance\<close>, unit conversions.
  \<^item> \<open>IPC_Descriptors\<close>, \<open>IPC_Translate\<close> (\<^verbatim>\<open>core/hle/ipc.h\<close>, \<^verbatim>\<open>ipc.cpp\<close>): translation descriptors and the copy of command buffers
    between processes.
  \<^item> \<open>Resource_Limit\<close> (\<^verbatim>\<open>resource_limit.cpp\<close>): limits and counters of a category of processes.
  \<^item> \<open>Kernel_Thread\<close> (\<^verbatim>\<open>thread.cpp\<close>): the state \<open>kernel\<close> shared by the following theories, threads, the managers of the cores, the
    limiter of core 1, rescheduling, and the invariants \<open>sched_inv\<close> and \<open>kinv\<close>.
  \<^item> \<open>Wait_Object\<close>, \<open>Kernel_Sync\<close> (\<^verbatim>\<open>wait_object.cpp\<close>, \<^verbatim>\<open>mutex.cpp\<close>, \<^verbatim>\<open>semaphore.cpp\<close>, \<^verbatim>\<open>event.cpp\<close>, \<^verbatim>\<open>timer.cpp\<close>): waiting, waking,
    acquisition and release, and their specifications.
  \<^item> \<open>Address_Arbiter\<close> (\<^verbatim>\<open>address_arbiter.cpp\<close>): waiting at an address.
  \<^item> \<open>Kernel_SVC\<close> (\<^verbatim>\<open>svc.cpp\<close>): the system calls on threads and synchronisation objects over the handle table and the resource limit.
  \<^item> \<open>Memory_Region\<close> (\<^verbatim>\<open>memory.cpp\<close>): the allocator of a region of FCRAM, over interval sets given by the locale \<open>interval_set\<close>.
  \<^item> \<open>Process_Memory\<close> (\<^verbatim>\<open>process.cpp\<close>, \<^verbatim>\<open>memory.cpp\<close>): heap, linear heap, thread-local storage, aliases and the end of a process;
    the layout of FCRAM and the special mappings.
  \<^item> \<open>Process_Caps\<close> (\<^verbatim>\<open>process.cpp\<close>): the decoder of capability descriptors.
  \<^item> \<open>Shared_Memory\<close> (\<^verbatim>\<open>shared_memory.cpp\<close>, \<^verbatim>\<open>svc.cpp\<close>): blocks of memory that several processes map, with the system calls on memory, over a
    kernel with any number of processes (locale \<open>process_views\<close>).
  \<^item> \<open>Ports_Sessions\<close> (\<^verbatim>\<open>client_port.cpp\<close>, \<^verbatim>\<open>server_port.cpp\<close>, \<^verbatim>\<open>client_session.cpp\<close>, \<^verbatim>\<open>server_session.cpp\<close>, \<^verbatim>\<open>svc.cpp\<close>): connections, requests and replies
    between threads, as a step relation \<open>ipc_step\<close> with its invariants \<open>ipc_inv\<close> and \<open>port_inv\<close>.

  \<^bold>\<open>What the theorems show.\<close> Each component with state has an invariant, which holds initially and which the operations with a specification keep
  (\<open>ht_inv\<close>, \<open>vm_inv\<close>, \<open>sched_inv\<close>, \<open>kinv\<close>, \<open>region_inv\<close>, \<open>proc_inv\<close>, \<open>rl_inv\<close>, \<open>ipc_inv\<close>, \<open>port_inv\<close>). On states with the invariant the specifications give
  the result of an operation on every branch: which error is returned and that nothing has changed then, or the exact new state;
  no assertion of the source fails unless the specification says so. Round trips (allocation and release, mapping and unmapping,
  writing and reading, watching and unwatching) restore the state. Loops of the source terminate. Across components: a
  wait ends by a signal or by its timer (\<open>Kernel_SVC\<close>), a request is handed to the best server thread that waits and a reply resumes
  its sender (\<open>Ports_Sessions\<close> on \<open>Wait_Object\<close>), processes that map a block of shared memory see the same bytes (\<open>Shared_Memory\<close>), what a process reads is what its areas are backed by (\<open>Memory_System\<close> on
  \<open>VM_Manager\<close>), and the memory of a process is accounted for exactly (\<open>Process_Memory\<close> on \<open>Memory_Region\<close>,
  \<open>VM_Manager\<close>, \<open>Resource_Limit\<close>). Some theorems state where the code departs from what it means to do: a mapping that changes
  the permissions of a neighbour, a semaphore count that overflows, a stopped thread that stays at its arbiter, a watchpoint
  loop that does not end, moved handles that stay open, clients that wait for a server that has gone, a reply that leaves a
  server asleep, a refused block of shared memory that is counted.

  \<^bold>\<open>Conventions.\<close> Addresses and sizes are naturals below \<open>2\<^sup>3\<^sup>2\<close> with wrap-around written as \<open>add32\<close> and \<open>sub32\<close>, or words where bits matter.
  Objects are identified by naturals in maps. Assertions, null pointers and invalid iterators are \<open>Crash\<close> or \<open>None\<close>.

  \<^bold>\<open>Loops and fuel.\<close> Loops over areas (\<open>range_loop\<close>, \<open>backing_blocks_loop\<close>) take \<open>loop_fuel\<close>, one more than the number of
  areas, which is enough because each iteration passes an area; the specifications prove the results, so that the fuel never
  runs out. The wake-up loop, \<^verbatim>\<open>Advance\<close>, the search for a thread to run and the watchpoint loops are \<open>partial_function\<close>s, for
  which termination is proved, or the failure to terminate. Everything else is structural.

  \<^bold>\<open>Parameters.\<close> The interval sets of \<^verbatim>\<open>boost::icl\<close> (locale \<open>interval_set\<close>, implemented by \<open>list_icl\<close>), the rasterizer (\<open>gpu\<close>), the cache
  marks of pages (\<open>cached\<close>), GPU registers, the host allocator (\<open>host_layout\<close>: allocations are nonnull and do not
  touch), callbacks of events, what a service of the host does with a request, references to kernel objects from outside the
  state of a theory, and whether a guest pointer is mapped.

  \<^bold>\<open>Not modelled.\<close> The services of the host and the contexts of their requests, starting a process, serialisation and saved states,
  the interpreter and the recompiler, graphics, audio, file systems, loaders, cryptography, the network and the front ends. Most of
  these are drivers of host interfaces or libraries, or large tables of commands. The copy of a command buffer (\<open>IPC_Translate\<close>) works on the memory
  of two processes and the delivery of requests (\<open>Ports_Sessions\<close>) on the threads; the second records the copies that it asks for.
\<close>

end
